(* ===== verification/Prelude.thy ===== *)
theory Prelude
  imports Main "HOL-Library.AList"
begin

text \<open>
  Shared ground of the development: the exceptions of the Python code as values of a sum
  type, Python dictionaries as association lists in insertion order (lookup is
  \<open>map_of\<close>, assignment \<open>AList.update\<close>, which replaces in place and appends new keys,
  deletion \<open>AList.delete\<close>), Python's list indexing, and the generic facts on lists and
  association lists that the component theories share.  Components collect their
  preservation lemmas in the named theorems declared here.
\<close>

named_theorems inv_intros "invariants hold initially and are kept by every operation"
named_theorems frame_simps "fields an operation leaves alone"

subsection \<open>Exceptions as values\<close>

datatype exn = ValueError | OutOfMemoryError | KeyError | IndexError | AssertionError | TypeError
  | ZeroDivisionError | RuntimeError

type_synonym 'a or_raise = "exn + 'a"

fun bindE :: "'e + 'a \<Rightarrow> ('a \<Rightarrow> 'e + 'b) \<Rightarrow> 'e + 'b" where
  "bindE (Inl e) f = Inl e"
| "bindE (Inr x) f = f x"

lemma bindE_Inr_iff: "bindE m f = Inr y \<longleftrightarrow> (\<exists>x. m = Inr x \<and> f x = Inr y)"
  by (cases m) auto

lemma bindE_Inl_iff: "bindE m f = Inl e \<longleftrightarrow> m = Inl e \<or> (\<exists>x. m = Inr x \<and> f x = Inl e)"
  by (cases m) auto

lemma bindE_split: "P (bindE m f) \<longleftrightarrow> (\<forall>e. m = Inl e \<longrightarrow> P (Inl e)) \<and> (\<forall>x. m = Inr x \<longrightarrow> P (f x))"
  by (cases m) auto

lemma bindE_cong [fundef_cong]:
  "m = m' \<Longrightarrow> (\<And>x. m' = Inr x \<Longrightarrow> f x = g x) \<Longrightarrow> bindE m f = bindE m' g"
  by (cases m') auto

text \<open>A call that may raise and may also not return (\<open>None\<close>), followed by another.\<close>

definition bindR :: "('e + 'a) option \<Rightarrow> ('a \<Rightarrow> ('e + 'b) option) \<Rightarrow> ('e + 'b) option" where
  "bindR m f = (case m of None \<Rightarrow> None | Some (Inl e) \<Rightarrow> Some (Inl e) | Some (Inr x) \<Rightarrow> f x)"

lemma bindR_simps [simp]:
  "bindR None f = None" "bindR (Some (Inl e)) f = Some (Inl e)" "bindR (Some (Inr x)) f = f x"
  by (simp_all add: bindR_def)

lemma bindR_Inr_iff: "bindR m f = Some (Inr y) \<longleftrightarrow> (\<exists>x. m = Some (Inr x) \<and> f x = Some (Inr y))"
  by (auto simp: bindR_def split: option.splits sum.splits)

text \<open>Which exception a call raised, if any.\<close>

fun raised :: "'a or_raise \<Rightarrow> exn option" where
  "raised (Inl e) = Some e"
| "raised (Inr _) = None"

text \<open>A Python loop over a list whose body may raise: it stops at the first exception.\<close>

fun foldE :: "('a \<Rightarrow> 's \<Rightarrow> 'e + 's) \<Rightarrow> 'a list \<Rightarrow> 's \<Rightarrow> 'e + 's" where
  "foldE f [] s = Inr s"
| "foldE f (x # xs) s = bindE (f x s) (foldE f xs)"

lemma foldE_append: "foldE f (xs @ ys) s = bindE (foldE f xs s) (foldE f ys)"
  by (induction xs arbitrary: s) (auto split: bindE_split simp: bindE_Inr_iff bindE_Inl_iff)

lemma foldE_invariant:
  assumes "foldE f xs s = Inr s'" and "P s"
    and "\<And>x s s'. x \<in> set xs \<Longrightarrow> P s \<Longrightarrow> f x s = Inr s' \<Longrightarrow> P s'"
  shows "P s'"
  using assms
proof (induction xs arbitrary: s)
  case Nil
  then show ?case by simp
next
  case (Cons x xs)
  from Cons.prems(1) obtain t where t: "f x s = Inr t" and rest: "foldE f xs t = Inr s'"
    by (auto simp: bindE_Inr_iff)
  from t Cons.prems(2,3) have "P t" by (meson list.set_intros(1))
  with rest show ?case by (rule Cons.IH) (meson Cons.prems(3) list.set_intros(2))
qed

lemma foldE_total:
  assumes "P s" and "\<And>x s. x \<in> set xs \<Longrightarrow> P s \<Longrightarrow> \<exists>s'. f x s = Inr s' \<and> P s'"
  shows "\<exists>s'. foldE f xs s = Inr s' \<and> P s'"
  using assms
proof (induction xs arbitrary: s)
  case Nil
  then show ?case by simp
next
  case (Cons x xs)
  then obtain t where t: "f x s = Inr t" "P t" by (meson list.set_intros(1))
  from t(2) have "\<exists>s'. foldE f xs t = Inr s' \<and> P s'"
    by (rule Cons.IH) (meson Cons.prems(2) list.set_intros(2))
  with t show ?case by simp
qed

text \<open>A comprehension whose element expression may raise.\<close>

fun mapE :: "('a \<Rightarrow> 'e + 'b) \<Rightarrow> 'a list \<Rightarrow> 'e + 'b list" where
  "mapE f [] = Inr []"
| "mapE f (x # xs) = bindE (f x) (\<lambda>y. bindE (mapE f xs) (\<lambda>ys. Inr (y # ys)))"

lemma mapE_Inr_iff: "mapE f xs = Inr ys \<longleftrightarrow> list_all2 (\<lambda>x y. f x = Inr y) xs ys"
  by (induction xs arbitrary: ys) (auto simp: bindE_Inr_iff list_all2_Cons1)

lemma mapE_length: "mapE f xs = Inr ys \<Longrightarrow> length ys = length xs"
  by (auto simp: mapE_Inr_iff dest: list_all2_lengthD)

lemma mapE_cong [fundef_cong]:
  "xs = ys \<Longrightarrow> (\<And>x. x \<in> set ys \<Longrightarrow> f x = g x) \<Longrightarrow> mapE f xs = mapE g ys"
  by (induction ys arbitrary: xs) auto

lemma mapE_all_Inr: "(\<And>x. x \<in> set xs \<Longrightarrow> f x = Inr (g x)) \<Longrightarrow> mapE f xs = Inr (map g xs)"
  by (induction xs) auto

subsection \<open>Python's list operations\<close>

text \<open>\<open>xs[i]\<close> for a non-negative index raises \<open>IndexError\<close> past the end.\<close>

definition py_nth :: "'a list \<Rightarrow> nat \<Rightarrow> 'a or_raise" where
  "py_nth xs i = (if i < length xs then Inr (xs ! i) else Inl IndexError)"

text \<open>\<open>xs[a:b]\<close> for non-negative bounds.\<close>

definition py_slice :: "nat \<Rightarrow> nat \<Rightarrow> 'a list \<Rightarrow> 'a list" where
  "py_slice a b xs = take (b - a) (drop a xs)"

lemma length_py_slice [simp]: "length (py_slice a b xs) = min (b - a) (length xs - a)"
  by (auto simp: py_slice_def)

lemma py_slice_append_take:
  "a \<le> b \<Longrightarrow> take a xs @ py_slice a b xs = take b xs"
  by (metis py_slice_def le_add_diff_inverse take_add)

text \<open>Ceiling division, as the code writes it: \<open>-(-n // d)\<close>.\<close>

definition ceil_div :: "int \<Rightarrow> int \<Rightarrow> int" where
  "ceil_div n d = - ((- n) div d)"

lemma int_le_div_iff: "0 < (d::int) \<Longrightarrow> k \<le> n div d \<longleftrightarrow> k * d \<le> n"
  by (smt (verit) div_mult_mod_eq mult_right_mono nonzero_mult_div_cancel_right pos_mod_bound
      pos_mod_sign zdiv_mono1)

lemma ceil_div_le_iff: "0 < d \<Longrightarrow> ceil_div n d \<le> k \<longleftrightarrow> n \<le> k * d"
  unfolding ceil_div_def using int_le_div_iff [of d "-k" "-n"] by simp linarith

subsection \<open>Dictionaries as association lists\<close>

lemma alist_update_fresh: "map_of d k = None \<Longrightarrow> AList.update k v d = d @ [(k, v)]"
  by (induction d) (auto split: if_splits)

lemma alist_split:
  assumes "distinct (map fst d)" and "map_of d k = Some v"
  obtains xs ys where "d = xs @ (k, v) # ys" "k \<notin> fst ` set xs" "k \<notin> fst ` set ys"
    "\<And>w. AList.update k w d = xs @ (k, w) # ys" "AList.delete k d = xs @ ys"
proof -
  from assms(2) have "(k, v) \<in> set d" by (rule map_of_SomeD)
  then obtain xs ys where d: "d = xs @ (k, v) # ys" by (auto dest: split_list)
  with assms(1) have k: "k \<notin> fst ` set xs" "k \<notin> fst ` set ys" by auto
  have "AList.update k w (xs @ (k, v) # ys) = xs @ (k, w) # ys" for w
    using k(1) by (induction xs) auto
  moreover have "AList.delete k (xs @ (k, v) # ys) = xs @ ys"
    using k by (induction xs) auto
  ultimately show ?thesis using that d k by blast
qed

lemma map_of_delete_if: "map_of (AList.delete k d) k' = (if k' = k then None else map_of d k')"
  by (simp add: delete_conv)

subsection \<open>Invariants of transition systems\<close>

text \<open>
  The contract the stateful components meet: their initial states satisfy an invariant and
  every step keeps it.  What follows is then true of every state a run can reach.
\<close>

locale invariant_system =
  fixes init :: "'s \<Rightarrow> bool" and step :: "'s \<Rightarrow> 's \<Rightarrow> bool" and inv :: "'s \<Rightarrow> bool"
  assumes inv_init: "init s \<Longrightarrow> inv s" and inv_step: "inv s \<Longrightarrow> step s t \<Longrightarrow> inv t"
begin

lemma inv_steps: "step\<^sup>*\<^sup>* s t \<Longrightarrow> inv s \<Longrightarrow> inv t"
  by (induction rule: rtranclp_induct) (auto intro: inv_step)

lemma reachable_inv: "init s \<Longrightarrow> step\<^sup>*\<^sup>* s t \<Longrightarrow> inv t"
  using inv_steps inv_init by blast

lemma reachable_safe:
  assumes "\<And>s. inv s \<Longrightarrow> P s" "init s" "step\<^sup>*\<^sup>* s t" shows "P t"
  using assms reachable_inv by blast

end

end
