(* ===== verification/Request.thy ===== *)
theory Request
  imports Prelude Complex_Main
begin

text \<open>
  \<^verbatim>\<open>engine/request.py\<close>: the request's lifecycle status, its sampling parameters, the
  \<open>Request\<close> dataclass and its methods.  Token ids, counts and limits are Python's unbounded
  integers (\<open>int\<close>), physical block ids are the naturals a \<open>range\<close> hands out, and a cached
  prefix node is the address of a trie node (theory \<open>Prefix_Cache\<close>).  The arrival time, a
  float in the code, is a real.
\<close>

datatype request_status =
    WAITING
  | RUNNING
  | PREEMPTED
  | FINISHED_STOPPED
  | FINISHED_LENGTH_CAPPED
  | FINISHED_ABORTED

definition status_finished :: "request_status \<Rightarrow> bool" where
  "status_finished st \<longleftrightarrow> st \<in> {FINISHED_STOPPED, FINISHED_LENGTH_CAPPED, FINISHED_ABORTED}"

record sampling_params =
  max_tokens :: int
  eos_token_id :: "int option"

definition default_sampling_params :: sampling_params where
  "default_sampling_params = \<lparr>max_tokens = 16, eos_token_id = None\<rparr>"

type_synonym node_addr = nat
type_synonym block_id = nat

record request =
  request_id :: string
  prompt_token_ids :: "int list"
  sampling_params :: sampling_params
  arrival_time :: real
  output_token_ids :: "int list"
  status :: request_status
  block_table :: "block_id list"
  cached_prefix_nodes :: "node_addr list"
  draft_token_ids :: "int list"
  num_computed_tokens :: int

text \<open>The dataclass constructor with its field defaults.\<close>

definition mk_request :: "string \<Rightarrow> int list \<Rightarrow> sampling_params \<Rightarrow> request" where
  "mk_request rid prompt sp =
     \<lparr>request_id = rid, prompt_token_ids = prompt, sampling_params = sp, arrival_time = 0,
      output_token_ids = [], status = WAITING, block_table = [], cached_prefix_nodes = [],
      draft_token_ids = [], num_computed_tokens = 0\<rparr>"

definition all_token_ids :: "request \<Rightarrow> int list" where
  "all_token_ids r = prompt_token_ids r @ output_token_ids r"

definition get_len :: "request \<Rightarrow> int" where
  "get_len r = int (length (prompt_token_ids r)) + int (length (output_token_ids r))"

definition get_num_new_tokens :: "request \<Rightarrow> int" where
  "get_num_new_tokens r = get_len r - num_computed_tokens r"

definition is_prefill :: "request \<Rightarrow> bool" where
  "is_prefill r \<longleftrightarrow> num_computed_tokens r < int (length (prompt_token_ids r))"

text \<open>The block size is positive (\<open>CacheConfig.__post_init__\<close>), so the division is Python's.\<close>

definition num_blocks_needed :: "request \<Rightarrow> int \<Rightarrow> int" where
  "num_blocks_needed r bs =
     (let len = get_len r in if len = 0 then 0 else (len + bs - 1) div bs)"

definition is_finished :: "request \<Rightarrow> bool" where
  "is_finished r \<longleftrightarrow> status_finished (status r)"

definition maybe_finish :: "request \<Rightarrow> request" where
  "maybe_finish r =
     (if status_finished (status r) then r
      else if (case eos_token_id (sampling_params r) of
                 None \<Rightarrow> False
               | Some eos \<Rightarrow> output_token_ids r \<noteq> [] \<and> last (output_token_ids r) = eos)
      then r\<lparr>status := FINISHED_STOPPED\<rparr>
      else if max_tokens (sampling_params r) \<le> int (length (output_token_ids r))
      then r\<lparr>status := FINISHED_LENGTH_CAPPED\<rparr>
      else r)"

subsection \<open>Facts the other components share\<close>

lemma status_finished_simps [simp]:
  "\<not> status_finished WAITING" "\<not> status_finished RUNNING" "\<not> status_finished PREEMPTED"
  "status_finished FINISHED_STOPPED" "status_finished FINISHED_LENGTH_CAPPED"
  "status_finished FINISHED_ABORTED"
  by (simp_all add: status_finished_def)

lemma get_len_nonneg [simp]: "0 \<le> get_len r"
  by (simp add: get_len_def)

lemma length_all_token_ids [simp]: "int (length (all_token_ids r)) = get_len r"
  by (simp add: all_token_ids_def get_len_def)

lemma num_blocks_needed_eq:
  assumes "0 < bs" shows "num_blocks_needed r bs = (get_len r + bs - 1) div bs"
  using assms by (simp add: num_blocks_needed_def Let_def)

lemma num_blocks_needed_nonneg [simp]:
  assumes "0 < bs" shows "0 \<le> num_blocks_needed r bs"
  using assms get_len_nonneg [of r]
  by (simp add: num_blocks_needed_eq pos_imp_zdiv_nonneg_iff del: get_len_nonneg)

text \<open>The blocks a request needs are the least number whose capacity holds its tokens.\<close>

lemma num_blocks_needed_le_iff:
  assumes "0 < bs" shows "num_blocks_needed r bs \<le> k \<longleftrightarrow> get_len r \<le> k * bs"
proof -
  have "num_blocks_needed r bs \<le> k \<longleftrightarrow> \<not> (k + 1 \<le> (get_len r + bs - 1) div bs)"
    using num_blocks_needed_eq [OF assms] by auto
  also have "\<dots> \<longleftrightarrow> get_len r \<le> k * bs"
    using int_le_div_iff [OF assms, of "k + 1" "get_len r + bs - 1"]
    by (auto simp: algebra_simps)
  finally show ?thesis .
qed

lemma maybe_finish_frame [simp]:
  "request_id (maybe_finish r) = request_id r"
  "prompt_token_ids (maybe_finish r) = prompt_token_ids r"
  "output_token_ids (maybe_finish r) = output_token_ids r"
  "block_table (maybe_finish r) = block_table r"
  "cached_prefix_nodes (maybe_finish r) = cached_prefix_nodes r"
  "draft_token_ids (maybe_finish r) = draft_token_ids r"
  "num_computed_tokens (maybe_finish r) = num_computed_tokens r"
  "sampling_params (maybe_finish r) = sampling_params r"
  by (simp_all add: maybe_finish_def)

text \<open>When a running request stops is decided by its last token and its length alone.\<close>

definition stops_at :: "sampling_params \<Rightarrow> int list \<Rightarrow> bool" where
  "stops_at sp out \<longleftrightarrow>
     (eos_token_id sp \<noteq> None \<and> out \<noteq> [] \<and> eos_token_id sp = Some (last out))
     \<or> max_tokens sp \<le> int (length out)"

lemma maybe_finish_finished_iff:
  "is_finished (maybe_finish r) \<longleftrightarrow> is_finished r \<or> stops_at (sampling_params r) (output_token_ids r)"
  by (auto simp: maybe_finish_def is_finished_def stops_at_def split: option.splits)

end
