(* ===== verification/Prefix_Cache.thy ===== *)
theory Prefix_Cache
  imports Request
begin

text \<open>
  \<^verbatim>\<open>engine/prefix_cache.py\<close>: the radix trie of cached prompt blocks.  A \<open>TrieNode\<close> is a
  mutable object shared by its parent's \<open>children\<close>, by the index \<open>_by_hash\<close>, and by the
  requests that hold it, so the model keeps an explicit store from node addresses to node
  contents; the dictionaries map hashes to addresses, in insertion order.  The hash function
  is the constructor argument \<open>hash_fn\<close> of the code (its default is Python's built-in
  \<open>hash\<close>): a parameter, about which nothing is assumed unless a lemma says so.
\<close>

type_synonym block_hash = int
type_synonym hash_function = "block_hash option \<Rightarrow> int list \<Rightarrow> block_hash"
type_synonym node_dict = "(block_hash \<times> node_addr) list"

record trie_node =
  n_block_hash :: block_hash
  n_parent_hash :: "block_hash option"
  n_token_ids :: "int list"
  n_physical_block_id :: block_id
  n_ref_count :: int
  n_children :: node_dict
  n_last_used :: int

record prefix_match =
  physical_block_ids :: "block_id list"
  num_matched_tokens :: int
  match_nodes :: "node_addr list"

record prefix_cache_stats =
  num_lookup_tokens :: int
  num_hit_tokens :: int
  num_lookups :: int
  num_hits :: int

record radix_trie =
  t_block_size :: int
  t_hash_fn :: hash_function
  t_roots :: node_dict
  t_by_hash :: node_dict
  t_clock :: int
  t_num_lookup_tokens :: int
  t_num_hit_tokens :: int
  t_num_lookups :: int
  t_num_hits :: int
  t_store :: "node_addr \<Rightarrow> trie_node"   \<comment> \<open>the \<open>TrieNode\<close> objects\<close>
  t_next_addr :: node_addr              \<comment> \<open>addresses below it are allocated\<close>

definition no_node :: trie_node where
  "no_node = \<lparr>n_block_hash = 0, n_parent_hash = None, n_token_ids = [], n_physical_block_id = 0,
              n_ref_count = 0, n_children = [], n_last_used = 0\<rparr>"

definition RadixTrie :: "int \<Rightarrow> hash_function \<Rightarrow> radix_trie" where
  "RadixTrie bs h =
     \<lparr>t_block_size = bs, t_hash_fn = h, t_roots = [], t_by_hash = [], t_clock = 0,
      t_num_lookup_tokens = 0, t_num_hit_tokens = 0, t_num_lookups = 0, t_num_hits = 0,
      t_store = (\<lambda>_. no_node), t_next_addr = 0\<rparr>"

text \<open>The full hit rate of the statistics, with the code's guard against division by zero.\<close>

definition hit_rate :: "prefix_cache_stats \<Rightarrow> real" where
  "hit_rate s = (if num_lookup_tokens s = 0 then 0
                 else real_of_int (num_hit_tokens s) / real_of_int (num_lookup_tokens s))"

definition request_hit_rate :: "prefix_cache_stats \<Rightarrow> real" where
  "request_hit_rate s = (if num_lookups s = 0 then 0
                         else real_of_int (num_hits s) / real_of_int (num_lookups s))"

definition trie_stats :: "radix_trie \<Rightarrow> prefix_cache_stats" where
  "trie_stats t = \<lparr>num_lookup_tokens = t_num_lookup_tokens t, num_hit_tokens = t_num_hit_tokens t,
                   num_lookups = t_num_lookups t, num_hits = t_num_hits t\<rparr>"

subsection \<open>Blocks of a token list\<close>

text \<open>\<open>tuple(token_ids[i * bs:(i + 1) * bs])\<close>.\<close>

definition token_block :: "int \<Rightarrow> int list \<Rightarrow> nat \<Rightarrow> int list" where
  "token_block bs toks i = py_slice (i * nat bs) ((i + 1) * nat bs) toks"

subsection \<open>Lookup\<close>

text \<open>The loop of \<open>match\<close> over the blocks still to compare: the parent hash, the current level.\<close>

fun match_walk :: "radix_trie \<Rightarrow> block_hash option \<Rightarrow> node_dict \<Rightarrow> int list list \<Rightarrow> node_addr list" where
  "match_walk t ph level [] = []"
| "match_walk t ph level (b # bs) =
     (let h = t_hash_fn t ph b in
      case map_of level h of
        None \<Rightarrow> []
      | Some a \<Rightarrow>
          if n_token_ids (t_store t a) \<noteq> b then []
          else a # match_walk t (Some h) (n_children (t_store t a)) bs)"

definition trie_match :: "radix_trie \<Rightarrow> int list \<Rightarrow> prefix_match" where
  "trie_match t toks =
     (let n_full = length toks div nat (t_block_size t);
          nodes = match_walk t None (t_roots t) (map (token_block (t_block_size t) toks) [0..<n_full])
      in \<lparr>physical_block_ids = map (\<lambda>a. n_physical_block_id (t_store t a)) nodes,
          num_matched_tokens = int (length nodes) * t_block_size t,
          match_nodes = nodes\<rparr>)"

definition upd_node :: "node_addr \<Rightarrow> (trie_node \<Rightarrow> trie_node) \<Rightarrow> radix_trie \<Rightarrow> radix_trie" where
  "upd_node a f t = t\<lparr>t_store := (t_store t)(a := f (t_store t a))\<rparr>"

definition acquire :: "radix_trie \<Rightarrow> prefix_match \<Rightarrow> int \<Rightarrow> radix_trie" where
  "acquire t m n_lookup =
     (let t1 = t\<lparr>t_clock := t_clock t + 1\<rparr>;
          t2 = fold (\<lambda>a. upd_node a (\<lambda>n. n\<lparr>n_ref_count := n_ref_count n + 1,
                                            n_last_used := t_clock t1\<rparr>)) (match_nodes m) t1;
          t3 = t2\<lparr>t_num_lookups := t_num_lookups t2 + 1,
                  t_num_lookup_tokens := t_num_lookup_tokens t2 + n_lookup\<rparr>
      in if match_nodes m \<noteq> []
         then t3\<lparr>t_num_hits := t_num_hits t3 + 1,
                 t_num_hit_tokens := t_num_hit_tokens t3 + num_matched_tokens m\<rparr>
         else t3)"

definition release_one :: "node_addr \<Rightarrow> radix_trie \<Rightarrow> radix_trie or_raise" where
  "release_one a t =
     (if n_ref_count (t_store t a) \<le> 0 then Inl ValueError
      else Inr (upd_node a (\<lambda>n. n\<lparr>n_ref_count := n_ref_count n - 1\<rparr>) t))"

definition release :: "radix_trie \<Rightarrow> node_addr list \<Rightarrow> radix_trie or_raise" where
  "release t nodes = foldE release_one nodes t"

subsection \<open>Insertion\<close>

text \<open>
  The dictionary of the current level is the roots or one node's children; \<open>parent\<close> says
  which, so that an assignment to it reaches the object the code's \<open>level\<close> refers to.
\<close>

definition level_of :: "radix_trie \<Rightarrow> node_addr option \<Rightarrow> node_dict" where
  "level_of t parent = (case parent of None \<Rightarrow> t_roots t | Some p \<Rightarrow> n_children (t_store t p))"

definition set_level :: "node_addr option \<Rightarrow> block_hash \<Rightarrow> node_addr \<Rightarrow> radix_trie \<Rightarrow> radix_trie" where
  "set_level parent h a t =
     (case parent of
        None \<Rightarrow> t\<lparr>t_roots := AList.update h a (t_roots t)\<rparr>
      | Some p \<Rightarrow> upd_node p (\<lambda>n. n\<lparr>n_children := AList.update h a (n_children n)\<rparr>) t)"

definition new_node :: "node_addr option \<Rightarrow> block_hash option \<Rightarrow> block_hash \<Rightarrow> int list \<Rightarrow> block_id
    \<Rightarrow> radix_trie \<Rightarrow> radix_trie" where
  "new_node parent ph h b phys t =
     (let a = t_next_addr t;
          node = \<lparr>n_block_hash = h, n_parent_hash = ph, n_token_ids = b, n_physical_block_id = phys,
                  n_ref_count = 0, n_children = [], n_last_used = t_clock t\<rparr>;
          t1 = t\<lparr>t_store := (t_store t)(a := node), t_next_addr := a + 1\<rparr>;
          t2 = set_level parent h a t1
      in t2\<lparr>t_by_hash := AList.update h a (t_by_hash t2)\<rparr>)"

definition touch_node :: "node_addr \<Rightarrow> radix_trie \<Rightarrow> radix_trie" where
  "touch_node a t = upd_node a (\<lambda>n. n\<lparr>n_ref_count := n_ref_count n + 1, n_last_used := t_clock t\<rparr>) t"

text \<open>The loop of \<open>insert\<close> over the block indices still to register.\<close>

fun insert_walk :: "int list \<Rightarrow> block_id list \<Rightarrow> nat list \<Rightarrow> node_addr option \<Rightarrow> block_hash option
    \<Rightarrow> node_addr list \<Rightarrow> radix_trie \<Rightarrow> (radix_trie \<times> node_addr list) or_raise" where
  "insert_walk toks phys [] parent ph nodes t = Inr (t, nodes)"
| "insert_walk toks phys (i # is) parent ph nodes t =
     (let b = token_block (t_block_size t) toks i;
          h = t_hash_fn t ph b
      in case map_of (level_of t parent) h of
           Some a \<Rightarrow>
             if n_token_ids (t_store t a) \<noteq> b then Inr (t, nodes)
             else insert_walk toks phys is (Some a) (Some h) (nodes @ [a]) (touch_node a t)
         | None \<Rightarrow>
             bindE (py_nth phys i) (\<lambda>pid.
               let a = t_next_addr t
               in insert_walk toks phys is (Some a) (Some h) (nodes @ [a])
                    (touch_node a (new_node parent ph h b pid t))))"

definition trie_insert :: "radix_trie \<Rightarrow> int list \<Rightarrow> block_id list \<Rightarrow> int \<Rightarrow> node_addr list
    \<Rightarrow> (radix_trie \<times> node_addr list) or_raise" where
  "trie_insert t toks phys n_computed known =
     (let n_blocks = nat (n_computed div t_block_size t);
          start = length known
      in if n_blocks \<le> start then Inr (t, take n_blocks known)
         else
           let t1 = t\<lparr>t_clock := t_clock t + 1\<rparr>;
               parent = (if known \<noteq> [] then Some (last known) else None);
               ph = map_option (\<lambda>p. n_block_hash (t_store t p)) parent
           in insert_walk toks phys [start..<n_blocks] parent ph known t1)"

subsection \<open>Eviction\<close>

definition evictable :: "radix_trie \<Rightarrow> node_addr \<Rightarrow> bool" where
  "evictable t a \<longleftrightarrow> n_ref_count (t_store t a) = 0 \<and> n_children (t_store t a) = []"

definition eviction_candidates :: "radix_trie \<Rightarrow> node_addr list" where
  "eviction_candidates t = filter (evictable t) (map snd (t_by_hash t))"

definition num_evictable_blocks :: "radix_trie \<Rightarrow> int" where
  "num_evictable_blocks t = int (length (eviction_candidates t))"

text \<open>\<open>del level[node.block_hash]; del self._by_hash[node.block_hash]\<close>, each raising on a missing key.\<close>

definition remove_node :: "node_addr \<Rightarrow> radix_trie \<Rightarrow> radix_trie or_raise" where
  "remove_node a t =
     (let n = t_store t a; h = n_block_hash n in
      bindE (case n_parent_hash n of
               None \<Rightarrow> Inr None
             | Some ph \<Rightarrow> (case map_of (t_by_hash t) ph of None \<Rightarrow> Inl KeyError | Some p \<Rightarrow> Inr (Some p)))
        (\<lambda>parent.
          if map_of (level_of t parent) h = None then Inl KeyError
          else
            let t1 = (case parent of
                        None \<Rightarrow> t\<lparr>t_roots := AList.delete h (t_roots t)\<rparr>
                      | Some p \<Rightarrow> upd_node p (\<lambda>m. m\<lparr>n_children := AList.delete h (n_children m)\<rparr>) t)
            in if map_of (t_by_hash t1) h = None then Inl KeyError
               else Inr (t1\<lparr>t_by_hash := AList.delete h (t_by_hash t1)\<rparr>)))"

definition evict_one_lru :: "radix_trie \<Rightarrow> (radix_trie \<times> block_id option) or_raise" where
  "evict_one_lru t =
     (let cands = eviction_candidates t in
      if cands = [] then Inr (t, None)
      else let victim = arg_min_list (\<lambda>a. n_last_used (t_store t a)) cands
           in bindE (remove_node victim t)
                (\<lambda>t'. Inr (t', Some (n_physical_block_id (t_store t victim)))))"

subsection \<open>The shape of a well-formed trie\<close>

text \<open>
  A node is live when the index \<open>_by_hash\<close> finds it under its own hash.  In a well-formed
  trie the index and the two kinds of levels (the roots, the children of a live node) agree:
  a level holds exactly the live nodes whose parent hash names it.
\<close>

definition live :: "radix_trie \<Rightarrow> node_addr \<Rightarrow> bool" where
  "live t a \<longleftrightarrow> map_of (t_by_hash t) (n_block_hash (t_store t a)) = Some a"

definition parent_link :: "radix_trie \<Rightarrow> node_addr \<Rightarrow> bool" where
  "parent_link t a \<longleftrightarrow>
     (let n = t_store t a in
      case n_parent_hash n of
        None \<Rightarrow> map_of (t_roots t) (n_block_hash n) = Some a
      | Some ph \<Rightarrow> (\<exists>p. map_of (t_by_hash t) ph = Some p
                      \<and> map_of (n_children (t_store t p)) (n_block_hash n) = Some a))"

definition children_ok :: "radix_trie \<Rightarrow> block_hash option \<Rightarrow> node_dict \<Rightarrow> bool" where
  "children_ok t ph level \<longleftrightarrow> distinct (map fst level)
     \<and> (\<forall>h c. map_of level h = Some c \<longrightarrow> map_of (t_by_hash t) h = Some c \<and> n_parent_hash (t_store t c) = ph)"

definition node_ok :: "radix_trie \<Rightarrow> block_hash \<Rightarrow> node_addr \<Rightarrow> bool" where
  "node_ok t h a \<longleftrightarrow>
     a < t_next_addr t \<and> n_block_hash (t_store t a) = h
     \<and> t_hash_fn t (n_parent_hash (t_store t a)) (n_token_ids (t_store t a)) = h
     \<and> length (n_token_ids (t_store t a)) = nat (t_block_size t)
     \<and> children_ok t (Some h) (n_children (t_store t a))
     \<and> parent_link t a"

definition trie_inv :: "radix_trie \<Rightarrow> bool" where
  "trie_inv t \<longleftrightarrow>
     0 < t_block_size t
     \<and> distinct (map fst (t_by_hash t))
     \<and> children_ok t None (t_roots t)
     \<and> (\<forall>h a. map_of (t_by_hash t) h = Some a \<longrightarrow> node_ok t h a)"

text \<open>
  What an insertion must not meet: a block that is missing from its level while its hash is in
  the index \<open>_by_hash\<close>, that is, in use by a block with another parent.  (A hash in use by another
  block of the same level only stops the loop.)  The walk is that of \<open>insert_walk\<close>.
\<close>

fun clash_free_walk :: "int list \<Rightarrow> block_id list \<Rightarrow> nat list \<Rightarrow> node_addr option \<Rightarrow> block_hash option
    \<Rightarrow> radix_trie \<Rightarrow> bool" where
  "clash_free_walk toks phys [] parent ph t \<longleftrightarrow> True"
| "clash_free_walk toks phys (i # is) parent ph t \<longleftrightarrow>
     (let b = token_block (t_block_size t) toks i; h = t_hash_fn t ph b
      in case map_of (level_of t parent) h of
           Some a \<Rightarrow> n_token_ids (t_store t a) \<noteq> b \<or> clash_free_walk toks phys is (Some a) (Some h) (touch_node a t)
         | None \<Rightarrow> map_of (t_by_hash t) h = None \<and>
             (i < length phys \<longrightarrow> clash_free_walk toks phys is (Some (t_next_addr t)) (Some h)
                (touch_node (t_next_addr t) (new_node parent ph h b (phys ! i) t))))"

definition clash_free_insert :: "radix_trie \<Rightarrow> int list \<Rightarrow> block_id list \<Rightarrow> int \<Rightarrow> node_addr list \<Rightarrow> bool" where
  "clash_free_insert t toks phys n_computed known \<longleftrightarrow>
     (let parent = (if known \<noteq> [] then Some (last known) else None)
      in clash_free_walk toks phys [length known..<nat (n_computed div t_block_size t)] parent
           (map_option (\<lambda>p. n_block_hash (t_store t p)) parent) (t\<lparr>t_clock := t_clock t + 1\<rparr>))"

text \<open>A hash function without any collision never leads to one.\<close>

definition collision_free :: "hash_function \<Rightarrow> bool" where
  "collision_free H \<longleftrightarrow> (\<forall>p b p' b'. H p b = H p' b' \<longrightarrow> p = p' \<and> b = b')"

fun node_path :: "radix_trie \<Rightarrow> node_addr option \<Rightarrow> node_addr list \<Rightarrow> bool" where
  "node_path t parent [] \<longleftrightarrow> True"
| "node_path t parent (a # as) \<longleftrightarrow>
     live t a \<and> n_parent_hash (t_store t a) = map_option (\<lambda>p. n_block_hash (t_store t p)) parent
     \<and> node_path t (Some a) as"

abbreviation parent_ok :: "radix_trie \<Rightarrow> node_addr option \<Rightarrow> bool" where
  "parent_ok t parent \<equiv> (case parent of None \<Rightarrow> True | Some p \<Rightarrow> live t p)"

abbreviation hash_of :: "radix_trie \<Rightarrow> node_addr option \<Rightarrow> block_hash option" where
  "hash_of t parent \<equiv> map_option (\<lambda>p. n_block_hash (t_store t p)) parent"

lemma trie_inv_init: "0 < bs \<Longrightarrow> trie_inv (RadixTrie bs H)"
  by (simp add: trie_inv_def RadixTrie_def children_ok_def)

lemma trie_inv_liveD:
  assumes "trie_inv t" "live t a" shows "node_ok t (n_block_hash (t_store t a)) a"
  using assms by (simp add: trie_inv_def live_def)

lemma trie_inv_by_hashD:
  assumes "trie_inv t" "map_of (t_by_hash t) h = Some a"
  shows "live t a" "n_block_hash (t_store t a) = h" "node_ok t h a"
  using assms by (auto simp: trie_inv_def live_def node_ok_def)

lemma live_set: "trie_inv t \<Longrightarrow> snd ` set (t_by_hash t) = {a. live t a}"
  by (force simp: trie_inv_def live_def node_ok_def dest: map_of_SomeD)

text \<open>In a well-formed trie a level holds a live node exactly when its parent hash says so.\<close>

lemma level_iff:
  assumes "trie_inv t" "parent_ok t parent"
  shows "map_of (level_of t parent) h = Some a \<longleftrightarrow>
         map_of (t_by_hash t) h = Some a \<and> n_parent_hash (t_store t a) = hash_of t parent"
proof (cases parent)
  case None
  have roots: "children_ok t None (t_roots t)" using assms(1) by (simp add: trie_inv_def)
  show ?thesis
  proof
    assume "map_of (level_of t parent) h = Some a"
    then show "map_of (t_by_hash t) h = Some a \<and> n_parent_hash (t_store t a) = hash_of t parent"
      using roots None by (simp add: level_of_def children_ok_def)
  next
    assume *: "map_of (t_by_hash t) h = Some a \<and> n_parent_hash (t_store t a) = hash_of t parent"
    then have "node_ok t h a" using trie_inv_by_hashD [OF assms(1)] by blast
    then have "parent_link t a" "n_block_hash (t_store t a) = h" by (auto simp: node_ok_def)
    with * None show "map_of (level_of t parent) h = Some a"
      by (simp add: parent_link_def Let_def level_of_def)
  qed
next
  case (Some p)
  then have p: "live t p" using assms by simp
  have ok: "node_ok t (n_block_hash (t_store t p)) p" by (rule trie_inv_liveD [OF assms(1) p])
  show ?thesis
  proof
    assume "map_of (level_of t parent) h = Some a"
    then show "map_of (t_by_hash t) h = Some a \<and> n_parent_hash (t_store t a) = hash_of t parent"
      using ok Some by (auto simp: level_of_def node_ok_def children_ok_def)
  next
    assume *: "map_of (t_by_hash t) h = Some a \<and> n_parent_hash (t_store t a) = hash_of t parent"
    then have "node_ok t h a" using trie_inv_by_hashD [OF assms(1)] by blast
    then have "parent_link t a" "n_block_hash (t_store t a) = h" by (auto simp: node_ok_def)
    with * Some obtain q where "map_of (t_by_hash t) (n_block_hash (t_store t p)) = Some q"
      and "map_of (n_children (t_store t q)) h = Some a"
      by (auto simp: parent_link_def Let_def)
    with p Some show "map_of (level_of t parent) h = Some a"
      by (simp add: level_of_def live_def)
  qed
qed

text \<open>Without collisions a hash missing from its level is missing from the whole trie.\<close>

lemma fresh_hash:
  assumes "trie_inv t" "collision_free (t_hash_fn t)" "parent_ok t parent"
    and "map_of (level_of t parent) (t_hash_fn t (hash_of t parent) b) = None"
  shows "map_of (t_by_hash t) (t_hash_fn t (hash_of t parent) b) = None"
proof (rule ccontr)
  let ?h = "t_hash_fn t (hash_of t parent) b"
  assume "map_of (t_by_hash t) ?h \<noteq> None"
  then obtain a where a: "map_of (t_by_hash t) ?h = Some a" by auto
  then have "node_ok t ?h a" using trie_inv_by_hashD [OF assms(1)] by blast
  then have "n_parent_hash (t_store t a) = hash_of t parent"
    using assms(2) unfolding node_ok_def collision_free_def by metis
  with a level_iff [OF assms(1,3), of ?h a] assms(4) show False by simp
qed

definition same_shape :: "radix_trie \<Rightarrow> radix_trie \<Rightarrow> bool" where
  "same_shape t t' \<longleftrightarrow>
     t_block_size t' = t_block_size t \<and> t_hash_fn t' = t_hash_fn t \<and> t_roots t' = t_roots t
     \<and> t_by_hash t' = t_by_hash t \<and> t_next_addr t' = t_next_addr t
     \<and> (\<forall>a. n_block_hash (t_store t' a) = n_block_hash (t_store t a)
          \<and> n_parent_hash (t_store t' a) = n_parent_hash (t_store t a)
          \<and> n_token_ids (t_store t' a) = n_token_ids (t_store t a)
          \<and> n_physical_block_id (t_store t' a) = n_physical_block_id (t_store t a)
          \<and> n_children (t_store t' a) = n_children (t_store t a))"

lemma same_shape_refl [simp]: "same_shape t t" by (simp add: same_shape_def)
lemma same_shape_trans: "same_shape t u \<Longrightarrow> same_shape u v \<Longrightarrow> same_shape t v"
  by (simp add: same_shape_def)

lemma same_shape_upd:
  assumes "\<And>n. n_block_hash (f n) = n_block_hash n \<and> n_parent_hash (f n) = n_parent_hash n
     \<and> n_token_ids (f n) = n_token_ids n \<and> n_physical_block_id (f n) = n_physical_block_id n
     \<and> n_children (f n) = n_children n"
  shows "same_shape t (upd_node a f t)"
  using assms by (simp add: same_shape_def upd_node_def)

lemma same_shape_live: "same_shape t t' \<Longrightarrow> live t' a = live t a"
  by (simp add: same_shape_def live_def)

lemma same_shape_path: "same_shape t t' \<Longrightarrow> node_path t' p as = node_path t p as"
proof (induction as arbitrary: p)
  case (Cons a as)
  then have "hash_of t' p = hash_of t p" by (cases p) (auto simp: same_shape_def)
  with Cons show ?case by (auto simp: same_shape_live) (auto simp: same_shape_def)
qed simp

lemma same_shape_inv: "same_shape t t' \<Longrightarrow> trie_inv t' = trie_inv t"
proof -
  assume s: "same_shape t t'"
  then have ch: "children_ok t' = children_ok t"
    by (intro ext) (simp add: same_shape_def children_ok_def)
  from s have "parent_link t' = parent_link t"
    by (intro ext) (simp add: same_shape_def parent_link_def Let_def split: option.split)
  with s ch have "node_ok t' = node_ok t"
    by (intro ext) (simp add: same_shape_def node_ok_def)
  with s ch show ?thesis by (simp add: same_shape_def trie_inv_def)
qed

lemma same_shape_fold:
  assumes "\<And>a t. same_shape t (f a t)" shows "same_shape t (fold f as t)"
  using assms by (induction as arbitrary: t) (auto intro: same_shape_trans)

lemma acquire_shape: "same_shape t (acquire t m n)"
proof -
  let ?t1 = "t\<lparr>t_clock := t_clock t + 1\<rparr>"
  let ?f = "\<lambda>a. upd_node a (\<lambda>n. n\<lparr>n_ref_count := n_ref_count n + 1, n_last_used := t_clock ?t1\<rparr>)"
  have "same_shape ?t1 (fold ?f (match_nodes m) ?t1)"
    by (rule same_shape_fold) (rule same_shape_upd, simp)
  then show ?thesis by (simp add: acquire_def Let_def same_shape_def)
qed

lemma release_one_shape: "release_one a t = Inr t' \<Longrightarrow> same_shape t t'"
  by (auto simp: release_one_def split: if_splits intro: same_shape_upd)

lemma release_shape: "release t as = Inr t' \<Longrightarrow> same_shape t t'"
  unfolding release_def
  by (erule foldE_invariant) (auto intro: same_shape_trans release_one_shape)

lemma touch_shape: "same_shape t (touch_node a t)"
  unfolding touch_node_def by (rule same_shape_upd) simp



subsection \<open>A new node\<close>

lemma new_node_fields:
  "t_block_size (new_node parent ph h b pid t) = t_block_size t"
  "t_hash_fn (new_node parent ph h b pid t) = t_hash_fn t"
  "t_clock (new_node parent ph h b pid t) = t_clock t"
  "t_next_addr (new_node parent ph h b pid t) = Suc (t_next_addr t)"
  "t_by_hash (new_node parent ph h b pid t) = AList.update h (t_next_addr t) (t_by_hash t)"
  "t_roots (new_node parent ph h b pid t) =
     (if parent = None then AList.update h (t_next_addr t) (t_roots t) else t_roots t)"
  by (auto simp: new_node_def set_level_def upd_node_def Let_def split: option.split)

lemma new_node_store:
  assumes "parent \<noteq> Some (t_next_addr t)"
  shows "t_store (new_node parent ph h b pid t) c =
    (if c = t_next_addr t
     then \<lparr>n_block_hash = h, n_parent_hash = ph, n_token_ids = b, n_physical_block_id = pid,
           n_ref_count = 0, n_children = [], n_last_used = t_clock t\<rparr>
     else if parent = Some c
     then (t_store t c)\<lparr>n_children := AList.update h (t_next_addr t) (n_children (t_store t c))\<rparr>
     else t_store t c)"
  using assms by (auto simp: new_node_def set_level_def upd_node_def Let_def split: option.split)

lemma new_node_inv:
  fixes pid
  assumes inv: "trie_inv t" and fresh: "map_of (t_by_hash t) h = None" and par: "parent_ok t parent"
    and h: "h = t_hash_fn t (hash_of t parent) b" and len: "length b = nat (t_block_size t)"
    and miss: "map_of (level_of t parent) h = None"
  defines "t' \<equiv> new_node parent (hash_of t parent) h b pid t"
  shows "trie_inv t'"
    and "\<And>c. live t' c \<longleftrightarrow> live t c \<or> c = t_next_addr t"
    and "t_by_hash t' = t_by_hash t @ [(h, t_next_addr t)]"
proof -
  let ?a = "t_next_addr t"
  have lt: "c < ?a" if "map_of (t_by_hash t) g = Some c" for g c
    using trie_inv_by_hashD(3) [OF inv that] by (simp add: node_ok_def)
  have plt: "parent \<noteq> Some ?a" using par lt [of "n_block_hash (t_store t ?a)" ?a] by (auto simp: live_def)
  note flds = new_node_fields [of parent "hash_of t parent" h b pid t, folded t'_def]
  show by_hash: "t_by_hash t' = t_by_hash t @ [(h, ?a)]"
    by (simp add: flds alist_update_fresh [OF fresh])
  have bh: "map_of (t_by_hash t') g = (if g = h then Some ?a else map_of (t_by_hash t) g)" for g
    by (simp add: flds update_conv')
  note st = new_node_store [OF plt, of "hash_of t parent" h b pid, folded t'_def]
  have st_old: "n_block_hash (t_store t' c) = n_block_hash (t_store t c)
      \<and> n_parent_hash (t_store t' c) = n_parent_hash (t_store t c)
      \<and> n_token_ids (t_store t' c) = n_token_ids (t_store t c)" if "c \<noteq> ?a" for c
    using that by (simp add: st)
  have lvl: "children_ok t' p (AList.update h ?a d)"
    if "children_ok t p d" "p = hash_of t parent" for p d
    using that fresh lt unfolding children_ok_def
    by (auto simp: distinct_update update_conv' bh st split: if_splits)
  have keep: "children_ok t' p d" if "children_ok t p d" for p d
    using that fresh st_old lt unfolding children_ok_def bh by (metis option.distinct(1) nat_neq_iff)
  have roots: "children_ok t None (t_roots t)" using inv by (simp add: trie_inv_def)
  have "node_ok t' g c" if g: "map_of (t_by_hash t') g = Some c" for g c
  proof (cases "g = h")
    case True
    with g bh have c: "c = ?a" by simp
    have "parent_link t' ?a"
    proof (cases parent)
      case None
      then show ?thesis by (simp add: parent_link_def Let_def st flds update_conv')
    next
      case (Some p)
      then have "map_of (t_by_hash t) (n_block_hash (t_store t p)) = Some p" using par by (simp add: live_def)
      then have "map_of (t_by_hash t') (n_block_hash (t_store t p)) = Some p" using bh fresh by auto
      moreover have "p \<noteq> ?a" using plt Some by simp
      ultimately show ?thesis using Some
        by (simp add: parent_link_def Let_def st update_conv')
    qed
    then show ?thesis using True c h len
      by (simp add: node_ok_def st flds children_ok_def)
  next
    case False
    then have old: "map_of (t_by_hash t) g = Some c" using g bh by simp
    have ok: "node_ok t g c" by (rule trie_inv_by_hashD(3) [OF inv old])
    have ca: "c < ?a" by (rule lt [OF old])
    have kids_t: "children_ok t (Some g) (n_children (t_store t c))"
      and hash_c: "n_block_hash (t_store t c) = g" using ok by (auto simp: node_ok_def)
    have kids: "children_ok t' (Some g) (n_children (t_store t' c))"
    proof (cases "parent = Some c")
      case True
      then have "Some g = hash_of t parent" using hash_c by simp
      from lvl [OF kids_t this] True ca show ?thesis by (simp add: st)
    next
      case False
      with keep [OF kids_t] ca show ?thesis by (simp add: st)
    qed
    have "parent_link t c" "n_block_hash (t_store t c) = g" using ok by (auto simp: node_ok_def)
    then have "parent_link t' c"
    proof (cases "n_parent_hash (t_store t c)")
      case None
      then show ?thesis using \<open>parent_link t c\<close> False ca \<open>n_block_hash (t_store t c) = g\<close>
        by (simp add: parent_link_def Let_def st_old flds update_conv')
    next
      case (Some q)
      then obtain p where p: "map_of (t_by_hash t) q = Some p" "map_of (n_children (t_store t p)) g = Some c"
        using \<open>parent_link t c\<close> \<open>n_block_hash (t_store t c) = g\<close> by (auto simp: parent_link_def Let_def)
      have "map_of (t_by_hash t') q = Some p" using p(1) bh fresh by auto
      moreover have "map_of (n_children (t_store t' p)) g = Some c"
        using p lt [OF p(1)] False by (simp add: st update_conv')
      ultimately show ?thesis using Some ca \<open>n_block_hash (t_store t c) = g\<close>
        by (simp add: parent_link_def Let_def st_old)
    qed
    with ok kids ca show ?thesis by (simp add: node_ok_def st_old flds)
  qed
  moreover have "children_ok t' None (t_roots t')"
    using lvl [of None "t_roots t"] keep [of None "t_roots t"] roots
    by (simp add: flds)
  moreover have "distinct (map fst (t_by_hash t'))" "0 < t_block_size t'"
    using inv by (simp_all add: flds trie_inv_def distinct_update)
  ultimately show "trie_inv t'" by (simp add: trie_inv_def)
  show "live t' c \<longleftrightarrow> live t c \<or> c = ?a" for c
  proof (cases "c = ?a")
    case True
    then show ?thesis by (simp add: live_def st bh)
  next
    case False
    then show ?thesis using fresh lt by (auto simp: live_def st_old bh)
  qed
qed

subsection \<open>Removing a leaf\<close>

lemma remove_node_inv:
  assumes inv: "trie_inv t" and a: "live t a" and leaf: "n_children (t_store t a) = []"
  obtains t' where "remove_node a t = Inr t'" "trie_inv t'"
    "\<And>c. live t' c \<longleftrightarrow> live t c \<and> c \<noteq> a"
    "t_by_hash t' = AList.delete (n_block_hash (t_store t a)) (t_by_hash t)"
    "\<And>c. \<exists>ch. t_store t' c = (t_store t c)\<lparr>n_children := ch\<rparr>"
    "t_block_size t' = t_block_size t" "t_hash_fn t' = t_hash_fn t" "t_clock t' = t_clock t"
    "t_next_addr t' = t_next_addr t"
proof -
  let ?h = "n_block_hash (t_store t a)"
  have ok: "node_ok t ?h a" by (rule trie_inv_liveD [OF inv a])
  have bh: "map_of (t_by_hash t) ?h = Some a" using a by (simp add: live_def)
  define parent where "parent = (case n_parent_hash (t_store t a) of None \<Rightarrow> None | Some ph \<Rightarrow> map_of (t_by_hash t) ph)"
  have par: "(case n_parent_hash (t_store t a) of None \<Rightarrow> Inr None
               | Some ph \<Rightarrow> (case map_of (t_by_hash t) ph of None \<Rightarrow> Inl KeyError | Some p \<Rightarrow> Inr (Some p))) = Inr parent"
    and lvl: "map_of (level_of t parent) ?h = Some a"
    and parok: "parent_ok t parent" and hpar: "n_parent_hash (t_store t a) = hash_of t parent"
    using ok trie_inv_by_hashD [OF inv]
    by (auto simp: node_ok_def parent_link_def Let_def parent_def level_of_def split: option.splits)
  define t1 where "t1 = (case parent of
      None \<Rightarrow> t\<lparr>t_roots := AList.delete ?h (t_roots t)\<rparr>
    | Some p \<Rightarrow> upd_node p (\<lambda>m. m\<lparr>n_children := AList.delete ?h (n_children m)\<rparr>) t)"
  define t' where "t' = t1\<lparr>t_by_hash := AList.delete ?h (t_by_hash t)\<rparr>"
  have t1bh: "t_by_hash t1 = t_by_hash t" by (auto simp: t1_def upd_node_def split: option.split)
  have res: "remove_node a t = Inr t'"
    using lvl bh by (simp add: remove_node_def Let_def par t1_def [symmetric] t1bh t'_def)
  have flds: "t_block_size t' = t_block_size t" "t_hash_fn t' = t_hash_fn t" "t_clock t' = t_clock t"
    "t_next_addr t' = t_next_addr t" "t_by_hash t' = AList.delete ?h (t_by_hash t)"
    "t_roots t' = (if parent = None then AList.delete ?h (t_roots t) else t_roots t)"
    by (auto simp: t'_def t1_def upd_node_def split: option.split)
  have st: "t_store t' c = (if parent = Some c
      then (t_store t c)\<lparr>n_children := AList.delete ?h (n_children (t_store t c))\<rparr> else t_store t c)" for c
    by (auto simp: t'_def t1_def upd_node_def split: option.split)
  have st_old: "n_block_hash (t_store t' c) = n_block_hash (t_store t c)
      \<and> n_parent_hash (t_store t' c) = n_parent_hash (t_store t c)
      \<and> n_token_ids (t_store t' c) = n_token_ids (t_store t c)" for c
    by (simp add: st)
  have bh': "map_of (t_by_hash t') g = (if g = ?h then None else map_of (t_by_hash t) g)" for g
    by (simp add: flds map_of_delete_if)
  have cut: "children_ok t' p (AList.delete ?h d)" if "children_ok t p d" for p d
    using that unfolding children_ok_def by (auto simp: distinct_delete map_of_delete_if bh' st_old split: if_splits)
  have keep: "children_ok t' p d" if "children_ok t p d" "map_of d ?h = None" for p d
    using that unfolding children_ok_def by (auto simp: bh' st_old)
  have other: "map_of d ?h = None"
    if "children_ok t p d" "p \<noteq> hash_of t parent" for p d
    using that bh hpar unfolding children_ok_def by (metis not_None_eq option.inject)
  have "node_ok t' g c" if g: "map_of (t_by_hash t') g = Some c" for g c
  proof -
    have old: "map_of (t_by_hash t) g = Some c" and gh: "g \<noteq> ?h" using g bh' by (auto split: if_splits)
    have ok: "node_ok t g c" by (rule trie_inv_by_hashD(3) [OF inv old])
    have kids_t: "children_ok t (Some g) (n_children (t_store t c))"
      and hash_c: "n_block_hash (t_store t c) = g" and link: "parent_link t c"
      using ok by (auto simp: node_ok_def)
    have kids: "children_ok t' (Some g) (n_children (t_store t' c))"
    proof (cases "parent = Some c")
      case True
      then show ?thesis using cut [OF kids_t] by (simp add: st)
    next
      case False
      have "Some g \<noteq> hash_of t parent"
      proof (cases parent)
        case (Some p)
        then have "map_of (t_by_hash t) (n_block_hash (t_store t p)) = Some p" using parok by (simp add: live_def)
        with old False Some show ?thesis by auto
      qed simp
      with False keep [OF kids_t other [OF kids_t]] show ?thesis by (simp add: st)
    qed
    have "parent_link t' c"
    proof (cases "n_parent_hash (t_store t c)")
      case None
      then show ?thesis using link gh hash_c
        by (simp add: parent_link_def Let_def st_old flds map_of_delete_if)
    next
      case (Some q)
      then obtain p where p: "map_of (t_by_hash t) q = Some p" "map_of (n_children (t_store t p)) g = Some c"
        using link hash_c by (auto simp: parent_link_def Let_def)
      have "q \<noteq> ?h" using p bh leaf by auto
      then have "map_of (t_by_hash t') q = Some p" using p(1) bh' by simp
      moreover have "map_of (n_children (t_store t' p)) g = Some c"
        using p(2) gh by (simp add: st map_of_delete_if)
      ultimately show ?thesis using Some hash_c by (simp add: parent_link_def Let_def st_old)
    qed
    with ok kids show ?thesis by (simp add: node_ok_def st_old flds)
  qed
  moreover have "children_ok t' None (t_roots t')"
  proof -
    have roots: "children_ok t None (t_roots t)" using inv by (simp add: trie_inv_def)
    show ?thesis
    proof (cases parent)
      case None
      then show ?thesis using cut [OF roots] by (simp add: flds)
    next
      case (Some p)
      then show ?thesis using keep [OF roots other [OF roots]] by (simp add: flds)
    qed
  qed
  ultimately have inv': "trie_inv t'"
    using inv by (simp add: trie_inv_def flds distinct_delete)
  have "live t' c \<longleftrightarrow> live t c \<and> c \<noteq> a" for c
  proof (cases "n_block_hash (t_store t c) = ?h")
    case True
    then show ?thesis using bh by (simp add: live_def st_old bh')
  next
    case False
    then have "c \<noteq> a" by blast
    with False show ?thesis by (simp add: live_def st_old bh')
  qed
  moreover have "\<exists>ch. t_store t' c = (t_store t c)\<lparr>n_children := ch\<rparr>" for c
  proof (cases "parent = Some c")
    case False
    then have "t_store t' c = (t_store t c)\<lparr>n_children := n_children (t_store t c)\<rparr>" by (simp add: st)
    then show ?thesis by blast
  qed (auto simp: st)
  ultimately show ?thesis using that [OF res inv'] flds by blast
qed

lemma eviction_candidates_iff:
  "trie_inv t \<Longrightarrow> a \<in> set (eviction_candidates t) \<longleftrightarrow> live t a \<and> evictable t a"
  using live_set [of t] by (auto simp: eviction_candidates_def)

text \<open>The victim: a live leaf nobody holds, used no later than any other such leaf.\<close>

definition lru_victim :: "radix_trie \<Rightarrow> node_addr" where
  "lru_victim t = arg_min_list (\<lambda>a. n_last_used (t_store t a)) (eviction_candidates t)"

lemma lru_victim_props:
  assumes "trie_inv t" "eviction_candidates t \<noteq> []"
  shows "live t (lru_victim t)" "evictable t (lru_victim t)"
    "\<And>b. live t b \<Longrightarrow> evictable t b \<Longrightarrow> n_last_used (t_store t (lru_victim t)) \<le> n_last_used (t_store t b)"
proof -
  let ?f = "\<lambda>a. n_last_used (t_store t a)"
  have "lru_victim t \<in> set (eviction_candidates t)"
    unfolding lru_victim_def by (rule arg_min_list_in [OF assms(2)])
  then show "live t (lru_victim t)" "evictable t (lru_victim t)"
    using eviction_candidates_iff [OF assms(1)] by auto
  have "?f (lru_victim t) = Min (?f ` set (eviction_candidates t))"
    unfolding lru_victim_def by (rule f_arg_min_list_f [OF assms(2)])
  then show "\<And>b. live t b \<Longrightarrow> evictable t b \<Longrightarrow> ?f (lru_victim t) \<le> ?f b"
    using eviction_candidates_iff [OF assms(1)] by simp
qed

lemma evict_one_lru_None_iff:
  assumes "trie_inv t"
  shows "evict_one_lru t = Inr (t, None) \<longleftrightarrow> (\<nexists>a. live t a \<and> evictable t a)"
proof -
  have "eviction_candidates t = [] \<longleftrightarrow> (\<nexists>a. live t a \<and> evictable t a)"
    using eviction_candidates_iff [OF assms] by (metis list.set_intros(1) neq_Nil_conv empty_iff empty_set)
  then show ?thesis
    by (auto simp: evict_one_lru_def Let_def bindE_Inr_iff)
qed

lemma evict_one_lru_inv:
  assumes inv: "trie_inv t" and c: "eviction_candidates t \<noteq> []"
  obtains t' where "evict_one_lru t = Inr (t', Some (n_physical_block_id (t_store t (lru_victim t))))"
    "remove_node (lru_victim t) t = Inr t'" "trie_inv t'"
    "\<And>c. live t' c \<longleftrightarrow> live t c \<and> c \<noteq> lru_victim t"
    "t_by_hash t' = AList.delete (n_block_hash (t_store t (lru_victim t))) (t_by_hash t)"
    "\<And>c. \<exists>ch. t_store t' c = (t_store t c)\<lparr>n_children := ch\<rparr>"
    "t_block_size t' = t_block_size t" "t_hash_fn t' = t_hash_fn t"
proof -
  have leaf: "n_children (t_store t (lru_victim t)) = []"
    using lru_victim_props(2) [OF assms] by (simp add: evictable_def)
  obtain t' where t': "remove_node (lru_victim t) t = Inr t'" "trie_inv t'"
    "\<And>c. live t' c \<longleftrightarrow> live t c \<and> c \<noteq> lru_victim t"
    "t_by_hash t' = AList.delete (n_block_hash (t_store t (lru_victim t))) (t_by_hash t)"
    "\<And>c. \<exists>ch. t_store t' c = (t_store t c)\<lparr>n_children := ch\<rparr>"
    "t_block_size t' = t_block_size t" "t_hash_fn t' = t_hash_fn t"
    using remove_node_inv [OF inv lru_victim_props(1) [OF assms] leaf] by metis
  from t'(1) have "evict_one_lru t = Inr (t', Some (n_physical_block_id (t_store t (lru_victim t))))"
    by (simp add: evict_one_lru_def Let_def c lru_victim_def)
  from that [OF this t'] show ?thesis .
qed

subsection \<open>Root paths\<close>

definition last_node :: "node_addr list \<Rightarrow> node_addr option" where
  "last_node as = (if as = [] then None else Some (last as))"

definition kept :: "radix_trie \<Rightarrow> radix_trie \<Rightarrow> node_addr \<Rightarrow> bool" where
  "kept t t' a \<longleftrightarrow> live t' a
     \<and> n_block_hash (t_store t' a) = n_block_hash (t_store t a)
     \<and> n_parent_hash (t_store t' a) = n_parent_hash (t_store t a)
     \<and> n_token_ids (t_store t' a) = n_token_ids (t_store t a)
     \<and> n_physical_block_id (t_store t' a) = n_physical_block_id (t_store t a)"

lemma node_path_append:
  "node_path t p (as @ bs) \<longleftrightarrow> node_path t p as \<and> node_path t (if as = [] then p else Some (last as)) bs"
  by (induction as arbitrary: p) auto

lemma node_path_snoc:
  "node_path t None (as @ [a]) \<longleftrightarrow> node_path t None as \<and> live t a
     \<and> n_parent_hash (t_store t a) = hash_of t (last_node as)"
  by (simp add: node_path_append last_node_def)

lemma node_path_live: "node_path t p as \<Longrightarrow> a \<in> set as \<Longrightarrow> live t a"
  by (induction as arbitrary: p) auto

lemma node_path_last_ok: "node_path t None as \<Longrightarrow> parent_ok t (last_node as)"
  using node_path_live [of t None as "last as"] by (simp add: last_node_def)

lemma node_path_kept:
  assumes "\<And>a. a \<in> set as \<Longrightarrow> kept t t' a" and "hash_of t' p = hash_of t p"
  shows "node_path t p as \<Longrightarrow> node_path t' p as"
  using assms
proof (induction as arbitrary: p)
  case (Cons a as)
  have "kept t t' a" using Cons.prems(2) by simp
  moreover have "node_path t' (Some a) as"
    using Cons.prems \<open>kept t t' a\<close> by (intro Cons.IH) (auto simp: kept_def)
  ultimately show ?case using Cons.prems by (simp add: kept_def)
qed simp

text \<open>A live node is determined by its hash, so a root path never repeats a node.\<close>

lemma live_hash_inj: "live t a \<Longrightarrow> live t b \<Longrightarrow> n_block_hash (t_store t a) = n_block_hash (t_store t b) \<Longrightarrow> a = b"
  by (simp add: live_def)

lemma node_path_same_end:
  "node_path t None (as @ [a]) \<Longrightarrow> node_path t None (bs @ [a]) \<Longrightarrow> as = bs"
proof (induction as arbitrary: a bs rule: rev_induct)
  case Nil
  then show ?case
    using node_path_snoc [of t bs a] by (auto simp: last_node_def split: if_splits)
next
  case (snoc x as)
  show ?case
  proof (cases bs rule: rev_cases)
    case Nil
    with snoc.prems show ?thesis using node_path_snoc [of t "as @ [x]" a] by (auto simp: last_node_def)
  next
    case (snoc ys y)
    from snoc.prems(1) have 1: "node_path t None (as @ [x])"
      "n_parent_hash (t_store t a) = Some (n_block_hash (t_store t x))"
      using node_path_snoc [of t "as @ [x]" a] by (auto simp: last_node_def)
    from snoc.prems(2) snoc have 2: "node_path t None (ys @ [y])"
      "n_parent_hash (t_store t a) = Some (n_block_hash (t_store t y))"
      using node_path_snoc [of t "ys @ [y]" a] by (auto simp: last_node_def)
    have "x = y" using 1 2 by (auto intro: live_hash_inj simp: node_path_snoc)
    with 1 2 snoc.IH snoc show ?thesis by blast
  qed
qed

lemma node_path_prefix: "node_path t p (as @ bs) \<Longrightarrow> node_path t p as"
  by (simp add: node_path_append)

lemma node_path_distinct: "node_path t None as \<Longrightarrow> distinct as"
proof (induction as rule: rev_induct)
  case (snoc a as)
  then have "distinct as" by (blast dest: node_path_prefix)
  moreover have "a \<notin> set as"
  proof
    assume "a \<in> set as"
    then obtain xs ys where as: "as = (xs @ [a]) @ ys" by (metis append_Cons append_Nil append_assoc split_list)
    with snoc.prems have "node_path t None (xs @ [a])" by (metis append_assoc node_path_prefix)
    with snoc.prems have "as = xs" by (rule node_path_same_end)
    with as show False by simp
  qed
  ultimately show ?case by simp
qed simp

subsection \<open>What a match means\<close>

text \<open>Whatever the hash function: the matched nodes hold exactly the leading blocks.\<close>

lemma match_walk_tokens:
  "map (\<lambda>a. n_token_ids (t_store t a)) (match_walk t ph level bs) = take (length (match_walk t ph level bs)) bs"
  by (induction t ph level bs rule: match_walk.induct)
    (auto simp: Let_def split: option.split)

lemma match_walk_length: "length (match_walk t ph level bs) \<le> length bs"
  by (induction t ph level bs rule: match_walk.induct) (auto simp: Let_def split: option.split)

lemma match_walk_path:
  assumes "trie_inv t"
  shows "parent_ok t parent \<Longrightarrow> node_path t parent (match_walk t (hash_of t parent) (level_of t parent) bs)"
proof (induction bs arbitrary: parent)
  case (Cons b bs)
  let ?h = "t_hash_fn t (hash_of t parent) b"
  show ?case
  proof (cases "map_of (level_of t parent) ?h")
    case None
    then show ?thesis by simp
  next
    case (Some a)
    then have bh: "map_of (t_by_hash t) ?h = Some a" "n_parent_hash (t_store t a) = hash_of t parent"
      using level_iff [OF assms Cons.prems] by auto
    from trie_inv_by_hashD [OF assms bh(1)] have a: "live t a" "n_block_hash (t_store t a) = ?h" by auto
    then have "node_path t (Some a) (match_walk t (hash_of t (Some a)) (level_of t (Some a)) bs)"
      by (intro Cons.IH) simp
    with Some a bh(2) show ?thesis by (simp add: Let_def level_of_def)
  qed
qed simp

text \<open>A root path whose blocks begin the token list is found by \<open>match\<close>.\<close>

lemma match_walk_complete:
  assumes inv: "trie_inv t"
  shows "node_path t parent as \<Longrightarrow> parent_ok t parent
    \<Longrightarrow> map (\<lambda>a. n_token_ids (t_store t a)) as = take (length as) bs \<Longrightarrow> length as \<le> length bs
    \<Longrightarrow> take (length as) (match_walk t (hash_of t parent) (level_of t parent) bs) = as"
proof (induction as arbitrary: parent bs)
  case (Cons a as)
  then obtain b bs' where bs: "bs = b # bs'" by (cases bs) auto
  from Cons.prems bs have a: "live t a" "n_parent_hash (t_store t a) = hash_of t parent"
    "n_token_ids (t_store t a) = b" by auto
  have ok: "node_ok t (n_block_hash (t_store t a)) a" by (rule trie_inv_liveD [OF inv a(1)])
  then have h: "t_hash_fn t (hash_of t parent) b = n_block_hash (t_store t a)"
    using a by (simp add: node_ok_def)
  have lvl: "map_of (level_of t parent) (n_block_hash (t_store t a)) = Some a"
    using level_iff [OF inv Cons.prems(2)] a by (simp add: live_def)
  have "take (length as) (match_walk t (hash_of t (Some a)) (level_of t (Some a)) bs') = as"
    using Cons.prems a bs by (intro Cons.IH) auto
  with h lvl a bs show ?case by (simp add: Let_def level_of_def)
qed simp

lemma trie_match_nodes:
  "match_nodes (trie_match t toks) = match_walk t None (t_roots t)
     (map (token_block (t_block_size t) toks) [0..<length toks div nat (t_block_size t)])"
  by (simp add: trie_match_def Let_def)

lemma trie_match_path: "trie_inv t \<Longrightarrow> node_path t None (match_nodes (trie_match t toks))"
  using match_walk_path [of t None] by (simp add: trie_match_nodes level_of_def)

lemma trie_match_fields:
  "num_matched_tokens (trie_match t toks) = int (length (match_nodes (trie_match t toks))) * t_block_size t"
  "physical_block_ids (trie_match t toks)
     = map (\<lambda>a. n_physical_block_id (t_store t a)) (match_nodes (trie_match t toks))"
  by (simp_all add: trie_match_def Let_def)

lemma concat_token_blocks:
  assumes "0 < bs" "n * nat bs \<le> length toks"
  shows "concat (map (token_block bs toks) [0..<n]) = take (n * nat bs) toks"
  using assms(2)
proof (induction n)
  case (Suc n)
  then show ?case
    using py_slice_append_take [of "n * nat bs" "Suc n * nat bs" toks]
    by (simp add: token_block_def)
qed simp

lemma trie_match_tokens:
  assumes "0 < t_block_size t"
  shows "concat (map (\<lambda>a. n_token_ids (t_store t a)) (match_nodes (trie_match t toks)))
           = take (nat (num_matched_tokens (trie_match t toks))) toks"
    and "num_matched_tokens (trie_match t toks) \<le> int (length toks)"
proof -
  let ?bs = "nat (t_block_size t)" and ?n = "length (match_nodes (trie_match t toks))"
  let ?full = "length toks div ?bs"
  have n: "?n \<le> ?full"
    using match_walk_length [of t None "t_roots t" "map (token_block (t_block_size t) toks) [0..<?full]"]
    by (simp add: trie_match_nodes)
  then have fits: "?n * ?bs \<le> length toks"
    by (meson div_times_less_eq_dividend le_trans mult_le_mono1)
  have num: "nat (num_matched_tokens (trie_match t toks)) = ?n * ?bs"
    using assms by (simp add: trie_match_fields nat_mult_distrib)
  have "map (\<lambda>a. n_token_ids (t_store t a)) (match_nodes (trie_match t toks))
      = map (token_block (t_block_size t) toks) [0..<?n]"
    using match_walk_tokens [of t None "t_roots t" "map (token_block (t_block_size t) toks) [0..<?full]"] n
    by (simp add: trie_match_nodes take_map)
  then show "concat (map (\<lambda>a. n_token_ids (t_store t a)) (match_nodes (trie_match t toks)))
      = take (nat (num_matched_tokens (trie_match t toks))) toks"
    using concat_token_blocks [OF assms fits] num by simp
  have "int (?n * ?bs) = num_matched_tokens (trie_match t toks)"
    using assms by (simp add: trie_match_fields)
  with fits show "num_matched_tokens (trie_match t toks) \<le> int (length toks)" by linarith
qed

subsection \<open>What an insertion does\<close>

text \<open>The next block's hash is taken by a node with other tokens: the loop stops there.\<close>

definition blocked :: "int list \<Rightarrow> node_addr list \<Rightarrow> radix_trie \<Rightarrow> bool" where
  "blocked toks nodes t \<longleftrightarrow>
     (let b = token_block (t_block_size t) toks (length nodes) in
      \<exists>a. map_of (level_of t (last_node nodes)) (t_hash_fn t (hash_of t (last_node nodes)) b) = Some a
         \<and> n_token_ids (t_store t a) \<noteq> b)"

text \<open>
  The insertion loop as a rule: a property of the nodes gathered so far and the trie that
  survives a hit (an existing node is touched) and a miss (a fresh node is linked in and
  touched) holds of the result.
\<close>

lemma insert_walk_rule:
  assumes run: "insert_walk toks phys [length nodes..<n] (last_node nodes) ph nodes t = Inr (t', nodes')"
    and cfree: "clash_free_walk toks phys [length nodes..<n] (last_node nodes) ph t"
    and ph: "ph = hash_of t (last_node nodes)"
    and P: "P nodes t"
    and inv: "\<And>nodes t. P nodes t \<Longrightarrow> trie_inv t \<and> parent_ok t (last_node nodes)"
    and hit: "\<And>nodes t a b h. P nodes t \<Longrightarrow> length nodes < n
        \<Longrightarrow> b = token_block (t_block_size t) toks (length nodes)
        \<Longrightarrow> h = t_hash_fn t (hash_of t (last_node nodes)) b
        \<Longrightarrow> map_of (level_of t (last_node nodes)) h = Some a \<Longrightarrow> n_token_ids (t_store t a) = b
        \<Longrightarrow> P (nodes @ [a]) (touch_node a t)"
    and miss: "\<And>nodes t b h. P nodes t \<Longrightarrow> length nodes < n
        \<Longrightarrow> b = token_block (t_block_size t) toks (length nodes)
        \<Longrightarrow> h = t_hash_fn t (hash_of t (last_node nodes)) b
        \<Longrightarrow> map_of (level_of t (last_node nodes)) h = None \<Longrightarrow> map_of (t_by_hash t) h = None
        \<Longrightarrow> length nodes < length phys
        \<Longrightarrow> P (nodes @ [t_next_addr t]) (touch_node (t_next_addr t)
              (new_node (last_node nodes) (hash_of t (last_node nodes)) h b (phys ! length nodes) t))"
  shows "P nodes' t' \<and> (n \<le> length nodes' \<or> blocked toks nodes' t')"
  using run cfree ph P
proof (induction "n - length nodes" arbitrary: nodes ph t)
  case 0
  then show ?case by simp
next
  case (Suc k)
  then have lt: "length nodes < n" by simp
  let ?b = "token_block (t_block_size t) toks (length nodes)"
  let ?h = "t_hash_fn t (hash_of t (last_node nodes)) ?b"
  have upt: "[length nodes..<n] = length nodes # [Suc (length nodes)..<n]"
    using lt by (simp add: upt_conv_Cons)
  have last [simp]: "last_node (nodes @ [a]) = Some a" for a by (simp add: last_node_def)
  have invt: "trie_inv t" "parent_ok t (last_node nodes)" using inv Suc.prems(4) by auto
  show ?case
  proof (cases "map_of (level_of t (last_node nodes)) ?h")
    case (Some a)
    show ?thesis
    proof (cases "n_token_ids (t_store t a) = ?b")
      case True
      have "map_of (t_by_hash t) ?h = Some a" using level_iff [OF invt] Some by blast
      then have "n_block_hash (t_store t a) = ?h" by (rule trie_inv_by_hashD(2) [OF invt(1)])
      then have h: "Some ?h = hash_of (touch_node a t) (Some a)" by (simp add: touch_node_def upd_node_def)
      have "insert_walk toks phys [length (nodes @ [a])..<n] (last_node (nodes @ [a])) (Some ?h) (nodes @ [a])
              (touch_node a t) = Inr (t', nodes')"
        using Suc.prems(1,3) Some True by (simp add: upt Let_def)
      moreover have "clash_free_walk toks phys [length (nodes @ [a])..<n] (last_node (nodes @ [a])) (Some ?h) (touch_node a t)"
        using Suc.prems(2,3) Some True by (simp add: upt Let_def)
      ultimately show ?thesis
        using Suc.hyps(1) [of "nodes @ [a]" "Some ?h" "touch_node a t"] hit [OF Suc.prems(4) lt refl refl Some True] h Suc.hyps(2)
        by simp
    next
      case False
      then show ?thesis using Suc.prems(1,3,4) Some by (auto simp: upt Let_def blocked_def)
    qed
  next
    case None
    let ?a = "t_next_addr t"
    let ?pid = "phys ! length nodes"
    let ?u = "touch_node ?a (new_node (last_node nodes) (hash_of t (last_node nodes)) ?h ?b ?pid t)"
    have len: "length nodes < length phys"
      using Suc.prems(1,3) None by (auto simp: upt Let_def bindE_Inr_iff py_nth_def split: if_splits)
    have fresh: "map_of (t_by_hash t) ?h = None" and
      rest: "clash_free_walk toks phys [length (nodes @ [?a])..<n] (last_node (nodes @ [?a])) (Some ?h) ?u"
      using Suc.prems(2,3) None len by (simp_all add: upt Let_def)
    have plt: "last_node nodes \<noteq> Some ?a"
    proof
      assume eq: "last_node nodes = Some ?a"
      then have "live t ?a" using invt(2) by simp
      from trie_inv_liveD [OF invt(1) this] show False by (simp add: node_ok_def)
    qed
    have h: "Some ?h = hash_of ?u (Some ?a)"
      by (simp add: touch_node_def upd_node_def new_node_store [OF plt])
    have "insert_walk toks phys [length (nodes @ [?a])..<n] (last_node (nodes @ [?a])) (Some ?h) (nodes @ [?a]) ?u
            = Inr (t', nodes')"
      using Suc.prems(1,3) None len by (simp add: upt Let_def py_nth_def)
    from Suc.hyps(1) [OF _ this rest] miss [OF Suc.prems(4) lt refl refl None fresh len] h Suc.hyps(2) show ?thesis
      by simp
  qed
qed

text \<open>What one insertion leaves behind, collected for the properties below.\<close>

definition insert_rel :: "int list \<Rightarrow> block_id list \<Rightarrow> node_addr list \<Rightarrow> radix_trie \<Rightarrow> node_addr list \<Rightarrow> radix_trie \<Rightarrow> bool" where
  "insert_rel toks phys known t nodes' t' \<longleftrightarrow>
     trie_inv t' \<and> node_path t' None nodes'
     \<and> t_hash_fn t' = t_hash_fn t \<and> t_block_size t' = t_block_size t
     \<and> take (length known) nodes' = known \<and> length known \<le> length nodes'
     \<and> (\<forall>a. live t a \<longrightarrow> kept t t' a)
     \<and> (\<forall>i. length known \<le> i \<and> i < length nodes' \<longrightarrow>
           n_token_ids (t_store t' (nodes' ! i)) = token_block (t_block_size t) toks i
           \<and> (live t (nodes' ! i) \<or> n_physical_block_id (t_store t' (nodes' ! i)) = phys ! i))
     \<and> (\<forall>a. live t' a \<longrightarrow> live t a \<or> a \<in> set (drop (length known) nodes'))"

lemma length_token_block: "(i + 1) * nat bs \<le> length toks \<Longrightarrow> length (token_block bs toks i) = nat bs"
  by (simp add: token_block_def)

lemma kept_refl: "live t a \<Longrightarrow> kept t t a" by (simp add: kept_def)

lemma kept_trans: "kept t u a \<Longrightarrow> kept u v a \<Longrightarrow> kept t v a" by (simp add: kept_def)

lemma same_shape_kept: "same_shape t t' \<Longrightarrow> live t a \<Longrightarrow> kept t t' a"
  by (simp add: kept_def same_shape_live) (simp add: same_shape_def)

lemma insert_rel_step:
  assumes rel: "insert_rel toks phys known t0 nodes t"
    and sh: "same_shape u t'" and inv': "trie_inv u"
    and kept: "\<And>c. live t c \<Longrightarrow> kept t u c"
    and hf: "t_hash_fn u = t_hash_fn t" "t_block_size u = t_block_size t"
    and new: "\<And>c. live u c \<Longrightarrow> live t c \<or> c = a"
    and a: "live u a" "n_parent_hash (t_store u a) = hash_of t (last_node nodes)"
    and tok: "n_token_ids (t_store u a) = token_block (t_block_size t) toks (length nodes)"
    and phys: "live t a \<or> n_physical_block_id (t_store u a) = phys ! length nodes"
  shows "insert_rel toks phys known t0 (nodes @ [a]) t'"
proof -
  have keep: "kept t t' c" if "live t c" for c
    using kept_trans [OF kept [OF that] same_shape_kept [OF sh]] kept [OF that] by (simp add: kept_def)
  have path: "node_path t None nodes" and known: "take (length known) nodes = known"
    and kl: "length known \<le> length nodes"
    and toks: "\<And>i. length known \<le> i \<Longrightarrow> i < length nodes \<Longrightarrow>
        n_token_ids (t_store t (nodes ! i)) = token_block (t_block_size t0) toks i
        \<and> (live t0 (nodes ! i) \<or> n_physical_block_id (t_store t (nodes ! i)) = phys ! i)"
    and lv: "\<And>c. live t c \<Longrightarrow> live t0 c \<or> c \<in> set (drop (length known) nodes)"
    and hf0: "t_hash_fn t = t_hash_fn t0" "t_block_size t = t_block_size t0"
    and k0: "\<And>c. live t0 c \<Longrightarrow> kept t0 t c"
    using rel by (auto simp: insert_rel_def)
  have at: "live t' a" "n_parent_hash (t_store t' a) = hash_of t (last_node nodes)"
    "n_token_ids (t_store t' a) = token_block (t_block_size t) toks (length nodes)"
    "n_physical_block_id (t_store t' a) = n_physical_block_id (t_store u a)"
    using a tok sh by (simp_all add: same_shape_live) (simp_all add: same_shape_def)
  have hl: "hash_of t' (last_node nodes) = hash_of t (last_node nodes)"
    using keep node_path_last_ok [OF path] by (cases "last_node nodes") (auto simp: kept_def)
  have path': "node_path t' None (nodes @ [a])"
    using node_path_kept [OF _ _ path, of t'] keep node_path_live [OF path] at hl
    by (simp add: node_path_snoc)
  have an: "a \<notin> set nodes" using node_path_distinct [OF path'] by simp
  have "n_token_ids (t_store t' ((nodes @ [a]) ! i)) = token_block (t_block_size t0) toks i
        \<and> (live t0 ((nodes @ [a]) ! i) \<or> n_physical_block_id (t_store t' ((nodes @ [a]) ! i)) = phys ! i)"
    if i: "length known \<le> i" "i < length (nodes @ [a])" for i
  proof (cases "i < length nodes")
    case True
    with keep [OF node_path_live [OF path nth_mem [OF True]]] toks [OF i(1) True] show ?thesis
      by (simp add: nth_append kept_def)
  next
    case False
    with i have "i = length nodes" by simp
    moreover have "live t0 a \<or> n_physical_block_id (t_store t' a) = phys ! length nodes"
      using phys lv [of a] an at(4) by (auto dest: in_set_dropD)
    ultimately show ?thesis using at(3) hf0 by (simp add: nth_append)
  qed
  moreover have "live t0 c \<or> c \<in> set (drop (length known) (nodes @ [a]))" if "live t' c" for c
    using that new [of c] lv [of c] kl by (auto simp: same_shape_live [OF sh])
  moreover have "kept t0 t' c" if "live t0 c" for c
    using k0 [OF that] keep [of c] by (simp add: kept_def)
  moreover have "trie_inv t'" using same_shape_inv [OF sh] inv' by simp
  moreover have "t_hash_fn t' = t_hash_fn u" "t_block_size t' = t_block_size u"
    using sh by (auto simp: same_shape_def)
  ultimately show ?thesis
    using path' known kl hf hf0 unfolding insert_rel_def by simp
qed

lemma level_lookup:
  assumes "trie_inv t" "parent_ok t parent" "map_of (level_of t parent) h = Some a"
  shows "live t a" "n_block_hash (t_store t a) = h" "n_parent_hash (t_store t a) = hash_of t parent"
  using level_iff [OF assms(1,2), of h a] assms(3) trie_inv_by_hashD [OF assms(1), of h a] by auto

lemma insert_rel_hit:
  assumes rel: "insert_rel toks phys known t0 nodes t"
    and a: "map_of (level_of t (last_node nodes)) h = Some a"
    and tok: "n_token_ids (t_store t a) = token_block (t_block_size t) toks (length nodes)"
  shows "insert_rel toks phys known t0 (nodes @ [a]) (touch_node a t)"
proof -
  have inv: "trie_inv t" and path: "node_path t None nodes" using rel by (auto simp: insert_rel_def)
  note lk = level_lookup [OF inv node_path_last_ok [OF path] a]
  show ?thesis
    by (rule insert_rel_step [OF rel touch_shape inv])
      (use lk tok in \<open>auto simp: kept_refl\<close>)
qed

lemma insert_rel_miss:
  assumes rel: "insert_rel toks phys known t0 nodes t" and fresh: "map_of (t_by_hash t) h = None"
    and b: "b = token_block (t_block_size t) toks (length nodes)"
    and h: "h = t_hash_fn t (hash_of t (last_node nodes)) b"
    and none: "map_of (level_of t (last_node nodes)) h = None"
    and len: "length b = nat (t_block_size t)"
  shows "insert_rel toks phys known t0 (nodes @ [t_next_addr t]) (touch_node (t_next_addr t)
           (new_node (last_node nodes) (hash_of t (last_node nodes)) h b (phys ! length nodes) t))"
proof -
  let ?a = "t_next_addr t"
  let ?u = "new_node (last_node nodes) (hash_of t (last_node nodes)) h b (phys ! length nodes) t"
  have inv: "trie_inv t" and path: "node_path t None nodes"
    using rel by (auto simp: insert_rel_def)
  note par = node_path_last_ok [OF path]
  note nn = new_node_inv [OF inv fresh par h len none, of "phys ! length nodes"]
  have lt: "c \<noteq> ?a" if "live t c" for c
    using trie_inv_liveD [OF inv that] by (auto simp: node_ok_def)
  then have plt: "last_node nodes \<noteq> Some ?a" using par lt [of ?a] by auto
  note st = new_node_store [OF plt]
  show ?thesis
    by (rule insert_rel_step [OF rel touch_shape nn(1)])
      (use nn(2) lt b in \<open>auto simp: kept_def st new_node_fields\<close>)
qed

lemma length_computed_block:
  assumes "0 < bs" and "n_computed \<le> int (length toks)" and "i < nat (n_computed div bs)"
  shows "length (token_block bs toks i) = nat bs"
proof -
  have "int i + 1 \<le> n_computed div bs" using assms(3) by linarith
  then have "(int i + 1) * bs \<le> int (length toks)"
    using assms(1,2) int_le_div_iff by (meson order_trans)
  then have "int ((i + 1) * nat bs) \<le> int (length toks)" using assms(1) by (simp add: algebra_simps)
  then show ?thesis by (intro length_token_block) linarith
qed

lemma trie_insert_rel:
  assumes ins: "trie_insert t toks phys n_computed known = Inr (t', nodes')"
    and inv: "trie_inv t" and cf: "clash_free_insert t toks phys n_computed known" and path: "node_path t None known"
    and within: "n_computed \<le> int (length toks)" and short: "length known \<le> nat (n_computed div t_block_size t)"
  shows "insert_rel toks phys known t nodes' t'"
    and "length nodes' \<le> nat (n_computed div t_block_size t)"
proof -
  let ?n = "nat (n_computed div t_block_size t)" and ?t1 = "t\<lparr>t_clock := t_clock t + 1\<rparr>"
  have bs: "0 < t_block_size t" using inv by (simp add: trie_inv_def)
  have base: "insert_rel toks phys known t known t"
    using inv path by (auto simp: insert_rel_def kept_refl)
  have sh1: "same_shape t ?t1" by (simp add: same_shape_def)
  have "insert_rel toks phys known t nodes' t' \<and> length nodes' \<le> ?n"
  proof (cases "?n \<le> length known")
    case True
    then show ?thesis using ins base short by (simp add: trie_insert_def Let_def)
  next
    case False
    then have "insert_walk toks phys [length known..<?n] (last_node known) (hash_of ?t1 (last_node known)) known ?t1
                = Inr (t', nodes')"
      using ins by (simp add: trie_insert_def Let_def last_node_def split: if_splits)
    then show ?thesis
    proof (rule insert_walk_rule [where P = "\<lambda>ns u. insert_rel toks phys known t ns u \<and> length ns \<le> ?n",
          THEN conjunct1])
      show "clash_free_walk toks phys [length known..<?n] (last_node known) (hash_of ?t1 (last_node known)) ?t1"
        using cf by (simp add: clash_free_insert_def Let_def last_node_def split: if_splits)
    next
      show "insert_rel toks phys known t known ?t1 \<and> length known \<le> ?n"
        using base False same_shape_inv [OF sh1] same_shape_path [OF sh1] same_shape_live [OF sh1]
        by (auto simp: insert_rel_def kept_def)
    next
      fix ns u assume "insert_rel toks phys known t ns u \<and> length ns \<le> ?n"
      then show "trie_inv u \<and> parent_ok u (last_node ns)"
        using node_path_last_ok [of u ns] by (simp add: insert_rel_def)
    next
      fix ns u a b h
      assume "insert_rel toks phys known t ns u \<and> length ns \<le> ?n" "length ns < ?n"
        "b = token_block (t_block_size u) toks (length ns)"
        "map_of (level_of u (last_node ns)) h = Some a" "n_token_ids (t_store u a) = b"
      then show "insert_rel toks phys known t (ns @ [a]) (touch_node a u) \<and> length (ns @ [a]) \<le> ?n"
        using insert_rel_hit by simp
    next
      fix ns u b h
      assume *: "insert_rel toks phys known t ns u \<and> length ns \<le> ?n" "length ns < ?n"
        "b = token_block (t_block_size u) toks (length ns)"
        "h = t_hash_fn u (hash_of u (last_node ns)) b"
        "map_of (level_of u (last_node ns)) h = None" "map_of (t_by_hash u) h = None"
      then have "length b = nat (t_block_size u)"
        using length_computed_block [OF bs within] by (simp add: insert_rel_def)
      with * show "insert_rel toks phys known t (ns @ [t_next_addr u]) (touch_node (t_next_addr u)
           (new_node (last_node ns) (hash_of u (last_node ns)) h b (phys ! length ns) u))
           \<and> length (ns @ [t_next_addr u]) \<le> ?n"
        using insert_rel_miss [OF _ *(6)] by simp
    qed (simp_all)
  qed
  then show "insert_rel toks phys known t nodes' t'" "length nodes' \<le> ?n" by auto
qed

subsection \<open>Insertion that meets no clash\<close>

lemma insert_walk_returns:
  "\<forall>i \<in> set is. i < length phys \<Longrightarrow> \<exists>r. insert_walk toks phys is parent ph nodes t = Inr r"
proof (induction "is" arbitrary: parent ph nodes t)
  case (Cons i "is")
  then show ?case by (auto simp: Let_def py_nth_def split: option.split)
qed simp

text \<open>The holds it takes: one more on every registered node, one in all on a fresh one.\<close>

definition insert_refs :: "node_addr list \<Rightarrow> radix_trie \<Rightarrow> node_addr list \<Rightarrow> radix_trie \<Rightarrow> bool" where
  "insert_refs known t nodes' t' \<longleftrightarrow>
     (\<forall>a. live t' a \<longrightarrow> n_ref_count (t_store t' a)
        = (if live t a then n_ref_count (t_store t a) else 0)
          + (if a \<in> set (drop (length known) nodes') then 1 else 0))"

lemma insert_refs_step:
  assumes refs: "insert_refs known t0 nodes t" and kl: "length known \<le> length nodes"
    and an: "a \<notin> set nodes"
    and lv: "\<And>c. live t' c \<longleftrightarrow> live t c \<or> c = a"
    and old: "\<And>c. live t c \<Longrightarrow> c \<noteq> a \<Longrightarrow> n_ref_count (t_store t' c) = n_ref_count (t_store t c)"
    and new: "n_ref_count (t_store t' a) = (if live t a then n_ref_count (t_store t a) else 0) + 1"
    and fresh: "live t0 a \<Longrightarrow> live t a"
  shows "insert_refs known t0 (nodes @ [a]) t'"
  unfolding insert_refs_def
proof (intro allI impI)
  fix c assume c: "live t' c"
  have drop: "drop (length known) (nodes @ [a]) = drop (length known) nodes @ [a]" using kl by simp
  show "n_ref_count (t_store t' c) = (if live t0 c then n_ref_count (t_store t0 c) else 0)
          + (if c \<in> set (drop (length known) (nodes @ [a])) then 1 else 0)"
  proof (cases "c = a")
    case True
    have "a \<notin> set (drop (length known) nodes)" using an by (auto dest: in_set_dropD)
    then have "live t a \<Longrightarrow> n_ref_count (t_store t a) = (if live t0 a then n_ref_count (t_store t0 a) else 0)"
      using refs by (simp add: insert_refs_def)
    with True new drop fresh show ?thesis by auto
  next
    case False
    with c lv have "live t c" by simp
    with False old refs drop show ?thesis by (simp add: insert_refs_def)
  qed
qed

lemma touch_ref:
  "n_ref_count (t_store (touch_node a t) c) = n_ref_count (t_store t c) + (if c = a then 1 else 0)"
  by (simp add: touch_node_def upd_node_def)

lemma trie_insert_complete:
  assumes inv: "trie_inv t" and cf: "clash_free_insert t toks phys n_computed known" and path: "node_path t None known"
    and within: "n_computed \<le> int (length toks)" and short: "length known \<le> nat (n_computed div t_block_size t)"
    and phys: "nat (n_computed div t_block_size t) \<le> length phys"
  obtains t' nodes' where "trie_insert t toks phys n_computed known = Inr (t', nodes')"
    "length nodes' \<le> nat (n_computed div t_block_size t)"
    "length nodes' = nat (n_computed div t_block_size t) \<or> blocked toks nodes' t'"
    "insert_rel toks phys known t nodes' t'" "insert_refs known t nodes' t'"
proof -
  let ?n = "nat (n_computed div t_block_size t)" and ?t1 = "t\<lparr>t_clock := t_clock t + 1\<rparr>"
  have bs: "0 < t_block_size t" using inv by (simp add: trie_inv_def)
  have refs0: "insert_refs known t known t" by (simp add: insert_refs_def)
  show ?thesis
  proof (cases "?n \<le> length known")
    case True
    then have res: "trie_insert t toks phys n_computed known = Inr (t, known)"
      using short by (simp add: trie_insert_def Let_def)
    from that [OF this _ _ trie_insert_rel(1) [OF this inv cf path within short] refs0] True short show ?thesis
      by simp
  next
    case False
    have "\<exists>r. insert_walk toks phys [length known..<?n] (last_node known) (hash_of ?t1 (last_node known)) known ?t1 = Inr r"
      by (rule insert_walk_returns) (use phys in auto)
    then obtain t' nodes' where run: "insert_walk toks phys [length known..<?n] (last_node known)
        (hash_of ?t1 (last_node known)) known ?t1 = Inr (t', nodes')" by fastforce
    have res: "trie_insert t toks phys n_computed known = Inr (t', nodes')"
      using run False by (simp add: trie_insert_def Let_def last_node_def split: if_splits)
    note rel = trie_insert_rel [OF res inv cf path within short]
    let ?P = "\<lambda>ns u. insert_rel toks phys known t ns u \<and> insert_refs known t ns u"
    have start: "?P known ?t1"
    proof -
      have sh: "same_shape t ?t1" by (simp add: same_shape_def)
      have "insert_rel toks phys known t known ?t1"
        using inv path same_shape_inv [OF sh] same_shape_path [OF sh] same_shape_live [OF sh]
        by (auto simp: insert_rel_def kept_def)
      moreover have "insert_refs known t known ?t1"
        using same_shape_live [OF sh] by (simp add: insert_refs_def)
      ultimately show ?thesis ..
    qed
    have "?P nodes' t' \<and> (?n \<le> length nodes' \<or> blocked toks nodes' t')"
      using run
    proof (rule insert_walk_rule [where P = ?P])
      show "clash_free_walk toks phys [length known..<?n] (last_node known) (hash_of ?t1 (last_node known)) ?t1"
        using cf by (simp add: clash_free_insert_def Let_def last_node_def split: if_splits)
    next
      show "?P known ?t1" by (rule start)
    next
      fix ns u assume "?P ns u"
      then show "trie_inv u \<and> parent_ok u (last_node ns)"
        using node_path_last_ok [of u ns] by (simp add: insert_rel_def)
    next
      fix ns and u :: radix_trie and a b h
      assume *: "?P ns u" "length ns < ?n" "b = token_block (t_block_size u) toks (length ns)"
        "map_of (level_of u (last_node ns)) h = Some a" "n_token_ids (t_store u a) = b"
      then have r: "insert_rel toks phys known t (ns @ [a]) (touch_node a u)" using insert_rel_hit by blast
      then have "a \<notin> set ns" by (auto simp: insert_rel_def dest: node_path_distinct)
      moreover have "live (touch_node a u) c \<longleftrightarrow> live u c" for c by (rule same_shape_live [OF touch_shape])
      moreover have "live u a"
      proof -
        have "trie_inv u" "parent_ok u (last_node ns)" using *(1) node_path_last_ok by (auto simp: insert_rel_def)
        from level_lookup(1) [OF this *(4)] show ?thesis .
      qed
      ultimately have "insert_refs known t (ns @ [a]) (touch_node a u)"
        using *(1) by (intro insert_refs_step [of known t ns u]) (auto simp: insert_rel_def touch_ref)
      with r show "?P (ns @ [a]) (touch_node a u)" by simp
    next
      fix ns and u :: radix_trie and b h
      let ?a = "t_next_addr u"
      let ?v = "new_node (last_node ns) (hash_of u (last_node ns)) h b (phys ! length ns) u"
      assume *: "?P ns u" "length ns < ?n" "b = token_block (t_block_size u) toks (length ns)"
        "h = t_hash_fn u (hash_of u (last_node ns)) b" "map_of (level_of u (last_node ns)) h = None" "map_of (t_by_hash u) h = None"
      have inv: "trie_inv u" and path: "node_path u None ns"
        and sz: "t_block_size u = t_block_size t" and kl: "length known \<le> length ns"
        and k: "\<And>c. live t c \<Longrightarrow> live u c"
        using *(1) by (auto simp: insert_rel_def kept_def)
      have len: "length b = nat (t_block_size u)"
        using length_computed_block [OF bs within *(2)] *(3) sz by simp
      have fresh: "c \<noteq> ?a" if "live u c" for c
        using trie_inv_liveD [OF inv that] by (auto simp: node_ok_def)
      note par = node_path_last_ok [OF path]
      note lv = new_node_inv(2) [OF inv *(6) par *(4) len *(5), of "phys ! length ns"]
      have plt: "last_node ns \<noteq> Some ?a" using par fresh [of ?a] by auto
      have r: "insert_rel toks phys known t (ns @ [?a]) (touch_node ?a ?v)"
        by (rule insert_rel_miss [OF _ *(6) *(3,4,5) len]) (use *(1) in simp)
      have "insert_refs known t (ns @ [?a]) (touch_node ?a ?v)"
      proof (rule insert_refs_step [of known t ns u])
        show "?a \<notin> set ns" using fresh node_path_live [OF path] by blast
        show "live (touch_node ?a ?v) c \<longleftrightarrow> live u c \<or> c = ?a" for c
          using lv by (simp add: same_shape_live [OF touch_shape])
      qed (use *(1) kl fresh k in \<open>auto simp: touch_ref new_node_store [OF plt]\<close>)
      with r show "?P (ns @ [?a]) (touch_node ?a ?v)" by simp
    qed (simp add: last_node_def)
    then show ?thesis using that [OF res] rel by force
  qed
qed

text \<open>A hash function without collisions meets none.\<close>

lemma clash_free_walkI:
  "trie_inv t \<Longrightarrow> collision_free (t_hash_fn t) \<Longrightarrow> parent_ok t parent \<Longrightarrow> ph = hash_of t parent
   \<Longrightarrow> \<forall>i \<in> set is. length (token_block (t_block_size t) toks i) = nat (t_block_size t)
   \<Longrightarrow> clash_free_walk toks phys is parent ph t"
proof (induction "is" arbitrary: parent ph t)
  case (Cons i "is")
  let ?b = "token_block (t_block_size t) toks i" and ?h = "t_hash_fn t ph (token_block (t_block_size t) toks i)"
  have fld: "t_hash_fn (touch_node a u) = t_hash_fn u" "t_block_size (touch_node a u) = t_block_size u" for a u
    using touch_shape [of u a] by (auto simp: same_shape_def)
  show ?case
  proof (cases "map_of (level_of t parent) ?h")
    case (Some a)
    note lk = level_lookup [OF Cons.prems(1,3) Some]
    have "clash_free_walk toks phys is (Some a) (Some ?h) (touch_node a t)"
    proof (rule Cons.IH)
      show "trie_inv (touch_node a t)" using same_shape_inv [OF touch_shape] Cons.prems(1) by simp
      show "parent_ok (touch_node a t) (Some a)" using lk(1) by (simp add: same_shape_live [OF touch_shape])
      show "Some ?h = hash_of (touch_node a t) (Some a)" using lk(2) touch_shape [of t a] by (simp add: same_shape_def)
    qed (use Cons.prems fld in auto)
    then show ?thesis using Some by (simp add: Let_def)
  next
    case None
    let ?a = "t_next_addr t" and ?u = "new_node parent ph ?h ?b (phys ! i) t"
    have fresh: "map_of (t_by_hash t) ?h = None"
      using fresh_hash [OF Cons.prems(1-3)] None Cons.prems(4) by simp
    note nn = new_node_inv [OF Cons.prems(1) fresh Cons.prems(3), of ?b "phys ! i"]
    have nn: "trie_inv ?u" "live ?u c \<longleftrightarrow> live t c \<or> c = ?a" for c
      using nn Cons.prems(4,5) None by simp_all
    have plt: "parent \<noteq> Some ?a"
      using Cons.prems(3) trie_inv_liveD [OF Cons.prems(1), of ?a] by (auto simp: node_ok_def)
    have "clash_free_walk toks phys is (Some ?a) (Some ?h) (touch_node ?a ?u)"
    proof (rule Cons.IH)
      show "trie_inv (touch_node ?a ?u)" using same_shape_inv [OF touch_shape] nn(1) by simp
      show "parent_ok (touch_node ?a ?u) (Some ?a)" using nn(2) [of ?a] by (simp add: same_shape_live [OF touch_shape])
      show "Some ?h = hash_of (touch_node ?a ?u) (Some ?a)"
        using touch_shape [of ?u ?a] by (simp add: same_shape_def new_node_store [OF plt])
    qed (use Cons.prems fld new_node_fields in auto)
    then show ?thesis using None fresh by (simp add: Let_def)
  qed
qed simp

lemma clash_freeI:
  assumes "trie_inv t" "collision_free (t_hash_fn t)" "node_path t None known" "n_computed \<le> int (length toks)"
  shows "clash_free_insert t toks phys n_computed known"
proof -
  let ?t1 = "t\<lparr>t_clock := t_clock t + 1\<rparr>"
  have sh: "same_shape t ?t1" by (simp add: same_shape_def)
  have bs: "0 < t_block_size t" using assms(1) by (simp add: trie_inv_def)
  have "clash_free_walk toks phys [length known..<nat (n_computed div t_block_size t)] (last_node known) (hash_of ?t1 (last_node known)) ?t1"
    using assms same_shape_inv [OF sh] node_path_last_ok [OF assms(3)] same_shape_live [OF sh] length_computed_block [OF bs assms(4)]
    by (intro clash_free_walkI) (auto split: option.split)
  then show ?thesis by (simp add: clash_free_insert_def Let_def last_node_def split: if_splits)
qed

end
