(* ===== verification/Config.thy ===== *)
theory Config
  imports Prelude
begin

text \<open>
  \<^verbatim>\<open>engine/config.py\<close>: the three frozen configuration dataclasses and the assertions their
  \<open>__post_init__\<close> makes.  A constructor returns \<open>Inl AssertionError\<close> where the code's
  assertion fails.
\<close>

record cache_config =
  block_size :: int
  num_gpu_blocks :: int
  watermark_blocks :: int
  enable_prefix_caching :: bool
  int8_kv :: bool

definition CacheConfig :: "int \<Rightarrow> int \<Rightarrow> int \<Rightarrow> bool \<Rightarrow> bool \<Rightarrow> cache_config or_raise" where
  "CacheConfig bs n w pc i8 =
     (if 0 < bs \<and> 0 \<le> n \<and> 0 \<le> w \<and> w \<le> n
      then Inr \<lparr>block_size = bs, num_gpu_blocks = n, watermark_blocks = w,
                enable_prefix_caching = pc, int8_kv = i8\<rparr>
      else Inl AssertionError)"

record scheduler_config =
  max_num_seqs :: int
  max_num_batched_tokens :: int
  max_cache_hit_context_tokens :: "int option"

definition SchedulerConfig :: "int \<Rightarrow> int \<Rightarrow> int option \<Rightarrow> scheduler_config or_raise" where
  "SchedulerConfig seqs toks ctx =
     (if 0 < seqs \<and> 0 < toks \<and> (case ctx of None \<Rightarrow> True | Some c \<Rightarrow> 0 < c)
      then Inr \<lparr>max_num_seqs = seqs, max_num_batched_tokens = toks,
                max_cache_hit_context_tokens = ctx\<rparr>
      else Inl AssertionError)"

record speculative_config =
  draft_model_path :: string
  num_speculative_tokens :: int
  draft_num_gpu_blocks :: int

definition SpeculativeConfig :: "string \<Rightarrow> int \<Rightarrow> int option \<Rightarrow> speculative_config or_raise" where
  "SpeculativeConfig path k n =
     (case n of
        None \<Rightarrow> Inl AssertionError
      | Some n' \<Rightarrow> if 0 < k \<and> 0 < n'
          then Inr \<lparr>draft_model_path = path, num_speculative_tokens = k, draft_num_gpu_blocks = n'\<rparr>
          else Inl AssertionError)"

text \<open>What every configuration that was constructed satisfies.\<close>

definition cache_config_ok :: "cache_config \<Rightarrow> bool" where
  "cache_config_ok c \<longleftrightarrow> 0 < block_size c \<and> 0 \<le> num_gpu_blocks c
     \<and> 0 \<le> watermark_blocks c \<and> watermark_blocks c \<le> num_gpu_blocks c"

definition scheduler_config_ok :: "scheduler_config \<Rightarrow> bool" where
  "scheduler_config_ok c \<longleftrightarrow> 0 < max_num_seqs c \<and> 0 < max_num_batched_tokens c
     \<and> (\<forall>b. max_cache_hit_context_tokens c = Some b \<longrightarrow> 0 < b)"

lemma CacheConfig_ok: "CacheConfig bs n w pc i8 = Inr c \<Longrightarrow> cache_config_ok c"
  by (auto simp: CacheConfig_def cache_config_ok_def split: if_splits)

lemma SchedulerConfig_ok: "SchedulerConfig s t x = Inr c \<Longrightarrow> scheduler_config_ok c"
  by (auto simp: SchedulerConfig_def scheduler_config_ok_def split: if_splits option.splits)

end
