(* ===== verification/Block_Manager.thy ===== *)
theory Block_Manager
  imports Prefix_Cache Config "HOL-Library.Multiset"
begin

text \<open>
  \<^verbatim>\<open>engine/block_manager.py\<close>: the allocator of the paged KV cache.  The free list is the
  code's list used as a stack (blocks are popped and pushed at its end), \<open>block_tables\<close> a
  dictionary from request ids to block lists, \<open>prefix_cache\<close> the trie or nothing.  In the code
  \<open>request.block_table\<close> and \<open>block_tables[request.request_id]\<close> are one list object from
  \<open>allocate\<close> to \<open>free\<close>; the model keeps the two copies and every operation writes both.  An
  operation takes the manager and the request and returns both updated.
\<close>

record block_manager =
  bm_block_size :: int
  bm_num_gpu_blocks :: int
  bm_watermark_blocks :: int
  bm_free :: "block_id list"
  bm_tables :: "(string \<times> block_id list) list"
  bm_cache :: "radix_trie option"

definition BlockManager :: "hash_function \<Rightarrow> cache_config \<Rightarrow> block_manager" where
  "BlockManager H c =
     \<lparr>bm_block_size = block_size c, bm_num_gpu_blocks = num_gpu_blocks c,
      bm_watermark_blocks = watermark_blocks c, bm_free = [0..<nat (num_gpu_blocks c)], bm_tables = [],
      bm_cache = (if enable_prefix_caching c then Some (RadixTrie (block_size c) H) else None)\<rparr>"

definition num_free_blocks :: "block_manager \<Rightarrow> int" where
  "num_free_blocks bm = int (length (bm_free bm))"

definition get_block_table :: "block_manager \<Rightarrow> string \<Rightarrow> block_id list" where
  "get_block_table bm rid = (case map_of (bm_tables bm) rid of None \<Rightarrow> [] | Some t \<Rightarrow> t)"

definition match_prefix :: "block_manager \<Rightarrow> int list \<Rightarrow> prefix_match option" where
  "match_prefix bm toks = map_option (\<lambda>t. trie_match t toks) (bm_cache bm)"

definition matched_blocks :: "prefix_match option \<Rightarrow> block_id list" where
  "matched_blocks m = (case m of None \<Rightarrow> [] | Some p \<Rightarrow> physical_block_ids p)"

definition can_allocate :: "block_manager \<Rightarrow> request \<Rightarrow> prefix_match option \<Rightarrow> bool" where
  "can_allocate bm r m =
     (let needed_fresh = max (num_blocks_needed r (bm_block_size bm) - int (length (matched_blocks m))) 0;
          evictable = (case bm_cache bm of None \<Rightarrow> 0 | Some t \<Rightarrow> num_evictable_blocks t)
      in bm_watermark_blocks bm \<le> (num_free_blocks bm + evictable) - needed_fresh)"

text \<open>The loop of \<open>_drain_evictions\<close>: it evicts until enough blocks are free or nothing can go.\<close>

function drain_evictions :: "int \<Rightarrow> radix_trie \<Rightarrow> block_id list \<Rightarrow> (radix_trie \<times> block_id list) or_raise" where
  "drain_evictions needed t free =
     (if int (length free) < needed then
        (case evict_one_lru t of
           Inl e \<Rightarrow> Inl e
         | Inr (t', None) \<Rightarrow> Inr (t', free)
         | Inr (t', Some b) \<Rightarrow> drain_evictions needed t' (free @ [b]))
      else Inr (t, free))"
  by pat_completeness auto
termination by (relation "measure (\<lambda>(needed, t, free). nat (needed - int (length free)))") auto

declare drain_evictions.simps [simp del]

text \<open>\<open>[self._free_block_ids.pop() for _ in range(n)]\<close>, after the check that \<open>n\<close> blocks are free.\<close>

definition pop_free :: "nat \<Rightarrow> block_id list \<Rightarrow> block_id list \<times> block_id list" where
  "pop_free n free = (take n (rev free), take (length free - n) free)"

definition allocate :: "block_manager \<Rightarrow> request \<Rightarrow> prefix_match option \<Rightarrow> (block_manager \<times> request) or_raise" where
  "allocate bm r m0 =
     (if map_of (bm_tables bm) (request_id r) \<noteq> None then Inl ValueError
      else
        let m = (case bm_cache bm of
                   None \<Rightarrow> m0
                 | Some t \<Rightarrow> Some (case m0 of None \<Rightarrow> trie_match t (prompt_token_ids r) | Some p \<Rightarrow> p));
            matched_ids = matched_blocks m;
            needed_fresh = num_blocks_needed r (bm_block_size bm) - int (length matched_ids);
            held = (case (bm_cache bm, m) of (Some _, Some p) \<Rightarrow> match_nodes p | _ \<Rightarrow> cached_prefix_nodes r)
        in bindE
             (case (bm_cache bm, m) of
                (Some t, Some p) \<Rightarrow>
                  bindE (drain_evictions needed_fresh (acquire t p (int (length (prompt_token_ids r)))) (bm_free bm))
                    (\<lambda>(t', free). Inr (Some t', free))
              | _ \<Rightarrow> Inr (bm_cache bm, bm_free bm))
             (\<lambda>(cache, free).
               if int (length free) < needed_fresh then Inl OutOfMemoryError
               else
                 let (fresh, free') = pop_free (nat needed_fresh) free;
                     table = matched_ids @ fresh
                 in Inr (bm\<lparr>bm_cache := cache, bm_free := free',
                            bm_tables := AList.update (request_id r) table (bm_tables bm)\<rparr>,
                         r\<lparr>cached_prefix_nodes := held, block_table := table\<rparr>)))"

definition insert_computed_prefix :: "block_manager \<Rightarrow> request \<Rightarrow> (block_manager \<times> request) or_raise" where
  "insert_computed_prefix bm r =
     (case bm_cache bm of
        None \<Rightarrow> Inr (bm, r)
      | Some t \<Rightarrow>
          let num_computed = min (num_computed_tokens r) (int (length (prompt_token_ids r))) in
          if num_computed < bm_block_size bm then Inr (bm, r)
          else bindE (trie_insert t (prompt_token_ids r) (block_table r) num_computed (cached_prefix_nodes r))
                 (\<lambda>(t', nodes). Inr (bm\<lparr>bm_cache := Some t'\<rparr>, r\<lparr>cached_prefix_nodes := nodes\<rparr>)))"

text \<open>The registration meets no hash that is in use under another parent.\<close>

definition clash_free_register :: "block_manager \<Rightarrow> request \<Rightarrow> bool" where
  "clash_free_register bm r \<longleftrightarrow>
     (case bm_cache bm of
        None \<Rightarrow> True
      | Some t \<Rightarrow> clash_free_insert t (prompt_token_ids r) (block_table r)
          (min (num_computed_tokens r) (int (length (prompt_token_ids r)))) (cached_prefix_nodes r))"

subsection \<open>Growing a table\<close>

definition needs_new_block :: "block_manager \<Rightarrow> request \<Rightarrow> bool" where
  "needs_new_block bm r \<longleftrightarrow>
     int (length (get_block_table bm (request_id r))) * bm_block_size bm < get_len r"

definition can_append_slot :: "block_manager \<Rightarrow> request \<Rightarrow> bool" where
  "can_append_slot bm r = (if needs_new_block bm r then 1 \<le> num_free_blocks bm else True)"

definition append_slot :: "block_manager \<Rightarrow> request \<Rightarrow> (block_manager \<times> request) or_raise" where
  "append_slot bm r =
     (case map_of (bm_tables bm) (request_id r) of
        None \<Rightarrow> Inl ValueError
      | Some table \<Rightarrow>
          if needs_new_block bm r then
            if bm_free bm = [] then Inl OutOfMemoryError
            else let table' = table @ [last (bm_free bm)] in
                 Inr (bm\<lparr>bm_free := butlast (bm_free bm),
                         bm_tables := AList.update (request_id r) table' (bm_tables bm)\<rparr>,
                      r\<lparr>block_table := table'\<rparr>)
          else Inr (bm, r))"

definition can_ensure_capacity :: "block_manager \<Rightarrow> request \<Rightarrow> int \<Rightarrow> bool" where
  "can_ensure_capacity bm r target \<longleftrightarrow>
     ceil_div target (bm_block_size bm) - int (length (get_block_table bm (request_id r))) \<le> num_free_blocks bm"

text \<open>The loop of \<open>ensure_capacity\<close>, over the number of blocks still missing.\<close>

fun grow_table :: "nat \<Rightarrow> block_id list \<Rightarrow> block_id list \<Rightarrow> (block_id list \<times> block_id list) or_raise" where
  "grow_table 0 free table = Inr (free, table)"
| "grow_table (Suc n) free table =
     (if free = [] then Inl OutOfMemoryError
      else grow_table n (butlast free) (table @ [last free]))"

definition ensure_capacity :: "block_manager \<Rightarrow> request \<Rightarrow> int \<Rightarrow> (block_manager \<times> request) or_raise" where
  "ensure_capacity bm r target =
     (case map_of (bm_tables bm) (request_id r) of
        None \<Rightarrow> Inl ValueError
      | Some table \<Rightarrow>
          bindE (grow_table (nat (ceil_div target (bm_block_size bm) - int (length table))) (bm_free bm) table)
            (\<lambda>(free, table').
               Inr (bm\<lparr>bm_free := free, bm_tables := AList.update (request_id r) table' (bm_tables bm)\<rparr>,
                    r\<lparr>block_table := table'\<rparr>)))"

subsection \<open>Teardown\<close>

definition free_blocks :: "block_manager \<Rightarrow> request \<Rightarrow> (block_manager \<times> request) or_raise" where
  "free_blocks bm r =
     (case map_of (bm_tables bm) (request_id r) of
        None \<Rightarrow> Inr (bm, r)
      | Some table \<Rightarrow>
          let tables' = AList.delete (request_id r) (bm_tables bm) in
          case (bm_cache bm, cached_prefix_nodes r) of
            (Some t, a # as) \<Rightarrow>
              let cache_owned = (\<lambda>a. n_physical_block_id (t_store t a)) ` set (a # as) in
              bindE (release t (a # as)) (\<lambda>t'.
                Inr (bm\<lparr>bm_tables := tables', bm_cache := Some t',
                        bm_free := bm_free bm @ filter (\<lambda>b. b \<notin> cache_owned) table\<rparr>,
                     r\<lparr>cached_prefix_nodes := [], block_table := []\<rparr>))
          | _ \<Rightarrow> Inr (bm\<lparr>bm_tables := tables', bm_free := bm_free bm @ table\<rparr>, r\<lparr>block_table := []\<rparr>))"

subsection \<open>Every block is accounted for\<close>

text \<open>
  A block is free, owned by one cached node, or owned privately by one table: exactly one of
  these, once.  \<open>held rid\<close> are the cached nodes the request behind a table holds a reference
  on; the blocks of those nodes that occur in its table are the cache's, the others its own.
\<close>

abbreviation phys_of :: "radix_trie \<Rightarrow> node_addr \<Rightarrow> block_id" where
  "phys_of t a \<equiv> n_physical_block_id (t_store t a)"

definition cache_owned :: "block_manager \<Rightarrow> node_addr list \<Rightarrow> block_id set" where
  "cache_owned bm nodes = (case bm_cache bm of None \<Rightarrow> {} | Some t \<Rightarrow> phys_of t ` set nodes)"

definition private_part :: "block_manager \<Rightarrow> node_addr list \<Rightarrow> block_id list \<Rightarrow> block_id list" where
  "private_part bm nodes table = filter (\<lambda>b. b \<notin> cache_owned bm nodes) table"

definition cached_blocks :: "block_manager \<Rightarrow> block_id multiset" where
  "cached_blocks bm =
     (case bm_cache bm of None \<Rightarrow> {#} | Some t \<Rightarrow> image_mset (phys_of t) (mset_set {a. live t a}))"

definition private_blocks :: "block_manager \<Rightarrow> (string \<Rightarrow> node_addr list) \<Rightarrow> block_id multiset" where
  "private_blocks bm held = (\<Sum>(rid, table)\<leftarrow>bm_tables bm. mset (private_part bm (held rid) table))"

definition blocks_accounted :: "block_manager \<Rightarrow> (string \<Rightarrow> node_addr list) \<Rightarrow> bool" where
  "blocks_accounted bm held \<longleftrightarrow>
     mset (bm_free bm) + cached_blocks bm + private_blocks bm held = mset [0..<nat (bm_num_gpu_blocks bm)]"

text \<open>A block of the cache sits in a table only at the index of the held node that owns it.\<close>

definition aligned :: "radix_trie \<Rightarrow> node_addr list \<Rightarrow> block_id list \<Rightarrow> bool" where
  "aligned t nodes table \<longleftrightarrow>
     (\<forall>j < length table. table ! j \<in> phys_of t ` set nodes
        \<longrightarrow> j < length nodes \<and> table ! j = phys_of t (nodes ! j))"

definition holders :: "(string \<times> block_id list) list \<Rightarrow> (string \<Rightarrow> node_addr list) \<Rightarrow> node_addr \<Rightarrow> nat" where
  "holders tables held a = length (filter (\<lambda>rid. a \<in> set (held rid)) (map fst tables))"

definition cache_ok :: "block_manager \<Rightarrow> (string \<Rightarrow> node_addr list) \<Rightarrow> bool" where
  "cache_ok bm held \<longleftrightarrow>
     (case bm_cache bm of
        None \<Rightarrow> True
      | Some t \<Rightarrow>
          trie_inv t \<and> t_block_size t = bm_block_size bm
          \<and> (\<forall>(rid, table) \<in> set (bm_tables bm). node_path t None (held rid) \<and> aligned t (held rid) table)
          \<and> (\<forall>a. live t a \<longrightarrow> n_ref_count (t_store t a) = int (holders (bm_tables bm) held a)))"

definition bm_inv :: "block_manager \<Rightarrow> (string \<Rightarrow> node_addr list) \<Rightarrow> bool" where
  "bm_inv bm held \<longleftrightarrow>
     0 < bm_block_size bm \<and> 0 \<le> bm_watermark_blocks bm \<and> distinct (map fst (bm_tables bm))
     \<and> blocks_accounted bm held \<and> cache_ok bm held"

lemma bm_inv_init:
  assumes "cache_config_ok c" shows "bm_inv (BlockManager H c) held"
proof -
  have no: "\<not> live (RadixTrie (block_size c) H) a" for a by (simp add: live_def RadixTrie_def)
  then have e: "Collect (live (RadixTrie (block_size c) H)) = {}" by auto
  have "t_hash_fn (RadixTrie (block_size c) H) = H" "t_block_size (RadixTrie (block_size c) H) = block_size c"
    by (simp_all add: RadixTrie_def)
  then show ?thesis
    using assms by (simp add: bm_inv_def BlockManager_def cache_config_ok_def blocks_accounted_def
        cache_ok_def cached_blocks_def private_blocks_def trie_inv_init no e)
qed

lemma count_upt_le: "count (mset [0..<n]) b \<le> 1"
  by (metis distinct_count_atmost_1 distinct_upt le_numeral_extra(3,4) zero_le)

lemma blocks_count:
  assumes "blocks_accounted bm held"
  shows "count (cached_blocks bm) b + count (mset (bm_free bm)) b + count (private_blocks bm held) b \<le> 1"
  using assms count_upt_le [of "nat (bm_num_gpu_blocks bm)" b]
  unfolding blocks_accounted_def by (metis (no_types, lifting) add.commute count_union)

lemma private_blocks_at:
  assumes "bm_tables bm = xs @ (rid, table) # ys"
  shows "private_blocks bm held = mset (private_part bm (held rid) table)
     + (\<Sum>(rid, table)\<leftarrow>xs @ ys. mset (private_part bm (held rid) table))"
  using assms by (simp add: private_blocks_def)


lemma held_live:
  assumes "cache_ok bm held" "bm_cache bm = Some t" "(rid, table) \<in> set (bm_tables bm)" "a \<in> set (held rid)"
  shows "live t a"
  using assms node_path_live by (fastforce simp: cache_ok_def)

lemma finite_live: "trie_inv t \<Longrightarrow> finite {a. live t a}"
  using live_set [of t] by (metis List.finite_set finite_imageI)

lemma cached_blocks_iff:
  assumes "cache_ok bm held" "bm_cache bm = Some t"
  shows "b \<in># cached_blocks bm \<longleftrightarrow> (\<exists>a. live t a \<and> phys_of t a = b)"
proof -
  have "trie_inv t" using assms by (simp add: cache_ok_def)
  then have "set_mset (cached_blocks bm) = phys_of t ` {a. live t a}"
    using assms finite_live by (simp add: cached_blocks_def)
  then show ?thesis by auto
qed

lemma cache_owned_cached:
  assumes "cache_ok bm held" "(rid, table) \<in> set (bm_tables bm)" "b \<in> cache_owned bm (held rid)"
  shows "b \<in># cached_blocks bm"
proof -
  obtain t a where t: "bm_cache bm = Some t" and a: "a \<in> set (held rid)" "b = phys_of t a"
    using assms(3) by (auto simp: cache_owned_def split: option.splits)
  from held_live [OF assms(1) t assms(2) a(1)] have "live t a" .
  with a(2) show ?thesis unfolding cached_blocks_iff [OF assms(1) t] by blast
qed

lemma free_not_cached:
  assumes "blocks_accounted bm held" "b \<in> set (bm_free bm)"
  shows "b \<notin># cached_blocks bm" "b \<notin># private_blocks bm held"
proof -
  have "0 < count (mset (bm_free bm)) b" using assms(2) by simp
  then have "count (cached_blocks bm) b = 0" "count (private_blocks bm held) b = 0"
    using blocks_count [OF assms(1), of b] by linarith+
  then show "b \<notin># cached_blocks bm" "b \<notin># private_blocks bm held" by (simp_all add: count_eq_zero_iff)
qed

lemma private_part_frame [simp]:
  "private_part (bm\<lparr>bm_free := f, bm_tables := tb\<rparr>) = private_part bm"
  "private_part (bm\<lparr>bm_free := f\<rparr>) = private_part bm"
  "private_part (bm\<lparr>bm_tables := tb\<rparr>) = private_part bm"
  by (simp_all add: private_part_def cache_owned_def fun_eq_iff)

lemma cached_blocks_frame [simp]:
  "cached_blocks (bm\<lparr>bm_free := f, bm_tables := tb\<rparr>) = cached_blocks bm"
  "cached_blocks (bm\<lparr>bm_free := f\<rparr>) = cached_blocks bm"
  "cached_blocks (bm\<lparr>bm_tables := tb\<rparr>) = cached_blocks bm"
  by (simp_all add: cached_blocks_def)

text \<open>Growing a table by free blocks.\<close>

lemma bm_inv_grow:
  assumes inv: "bm_inv bm held" and tab: "map_of (bm_tables bm) rid = Some table"
    and free: "bm_free bm = free' @ rev new"
  shows "bm_inv (bm\<lparr>bm_free := free', bm_tables := AList.update rid (table @ new) (bm_tables bm)\<rparr>) held"
    (is "bm_inv ?bm held")
proof -
  have dist: "distinct (map fst (bm_tables bm))" and acc: "blocks_accounted bm held" and ok: "cache_ok bm held"
    using inv by (auto simp: bm_inv_def)
  obtain xs ys where tabs: "bm_tables bm = xs @ (rid, table) # ys"
    and upd: "AList.update rid (table @ new) (bm_tables bm) = xs @ (rid, table @ new) # ys"
    using alist_split [OF dist tab] by metis
  have mem: "(rid, table) \<in> set (bm_tables bm)" using tabs by simp
  have fresh: "b \<notin> cache_owned bm (held rid)" if "b \<in> set new" for b
    using cache_owned_cached [OF ok mem] free_not_cached(1) [OF acc, of b] that free by auto
  have grow: "private_part bm (held rid) (table @ new) = private_part bm (held rid) table @ new"
    using fresh by (simp add: private_part_def)
  have "blocks_accounted ?bm held"
    using acc by (simp add: blocks_accounted_def private_blocks_def upd [unfolded tabs] tabs grow free add_ac)
  moreover have "cache_ok ?bm held"
  proof (cases "bm_cache bm")
    case (Some t)
    have "aligned t (held rid) table" using ok mem Some by (auto simp: cache_ok_def)
    moreover have "b \<notin> phys_of t ` set (held rid)" if "b \<in> set new" for b
      using fresh [OF that] Some by (simp add: cache_owned_def)
    ultimately have "aligned t (held rid) (table @ new)"
      by (auto simp: aligned_def nth_append split: if_splits)
    then show ?thesis using ok Some
      by (simp add: cache_ok_def upd [unfolded tabs] tabs holders_def split_beta)
  qed (simp add: cache_ok_def)
  ultimately show ?thesis using inv dist by (simp add: bm_inv_def distinct_update)
qed

lemma grow_table_result:
  "grow_table n free table = Inr (free', table') \<Longrightarrow> \<exists>new. free = free' @ rev new \<and> table' = table @ new \<and> length new = n"
proof (induction n free table rule: grow_table.induct)
  case (2 n free table)
  then obtain new where "butlast free = free' @ rev new" "table' = (table @ [last free]) @ new" "length new = n" "free \<noteq> []"
    by (auto split: if_splits)
  then have "free = free' @ rev (last free # new)" by (metis append_assoc append_butlast_last_id rev.simps(2))
  with \<open>table' = _\<close> \<open>length new = n\<close> show ?case by (intro exI [of _ "last free # new"]) simp
qed simp

lemma grow_table_returns: "n \<le> length free \<Longrightarrow> \<exists>r. grow_table n free table = Inr r"
  by (induction n free table rule: grow_table.induct) auto

subsection \<open>Holding and releasing cached nodes\<close>

lemma release_refs:
  assumes "distinct as" "\<forall>a \<in> set as. 0 < n_ref_count (t_store t a)"
  obtains t' where "release t as = Inr t'"
    "\<And>c. n_ref_count (t_store t' c) = n_ref_count (t_store t c) - (if c \<in> set as then 1 else 0)"
proof -
  have "\<exists>t'. foldE release_one as t = Inr t'
      \<and> (\<forall>c. n_ref_count (t_store t' c) = n_ref_count (t_store t c) - (if c \<in> set as then 1 else 0))"
    using assms
  proof (induction as arbitrary: t)
    case (Cons a as)
    let ?u = "upd_node a (\<lambda>n. n\<lparr>n_ref_count := n_ref_count n - 1\<rparr>) t"
    have u: "n_ref_count (t_store ?u c) = n_ref_count (t_store t c) - (if c = a then 1 else 0)" for c
      by (simp add: upd_node_def)
    then have "\<forall>a \<in> set as. 0 < n_ref_count (t_store ?u a)" using Cons.prems by auto
    with Cons.IH [of ?u] Cons.prems obtain t' where "foldE release_one as ?u = Inr t'"
      "\<forall>c. n_ref_count (t_store t' c) = n_ref_count (t_store ?u c) - (if c \<in> set as then 1 else 0)" by auto
    moreover have "release_one a t = Inr ?u" using Cons.prems by (simp add: release_one_def)
    ultimately show ?case using Cons.prems by (auto simp: u)
  qed simp
  then show ?thesis using that by (auto simp: release_def)
qed

lemma acquire_refs:
  assumes "distinct (match_nodes m)"
  shows "n_ref_count (t_store (acquire t m n) c)
     = n_ref_count (t_store t c) + (if c \<in> set (match_nodes m) then 1 else 0)"
proof -
  have "distinct as \<Longrightarrow> n_ref_count (t_store (fold (\<lambda>a. upd_node a (\<lambda>n. n\<lparr>n_ref_count := n_ref_count n + 1, n_last_used := k\<rparr>)) as u) c)
     = n_ref_count (t_store u c) + (if c \<in> set as then 1 else 0)" for as k u
    by (induction as arbitrary: u) (auto simp: upd_node_def)
  from this [OF assms] show ?thesis by (simp add: acquire_def Let_def)
qed

lemma same_shape_phys: "same_shape t t' \<Longrightarrow> phys_of t' a = phys_of t a"
  by (simp add: same_shape_def)

lemma same_shape_aligned: "same_shape t t' \<Longrightarrow> aligned t' nodes table = aligned t nodes table"
  by (simp add: aligned_def same_shape_phys)

lemma sum_list_cong_fst:
  assumes "\<And>rid table. (rid, table) \<in> set tb \<Longrightarrow> f rid table = g rid table"
  shows "(\<Sum>(rid, table)\<leftarrow>tb. f rid table) = (\<Sum>(rid, table)\<leftarrow>tb. g rid table)"
  using assms by (intro arg_cong [where f = sum_list] map_cong) auto

text \<open>Only what is held under the ids of the tables matters.\<close>

lemma bm_inv_cong:
  assumes "\<And>rid. rid \<in> fst ` set (bm_tables bm) \<Longrightarrow> held' rid = held rid"
  shows "bm_inv bm held' = bm_inv bm held"
proof -
  have h: "held' rid = held rid" if "(rid, table) \<in> set (bm_tables bm)" for rid table
    using assms that by force
  have "private_blocks bm held' = private_blocks bm held"
    unfolding private_blocks_def by (rule sum_list_cong_fst) (simp add: h)
  moreover have "holders (bm_tables bm) held' = holders (bm_tables bm) held"
    using h by (auto simp: holders_def fun_eq_iff intro!: arg_cong [where f = length] filter_cong)
  moreover have "(\<forall>(rid, table) \<in> set (bm_tables bm). node_path t None (held' rid) \<and> aligned t (held' rid) table)
     \<longleftrightarrow> (\<forall>(rid, table) \<in> set (bm_tables bm). node_path t None (held rid) \<and> aligned t (held rid) table)" for t
    using h by (intro ball_cong) auto
  ultimately show ?thesis by (simp add: bm_inv_def blocks_accounted_def cache_ok_def cong: option.case_cong)
qed

lemma bm_inv_free:
  assumes inv: "bm_inv bm held" and held: "held (request_id r) = cached_prefix_nodes r"
    and tab: "map_of (bm_tables bm) (request_id r) = Some table"
  obtains bm' where "free_blocks bm r = Inr (bm', r\<lparr>cached_prefix_nodes := (if bm_cache bm = None then cached_prefix_nodes r else []), block_table := []\<rparr>)"
    "bm_inv bm' held" "bm_tables bm' = AList.delete (request_id r) (bm_tables bm)"
    "bm_free bm' = bm_free bm @ private_part bm (cached_prefix_nodes r) table"
    "bm_cache bm' = None \<longleftrightarrow> bm_cache bm = None"
    "bm_block_size bm' = bm_block_size bm" "bm_num_gpu_blocks bm' = bm_num_gpu_blocks bm"
    "bm_watermark_blocks bm' = bm_watermark_blocks bm"
proof -
  let ?rid = "request_id r"
  have dist: "distinct (map fst (bm_tables bm))" and acc: "blocks_accounted bm held" and ok: "cache_ok bm held"
    using inv by (auto simp: bm_inv_def)
  obtain xs ys where tabs: "bm_tables bm = xs @ (?rid, table) # ys"
    and del: "AList.delete ?rid (bm_tables bm) = xs @ ys"
    using alist_split [OF dist tab] by metis
  let ?bm = "bm\<lparr>bm_tables := xs @ ys, bm_free := bm_free bm @ private_part bm (held ?rid) table\<rparr>"
  have acc': "mset (bm_free ?bm) + cached_blocks bm + (\<Sum>(rid, table)\<leftarrow>xs @ ys. mset (private_part bm (held rid) table))
      = mset [0..<nat (bm_num_gpu_blocks bm)]"
    using acc by (simp add: blocks_accounted_def private_blocks_def tabs add_ac)
  show ?thesis
  proof (cases "bm_cache bm")
    case None
    then have "private_part bm (held ?rid) table = table" by (simp add: private_part_def cache_owned_def)
    with None tab del have "free_blocks bm r = Inr (?bm, r\<lparr>block_table := []\<rparr>)"
      by (simp add: free_blocks_def Let_def)
    moreover have "bm_inv ?bm held"
      using inv None acc' dist tabs by (simp add: bm_inv_def blocks_accounted_def cache_ok_def private_blocks_def
          private_part_def cache_owned_def cached_blocks_def)
    ultimately show ?thesis using that None del held by simp
  next
    case (Some t)
    have path: "node_path t None (held ?rid)" using ok Some tabs by (auto simp: cache_ok_def)
    have tinv: "trie_inv t" using ok Some by (simp add: cache_ok_def)
    have refs: "\<And>a. live t a \<Longrightarrow> n_ref_count (t_store t a) = int (holders (bm_tables bm) held a)"
      using ok Some by (simp add: cache_ok_def)
    have pos: "\<forall>a \<in> set (held ?rid). 0 < n_ref_count (t_store t a)"
      using refs node_path_live [OF path] by (simp add: holders_def tabs)
    obtain t' where rel: "release t (held ?rid) = Inr t'"
      and refs': "\<And>c. n_ref_count (t_store t' c) = n_ref_count (t_store t c) - (if c \<in> set (held ?rid) then 1 else 0)"
      using release_refs [OF node_path_distinct [OF path] pos] by metis
    note sh = release_shape [OF rel]
    have lv: "live t' = live t" using same_shape_live [OF sh] by auto
    let ?bm' = "?bm\<lparr>bm_cache := Some t'\<rparr>"
    have pp: "private_part ?bm' = private_part bm"
      by (simp add: private_part_def cache_owned_def Some same_shape_phys [OF sh] fun_eq_iff)
    have cb: "cached_blocks ?bm' = cached_blocks bm"
      by (simp add: cached_blocks_def Some same_shape_phys [OF sh] lv)
    have "cache_ok ?bm' held"
    proof -
      have "n_ref_count (t_store t' a) = int (holders (xs @ ys) held a)" if "live t a" for a
        using refs [OF that] refs' [of a] by (simp add: tabs holders_def)
      then show ?thesis using ok Some sh same_shape_live [OF sh] same_shape_inv [OF sh] same_shape_path [OF sh]
        same_shape_aligned [OF sh] by (auto simp: cache_ok_def tabs) (auto simp: same_shape_def)
    qed
    moreover have "blocks_accounted ?bm' held"
      using acc' by (simp add: blocks_accounted_def private_blocks_def pp cb)
    ultimately have inv': "bm_inv ?bm' held" using inv dist by (simp add: bm_inv_def tabs)
    have "free_blocks bm r = Inr (?bm', r\<lparr>cached_prefix_nodes := [], block_table := []\<rparr>)"
    proof (cases "cached_prefix_nodes r")
      case Nil
      with rel held have "t' = t" by (simp add: release_def)
      with Nil Some tab del held show ?thesis
        by (simp add: free_blocks_def Let_def private_part_def cache_owned_def)
    next
      case (Cons a as)
      with rel held Some tab del show ?thesis
        by (simp add: free_blocks_def Let_def private_part_def cache_owned_def)
    qed
    with that inv' Some del held show ?thesis by simp
  qed
qed

subsection \<open>Eviction\<close>

text \<open>
  What a run of evictions keeps: the trie stays well formed, blocks only move from the trie
  to the free list, held nodes stay, nothing else of a node that stays changes but its children.
\<close>

definition evicts :: "radix_trie \<Rightarrow> block_id list \<Rightarrow> radix_trie \<Rightarrow> block_id list \<Rightarrow> bool" where
  "evicts t free t' free' \<longleftrightarrow>
     trie_inv t' \<and> t_hash_fn t' = t_hash_fn t \<and> t_block_size t' = t_block_size t
     \<and> (\<forall>a. \<exists>ch. t_store t' a = (t_store t a)\<lparr>n_children := ch\<rparr>)
     \<and> (\<forall>a. live t' a \<longrightarrow> live t a) \<and> (\<forall>a. live t a \<and> n_ref_count (t_store t a) \<noteq> 0 \<longrightarrow> live t' a)
     \<and> mset free' + image_mset (phys_of t') (mset_set (Collect (live t')))
        = mset free + image_mset (phys_of t) (mset_set (Collect (live t)))
     \<and> (\<exists>bs. free' = free @ bs)"

lemma evicts_refl: "trie_inv t \<Longrightarrow> evicts t free t free"
proof -
  have "\<exists>ch. t_store t a = (t_store t a)\<lparr>n_children := ch\<rparr>" for a
    by (rule exI [of _ "n_children (t_store t a)"]) simp
  then show "trie_inv t \<Longrightarrow> evicts t free t free" by (simp add: evicts_def)
qed

lemma evicts_store:
  assumes "evicts t free t' free'"
  shows "n_block_hash (t_store t' a) = n_block_hash (t_store t a)"
    "n_parent_hash (t_store t' a) = n_parent_hash (t_store t a)"
    "n_token_ids (t_store t' a) = n_token_ids (t_store t a)" "phys_of t' a = phys_of t a"
    "n_ref_count (t_store t' a) = n_ref_count (t_store t a)"
proof -
  obtain ch where "t_store t' a = (t_store t a)\<lparr>n_children := ch\<rparr>" using assms unfolding evicts_def by blast
  then show "n_block_hash (t_store t' a) = n_block_hash (t_store t a)"
    "n_parent_hash (t_store t' a) = n_parent_hash (t_store t a)"
    "n_token_ids (t_store t' a) = n_token_ids (t_store t a)" "phys_of t' a = phys_of t a"
    "n_ref_count (t_store t' a) = n_ref_count (t_store t a)" by simp_all
qed

lemma evictsD:
  assumes "evicts t free t' free'"
  shows "trie_inv t'" "t_hash_fn t' = t_hash_fn t" "t_block_size t' = t_block_size t"
    "mset free' + image_mset (phys_of t') (mset_set (Collect (live t')))
      = mset free + image_mset (phys_of t) (mset_set (Collect (live t)))"
  using assms unfolding evicts_def by blast+

lemma evicts_trans:
  assumes "evicts t free u free1" "evicts u free1 t' free'" shows "evicts t free t' free'"
proof -
  note s1 = evicts_store [OF assms(1)]
  have "\<exists>ch. t_store t' a = (t_store t a)\<lparr>n_children := ch\<rparr>" for a
  proof -
    obtain c1 c2 where "t_store u a = (t_store t a)\<lparr>n_children := c1\<rparr>" "t_store t' a = (t_store u a)\<lparr>n_children := c2\<rparr>"
      using assms unfolding evicts_def by blast
    then have "t_store t' a = (t_store t a)\<lparr>n_children := c2\<rparr>" by simp
    then show ?thesis ..
  qed
  then have "\<forall>a. \<exists>ch. t_store t' a = (t_store t a)\<lparr>n_children := ch\<rparr>" by (rule allI)
  moreover have "\<forall>a. live t' a \<longrightarrow> live t a" using assms unfolding evicts_def by blast
  moreover have "\<forall>a. live t a \<and> n_ref_count (t_store t a) \<noteq> 0 \<longrightarrow> live t' a"
    using assms s1(5) unfolding evicts_def by metis
  moreover have "\<exists>bs. free' = free @ bs" using assms unfolding evicts_def by (metis append_assoc)
  moreover note evictsD(1) [OF assms(2)]
  moreover note trans [OF evictsD(2) [OF assms(2)] evictsD(2) [OF assms(1)]]
  moreover note trans [OF evictsD(3) [OF assms(2)] evictsD(3) [OF assms(1)]]
  moreover note trans [OF evictsD(4) [OF assms(2)] evictsD(4) [OF assms(1)]]
  ultimately show ?thesis unfolding evicts_def by (intro conjI)
qed

lemma distinct_nodes:
  assumes "trie_inv t" shows "distinct (map snd (t_by_hash t))"
proof -
  have "map (\<lambda>a. n_block_hash (t_store t a)) (map snd (t_by_hash t)) = map fst (t_by_hash t)"
    using assms by (auto simp: trie_inv_def node_ok_def)
  then show ?thesis using assms by (metis distinct_map trie_inv_def)
qed

lemma num_evictable_card:
  assumes "trie_inv t" shows "num_evictable_blocks t = int (card {a. live t a \<and> evictable t a})"
proof -
  have "distinct (eviction_candidates t)"
    using distinct_nodes [OF assms] by (simp add: eviction_candidates_def)
  moreover have "set (eviction_candidates t) = {a. live t a \<and> evictable t a}"
    using eviction_candidates_iff [OF assms] by blast
  ultimately show ?thesis by (metis distinct_card num_evictable_blocks_def)
qed

text \<open>A leaf stays a leaf.\<close>

lemma evicts_leaf:
  assumes inv: "trie_inv t" and ev: "evicts t free t' free'" and live: "live t' c"
    and leaf: "n_children (t_store t c) = []"
  shows "n_children (t_store t' c) = []"
proof (rule ccontr)
  assume "n_children (t_store t' c) \<noteq> []"
  then obtain h x rest where "n_children (t_store t' c) = (h, x) # rest" by (metis neq_Nil_conv surj_pair)
  then have m: "map_of (level_of t' (Some c)) h = Some x" by (simp add: level_of_def)
  have inv': "trie_inv t'" using ev by (simp add: evicts_def)
  note x = level_iff [OF inv', of "Some c" h x] m live
  then have "map_of (t_by_hash t') h = Some x" "n_parent_hash (t_store t' x) = Some (n_block_hash (t_store t' c))"
    by auto
  then have "live t' x" "n_block_hash (t_store t' x) = h" using trie_inv_by_hashD [OF inv'] by auto
  then have "map_of (t_by_hash t) h = Some x" "n_parent_hash (t_store t x) = Some (n_block_hash (t_store t c))" "live t c"
    using ev live \<open>n_parent_hash _ = _\<close> evicts_store [OF ev] by (auto simp: evicts_def live_def)
  then have "map_of (level_of t (Some c)) h = Some x" using level_iff [OF inv, of "Some c" h x] by simp
  with leaf show False by (simp add: level_of_def)
qed

lemma evict_one_evicts:
  assumes inv: "trie_inv t"
  shows "(\<exists>t' b. evict_one_lru t = Inr (t', Some b) \<and> evicts t free t' (free @ [b])
            \<and> num_evictable_blocks t - 1 \<le> num_evictable_blocks t')
         \<or> evict_one_lru t = Inr (t, None) \<and> num_evictable_blocks t = 0"
proof (cases "eviction_candidates t = []")
  case True
  then show ?thesis by (simp add: evict_one_lru_def num_evictable_blocks_def)
next
  case False
  let ?v = "lru_victim t"
  obtain t' where t': "evict_one_lru t = Inr (t', Some (phys_of t ?v))" "trie_inv t'"
    "\<And>c. live t' c \<longleftrightarrow> live t c \<and> c \<noteq> ?v"
    "t_by_hash t' = AList.delete (n_block_hash (t_store t ?v)) (t_by_hash t)"
    "\<And>c. \<exists>ch. t_store t' c = (t_store t c)\<lparr>n_children := ch\<rparr>"
    "t_block_size t' = t_block_size t" "t_hash_fn t' = t_hash_fn t"
    using evict_one_lru_inv [OF inv False] by metis
  note v = lru_victim_props [OF inv False]
  have st: "phys_of t' a = phys_of t a" "n_ref_count (t_store t' a) = n_ref_count (t_store t a)" for a
    using t'(5) [of a] by auto
  have lv: "Collect (live t) = insert ?v (Collect (live t'))" "?v \<notin> Collect (live t')"
    using t'(3) v(1) by auto
  have fin: "finite (Collect (live t'))" using finite_live [OF t'(2)] by simp
  have ev: "evicts t free t' (free @ [phys_of t ?v])"
    unfolding evicts_def
    using t'(2,5,6,7) t'(3) v(2) lv fin
    by (auto simp: st evictable_def)
  have "{a. live t a \<and> evictable t a} - {?v} \<subseteq> {a. live t' a \<and> evictable t' a}"
    using evicts_leaf [OF inv ev] t'(3) by (auto simp: evictable_def st)
  then have "card ({a. live t a \<and> evictable t a} - {?v}) \<le> card {a. live t' a \<and> evictable t' a}"
    by (rule card_mono [rotated]) (use fin in auto)
  then have "num_evictable_blocks t - 1 \<le> num_evictable_blocks t'"
    using v by (simp add: num_evictable_card inv t'(2) card_Diff_singleton)
  with ev t'(1) show ?thesis by blast
qed

lemma drain_evictions_result:
  assumes "trie_inv t"
  obtains t' free' where "drain_evictions needed t free = Inr (t', free')" "evicts t free t' free'"
    "min needed (int (length free) + num_evictable_blocks t) \<le> int (length free')"
proof -
  have "\<exists>t' free'. drain_evictions needed t free = Inr (t', free') \<and> evicts t free t' free'
     \<and> min needed (int (length free) + num_evictable_blocks t) \<le> int (length free')"
    using assms
  proof (induction needed t free rule: drain_evictions.induct)
    case (1 needed t free)
    note simps = drain_evictions.simps [of needed t free]
    show ?case
    proof (cases "int (length free) < needed")
      case False
      then show ?thesis using simps evicts_refl [OF 1(2)] by auto
    next
      case True
      from evict_one_evicts [OF 1(2), of free] show ?thesis
      proof (elim disjE exE conjE)
        fix u b assume u: "evict_one_lru t = Inr (u, Some b)" "evicts t free u (free @ [b])"
          "num_evictable_blocks t - 1 \<le> num_evictable_blocks u"
        have "trie_inv u" using u(2) by (simp add: evicts_def)
        with "1.IH" [OF True u(1) refl refl] obtain t' free' where
          r: "drain_evictions needed u (free @ [b]) = Inr (t', free')" "evicts u (free @ [b]) t' free'"
          "min needed (int (length (free @ [b])) + num_evictable_blocks u) \<le> int (length free')" by blast
        have "min needed (int (length free) + num_evictable_blocks t) \<le> int (length free')"
          using r(3) u(3) by auto
        then show ?thesis using simps True u(1) r(1) evicts_trans [OF u(2) r(2)] by auto
      next
        assume "evict_one_lru t = Inr (t, None)" "num_evictable_blocks t = 0"
        then show ?thesis using simps True evicts_refl [OF 1(2)] by auto
      qed
    qed
  qed
  then show ?thesis using that by blast
qed

subsection \<open>Allocation\<close>

lemma pop_free_split:
  assumes "pop_free n free = (fresh, free')" "n \<le> length free"
  shows "free = free' @ rev fresh" "length fresh = n"
proof -
  have "rev (take n (rev free)) = drop (length free - n) free" by (simp add: rev_take)
  then have "take (length free - n) free @ rev (take n (rev free)) = free" by simp
  then show "free = free' @ rev fresh" using assms by (simp add: pop_free_def)
  have "length (take n (rev free)) = n" using assms(2) by simp
  then show "length fresh = n" using assms(1) unfolding pop_free_def by (metis prod.inject)
qed

lemma matched_within_need:
  assumes "0 < t_block_size t"
  shows "int (length (match_nodes (trie_match t (prompt_token_ids r)))) \<le> num_blocks_needed r (t_block_size t)"
proof -
  let ?n = "int (length (match_nodes (trie_match t (prompt_token_ids r))))"
  have "\<not> num_blocks_needed r (t_block_size t) \<le> ?n - 1"
  proof
    assume "num_blocks_needed r (t_block_size t) \<le> ?n - 1"
    then have "get_len r \<le> (?n - 1) * t_block_size t" using num_blocks_needed_le_iff [OF assms] by blast
    moreover have "?n * t_block_size t \<le> int (length (prompt_token_ids r))"
      using trie_match_tokens(2) [OF assms] by (simp add: trie_match_fields)
    ultimately show False using assms by (simp add: get_len_def algebra_simps)
  qed
  then show ?thesis by simp
qed

lemma holders_nonneg_pos:
  "(rid, table) \<in> set tables \<Longrightarrow> a \<in> set (held rid) \<Longrightarrow> 0 < holders tables held a"
  by (force simp: holders_def filter_empty_conv)

lemma holders_snoc:
  assumes "rid \<notin> fst ` set tables"
  shows "holders (tables @ [(rid, table)]) (held(rid := nodes)) a
     = holders tables held a + (if a \<in> set nodes then 1 else 0)"
proof -
  have "filter (\<lambda>x. a \<in> set ((held(rid := nodes)) x)) (map fst tables) = filter (\<lambda>x. a \<in> set (held x)) (map fst tables)"
    using assms by (intro filter_cong) auto
  then show ?thesis by (simp add: holders_def)
qed

text \<open>What an admission promises when the match is the one the manager itself finds.\<close>

definition admitted :: "block_manager \<Rightarrow> request \<Rightarrow> block_manager \<Rightarrow> request \<Rightarrow> bool" where
  "admitted bm r bm' r' \<longleftrightarrow>
     (\<exists>table. r' = r\<lparr>cached_prefix_nodes := (case match_prefix bm (prompt_token_ids r) of
                       None \<Rightarrow> cached_prefix_nodes r | Some p \<Rightarrow> match_nodes p), block_table := table\<rparr>
        \<and> bm_tables bm' = bm_tables bm @ [(request_id r, table)]
        \<and> int (length table) = num_blocks_needed r (bm_block_size bm)
        \<and> take (length (matched_blocks (match_prefix bm (prompt_token_ids r)))) table
            = matched_blocks (match_prefix bm (prompt_token_ids r)))
     \<and> bm_block_size bm' = bm_block_size bm \<and> bm_num_gpu_blocks bm' = bm_num_gpu_blocks bm
     \<and> bm_watermark_blocks bm' = bm_watermark_blocks bm \<and> (bm_cache bm' = None \<longleftrightarrow> bm_cache bm = None)"

lemma allocate_cached:
  assumes inv: "bm_inv bm held" and t: "bm_cache bm = Some t" and new: "map_of (bm_tables bm) (request_id r) = None"
    and m0: "m0 = None \<or> m0 = match_prefix bm (prompt_token_ids r)"
    and m: "m = trie_match t (prompt_token_ids r)"
  shows "(allocate bm r m0 = Inl OutOfMemoryError
           \<and> num_free_blocks bm + num_evictable_blocks (acquire t m (int (length (prompt_token_ids r))))
              < num_blocks_needed r (bm_block_size bm) - int (length (match_nodes m)))
       \<or> (\<exists>bm' r'. allocate bm r m0 = Inr (bm', r') \<and> admitted bm r bm' r'
            \<and> bm_inv bm' (held(request_id r := match_nodes m)))"
proof -
  let ?rid = "request_id r" and ?nodes = "match_nodes m"
  let ?t1 = "acquire t m (int (length (prompt_token_ids r)))"
  let ?need = "num_blocks_needed r (bm_block_size bm) - int (length ?nodes)"
  have dist: "distinct (map fst (bm_tables bm))" and acc: "blocks_accounted bm held" and ok: "cache_ok bm held"
    and bs: "0 < bm_block_size bm" and tinv: "trie_inv t" and bseq: "t_block_size t = bm_block_size bm"
    and refs: "\<And>a. live t a \<Longrightarrow> n_ref_count (t_store t a) = int (holders (bm_tables bm) held a)"
    and others: "\<And>rid table. (rid, table) \<in> set (bm_tables bm) \<Longrightarrow> node_path t None (held rid) \<and> aligned t (held rid) table"
    using inv t by (auto simp: bm_inv_def cache_ok_def)
  have rid: "?rid \<notin> fst ` set (bm_tables bm)" using new by (simp add: map_of_eq_None_iff)
  have path: "node_path t None ?nodes" using trie_match_path [OF tinv] m by simp
  have ids: "matched_blocks (Some m) = map (phys_of t) ?nodes" using m by (simp add: matched_blocks_def trie_match_fields)
  have need: "0 \<le> ?need" using matched_within_need [of t r] bs bseq m by simp
  note sh = acquire_shape [of t m "int (length (prompt_token_ids r))"]
  have lv: "live ?t1 = live t" using same_shape_live [OF sh] by auto
  have tinv1: "trie_inv ?t1" using same_shape_inv [OF sh] tinv by simp
  note ref1 = acquire_refs [OF node_path_distinct [OF path], of t "int (length (prompt_token_ids r))"]
  obtain t' free' where dr: "drain_evictions ?need ?t1 (bm_free bm) = Inr (t', free')"
    "evicts ?t1 (bm_free bm) t' free'"
    "min ?need (int (length (bm_free bm)) + num_evictable_blocks ?t1) \<le> int (length free')"
    using drain_evictions_result [OF tinv1] by metis
  note ev = evictsD [OF dr(2)] and st = evicts_store [OF dr(2)]
  have phys: "phys_of t' a = phys_of t a" for a using st(4) same_shape_phys [OF sh] by simp
  have mm: "(case m0 of None \<Rightarrow> trie_match t (prompt_token_ids r) | Some p \<Rightarrow> p) = m"
    using m0 t m by (auto simp: match_prefix_def)
  show ?thesis
  proof (cases "int (length free') < ?need")
    case True
    then have "allocate bm r m0 = Inl OutOfMemoryError"
      using dr(1) new by (simp add: allocate_def t mm ids Let_def)
    then show ?thesis using True dr(3) by (simp add: num_free_blocks_def)
  next
    case False
    obtain fresh free'' where pop: "pop_free (nat ?need) free' = (fresh, free'')" by fastforce
    have fr: "free' = free'' @ rev fresh" "length fresh = nat ?need"
      using pop_free_split [OF pop] False by auto
    let ?table = "map (phys_of t) ?nodes @ fresh"
    let ?bm = "bm\<lparr>bm_cache := Some t', bm_free := free'', bm_tables := bm_tables bm @ [(?rid, ?table)]\<rparr>"
    let ?held = "held(?rid := ?nodes)"
    have res: "allocate bm r m0 = Inr (?bm, r\<lparr>cached_prefix_nodes := ?nodes, block_table := ?table\<rparr>)"
      using dr(1) new False pop by (simp add: allocate_def t mm ids Let_def alist_update_fresh)
    have adm: "admitted bm r ?bm (r\<lparr>cached_prefix_nodes := ?nodes, block_table := ?table\<rparr>)"
      using t m fr need ids by (auto simp: admitted_def match_prefix_def)
    have keep: "kept t t' a" if "live t a" "0 < n_ref_count (t_store ?t1 a)" for a
      using that dr(2) lv st sh by (auto simp: kept_def evicts_def same_shape_def)
    have refge: "0 \<le> n_ref_count (t_store t a)" if "live t a" for a using refs [OF that] by simp
    have keepn: "kept t t' a" if "a \<in> set ?nodes" for a
      using keep [of a] node_path_live [OF path that] refge [of a] that ref1 [of a] by simp
    have keeph: "kept t t' a" if "(rid, table) \<in> set (bm_tables bm)" "a \<in> set (held rid)" for rid table a
    proof -
      have l: "live t a" using others [OF that(1)] that(2) node_path_live by blast
      have "0 < n_ref_count (t_store t a)" using refs [OF l] holders_nonneg_pos [where held = held, OF that] by simp
      then show ?thesis using keep [OF l] ref1 [of a] by simp
    qed
    have livet: "live t' a \<Longrightarrow> live t a" for a using dr(2) lv by (simp add: evicts_def)
    have acct: "mset free' + image_mset (phys_of t) (mset_set (Collect (live t'))) + private_blocks bm held
        = mset [0..<nat (bm_num_gpu_blocks bm)]"
      using ev(4) acc by (simp add: blocks_accounted_def cached_blocks_def t phys lv same_shape_phys [OF sh] add_ac)
    have notown: "b \<notin> phys_of t ` set ?nodes" if "b \<in> set fresh" for b
    proof
      assume "b \<in> phys_of t ` set ?nodes"
      then obtain a where a: "a \<in> set ?nodes" "b = phys_of t a" by auto
      have "live t' a" using keepn [OF a(1)] by (simp add: kept_def)
      then have "b \<in># image_mset (phys_of t) (mset_set (Collect (live t')))"
        using a finite_live [OF ev(1)] by auto
      moreover have "b \<in># mset free'" using that fr by simp
      ultimately have "0 < count (image_mset (phys_of t) (mset_set (Collect (live t')))) b" "0 < count (mset free') b"
        by (simp_all only: count_greater_zero_iff)
      then have "1 < count (mset free' + image_mset (phys_of t) (mset_set (Collect (live t'))) + private_blocks bm held) b"
        unfolding count_union by linarith
      then show False unfolding acct using count_upt_le [of "nat (bm_num_gpu_blocks bm)" b] by linarith
    qed
    have ppn: "private_part ?bm ?nodes ?table = fresh"
      using notown by (auto simp: private_part_def cache_owned_def phys filter_empty_conv)
    have ppo: "private_part ?bm nodes table = private_part bm nodes table" for nodes table
      by (simp add: private_part_def cache_owned_def t phys)
    have "private_blocks ?bm ?held = private_blocks bm held + mset fresh"
    proof -
      have "(\<Sum>(x, table)\<leftarrow>bm_tables bm. mset (private_part ?bm (?held x) table)) = private_blocks bm held"
        unfolding private_blocks_def by (rule sum_list_cong_fst) (use rid ppo in force)
      then show ?thesis using ppn by (simp add: private_blocks_def)
    qed
    then have "blocks_accounted ?bm ?held"
      using acct fr by (simp add: blocks_accounted_def cached_blocks_def phys add_ac)
    moreover have "cache_ok ?bm ?held"
    proof -
      have "aligned t' ?nodes ?table"
        using notown by (auto simp: aligned_def phys nth_append split: if_splits)
      moreover have "node_path t' None ?nodes" using node_path_kept [of ?nodes t t' None] path keepn by simp
      moreover have "node_path t' None (?held x) \<and> aligned t' (?held x) table" if "(x, table) \<in> set (bm_tables bm)" for x table
        using rid that others [OF that] node_path_kept [of "held x" t t' None] keeph [OF that]
        by (force simp: aligned_def phys)
      moreover have "n_ref_count (t_store t' a) = int (holders (bm_tables bm @ [(?rid, ?table)]) ?held a)" if "live t' a" for a
        using refs [OF livet [OF that]] ref1 [of a] st(5) [of a] holders_snoc [OF rid] by simp
      moreover have "t_block_size t' = bm_block_size bm"
        using ev sh bseq by (simp add: same_shape_def)
      ultimately show ?thesis using ev(1) by (simp add: cache_ok_def) blast
    qed
    ultimately have "bm_inv ?bm ?held" using inv rid by (simp add: bm_inv_def)
    then show ?thesis using res adm by blast
  qed
qed

subsection \<open>Registering computed blocks\<close>

lemma private_part_of:
  assumes "bm_cache bm = Some t" shows "private_part bm nodes table = filter (\<lambda>b. b \<notin> phys_of t ` set nodes) table"
  using assms by (simp add: private_part_def cache_owned_def)

lemma holders_upd:
  assumes "distinct (map fst tables)" "rid \<in> fst ` set tables" "set (held rid) \<subseteq> set nodes"
  shows "holders tables (held(rid := nodes)) a
     = holders tables held a + (if a \<in> set nodes \<and> a \<notin> set (held rid) then 1 else 0)"
  using assms
proof (induction tables)
  case (Cons x tables)
  have skip: "rid \<notin> fst ` set tables \<Longrightarrow> filter (\<lambda>x. a \<in> set ((held(rid := nodes)) x)) (map fst tables) = filter (\<lambda>x. a \<in> set (held x)) (map fst tables)"
    by (intro filter_cong) auto
  show ?case
  proof (cases "fst x = rid")
    case True
    then have "rid \<notin> fst ` set tables" using Cons.prems by auto
    with True Cons.prems(3) skip show ?thesis by (auto simp: holders_def)
  next
    case False
    then have "rid \<in> fst ` set tables" using Cons.prems by auto
    with False Cons show ?thesis by (auto simp: holders_def)
  qed
qed simp

lemma in_drop_nth: "a \<in> set (drop n xs) \<longleftrightarrow> (\<exists>i. n \<le> i \<and> i < length xs \<and> a = xs ! i)"
proof
  assume "a \<in> set (drop n xs)"
  then obtain k where "k < length xs - n" "a = xs ! (n + k)" by (auto simp: in_set_conv_nth)
  then show "\<exists>i. n \<le> i \<and> i < length xs \<and> a = xs ! i" by (intro exI [of _ "n + k"]) auto
next
  assume "\<exists>i. n \<le> i \<and> i < length xs \<and> a = xs ! i"
  then obtain i where "n \<le> i" "i < length xs" "a = xs ! i" by blast
  then show "a \<in> set (drop n xs)" by (auto simp: in_set_conv_nth intro!: exI [of _ "i - n"])
qed

lemma distinct_count_le: "(\<And>b. count (mset xs) b \<le> 1) \<Longrightarrow> distinct xs"
proof (induction xs)
  case (Cons x xs)
  have "count (mset xs) b \<le> 1" for b
    by (rule order_trans [OF _ Cons.prems [of b]]) simp
  moreover have "count (mset xs) x = 0" using Cons.prems [of x] by simp
  ultimately show ?case using Cons.IH by (simp add: count_eq_zero_iff)
qed simp

lemma distinct_filter_nth:
  "distinct (filter Q xs) \<Longrightarrow> i < length xs \<Longrightarrow> j < length xs \<Longrightarrow> Q (xs ! i) \<Longrightarrow> xs ! i = xs ! j \<Longrightarrow> i = j"
proof (induction xs arbitrary: i j)
  case (Cons x xs)
  then show ?case by (cases i; cases j) (force split: if_splits)+
qed simp

text \<open>Moving some of a table's own blocks to the cache.\<close>

lemma mset_move_filter:
  assumes "distinct ps" "set news \<subseteq> set ps" "distinct news"
  shows "mset (filter (\<lambda>b. b \<notin> set news) ps) + mset news = mset ps"
proof -
  have "mset (filter (\<lambda>b. b \<in> set news) ps) = mset news"
    by (rule set_eq_iff_mset_eq_distinct [THEN iffD1]) (use assms in auto)
  then show ?thesis by (metis add.commute mset_filter multiset_partition)
qed

lemma bm_inv_insert_rel:
  assumes inv: "bm_inv bm held" and t: "bm_cache bm = Some t"
    and tab: "map_of (bm_tables bm) rid = Some table"
    and rel: "insert_rel toks table (held rid) t nodes t'" and refs: "insert_refs (held rid) t nodes t'"
    and len: "length nodes \<le> length table"
  shows "bm_inv (bm\<lparr>bm_cache := Some t'\<rparr>) (held(rid := nodes))"
proof -
  let ?bm = "bm\<lparr>bm_cache := Some t'\<rparr>" and ?held = "held(rid := nodes)"
  have dist: "distinct (map fst (bm_tables bm))" and acc: "blocks_accounted bm held" and ok: "cache_ok bm held"
    and tinv: "trie_inv t" and bseq: "t_block_size t = bm_block_size bm"
    and refs0: "\<And>a. live t a \<Longrightarrow> n_ref_count (t_store t a) = int (holders (bm_tables bm) held a)"
    and others: "\<And>rid table. (rid, table) \<in> set (bm_tables bm) \<Longrightarrow> node_path t None (held rid) \<and> aligned t (held rid) table"
    using inv t by (auto simp: bm_inv_def cache_ok_def)
  have mem: "(rid, table) \<in> set (bm_tables bm)" using tab by (rule map_of_SomeD)
  have tinv': "trie_inv t'" and path': "node_path t' None nodes" and pre: "take (length (held rid)) nodes = held rid"
    and lenk: "length (held rid) \<le> length nodes"
    and kept: "\<And>a. live t a \<Longrightarrow> kept t t' a"
    and new: "\<And>i. length (held rid) \<le> i \<Longrightarrow> i < length nodes \<Longrightarrow> live t (nodes ! i) \<or> phys_of t' (nodes ! i) = table ! i"
    and lv: "\<And>a. live t' a \<Longrightarrow> live t a \<or> a \<in> set (drop (length (held rid)) nodes)"
    and flds: "t_hash_fn t' = t_hash_fn t" "t_block_size t' = t_block_size t"
    using rel by (auto simp: insert_rel_def)
  have phys: "live t a \<Longrightarrow> phys_of t' a = phys_of t a" for a using kept by (simp add: kept_def)
  have nodes: "nodes = held rid @ drop (length (held rid)) nodes" using pre by (metis append_take_drop_id)
  have dn: "distinct nodes" by (rule node_path_distinct [OF path'])
  have livek: "a \<in> set (held rid) \<Longrightarrow> live t a" for a using others [OF mem] node_path_live by blast
  have al: "aligned t (held rid) table" using others [OF mem] by simp
  define fresh where "fresh = filter (\<lambda>i. \<not> live t (nodes ! i)) [length (held rid)..<length nodes]"
  define news where "news = map (\<lambda>i. table ! i) fresh"
  have fr: "i \<in> set fresh \<longleftrightarrow> length (held rid) \<le> i \<and> i < length nodes \<and> \<not> live t (nodes ! i)" for i
    by (auto simp: fresh_def)
  let ?P = "private_part bm (held rid) table"
  have P: "?P = filter (\<lambda>b. b \<notin> phys_of t ` set (held rid)) table" by (rule private_part_of [OF t])
  obtain xs ys where tabs: "bm_tables bm = xs @ (rid, table) # ys" using alist_split [OF dist tab] by metis
  note pb = private_blocks_at [OF tabs]
  have Psub: "count (mset ?P) b \<le> count (private_blocks bm held) b" for b using pb [of held] by simp
  have dP: "distinct ?P"
  proof (rule distinct_count_le)
    show "count (mset ?P) b \<le> 1" for b using Psub [of b] blocks_count [OF acc, of b] by linarith
  qed
  have cached_not_private: "b \<notin> set ?P" if "live t a" "b = phys_of t a" for a b
  proof
    assume "b \<in> set ?P"
    then have "0 < count (mset ?P) b" by simp
    then have "0 < count (private_blocks bm held) b" using Psub [of b] by linarith
    moreover have "b \<in># cached_blocks bm" using cached_blocks_iff [OF ok t] that by blast
    then have "0 < count (cached_blocks bm) b" by simp
    ultimately show False using blocks_count [OF acc, of b] by linarith
  qed
  have freshP: "table ! i \<in> set ?P \<and> i < length table" if "i \<in> set fresh" for i
  proof -
    have i: "i < length table" "\<not> i < length (held rid)" using that len by (auto simp: fr)
    then have "table ! i \<notin> phys_of t ` set (held rid)" using al unfolding aligned_def by blast
    with i show ?thesis by (simp add: P)
  qed
  have uniq: "i = j" if "i \<in> set fresh" "j < length table" "table ! i = table ! j" for i j
    using distinct_filter_nth [OF dP [unfolded P], of i j] freshP [OF that(1)] that P by simp
  have dfresh: "distinct fresh" by (simp add: fresh_def)
  have dnews: "distinct news"
    unfolding news_def distinct_map using dfresh uniq freshP by (auto simp: inj_on_def)
  have physf: "phys_of t' (nodes ! i) = table ! i" if "i \<in> set fresh" for i using that new [of i] by (simp add: fr)
  have hit_out: "phys_of t' (nodes ! i) \<notin> set ?P" if "length (held rid) \<le> i" "i < length nodes" "i \<notin> set fresh" for i
    using cached_not_private [of "nodes ! i"] phys that by (simp add: fr)
  have inphys: "b \<in> phys_of t' ` set nodes \<longleftrightarrow> b \<in> phys_of t ` set (held rid)
      \<or> (\<exists>i. length (held rid) \<le> i \<and> i < length nodes \<and> b = phys_of t' (nodes ! i))" for b
  proof -
    have "phys_of t' ` set nodes = phys_of t' ` set (held rid) \<union> phys_of t' ` set (drop (length (held rid)) nodes)"
      using nodes by (metis image_Un set_append)
    moreover have "phys_of t' ` set (held rid) = phys_of t ` set (held rid)" using livek phys by (auto intro!: image_cong)
    moreover have "b \<in> phys_of t' ` set (drop (length (held rid)) nodes)
      \<longleftrightarrow> (\<exists>i. length (held rid) \<le> i \<and> i < length nodes \<and> b = phys_of t' (nodes ! i))"
      by (simp add: image_iff Bex_def in_drop_nth) blast
    ultimately show ?thesis by simp
  qed
  have own: "b \<in> phys_of t' ` set nodes \<longleftrightarrow> b \<in> phys_of t ` set (held rid) \<or> b \<in> set news" if "b \<in> set table" for b
  proof
    assume "b \<in> phys_of t' ` set nodes"
    then show "b \<in> phys_of t ` set (held rid) \<or> b \<in> set news" unfolding inphys
    proof (elim disjE exE conjE)
      fix i assume i: "length (held rid) \<le> i" "i < length nodes" "b = phys_of t' (nodes ! i)"
      show ?thesis
      proof (cases "i \<in> set fresh")
        case True then show ?thesis using i(3) physf by (simp add: news_def)
      next
        case False then show ?thesis using hit_out [OF i(1,2)] i(3) that by (simp add: P)
      qed
    qed simp
  next
    assume "b \<in> phys_of t ` set (held rid) \<or> b \<in> set news"
    moreover have "b \<in> phys_of t' ` set nodes" if n: "b \<in> set news"
    proof -
      obtain i where i: "i \<in> set fresh" "b = table ! i" using n by (auto simp: news_def)
      then have "b = phys_of t' (nodes ! i)" "i < length nodes" using physf by (auto simp: fr)
      then show ?thesis by simp
    qed
    ultimately show "b \<in> phys_of t' ` set nodes" using inphys by blast
  qed
  have P': "private_part ?bm nodes table = filter (\<lambda>b. b \<notin> set news) ?P"
    using own by (auto simp: private_part_of [of ?bm t'] P intro!: filter_cong)
  have move: "mset (private_part ?bm nodes table) + mset news = mset ?P"
    unfolding P' by (rule mset_move_filter [OF dP]) (use freshP dnews in \<open>auto simp: news_def\<close>)
  have livek': "a \<in> set (held x) \<Longrightarrow> live t a" if "(x, tb) \<in> set (bm_tables bm)" for x tb a
    using others [OF that] node_path_live by blast
  have ppo: "private_part ?bm (held x) tb = private_part bm (held x) tb" if "(x, tb) \<in> set (bm_tables bm)" for x tb
    using livek' [OF that] phys by (auto simp: private_part_of [of ?bm t'] private_part_of [OF t] intro!: filter_cong)
  have lvs: "Collect (live t') = Collect (live t) \<union> (\<lambda>i. nodes ! i) ` set fresh"
    using lv kept node_path_live [OF path'] by (fastforce simp: fr kept_def in_drop_nth)
  have "image_mset (phys_of t') (mset_set (Collect (live t'))) = image_mset (phys_of t) (mset_set (Collect (live t))) + mset news"
  proof -
    have inj: "inj_on (\<lambda>i. nodes ! i) (set fresh)" using dn by (auto simp: inj_on_def fr nth_eq_iff_index_eq)
    have img: "mset_set ((\<lambda>i. nodes ! i) ` set fresh) = image_mset (\<lambda>i. nodes ! i) (mset fresh)"
      using image_mset_mset_set [OF inj] mset_set_set [OF dfresh] by simp
    have "mset_set (Collect (live t')) = mset_set (Collect (live t)) + image_mset (\<lambda>i. nodes ! i) (mset fresh)"
      unfolding lvs using finite_live [OF tinv] img
      by (subst mset_set_Union) (auto simp: fr)
    moreover have "image_mset (phys_of t') (mset_set (Collect (live t))) = image_mset (phys_of t) (mset_set (Collect (live t)))"
      using phys finite_live [OF tinv] by (intro image_mset_cong) simp
    moreover have "map (\<lambda>i. phys_of t' (nodes ! i)) fresh = news" using physf by (simp add: news_def)
    then have "image_mset (phys_of t') (image_mset (\<lambda>i. nodes ! i) (mset fresh)) = mset news"
      by (metis (no_types, lifting) comp_def map_eq_conv map_map mset_map)
    ultimately show ?thesis by simp
  qed
  then have C: "cached_blocks ?bm = cached_blocks bm + mset news" by (simp add: cached_blocks_def t)
  have R: "private_blocks ?bm ?held + mset news = private_blocks bm held"
  proof -
    have "(\<Sum>(x, tb)\<leftarrow>xs @ ys. mset (private_part ?bm (?held x) tb)) = (\<Sum>(x, tb)\<leftarrow>xs @ ys. mset (private_part bm (held x) tb))"
      proof (rule sum_list_cong_fst)
      fix x tb assume "(x, tb) \<in> set (xs @ ys)"
      moreover have "rid \<notin> fst ` set (xs @ ys)" using dist by (simp add: tabs image_Un)
      moreover have "x \<in> fst ` set (xs @ ys)"
        by (rule image_eqI [where x = "(x, tb)"]) (use \<open>(x, tb) \<in> _\<close> in simp_all)
      ultimately have "(x, tb) \<in> set (bm_tables bm)" "x \<noteq> rid" unfolding tabs by (force, blast)
      then show "mset (private_part ?bm (?held x) tb) = mset (private_part bm (held x) tb)" using ppo by simp
    qed
    moreover have "private_blocks ?bm ?held = mset (private_part ?bm nodes table)
        + (\<Sum>(x, tb)\<leftarrow>xs @ ys. mset (private_part ?bm (?held x) tb))"
      using private_blocks_at [of ?bm xs rid table ys ?held] tabs by simp
    ultimately show ?thesis using pb [of held] move by (metis (no_types, lifting) union_assoc union_commute)
  qed
  have "mset (bm_free bm) + cached_blocks ?bm + private_blocks ?bm ?held
      = mset (bm_free bm) + cached_blocks bm + private_blocks bm held"
    unfolding C R [symmetric] by (simp only: add_ac)
  also have "\<dots> = mset [0..<nat (bm_num_gpu_blocks bm)]" using acc unfolding blocks_accounted_def .
  finally have "blocks_accounted ?bm ?held" unfolding blocks_accounted_def by simp
  moreover have "cache_ok ?bm ?held"
  proof -
    have hk: "node_path t' None (held x)" "aligned t' (held x) tb" if "(x, tb) \<in> set (bm_tables bm)" for x tb
    proof -
      show "node_path t' None (held x)"
        using others [OF that] node_path_kept [of "held x" t t' None] kept livek' [OF that] by simp
      show "aligned t' (held x) tb" using others [OF that] livek' [OF that] phys
        by (auto simp: aligned_def)
    qed
    have "aligned t' nodes table"
      unfolding aligned_def
    proof (intro allI impI)
      fix j assume j: "j < length table" "table ! j \<in> phys_of t' ` set nodes"
      then consider "table ! j \<in> phys_of t ` set (held rid)" | "table ! j \<in> set news"
        using own [of "table ! j"] by auto
      then show "j < length nodes \<and> table ! j = phys_of t' (nodes ! j)"
      proof cases
        case 1
        then have h: "j < length (held rid)" "table ! j = phys_of t (held rid ! j)" using al j by (auto simp: aligned_def)
        then have "nodes ! j = held rid ! j" using nodes by (metis nth_append)
        then show ?thesis using h lenk phys livek by simp
      next
        case 2
        then obtain i where i: "i \<in> set fresh" "table ! j = table ! i" by (auto simp: news_def)
        have "i = j" by (rule uniq [OF i(1) j(1) i(2) [symmetric]])
        then show ?thesis using i(1) physf by (simp add: fr)
      qed
    qed
    moreover have "x = rid \<longrightarrow> tb = table" if "(x, tb) \<in> set (bm_tables bm)" for x tb
      using that tab map_of_is_SomeI [OF dist] by fastforce
    moreover have "n_ref_count (t_store t' a) = int (holders (bm_tables bm) ?held a)" if "live t' a" for a
    proof -
      have un: "set nodes = set (held rid) \<union> set (drop (length (held rid)) nodes)"
        by (subst nodes) (rule set_append)
      have "distinct (held rid @ drop (length (held rid)) nodes)" using dn nodes by metis
      then have dis: "a \<in> set (held rid) \<Longrightarrow> a \<notin> set (drop (length (held rid)) nodes)" by auto
      have "holders (bm_tables bm) held a = 0" if "\<not> live t a"
        using that livek' by (fastforce simp: holders_def filter_empty_conv)
      moreover have "holders (bm_tables bm) ?held a = holders (bm_tables bm) held a
          + (if a \<in> set nodes \<and> a \<notin> set (held rid) then 1 else 0)"
        by (rule holders_upd [OF dist]) (use mem un in \<open>force+\<close>)
      ultimately show ?thesis using refs refs0 [of a] that un dis by (auto simp: insert_refs_def)
    qed
    ultimately show ?thesis using hk tinv' path' flds bseq by (simp add: cache_ok_def) force
  qed
  ultimately show ?thesis using inv by (simp add: bm_inv_def)
qed

lemma bm_inv_insert:
  assumes inv: "bm_inv bm held" and tab: "map_of (bm_tables bm) (request_id r) = Some table"
    and same: "block_table r = table" and held: "held (request_id r) = cached_prefix_nodes r"
    and room: "int (length (prompt_token_ids r)) \<le> int (length table) * bm_block_size bm"
    and short: "bm_cache bm \<noteq> None \<Longrightarrow> int (length (cached_prefix_nodes r)) * bm_block_size bm
       \<le> min (num_computed_tokens r) (int (length (prompt_token_ids r)))"
    and cf: "clash_free_register bm r"
  obtains bm' nodes where "insert_computed_prefix bm r = Inr (bm', r\<lparr>cached_prefix_nodes := nodes\<rparr>)"
    "bm_inv bm' (held(request_id r := nodes))" "bm_free bm' = bm_free bm" "bm_tables bm' = bm_tables bm"
    "bm_block_size bm' = bm_block_size bm" "bm_num_gpu_blocks bm' = bm_num_gpu_blocks bm"
    "bm_watermark_blocks bm' = bm_watermark_blocks bm" "bm_cache bm' = None \<longleftrightarrow> bm_cache bm = None"
    "bm_cache bm \<noteq> None \<Longrightarrow> int (length nodes) * bm_block_size bm
       \<le> min (num_computed_tokens r) (int (length (prompt_token_ids r)))"
proof (cases "bm_cache bm")
  case None
  then show ?thesis using that [of bm "cached_prefix_nodes r"] inv held
    by (simp add: insert_computed_prefix_def fun_upd_idem)
next
  case (Some t)
  let ?n = "min (num_computed_tokens r) (int (length (prompt_token_ids r)))"
  have bs: "0 < bm_block_size bm" and tinv: "trie_inv t"
    and bseq: "t_block_size t = bm_block_size bm" and path: "node_path t None (cached_prefix_nodes r)"
    using inv Some held map_of_SomeD [OF tab] by (auto simp: bm_inv_def cache_ok_def)
  have cf: "clash_free_insert t (prompt_token_ids r) (block_table r) ?n (cached_prefix_nodes r)"
    using cf Some by (simp add: clash_free_register_def)
  show ?thesis
  proof (cases "?n < bm_block_size bm")
    case True
    then have run: "insert_computed_prefix bm r = Inr (bm, r\<lparr>cached_prefix_nodes := cached_prefix_nodes r\<rparr>)"
      using Some by (simp add: insert_computed_prefix_def)
    show ?thesis by (rule that [OF run]) (use inv held short in \<open>simp_all add: fun_upd_idem\<close>)
  next
    case False
    have n: "nat (?n div bm_block_size bm) \<le> length table"
    proof -
      have "?n div bm_block_size bm \<le> (int (length table) * bm_block_size bm) div bm_block_size bm"
        using room bs by (intro zdiv_mono1) auto
      then show ?thesis using bs by simp
    qed
    have sh: "length (cached_prefix_nodes r) \<le> nat (?n div bm_block_size bm)"
      using short Some int_le_div_iff [OF bs, of "int (length (cached_prefix_nodes r))" ?n] by simp
    obtain t' nodes where ins: "trie_insert t (prompt_token_ids r) (block_table r) ?n (cached_prefix_nodes r) = Inr (t', nodes)"
      "length nodes \<le> nat (?n div bm_block_size bm)"
      "insert_rel (prompt_token_ids r) (block_table r) (cached_prefix_nodes r) t nodes t'"
      "insert_refs (cached_prefix_nodes r) t nodes t'"
    proof (rule trie_insert_complete [OF tinv cf path])
      show "?n \<le> int (length (prompt_token_ids r))" by simp
      show "length (cached_prefix_nodes r) \<le> nat (?n div t_block_size t)" using sh bseq by simp
      show "nat (?n div t_block_size t) \<le> length (block_table r)" using n same bseq by simp
    qed (use bseq in simp)
    have run: "insert_computed_prefix bm r = Inr (bm\<lparr>bm_cache := Some t'\<rparr>, r\<lparr>cached_prefix_nodes := nodes\<rparr>)"
      using ins(1) False Some by (simp add: insert_computed_prefix_def Let_def)
    have inv': "bm_inv (bm\<lparr>bm_cache := Some t'\<rparr>) (held(request_id r := nodes))"
      using bm_inv_insert_rel [OF inv Some tab] ins(2-4) same held n by simp
    have "int (length nodes) * bm_block_size bm \<le> ?n"
    proof -
      have "0 \<le> ?n div bm_block_size bm" using False bs by (intro pos_imp_zdiv_nonneg_iff [THEN iffD2]) auto
      then show ?thesis using ins(2) int_le_div_iff [OF bs, of "int (length nodes)" ?n] by linarith
    qed
    with Some show ?thesis by (intro that [OF run inv']) simp_all
  qed
qed

lemma append_slot_inv:
  assumes inv: "bm_inv bm held" and tab: "map_of (bm_tables bm) (request_id r) = Some table"
    and same: "block_table r = table" and can: "can_append_slot bm r"
  obtains free' new where "bm_free bm = free' @ rev new" "length new = (if needs_new_block bm r then 1 else 0)"
    "append_slot bm r = Inr (bm\<lparr>bm_free := free',
        bm_tables := AList.update (request_id r) (table @ new) (bm_tables bm)\<rparr>, r\<lparr>block_table := table @ new\<rparr>)"
    "bm_inv (bm\<lparr>bm_free := free', bm_tables := AList.update (request_id r) (table @ new) (bm_tables bm)\<rparr>) held"
proof (cases "needs_new_block bm r")
  case False
  have "distinct (map fst (bm_tables bm))" using inv by (simp add: bm_inv_def)
  then have u: "AList.update (request_id r) table (bm_tables bm) = bm_tables bm"
    using alist_split [OF _ tab] by metis
  show ?thesis by (rule that [of "bm_free bm" "[]"]) (use False inv tab same u in \<open>simp_all add: append_slot_def\<close>)
next
  case True
  then have ne: "bm_free bm \<noteq> []" using can by (auto simp: can_append_slot_def num_free_blocks_def)
  then have f: "bm_free bm = butlast (bm_free bm) @ rev [last (bm_free bm)]" by simp
  show ?thesis
  proof (rule that [OF f])
    show "length [last (bm_free bm)] = (if needs_new_block bm r then 1 else 0)" using True by simp
    show "append_slot bm r = Inr (bm\<lparr>bm_free := butlast (bm_free bm),
        bm_tables := AList.update (request_id r) (table @ [last (bm_free bm)]) (bm_tables bm)\<rparr>,
        r\<lparr>block_table := table @ [last (bm_free bm)]\<rparr>)"
      using True tab ne by (simp add: append_slot_def Let_def)
    show "bm_inv (bm\<lparr>bm_free := butlast (bm_free bm),
        bm_tables := AList.update (request_id r) (table @ [last (bm_free bm)]) (bm_tables bm)\<rparr>) held"
      by (rule bm_inv_grow [OF inv tab f])
  qed
qed

lemma ensure_capacity_inv:
  assumes inv: "bm_inv bm held" and tab: "map_of (bm_tables bm) (request_id r) = Some table"
    and can: "can_ensure_capacity bm r target"
  obtains free' new where "bm_free bm = free' @ rev new"
    "ensure_capacity bm r target = Inr (bm\<lparr>bm_free := free',
        bm_tables := AList.update (request_id r) (table @ new) (bm_tables bm)\<rparr>, r\<lparr>block_table := table @ new\<rparr>)"
    "bm_inv (bm\<lparr>bm_free := free', bm_tables := AList.update (request_id r) (table @ new) (bm_tables bm)\<rparr>) held"
    "target \<le> int (length (table @ new)) * bm_block_size bm"
proof -
  let ?n = "nat (ceil_div target (bm_block_size bm) - int (length table))"
  have bs: "0 < bm_block_size bm" using inv by (simp add: bm_inv_def)
  have "?n \<le> length (bm_free bm)"
    using can tab by (simp add: can_ensure_capacity_def get_block_table_def num_free_blocks_def)
  from grow_table_returns [OF this, of table] obtain free' table'
    where g: "grow_table ?n (bm_free bm) table = Inr (free', table')" by force
  from grow_table_result [OF g] obtain new where new: "bm_free bm = free' @ rev new" "table' = table @ new" "length new = ?n" by blast
  have "ceil_div target (bm_block_size bm) \<le> int (length (table @ new))" using new(3) by simp
  then have "target \<le> int (length (table @ new)) * bm_block_size bm" using ceil_div_le_iff [OF bs] by blast
  with that [OF new(1) _ bm_inv_grow [OF inv tab new(1)]] g new(2) tab show ?thesis
    by (simp add: ensure_capacity_def)
qed

text \<open>Without the cache, what \<open>can_allocate\<close> approves \<open>allocate\<close> delivers.\<close>

lemma allocate_uncached:
  assumes inv: "bm_inv bm held" and none: "bm_cache bm = None"
    and new: "map_of (bm_tables bm) (request_id r) = None" and can: "can_allocate bm r None"
  obtains bm' r' where "allocate bm r None = Inr (bm', r')" "admitted bm r bm' r'"
    "bm_inv bm' (held(request_id r := nodes))"
proof -
  let ?need = "num_blocks_needed r (bm_block_size bm)"
  have bs: "0 < bm_block_size bm" and w: "0 \<le> bm_watermark_blocks bm" and acc: "blocks_accounted bm held"
    using inv by (auto simp: bm_inv_def)
  have need: "0 \<le> ?need" using bs by simp
  then have room: "?need \<le> int (length (bm_free bm))"
    using can w none by (simp add: can_allocate_def matched_blocks_def num_free_blocks_def)
  obtain fresh free' where pop: "pop_free (nat ?need) (bm_free bm) = (fresh, free')" by fastforce
  have fr: "bm_free bm = free' @ rev fresh" "length fresh = nat ?need" using pop_free_split [OF pop] room by auto
  have rid: "request_id r \<notin> fst ` set (bm_tables bm)" using new by (simp add: map_of_eq_None_iff)
  let ?bm = "bm\<lparr>bm_free := free', bm_tables := bm_tables bm @ [(request_id r, fresh)]\<rparr>"
  have "allocate bm r None = Inr (?bm, r\<lparr>cached_prefix_nodes := cached_prefix_nodes r, block_table := fresh\<rparr>)"
    using none new room pop by (simp add: allocate_def matched_blocks_def Let_def alist_update_fresh)
  moreover have "admitted bm r ?bm (r\<lparr>cached_prefix_nodes := cached_prefix_nodes r, block_table := fresh\<rparr>)"
    using none fr need by (auto simp: admitted_def match_prefix_def matched_blocks_def)
  moreover have "private_part bm ns tb = tb" for ns tb
    using none by (simp add: private_part_def cache_owned_def)
  then have "bm_inv ?bm (held(request_id r := nodes))"
    using inv acc none rid fr by (simp add: bm_inv_def blocks_accounted_def cache_ok_def private_blocks_def add_ac)
  ultimately show ?thesis using that by blast
qed

end
