(* ===== verification/Scheduler.thy ===== *)
theory Scheduler
  imports Block_Manager "HOL-Library.Sublist"
begin

text \<open>
  \<^verbatim>\<open>engine/scheduler.py\<close>: continuous batching.  A \<open>Request\<close> is one mutable object that the
  queues, the \<open>requests\<close> dictionary and the step's output all refer to, so the scheduler state
  holds the objects in a heap and everything else holds references into it.  The deques
  \<open>waiting\<close> and \<open>pending\<close> are lists, their front first.  The three loops of \<open>schedule\<close> are
  the recursive functions \<open>make_room\<close>, \<open>run_loop\<close> and \<open>wait_loop\<close>.
\<close>

type_synonym rref = nat

record scheduler_output =
  scheduled_new :: "(rref \<times> int) list"
  scheduled_running :: "(rref \<times> int) list"
  preempted :: "rref list"

definition empty_output :: scheduler_output where
  "empty_output = \<lparr>scheduled_new = [], scheduled_running = [], preempted = []\<rparr>"

definition output_is_empty :: "scheduler_output \<Rightarrow> bool" where
  "output_is_empty out \<longleftrightarrow> scheduled_new out = [] \<and> scheduled_running out = []"

definition total_num_scheduled_tokens :: "scheduler_output \<Rightarrow> int" where
  "total_num_scheduled_tokens out = sum_list (map snd (scheduled_new out @ scheduled_running out))"

record scheduler =
  s_config :: scheduler_config
  s_bm :: block_manager
  s_waiting :: "rref list"
  s_running :: "rref list"
  s_requests :: "(string \<times> rref) list"
  s_objs :: "rref \<Rightarrow> request"

definition Scheduler :: "hash_function \<Rightarrow> cache_config \<Rightarrow> scheduler_config \<Rightarrow> (rref \<Rightarrow> request) \<Rightarrow> scheduler" where
  "Scheduler H cc sc objs =
     \<lparr>s_config = sc, s_bm = BlockManager H cc, s_waiting = [], s_running = [], s_requests = [], s_objs = objs\<rparr>"

definition upd_req :: "rref \<Rightarrow> (request \<Rightarrow> request) \<Rightarrow> scheduler \<Rightarrow> scheduler" where
  "upd_req x f s = s\<lparr>s_objs := (s_objs s)(x := f (s_objs s x))\<rparr>"

text \<open>A call of the block manager on one request: both objects are updated.\<close>

definition with_bm :: "(block_manager \<Rightarrow> request \<Rightarrow> (block_manager \<times> request) or_raise) \<Rightarrow> rref
    \<Rightarrow> scheduler \<Rightarrow> scheduler or_raise" where
  "with_bm f x s = bindE (f (s_bm s) (s_objs s x))
     (\<lambda>(bm, r). Inr (s\<lparr>s_bm := bm, s_objs := (s_objs s)(x := r)\<rparr>))"

definition add_request :: "rref \<Rightarrow> scheduler \<Rightarrow> scheduler or_raise" where
  "add_request x s =
     (let rid = request_id (s_objs s x) in
      if map_of (s_requests s) rid \<noteq> None then Inl ValueError
      else let s1 = upd_req x (\<lambda>r. r\<lparr>status := WAITING\<rparr>) s in
           Inr (s1\<lparr>s_requests := AList.update rid x (s_requests s1), s_waiting := s_waiting s1 @ [x]\<rparr>))"

definition get_num_unfinished_requests :: "scheduler \<Rightarrow> int" where
  "get_num_unfinished_requests s = int (length (s_waiting s)) + int (length (s_running s))"

definition has_unfinished_requests :: "scheduler \<Rightarrow> bool" where
  "has_unfinished_requests s \<longleftrightarrow> 0 < get_num_unfinished_requests s"

subsection \<open>Preemption\<close>

definition preempt :: "rref \<Rightarrow> scheduler \<Rightarrow> scheduler_output \<Rightarrow> (scheduler \<times> scheduler_output) or_raise" where
  "preempt x s out = bindE (with_bm free_blocks x s) (\<lambda>s1.
     let s2 = upd_req x (\<lambda>r. r\<lparr>num_computed_tokens := 0, status := PREEMPTED\<rparr>) s1
     in Inr (s2\<lparr>s_waiting := x # s_waiting s2\<rparr>, out\<lparr>preempted := preempted out @ [x]\<rparr>))"

text \<open>
  The inner loop of \<open>_schedule_running\<close>: victims leave the tail of \<open>pending\<close> until the
  request fits; with nothing left to take it is preempted itself, and the result says so.
\<close>

function make_room :: "(block_manager \<Rightarrow> request \<Rightarrow> bool) \<Rightarrow> rref \<Rightarrow> rref list \<Rightarrow> scheduler \<Rightarrow> scheduler_output
    \<Rightarrow> (scheduler \<times> scheduler_output \<times> rref list \<times> bool) or_raise" where
  "make_room fits x pending s out =
     (if fits (s_bm s) (s_objs s x) then Inr (s, out, pending, True)
      else if pending = [] then
        (case preempt x s out of Inl e \<Rightarrow> Inl e | Inr (s', out') \<Rightarrow> Inr (s', out', [], False))
      else
        (case preempt (last pending) s out of
           Inl e \<Rightarrow> Inl e
         | Inr (s', out') \<Rightarrow> make_room fits x (butlast pending) s' out'))"
  by pat_completeness auto
termination by (relation "measure (\<lambda>(fits, x, pending, s, out). length pending)") auto

declare make_room.simps [simp del]

text \<open>What stays pending is a prefix of what was.\<close>

lemma make_room_pending:
  "make_room fits x pending s out = Inr (s', out', pending', got) \<Longrightarrow> \<exists>vs. pending = pending' @ vs"
proof (induction fits x pending s out rule: make_room.induct)
  case (1 fits x pending s out)
  note unfold = make_room.simps [of fits x pending s out]
  show ?case
  proof (cases "fits (s_bm s) (s_objs s x) \<or> pending = []")
    case True
    then show ?thesis using 1(2) unfold by (auto split: if_splits sum.splits)
  next
    case False
    then obtain s1 out1 where p: "preempt (last pending) s out = Inr (s1, out1)"
      and rest: "make_room fits x (butlast pending) s1 out1 = Inr (s', out', pending', got)"
      using 1(2) unfold by (auto split: sum.splits)
    from 1(1) [OF _ _ p refl rest] False obtain vs where "butlast pending = pending' @ vs" by auto
    then have "pending = pending' @ vs @ [last pending]" using False by (metis append_assoc append_butlast_last_id)
    then show ?thesis by blast
  qed
qed

lemma make_room_shorter:
  "make_room fits x pending s out = Inr (s', out', pending', got) \<Longrightarrow> length pending' < Suc (length pending)"
  using make_room_pending [of fits x pending s out s' out' pending' got] by auto

subsection \<open>The step\<close>

definition num_new_tokens :: "request \<Rightarrow> int" where
  "num_new_tokens r = (if draft_token_ids r \<noteq> [] then int (length (draft_token_ids r)) + 1
                       else get_num_new_tokens r)"

definition run_chunk :: "request \<Rightarrow> int \<Rightarrow> int" where
  "run_chunk r budget = (if draft_token_ids r \<noteq> [] then num_new_tokens r else min (num_new_tokens r) budget)"

definition run_fits :: "bool \<Rightarrow> int \<Rightarrow> block_manager \<Rightarrow> request \<Rightarrow> bool" where
  "run_fits is_spec target_len bm r =
     (if is_spec then can_ensure_capacity bm r target_len else can_append_slot bm r)"

definition run_reserve :: "bool \<Rightarrow> int \<Rightarrow> block_manager \<Rightarrow> request \<Rightarrow> (block_manager \<times> request) or_raise" where
  "run_reserve is_spec target_len bm r =
     (if is_spec then ensure_capacity bm r target_len else append_slot bm r)"

function run_loop :: "rref list \<Rightarrow> rref list \<Rightarrow> int \<Rightarrow> scheduler \<Rightarrow> scheduler_output
    \<Rightarrow> (scheduler \<times> scheduler_output \<times> int) or_raise" where
  "run_loop [] scheduled budget s out = Inr (s\<lparr>s_running := scheduled\<rparr>, out, budget)"
| "run_loop (x # pending) scheduled budget s out =
     (let r = s_objs s x;
          is_spec = (draft_token_ids r \<noteq> []);
          num_new = num_new_tokens r
      in if num_new \<le> 0 then run_loop pending (scheduled @ [x]) budget s out
         else if budget \<le> 0 then run_loop pending (scheduled @ [x]) budget s out
         else
           let chunk = run_chunk r budget;
               target_len = num_computed_tokens r + chunk
           in case make_room (run_fits is_spec target_len) x pending s out of
                Inl e \<Rightarrow> Inl e
              | Inr (s1, out1, pending1, got) \<Rightarrow>
                  if \<not> got then run_loop pending1 scheduled budget s1 out1
                  else case with_bm (run_reserve is_spec target_len) x s1 of
                         Inl e \<Rightarrow> Inl e
                       | Inr s2 \<Rightarrow>
                           run_loop pending1 (scheduled @ [x]) (budget - chunk)
                             (upd_req x (\<lambda>r. r\<lparr>num_computed_tokens := num_computed_tokens r + chunk\<rparr>) s2)
                             (out1\<lparr>scheduled_running := scheduled_running out1 @ [(x, chunk)]\<rparr>))"
  by pat_completeness auto
termination
  by (relation "measure (\<lambda>(pending, scheduled, budget, s, out). length pending)")
    (auto dest!: make_room_shorter)

text \<open>
  What the admission loop does with a request whose blocks are allocated: it runs, from the
  end of the matched prefix (but never past the last prompt token), by as much as the budget
  allows.
\<close>

definition start_request :: "rref \<Rightarrow> prefix_match option \<Rightarrow> int \<Rightarrow> scheduler \<Rightarrow> scheduler \<times> int" where
  "start_request x m budget s1 =
     (let s2 = upd_req x (\<lambda>r. r\<lparr>status := RUNNING\<rparr>) s1;
          s3 = (case m of
                  None \<Rightarrow> s2
                | Some p \<Rightarrow> upd_req x (\<lambda>r. r\<lparr>num_computed_tokens :=
                    min (num_matched_tokens p) (int (length (prompt_token_ids r)) - 1)\<rparr>) s2);
          chunk = min (get_num_new_tokens (s_objs s3 x)) budget;
          s4 = upd_req x (\<lambda>r. r\<lparr>num_computed_tokens := num_computed_tokens r + chunk\<rparr>) s3
      in (s4\<lparr>s_running := s_running s4 @ [x]\<rparr>, chunk))"

definition matched_tokens :: "prefix_match option \<Rightarrow> int" where
  "matched_tokens m = (case m of None \<Rightarrow> 0 | Some p \<Rightarrow> num_matched_tokens p)"

definition admissible :: "rref \<Rightarrow> prefix_match option \<Rightarrow> int \<Rightarrow> int \<Rightarrow> scheduler \<Rightarrow> bool" where
  "admissible x m budget ctx_budget s \<longleftrightarrow>
     int (length (s_running s)) < max_num_seqs (s_config s) \<and> 0 < budget
     \<and> matched_tokens m \<le> ctx_budget \<and> can_allocate (s_bm s) (s_objs s x) m"

fun wait_loop :: "rref list \<Rightarrow> int \<Rightarrow> int \<Rightarrow> scheduler \<Rightarrow> scheduler_output
    \<Rightarrow> (scheduler \<times> scheduler_output \<times> int) or_raise" where
  "wait_loop [] budget ctx_budget s out = Inr (s\<lparr>s_waiting := []\<rparr>, out, budget)"
| "wait_loop (x # rest) budget ctx_budget s out =
     (let m = match_prefix (s_bm s) (prompt_token_ids (s_objs s x)) in
      if \<not> admissible x m budget ctx_budget s then Inr (s\<lparr>s_waiting := x # rest\<rparr>, out, budget)
      else
        bindE (with_bm (\<lambda>bm r. allocate bm r m) x s) (\<lambda>s1.
          let (s2, chunk) = start_request x m budget s1
          in wait_loop rest (budget - chunk) (ctx_budget - matched_tokens m) s2
               (out\<lparr>scheduled_new := scheduled_new out @ [(x, chunk)]\<rparr>)))"

definition ctx_budget0 :: "scheduler_config \<Rightarrow> int" where
  "ctx_budget0 c = (case max_cache_hit_context_tokens c of None \<Rightarrow> max_num_batched_tokens c | Some b \<Rightarrow> b)"

definition schedule :: "scheduler \<Rightarrow> (scheduler \<times> scheduler_output) or_raise" where
  "schedule s =
     bindE (run_loop (s_running s) [] (max_num_batched_tokens (s_config s)) s empty_output)
       (\<lambda>(s1, out, budget).
          if preempted out \<noteq> [] then Inr (s1, out)
          else bindE (wait_loop (s_waiting s1) budget (ctx_budget0 (s_config s1)) s1 out)
                 (\<lambda>(s2, out2, _). Inr (s2, out2)))"

subsection \<open>Teardown\<close>

definition finish_one :: "rref \<Rightarrow> scheduler \<Rightarrow> scheduler or_raise" where
  "finish_one x s = bindE (with_bm free_blocks x s) (\<lambda>s1.
     let rid = request_id (s_objs s1 x) in
     if map_of (s_requests s1) rid = None then Inl KeyError
     else Inr (s1\<lparr>s_requests := AList.delete rid (s_requests s1)\<rparr>))"

definition free_finished_requests :: "scheduler \<Rightarrow> (scheduler \<times> rref list) or_raise" where
  "free_finished_requests s =
     (let finished = filter (\<lambda>x. is_finished (s_objs s x)) (s_running s) in
      if finished \<noteq> [] then
        let s1 = s\<lparr>s_running := filter (\<lambda>x. \<not> is_finished (s_objs s x)) (s_running s)\<rparr>
        in bindE (foldE finish_one finished s1) (\<lambda>s2. Inr (s2, finished))
      else Inr (s, finished))"

definition abort_waiting :: "rref \<Rightarrow> scheduler \<Rightarrow> scheduler or_raise" where
  "abort_waiting x s =
     (let s1 = upd_req x (\<lambda>r. r\<lparr>status := FINISHED_ABORTED\<rparr>) s; rid = request_id (s_objs s1 x) in
      if map_of (s_requests s1) rid = None then Inl KeyError
      else Inr (s1\<lparr>s_requests := AList.delete rid (s_requests s1)\<rparr>))"

definition abort_requests :: "string set \<Rightarrow> scheduler \<Rightarrow> (scheduler \<times> rref list) or_raise" where
  "abort_requests ids s =
     (let hit = (\<lambda>x. request_id (s_objs s x) \<in> ids);
          aborted = filter hit (s_waiting s)
      in bindE (foldE abort_waiting aborted s) (\<lambda>s1.
           let s2 = s1\<lparr>s_waiting := filter (\<lambda>x. \<not> hit x) (s_waiting s)\<rparr>;
               s3 = fold (\<lambda>x. upd_req x (\<lambda>r. r\<lparr>status := FINISHED_ABORTED\<rparr>)) (filter hit (s_running s2)) s2
           in bindE (free_finished_requests s3) (\<lambda>(s4, finished). Inr (s4, aborted @ finished))))"

subsection \<open>The invariant\<close>

text \<open>
  \<open>R\<close> are the requests that own blocks (running, or still to be decided in the step), \<open>W\<close>
  the waiting ones.  The dictionary knows exactly these, under their ids; the block manager's
  tables are those of \<open>R\<close>, and what its invariant calls held is what they hold.
\<close>

definition held_by :: "scheduler \<Rightarrow> string \<Rightarrow> node_addr list" where
  "held_by s rid = (case map_of (s_requests s) rid of None \<Rightarrow> [] | Some x \<Rightarrow> cached_prefix_nodes (s_objs s x))"

definition running_ok :: "block_manager \<Rightarrow> request \<Rightarrow> bool" where
  "running_ok bm r \<longleftrightarrow>
     map_of (bm_tables bm) (request_id r) = Some (block_table r)
     \<and> int (length (prompt_token_ids r)) \<le> int (length (block_table r)) * bm_block_size bm
     \<and> 0 \<le> num_computed_tokens r
     \<and> (status r = RUNNING \<or> is_finished r)
     \<and> (if bm_cache bm = None then cached_prefix_nodes r = []
        else int (length (cached_prefix_nodes r)) * bm_block_size bm
               \<le> min (num_computed_tokens r) (int (length (prompt_token_ids r))))"

definition waiting_ok :: "request \<Rightarrow> bool" where
  "waiting_ok r \<longleftrightarrow> cached_prefix_nodes r = [] \<and> block_table r = [] \<and> num_computed_tokens r = 0
     \<and> (status r = WAITING \<or> status r = PREEMPTED)"

definition tracked :: "scheduler \<Rightarrow> rref set \<Rightarrow> bool" where
  "tracked s X \<longleftrightarrow> distinct (map fst (s_requests s))
     \<and> (\<forall>rid x. map_of (s_requests s) rid = Some x \<longleftrightarrow> x \<in> X \<and> request_id (s_objs s x) = rid)"

definition core_inv :: "scheduler \<Rightarrow> rref list \<Rightarrow> rref list \<Rightarrow> bool" where
  "core_inv s R W \<longleftrightarrow>
     distinct (R @ W) \<and> tracked s (set (R @ W))
     \<and> bm_inv (s_bm s) (held_by s)
     \<and> fst ` set (bm_tables (s_bm s)) = (\<lambda>x. request_id (s_objs s x)) ` set R
     \<and> (\<forall>x \<in> set R. running_ok (s_bm s) (s_objs s x))
     \<and> (\<forall>x \<in> set W. waiting_ok (s_objs s x))"

definition sched_inv :: "scheduler \<Rightarrow> bool" where
  "sched_inv s \<longleftrightarrow> scheduler_config_ok (s_config s) \<and> core_inv s (s_running s) (s_waiting s)"

lemma core_invD:
  assumes "core_inv s R W"
  shows "distinct (R @ W)" "tracked s (set (R @ W))" "bm_inv (s_bm s) (held_by s)"
    "fst ` set (bm_tables (s_bm s)) = (\<lambda>x. request_id (s_objs s x)) ` set R"
    "\<And>x. x \<in> set R \<Longrightarrow> running_ok (s_bm s) (s_objs s x)" "\<And>x. x \<in> set W \<Longrightarrow> waiting_ok (s_objs s x)"
  using assms by (auto simp: core_inv_def)

lemma tracked_id:
  assumes "tracked s X" "x \<in> X" shows "map_of (s_requests s) (request_id (s_objs s x)) = Some x"
proof -
  have "map_of (s_requests s) (request_id (s_objs s x)) = Some x \<longleftrightarrow> x \<in> X \<and> request_id (s_objs s x) = request_id (s_objs s x)"
    using assms(1) unfolding tracked_def by (elim conjE allE)
  then show ?thesis using assms(2) by simp
qed

lemma tracked_lookup:
  assumes "tracked s X" "map_of (s_requests s) rid = Some x" shows "x \<in> X" "request_id (s_objs s x) = rid"
proof -
  have "map_of (s_requests s) rid = Some x \<longleftrightarrow> x \<in> X \<and> request_id (s_objs s x) = rid"
    using assms(1) unfolding tracked_def by (elim conjE allE)
  then show "x \<in> X" "request_id (s_objs s x) = rid" using assms(2) by blast+
qed

lemma tracked_inj:
  assumes "tracked s X" "x \<in> X" "y \<in> X" "request_id (s_objs s x) = request_id (s_objs s y)" shows "x = y"
  using tracked_id [OF assms(1,2)] tracked_id [OF assms(1,3)] assms(4) by (metis option.inject)

lemma held_by_tracked:
  assumes "tracked s X" "x \<in> X" shows "held_by s (request_id (s_objs s x)) = cached_prefix_nodes (s_objs s x)"
  using tracked_id [OF assms] by (simp add: held_by_def)

lemma sched_inv_init:
  assumes "cache_config_ok cc" "scheduler_config_ok sc"
  shows "sched_inv (Scheduler H cc sc objs)"
proof -
  let ?s = "Scheduler H cc sc objs"
  have "bm_inv (s_bm ?s) (held_by ?s)" by (simp add: Scheduler_def bm_inv_init [OF assms(1)])
  moreover have "bm_tables (s_bm ?s) = []" by (simp add: Scheduler_def BlockManager_def)
  ultimately show ?thesis
    using assms(2) by (simp add: sched_inv_def core_inv_def tracked_def) (simp add: Scheduler_def)
qed

text \<open>One request's object and the block manager change together.\<close>

definition set_obj :: "rref \<Rightarrow> request \<Rightarrow> block_manager \<Rightarrow> scheduler \<Rightarrow> scheduler" where
  "set_obj x r bm s = s\<lparr>s_bm := bm, s_objs := (s_objs s)(x := r)\<rparr>"

lemma set_obj_simps [simp]:
  "s_bm (set_obj x r bm s) = bm" "s_objs (set_obj x r bm s) = (s_objs s)(x := r)"
  "s_requests (set_obj x r bm s) = s_requests s" "s_running (set_obj x r bm s) = s_running s"
  "s_waiting (set_obj x r bm s) = s_waiting s" "s_config (set_obj x r bm s) = s_config s"
  by (simp_all add: set_obj_def)

lemma with_bm_Inr: "with_bm f x s = Inr s' \<longleftrightarrow> (\<exists>bm r. f (s_bm s) (s_objs s x) = Inr (bm, r) \<and> s' = set_obj x r bm s)"
  by (auto simp: with_bm_def bindE_Inr_iff set_obj_def)

lemma with_bm_Inl: "with_bm f x s = Inl e \<longleftrightarrow> f (s_bm s) (s_objs s x) = Inl e"
  by (auto simp: with_bm_def bindE_Inl_iff)

lemma upd_req_set_obj: "upd_req x f s = set_obj x (f (s_objs s x)) (s_bm s) s"
  by (simp add: upd_req_def set_obj_def)

lemma set_obj_set_obj [simp]: "set_obj x r bm (set_obj x r' bm' s) = set_obj x r bm s"
  by (simp add: set_obj_def)

lemma tracked_set_obj:
  assumes "tracked s X" "request_id r = request_id (s_objs s x)" shows "tracked (set_obj x r bm s) X"
  using assms by (simp add: tracked_def)

lemma held_by_set_obj:
  assumes "tracked s X" "x \<in> X" "request_id r = request_id (s_objs s x)"
  shows "held_by (set_obj x r bm s) = (held_by s)(request_id (s_objs s x) := cached_prefix_nodes r)"
proof
  fix rid
  show "held_by (set_obj x r bm s) rid = ((held_by s)(request_id (s_objs s x) := cached_prefix_nodes r)) rid"
  proof (cases "rid = request_id (s_objs s x)")
    case True
    then show ?thesis using tracked_id [OF assms(1,2)] by (simp add: held_by_def)
  next
    case False
    have "map_of (s_requests s) rid \<noteq> Some x" using tracked_lookup [OF assms(1)] False by metis
    then show ?thesis using False by (cases "map_of (s_requests s) rid") (simp_all add: held_by_def)
  qed
qed


subsection \<open>Each action keeps it\<close>

lemma keys_delete: "fst ` set (AList.delete k d) = fst ` set d - {k}"
proof -
  have "set (map fst (AList.delete k d)) = set (map fst d) - {k}" by (auto simp: delete_keys)
  then show ?thesis by simp
qed

lemma map_request_id_set_obj:
  assumes "request_id r = request_id (s_objs s x)"
  shows "request_id (((s_objs s)(x := r)) y) = request_id (s_objs s y)"
  using assms by simp

lemma core_inv_set_obj:
  assumes inv: "core_inv s R W" and x: "x \<in> set R" and id: "request_id r = request_id (s_objs s x)"
    and bm: "bm_inv bm ((held_by s)(request_id (s_objs s x) := cached_prefix_nodes r))"
    and tabs: "fst ` set (bm_tables bm) = fst ` set (bm_tables (s_bm s))"
    and ok: "running_ok bm r"
    and others: "\<And>q. request_id q \<noteq> request_id r \<Longrightarrow> running_ok (s_bm s) q \<Longrightarrow> running_ok bm q"
  shows "core_inv (set_obj x r bm s) R W"
proof -
  note I = core_invD [OF inv]
  have xX: "x \<in> set (R @ W)" using x by simp
  have "running_ok bm (((s_objs s)(x := r)) y)" if "y \<in> set R" for y
  proof (cases "y = x")
    case False
    have "request_id (s_objs s y) \<noteq> request_id (s_objs s x)"
      using tracked_inj [OF I(2) _ xX, of y] that False by auto
    then show ?thesis using False others [of "s_objs s y"] I(5) [OF that] id by simp
  qed (use ok in simp)
  moreover have "waiting_ok (((s_objs s)(x := r)) y)" if "y \<in> set W" for y
    using I(1,6) that x by auto
  moreover have "(\<lambda>y. request_id (((s_objs s)(x := r)) y)) ` set R = (\<lambda>y. request_id (s_objs s y)) ` set R"
    using id by (intro image_cong) auto
  ultimately show ?thesis
    unfolding core_inv_def held_by_set_obj [OF I(2) xX id]
    using I(1,4) tracked_set_obj [OF I(2) id] bm tabs by simp
qed

lemma core_inv_waiting_irrelevant:
  "core_inv (s\<lparr>s_waiting := w\<rparr>) R W = core_inv s R W" "core_inv (s\<lparr>s_running := w\<rparr>) R W = core_inv s R W"
proof -
  have "held_by (s\<lparr>s_waiting := w\<rparr>) = held_by s" "held_by (s\<lparr>s_running := w\<rparr>) = held_by s"
    by (rule ext, simp add: held_by_def split: option.split)+
  then show "core_inv (s\<lparr>s_waiting := w\<rparr>) R W = core_inv s R W" "core_inv (s\<lparr>s_running := w\<rparr>) R W = core_inv s R W"
    by (simp_all add: core_inv_def tracked_def)
qed

text \<open>Dropping a request from those with blocks: its table goes, its object is reset.\<close>

lemma free_blocks_core:
  assumes inv: "core_inv s (R1 @ x # R2) W"
  obtains bm where "free_blocks (s_bm s) (s_objs s x) = Inr (bm, (s_objs s x)\<lparr>cached_prefix_nodes := [], block_table := []\<rparr>)"
    "bm_inv bm ((held_by s)(request_id (s_objs s x) := []))"
    "bm_tables bm = AList.delete (request_id (s_objs s x)) (bm_tables (s_bm s))"
    "\<And>q. request_id q \<noteq> request_id (s_objs s x) \<Longrightarrow> running_ok (s_bm s) q \<Longrightarrow> running_ok bm q"
    "length (bm_free (s_bm s)) \<le> length (bm_free bm)" "bm_cache bm = None \<longleftrightarrow> bm_cache (s_bm s) = None"
    "bm_block_size bm = bm_block_size (s_bm s)" "bm_num_gpu_blocks bm = bm_num_gpu_blocks (s_bm s)"
    "bm_watermark_blocks bm = bm_watermark_blocks (s_bm s)"
proof -
  note I = core_invD [OF inv]
  let ?r = "s_objs s x" and ?rid = "request_id (s_objs s x)"
  have xR: "x \<in> set (R1 @ x # R2)" by simp
  have tab: "map_of (bm_tables (s_bm s)) ?rid = Some (block_table ?r)" using I(5) [OF xR] by (simp add: running_ok_def)
  have held: "held_by s ?rid = cached_prefix_nodes ?r" using held_by_tracked [OF I(2)] by simp
  obtain bm where bm: "free_blocks (s_bm s) ?r = Inr (bm, ?r\<lparr>cached_prefix_nodes := (if bm_cache (s_bm s) = None then cached_prefix_nodes ?r else []), block_table := []\<rparr>)"
    "bm_inv bm (held_by s)" "bm_tables bm = AList.delete ?rid (bm_tables (s_bm s))"
    "bm_free bm = bm_free (s_bm s) @ private_part (s_bm s) (cached_prefix_nodes ?r) (block_table ?r)"
    "bm_cache bm = None \<longleftrightarrow> bm_cache (s_bm s) = None" "bm_block_size bm = bm_block_size (s_bm s)"
    "bm_num_gpu_blocks bm = bm_num_gpu_blocks (s_bm s)" "bm_watermark_blocks bm = bm_watermark_blocks (s_bm s)"
    using bm_inv_free [OF I(3) held tab] by metis
  have nocache: "bm_cache (s_bm s) = None \<Longrightarrow> cached_prefix_nodes ?r = []"
    using I(5) [OF xR] by (simp add: running_ok_def)
  have "bm_inv bm ((held_by s)(?rid := []))"
    using bm(2) by (subst bm_inv_cong [where held = "held_by s"]) (auto simp: bm(3) keys_delete)
  moreover have "running_ok bm q" if "request_id q \<noteq> ?rid" "running_ok (s_bm s) q" for q
    using that bm(3,5,6) by (auto simp: running_ok_def map_of_delete_if)
  moreover have "free_blocks (s_bm s) ?r = Inr (bm, ?r\<lparr>cached_prefix_nodes := [], block_table := []\<rparr>)"
  proof (cases "bm_cache (s_bm s) = None")
    case True
    then show ?thesis using bm(1) nocache by simp
  next
    case False
    show ?thesis using bm(1) unfolding if_not_P [OF False] .
  qed
  ultimately show ?thesis using that bm by simp
qed


lemma preempt_core:
  assumes inv: "core_inv s (R1 @ x # R2) W"
  obtains s' where "preempt x s out = Inr (s', out\<lparr>preempted := preempted out @ [x]\<rparr>)"
    "core_inv s' (R1 @ R2) (x # W)" "s_running s' = s_running s" "s_waiting s' = x # s_waiting s"
    "s_config s' = s_config s" "s_requests s' = s_requests s"
    "s_objs s' = (s_objs s)(x := (s_objs s x)\<lparr>cached_prefix_nodes := [], block_table := [],
        num_computed_tokens := 0, status := PREEMPTED\<rparr>)"
    "length (bm_free (s_bm s)) \<le> length (bm_free (s_bm s'))"
    "bm_cache (s_bm s') = None \<longleftrightarrow> bm_cache (s_bm s) = None"
    "bm_block_size (s_bm s') = bm_block_size (s_bm s)" "bm_num_gpu_blocks (s_bm s') = bm_num_gpu_blocks (s_bm s)"
    "bm_watermark_blocks (s_bm s') = bm_watermark_blocks (s_bm s)"
    "bm_tables (s_bm s') = AList.delete (request_id (s_objs s x)) (bm_tables (s_bm s))"
proof -
  note I = core_invD [OF inv]
  let ?r = "s_objs s x" and ?rid = "request_id (s_objs s x)"
  have xX: "x \<in> set ((R1 @ x # R2) @ W)" by simp
  obtain bm where bm: "free_blocks (s_bm s) ?r = Inr (bm, ?r\<lparr>cached_prefix_nodes := [], block_table := []\<rparr>)"
    "bm_inv bm ((held_by s)(?rid := []))"
    "bm_tables bm = AList.delete ?rid (bm_tables (s_bm s))"
    "\<And>q. request_id q \<noteq> ?rid \<Longrightarrow> running_ok (s_bm s) q \<Longrightarrow> running_ok bm q"
    "length (bm_free (s_bm s)) \<le> length (bm_free bm)" "bm_cache bm = None \<longleftrightarrow> bm_cache (s_bm s) = None"
    "bm_block_size bm = bm_block_size (s_bm s)" "bm_num_gpu_blocks bm = bm_num_gpu_blocks (s_bm s)"
    "bm_watermark_blocks bm = bm_watermark_blocks (s_bm s)"
    using free_blocks_core [OF inv] by metis
  let ?r' = "?r\<lparr>cached_prefix_nodes := [], block_table := [], num_computed_tokens := 0, status := PREEMPTED\<rparr>"
  let ?s = "set_obj x ?r' bm s"
  have run: "preempt x s out = Inr (?s\<lparr>s_waiting := x # s_waiting s\<rparr>, out\<lparr>preempted := preempted out @ [x]\<rparr>)"
    using bm(1) by (simp add: preempt_def with_bm_def upd_req_def set_obj_def)
  have neq: "request_id (s_objs s y) \<noteq> ?rid" if "y \<in> set (R1 @ R2)" for y
    using tracked_inj [OF I(2) _ xX, of y] that I(1) by auto
  have "core_inv ?s (R1 @ R2) (x # W)"
    unfolding core_inv_def
  proof (intro conjI ballI)
    show "distinct ((R1 @ R2) @ x # W)" using I(1) by auto
    have "set ((R1 @ R2) @ x # W) = set ((R1 @ x # R2) @ W)" by auto
    then show "tracked ?s (set ((R1 @ R2) @ x # W))"
      using tracked_set_obj [OF I(2), of ?r' x bm] by simp
    show "bm_inv (s_bm ?s) (held_by ?s)" using bm(2) held_by_set_obj [OF I(2) xX, of ?r' bm] by simp
    have ids: "fst ` set (bm_tables bm) = fst ` set (bm_tables (s_bm s)) - {?rid}"
      unfolding bm(3) by (rule keys_delete)
    also have "\<dots> = (\<lambda>y. request_id (s_objs s y)) ` set (R1 @ R2)"
    proof -
      have "?rid \<notin> (\<lambda>y. request_id (s_objs s y)) ` set (R1 @ R2)" using neq by (metis (no_types, lifting) imageE)
      moreover have "(\<lambda>y. request_id (s_objs s y)) ` set (R1 @ x # R2) = insert ?rid ((\<lambda>y. request_id (s_objs s y)) ` set (R1 @ R2))"
        by auto
      ultimately show ?thesis unfolding I(4) by simp
    qed
    also have "\<dots> = (\<lambda>y. request_id (s_objs ?s y)) ` set (R1 @ R2)" by (rule image_cong) auto
    finally show "fst ` set (bm_tables (s_bm ?s)) = (\<lambda>y. request_id (s_objs ?s y)) ` set (R1 @ R2)" by simp
    show "running_ok (s_bm ?s) (s_objs ?s y)" if "y \<in> set (R1 @ R2)" for y
    proof -
      have "y \<noteq> x" using that I(1) by auto
      then show ?thesis using bm(4) [OF neq [OF that]] I(5) [of y] that by auto
    qed
    show "waiting_ok (s_objs ?s y)" if "y \<in> set (x # W)" for y
      using that I(6) I(1) by (auto simp: waiting_ok_def)
  qed
  then show ?thesis using that [OF run] bm by (simp add: core_inv_waiting_irrelevant)
qed

lemma reserve_core:
  assumes inv: "core_inv s R W" and x: "x \<in> set R" and chunk: "0 \<le> chunk"
    and fits: "run_fits sp target (s_bm s) (s_objs s x)"
  obtains s2 tb where "with_bm (run_reserve sp target) x s = Inr s2"
    "core_inv (upd_req x (\<lambda>r. r\<lparr>num_computed_tokens := num_computed_tokens r + chunk\<rparr>) s2) R W"
    "s_objs s2 = (s_objs s)(x := (s_objs s x)\<lparr>block_table := tb\<rparr>)"
    "s_running s2 = s_running s" "s_waiting s2 = s_waiting s" "s_config s2 = s_config s" "s_requests s2 = s_requests s"
    "bm_cache (s_bm s2) = bm_cache (s_bm s)" "bm_block_size (s_bm s2) = bm_block_size (s_bm s)"
    "bm_num_gpu_blocks (s_bm s2) = bm_num_gpu_blocks (s_bm s)"
    "bm_watermark_blocks (s_bm s2) = bm_watermark_blocks (s_bm s)"
    "sp \<longrightarrow> target \<le> int (length tb) * bm_block_size (s_bm s)"
    "\<not> sp \<longrightarrow> int (length tb) = int (length (block_table (s_objs s x)))
        + (if int (length (block_table (s_objs s x))) * bm_block_size (s_bm s) < get_len (s_objs s x) then 1 else 0)"
    "length (block_table (s_objs s x)) \<le> length tb"
    "take (length (block_table (s_objs s x))) tb = block_table (s_objs s x)"
proof -
  note I = core_invD [OF inv]
  let ?r = "s_objs s x" and ?rid = "request_id (s_objs s x)"
  have ok: "running_ok (s_bm s) ?r" by (rule I(5) [OF x])
  then have tab: "map_of (bm_tables (s_bm s)) ?rid = Some (block_table ?r)" by (simp add: running_ok_def)
  have bs: "0 < bm_block_size (s_bm s)" using I(3) by (simp add: bm_inv_def)
  obtain free' new where new:
    "run_reserve sp target (s_bm s) ?r = Inr ((s_bm s)\<lparr>bm_free := free',
        bm_tables := AList.update ?rid (block_table ?r @ new) (bm_tables (s_bm s))\<rparr>, ?r\<lparr>block_table := block_table ?r @ new\<rparr>)"
    "bm_inv ((s_bm s)\<lparr>bm_free := free', bm_tables := AList.update ?rid (block_table ?r @ new) (bm_tables (s_bm s))\<rparr>) (held_by s)"
    "sp \<Longrightarrow> target \<le> int (length (block_table ?r @ new)) * bm_block_size (s_bm s)"
    "\<not> sp \<Longrightarrow> length new = (if needs_new_block (s_bm s) ?r then 1 else 0)"
  proof (cases sp)
    case True
    then have "can_ensure_capacity (s_bm s) ?r target" using fits by (simp add: run_fits_def)
    from ensure_capacity_inv [OF I(3) tab this] True that show ?thesis by (auto simp: run_reserve_def)
  next
    case False
    then have "can_append_slot (s_bm s) ?r" using fits by (simp add: run_fits_def)
    from append_slot_inv [OF I(3) tab refl this] False that show ?thesis by (auto simp: run_reserve_def)
  qed
  let ?bm = "(s_bm s)\<lparr>bm_free := free', bm_tables := AList.update ?rid (block_table ?r @ new) (bm_tables (s_bm s))\<rparr>"
  let ?r2 = "?r\<lparr>block_table := block_table ?r @ new\<rparr>"
  let ?r3 = "?r2\<lparr>num_computed_tokens := num_computed_tokens ?r + chunk\<rparr>"
  have run: "with_bm (run_reserve sp target) x s = Inr (set_obj x ?r2 ?bm s)" using new(1) by (simp add: with_bm_Inr)
  have held: "(held_by s)(?rid := cached_prefix_nodes ?r3) = held_by s"
    using held_by_tracked [OF I(2), of x] x by (auto simp: fun_upd_idem_iff)
  have "core_inv (set_obj x ?r3 ?bm s) R W"
  proof (rule core_inv_set_obj [OF inv x])
    show "bm_inv ?bm ((held_by s)(?rid := cached_prefix_nodes ?r3))" unfolding held by (rule new(2))
    show "fst ` set (bm_tables ?bm) = fst ` set (bm_tables (s_bm s))"
      using map_of_SomeD [OF tab] by (force simp: dom_update insert_absorb)
    have "int (length (block_table ?r)) * bm_block_size (s_bm s) \<le> int (length (block_table ?r @ new)) * bm_block_size (s_bm s)"
      using bs by (intro mult_right_mono) auto
    then have "int (length (prompt_token_ids ?r)) \<le> int (length (block_table ?r @ new)) * bm_block_size (s_bm s)"
      using ok unfolding running_ok_def by linarith
    then show "running_ok ?bm ?r3"
      using ok chunk by (auto simp: running_ok_def update_conv is_finished_def simp del: length_append)
    show "running_ok ?bm q" if "request_id q \<noteq> request_id ?r3" "running_ok (s_bm s) q" for q
      using that by (auto simp: running_ok_def update_conv)
  qed simp
  then have "core_inv (upd_req x (\<lambda>r. r\<lparr>num_computed_tokens := num_computed_tokens r + chunk\<rparr>) (set_obj x ?r2 ?bm s)) R W"
    by (simp add: upd_req_set_obj)
  moreover have "needs_new_block (s_bm s) ?r \<longleftrightarrow> int (length (block_table ?r)) * bm_block_size (s_bm s) < get_len ?r"
    using tab by (simp add: needs_new_block_def get_block_table_def)
  ultimately show ?thesis
    using that [OF run, of "block_table ?r @ new"] new(3,4) by simp
qed

subsection \<open>A rule for the loop over the running requests\<close>

lemma make_room_rule:
  assumes "Q (x # p) s out"
    and victim: "\<And>p v s out. Q (x # p @ [v]) s out \<Longrightarrow> \<not> fits (s_bm s) (s_objs s x) \<Longrightarrow>
        \<exists>s' out'. preempt v s out = Inr (s', out') \<and> Q (x # p) s' out' \<and> s_objs s' x = s_objs s x"
    and self: "\<And>s out. Q [x] s out \<Longrightarrow> \<not> fits (s_bm s) (s_objs s x) \<Longrightarrow>
        \<exists>s' out'. preempt x s out = Inr (s', out') \<and> Q [] s' out'"
  shows "\<exists>s1 out1 p1 got. make_room fits x p s out = Inr (s1, out1, p1, got)
     \<and> (if got then Q (x # p1) s1 out1 \<and> fits (s_bm s1) (s_objs s1 x) \<and> s_objs s1 x = s_objs s x
        else p1 = [] \<and> Q [] s1 out1)"
  using assms(1)
proof (induction "length p" arbitrary: p s out rule: less_induct)
  case less
  note unfold = make_room.simps [of fits x p s out]
  show ?case
  proof (cases "fits (s_bm s) (s_objs s x)")
    case True
    then show ?thesis using less.prems unfold by (intro exI [of _ s] exI [of _ out] exI [of _ p] exI [of _ True]) simp
  next
    case nofit: False
    show ?thesis
    proof (cases "p = []")
      case True
      then obtain s' out' where "preempt x s out = Inr (s', out')" "Q [] s' out'"
        using self [of s out] less.prems nofit by auto
      then show ?thesis using unfold nofit True
        by (intro exI [of _ s'] exI [of _ out'] exI [of _ "[]"] exI [of _ False]) simp
    next
      case False
      have "Q (x # butlast p @ [last p]) s out" using less.prems False by simp
      from victim [OF this nofit] obtain s' out' where v: "preempt (last p) s out = Inr (s', out')"
        "Q (x # butlast p) s' out'" "s_objs s' x = s_objs s x" by blast
      have eq: "make_room fits x p s out = make_room fits x (butlast p) s' out'" using unfold nofit False v(1) by simp
      have "length (butlast p) < length p" using False by simp
      from less.hyps [OF this v(2)] show ?thesis unfolding eq v(3) .
    qed
  qed
qed

lemma run_loop_rule:
  assumes "Q p sc b s out"
    and skip: "\<And>x p sc b s out. Q (x # p) sc b s out \<Longrightarrow> num_new_tokens (s_objs s x) \<le> 0 \<or> b \<le> 0 \<Longrightarrow> Q p (sc @ [x]) b s out"
    and victim: "\<And>x p v sc b s out. Q (x # p @ [v]) sc b s out \<Longrightarrow> 0 < b \<Longrightarrow> 0 < num_new_tokens (s_objs s x) \<Longrightarrow>
        \<not> run_fits (draft_token_ids (s_objs s x) \<noteq> []) (num_computed_tokens (s_objs s x) + run_chunk (s_objs s x) b)
            (s_bm s) (s_objs s x) \<Longrightarrow>
        \<exists>s' out'. preempt v s out = Inr (s', out') \<and> Q (x # p) sc b s' out' \<and> s_objs s' x = s_objs s x"
    and self: "\<And>x sc b s out. Q [x] sc b s out \<Longrightarrow> 0 < b \<Longrightarrow> 0 < num_new_tokens (s_objs s x) \<Longrightarrow>
        \<not> run_fits (draft_token_ids (s_objs s x) \<noteq> []) (num_computed_tokens (s_objs s x) + run_chunk (s_objs s x) b)
            (s_bm s) (s_objs s x) \<Longrightarrow>
        \<exists>s' out'. preempt x s out = Inr (s', out') \<and> Q [] sc b s' out'"
    and adv: "\<And>x p sc b s out chunk sp target. Q (x # p) sc b s out \<Longrightarrow> 0 < b \<Longrightarrow> 0 < num_new_tokens (s_objs s x) \<Longrightarrow>
        chunk = run_chunk (s_objs s x) b \<Longrightarrow> sp = (draft_token_ids (s_objs s x) \<noteq> []) \<Longrightarrow>
        target = num_computed_tokens (s_objs s x) + chunk \<Longrightarrow> run_fits sp target (s_bm s) (s_objs s x) \<Longrightarrow>
        \<exists>s2. with_bm (run_reserve sp target) x s = Inr s2
           \<and> Q p (sc @ [x]) (b - chunk) (upd_req x (\<lambda>r. r\<lparr>num_computed_tokens := num_computed_tokens r + chunk\<rparr>) s2)
               (out\<lparr>scheduled_running := scheduled_running out @ [(x, chunk)]\<rparr>)"
  shows "\<exists>s1 out' b' sc'. run_loop p sc b s out = Inr (s1\<lparr>s_running := sc'\<rparr>, out', b') \<and> Q [] sc' b' s1 out'"
  using assms(1)
proof (induction "length p" arbitrary: p sc b s out rule: less_induct)
  case less
  show ?case
  proof (cases p)
    case Nil
    then show ?thesis using less.prems by auto
  next
    case (Cons x q)
    let ?r = "s_objs s x"
    let ?sp = "draft_token_ids ?r \<noteq> []" and ?chunk = "run_chunk ?r b"
    let ?target = "num_computed_tokens ?r + ?chunk"
    show ?thesis
    proof (cases "num_new_tokens ?r \<le> 0 \<or> b \<le> 0")
      case True
      then have "run_loop p sc b s out = run_loop q (sc @ [x]) b s out" using Cons by (auto simp: Let_def)
      moreover have "Q q (sc @ [x]) b s out" using skip True less.prems Cons by blast
      ultimately show ?thesis using less.hyps [of q] Cons by simp
    next
      case False
      then have pos: "0 < b" "0 < num_new_tokens ?r" by auto
      have step: "run_loop p sc b s out =
          (case make_room (run_fits ?sp ?target) x q s out of
             Inl e \<Rightarrow> Inl e
           | Inr (s1, out1, pending1, got) \<Rightarrow>
               if \<not> got then run_loop pending1 sc b s1 out1
               else case with_bm (run_reserve ?sp ?target) x s1 of
                      Inl e \<Rightarrow> Inl e
                    | Inr s2 \<Rightarrow> run_loop pending1 (sc @ [x]) (b - ?chunk)
                        (upd_req x (\<lambda>r. r\<lparr>num_computed_tokens := num_computed_tokens r + ?chunk\<rparr>) s2)
                        (out1\<lparr>scheduled_running := scheduled_running out1 @ [(x, ?chunk)]\<rparr>))"
        using Cons False by (simp add: Let_def)
      let ?Q = "\<lambda>p s' out'. Q p sc b s' out' \<and> (p \<noteq> [] \<longrightarrow> s_objs s' x = ?r)"
      have "\<exists>s1 out1 p1 got. make_room (run_fits ?sp ?target) x q s out = Inr (s1, out1, p1, got)
         \<and> (if got then ?Q (x # p1) s1 out1 \<and> run_fits ?sp ?target (s_bm s1) (s_objs s1 x) \<and> s_objs s1 x = s_objs s x
            else p1 = [] \<and> ?Q [] s1 out1)"
      proof (rule make_room_rule [where Q = ?Q])
        show "?Q (x # q) s out" using less.prems Cons by simp
      next
        fix p v s' out'
        assume *: "?Q (x # p @ [v]) s' out'" "\<not> run_fits ?sp ?target (s_bm s') (s_objs s' x)"
        then have r: "s_objs s' x = ?r" by simp
        from victim [of x p v sc b s' out'] * pos r
        show "\<exists>s'' out''. preempt v s' out' = Inr (s'', out'') \<and> ?Q (x # p) s'' out'' \<and> s_objs s'' x = s_objs s' x"
          by fastforce
      next
        fix s' out'
        assume *: "?Q [x] s' out'" "\<not> run_fits ?sp ?target (s_bm s') (s_objs s' x)"
        then have r: "s_objs s' x = ?r" by simp
        from self [of x sc b s' out'] * pos r
        show "\<exists>s'' out''. preempt x s' out' = Inr (s'', out'') \<and> ?Q [] s'' out''" by fastforce
      qed
      then obtain s1 out1 p1 got where mr: "make_room (run_fits ?sp ?target) x q s out = Inr (s1, out1, p1, got)"
        and res: "if got then ?Q (x # p1) s1 out1 \<and> run_fits ?sp ?target (s_bm s1) (s_objs s1 x) \<and> s_objs s1 x = s_objs s x
            else p1 = [] \<and> ?Q [] s1 out1" by blast
      show ?thesis
      proof (cases got)
        case False
        then have "run_loop p sc b s out = run_loop [] sc b s1 out1" "Q [] sc b s1 out1" using step mr res by simp_all
        then show ?thesis by auto
      next
        case True
        then have q1: "Q (x # p1) sc b s1 out1" "s_objs s1 x = ?r" "run_fits ?sp ?target (s_bm s1) (s_objs s1 x)"
          using res by auto
        obtain s2 where s2: "with_bm (run_reserve ?sp ?target) x s1 = Inr s2"
          "Q p1 (sc @ [x]) (b - ?chunk) (upd_req x (\<lambda>r. r\<lparr>num_computed_tokens := num_computed_tokens r + ?chunk\<rparr>) s2)
               (out1\<lparr>scheduled_running := scheduled_running out1 @ [(x, ?chunk)]\<rparr>)"
          using adv [OF q1(1) pos(1), of ?chunk ?sp ?target] pos q1(2,3) by auto
        have "length p1 < length p" using make_room_shorter [OF mr] Cons by simp
        from less.hyps [OF this s2(2)] show ?thesis using step mr True s2(1) by simp
      qed
    qed
  qed
qed

subsection \<open>Admission\<close>

lemma allocate_admits:
  assumes inv: "bm_inv bm held" and new: "map_of (bm_tables bm) (request_id r) = None"
    and m: "m = match_prefix bm (prompt_token_ids r)" and can: "can_allocate bm r m"
  shows "(allocate bm r m = Inl OutOfMemoryError \<and> bm_cache bm \<noteq> None)
    \<or> (\<exists>bm' r'. allocate bm r m = Inr (bm', r') \<and> admitted bm r bm' r'
         \<and> bm_inv bm' (held(request_id r := cached_prefix_nodes r')))"
proof (cases "bm_cache bm")
  case None
  then have "m = None" by (simp add: m match_prefix_def)
  then obtain bm' r' where a: "allocate bm r m = Inr (bm', r')" "admitted bm r bm' r'"
    "bm_inv bm' (held(request_id r := cached_prefix_nodes r))"
    using allocate_uncached [OF inv None new, of "cached_prefix_nodes r"] can by metis
  have "cached_prefix_nodes r' = cached_prefix_nodes r" using a(2) None by (auto simp: admitted_def match_prefix_def)
  with a show ?thesis by auto
next
  case (Some t)
  have "admitted bm r bm' r' \<Longrightarrow> cached_prefix_nodes r' = match_nodes (trie_match t (prompt_token_ids r))" for bm' r'
    using Some by (auto simp: admitted_def match_prefix_def)
  with allocate_cached [OF inv Some new disjI2 [OF m] refl] Some show ?thesis by fastforce
qed

lemma start_request_simps:
  assumes "start_request x m budget (set_obj x r1 bm s) = (s2, chunk)"
  obtains c where "c = (case m of None \<Rightarrow> num_computed_tokens r1
       | Some p \<Rightarrow> min (num_matched_tokens p) (int (length (prompt_token_ids r1)) - 1))"
    "chunk = min (get_len r1 - c) budget"
    "s2 = (set_obj x (r1\<lparr>status := RUNNING, num_computed_tokens := c + chunk\<rparr>) bm s)
            \<lparr>s_running := s_running s @ [x]\<rparr>"
  using assms
  by (cases m) (auto simp: start_request_def upd_req_def set_obj_def Let_def get_num_new_tokens_def get_len_def)

lemma admit_core:
  assumes inv: "core_inv s R (x # W)" and m: "m = match_prefix (s_bm s) (prompt_token_ids (s_objs s x))"
    and adm: "admissible x m budget ctx s"
  shows "(with_bm (\<lambda>bm r. allocate bm r m) x s = Inl OutOfMemoryError \<and> bm_cache (s_bm s) \<noteq> None)
    \<or> (\<exists>s1 s2 chunk tb nodes c. with_bm (\<lambda>bm r. allocate bm r m) x s = Inr s1 \<and> start_request x m budget s1 = (s2, chunk)
         \<and> core_inv s2 (R @ [x]) W \<and> s_running s2 = s_running s @ [x] \<and> s_config s2 = s_config s
         \<and> s_requests s2 = s_requests s \<and> s_waiting s2 = s_waiting s
         \<and> (bm_cache (s_bm s2) = None \<longleftrightarrow> bm_cache (s_bm s) = None)
         \<and> bm_block_size (s_bm s2) = bm_block_size (s_bm s)
         \<and> bm_num_gpu_blocks (s_bm s2) = bm_num_gpu_blocks (s_bm s)
         \<and> bm_watermark_blocks (s_bm s2) = bm_watermark_blocks (s_bm s)
         \<and> s_objs s2 = (s_objs s)(x := (s_objs s x)\<lparr>status := RUNNING, num_computed_tokens := c + chunk,
               block_table := tb, cached_prefix_nodes := nodes\<rparr>)
         \<and> c = (if m = None then 0 else min (matched_tokens m) (int (length (prompt_token_ids (s_objs s x))) - 1))
         \<and> chunk = min (get_len (s_objs s x) - c) budget
         \<and> get_len (s_objs s x) \<le> int (length tb) * bm_block_size (s_bm s))"
proof -
  note I = core_invD [OF inv]
  let ?r = "s_objs s x" and ?rid = "request_id (s_objs s x)"
  have xX: "x \<in> set (R @ x # W)" by simp
  have w: "waiting_ok ?r" using I(6) by simp
  have bs: "0 < bm_block_size (s_bm s)" using I(3) by (simp add: bm_inv_def)
  have neq: "request_id (s_objs s y) \<noteq> ?rid" if "y \<in> set R" for y
    using tracked_inj [OF I(2) _ xX, of y] that I(1) by auto
  have "?rid \<notin> fst ` set (bm_tables (s_bm s))" unfolding I(4) using neq by (metis (no_types, lifting) imageE)
  then have new: "map_of (bm_tables (s_bm s)) ?rid = None" by (simp add: map_of_eq_None_iff)
  have can: "can_allocate (s_bm s) ?r m" and pos: "0 < budget" using adm by (auto simp: admissible_def)
  from allocate_admits [OF I(3) new m can] show ?thesis
  proof (elim disjE conjE exE)
    assume "allocate (s_bm s) ?r m = Inl OutOfMemoryError" "bm_cache (s_bm s) \<noteq> None"
    then show ?thesis by (simp add: with_bm_Inl)
  next
    fix bm r1
    assume al: "allocate (s_bm s) ?r m = Inr (bm, r1)" "admitted (s_bm s) ?r bm r1"
      and binv: "bm_inv bm ((held_by s)(?rid := cached_prefix_nodes r1))"
    let ?nodes = "cached_prefix_nodes r1" and ?tb = "block_table r1"
    have r1: "r1 = ?r\<lparr>cached_prefix_nodes := ?nodes, block_table := ?tb\<rparr>"
      and tabs: "bm_tables bm = bm_tables (s_bm s) @ [(?rid, ?tb)]"
      and len: "int (length ?tb) = num_blocks_needed ?r (bm_block_size (s_bm s))"
      and flds: "bm_block_size bm = bm_block_size (s_bm s)" "bm_num_gpu_blocks bm = bm_num_gpu_blocks (s_bm s)"
        "bm_watermark_blocks bm = bm_watermark_blocks (s_bm s)" "bm_cache bm = None \<longleftrightarrow> bm_cache (s_bm s) = None"
      and nodes: "?nodes = (case m of None \<Rightarrow> cached_prefix_nodes ?r | Some p \<Rightarrow> match_nodes p)"
      using al(2) unfolding admitted_def m by auto
    have cap: "get_len ?r \<le> int (length ?tb) * bm_block_size (s_bm s)"
      using num_blocks_needed_le_iff [OF bs, of ?r "int (length ?tb)"] len by simp
    let ?s1 = "set_obj x r1 bm s"
    have run: "with_bm (\<lambda>bm r. allocate bm r m) x s = Inr ?s1" using al(1) by (simp add: with_bm_Inr)
    obtain s2 chunk where st: "start_request x m budget ?s1 = (s2, chunk)" by fastforce
    obtain c where c: "c = (case m of None \<Rightarrow> num_computed_tokens r1
         | Some p \<Rightarrow> min (num_matched_tokens p) (int (length (prompt_token_ids r1)) - 1))"
      "chunk = min (get_len r1 - c) budget"
      "s2 = (set_obj x (r1\<lparr>status := RUNNING, num_computed_tokens := c + chunk\<rparr>) bm s)
            \<lparr>s_running := s_running s @ [x]\<rparr>"
      by (rule start_request_simps [OF st])
    have pr: "prompt_token_ids r1 = prompt_token_ids ?r" "num_computed_tokens r1 = 0" "get_len r1 = get_len ?r"
      using w by (subst r1, simp add: waiting_ok_def get_len_def)+
    have c': "c = (if m = None then 0 else min (matched_tokens m) (int (length (prompt_token_ids ?r)) - 1))"
      using c(1) pr by (auto simp: matched_tokens_def split: option.splits)
    have ge: "c \<le> get_len ?r" "m \<noteq> None \<Longrightarrow> c \<le> int (length (prompt_token_ids ?r)) - 1"
      using c' by (auto simp: get_len_def)
    let ?r2 = "r1\<lparr>status := RUNNING, num_computed_tokens := c + chunk\<rparr>"
    have matched: "int (length ?nodes) * bm_block_size (s_bm s) = matched_tokens m
        \<and> matched_tokens m \<le> int (length (prompt_token_ids ?r))" if "bm_cache (s_bm s) = Some t" for t
    proof -
      have t: "m = Some (trie_match t (prompt_token_ids ?r))" "t_block_size t = bm_block_size (s_bm s)"
        using m that I(3) by (auto simp: match_prefix_def bm_inv_def cache_ok_def)
      have "0 < t_block_size t" using t bs by simp
      from trie_match_tokens(2) [OF this] show ?thesis using t nodes by (simp add: matched_tokens_def trie_match_fields)
    qed
    have ok2: "running_ok bm ?r2"
    proof -
      have "map_of (bm_tables bm) (request_id ?r2) = Some (block_table ?r2)"
        using new by (subst (1 2) r1) (simp add: tabs map_add_def)
      moreover have "int (length (prompt_token_ids ?r2)) \<le> int (length (block_table ?r2)) * bm_block_size bm"
        using cap pr flds by (simp add: get_len_def)
      moreover have "0 \<le> c + chunk"
      proof (cases "bm_cache (s_bm s)")
        case None
        then have "m = None" by (simp add: m match_prefix_def)
        then show ?thesis using c' c(2) pos pr by simp
      next
        case (Some t)
        have "0 \<le> matched_tokens m" using matched [OF Some] bs by (metis mult_nonneg_nonneg of_nat_0_le_iff order_less_imp_le)
        then have "-1 \<le> c" using c' by auto
        moreover have "m \<noteq> None" using Some by (simp add: m match_prefix_def)
        ultimately show ?thesis using c(2) pos ge pr by (simp add: get_len_def min_def)
      qed
      moreover have "if bm_cache bm = None then ?nodes = []
        else int (length ?nodes) * bm_block_size bm \<le> min (c + chunk) (int (length (prompt_token_ids ?r)))"
      proof (cases "bm_cache (s_bm s)")
        case None
        then have "m = None" by (simp add: m match_prefix_def)
        then show ?thesis using None flds nodes w by (simp add: waiting_ok_def)
      next
        case (Some t)
        have "m \<noteq> None" using Some by (simp add: m match_prefix_def)
        then have "matched_tokens m \<le> c + chunk"
          using c' c(2) pos matched [OF Some] pr by (auto simp: get_len_def min_def)
        moreover have nn: "bm_cache bm \<noteq> None" using Some flds(4) by simp
        ultimately show ?thesis unfolding if_not_P [OF nn] using matched [OF Some] flds(1) by simp
      qed
      ultimately show ?thesis using pr by (auto simp: running_ok_def split: if_splits)
    qed
    have id: "request_id ?r2 = request_id ?r" by (simp, subst r1, simp)
    have "core_inv (set_obj x ?r2 bm s) (R @ [x]) W"
      unfolding core_inv_def
    proof (intro conjI ballI)
      show "distinct ((R @ [x]) @ W)" using I(1) by auto
      show "tracked (set_obj x ?r2 bm s) (set ((R @ [x]) @ W))"
        using tracked_set_obj [OF I(2) id] by simp
      show "bm_inv (s_bm (set_obj x ?r2 bm s)) (held_by (set_obj x ?r2 bm s))"
        using binv held_by_set_obj [OF I(2) xX id] by simp
      have "(\<lambda>y. request_id (s_objs (set_obj x ?r2 bm s) y)) ` set R = (\<lambda>y. request_id (s_objs s y)) ` set R"
        using id by (intro image_cong) auto
      then show "fst ` set (bm_tables (s_bm (set_obj x ?r2 bm s))) = (\<lambda>y. request_id (s_objs (set_obj x ?r2 bm s) y)) ` set (R @ [x])"
        using I(4) id tabs by simp
      show "running_ok (s_bm (set_obj x ?r2 bm s)) (s_objs (set_obj x ?r2 bm s) y)" if "y \<in> set (R @ [x])" for y
      proof (cases "y = x")
        case False
        then have y: "y \<in> set R" using that by simp
        show ?thesis using I(5) [OF y] neq [OF y] False flds
          by (auto simp: running_ok_def tabs map_add_def)
      qed (use ok2 in simp)
      show "waiting_ok (s_objs (set_obj x ?r2 bm s) y)" if "y \<in> set W" for y
        using I(1,6) that by auto
    qed
    then have core: "core_inv s2 (R @ [x]) W" unfolding c(3) core_inv_waiting_irrelevant .
    have r2: "?r2 = ?r\<lparr>status := RUNNING, num_computed_tokens := c + chunk, block_table := ?tb, cached_prefix_nodes := ?nodes\<rparr>"
      by (subst r1) simp
    then have objs: "s_objs s2 = (s_objs s)(x := ?r\<lparr>status := RUNNING, num_computed_tokens := c + chunk,
        block_table := ?tb, cached_prefix_nodes := ?nodes\<rparr>)"
      unfolding c(3) by simp
    have "s_running s2 = s_running s @ [x]" "s_config s2 = s_config s" "s_requests s2 = s_requests s"
      "s_waiting s2 = s_waiting s" "s_bm s2 = bm" unfolding c(3) by simp_all
    moreover have "chunk = min (get_len ?r - c) budget" using c(2) pr by simp
    ultimately show ?thesis
      by (intro disjI2 exI [of _ ?s1] exI [of _ s2] exI [of _ chunk] exI [of _ ?tb] exI [of _ ?nodes] exI [of _ c] conjI)
        (assumption | rule run st core objs c' cap | simp only: flds)+
  qed
qed

subsection \<open>A rule for the admission loop\<close>

lemma wait_loop_rule:
  assumes "Q w b ctx s out"
    and admit: "\<And>x w b ctx s out m. Q (x # w) b ctx s out \<Longrightarrow> m = match_prefix (s_bm s) (prompt_token_ids (s_objs s x)) \<Longrightarrow>
        admissible x m b ctx s \<Longrightarrow>
        (with_bm (\<lambda>bm r. allocate bm r m) x s = Inl OutOfMemoryError \<and> E)
        \<or> (\<exists>s1 s2 chunk. with_bm (\<lambda>bm r. allocate bm r m) x s = Inr s1 \<and> start_request x m b s1 = (s2, chunk)
             \<and> Q w (b - chunk) (ctx - matched_tokens m) s2 (out\<lparr>scheduled_new := scheduled_new out @ [(x, chunk)]\<rparr>))"
  shows "(wait_loop w b ctx s out = Inl OutOfMemoryError \<and> E)
    \<or> (\<exists>s' out' b' ctx' w'. wait_loop w b ctx s out = Inr (s'\<lparr>s_waiting := w'\<rparr>, out', b') \<and> Q w' b' ctx' s' out'
         \<and> (w' \<noteq> [] \<longrightarrow> \<not> admissible (hd w') (match_prefix (s_bm s') (prompt_token_ids (s_objs s' (hd w')))) b' ctx' s'))"
  using assms(1)
proof (induction w arbitrary: b ctx s out)
  case Nil
  then show ?case by auto
next
  case (Cons x w)
  let ?m = "match_prefix (s_bm s) (prompt_token_ids (s_objs s x))"
  show ?case
  proof (cases "admissible x ?m b ctx s")
    case False
    then have "wait_loop (x # w) b ctx s out = Inr (s\<lparr>s_waiting := x # w\<rparr>, out, b)" by simp
    moreover have "\<not> admissible (hd (x # w)) (match_prefix (s_bm s) (prompt_token_ids (s_objs s (hd (x # w))))) b ctx s"
      using False by simp
    ultimately show ?thesis using Cons.prems by blast
  next
    case True
    from admit [OF Cons.prems refl True] show ?thesis
    proof (elim disjE conjE exE)
      assume "with_bm (\<lambda>bm r. allocate bm r ?m) x s = Inl OutOfMemoryError" "E"
      then show ?thesis using True by simp
    next
      fix s1 s2 chunk
      assume *: "with_bm (\<lambda>bm r. allocate bm r ?m) x s = Inr s1" "start_request x ?m b s1 = (s2, chunk)"
        "Q w (b - chunk) (ctx - matched_tokens ?m) s2 (out\<lparr>scheduled_new := scheduled_new out @ [(x, chunk)]\<rparr>)"
      have "wait_loop (x # w) b ctx s out = wait_loop w (b - chunk) (ctx - matched_tokens ?m) s2
          (out\<lparr>scheduled_new := scheduled_new out @ [(x, chunk)]\<rparr>)" using True *(1,2) by simp
      then show ?thesis using Cons.IH [OF *(3)] by simp
    qed
  qed
qed

subsection \<open>What the running phase does\<close>

definition same_pool :: "scheduler \<Rightarrow> scheduler \<Rightarrow> bool" where
  "same_pool s s' \<longleftrightarrow> s_config s' = s_config s \<and> s_requests s' = s_requests s
     \<and> (bm_cache (s_bm s') = None \<longleftrightarrow> bm_cache (s_bm s) = None)
     \<and> bm_block_size (s_bm s') = bm_block_size (s_bm s)
     \<and> bm_num_gpu_blocks (s_bm s') = bm_num_gpu_blocks (s_bm s)
     \<and> bm_watermark_blocks (s_bm s') = bm_watermark_blocks (s_bm s)"

text \<open>What a preemption makes of a request: its blocks and computed tokens are gone, its output and
also its unverified drafts stay.\<close>

definition reset_request :: "request \<Rightarrow> request" where
  "reset_request r = r\<lparr>cached_prefix_nodes := [], block_table := [], num_computed_tokens := 0, status := PREEMPTED\<rparr>"

text \<open>A running request that got \<open>c\<close> tokens: blocks reserved, the counter advanced, nothing else.\<close>

definition advanced :: "int \<Rightarrow> request \<Rightarrow> int \<Rightarrow> request \<Rightarrow> bool" where
  "advanced bs r c r' \<longleftrightarrow>
     (\<exists>tb. r' = r\<lparr>block_table := tb, num_computed_tokens := num_computed_tokens r + c\<rparr>
        \<and> length (block_table r) \<le> length tb \<and> take (length (block_table r)) tb = block_table r
        \<and> (draft_token_ids r \<noteq> [] \<longrightarrow> num_computed_tokens r' \<le> int (length tb) * bs)
        \<and> (draft_token_ids r = [] \<longrightarrow> int (length tb) = int (length (block_table r))
             + (if int (length (block_table r)) * bs < get_len r then 1 else 0)))
     \<and> 0 < c \<and> c \<le> num_new_tokens r \<and> (draft_token_ids r \<noteq> [] \<longrightarrow> c = num_new_tokens r)"

definition run_state :: "scheduler \<Rightarrow> rref list \<Rightarrow> rref list \<Rightarrow> int \<Rightarrow> scheduler \<Rightarrow> scheduler_output \<Rightarrow> bool" where
  "run_state s0 p sc b s out \<longleftrightarrow>
     core_inv s (sc @ p) (s_waiting s)
     \<and> s_waiting s = rev (preempted out) @ s_waiting s0
     \<and> sc @ p @ rev (preempted out) = s_running s0
     \<and> same_pool s0 s \<and> scheduled_new out = []
     \<and> b + sum_list (map snd (scheduled_running out)) = max_num_batched_tokens (s_config s0)
     \<and> subseq (map fst (scheduled_running out)) sc
     \<and> (\<forall>(x, c) \<in> set (scheduled_running out). advanced (bm_block_size (s_bm s0)) (s_objs s0 x) c (s_objs s x))
     \<and> (\<forall>x. x \<notin> fst ` set (scheduled_running out) \<longrightarrow>
           s_objs s x = (if x \<in> set (preempted out) then reset_request (s_objs s0 x) else s_objs s0 x))
     \<and> (\<forall>K. 0 \<le> K \<longrightarrow> (\<forall>x \<in> set (s_running s0). int (length (draft_token_ids (s_objs s0 x))) \<le> K) \<longrightarrow> - K \<le> b)"

lemma run_state_init:
  assumes "sched_inv s" shows "run_state s (s_running s) [] (max_num_batched_tokens (s_config s)) s empty_output"
  using assms by (auto simp: run_state_def sched_inv_def same_pool_def empty_output_def scheduler_config_ok_def)

lemma run_stateD:
  assumes "run_state s0 p sc b s out"
  shows "core_inv s (sc @ p) (s_waiting s)" "s_waiting s = rev (preempted out) @ s_waiting s0"
    "sc @ p @ rev (preempted out) = s_running s0" "same_pool s0 s" "scheduled_new out = []"
    "b + sum_list (map snd (scheduled_running out)) = max_num_batched_tokens (s_config s0)"
    "subseq (map fst (scheduled_running out)) sc"
    "\<And>x c. (x, c) \<in> set (scheduled_running out) \<Longrightarrow> advanced (bm_block_size (s_bm s0)) (s_objs s0 x) c (s_objs s x)"
    "\<And>x. x \<notin> fst ` set (scheduled_running out) \<Longrightarrow>
           s_objs s x = (if x \<in> set (preempted out) then reset_request (s_objs s0 x) else s_objs s0 x)"
    "\<And>K. 0 \<le> K \<Longrightarrow> (\<forall>x \<in> set (s_running s0). int (length (draft_token_ids (s_objs s0 x))) \<le> K) \<Longrightarrow> - K \<le> b"
  using assms unfolding run_state_def by blast+

lemma run_state_distinct:
  assumes "run_state s0 p sc b s out"
  shows "distinct (sc @ p @ rev (preempted out) @ s_waiting s0)" "set (map fst (scheduled_running out)) \<subseteq> set sc"
proof -
  show "distinct (sc @ p @ rev (preempted out) @ s_waiting s0)"
    using core_invD(1) [OF run_stateD(1) [OF assms]] run_stateD(2) [OF assms] by simp
  show "set (map fst (scheduled_running out)) \<subseteq> set sc" using run_stateD(7) [OF assms] by (auto elim!: list_emb_set)
qed

lemma run_state_pending:
  assumes "run_state s0 (p1 @ x # p2) sc b s out" shows "s_objs s x = s_objs s0 x"
  using run_stateD(9) [OF assms, of x] run_state_distinct [OF assms] by auto


lemma run_state_skip:
  assumes "run_state s0 (x # p) sc b s out" shows "run_state s0 p (sc @ [x]) b s out"
  using assms by (auto simp: run_state_def)

lemma run_state_preempt:
  assumes st: "run_state s0 (p @ [v]) sc b s out"
  obtains s' out' where "preempt v s out = Inr (s', out')" "run_state s0 p sc b s' out'"
    "s_objs s' = (s_objs s)(v := reset_request (s_objs s v))"
    "length (bm_free (s_bm s)) \<le> length (bm_free (s_bm s'))"
    "bm_tables (s_bm s') = AList.delete (request_id (s_objs s v)) (bm_tables (s_bm s))"
    "preempted out' = preempted out @ [v]" "scheduled_running out' = scheduled_running out"
proof -
  note S = run_stateD [OF st] and D = run_state_distinct [OF st]
  have "core_inv s ((sc @ p) @ v # []) (s_waiting s)" using S(1) by simp
  from preempt_core [OF this] obtain s' where s': "preempt v s out = Inr (s', out\<lparr>preempted := preempted out @ [v]\<rparr>)"
    "core_inv s' ((sc @ p) @ []) (v # s_waiting s)" "s_running s' = s_running s" "s_waiting s' = v # s_waiting s"
    "s_config s' = s_config s" "s_requests s' = s_requests s"
    "s_objs s' = (s_objs s)(v := (s_objs s v)\<lparr>cached_prefix_nodes := [], block_table := [],
        num_computed_tokens := 0, status := PREEMPTED\<rparr>)"
    "length (bm_free (s_bm s)) \<le> length (bm_free (s_bm s'))"
    "bm_cache (s_bm s') = None \<longleftrightarrow> bm_cache (s_bm s) = None"
    "bm_block_size (s_bm s') = bm_block_size (s_bm s)" "bm_num_gpu_blocks (s_bm s') = bm_num_gpu_blocks (s_bm s)"
    "bm_watermark_blocks (s_bm s') = bm_watermark_blocks (s_bm s)"
    "bm_tables (s_bm s') = AList.delete (request_id (s_objs s v)) (bm_tables (s_bm s))" by metis
  have v: "s_objs s v = s_objs s0 v" using run_state_pending [of s0 p v "[]"] st by simp
  have nv: "v \<notin> fst ` set (scheduled_running out)" using D by auto
  have "run_state s0 p sc b s' (out\<lparr>preempted := preempted out @ [v]\<rparr>)"
    unfolding run_state_def
  proof (intro conjI)
    show "core_inv s' (sc @ p) (s_waiting s')" using s'(2,4) by simp
    show "s_waiting s' = rev (preempted (out\<lparr>preempted := preempted out @ [v]\<rparr>)) @ s_waiting s0" using s'(4) S(2) by simp
    show "sc @ p @ rev (preempted (out\<lparr>preempted := preempted out @ [v]\<rparr>)) = s_running s0" using S(3) by simp
    show "same_pool s0 s'" using S(4) s'(5,6,9-12) by (simp add: same_pool_def)
    show "\<forall>(x, c) \<in> set (scheduled_running (out\<lparr>preempted := preempted out @ [v]\<rparr>)).
        advanced (bm_block_size (s_bm s0)) (s_objs s0 x) c (s_objs s' x)"
      using S(8) nv s'(7) by force
    show "\<forall>x. x \<notin> fst ` set (scheduled_running (out\<lparr>preempted := preempted out @ [v]\<rparr>)) \<longrightarrow>
        s_objs s' x = (if x \<in> set (preempted (out\<lparr>preempted := preempted out @ [v]\<rparr>)) then reset_request (s_objs s0 x) else s_objs s0 x)"
      using S(9) v s'(7) by (auto simp: reset_request_def)
  qed (use S in \<open>auto simp del: sum_list.append\<close>)
  then show ?thesis by (rule that [OF s'(1)]) (use s' in \<open>simp_all add: reset_request_def\<close>)
qed

lemma run_state_advance:
  assumes st: "run_state s0 (x # p) sc b s out" and pos: "0 < b" "0 < num_new_tokens (s_objs s x)"
    and chunk: "chunk = run_chunk (s_objs s x) b" and sp: "sp = (draft_token_ids (s_objs s x) \<noteq> [])"
    and target: "target = num_computed_tokens (s_objs s x) + chunk"
    and fits: "run_fits sp target (s_bm s) (s_objs s x)"
  obtains s2 where "with_bm (run_reserve sp target) x s = Inr s2"
    "run_state s0 p (sc @ [x]) (b - chunk) (upd_req x (\<lambda>r. r\<lparr>num_computed_tokens := num_computed_tokens r + chunk\<rparr>) s2)
       (out\<lparr>scheduled_running := scheduled_running out @ [(x, chunk)]\<rparr>)"
proof -
  note S = run_stateD [OF st] and D = run_state_distinct [OF st]
  let ?r = "s_objs s x"
  let ?out = "out\<lparr>scheduled_running := scheduled_running out @ [(x, chunk)]\<rparr>"
  have c: "0 < chunk" "chunk \<le> num_new_tokens ?r" "sp \<Longrightarrow> chunk = num_new_tokens ?r" "\<not> sp \<Longrightarrow> chunk \<le> b"
    using pos chunk sp by (auto simp: run_chunk_def)
  have x: "?r = s_objs s0 x" using run_state_pending [of s0 "[]" x p] st by simp
  have bs: "bm_block_size (s_bm s) = bm_block_size (s_bm s0)" using S(4) by (simp add: same_pool_def)
  have xR: "x \<in> set (sc @ x # p)" by simp
  obtain s2 tb where s2: "with_bm (run_reserve sp target) x s = Inr s2"
    "core_inv (upd_req x (\<lambda>r. r\<lparr>num_computed_tokens := num_computed_tokens r + chunk\<rparr>) s2) (sc @ x # p) (s_waiting s)"
    "s_objs s2 = (s_objs s)(x := ?r\<lparr>block_table := tb\<rparr>)"
    "s_running s2 = s_running s" "s_waiting s2 = s_waiting s" "s_config s2 = s_config s" "s_requests s2 = s_requests s"
    "bm_cache (s_bm s2) = bm_cache (s_bm s)" "bm_block_size (s_bm s2) = bm_block_size (s_bm s)"
    "bm_num_gpu_blocks (s_bm s2) = bm_num_gpu_blocks (s_bm s)"
    "bm_watermark_blocks (s_bm s2) = bm_watermark_blocks (s_bm s)"
    "sp \<longrightarrow> target \<le> int (length tb) * bm_block_size (s_bm s)"
    "\<not> sp \<longrightarrow> int (length tb) = int (length (block_table ?r))
        + (if int (length (block_table ?r)) * bm_block_size (s_bm s) < get_len ?r then 1 else 0)"
    "length (block_table ?r) \<le> length tb" "take (length (block_table ?r)) tb = block_table ?r"
    by (rule reserve_core [OF S(1) xR less_imp_le [OF c(1)] fits])
  let ?s = "upd_req x (\<lambda>r. r\<lparr>num_computed_tokens := num_computed_tokens r + chunk\<rparr>) s2"
  let ?r' = "?r\<lparr>block_table := tb, num_computed_tokens := num_computed_tokens ?r + chunk\<rparr>"
  have objs: "s_objs ?s = (s_objs s)(x := ?r')" using s2(3) by (simp add: upd_req_def)
  have flds: "s_running ?s = s_running s" "s_waiting ?s = s_waiting s" "same_pool s ?s"
    using s2(4-11) by (simp_all add: upd_req_def same_pool_def)
  have adv: "advanced (bm_block_size (s_bm s0)) (s_objs s0 x) chunk ?r'"
    unfolding advanced_def
  proof (intro conjI exI)
    show "?r' = (s_objs s0 x)\<lparr>block_table := tb, num_computed_tokens := num_computed_tokens (s_objs s0 x) + chunk\<rparr>"
      using x by simp
    show "draft_token_ids (s_objs s0 x) \<noteq> [] \<longrightarrow> num_computed_tokens ?r' \<le> int (length tb) * bm_block_size (s_bm s0)"
      using s2(12) sp target bs x by simp
    show "draft_token_ids (s_objs s0 x) = [] \<longrightarrow> int (length tb) = int (length (block_table (s_objs s0 x)))
        + (if int (length (block_table (s_objs s0 x))) * bm_block_size (s_bm s0) < get_len (s_objs s0 x) then 1 else 0)"
      using s2(13) sp bs x by simp
  qed (use c s2(14,15) sp x in auto)
  have nx: "x \<notin> fst ` set (scheduled_running out)" using D by auto
  have "run_state s0 p (sc @ [x]) (b - chunk) ?s ?out"
    unfolding run_state_def
  proof (intro conjI)
    show "core_inv ?s ((sc @ [x]) @ p) (s_waiting ?s)" using s2(2) flds(2) by simp
    show "same_pool s0 ?s" using S(4) flds(3) by (simp add: same_pool_def)
    show "subseq (map fst (scheduled_running ?out)) (sc @ [x])" using S(7) by (simp add: list_emb_append_mono)
    show "\<forall>(y, c) \<in> set (scheduled_running ?out). advanced (bm_block_size (s_bm s0)) (s_objs s0 y) c (s_objs ?s y)"
      using S(8) adv nx objs by force
    show "\<forall>y. y \<notin> fst ` set (scheduled_running ?out) \<longrightarrow>
        s_objs ?s y = (if y \<in> set (preempted ?out) then reset_request (s_objs s0 y) else s_objs s0 y)"
      using S(9) objs by auto
    show "\<forall>K. 0 \<le> K \<longrightarrow> (\<forall>y \<in> set (s_running s0). int (length (draft_token_ids (s_objs s0 y))) \<le> K) \<longrightarrow> - K \<le> b - chunk"
    proof (intro allI impI)
      fix K assume K: "0 \<le> K" "\<forall>y \<in> set (s_running s0). int (length (draft_token_ids (s_objs s0 y))) \<le> K"
      show "- K \<le> b - chunk"
      proof (cases sp)
        case True
        have "x \<in> set (s_running s0)" using S(3) by (metis Un_iff append_Cons list.set_intros(1) set_append)
        then have "int (length (draft_token_ids ?r)) \<le> K" using K(2) x by simp
        then show ?thesis using c(3) True sp pos by (simp add: num_new_tokens_def)
      next
        case False
        then show ?thesis using c(4) K(1) by simp
      qed
    qed
  qed (use S flds in auto)
  then show ?thesis by (rule that [OF s2(1)])
qed

text \<open>The whole running phase: it never raises, and ends in a state as described.\<close>

lemma run_phase:
  assumes "sched_inv s"
  obtains s1 out b sc where "run_loop (s_running s) [] (max_num_batched_tokens (s_config s)) s empty_output = Inr (s1\<lparr>s_running := sc\<rparr>, out, b)"
    "run_state s [] sc b s1 out"
proof -
  have "\<exists>s1 out b sc. run_loop (s_running s) [] (max_num_batched_tokens (s_config s)) s empty_output = Inr (s1\<lparr>s_running := sc\<rparr>, out, b)
    \<and> run_state s [] sc b s1 out"
  proof (rule run_loop_rule [where Q = "run_state s"])
    show "run_state s (s_running s) [] (max_num_batched_tokens (s_config s)) s empty_output"
      by (rule run_state_init [OF assms])
  next
    fix x p v sc b s' out assume *: "run_state s (x # p @ [v]) sc b s' out"
    then have "run_state s ((x # p) @ [v]) sc b s' out" by simp
    from run_state_preempt [OF this] obtain s2 out2 where "preempt v s' out = Inr (s2, out2)" "run_state s (x # p) sc b s2 out2"
      "s_objs s2 = (s_objs s')(v := reset_request (s_objs s' v))" by metis
    moreover have "x \<noteq> v" using run_state_distinct [OF *] by auto
    ultimately show "\<exists>s2 out2. preempt v s' out = Inr (s2, out2) \<and> run_state s (x # p) sc b s2 out2 \<and> s_objs s2 x = s_objs s' x"
      by auto
  next
    fix x sc b s' out assume "run_state s [x] sc b s' out"
    then have "run_state s ([] @ [x]) sc b s' out" by simp
    from run_state_preempt [OF this] obtain s2 out2 where "preempt x s' out = Inr (s2, out2)" "run_state s [] sc b s2 out2" by blast
    then show "\<exists>s2 out2. preempt x s' out = Inr (s2, out2) \<and> run_state s [] sc b s2 out2" by blast
  next
    fix x p sc b s' out chunk sp target
    assume "run_state s (x # p) sc b s' out" "0 < b" "0 < num_new_tokens (s_objs s' x)"
      "chunk = run_chunk (s_objs s' x) b" "sp = (draft_token_ids (s_objs s' x) \<noteq> [])"
      "target = num_computed_tokens (s_objs s' x) + chunk" "run_fits sp target (s_bm s') (s_objs s' x)"
    then show "\<exists>s2. with_bm (run_reserve sp target) x s' = Inr s2
       \<and> run_state s p (sc @ [x]) (b - chunk) (upd_req x (\<lambda>r. r\<lparr>num_computed_tokens := num_computed_tokens r + chunk\<rparr>) s2)
           (out\<lparr>scheduled_running := scheduled_running out @ [(x, chunk)]\<rparr>)"
      by (rule run_state_advance) (intro exI conjI)
  qed (rule run_state_skip)
  then show ?thesis using that by blast
qed

subsection \<open>What the admission phase does\<close>

text \<open>A request admitted with \<open>c\<close> tokens: blocks for all its tokens, running, \<open>k + c\<close> computed.\<close>

definition started :: "int \<Rightarrow> request \<Rightarrow> int \<Rightarrow> request \<Rightarrow> bool" where
  "started bs r c r' \<longleftrightarrow>
     (\<exists>k tb nodes. r' = r\<lparr>status := RUNNING, num_computed_tokens := k + c, block_table := tb, cached_prefix_nodes := nodes\<rparr>
        \<and> get_len r \<le> int (length tb) * bs \<and> 0 \<le> c \<and> k + c \<le> get_len r \<and> (0 < get_len r \<longrightarrow> 0 < c))"

definition wait_state :: "scheduler \<Rightarrow> scheduler_output \<Rightarrow> int \<Rightarrow> rref list \<Rightarrow> int \<Rightarrow> int \<Rightarrow> scheduler \<Rightarrow> scheduler_output \<Rightarrow> bool" where
  "wait_state s1 out1 b1 w b ctx s out \<longleftrightarrow>
     core_inv s (s_running s) w
     \<and> s_running s = s_running s1 @ map fst (scheduled_new out)
     \<and> map fst (scheduled_new out) @ w = s_waiting s1
     \<and> same_pool s1 s \<and> scheduled_running out = scheduled_running out1 \<and> preempted out = preempted out1
     \<and> b + sum_list (map snd (scheduled_new out)) = b1
     \<and> (scheduled_new out \<noteq> [] \<longrightarrow> 0 \<le> b \<and> int (length (s_running s)) \<le> max_num_seqs (s_config s1))
     \<and> (\<forall>(x, c) \<in> set (scheduled_new out). started (bm_block_size (s_bm s1)) (s_objs s1 x) c (s_objs s x))
     \<and> (\<forall>x. x \<notin> fst ` set (scheduled_new out) \<longrightarrow> s_objs s x = s_objs s1 x)
     \<and> (bm_cache (s_bm s1) = None \<longrightarrow> (\<forall>(x, c) \<in> set (scheduled_new out). num_computed_tokens (s_objs s x) = c))"

lemma wait_state_admit:
  assumes st: "wait_state s1 out1 b1 (x # w) b ctx s out"
    and m: "m = match_prefix (s_bm s) (prompt_token_ids (s_objs s x))" and adm: "admissible x m b ctx s"
  shows "(with_bm (\<lambda>bm r. allocate bm r m) x s = Inl OutOfMemoryError \<and> bm_cache (s_bm s1) \<noteq> None)
    \<or> (\<exists>s2 s3 chunk. with_bm (\<lambda>bm r. allocate bm r m) x s = Inr s2 \<and> start_request x m b s2 = (s3, chunk)
         \<and> wait_state s1 out1 b1 w (b - chunk) (ctx - matched_tokens m) s3
             (out\<lparr>scheduled_new := scheduled_new out @ [(x, chunk)]\<rparr>))"
proof -
  have core: "core_inv s (s_running s) (x # w)"
    and run: "s_running s = s_running s1 @ map fst (scheduled_new out)"
    and wait: "map fst (scheduled_new out) @ x # w = s_waiting s1"
    and pool: "same_pool s1 s"
    and objs: "\<And>y. y \<notin> fst ` set (scheduled_new out) \<Longrightarrow> s_objs s y = s_objs s1 y"
    and old: "\<And>y c. (y, c) \<in> set (scheduled_new out) \<Longrightarrow> started (bm_block_size (s_bm s1)) (s_objs s1 y) c (s_objs s y)"
    and sum: "b + sum_list (map snd (scheduled_new out)) = b1"
    and sr: "scheduled_running out = scheduled_running out1" "preempted out = preempted out1"
    using st unfolding wait_state_def by blast+
  have plain: "bm_cache (s_bm s1) = None \<longrightarrow> (\<forall>(x, c) \<in> set (scheduled_new out). num_computed_tokens (s_objs s x) = c)"
    using st unfolding wait_state_def by (elim conjE) assumption
  have nx: "x \<notin> fst ` set (scheduled_new out)" using core_invD(1) [OF core] run by auto
  from admit_core [OF core m adm] show ?thesis
  proof (elim disjE exE conjE)
    assume "with_bm (\<lambda>bm r. allocate bm r m) x s = Inl OutOfMemoryError" "bm_cache (s_bm s) \<noteq> None"
    then show ?thesis using pool by (simp add: same_pool_def del: not_None_eq)
  next
    fix s2 s3 chunk tb nodes c
    assume a: "with_bm (\<lambda>bm r. allocate bm r m) x s = Inr s2" "start_request x m b s2 = (s3, chunk)"
      "core_inv s3 (s_running s @ [x]) w" "s_running s3 = s_running s @ [x]" "s_config s3 = s_config s"
      "s_requests s3 = s_requests s" "s_waiting s3 = s_waiting s"
      "bm_cache (s_bm s3) = None \<longleftrightarrow> bm_cache (s_bm s) = None"
      "bm_block_size (s_bm s3) = bm_block_size (s_bm s)"
      "bm_num_gpu_blocks (s_bm s3) = bm_num_gpu_blocks (s_bm s)"
      "bm_watermark_blocks (s_bm s3) = bm_watermark_blocks (s_bm s)"
      "s_objs s3 = (s_objs s)(x := (s_objs s x)\<lparr>status := RUNNING, num_computed_tokens := c + chunk,
               block_table := tb, cached_prefix_nodes := nodes\<rparr>)"
      "c = (if m = None then 0 else min (matched_tokens m) (int (length (prompt_token_ids (s_objs s x))) - 1))"
      "chunk = min (get_len (s_objs s x) - c) b" "get_len (s_objs s x) \<le> int (length tb) * bm_block_size (s_bm s)"
    have pos: "0 < b" and seqs: "int (length (s_running s)) < max_num_seqs (s_config s)"
      using adm by (auto simp: admissible_def)
    have c: "c \<le> get_len (s_objs s x)" "0 < get_len (s_objs s x) \<Longrightarrow> c < get_len (s_objs s x)"
      using a(13) by (auto simp: get_len_def split: if_splits)
    let ?out = "out\<lparr>scheduled_new := scheduled_new out @ [(x, chunk)]\<rparr>"
    have start: "started (bm_block_size (s_bm s1)) (s_objs s1 x) chunk (s_objs s3 x)"
      unfolding started_def
    proof (intro exI conjI)
      show "s_objs s3 x = (s_objs s1 x)\<lparr>status := RUNNING, num_computed_tokens := c + chunk, block_table := tb, cached_prefix_nodes := nodes\<rparr>"
        using a(12) objs [OF nx] by simp
      show "get_len (s_objs s1 x) \<le> int (length tb) * bm_block_size (s_bm s1)"
        using a(15) objs [OF nx] pool by (simp add: same_pool_def)
      show "0 < get_len (s_objs s1 x) \<longrightarrow> 0 < chunk" "0 \<le> chunk" "c + chunk \<le> get_len (s_objs s1 x)"
        using a(14) pos c objs [OF nx] by auto
    qed
    have "wait_state s1 out1 b1 w (b - chunk) (ctx - matched_tokens m) s3 ?out"
      unfolding wait_state_def
    proof (intro conjI)
      show "core_inv s3 (s_running s3) w" using a(3,4) by simp
      show "s_running s3 = s_running s1 @ map fst (scheduled_new ?out)" using a(4) run by simp
      show "map fst (scheduled_new ?out) @ w = s_waiting s1" using wait by simp
      show "same_pool s1 s3" using pool a(5,6,8-11) by (simp add: same_pool_def)
      show "b - chunk + sum_list (map snd (scheduled_new ?out)) = b1" using sum by simp
      show "scheduled_new ?out \<noteq> [] \<longrightarrow> 0 \<le> b - chunk \<and> int (length (s_running s3)) \<le> max_num_seqs (s_config s1)"
        using a(4,14) seqs pool by (auto simp: same_pool_def)
      show "\<forall>(y, c) \<in> set (scheduled_new ?out). started (bm_block_size (s_bm s1)) (s_objs s1 y) c (s_objs s3 y)"
        using old start nx a(12) by force
      show "\<forall>y. y \<notin> fst ` set (scheduled_new ?out) \<longrightarrow> s_objs s3 y = s_objs s1 y"
        using objs a(12) by auto
      show "bm_cache (s_bm s1) = None \<longrightarrow> (\<forall>(y, c) \<in> set (scheduled_new ?out). num_computed_tokens (s_objs s3 y) = c)"
      proof
        assume none: "bm_cache (s_bm s1) = None"
        then have "m = None" using pool m by (simp add: same_pool_def match_prefix_def)
        then show "\<forall>(y, c) \<in> set (scheduled_new ?out). num_computed_tokens (s_objs s3 y) = c"
          using plain none nx a(12,13) by force
      qed
    qed (use sr in auto)
    then show ?thesis using a(1,2) by blast
  qed
qed

lemma wait_phase:
  assumes core: "core_inv s1 (s_running s1) (s_waiting s1)" and new: "scheduled_new out1 = []"
  shows "(wait_loop (s_waiting s1) b1 ctx s1 out1 = Inl OutOfMemoryError \<and> bm_cache (s_bm s1) \<noteq> None)
    \<or> (\<exists>s' out' b' ctx' w'. wait_loop (s_waiting s1) b1 ctx s1 out1 = Inr (s'\<lparr>s_waiting := w'\<rparr>, out', b')
         \<and> wait_state s1 out1 b1 w' b' ctx' s' out'
         \<and> (w' \<noteq> [] \<longrightarrow> \<not> admissible (hd w') (match_prefix (s_bm s') (prompt_token_ids (s_objs s' (hd w')))) b' ctx' s'))"
proof (rule wait_loop_rule [where Q = "wait_state s1 out1 b1"])
  show "wait_state s1 out1 b1 (s_waiting s1) b1 ctx s1 out1"
    using core new by (simp add: wait_state_def same_pool_def)
qed (rule wait_state_admit)

lemma run_state_running: "run_state s0 p sc b (s\<lparr>s_running := w\<rparr>) out = run_state s0 p sc b s out"
  by (simp add: run_state_def core_inv_waiting_irrelevant same_pool_def)

subsection \<open>The whole step\<close>

text \<open>The two ways a step ends, as data: what its two phases did.\<close>

definition step_shape :: "scheduler \<Rightarrow> scheduler \<Rightarrow> scheduler_output \<Rightarrow> bool" where
  "step_shape s s' out \<longleftrightarrow>
     (\<exists>s1 b sc outr. run_state s [] sc b s1 outr
        \<and> (preempted outr \<noteq> [] \<and> s' = s1\<lparr>s_running := sc\<rparr> \<and> out = outr
           \<or> preempted outr = [] \<and> (\<exists>s2 w b' ctx'. s' = s2\<lparr>s_waiting := w\<rparr>
                \<and> wait_state (s1\<lparr>s_running := sc\<rparr>) outr b w b' ctx' s2 out)))"

lemma schedule_cases:
  assumes "sched_inv s"
  obtains (raises) "schedule s = Inl OutOfMemoryError" "bm_cache (s_bm s) \<noteq> None"
    | (returns) s' out where "schedule s = Inr (s', out)" "step_shape s s' out"
proof -
  obtain s1 out b sc where r: "run_loop (s_running s) [] (max_num_batched_tokens (s_config s)) s empty_output = Inr (s1\<lparr>s_running := sc\<rparr>, out, b)"
    "run_state s [] sc b s1 out" by (rule run_phase [OF assms])
  let ?s1 = "s1\<lparr>s_running := sc\<rparr>"
  show ?thesis
  proof (cases "preempted out = []")
    case False
    then have "schedule s = Inr (?s1, out)" using r(1) by (simp add: schedule_def)
    moreover have "step_shape s ?s1 out" unfolding step_shape_def using r(2) False by blast
    ultimately show ?thesis by (rule returns)
  next
    case True
    have core: "core_inv ?s1 (s_running ?s1) (s_waiting ?s1)"
      using run_stateD(1) [OF r(2)] by (simp add: core_inv_waiting_irrelevant)
    have new: "scheduled_new out = []" by (rule run_stateD(5) [OF r(2)])
    have sch: "schedule s = bindE (wait_loop (s_waiting ?s1) b (ctx_budget0 (s_config ?s1)) ?s1 out) (\<lambda>(s2, out2, _). Inr (s2, out2))"
      using r(1) True by (simp add: schedule_def)
    have pool: "bm_cache (s_bm ?s1) = None \<longleftrightarrow> bm_cache (s_bm s) = None"
      using run_stateD(4) [OF r(2)] by (simp add: same_pool_def)
    from wait_phase [OF core new, of b "ctx_budget0 (s_config ?s1)"] show ?thesis
    proof (elim disjE exE conjE)
      assume "wait_loop (s_waiting ?s1) b (ctx_budget0 (s_config ?s1)) ?s1 out = Inl OutOfMemoryError" "bm_cache (s_bm ?s1) \<noteq> None"
      then have "schedule s = Inl OutOfMemoryError" "bm_cache (s_bm s) \<noteq> None"
        unfolding sch using pool by (simp_all only: bindE.simps not_False_eq_True)
      then show ?thesis by (rule raises)
    next
      fix s2 out2 b2 ctx2 w
      assume w: "wait_loop (s_waiting ?s1) b (ctx_budget0 (s_config ?s1)) ?s1 out = Inr (s2\<lparr>s_waiting := w\<rparr>, out2, b2)"
        "wait_state ?s1 out b w b2 ctx2 s2 out2"
      have "schedule s = Inr (s2\<lparr>s_waiting := w\<rparr>, out2)" unfolding sch w(1) by simp
      moreover have "step_shape s (s2\<lparr>s_waiting := w\<rparr>) out2"
        unfolding step_shape_def using r(2) True w(2) by blast
      ultimately show ?thesis by (rule returns)
    qed
  qed
qed

lemma schedule_shape:
  assumes "sched_inv s" "schedule s = Inr (s', out)" shows "step_shape s s' out"
  using schedule_cases [OF assms(1)] assms(2) by (metis Inl_Inr_False Inr_inject prod.inject)

lemma step_shape_cases:
  assumes "step_shape s s' out"
  obtains (preempting) s1 b where "run_state s [] (s_running s') b s1 out" "preempted out \<noteq> []" "s' = s1\<lparr>s_running := s_running s'\<rparr>"
    | (admitting) s1 s2 b outr b' ctx' where "run_state s [] (s_running s1) b s1 outr" "preempted outr = []"
        "wait_state s1 outr b (s_waiting s') b' ctx' s2 out" "s' = s2\<lparr>s_waiting := s_waiting s'\<rparr>"
proof -
  obtain s1 b sc outr where r: "run_state s [] sc b s1 outr" and
    d: "preempted outr \<noteq> [] \<and> s' = s1\<lparr>s_running := sc\<rparr> \<and> out = outr
           \<or> preempted outr = [] \<and> (\<exists>s2 w b' ctx'. s' = s2\<lparr>s_waiting := w\<rparr>
                \<and> wait_state (s1\<lparr>s_running := sc\<rparr>) outr b w b' ctx' s2 out)"
    using assms unfolding step_shape_def by blast
  from d show ?thesis
  proof (elim disjE conjE exE)
    assume "preempted outr \<noteq> []" "s' = s1\<lparr>s_running := sc\<rparr>" "out = outr"
    then show ?thesis using preempting r by simp
  next
    fix s2 w b' ctx'
    assume *: "preempted outr = []" "s' = s2\<lparr>s_waiting := w\<rparr>" "wait_state (s1\<lparr>s_running := sc\<rparr>) outr b w b' ctx' s2 out"
    have "run_state s [] (s_running (s1\<lparr>s_running := sc\<rparr>)) b (s1\<lparr>s_running := sc\<rparr>) outr"
      using r by (simp add: run_state_running)
    then show ?thesis
    proof (rule admitting)
      show "preempted outr = []" by (rule *(1))
      show "wait_state (s1\<lparr>s_running := sc\<rparr>) outr b (s_waiting s') b' ctx' s2 out" using *(2,3) by simp
      show "s' = s2\<lparr>s_waiting := s_waiting s'\<rparr>" using *(2) by simp
    qed
  qed
qed

subsection \<open>Arrival and teardown\<close>

lemma add_request_inv:
  assumes inv: "sched_inv s" and fresh: "x \<notin> set (s_running s @ s_waiting s)"
    and obj: "waiting_ok ((s_objs s x)\<lparr>status := WAITING\<rparr>)"
    and add: "add_request x s = Inr s'"
  shows "sched_inv s'"
proof -
  let ?rid = "request_id (s_objs s x)" and ?r = "(s_objs s x)\<lparr>status := WAITING\<rparr>"
  have core: "core_inv s (s_running s) (s_waiting s)" and cfg: "scheduler_config_ok (s_config s)"
    using inv by (auto simp: sched_inv_def)
  note I = core_invD [OF core]
  have new: "map_of (s_requests s) ?rid = None"
    and s': "s' = s\<lparr>s_objs := (s_objs s)(x := ?r), s_requests := s_requests s @ [(?rid, x)], s_waiting := s_waiting s @ [x]\<rparr>"
    using add by (auto simp: add_request_def Let_def upd_req_def alist_update_fresh split: if_splits)
  have objs: "s_objs s' y = s_objs s y" if "y \<in> set (s_running s @ s_waiting s)" for y
    using that fresh s' by auto
  have tr: "tracked s' (set (s_running s @ s_waiting s @ [x]))"
    unfolding tracked_def
  proof (intro conjI allI)
    show "distinct (map fst (s_requests s'))" using I(2) new s' by (auto simp: tracked_def map_of_eq_None_iff)
    show "map_of (s_requests s') rid = Some y \<longleftrightarrow> y \<in> set (s_running s @ s_waiting s @ [x]) \<and> request_id (s_objs s' y) = rid" for rid y
    proof (cases "map_of (s_requests s) rid")
      case None
      then have no: "\<not> (z \<in> set (s_running s @ s_waiting s) \<and> request_id (s_objs s z) = rid)" for z
        using tracked_id [OF I(2), of z] by auto
      have "map_of (s_requests s') rid = (if rid = ?rid then Some x else None)"
        using None s' by (simp add: map_add_def)
      then show ?thesis using no [of y] objs [of y] s' by (cases "y = x") (auto split: if_splits)
    next
      case (Some z)
      then have m: "map_of (s_requests s') rid = Some z" "rid \<noteq> ?rid" using s' new by (auto simp: map_add_def)
      have z: "z \<in> set (s_running s @ s_waiting s)" "request_id (s_objs s z) = rid" using tracked_lookup [OF I(2) Some] by auto
      have "z = y" if "y \<in> set (s_running s @ s_waiting s)" "request_id (s_objs s y) = rid"
        using tracked_inj [OF I(2) z(1) that(1)] z(2) that(2) by simp
      then show ?thesis using m z objs s' by (cases "y = x") auto
    qed
  qed
  have held: "held_by s' rid = held_by s rid" if r: "rid \<in> fst ` set (bm_tables (s_bm s))" for rid
  proof -
    obtain y where y: "y \<in> set (s_running s)" "request_id (s_objs s y) = rid" using r unfolding I(4) by auto
    have a: "held_by s rid = cached_prefix_nodes (s_objs s y)" using held_by_tracked [OF I(2), of y] y by simp
    have b: "held_by s' rid = cached_prefix_nodes (s_objs s' y)" using held_by_tracked [OF tr, of y] y objs [of y] by simp
    show ?thesis using a b objs [of y] y(1) by simp
  qed
  have "core_inv s' (s_running s) (s_waiting s @ [x])"
    unfolding core_inv_def
  proof (intro conjI ballI)
    show "distinct (s_running s @ s_waiting s @ [x])" using I(1) fresh by auto
    show "tracked s' (set (s_running s @ s_waiting s @ [x]))" by (rule tr)
    have "s_bm s' = s_bm s" using s' by simp
    then show "bm_inv (s_bm s') (held_by s')" using I(3) bm_inv_cong [of "s_bm s" "held_by s'" "held_by s"] held by simp
    have "(\<lambda>y. request_id (s_objs s' y)) ` set (s_running s) = (\<lambda>y. request_id (s_objs s y)) ` set (s_running s)"
      using objs by (intro image_cong) auto
    then show "fst ` set (bm_tables (s_bm s')) = (\<lambda>y. request_id (s_objs s' y)) ` set (s_running s)"
      using I(4) \<open>s_bm s' = s_bm s\<close> by simp
    show "running_ok (s_bm s') (s_objs s' y)" if "y \<in> set (s_running s)" for y
      using that I(5) objs [of y] \<open>s_bm s' = s_bm s\<close> by simp
    show "waiting_ok (s_objs s' y)" if "y \<in> set (s_waiting s @ [x])" for y
    proof (cases "y = x")
      case True
      then show ?thesis using obj s' by simp
    next
      case False
      then show ?thesis using that I(6) objs [of y] by simp
    qed
  qed
  then show ?thesis using cfg s' by (simp add: sched_inv_def)
qed

text \<open>Forgetting a request that owns no blocks any more.\<close>

lemma core_inv_forget:
  assumes "distinct (x # R @ W)" and tr: "tracked s (insert x (set (R @ W)))"
    and bm: "bm_inv (s_bm s) held" and held: "\<And>y. y \<in> set R \<Longrightarrow> held (request_id (s_objs s y)) = cached_prefix_nodes (s_objs s y)"
    and ids: "fst ` set (bm_tables (s_bm s)) = (\<lambda>y. request_id (s_objs s y)) ` set R"
    and run: "\<And>y. y \<in> set R \<Longrightarrow> running_ok (s_bm s) (s_objs s y)" and wait: "\<And>y. y \<in> set W \<Longrightarrow> waiting_ok (s_objs s y)"
  shows "core_inv (s\<lparr>s_requests := AList.delete (request_id (s_objs s x)) (s_requests s)\<rparr>) R W" (is "core_inv ?s R W")
proof -
  have neq: "request_id (s_objs s y) \<noteq> request_id (s_objs s x)" if "y \<in> set (R @ W)" for y
    using tracked_inj [OF tr, of y x] that assms(1) by auto
  have tr': "tracked ?s (set (R @ W))"
    unfolding tracked_def
  proof (intro conjI allI)
    show "distinct (map fst (s_requests ?s))" using tr by (simp add: tracked_def distinct_delete)
    show "map_of (s_requests ?s) rid = Some y \<longleftrightarrow> y \<in> set (R @ W) \<and> request_id (s_objs ?s y) = rid" for rid y
    proof (cases "rid = request_id (s_objs s x)")
      case True
      then show ?thesis using neq [of y] by (auto simp: map_of_delete_if)
    next
      case False
      have "map_of (s_requests s) rid = Some y \<longleftrightarrow> y \<in> insert x (set (R @ W)) \<and> request_id (s_objs s y) = rid"
        using tr unfolding tracked_def by (elim conjE allE)
      then show ?thesis using False by (auto simp: map_of_delete_if)
    qed
  qed
  have "held_by ?s rid = held rid" if r: "rid \<in> fst ` set (bm_tables (s_bm s))" for rid
  proof -
    obtain y where y: "y \<in> set R" "request_id (s_objs s y) = rid" using r unfolding ids by auto
    then show ?thesis using held_by_tracked [OF tr', of y] held [OF y(1)] by simp
  qed
  then have "bm_inv (s_bm ?s) (held_by ?s)" using bm bm_inv_cong [of "s_bm s" "held_by ?s" held] by simp
  then show ?thesis using assms(1) tr' ids run wait by (simp add: core_inv_def)
qed

lemma finish_one_core:
  assumes inv: "core_inv s (R1 @ x # R2) W"
  obtains s' where "finish_one x s = Inr s'" "core_inv s' (R1 @ R2) W"
    "s_objs s' = (s_objs s)(x := (s_objs s x)\<lparr>cached_prefix_nodes := [], block_table := []\<rparr>)"
    "s_running s' = s_running s" "s_waiting s' = s_waiting s" "s_config s' = s_config s"
    "s_requests s' = AList.delete (request_id (s_objs s x)) (s_requests s)"
    "length (bm_free (s_bm s)) \<le> length (bm_free (s_bm s'))"
proof -
  note I = core_invD [OF inv]
  let ?r = "s_objs s x" and ?rid = "request_id (s_objs s x)"
  have xX: "x \<in> set ((R1 @ x # R2) @ W)" by simp
  obtain bm where bm: "free_blocks (s_bm s) ?r = Inr (bm, ?r\<lparr>cached_prefix_nodes := [], block_table := []\<rparr>)"
    "bm_inv bm ((held_by s)(?rid := []))"
    "bm_tables bm = AList.delete ?rid (bm_tables (s_bm s))"
    "\<And>q. request_id q \<noteq> ?rid \<Longrightarrow> running_ok (s_bm s) q \<Longrightarrow> running_ok bm q"
    "length (bm_free (s_bm s)) \<le> length (bm_free bm)" "bm_cache bm = None \<longleftrightarrow> bm_cache (s_bm s) = None"
    "bm_block_size bm = bm_block_size (s_bm s)" "bm_num_gpu_blocks bm = bm_num_gpu_blocks (s_bm s)"
    "bm_watermark_blocks bm = bm_watermark_blocks (s_bm s)"
    using free_blocks_core [OF inv] by metis
  let ?r' = "?r\<lparr>cached_prefix_nodes := [], block_table := []\<rparr>"
  let ?s = "set_obj x ?r' bm s"
  let ?s' = "?s\<lparr>s_requests := AList.delete ?rid (s_requests s)\<rparr>"
  have wb: "with_bm free_blocks x s = Inr ?s" using bm(1) by (simp add: with_bm_Inr)
  have run: "finish_one x s = Inr ?s'" using wb tracked_id [OF I(2) xX] by (simp add: finish_one_def)
  have neq: "request_id (s_objs s y) \<noteq> ?rid" "y \<noteq> x" if "y \<in> set (R1 @ R2)" for y
    using tracked_inj [OF I(2) _ xX, of y] that I(1) by auto
  have "core_inv (?s\<lparr>s_requests := AList.delete (request_id (s_objs ?s x)) (s_requests ?s)\<rparr>) (R1 @ R2) W"
  proof (rule core_inv_forget [where held = "(held_by s)(?rid := [])"])
    show "distinct (x # (R1 @ R2) @ W)" using I(1) by auto
    have "insert x (set ((R1 @ R2) @ W)) = set ((R1 @ x # R2) @ W)" by auto
    then show "tracked ?s (insert x (set ((R1 @ R2) @ W)))" using tracked_set_obj [OF I(2), of ?r' x bm] by simp
    show "bm_inv (s_bm ?s) ((held_by s)(?rid := []))" using bm(2) by simp
    show "((held_by s)(?rid := [])) (request_id (s_objs ?s y)) = cached_prefix_nodes (s_objs ?s y)" if "y \<in> set (R1 @ R2)" for y
      using neq [OF that] held_by_tracked [OF I(2), of y] that by auto
    have "?rid \<notin> (\<lambda>y. request_id (s_objs s y)) ` set (R1 @ R2)" using neq by (metis (no_types, lifting) imageE)
    moreover have "(\<lambda>y. request_id (s_objs s y)) ` set (R1 @ x # R2) = insert ?rid ((\<lambda>y. request_id (s_objs s y)) ` set (R1 @ R2))"
      by auto
    ultimately have "fst ` set (bm_tables bm) = (\<lambda>y. request_id (s_objs s y)) ` set (R1 @ R2)"
      unfolding bm(3) keys_delete I(4) by simp
    also have "\<dots> = (\<lambda>y. request_id (s_objs ?s y)) ` set (R1 @ R2)" by (rule image_cong) auto
    finally show "fst ` set (bm_tables (s_bm ?s)) = (\<lambda>y. request_id (s_objs ?s y)) ` set (R1 @ R2)" by simp
    show "running_ok (s_bm ?s) (s_objs ?s y)" if "y \<in> set (R1 @ R2)" for y
      using neq [OF that] bm(4) I(5) [of y] that by auto
    show "waiting_ok (s_objs ?s y)" if "y \<in> set W" for y using that I(1,6) by auto
  qed
  then have "core_inv ?s' (R1 @ R2) W" by simp
  then show ?thesis by (rule that [OF run]) (use bm(5) in simp_all)
qed

lemma filter_drop_one:
  assumes "x \<notin> set as \<union> set bs"
  shows "filter (\<lambda>y. y \<notin> set (x # xs)) (as @ x # bs) = filter (\<lambda>y. y \<notin> set xs) (as @ bs)"
proof -
  have "filter (\<lambda>y. y \<noteq> x \<and> y \<notin> set xs) zs = filter (\<lambda>y. y \<notin> set xs) zs" if "x \<notin> set zs" for zs
    using that by (intro filter_cong) auto
  then show ?thesis using assms by simp
qed

text \<open>Finishing a list of requests, each of which owns blocks.\<close>

lemma foldE_finish:
  "core_inv s R W \<Longrightarrow> distinct xs \<Longrightarrow> set xs \<subseteq> set R \<Longrightarrow>
    \<exists>s'. foldE finish_one xs s = Inr s' \<and> core_inv s' (filter (\<lambda>y. y \<notin> set xs) R) W
       \<and> (\<forall>y. s_objs s' y = (if y \<in> set xs then (s_objs s y)\<lparr>cached_prefix_nodes := [], block_table := []\<rparr> else s_objs s y))
       \<and> s_running s' = s_running s \<and> s_waiting s' = s_waiting s \<and> s_config s' = s_config s
       \<and> length (bm_free (s_bm s)) \<le> length (bm_free (s_bm s'))"
proof (induction xs arbitrary: s R)
  case Nil
  then show ?case by simp
next
  case (Cons x xs)
  then obtain R1 R2 where R: "R = R1 @ x # R2" by (meson in_set_conv_decomp list.set_intros(1) subsetD)
  have dR: "distinct R" using core_invD(1) [OF Cons.prems(1)] by simp
  obtain s1 where s1: "finish_one x s = Inr s1" "core_inv s1 (R1 @ R2) W"
    "s_objs s1 = (s_objs s)(x := (s_objs s x)\<lparr>cached_prefix_nodes := [], block_table := []\<rparr>)"
    "s_running s1 = s_running s" "s_waiting s1 = s_waiting s" "s_config s1 = s_config s"
    "length (bm_free (s_bm s)) \<le> length (bm_free (s_bm s1))"
    using finish_one_core [OF Cons.prems(1) [unfolded R]] by metis
  have sub: "set xs \<subseteq> set (R1 @ R2)" "distinct xs" "x \<notin> set xs" using Cons.prems R by auto
  from Cons.IH [OF s1(2) sub(2,1)] obtain s' where s': "foldE finish_one xs s1 = Inr s'"
    "core_inv s' (filter (\<lambda>y. y \<notin> set xs) (R1 @ R2)) W"
    "\<forall>y. s_objs s' y = (if y \<in> set xs then (s_objs s1 y)\<lparr>cached_prefix_nodes := [], block_table := []\<rparr> else s_objs s1 y)"
    "s_running s' = s_running s1" "s_waiting s' = s_waiting s1" "s_config s' = s_config s1"
    "length (bm_free (s_bm s1)) \<le> length (bm_free (s_bm s'))" by blast
  have "filter (\<lambda>y. y \<notin> set (x # xs)) R = filter (\<lambda>y. y \<notin> set xs) (R1 @ R2)"
    unfolding R by (rule filter_drop_one) (use dR R in auto)
  moreover have "foldE finish_one (x # xs) s = Inr s'" using s1(1) s'(1) by simp
  moreover have "s_objs s' y = (if y \<in> set (x # xs) then (s_objs s y)\<lparr>cached_prefix_nodes := [], block_table := []\<rparr> else s_objs s y)" for y
    using s'(3) s1(3) sub(3) by auto
  ultimately show ?case using s1(4-7) s'(2,4-7) by (intro exI [of _ s']) auto
qed

lemma free_finished_inv:
  assumes inv: "sched_inv s"
  obtains s' where "free_finished_requests s = Inr (s', filter (\<lambda>x. is_finished (s_objs s x)) (s_running s))" "sched_inv s'"
    "s_running s' = filter (\<lambda>x. \<not> is_finished (s_objs s x)) (s_running s)" "s_waiting s' = s_waiting s"
    "s_config s' = s_config s" "length (bm_free (s_bm s)) \<le> length (bm_free (s_bm s'))"
    "\<forall>y. s_objs s' y = (if y \<in> set (s_running s) \<and> is_finished (s_objs s y)
        then (s_objs s y)\<lparr>cached_prefix_nodes := [], block_table := []\<rparr> else s_objs s y)"
proof -
  let ?fin = "filter (\<lambda>x. is_finished (s_objs s x)) (s_running s)"
  have core: "core_inv s (s_running s) (s_waiting s)" and cfg: "scheduler_config_ok (s_config s)"
    using inv by (auto simp: sched_inv_def)
  let ?run = "filter (\<lambda>x. \<not> is_finished (s_objs s x)) (s_running s)"
  let ?s1 = "s\<lparr>s_running := ?run\<rparr>"
  have core1: "core_inv ?s1 (s_running s) (s_waiting s)" using core by (simp add: core_inv_waiting_irrelevant)
  have "distinct ?fin" "set ?fin \<subseteq> set (s_running s)" using core_invD(1) [OF core] by auto
  from foldE_finish [OF core1 this] obtain s' where s': "foldE finish_one ?fin ?s1 = Inr s'"
    "core_inv s' (filter (\<lambda>y. y \<notin> set ?fin) (s_running s)) (s_waiting s)"
    "\<forall>y. s_objs s' y = (if y \<in> set ?fin then (s_objs ?s1 y)\<lparr>cached_prefix_nodes := [], block_table := []\<rparr> else s_objs ?s1 y)"
    "s_running s' = s_running ?s1" "s_waiting s' = s_waiting ?s1" "s_config s' = s_config ?s1"
    "length (bm_free (s_bm ?s1)) \<le> length (bm_free (s_bm s'))" by blast
  have "filter (\<lambda>y. y \<notin> set ?fin) (s_running s) = ?run" by (auto intro!: filter_cong)
  then have inv': "sched_inv s'" using s'(2,4-6) cfg by (simp add: sched_inv_def)
  show ?thesis
  proof (cases "?fin = []")
    case True
    then have "?run = s_running s" by (simp add: filter_empty_conv)
    then have "?s1 = s" by simp
    then have "s' = s" using s'(1) True by simp
    show ?thesis by (rule that [of s']) (use True \<open>s' = s\<close> inv \<open>?run = s_running s\<close> in
          \<open>auto simp: free_finished_requests_def filter_empty_conv\<close>)
  next
    case False
    then have run: "free_finished_requests s = Inr (s', ?fin)" using s'(1) by (simp add: free_finished_requests_def Let_def)
    show ?thesis by (rule that [OF run inv']) (use s' in auto)
  qed
qed

text \<open>Changes the engine makes to a running request's own fields.\<close>

definition keeps_blocks :: "request \<Rightarrow> request \<Rightarrow> bool" where
  "keeps_blocks r r' \<longleftrightarrow> request_id r' = request_id r \<and> prompt_token_ids r' = prompt_token_ids r
     \<and> block_table r' = block_table r \<and> cached_prefix_nodes r' = cached_prefix_nodes r
     \<and> (status r' = status r \<or> status_finished (status r'))
     \<and> min (num_computed_tokens r) (int (length (prompt_token_ids r))) \<le> num_computed_tokens r'
     \<and> 0 \<le> num_computed_tokens r'"

lemma core_inv_upd:
  assumes inv: "core_inv s R W" and x: "x \<in> set R" and f: "keeps_blocks (s_objs s x) (f (s_objs s x))"
  shows "core_inv (upd_req x f s) R W"
proof -
  note I = core_invD [OF inv]
  have id: "request_id (f (s_objs s x)) = request_id (s_objs s x)" using f by (simp add: keeps_blocks_def)
  have held: "(held_by s)(request_id (s_objs s x) := cached_prefix_nodes (f (s_objs s x))) = held_by s"
    using held_by_tracked [OF I(2), of x] x f by (auto simp: keeps_blocks_def fun_upd_idem_iff)
  show ?thesis unfolding upd_req_set_obj
  proof (rule core_inv_set_obj [OF inv x id])
    show "bm_inv (s_bm s) ((held_by s)(request_id (s_objs s x) := cached_prefix_nodes (f (s_objs s x))))"
      unfolding held by (rule I(3))
    show "running_ok (s_bm s) (f (s_objs s x))"
      using I(5) [OF x] f by (auto simp: running_ok_def keeps_blocks_def is_finished_def min_def split: if_splits)
  qed auto
qed

lemma core_inv_upds:
  assumes "core_inv s R W" "distinct xs" "set xs \<subseteq> set R" "\<And>x. x \<in> set xs \<Longrightarrow> keeps_blocks (s_objs s x) (f x (s_objs s x))"
  shows "core_inv (fold (\<lambda>x. upd_req x (f x)) xs s) R W"
  using assms
proof (induction xs arbitrary: s)
  case (Cons x xs)
  have core: "core_inv (upd_req x (f x) s) R W" using Cons.prems by (intro core_inv_upd) auto
  have "core_inv (fold (\<lambda>x. upd_req x (f x)) xs (upd_req x (f x) s)) R W"
    by (rule Cons.IH [OF core]) (use Cons.prems in \<open>auto simp: upd_req_def\<close>)
  then show ?case by simp
qed simp

lemma fold_upd_req:
  "distinct xs \<Longrightarrow> s_objs (fold (\<lambda>x. upd_req x (f x)) xs s) y = (if y \<in> set xs then f y (s_objs s y) else s_objs s y)"
  "s_running (fold (\<lambda>x. upd_req x (f x)) xs s) = s_running s" "s_waiting (fold (\<lambda>x. upd_req x (f x)) xs s) = s_waiting s"
  "s_config (fold (\<lambda>x. upd_req x (f x)) xs s) = s_config s" "s_bm (fold (\<lambda>x. upd_req x (f x)) xs s) = s_bm s"
  by (induction xs arbitrary: s) (auto simp: upd_req_def)

text \<open>Aborting waiting requests.\<close>

lemma abort_waiting_core:
  assumes inv: "core_inv s R (W1 @ x # W2)"
  obtains s' where "abort_waiting x s = Inr s'" "core_inv s' R (W1 @ W2)"
    "s_objs s' = (s_objs s)(x := (s_objs s x)\<lparr>status := FINISHED_ABORTED\<rparr>)" "s_bm s' = s_bm s"
    "s_running s' = s_running s" "s_waiting s' = s_waiting s" "s_config s' = s_config s"
proof -
  note I = core_invD [OF inv]
  let ?r' = "(s_objs s x)\<lparr>status := FINISHED_ABORTED\<rparr>" and ?rid = "request_id (s_objs s x)"
  let ?s = "set_obj x ?r' (s_bm s) s"
  let ?s' = "?s\<lparr>s_requests := AList.delete (request_id (s_objs ?s x)) (s_requests ?s)\<rparr>"
  have xX: "x \<in> set (R @ W1 @ x # W2)" by simp
  have run: "abort_waiting x s = Inr ?s'"
    using tracked_id [OF I(2) xX] by (simp add: abort_waiting_def upd_req_set_obj Let_def)
  have "core_inv ?s' R (W1 @ W2)"
  proof (rule core_inv_forget [where held = "held_by s"])
    show "distinct (x # R @ W1 @ W2)" using I(1) by auto
    have "insert x (set (R @ W1 @ W2)) = set (R @ W1 @ x # W2)" by auto
    then show "tracked ?s (insert x (set (R @ W1 @ W2)))" using tracked_set_obj [OF I(2), of ?r' x "s_bm s"] by simp
    show "bm_inv (s_bm ?s) (held_by s)" using I(3) by simp
    show "held_by s (request_id (s_objs ?s y)) = cached_prefix_nodes (s_objs ?s y)" if "y \<in> set R" for y
      using that I(1) held_by_tracked [OF I(2), of y] by auto
    have "(\<lambda>y. request_id (s_objs ?s y)) ` set R = (\<lambda>y. request_id (s_objs s y)) ` set R" by (intro image_cong) auto
    then show "fst ` set (bm_tables (s_bm ?s)) = (\<lambda>y. request_id (s_objs ?s y)) ` set R" using I(4) by simp
    show "running_ok (s_bm ?s) (s_objs ?s y)" if "y \<in> set R" for y using that I(1,5) by auto
    show "waiting_ok (s_objs ?s y)" if "y \<in> set (W1 @ W2)" for y using that I(1,6) by auto
  qed
  then show ?thesis by (rule that [OF run]) simp_all
qed

lemma foldE_abort_waiting:
  "core_inv s R W \<Longrightarrow> distinct xs \<Longrightarrow> set xs \<subseteq> set W \<Longrightarrow>
    \<exists>s'. foldE abort_waiting xs s = Inr s' \<and> core_inv s' R (filter (\<lambda>y. y \<notin> set xs) W)
       \<and> (\<forall>y. s_objs s' y = (if y \<in> set xs then (s_objs s y)\<lparr>status := FINISHED_ABORTED\<rparr> else s_objs s y))
       \<and> s_bm s' = s_bm s \<and> s_running s' = s_running s \<and> s_waiting s' = s_waiting s \<and> s_config s' = s_config s"
proof (induction xs arbitrary: s W)
  case Nil
  then show ?case by simp
next
  case (Cons x xs)
  then obtain W1 W2 where W: "W = W1 @ x # W2" by (meson in_set_conv_decomp list.set_intros(1) subsetD)
  have dW: "distinct W" using core_invD(1) [OF Cons.prems(1)] by simp
  obtain s1 where s1: "abort_waiting x s = Inr s1" "core_inv s1 R (W1 @ W2)"
    "s_objs s1 = (s_objs s)(x := (s_objs s x)\<lparr>status := FINISHED_ABORTED\<rparr>)" "s_bm s1 = s_bm s"
    "s_running s1 = s_running s" "s_waiting s1 = s_waiting s" "s_config s1 = s_config s"
    using abort_waiting_core [OF Cons.prems(1) [unfolded W]] by metis
  have sub: "set xs \<subseteq> set (W1 @ W2)" "distinct xs" "x \<notin> set xs" using Cons.prems W by auto
  from Cons.IH [OF s1(2) sub(2,1)] obtain s' where s': "foldE abort_waiting xs s1 = Inr s'"
    "core_inv s' R (filter (\<lambda>y. y \<notin> set xs) (W1 @ W2))"
    "\<forall>y. s_objs s' y = (if y \<in> set xs then (s_objs s1 y)\<lparr>status := FINISHED_ABORTED\<rparr> else s_objs s1 y)"
    "s_bm s' = s_bm s1" "s_running s' = s_running s1" "s_waiting s' = s_waiting s1" "s_config s' = s_config s1" by blast
  have "filter (\<lambda>y. y \<notin> set (x # xs)) W = filter (\<lambda>y. y \<notin> set xs) (W1 @ W2)"
    unfolding W by (rule filter_drop_one) (use dW W in auto)
  moreover have "s_objs s' y = (if y \<in> set (x # xs) then (s_objs s y)\<lparr>status := FINISHED_ABORTED\<rparr> else s_objs s y)" for y
    using s'(3) s1(3) sub(3) by auto
  ultimately show ?case using s1 s' by (intro exI [of _ s']) auto
qed

lemma abort_requests_result:
  assumes inv: "sched_inv s"
  obtains s' finished where "abort_requests ids s = Inr (s', filter (\<lambda>x. request_id (s_objs s x) \<in> ids) (s_waiting s) @ finished)"
    "sched_inv s'" "set finished \<subseteq> set (s_running s)"
    "s_waiting s' = filter (\<lambda>x. request_id (s_objs s x) \<notin> ids) (s_waiting s)"
    "s_running s' = filter (\<lambda>x. request_id (s_objs s x) \<notin> ids \<and> \<not> is_finished (s_objs s x)) (s_running s)"
    "finished = filter (\<lambda>x. request_id (s_objs s x) \<in> ids \<or> is_finished (s_objs s x)) (s_running s)"
    "\<And>x. x \<in> set (s_running s @ s_waiting s) \<Longrightarrow> request_id (s_objs s x) \<in> ids \<Longrightarrow> status (s_objs s' x) = FINISHED_ABORTED"
    "\<And>x. request_id (s_objs s' x) = request_id (s_objs s x)"
    "length (bm_free (s_bm s)) \<le> length (bm_free (s_bm s'))"
    "\<And>x. x \<notin> set (filter (\<lambda>x. request_id (s_objs s x) \<in> ids) (s_waiting s) @ finished) \<Longrightarrow> s_objs s' x = s_objs s x"
    "\<And>x. output_token_ids (s_objs s' x) = output_token_ids (s_objs s x) \<and> prompt_token_ids (s_objs s' x) = prompt_token_ids (s_objs s x)
       \<and> sampling_params (s_objs s' x) = sampling_params (s_objs s x)"
proof -
  let ?hit = "\<lambda>x. request_id (s_objs s x) \<in> ids"
  let ?ab = "filter ?hit (s_waiting s)"
  have core: "core_inv s (s_running s) (s_waiting s)" and cfg: "scheduler_config_ok (s_config s)"
    using inv by (auto simp: sched_inv_def)
  have dist: "distinct (s_running s @ s_waiting s)" by (rule core_invD(1) [OF core])
  have "distinct ?ab" "set ?ab \<subseteq> set (s_waiting s)" using dist by auto
  from foldE_abort_waiting [OF core this] obtain s1 where s1: "foldE abort_waiting ?ab s = Inr s1"
    "core_inv s1 (s_running s) (filter (\<lambda>y. y \<notin> set ?ab) (s_waiting s))"
    "\<forall>y. s_objs s1 y = (if y \<in> set ?ab then (s_objs s y)\<lparr>status := FINISHED_ABORTED\<rparr> else s_objs s y)"
    "s_bm s1 = s_bm s" "s_running s1 = s_running s" "s_waiting s1 = s_waiting s" "s_config s1 = s_config s" by blast
  let ?s2 = "s1\<lparr>s_waiting := filter (\<lambda>x. \<not> ?hit x) (s_waiting s)\<rparr>"
  let ?xs = "filter ?hit (s_running s)"
  let ?s3 = "fold (\<lambda>x. upd_req x (\<lambda>r. r\<lparr>status := FINISHED_ABORTED\<rparr>)) ?xs ?s2"
  have w: "filter (\<lambda>y. y \<notin> set ?ab) (s_waiting s) = filter (\<lambda>x. \<not> ?hit x) (s_waiting s)" by (auto intro!: filter_cong)
  have core2: "core_inv ?s2 (s_running s) (filter (\<lambda>x. \<not> ?hit x) (s_waiting s))"
    using s1(2) unfolding w core_inv_waiting_irrelevant .
  have dxs: "distinct ?xs" "set ?xs \<subseteq> set (s_running s)" using dist by auto
  have core3: "core_inv ?s3 (s_running s) (filter (\<lambda>x. \<not> ?hit x) (s_waiting s))"
  proof (rule core_inv_upds [OF core2 dxs])
    fix x assume "x \<in> set ?xs"
    then have "running_ok (s_bm ?s2) (s_objs ?s2 x)" using core_invD(5) [OF core2] by simp
    then show "keeps_blocks (s_objs ?s2 x) ((s_objs ?s2 x)\<lparr>status := FINISHED_ABORTED\<rparr>)"
      by (simp add: keeps_blocks_def running_ok_def)
  qed
  note f = fold_upd_req [where f = "\<lambda>_ r. r\<lparr>status := FINISHED_ABORTED\<rparr>" and s = ?s2 and xs = ?xs]
  have inv3: "sched_inv ?s3" using core3 cfg s1 by (simp add: sched_inv_def f)
  have o3: "s_objs ?s3 y = (if y \<in> set ?xs \<union> set ?ab then (s_objs s y)\<lparr>status := FINISHED_ABORTED\<rparr> else s_objs s y)" for y
    using f(1) [OF dxs(1), of y] s1(3) by auto
  obtain s4 where s4: "free_finished_requests ?s3 = Inr (s4, filter (\<lambda>x. is_finished (s_objs ?s3 x)) (s_running ?s3))" "sched_inv s4"
    "s_running s4 = filter (\<lambda>x. \<not> is_finished (s_objs ?s3 x)) (s_running ?s3)" "s_waiting s4 = s_waiting ?s3"
    "s_config s4 = s_config ?s3" "length (bm_free (s_bm ?s3)) \<le> length (bm_free (s_bm s4))"
    "\<forall>y. s_objs s4 y = (if y \<in> set (s_running ?s3) \<and> is_finished (s_objs ?s3 y)
        then (s_objs ?s3 y)\<lparr>cached_prefix_nodes := [], block_table := []\<rparr> else s_objs ?s3 y)"
    by (rule free_finished_inv [OF inv3])
  let ?fin = "filter (\<lambda>x. is_finished (s_objs ?s3 x)) (s_running ?s3)"
  have run: "abort_requests ids s = Inr (s4, ?ab @ ?fin)"
    using s1(1,5) s4(1) by (simp add: abort_requests_def Let_def)
  have disj: "set (s_running s) \<inter> set ?ab = {}" using dist by auto
  have fin: "is_finished (s_objs ?s3 x) \<longleftrightarrow> ?hit x \<or> is_finished (s_objs s x)" if "x \<in> set (s_running s)" for x
    using that disj by (auto simp: o3 is_finished_def)
  have r3: "s_running ?s3 = s_running s" "s_waiting ?s3 = filter (\<lambda>x. \<not> ?hit x) (s_waiting s)" using f s1 by simp_all
  show ?thesis
  proof (rule that [OF run s4(2)])
    show "set ?fin \<subseteq> set (s_running s)" using r3 by auto
    show "s_waiting s4 = filter (\<lambda>x. request_id (s_objs s x) \<notin> ids) (s_waiting s)" using s4(4) r3 by simp
    show "s_running s4 = filter (\<lambda>x. request_id (s_objs s x) \<notin> ids \<and> \<not> is_finished (s_objs s x)) (s_running s)"
      unfolding s4(3) r3 by (rule filter_cong) (auto simp: fin)
    show "?fin = filter (\<lambda>x. request_id (s_objs s x) \<in> ids \<or> is_finished (s_objs s x)) (s_running s)"
      unfolding r3 by (rule filter_cong) (auto simp: fin)
    show "status (s_objs s4 x) = FINISHED_ABORTED" if "x \<in> set (s_running s @ s_waiting s)" "request_id (s_objs s x) \<in> ids" for x
      using that by (auto simp: s4(7) [rule_format] o3)
    show "request_id (s_objs s4 x) = request_id (s_objs s x)" for x by (simp add: s4(7) [rule_format] o3)
    show "length (bm_free (s_bm s)) \<le> length (bm_free (s_bm s4))" using s4(6) f s1(4) by simp
    show "s_objs s4 x = s_objs s x" if "x \<notin> set (?ab @ ?fin)" for x
      using that by (auto simp: s4(7) [rule_format] o3 r3 is_finished_def)
    show "output_token_ids (s_objs s4 x) = output_token_ids (s_objs s x) \<and> prompt_token_ids (s_objs s4 x) = prompt_token_ids (s_objs s x)
       \<and> sampling_params (s_objs s4 x) = sampling_params (s_objs s x)" for x by (simp add: s4(7) [rule_format] o3)
  qed
qed

lemma core_inv_swap_queue:
  assumes "core_inv s R W" shows "sched_inv (s\<lparr>s_running := R, s_waiting := W\<rparr>) = scheduler_config_ok (s_config s)"
  using assms by (simp add: sched_inv_def core_inv_waiting_irrelevant)

lemma step_shape_inv:
  assumes "step_shape s s' out" "scheduler_config_ok (s_config s)" shows "sched_inv s'"
  using assms(1)
proof (cases rule: step_shape_cases)
  case (preempting s1 b)
  have "core_inv s1 (s_running s') (s_waiting s1)" "s_config s1 = s_config s"
    using run_stateD(1,4) [OF preempting(1)] by (simp_all add: same_pool_def)
  then have "sched_inv (s1\<lparr>s_running := s_running s'\<rparr>)"
    using assms(2) by (simp add: sched_inv_def core_inv_waiting_irrelevant)
  then show ?thesis using preempting(3) by metis
next
  case (admitting s1 s2 b outr b' ctx')
  have "core_inv s2 (s_running s2) (s_waiting s')" and pools: "same_pool s1 s2" using admitting(3) by (auto simp: wait_state_def)
  moreover have "same_pool s s1" by (rule run_stateD(4) [OF admitting(1)])
  ultimately have "core_inv (s2\<lparr>s_waiting := s_waiting s'\<rparr>) (s_running s2) (s_waiting s')" "s_config s2 = s_config s"
    by (simp_all add: core_inv_waiting_irrelevant same_pool_def)
  then have "sched_inv (s2\<lparr>s_waiting := s_waiting s'\<rparr>)" using assms(2) by (simp add: sched_inv_def)
  then show ?thesis using admitting(4) by metis
qed

lemma insert_core:
  assumes inv: "core_inv s R W" and x: "x \<in> set R" and cf: "clash_free_register (s_bm s) (s_objs s x)"
  obtains s' nodes where "with_bm insert_computed_prefix x s = Inr s'" "core_inv s' R W"
    "s_objs s' = (s_objs s)(x := (s_objs s x)\<lparr>cached_prefix_nodes := nodes\<rparr>)"
    "s_running s' = s_running s" "s_waiting s' = s_waiting s" "same_pool s s'"
    "bm_free (s_bm s') = bm_free (s_bm s)"
proof -
  note I = core_invD [OF inv]
  let ?r = "s_objs s x"
  have ok: "running_ok (s_bm s) ?r" by (rule I(5) [OF x])
  have held: "held_by s (request_id ?r) = cached_prefix_nodes ?r" using held_by_tracked [OF I(2), of x] x by simp
  have tab: "map_of (bm_tables (s_bm s)) (request_id ?r) = Some (block_table ?r)"
    and room: "int (length (prompt_token_ids ?r)) \<le> int (length (block_table ?r)) * bm_block_size (s_bm s)"
    using ok by (auto simp: running_ok_def)
  have short: "bm_cache (s_bm s) \<noteq> None \<Longrightarrow> int (length (cached_prefix_nodes ?r)) * bm_block_size (s_bm s)
       \<le> min (num_computed_tokens ?r) (int (length (prompt_token_ids ?r)))"
    using ok by (simp add: running_ok_def split: if_splits)
  obtain bm nodes where ins: "insert_computed_prefix (s_bm s) ?r = Inr (bm, ?r\<lparr>cached_prefix_nodes := nodes\<rparr>)"
    "bm_inv bm ((held_by s)(request_id ?r := nodes))" "bm_free bm = bm_free (s_bm s)" "bm_tables bm = bm_tables (s_bm s)"
    "bm_block_size bm = bm_block_size (s_bm s)" "bm_num_gpu_blocks bm = bm_num_gpu_blocks (s_bm s)"
    "bm_watermark_blocks bm = bm_watermark_blocks (s_bm s)" "bm_cache bm = None \<longleftrightarrow> bm_cache (s_bm s) = None"
    "bm_cache (s_bm s) \<noteq> None \<Longrightarrow> int (length nodes) * bm_block_size (s_bm s)
       \<le> min (num_computed_tokens ?r) (int (length (prompt_token_ids ?r)))"
    using bm_inv_insert [OF I(3) tab refl held room short cf] by blast
  let ?r' = "?r\<lparr>cached_prefix_nodes := nodes\<rparr>"
  have "core_inv (set_obj x ?r' bm s) R W"
  proof (rule core_inv_set_obj [OF inv x])
    show "bm_inv bm ((held_by s)(request_id ?r := cached_prefix_nodes ?r'))" using ins(2) by simp
    show "fst ` set (bm_tables bm) = fst ` set (bm_tables (s_bm s))" by (simp add: ins(4))
    show "running_ok bm q" if "running_ok (s_bm s) q" for q
      using that unfolding running_ok_def ins(4,5,8) .
    have none: "nodes = []" if n: "bm_cache (s_bm s) = None"
    proof -
      have "insert_computed_prefix (s_bm s) ?r = Inr (s_bm s, ?r)" using n by (simp add: insert_computed_prefix_def)
      then have "?r\<lparr>cached_prefix_nodes := nodes\<rparr> = ?r" using ins(1) by simp
      then have "nodes = cached_prefix_nodes ?r" by (metis request.select_convs(8) request.surjective request.update_convs(8))
      then show ?thesis using ok n by (simp add: running_ok_def)
    qed
    show "running_ok bm ?r'"
    proof (cases "bm_cache (s_bm s) = None")
      case True
      then show ?thesis using ok none ins(4,5,8) by (simp add: running_ok_def is_finished_def)
    next
      case False
      then have nn: "bm_cache bm \<noteq> None" using ins(8) by (simp del: not_None_eq)
      show ?thesis using ok ins(4,5) ins(9) [OF False] unfolding running_ok_def if_not_P [OF nn] if_not_P [OF False]
        by (simp add: is_finished_def)
    qed
  qed simp
  moreover have "with_bm insert_computed_prefix x s = Inr (set_obj x ?r' bm s)" using ins(1) by (simp add: with_bm_Inr)
  ultimately show ?thesis using that ins by (simp add: same_pool_def)
qed

subsection \<open>Runs of the scheduler\<close>

text \<open>
  What the engine does to the scheduler between two steps: requests arrive, a step is
  scheduled, the model's results are written into running requests (their outputs, status,
  drafts and token counter, never their blocks), computed prompt blocks are registered,
  finished requests leave, clients cancel.  The only restriction is on registration: it must not
  meet a block hash that is in use under another parent, which is the one case that breaks the
  index of the cache (\<open>collision_breaks_eviction\<close>); every other collision is allowed.
\<close>

inductive sched_step :: "scheduler \<Rightarrow> scheduler \<Rightarrow> bool" where
  arrive: "x \<notin> set (s_running s @ s_waiting s) \<Longrightarrow> waiting_ok ((s_objs s x)\<lparr>status := WAITING\<rparr>)
     \<Longrightarrow> add_request x s = Inr s' \<Longrightarrow> sched_step s s'"
| decide: "schedule s = Inr (s', out) \<Longrightarrow> sched_step s s'"
| write_back: "x \<in> set (s_running s) \<Longrightarrow> keeps_blocks (s_objs s x) (f (s_objs s x)) \<Longrightarrow> sched_step s (upd_req x f s)"
| register: "x \<in> set (s_running s) \<Longrightarrow> clash_free_register (s_bm s) (s_objs s x)
     \<Longrightarrow> with_bm insert_computed_prefix x s = Inr s' \<Longrightarrow> sched_step s s'"
| finish: "free_finished_requests s = Inr (s', fin) \<Longrightarrow> sched_step s s'"
| cancel: "abort_requests ids s = Inr (s', ab) \<Longrightarrow> sched_step s s'"

inductive_cases sched_step_cases: "sched_step s s'"

lemma sched_step_inv:
  assumes "sched_step s s'" "sched_inv s" shows "sched_inv s'"
  using assms
proof (cases rule: sched_step.cases)
  case arrive
  then show ?thesis using add_request_inv assms(2) by blast
next
  case (decide out)
  show ?thesis
    by (rule step_shape_inv [OF schedule_shape [OF assms(2) decide]]) (use assms(2) in \<open>simp add: sched_inv_def\<close>)
next
  case (write_back x f)
  then show ?thesis using core_inv_upd [of s _ _ x f] assms(2) by (simp add: sched_inv_def upd_req_def)
next
  case (register x)
  have core: "core_inv s (s_running s) (s_waiting s)" using assms(2) by (simp add: sched_inv_def)
  obtain s2 nodes where s2: "with_bm insert_computed_prefix x s = Inr s2" "core_inv s2 (s_running s) (s_waiting s)"
    "s_objs s2 = (s_objs s)(x := (s_objs s x)\<lparr>cached_prefix_nodes := nodes\<rparr>)"
    "s_running s2 = s_running s" "s_waiting s2 = s_waiting s" "same_pool s s2"
    "bm_free (s_bm s2) = bm_free (s_bm s)" by (rule insert_core [OF core register(1,2)])
  then have "s' = s2" using register(3) by simp
  then show ?thesis using s2 assms(2) by (simp add: sched_inv_def same_pool_def)
next
  case finish
  then show ?thesis using free_finished_inv [OF assms(2)] by auto
next
  case (cancel ids ab)
  show ?thesis by (rule abort_requests_result [OF assms(2), of ids]) (use cancel in simp)
qed

definition sched_init :: "scheduler \<Rightarrow> bool" where
  "sched_init s \<longleftrightarrow> (\<exists>H cc sc objs. cache_config_ok cc \<and> scheduler_config_ok sc \<and> s = Scheduler H cc sc objs)"

interpretation sched: invariant_system sched_init sched_step sched_inv
proof
  show "sched_init s \<Longrightarrow> sched_inv s" for s by (auto simp: sched_init_def intro: sched_inv_init)
  show "sched_inv s \<Longrightarrow> sched_step s t \<Longrightarrow> sched_inv t" for s t by (rule sched_step_inv)
qed

end
