(* ===== verification/Scheduler_Properties.thy ===== *)
theory Scheduler_Properties
  imports Scheduler
begin

text \<open>
  What one call of \<open>schedule\<close> and the teardown operations promise, over the invariant and the
  step descriptions of theory \<open>Scheduler\<close>, with a two-block scheduler on which each promise
  is run.
\<close>

subsection \<open>A small scheduler to run\<close>

text \<open>Two blocks of two tokens, two requests of two tokens each: one block apiece, none to spare.\<close>

definition ex_objs :: "rref \<Rightarrow> request" where
  "ex_objs x = (if x = 0 then mk_request ''a'' [1, 2] default_sampling_params
                else mk_request ''b'' [3, 4] default_sampling_params)"

definition ex_cache :: cache_config where
  "ex_cache = \<lparr>block_size = 2, num_gpu_blocks = 2, watermark_blocks = 0, enable_prefix_caching = False, int8_kv = False\<rparr>"

definition ex_limits :: scheduler_config where
  "ex_limits = \<lparr>max_num_seqs = 4, max_num_batched_tokens = 8, max_cache_hit_context_tokens = None\<rparr>"

definition ex_init :: scheduler where "ex_init = Scheduler (\<lambda>_ _. 0) ex_cache ex_limits ex_objs"

definition next_state :: "(scheduler \<times> 'a) or_raise \<Rightarrow> scheduler" where
  "next_state r = (case r of Inl _ \<Rightarrow> ex_init | Inr (s, _) \<Rightarrow> s)"

definition next_output :: "(scheduler \<times> 'a) or_raise \<Rightarrow> 'a option" where
  "next_output r = (case r of Inl _ \<Rightarrow> None | Inr (_, x) \<Rightarrow> Some x)"

definition ex_waiting :: scheduler where
  "ex_waiting = (case bindE (add_request 0 ex_init) (add_request 1) of Inl _ \<Rightarrow> ex_init | Inr s \<Rightarrow> s)"

definition ex_running :: scheduler where "ex_running = next_state (schedule ex_waiting)"

text \<open>Both requests produced a token that no longer fits their block.\<close>

definition ex_full :: scheduler where
  "ex_full = upd_req 1 (\<lambda>r. r\<lparr>output_token_ids := [9]\<rparr>) (upd_req 0 (\<lambda>r. r\<lparr>output_token_ids := [9]\<rparr>) ex_running)"

definition returns :: "'a or_raise \<Rightarrow> bool" where "returns r = (case r of Inl _ \<Rightarrow> False | Inr _ \<Rightarrow> True)"

lemma next_state_eq: "returns r \<Longrightarrow> next_output r = Some out \<Longrightarrow> r = Inr (next_state r, out)"
  by (cases r) (auto simp: returns_def next_state_def next_output_def)

lemma ex_runs:
  "next_output (schedule ex_waiting) = Some \<lparr>scheduled_new = [(0, 2), (1, 2)], scheduled_running = [], preempted = []\<rparr>"
  "returns (schedule ex_waiting)"
  "next_output (schedule ex_full) = Some \<lparr>scheduled_new = [], scheduled_running = [(0, 1)], preempted = [1]\<rparr>"
  "returns (schedule ex_full)"
  by code_simp+

lemma ex_init_ok: "sched_init ex_init"
proof -
  have "cache_config_ok ex_cache" "scheduler_config_ok ex_limits" "\<not> enable_prefix_caching ex_cache"
    by (simp_all add: ex_cache_def ex_limits_def cache_config_ok_def scheduler_config_ok_def)
  then show ?thesis unfolding sched_init_def ex_init_def by blast
qed

lemma ex_waiting_reached: "sched_step\<^sup>*\<^sup>* ex_init ex_waiting"
proof -
  have q: "s_running ex_init = []" "s_waiting ex_init = []" "s_requests ex_init = []" "s_objs ex_init = ex_objs"
    by (simp_all add: ex_init_def Scheduler_def)
  obtain s1 where s1: "add_request 0 ex_init = Inr s1" by (simp add: add_request_def q Let_def)
  have step1: "sched_step ex_init s1"
    by (rule sched_step.arrive [OF _ _ s1]) (simp_all add: q waiting_ok_def ex_objs_def mk_request_def)
  have q1: "s_running s1 = []" "s_waiting s1 = [0]" "s_requests s1 = [(''a'', 0)]" "s_objs s1 (Suc 0) = ex_objs (Suc 0)"
    using s1 by (auto simp: add_request_def q upd_req_def ex_objs_def mk_request_def Let_def)
  have "\<exists>s2. add_request 1 s1 = Inr s2" by (simp add: add_request_def q1 ex_objs_def mk_request_def Let_def)
  then obtain s2 where s2: "add_request 1 s1 = Inr s2" by blast
  have "sched_step s1 s2"
    by (rule sched_step.arrive [OF _ _ s2]) (simp_all add: q1 waiting_ok_def ex_objs_def mk_request_def)
  moreover have "ex_waiting = s2" using s1 s2 by (simp add: ex_waiting_def)
  ultimately show ?thesis using step1 by (metis r_into_rtranclp rtranclp_trans)
qed

lemma ex_running_reached: "sched_step\<^sup>*\<^sup>* ex_init ex_running"
proof -
  have "schedule ex_waiting = Inr (ex_running, \<lparr>scheduled_new = [(0, 2), (1, 2)], scheduled_running = [], preempted = []\<rparr>)"
    unfolding ex_running_def by (rule next_state_eq [OF ex_runs(2,1)])
  then have "sched_step ex_waiting ex_running" by (rule sched_step.decide)
  with ex_waiting_reached show ?thesis by (rule rtranclp.rtrancl_into_rtrancl)
qed

lemma ex_running_queue: "s_running ex_running = [0, 1]" "s_running ex_full = [0, 1]" "s_waiting ex_full = []"
  "bm_cache (s_bm ex_full) = None" "bm_cache (s_bm ex_waiting) = None"
  by code_simp+

lemma ex_full_reached: "sched_step\<^sup>*\<^sup>* ex_init ex_full"
proof -
  let ?f = "\<lambda>r. r\<lparr>output_token_ids := [9]\<rparr>"
  have keeps: "keeps_blocks r (?f r)" if "running_ok bm r" for r bm
    using that by (simp add: keeps_blocks_def running_ok_def)
  have "sched_inv ex_running" by (rule sched.reachable_inv [OF ex_init_ok ex_running_reached])
  then have core: "core_inv ex_running (s_running ex_running) (s_waiting ex_running)" by (simp add: sched_inv_def)
  have k: "keeps_blocks (s_objs ex_running x) (?f (s_objs ex_running x))" if "x \<in> {0, 1}" for x
    using keeps core_invD(5) [OF core] that by (auto simp: ex_running_queue)
  let ?s1 = "upd_req 0 ?f ex_running"
  have "sched_step ex_running ?s1" by (rule sched_step.write_back) (use k in \<open>auto simp: ex_running_queue\<close>)
  moreover have r1: "s_running ?s1 = [0, 1]" "s_objs ?s1 (Suc 0) = s_objs ex_running (Suc 0)"
    by (simp_all add: upd_req_def ex_running_queue)
  have "sched_step ?s1 (upd_req 1 ?f ?s1)" by (rule sched_step.write_back) (use k r1 in auto)
  ultimately show ?thesis unfolding ex_full_def
    using ex_running_reached by (meson rtranclp.rtrancl_into_rtrancl)
qed

lemma ex_full_inv: "sched_inv ex_full"
  by (rule sched.reachable_inv [OF ex_init_ok ex_full_reached])

lemma ex_full_schedule: "schedule ex_full = Inr (next_state (schedule ex_full),
    \<lparr>scheduled_new = [], scheduled_running = [(0, 1)], preempted = [1]\<rparr>)"
  by (rule next_state_eq [OF ex_runs(4,3)])

subsection \<open>The properties of a step\<close>

lemma holders_card:
  assumes core: "core_inv s R W"
  shows "holders (bm_tables (s_bm s)) (held_by s) a = card {x \<in> set R. a \<in> set (cached_prefix_nodes (s_objs s x))}"
proof -
  note I = core_invD [OF core]
  let ?id = "\<lambda>x. request_id (s_objs s x)"
  have d: "distinct (map fst (bm_tables (s_bm s)))" using I(3) by (simp add: bm_inv_def)
  have inj: "inj_on ?id {x \<in> set R. a \<in> set (cached_prefix_nodes (s_objs s x))}"
    using tracked_inj [OF I(2)] by (auto simp: inj_on_def)
  have held: "held_by s (?id x) = cached_prefix_nodes (s_objs s x)" if "x \<in> set R" for x
    using held_by_tracked [OF I(2)] that by simp
  have "{rid \<in> fst ` set (bm_tables (s_bm s)). a \<in> set (held_by s rid)} = ?id ` {x \<in> set R. a \<in> set (cached_prefix_nodes (s_objs s x))}"
    unfolding I(4) using held by auto
  then have "card {rid \<in> fst ` set (bm_tables (s_bm s)). a \<in> set (held_by s rid)} = card {x \<in> set R. a \<in> set (cached_prefix_nodes (s_objs s x))}"
    by (simp add: card_image [OF inj])
  moreover have "holders (bm_tables (s_bm s)) (held_by s) a = card {rid \<in> fst ` set (bm_tables (s_bm s)). a \<in> set (held_by s rid)}"
  proof -
    let ?l = "filter (\<lambda>rid. a \<in> set (held_by s rid)) (map fst (bm_tables (s_bm s)))"
    have "length ?l = card (set ?l)" by (rule distinct_card [symmetric]) (use d in simp)
    moreover have "set ?l = {rid \<in> fst ` set (bm_tables (s_bm s)). a \<in> set (held_by s rid)}" by auto
    ultimately show ?thesis unfolding holders_def by metis
  qed
  ultimately show ?thesis by simp
qed

definition blocks_conserved :: "scheduler \<Rightarrow> bool" where
  "blocks_conserved s \<longleftrightarrow>
     mset (bm_free (s_bm s)) + cached_blocks (s_bm s) + private_blocks (s_bm s) (held_by s)
       = mset [0..<nat (bm_num_gpu_blocks (s_bm s))]
     \<and> (\<forall>t a. bm_cache (s_bm s) = Some t \<and> live t a \<longrightarrow> n_ref_count (t_store t a)
            = int (card {x \<in> set (s_running s). a \<in> set (cached_prefix_nodes (s_objs s x))}))"

lemma sched_inv_conserved: "sched_inv s \<Longrightarrow> blocks_conserved s"
proof -
  assume inv: "sched_inv s"
  then have core: "core_inv s (s_running s) (s_waiting s)" by (simp add: sched_inv_def)
  note bm = core_invD(3) [OF core]
  have "n_ref_count (t_store t a) = int (holders (bm_tables (s_bm s)) (held_by s) a)"
    if "bm_cache (s_bm s) = Some t" "live t a" for t a
    using bm that by (simp add: bm_inv_def cache_ok_def)
  then show ?thesis using bm holders_card [OF core] by (auto simp: blocks_conserved_def bm_inv_def blocks_accounted_def)
qed

text \<open>C3: with any block hash function, with and without prefix caching, every state that a run of
the scheduler reaches accounts for each physical block exactly once: free, cached or owned by one
request's table, and the cache's reference count of a node is the number of running requests that
hold it.  Arrival, scheduling with its preemptions and evictions, the engine's writes, prefix
registration, finishing and cancelling, in any order, all keep this, as long as no registration
meets a block hash that is in use under another parent (a condition of \<open>sched_step\<close> on that one
step; collisions within a level are allowed).\<close>

theorem reachable_blocks_conserved:
  assumes "sched_init s0" and "sched_step\<^sup>*\<^sup>* s0 s"
  shows "blocks_conserved s"
  using sched_inv_conserved assms by (rule sched.reachable_safe)

text \<open>An instance with caching on: a request computes and registers a block, and a second one
that starts with the same tokens is admitted on it, so the block is cached and held twice.\<close>

definition sh_hash :: hash_function where
  "sh_hash p b = (case p of None \<Rightarrow> 0 | Some h \<Rightarrow> 1000 * (h + 1)) + sum_list b"

definition sh_objs :: "rref \<Rightarrow> request" where
  "sh_objs x = (if x = 0 then mk_request ''a'' [1, 2] default_sampling_params
                else mk_request ''b'' [1, 2, 3] default_sampling_params)"

definition sh_init :: scheduler where
  "sh_init = Scheduler sh_hash (ex_cache\<lparr>num_gpu_blocks := 4, enable_prefix_caching := True\<rparr>) ex_limits sh_objs"

definition the_state :: "scheduler or_raise \<Rightarrow> scheduler" where
  "the_state r = (case r of Inl _ \<Rightarrow> sh_init | Inr s \<Rightarrow> s)"

definition sh_first :: scheduler where "sh_first = the_state (add_request 0 sh_init)"
definition sh_running :: scheduler where "sh_running = next_state (schedule sh_first)"
definition sh_registered :: scheduler where "sh_registered = the_state (with_bm insert_computed_prefix 0 sh_running)"
definition sh_second :: scheduler where "sh_second = the_state (add_request 1 sh_registered)"
definition sh_shared :: scheduler where "sh_shared = next_state (schedule sh_second)"

lemma the_state_eq: "returns r \<Longrightarrow> r = Inr (the_state r)"
  by (cases r) (auto simp: returns_def the_state_def)

lemma next_state_returns: "returns r \<Longrightarrow> \<exists>out. r = Inr (next_state r, out)"
  by (cases r) (auto simp: returns_def next_state_def)

lemma sh_runs:
  "returns (add_request 0 sh_init)" "waiting_ok ((s_objs sh_init 0)\<lparr>status := WAITING\<rparr>)"
  "returns (schedule sh_first)"
  "s_running sh_running = [0]" "clash_free_register (s_bm sh_running) (s_objs sh_running 0)"
  "returns (with_bm insert_computed_prefix 0 sh_running)"
  "s_running sh_registered @ s_waiting sh_registered = [0]" "waiting_ok ((s_objs sh_registered 1)\<lparr>status := WAITING\<rparr>)"
  "returns (add_request 1 sh_registered)" "returns (schedule sh_second)"
  "s_running sh_shared = [0, 1]" "map (\<lambda>x. cached_prefix_nodes (s_objs sh_shared x)) [0, 1] = [[0], [0]]"
  by code_simp+

lemma sh_init_ok: "sched_init sh_init"
  unfolding sched_init_def sh_init_def
  by (intro exI conjI) (auto simp: ex_cache_def ex_limits_def cache_config_ok_def scheduler_config_ok_def)

lemma sh_reached: "sched_step\<^sup>*\<^sup>* sh_init sh_shared"
proof -
  have 1: "sched_step sh_init sh_first"
    unfolding sh_first_def using sh_runs(2)
    by (intro sched_step.arrive [where x = 0] the_state_eq sh_runs) (simp_all add: sh_init_def Scheduler_def)
  have 2: "sched_step sh_first sh_running"
    using next_state_returns [OF sh_runs(3)] unfolding sh_running_def by (blast intro: sched_step.decide)
  have 3: "sched_step sh_running sh_registered"
    unfolding sh_registered_def by (intro sched_step.register [where x = 0] the_state_eq sh_runs) (simp add: sh_runs)
  have 4: "sched_step sh_registered sh_second"
    unfolding sh_second_def using sh_runs(8) by (intro sched_step.arrive [where x = 1] the_state_eq sh_runs) (simp_all only: sh_runs, simp_all)
  have 5: "sched_step sh_second sh_shared"
    using next_state_returns [OF sh_runs(10)] unfolding sh_shared_def by (blast intro: sched_step.decide)
  show ?thesis using 1 2 3 4 5 by (meson rtranclp.rtrancl_into_rtrancl rtranclp.rtrancl_refl)
qed

theorem reachable_blocks_conserved_witness:
  "blocks_conserved sh_shared \<and> map (\<lambda>x. cached_prefix_nodes (s_objs sh_shared x)) (s_running sh_shared) = [[0], [0]]"
  using reachable_blocks_conserved [OF sh_init_ok sh_reached] sh_runs(11,12) by simp

text \<open>C7: no run raises: in a state the invariant holds of, \<open>schedule\<close> returns, and the only
exception it can raise is \<open>OutOfMemoryError\<close>, with prefix caching on.\<close>

theorem schedule_total:
  assumes "sched_inv s" and "\<not> (schedule s = Inl OutOfMemoryError \<and> bm_cache (s_bm s) \<noteq> None)"
  shows "\<exists>s' out. schedule s = Inr (s', out) \<and> sched_inv s'"
  using assms(1)
proof (cases rule: schedule_cases)
  case raises
  then show ?thesis using assms(2) by blast
next
  case (returns s' out)
  have "sched_inv s'" by (rule step_shape_inv [OF returns(2)]) (use assms(1) in \<open>simp add: sched_inv_def\<close>)
  then show ?thesis using returns(1) by blast
qed

theorem schedule_total_witness: "\<exists>s' out. schedule ex_full = Inr (s', out) \<and> sched_inv s'"
  by (rule schedule_total [OF ex_full_inv]) (simp add: ex_running_queue)

text \<open>C11: the priority order of the requests survives a step: the running list followed by the
waiting queue is, as one list, what it was, so preemption returns a victim to exactly its place
and admission takes the head of the queue, never a request behind it.\<close>

theorem schedule_keeps_priority_order:
  assumes "sched_inv s" and "schedule s = Inr (s', out)"
  shows "s_running s' @ s_waiting s' = s_running s @ s_waiting s"
  using schedule_shape [OF assms]
proof (cases rule: step_shape_cases)
  case (preempting s1 b)
  have "s_waiting s' = s_waiting s1" by (subst preempting(3)) simp
  then show ?thesis using run_stateD(2,3) [OF preempting(1)] by simp
next
  case (admitting s1 s2 b outr b' ctx')
  have "s_running s' = s_running s2" by (subst admitting(4)) simp
  then show ?thesis using run_stateD(2,3) [OF admitting(1)] admitting(2,3) by (auto simp: wait_state_def)
qed

theorem schedule_keeps_priority_order_witness:
  "s_running (next_state (schedule ex_full)) @ s_waiting (next_state (schedule ex_full)) = [0, 1]"
  using schedule_keeps_priority_order [OF ex_full_inv ex_full_schedule] by (simp add: ex_running_queue)

text \<open>C14: the tokens a step schedules fit the budget \<open>max_num_batched_tokens\<close>, overshooting it
by at most the longest draft (one speculative verification is never split), and not at all in a
step that admits a request.\<close>

theorem schedule_token_budget:
  assumes "sched_inv s" and "schedule s = Inr (s', out)"
    and "0 \<le> K" and "\<forall>x \<in> set (s_running s). int (length (draft_token_ids (s_objs s x))) \<le> K"
  shows "total_num_scheduled_tokens out \<le> max_num_batched_tokens (s_config s) + (if scheduled_new out = [] then K else 0)"
  using schedule_shape [OF assms(1,2)]
proof (cases rule: step_shape_cases)
  case (preempting s1 b)
  show ?thesis using run_stateD(5,6) [OF preempting(1)] run_stateD(10) [OF preempting(1) assms(3,4)]
    by (simp add: total_num_scheduled_tokens_def)
next
  case (admitting s1 s2 b outr b' ctx')
  note r = run_stateD [OF admitting(1)]
  have w: "b' + sum_list (map snd (scheduled_new out)) = b" "scheduled_running out = scheduled_running outr"
    "scheduled_new out \<noteq> [] \<Longrightarrow> 0 \<le> b'" using admitting(3) by (auto simp: wait_state_def)
  show ?thesis using r(6) r(10) [OF assms(3,4)] w by (cases "scheduled_new out = []") (simp_all add: total_num_scheduled_tokens_def)
qed

theorem schedule_token_budget_witness:
  "total_num_scheduled_tokens \<lparr>scheduled_new = [], scheduled_running = [(0, 1)], preempted = [1]\<rparr> \<le> 8"
proof -
  have "max_num_batched_tokens (s_config ex_full) = 8" by code_simp
  moreover have "\<forall>x \<in> set (s_running ex_full). int (length (draft_token_ids (s_objs ex_full x))) \<le> 0" by code_simp
  ultimately show ?thesis using schedule_token_budget [OF ex_full_inv ex_full_schedule, of 0] by simp
qed

text \<open>C15: what preemption does: the victims are the tail of the running list and go to the front of
the waiting queue; each loses its blocks and cache references and restarts from token 0, while
everything else of it stays as it was, its outputs and also its unverified drafts; the step admits
nobody, and no request it scheduled is a victim.\<close>

theorem schedule_preemption:
  assumes "sched_inv s" and "schedule s = Inr (s', out)" and "preempted out \<noteq> []"
  shows "scheduled_new out = [] \<and> s_running s = s_running s' @ rev (preempted out)
    \<and> s_waiting s' = rev (preempted out) @ s_waiting s
    \<and> (\<forall>x \<in> set (preempted out). s_objs s' x = (s_objs s x)\<lparr>cached_prefix_nodes := [], block_table := [],
             num_computed_tokens := 0, status := PREEMPTED\<rparr>
          \<and> map_of (bm_tables (s_bm s')) (request_id (s_objs s x)) = None)
    \<and> fst ` set (scheduled_running out) \<inter> set (preempted out) = {}"
  using schedule_shape [OF assms(1,2)]
proof (cases rule: step_shape_cases)
  case (preempting s1 b)
  note r = run_stateD [OF preempting(1)] and d = run_state_distinct [OF preempting(1)]
  have eqs: "s_waiting s' = s_waiting s1" "s_objs s' = s_objs s1" "s_bm s' = s_bm s1" by (subst preempting(3), simp)+
  have inv: "sched_inv s'" by (rule step_shape_inv [OF schedule_shape [OF assms(1,2)]]) (use assms(1) in \<open>simp add: sched_inv_def\<close>)
  then have core: "core_inv s' (s_running s') (s_waiting s')" by (simp add: sched_inv_def)
  have "s_objs s' x = reset_request (s_objs s x) \<and> map_of (bm_tables (s_bm s')) (request_id (s_objs s x)) = None"
    if "x \<in> set (preempted out)" for x
  proof -
    have nx: "x \<notin> fst ` set (scheduled_running out)" using d that by auto
    then have o: "s_objs s' x = reset_request (s_objs s x)" using r(9) [OF nx] that eqs by simp
    have "x \<in> set (s_waiting s')" "x \<notin> set (s_running s')" using that r(2) eqs d(1) by auto
    then have "request_id (s_objs s' x) \<notin> fst ` set (bm_tables (s_bm s'))"
      unfolding core_invD(4) [OF core] using tracked_inj [OF core_invD(2) [OF core], of x] by auto
    then show ?thesis using o by (simp add: reset_request_def map_of_eq_None_iff)
  qed
  moreover have "fst ` set (scheduled_running out) \<inter> set (preempted out) = {}" using d by auto
  ultimately show ?thesis using r(2,3,5) eqs unfolding reset_request_def by simp
next
  case (admitting s1 s2 b outr b' ctx')
  then show ?thesis using assms(3) by (simp add: wait_state_def)
qed

theorem schedule_preemption_witness:
  "block_table (s_objs (next_state (schedule ex_full)) 1) = [] \<and> output_token_ids (s_objs (next_state (schedule ex_full)) 1) = [9]"
proof -
  have "output_token_ids (s_objs ex_full 1) = [9]" by (simp add: ex_full_def upd_req_def)
  then show ?thesis using schedule_preemption [OF ex_full_inv ex_full_schedule] by simp
qed

text \<open>A step never runs more requests than \<open>max_num_seqs\<close>, unless more were running
already.\<close>

theorem schedule_seq_limit:
  assumes "sched_inv s" and "schedule s = Inr (s', out)"
  shows "int (length (s_running s')) \<le> max (int (length (s_running s))) (max_num_seqs (s_config s))"
  using schedule_shape [OF assms]
proof (cases rule: step_shape_cases)
  case (preempting s1 b)
  then show ?thesis using run_stateD(3) [OF preempting(1)] by (metis append_Nil length_append max.coboundedI1 of_nat_le_iff le_add1)
next
  case (admitting s1 s2 b outr b' ctx')
  have eq: "s_running s' = s_running s2" by (subst admitting(4)) simp
  have len: "length (s_running s1) = length (s_running s)" using run_stateD(3) [OF admitting(1)] admitting(2) by simp
  have cfg: "s_config s1 = s_config s" using run_stateD(4) [OF admitting(1)] by (simp add: same_pool_def)
  show ?thesis
  proof (cases "scheduled_new out = []")
    case True
    then show ?thesis using admitting(3) eq len by (simp add: wait_state_def)
  next
    case False
    have "int (length (s_running s2)) \<le> max_num_seqs (s_config s1)"
      using admitting(3) False unfolding wait_state_def by blast
    then show ?thesis unfolding eq cfg by simp
  qed
qed

theorem schedule_seq_limit_witness:
  "int (length (s_running (next_state (schedule ex_full)))) \<le> 4"
proof -
  have "max_num_seqs (s_config ex_full) = 4" by code_simp
  then show ?thesis using schedule_seq_limit [OF ex_full_inv ex_full_schedule] by (simp add: ex_running_queue)
qed

definition has_slots :: "block_manager \<Rightarrow> request \<Rightarrow> bool" where
  "has_slots bm r \<longleftrightarrow> num_computed_tokens r \<le> int (length (block_table r)) * bm_block_size bm"

lemma advanced_slots:
  assumes "0 < bs" "get_len r0 \<le> int (length (block_table r0)) * bs + 1" "advanced bs r0 c r"
  shows "num_computed_tokens r \<le> int (length (block_table r)) * bs"
proof (cases "draft_token_ids r0 = []")
  case False
  then show ?thesis using assms(3) by (auto simp: advanced_def)
next
  case True
  have c: "num_computed_tokens r \<le> get_len r0" using assms(3) True by (auto simp: advanced_def num_new_tokens_def get_num_new_tokens_def)
  have tb: "int (length (block_table r)) = int (length (block_table r0))
      + (if int (length (block_table r0)) * bs < get_len r0 then 1 else 0)" using assms(3) True by (auto simp: advanced_def)
  have "get_len r0 \<le> int (length (block_table r)) * bs"
    unfolding tb using assms(1,2) by (simp add: algebra_simps)
  with c show ?thesis by linarith
qed

text \<open>C35: a step reserves memory before it schedules compute: if no running request is more than one
token past its table, every request the step gives tokens to has, after the step, blocks for every
token counted as computed.\<close>

theorem schedule_reserves_slots:
  assumes "sched_inv s" and "schedule s = Inr (s', out)"
    and "\<forall>x \<in> set (s_running s). get_len (s_objs s x) \<le> int (length (block_table (s_objs s x))) * bm_block_size (s_bm s) + 1"
  shows "\<forall>(x, c) \<in> set (scheduled_new out @ scheduled_running out). has_slots (s_bm s') (s_objs s' x)"
proof -
  have core: "core_inv s (s_running s) (s_waiting s)" using assms(1) by (simp add: sched_inv_def)
  have bs: "0 < bm_block_size (s_bm s)" using core_invD(3) [OF core] by (simp add: bm_inv_def)
  have adv: "num_computed_tokens r \<le> int (length (block_table r)) * bm_block_size (s_bm s)"
    if "advanced (bm_block_size (s_bm s)) (s_objs s x) c r" "x \<in> set (s_running s)" for x c r
    by (rule advanced_slots [OF bs _ that(1)]) (use assms(3) that(2) in blast)
  show ?thesis
    using schedule_shape [OF assms(1,2)]
  proof (cases rule: step_shape_cases)
    case (preempting s1 b)
    note r = run_stateD [OF preempting(1)] and d = run_state_distinct [OF preempting(1)]
    have eqs: "s_objs s' = s_objs s1" "bm_block_size (s_bm s') = bm_block_size (s_bm s)"
      using r(4) by (subst preempting(3), simp add: same_pool_def)+
    have "x \<in> set (s_running s)" if "(x, c) \<in> set (scheduled_running out)" for x c
    proof -
      have "x \<in> set (s_running s')" using d(2) that by force
      then show ?thesis using r(3) by (metis Un_iff set_append)
    qed
    then show ?thesis using r(5,8) adv eqs by (fastforce simp: has_slots_def)
  next
    case (admitting s1 s2 b outr b' ctx')
    note r = run_stateD [OF admitting(1)] and d = run_state_distinct [OF admitting(1)]
    have p: "bm_block_size (s_bm s1) = bm_block_size (s_bm s)" "bm_block_size (s_bm s2) = bm_block_size (s_bm s)"
      using r(4) admitting(3) by (simp_all add: same_pool_def wait_state_def)
    have eqs: "s_objs s' = s_objs s2" "bm_block_size (s_bm s') = bm_block_size (s_bm s)"
      using p by (subst admitting(4), simp)+
    have w: "scheduled_running out = scheduled_running outr"
      "\<And>x c. (x, c) \<in> set (scheduled_new out) \<Longrightarrow> started (bm_block_size (s_bm s1)) (s_objs s1 x) c (s_objs s2 x)"
      "\<And>x. x \<notin> fst ` set (scheduled_new out) \<Longrightarrow> s_objs s2 x = s_objs s1 x"
      "map fst (scheduled_new out) @ s_waiting s' = s_waiting s1"
      using admitting(3) by (auto simp: wait_state_def)
    have new: "has_slots (s_bm s') (s_objs s' x)" if "(x, c) \<in> set (scheduled_new out)" for x c
      using w(2) [OF that] eqs p by (auto simp: started_def has_slots_def)
    have old: "has_slots (s_bm s') (s_objs s' x)" if "(x, c) \<in> set (scheduled_running outr)" for x c
    proof -
      have xr: "x \<in> set (s_running s1)" using d(2) that by force
      then have "x \<in> set (s_running s)" using r(3) by (metis Un_iff set_append)
      moreover have "x \<notin> fst ` set (scheduled_new out)"
      proof
        assume "x \<in> fst ` set (scheduled_new out)"
        then have "x \<in> set (s_waiting s1)" using w(4) by (metis Un_iff set_append set_map)
        then show False using d(1) r(2) admitting(2) xr by auto
      qed
      ultimately show ?thesis using adv [OF r(8) [OF that]] w(3) eqs by (simp add: has_slots_def)
    qed
    show ?thesis using new old w(1) by auto
  qed
qed

theorem schedule_reserves_slots_witness:
  "has_slots (s_bm (next_state (schedule ex_full))) (s_objs (next_state (schedule ex_full)) 0)"
proof -
  have "\<forall>x \<in> set (s_running ex_full). get_len (s_objs ex_full x)
     \<le> int (length (block_table (s_objs ex_full x))) * bm_block_size (s_bm ex_full) + 1" by code_simp
  from schedule_reserves_slots [OF ex_full_inv ex_full_schedule this] show ?thesis by simp
qed

subsection \<open>Progress\<close>

lemma single_table:
  assumes "distinct (map fst d)" "fst ` set d = {k}" obtains v where "d = [(k, v)]"
proof -
  have "length d = card (fst ` set d)" using assms(1) by (metis distinct_card length_map set_map)
  then have "length d = 1" using assms(2) by simp
  then obtain p where "d = [p]" by (cases d) auto
  then show ?thesis using assms(2) that by (cases p) auto
qed

lemma lone_request_blocks:
  assumes core: "core_inv s [x] W" and none: "bm_cache (s_bm s) = None"
  shows "length (bm_free (s_bm s)) + length (block_table (s_objs s x)) = nat (bm_num_gpu_blocks (s_bm s))"
proof -
  note I = core_invD [OF core]
  have d: "distinct (map fst (bm_tables (s_bm s)))" and acc: "blocks_accounted (s_bm s) (held_by s)"
    using I(3) by (auto simp: bm_inv_def)
  obtain v where v: "bm_tables (s_bm s) = [(request_id (s_objs s x), v)]" using single_table [OF d, of "request_id (s_objs s x)"] I(4) by auto
  then have "v = block_table (s_objs s x)" using I(5) by (simp add: running_ok_def)
  moreover have "size (mset (bm_free (s_bm s)) + cached_blocks (s_bm s) + private_blocks (s_bm s) (held_by s)) = size (mset [0..<nat (bm_num_gpu_blocks (s_bm s))])"
    using acc unfolding blocks_accounted_def by (rule arg_cong)
  ultimately show ?thesis using none v
    by (simp add: cached_blocks_def private_blocks_def private_part_def cache_owned_def)
qed

lemma no_request_blocks:
  assumes core: "core_inv s [] W" and none: "bm_cache (s_bm s) = None"
  shows "length (bm_free (s_bm s)) = nat (bm_num_gpu_blocks (s_bm s))"
proof -
  note I = core_invD [OF core]
  have acc: "blocks_accounted (s_bm s) (held_by s)" using I(3) by (auto simp: bm_inv_def)
  have "bm_tables (s_bm s) = []" using I(4) by simp
  moreover have "size (mset (bm_free (s_bm s)) + cached_blocks (s_bm s) + private_blocks (s_bm s) (held_by s)) = size (mset [0..<nat (bm_num_gpu_blocks (s_bm s))])"
    using acc unfolding blocks_accounted_def by (rule arg_cong)
  ultimately show ?thesis using none by (simp add: cached_blocks_def private_blocks_def)
qed

lemma lone_request_fits:
  assumes core: "core_inv s [x] W" and none: "bm_cache (s_bm s) = None"
    and len: "get_len (s_objs s x) \<le> bm_num_gpu_blocks (s_bm s) * bm_block_size (s_bm s)"
    and tgt: "sp \<Longrightarrow> target \<le> bm_num_gpu_blocks (s_bm s) * bm_block_size (s_bm s)"
  shows "run_fits sp target (s_bm s) (s_objs s x)"
proof -
  note I = core_invD [OF core] and L = lone_request_blocks [OF core none]
  let ?r = "s_objs s x" and ?bs = "bm_block_size (s_bm s)" and ?N = "bm_num_gpu_blocks (s_bm s)"
  have bs: "0 < ?bs" using I(3) by (simp add: bm_inv_def)
  have tab: "get_block_table (s_bm s) (request_id ?r) = block_table ?r"
    using I(5) by (simp add: running_ok_def get_block_table_def)
  show ?thesis
  proof (cases sp)
    case True
    have "ceil_div target ?bs \<le> ?N" using ceil_div_le_iff [OF bs] tgt [OF True] by blast
    then show ?thesis using True L tab by (simp add: run_fits_def can_ensure_capacity_def num_free_blocks_def)
  next
    case False
    have "1 \<le> length (bm_free (s_bm s))" if "int (length (block_table ?r)) * ?bs < get_len ?r"
    proof -
      have "int (length (block_table ?r)) * ?bs < ?N * ?bs" using that len by linarith
      then have "int (length (block_table ?r)) < ?N" using bs by (simp add: mult_less_cancel_right)
      then show ?thesis using L by linarith
    qed
    then show ?thesis using False tab
      by (auto simp: run_fits_def can_append_slot_def needs_new_block_def num_free_blocks_def)
  qed
qed

lemma run_phase_head:
  assumes inv: "sched_inv s" and none: "bm_cache (s_bm s) = None" and hd: "s_running s = x # rest"
    and pos: "0 < num_new_tokens (s_objs s x)"
    and len: "get_len (s_objs s x) \<le> bm_num_gpu_blocks (s_bm s) * bm_block_size (s_bm s)"
    and tgt: "num_computed_tokens (s_objs s x) + num_new_tokens (s_objs s x) \<le> bm_num_gpu_blocks (s_bm s) * bm_block_size (s_bm s)"
    and run: "run_loop (s_running s) [] (max_num_batched_tokens (s_config s)) s empty_output = Inr (s1, out, b)"
  shows "x \<in> fst ` set (scheduled_running out)"
proof -
  let ?B = "max_num_batched_tokens (s_config s)"
  have B: "0 < ?B" using inv by (simp add: sched_inv_def scheduler_config_ok_def)
  let ?Q = "\<lambda>p sc b s' out. run_state s p sc b s' out
     \<and> (x \<in> fst ` set (scheduled_running out) \<or> sc = [] \<and> b = ?B \<and> (\<exists>q. p = x # q))"
  have same: "s_objs s' x = s_objs s x" if "run_state s (x # q) sc b s' out" for s' q sc b out
    using run_state_pending [of s "[]" x q] that by simp
  have "\<exists>s1 out b sc. run_loop (s_running s) [] ?B s empty_output = Inr (s1\<lparr>s_running := sc\<rparr>, out, b) \<and> ?Q [] sc b s1 out"
  proof (rule run_loop_rule [where Q = ?Q])
    show "?Q (s_running s) [] ?B s empty_output" using run_state_init [OF inv] hd by simp
  next
    fix y p sc b s' out
    assume *: "?Q (y # p) sc b s' out" "num_new_tokens (s_objs s' y) \<le> 0 \<or> b \<le> 0"
    then have "x \<in> fst ` set (scheduled_running out)" using same pos B by fastforce
    then show "?Q p (sc @ [y]) b s' out" using * run_state_skip by blast
  next
    fix y p v sc b s' out
    assume *: "?Q (y # p @ [v]) sc b s' out"
    then have st: "run_state s ((y # p) @ [v]) sc b s' out" by simp
    from run_state_preempt [OF st] obtain s2 out2 where r: "preempt v s' out = Inr (s2, out2)" "run_state s (y # p) sc b s2 out2"
      "s_objs s2 = (s_objs s')(v := reset_request (s_objs s' v))" "scheduled_running out2 = scheduled_running out" by metis
    moreover have "y \<noteq> v" using run_state_distinct [OF st] by auto
    moreover have "x \<in> fst ` set (scheduled_running out) \<or> sc = [] \<and> b = ?B \<and> y = x" using * by auto
    ultimately show "\<exists>s2 out2. preempt v s' out = Inr (s2, out2) \<and> ?Q (y # p) sc b s2 out2 \<and> s_objs s2 y = s_objs s' y"
      by auto
  next
    fix y sc b s' out
    assume *: "?Q [y] sc b s' out" "0 < b" "0 < num_new_tokens (s_objs s' y)"
      and nofit: "\<not> run_fits (draft_token_ids (s_objs s' y) \<noteq> []) (num_computed_tokens (s_objs s' y) + run_chunk (s_objs s' y) b)
            (s_bm s') (s_objs s' y)"
    have "x \<in> fst ` set (scheduled_running out)"
    proof (rule ccontr)
      assume "x \<notin> fst ` set (scheduled_running out)"
      then have c: "sc = []" "y = x" "run_state s [x] [] b s' out" using * by auto
      have core: "core_inv s' [x] (s_waiting s')" using run_stateD(1) [OF c(3)] by simp
      have pool: "bm_cache (s_bm s') = None" "bm_num_gpu_blocks (s_bm s') = bm_num_gpu_blocks (s_bm s)"
        "bm_block_size (s_bm s') = bm_block_size (s_bm s)" using run_stateD(4) [OF c(3)] none by (simp_all add: same_pool_def)
      have "run_fits (draft_token_ids (s_objs s' x) \<noteq> []) (num_computed_tokens (s_objs s' x) + run_chunk (s_objs s' x) b)
            (s_bm s') (s_objs s' x)"
        by (rule lone_request_fits [OF core pool(1)]) (use len tgt pool same [OF c(3)] in \<open>auto simp: run_chunk_def\<close>)
      then show False using nofit c(2) by simp
    qed
    moreover have "run_state s ([] @ [y]) sc b s' out" using * by simp
    then obtain s2 out2 where "preempt y s' out = Inr (s2, out2)" "run_state s [] sc b s2 out2" "scheduled_running out2 = scheduled_running out"
      by (rule run_state_preempt)
    ultimately show "\<exists>s2 out2. preempt y s' out = Inr (s2, out2) \<and> ?Q [] sc b s2 out2" by auto
  next
    fix y p sc b s' out chunk sp target
    assume *: "?Q (y # p) sc b s' out" "0 < b" "0 < num_new_tokens (s_objs s' y)"
      "chunk = run_chunk (s_objs s' y) b" "sp = (draft_token_ids (s_objs s' y) \<noteq> [])"
      "target = num_computed_tokens (s_objs s' y) + chunk" "run_fits sp target (s_bm s') (s_objs s' y)"
    have st: "run_state s (y # p) sc b s' out" using *(1) by simp
    obtain s2 where s2: "with_bm (run_reserve sp target) y s' = Inr s2"
      "run_state s p (sc @ [y]) (b - chunk) (upd_req y (\<lambda>r. r\<lparr>num_computed_tokens := num_computed_tokens r + chunk\<rparr>) s2)
           (out\<lparr>scheduled_running := scheduled_running out @ [(y, chunk)]\<rparr>)"
      by (rule run_state_advance [OF st *(2-7)])
    have "x \<in> fst ` set (scheduled_running (out\<lparr>scheduled_running := scheduled_running out @ [(y, chunk)]\<rparr>))"
      using *(1) by auto
    with s2 show "\<exists>s2. with_bm (run_reserve sp target) y s' = Inr s2
       \<and> ?Q p (sc @ [y]) (b - chunk) (upd_req y (\<lambda>r. r\<lparr>num_computed_tokens := num_computed_tokens r + chunk\<rparr>) s2)
           (out\<lparr>scheduled_running := scheduled_running out @ [(y, chunk)]\<rparr>)" by blast
  qed
  then show ?thesis using run by auto
qed

lemma wait_phase_head:
  assumes inv: "sched_inv s" and none: "bm_cache (s_bm s) = None" and run: "s_running s = []" and wait: "s_waiting s = x # rest"
    and fits: "num_blocks_needed (s_objs s x) (bm_block_size (s_bm s)) \<le> bm_num_gpu_blocks (s_bm s) - bm_watermark_blocks (s_bm s)"
    and ret: "wait_loop (s_waiting s) (max_num_batched_tokens (s_config s)) (ctx_budget0 (s_config s)) s empty_output = Inr (s2, out, b2)"
  shows "x \<in> fst ` set (scheduled_new out)"
proof -
  let ?B = "max_num_batched_tokens (s_config s)" and ?C = "ctx_budget0 (s_config s)"
  have cfg: "scheduler_config_ok (s_config s)" and core: "core_inv s (s_running s) (s_waiting s)" using inv by (auto simp: sched_inv_def)
  have bs: "0 < bm_block_size (s_bm s)" using core_invD(3) [OF core] by (simp add: bm_inv_def)
  let ?Q = "\<lambda>w b ctx s' out. wait_state s empty_output ?B w b ctx s' out
     \<and> (x \<in> fst ` set (scheduled_new out) \<or> w = x # rest \<and> s' = s \<and> b = ?B \<and> ctx = ?C)"
  have m: "match_prefix (s_bm s) (prompt_token_ids (s_objs s x)) = None" using none by (simp add: match_prefix_def)
  have adm: "admissible x None ?B ?C s"
  proof -
    have "core_inv s [] (s_waiting s)" using core run by simp
    then have "num_free_blocks (s_bm s) = bm_num_gpu_blocks (s_bm s) \<or> bm_num_gpu_blocks (s_bm s) < 0"
      using no_request_blocks [OF _ none] by (auto simp: num_free_blocks_def)
    moreover have "0 \<le> num_blocks_needed (s_objs s x) (bm_block_size (s_bm s))" using bs by simp
    moreover have "0 \<le> bm_watermark_blocks (s_bm s)" using core_invD(3) [OF core] by (simp add: bm_inv_def)
    ultimately have "can_allocate (s_bm s) (s_objs s x) None"
      using fits none by (auto simp: can_allocate_def matched_blocks_def)
    moreover have "0 \<le> ?C" using cfg by (auto simp: scheduler_config_ok_def ctx_budget0_def split: option.split)
    ultimately show ?thesis using cfg run by (simp add: admissible_def scheduler_config_ok_def matched_tokens_def)
  qed
  have "(wait_loop (s_waiting s) ?B ?C s empty_output = Inl OutOfMemoryError \<and> bm_cache (s_bm s) \<noteq> None)
    \<or> (\<exists>s' out' b' ctx' w'. wait_loop (s_waiting s) ?B ?C s empty_output = Inr (s'\<lparr>s_waiting := w'\<rparr>, out', b') \<and> ?Q w' b' ctx' s' out'
         \<and> (w' \<noteq> [] \<longrightarrow> \<not> admissible (hd w') (match_prefix (s_bm s') (prompt_token_ids (s_objs s' (hd w')))) b' ctx' s'))"
  proof (rule wait_loop_rule [where Q = ?Q])
    show "?Q (s_waiting s) ?B ?C s empty_output"
      using core wait by (simp add: wait_state_def same_pool_def empty_output_def)
  next
    fix y w b ctx s' out m
    assume *: "?Q (y # w) b ctx s' out" "m = match_prefix (s_bm s') (prompt_token_ids (s_objs s' y))" "admissible y m b ctx s'"
    have st: "wait_state s empty_output ?B (y # w) b ctx s' out" using *(1) by simp
    have "x \<in> fst ` set (scheduled_new (out\<lparr>scheduled_new := scheduled_new out @ [(y, c)]\<rparr>))" for c using *(1) by auto
    then show "(with_bm (\<lambda>bm r. allocate bm r m) y s' = Inl OutOfMemoryError \<and> bm_cache (s_bm s) \<noteq> None)
        \<or> (\<exists>s1 s2 chunk. with_bm (\<lambda>bm r. allocate bm r m) y s' = Inr s1 \<and> start_request y m b s1 = (s2, chunk)
             \<and> ?Q w (b - chunk) (ctx - matched_tokens m) s2 (out\<lparr>scheduled_new := scheduled_new out @ [(y, chunk)]\<rparr>))"
      using wait_state_admit [OF st *(2,3)] by blast
  qed
  then show ?thesis
  proof (elim disjE exE conjE)
    fix s' out' b' ctx' w'
    assume r: "wait_loop (s_waiting s) ?B ?C s empty_output = Inr (s'\<lparr>s_waiting := w'\<rparr>, out', b')"
      and stuck: "w' \<noteq> [] \<longrightarrow> \<not> admissible (hd w') (match_prefix (s_bm s') (prompt_token_ids (s_objs s' (hd w')))) b' ctx' s'"
      and d: "w' = x # rest" "s' = s" "b' = ?B" "ctx' = ?C"
    then show ?thesis using adm m by simp
  qed (use none ret in simp_all)
qed

text \<open>The oldest unfinished request: the head of the running list, or of the queue.\<close>

definition oldest :: "scheduler \<Rightarrow> rref" where
  "oldest s = hd (s_running s @ s_waiting s)"

definition servable :: "scheduler \<Rightarrow> rref \<Rightarrow> bool" where
  "servable s x \<longleftrightarrow>
     (if x \<in> set (s_running s)
      then 0 < num_new_tokens (s_objs s x)
         \<and> max (get_len (s_objs s x)) (num_computed_tokens (s_objs s x) + num_new_tokens (s_objs s x))
             \<le> bm_num_gpu_blocks (s_bm s) * bm_block_size (s_bm s)
      else num_blocks_needed (s_objs s x) (bm_block_size (s_bm s)) \<le> bm_num_gpu_blocks (s_bm s) - bm_watermark_blocks (s_bm s))"

lemma oldest_granted:
  assumes "sched_inv s" and "bm_cache (s_bm s) = None" and "has_unfinished_requests s"
    and "servable s (oldest s)" and "schedule s = Inr (s', out)"
  shows "oldest s \<in> fst ` set (scheduled_new out @ scheduled_running out)"
proof -
  have core: "core_inv s (s_running s) (s_waiting s)" using assms(1) by (simp add: sched_inv_def)
  have dist: "distinct (s_running s @ s_waiting s)" by (rule core_invD(1) [OF core])
  obtain s1 out1 b sc where r: "run_loop (s_running s) [] (max_num_batched_tokens (s_config s)) s empty_output = Inr (s1\<lparr>s_running := sc\<rparr>, out1, b)"
    "run_state s [] sc b s1 out1" by (rule run_phase [OF assms(1)])
  show ?thesis
  proof (cases "s_running s")
    case (Cons x rest)
    then have x: "oldest s = x" "x \<in> set (s_running s)" by (simp_all add: oldest_def)
    have "x \<in> fst ` set (scheduled_running out1)"
      by (rule run_phase_head [OF assms(1,2) Cons _ _ _ r(1)]) (use assms(4) x in \<open>simp_all add: servable_def\<close>)
    moreover have "scheduled_running out = scheduled_running out1"
      using schedule_shape [OF assms(1,5)]
    proof (cases "preempted out1 = []")
      case False
      then show ?thesis using assms(5) r(1) by (simp add: schedule_def)
    next
      case True
      let ?s1 = "s1\<lparr>s_running := sc\<rparr>"
      have c: "core_inv ?s1 (s_running ?s1) (s_waiting ?s1)" using run_stateD(1) [OF r(2)] by (simp add: core_inv_waiting_irrelevant)
      from wait_phase [OF c run_stateD(5) [OF r(2)], of b "ctx_budget0 (s_config ?s1)"] show ?thesis
        using assms(5) r(1) True by (auto simp: schedule_def wait_state_def)
    qed
    ultimately show ?thesis using x by auto
  next
    case Nil
    then obtain x rest where w: "s_waiting s = x # rest"
      using assms(3) by (cases "s_waiting s") (auto simp: has_unfinished_requests_def get_num_unfinished_requests_def)
    have o: "oldest s = x" "x \<notin> set (s_running s)" using Nil w by (simp_all add: oldest_def)
    have eq: "s\<lparr>s_running := []\<rparr> = s" using Nil by simp
    have "run_loop (s_running s) [] (max_num_batched_tokens (s_config s)) s empty_output = Inr (s, empty_output, max_num_batched_tokens (s_config s))"
      using Nil eq by simp
    then obtain s2 b2 where "wait_loop (s_waiting s) (max_num_batched_tokens (s_config s)) (ctx_budget0 (s_config s)) s empty_output = Inr (s2, out, b2)"
      using assms(5) by (auto simp: schedule_def empty_output_def bindE_Inr_iff)
    from wait_phase_head [OF assms(1,2) Nil w _ this] have "x \<in> fst ` set (scheduled_new out)"
      using assms(4) o by (simp add: servable_def)
    then show ?thesis using o by auto
  qed
qed

text \<open>C12: the scheduler makes progress: without prefix caching, every step gives tokens to the
oldest unfinished request, provided it has tokens to compute and would fit the pool alone, so no
sequence of preemptions can starve it.\<close>

theorem schedule_serves_oldest:
  assumes "sched_inv s" and "bm_cache (s_bm s) = None" and "has_unfinished_requests s"
    and "servable s (oldest s)" and "schedule s = Inr (s', out)"
  shows "oldest s \<in> fst ` set (scheduled_new out @ scheduled_running out)"
  using assms by (rule oldest_granted)

theorem schedule_serves_oldest_witness:
  "oldest ex_full \<in> fst ` set ([] @ [(0, 1 :: int)])"
proof -
  have "servable ex_full (oldest ex_full)" "has_unfinished_requests ex_full" by code_simp+
  from schedule_serves_oldest [OF ex_full_inv ex_running_queue(4) this(2,1) ex_full_schedule]
  show ?thesis by simp
qed

text \<open>cancelling removes exactly the named requests, wherever they are: afterwards none of
them waits or runs, each is marked aborted, everyone else keeps its place, unfinished, and the
free pool has not shrunk.\<close>

theorem abort_requests_removes:
  assumes "sched_inv s" and "abort_requests ids s = Inr (s', aborted)"
  shows "sched_inv s'
    \<and> (\<forall>x \<in> set (s_running s' @ s_waiting s'). request_id (s_objs s' x) \<notin> ids)
    \<and> s_waiting s' = filter (\<lambda>x. request_id (s_objs s x) \<notin> ids) (s_waiting s)
    \<and> s_running s' = filter (\<lambda>x. request_id (s_objs s x) \<notin> ids \<and> \<not> is_finished (s_objs s x)) (s_running s)
    \<and> (\<forall>x \<in> set (s_running s @ s_waiting s). request_id (s_objs s x) \<in> ids \<longrightarrow>
          x \<in> set aborted \<and> status (s_objs s' x) = FINISHED_ABORTED)
    \<and> num_free_blocks (s_bm s) \<le> num_free_blocks (s_bm s')"
proof (rule abort_requests_result [OF assms(1), of ids])
  fix t finished
  assume r: "abort_requests ids s = Inr (t, filter (\<lambda>x. request_id (s_objs s x) \<in> ids) (s_waiting s) @ finished)"
    "sched_inv t" "s_waiting t = filter (\<lambda>x. request_id (s_objs s x) \<notin> ids) (s_waiting s)"
    "s_running t = filter (\<lambda>x. request_id (s_objs s x) \<notin> ids \<and> \<not> is_finished (s_objs s x)) (s_running s)"
    "finished = filter (\<lambda>x. request_id (s_objs s x) \<in> ids \<or> is_finished (s_objs s x)) (s_running s)"
    "\<And>x. x \<in> set (s_running s @ s_waiting s) \<Longrightarrow> request_id (s_objs s x) \<in> ids \<Longrightarrow> status (s_objs t x) = FINISHED_ABORTED"
    "\<And>x. request_id (s_objs t x) = request_id (s_objs s x)"
    "length (bm_free (s_bm s)) \<le> length (bm_free (s_bm t))"
  then have eq: "t = s'" "aborted = filter (\<lambda>x. request_id (s_objs s x) \<in> ids) (s_waiting s) @ finished" using assms(2) by auto
  have "\<forall>x \<in> set (s_running t @ s_waiting t). request_id (s_objs t x) \<notin> ids" using r(3,4,7) by auto
  moreover have "\<forall>x \<in> set (s_running s @ s_waiting s). request_id (s_objs s x) \<in> ids \<longrightarrow>
      x \<in> set aborted \<and> status (s_objs t x) = FINISHED_ABORTED" using r(5,6) eq(2) by auto
  ultimately show ?thesis unfolding eq(1) [symmetric] using r(2,3,4,8) by (simp add: num_free_blocks_def)
qed

theorem abort_requests_removes_witness:
  "sched_inv (next_state (abort_requests {''b''} ex_full))"
proof -
  have "\<exists>s' aborted. abort_requests {''b''} ex_full = Inr (s', aborted)"
    using abort_requests_result [OF ex_full_inv] by metis
  then obtain s' aborted where r: "abort_requests {''b''} ex_full = Inr (s', aborted)" by blast
  from abort_requests_removes [OF ex_full_inv r] show ?thesis by (simp add: r next_state_def)
qed

end
