(* ===== verification/Kernels.thy ===== *)
theory Kernels
  imports Prelude
begin

text \<open>
  The three Triton kernels of \<^verbatim>\<open>kernels/\<close> the model is built from, against what their
  docstrings promise: \<open>tiled_matmul.py\<close> (every output tile is written by exactly one program of
  the swizzled grid, and holds the product), \<open>fused_rmsnorm_residual.py\<close> (one padded program per
  row) and \<open>flash_attention.py\<close> (the online softmax over key tiles is the softmax).

  A matrix is a list of rows.  The arithmetic is that of an ordered field: the rounding of the
  number formats is not modelled, and \<open>rsqrt\<close> and \<open>exp\<close> are parameters of which only the laws
  of the exponential function are used.
\<close>

subsection \<open>Vectors and matrices\<close>

definition dot :: "'a::semiring_0 list \<Rightarrow> 'a list \<Rightarrow> 'a" where
  "dot xs ys = sum_list (map2 (*) xs ys)"

definition vadd :: "'a::plus list \<Rightarrow> 'a list \<Rightarrow> 'a list" where
  "vadd = map2 (+)"

definition column :: "nat \<Rightarrow> 'a list list \<Rightarrow> 'a list" where
  "column j B = map (\<lambda>r. r ! j) B"

definition row_mul :: "'a::semiring_0 list \<Rightarrow> 'a list list \<Rightarrow> 'a list" where
  "row_mul x B = map (\<lambda>j. dot x (column j B)) [0..<length (hd B)]"

text \<open>The product of matrices whose inner dimensions agree; the kernel's assertion that they do
is not part of the model (\<open>weights_fit\<close> of theory \<open>Llama\<close> says that the weights are so shaped).\<close>

definition mat_mul :: "'a::semiring_0 list list \<Rightarrow> 'a list list \<Rightarrow> 'a list list" where
  "mat_mul A B = map (\<lambda>x. row_mul x B) A"

definition cdiv :: "nat \<Rightarrow> nat \<Rightarrow> nat" where
  "cdiv n d = (n + d - 1) div d"

fun pow2_from :: "nat \<Rightarrow> nat \<Rightarrow> nat \<Rightarrow> nat" where
  "pow2_from 0 p n = p"
| "pow2_from (Suc fuel) p n = (if n \<le> p then p else pow2_from fuel (2 * p) n)"

definition next_power_of_2 :: "nat \<Rightarrow> nat" where
  "next_power_of_2 n = pow2_from n 1 n"

subsection \<open>Tiled matrix product\<close>

text \<open>The tile a program computes: the swizzle that groups \<open>GROUP_M\<close> row tiles together.\<close>

definition tile_of :: "nat \<Rightarrow> nat \<Rightarrow> nat \<Rightarrow> nat \<Rightarrow> nat \<times> nat" where
  "tile_of grid_m grid_n GM pid =
     (let num_pid_in_group = GM * grid_n;
          group_id = pid div num_pid_in_group;
          first_pid_m = group_id * GM;
          group_size_m = min (grid_m - first_pid_m) GM
      in (first_pid_m + pid mod group_size_m, (pid mod num_pid_in_group) div group_size_m))"

text \<open>The accumulator of one output element: the masked products of each K tile in turn.\<close>

definition tile_acc :: "nat \<Rightarrow> nat \<Rightarrow> (nat \<Rightarrow> 'a::semiring_0) \<Rightarrow> (nat \<Rightarrow> 'a) \<Rightarrow> 'a" where
  "tile_acc BK K a b =
     fold (\<lambda>k acc. acc + sum_list (map (\<lambda>i. if i < K - k * BK then a (k * BK + i) * b (k * BK + i) else 0) [0..<BK]))
          [0..<cdiv K BK] 0"

text \<open>What one program stores: its tile, masked to the matrix.  The output starts uninitialized.\<close>

definition matmul_program :: "nat \<Rightarrow> nat \<Rightarrow> nat \<Rightarrow> nat \<Rightarrow> nat \<Rightarrow> nat \<Rightarrow> nat \<Rightarrow> 'a::semiring_0 list list \<Rightarrow> 'a list list
    \<Rightarrow> nat \<Rightarrow> ((nat \<times> nat) \<times> 'a) list" where
  "matmul_program BM BN BK GM M N K A B pid =
     (let (pm, pn) = tile_of (cdiv M BM) (cdiv N BN) GM pid in
      concat (map (\<lambda>i. concat (map (\<lambda>j.
        if pm * BM + i < M \<and> pn * BN + j < N
        then [((pm * BM + i, pn * BN + j), tile_acc BK K (\<lambda>k. A ! (pm * BM + i) ! k) (\<lambda>k. B ! k ! (pn * BN + j)))]
        else []) [0..<BN])) [0..<BM]))"

definition matmul_stores :: "nat \<Rightarrow> nat \<Rightarrow> nat \<Rightarrow> nat \<Rightarrow> nat \<Rightarrow> nat \<Rightarrow> nat \<Rightarrow> 'a::semiring_0 list list \<Rightarrow> 'a list list
    \<Rightarrow> ((nat \<times> nat) \<times> 'a) list" where
  "matmul_stores BM BN BK GM M N K A B =
     concat (map (matmul_program BM BN BK GM M N K A B) [0..<cdiv M BM * cdiv N BN])"

subsection \<open>Residual add and RMSNorm\<close>

text \<open>One program: the rows are loaded into \<open>BLOCK_N\<close> lanes, the ones past \<open>N\<close> as zeros.\<close>

definition rmsnorm_program :: "('a::linordered_field \<Rightarrow> 'a) \<Rightarrow> 'a \<Rightarrow> 'a list \<Rightarrow> 'a list \<Rightarrow> 'a list \<Rightarrow> 'a list \<times> 'a list" where
  "rmsnorm_program rsqrt eps weight x residual =
     (let n = length x;
          lanes = (\<lambda>v. v @ replicate (next_power_of_2 n - n) 0);
          h = vadd (lanes x) (lanes residual);
          variance = sum_list (map (\<lambda>e. e * e) h) / of_nat n;
          rrms = rsqrt (variance + eps);
          out = map2 (\<lambda>e w. e * rrms * w) h (lanes weight)
      in (take n out, take n h))"

definition fused_add_rmsnorm :: "('a::linordered_field \<Rightarrow> 'a) \<Rightarrow> 'a \<Rightarrow> 'a list \<Rightarrow> 'a list list \<Rightarrow> 'a list list
    \<Rightarrow> 'a list list \<times> 'a list list" where
  "fused_add_rmsnorm rsqrt eps weight xs residuals =
     (let rows = map2 (rmsnorm_program rsqrt eps weight) xs residuals in (map fst rows, map snd rows))"

text \<open>The formula of the docstring.\<close>

definition rmsnorm :: "('a::linordered_field \<Rightarrow> 'a) \<Rightarrow> 'a \<Rightarrow> 'a list \<Rightarrow> 'a list \<Rightarrow> 'a list" where
  "rmsnorm rsqrt eps weight h =
     (let rrms = rsqrt (sum_list (map (\<lambda>e. e * e) h) / of_nat (length h) + eps)
      in map2 (\<lambda>e w. e * rrms * w) h weight)"

subsection \<open>Attention\<close>

text \<open>Softmax attention of one query over a list of keys and values, as the docstring has it.\<close>

definition weighted_sum :: "nat \<Rightarrow> 'a::semiring_0 list \<Rightarrow> 'a list list \<Rightarrow> 'a list" where
  "weighted_sum D ps vs = map (\<lambda>d. sum_list (map2 (\<lambda>p v. p * v ! d) ps vs)) [0..<D]"

definition attend :: "('a::linordered_field \<Rightarrow> 'a) \<Rightarrow> 'a \<Rightarrow> 'a list \<Rightarrow> 'a list list \<Rightarrow> 'a list list \<Rightarrow> 'a list" where
  "attend ex scale q ks vs =
     (let ws = map (\<lambda>k. ex (dot q k * scale)) ks
      in map (\<lambda>a. a / sum_list ws) (weighted_sum (length q) ws vs))"

text \<open>Causal: row \<open>i\<close> attends to the keys up to \<open>i\<close>.\<close>

definition causal_attention :: "('a::linordered_field \<Rightarrow> 'a) \<Rightarrow> 'a \<Rightarrow> 'a list list \<Rightarrow> 'a list list \<Rightarrow> 'a list list \<Rightarrow> 'a list list" where
  "causal_attention ex scale qs ks vs =
     map (\<lambda>i. attend ex scale (qs ! i) (take (Suc i) ks) (take (Suc i) vs)) [0..<length qs]"

text \<open>
  The kernel, for the row \<open>m\<close> of the query tile it falls into: a score masked out is minus
  infinity (\<open>None\<close>), its exponential zero.
\<close>

fun score_max :: "'a::linorder option \<Rightarrow> 'a option \<Rightarrow> 'a option" where
  "score_max None y = y"
| "score_max (Some x) None = Some x"
| "score_max (Some x) (Some y) = Some (max x y)"

fun exp_diff :: "('a::linordered_field \<Rightarrow> 'a) \<Rightarrow> 'a option \<Rightarrow> 'a option \<Rightarrow> 'a" where
  "exp_diff ex (Some s) (Some m) = ex (s - m)"
| "exp_diff ex _ _ = 0"

definition flash_tile :: "('a::linordered_field \<Rightarrow> 'a) \<Rightarrow> 'a \<Rightarrow> bool \<Rightarrow> nat \<Rightarrow> nat \<Rightarrow> nat \<Rightarrow> 'a list list \<Rightarrow> 'a list list
    \<Rightarrow> 'a list \<Rightarrow> nat \<Rightarrow> 'a option \<times> 'a \<times> 'a list \<Rightarrow> 'a option \<times> 'a \<times> 'a list" where
  "flash_tile ex scale causal N BN m ks vs q start_n = (\<lambda>(m_i, l_i, acc).
     let offs_n = [start_n..<start_n + BN];
         s = map (\<lambda>j. if j < N \<and> (causal \<longrightarrow> j \<le> m) then Some (dot q (ks ! j) * scale) else None) offs_n;
         m_new = score_max m_i (fold (\<lambda>x y. score_max y x) s None);
         p = map (\<lambda>x. exp_diff ex x m_new) s;
         alpha = exp_diff ex m_i m_new;
         v = map (\<lambda>j. if j < N then vs ! j else replicate (length q) 0) offs_n
     in (m_new, alpha * l_i + sum_list p, map2 (+) (map (\<lambda>a. a * alpha) acc) (weighted_sum (length q) p v)))"

definition flash_row :: "('a::linordered_field \<Rightarrow> 'a) \<Rightarrow> 'a \<Rightarrow> bool \<Rightarrow> nat \<Rightarrow> nat \<Rightarrow> nat \<Rightarrow> 'a list list \<Rightarrow> 'a list list
    \<Rightarrow> 'a list \<Rightarrow> nat \<Rightarrow> 'a list" where
  "flash_row ex scale causal N BM BN ks vs q m =
     (let hi = if causal then min N ((m div BM + 1) * BM) else N;
          (m_i, l_i, acc) = fold (\<lambda>t. flash_tile ex scale causal N BN m ks vs q (t * BN)) [0..<cdiv hi BN]
             (None, 0, replicate (length q) 0)
      in map (\<lambda>a. a / l_i) acc)"

text \<open>One head: every row of every query tile.\<close>

definition flash_attention_forward :: "('a::linordered_field \<Rightarrow> 'a) \<Rightarrow> 'a \<Rightarrow> bool \<Rightarrow> nat \<Rightarrow> nat \<Rightarrow> 'a list list
    \<Rightarrow> 'a list list \<Rightarrow> 'a list list \<Rightarrow> 'a list list or_raise" where
  "flash_attention_forward ex scale causal BM BN qs ks vs =
     (if \<not> (length qs = length ks \<and> length ks = length vs) then Inl AssertionError
      else Inr (map (\<lambda>m. flash_row ex scale causal (length qs) BM BN ks vs (qs ! m) m) [0..<length qs]))"

subsection \<open>The swizzle covers every tile once\<close>

lemma tile_of_group:
  assumes "0 < GM" "0 < gn" "pid < gm * gn"
  defines "g \<equiv> pid div (GM * gn)"
  defines "r \<equiv> pid mod (GM * gn)"
  defines "gs \<equiv> min (gm - g * GM) GM"
  shows "tile_of gm gn GM pid = (g * GM + pid mod gs, r div gs)" "0 < gs" "gs \<le> GM" "r div gs < gn"
    "g * GM + pid mod gs < gm" "(g * GM + pid mod gs) div GM = g"
proof -
  show t: "tile_of gm gn GM pid = (g * GM + pid mod gs, r div gs)"
    by (simp add: tile_of_def Let_def g_def r_def gs_def)
  have pid: "pid = g * GM * gn + r" unfolding g_def r_def mult.assoc by (simp add: div_mult_mod_eq)
  have "g * GM * gn < gm * gn" using assms(3) pid by linarith
  then have gm: "g * GM < gm" using assms(2) by simp
  then show gs: "0 < gs" using assms(1) by (simp add: gs_def)
  show le: "gs \<le> GM" by (simp add: gs_def)
  have "r < gs * gn"
  proof (cases "gm - g * GM \<le> GM")
    case True
    then have "gs = gm - g * GM" by (simp add: gs_def)
    moreover have "r < gm * gn - g * GM * gn" using assms(3) pid by linarith
    ultimately show ?thesis by (simp add: diff_mult_distrib)
  next
    case False
    have "r < GM * gn" using assms(1,2) by (simp add: r_def)
    then show ?thesis using False by (simp add: gs_def)
  qed
  then show "r div gs < gn" by (simp add: less_mult_imp_div_less mult.commute)
  have lt: "pid mod gs < gs" using gs by simp
  then have "pid mod gs < gm - g * GM" by (simp add: gs_def)
  then show "g * GM + pid mod gs < gm" using gm by linarith
  show "(g * GM + pid mod gs) div GM = g" using lt le assms(1) by simp
qed

lemma tile_of_inj:
  assumes "0 < GM" "0 < gn" shows "inj_on (tile_of gm gn GM) {..<gm * gn}"
proof (rule inj_onI)
  fix p q assume p: "p \<in> {..<gm * gn}" and q: "q \<in> {..<gm * gn}" and eq: "tile_of gm gn GM p = tile_of gm gn GM q"
  let ?g = "p div (GM * gn)"
  let ?gs = "min (gm - ?g * GM) GM"
  note P = tile_of_group [OF assms, of p gm] and Q = tile_of_group [OF assms, of q gm]
  have g: "q div (GM * gn) = ?g" using P(1,6) Q(1,6) p q eq by simp
  then have m: "p mod ?gs = q mod ?gs" and d: "(p mod (GM * gn)) div ?gs = (q mod (GM * gn)) div ?gs"
    using P(1) Q(1) p q eq by simp_all
  have "?g * (GM * gn) + p mod (GM * gn) = p" by (simp add: div_mult_mod_eq)
  have "(q mod (GM * gn)) mod ?gs = (p mod (GM * gn)) mod ?gs"
  proof -
    have ge: "?g * (GM * gn) \<le> p" "?g * (GM * gn) \<le> q" using g by (metis div_times_less_eq_dividend)+
    have pe: "p mod (GM * gn) = p - ?g * (GM * gn)" by (simp add: minus_div_mult_eq_mod)
    have qe: "q mod (GM * gn) = q - ?g * (GM * gn)" using g by (metis minus_div_mult_eq_mod)
    have "int (p - ?g * (GM * gn)) mod int ?gs = int (q - ?g * (GM * gn)) mod int ?gs"
      using ge m by (simp only: of_nat_diff) (metis mod_diff_cong zmod_int)
    then show ?thesis unfolding pe qe by (metis zmod_int of_nat_eq_iff)
  qed
  then have "p mod (GM * gn) = q mod (GM * gn)" using d by (metis div_mult_mod_eq)
  then show "p = q" using g by (metis div_mult_mod_eq)
qed

lemma tile_of_bij:
  assumes "0 < GM" shows "bij_betw (tile_of gm gn GM) {..<gm * gn} ({..<gm} \<times> {..<gn})"
proof (cases "gn = 0")
  case False
  then have gn: "0 < gn" by simp
  have sub: "tile_of gm gn GM ` {..<gm * gn} \<subseteq> {..<gm} \<times> {..<gn}"
    using tile_of_group [OF assms gn] by (force simp del: min_less_iff_disj)
  moreover have "card (tile_of gm gn GM ` {..<gm * gn}) = card ({..<gm} \<times> {..<gn})"
    using card_image [OF tile_of_inj [OF assms gn, of gm]] by simp
  ultimately have "tile_of gm gn GM ` {..<gm * gn} = {..<gm} \<times> {..<gn}" by (intro card_subset_eq) auto
  then show ?thesis using tile_of_inj [OF assms gn] by (simp add: bij_betw_def)
qed (simp add: bij_betw_def)

subsection \<open>One output element\<close>

lemma sum_list_blocks:
  fixes g :: "nat \<Rightarrow> 'a::comm_monoid_add"
  shows "fold (\<lambda>k acc. acc + sum_list (map (\<lambda>i. g (k * B + i)) [0..<B])) [0..<n] 0 = sum_list (map g [0..<n * B])"
proof (induction n)
  case (Suc n)
  have "[0..<Suc n * B] = [0..<n * B] @ [n * B..<n * B + B]"
    using upt_add_eq_append [of 0 "n * B" B] by (simp add: add.commute)
  moreover have "map (\<lambda>i. g (n * B + i)) [0..<B] = map g [n * B..<n * B + B]"
    by (rule nth_equalityI) simp_all
  ultimately show ?case using Suc by simp
qed simp

lemma cdiv_mult_ge:
  assumes "0 < d" shows "n \<le> cdiv n d * d"
proof -
  have "n + d - 1 < (cdiv n d + 1) * d"
    unfolding cdiv_def using assms by (metis dividend_less_div_times mult.commute distrib_right mult_1 Suc_eq_plus1 mult_Suc add.commute)
  then show ?thesis using assms by (simp add: algebra_simps)
qed

lemma tile_acc_sum:
  assumes "0 < BK" shows "tile_acc BK K a b = sum_list (map (\<lambda>i. a i * b i) [0..<K])"
proof -
  let ?g = "\<lambda>i. if i < K then a i * b i else 0"
  have "tile_acc BK K a b = fold (\<lambda>k acc. acc + sum_list (map (\<lambda>i. ?g (k * BK + i)) [0..<BK])) [0..<cdiv K BK] 0"
    by (simp add: tile_acc_def less_diff_conv add.commute)
  also have "\<dots> = sum_list (map ?g [0..<cdiv K BK * BK])" by (rule sum_list_blocks)
  also have "[0..<cdiv K BK * BK] = [0..<K] @ [K..<cdiv K BK * BK]"
    using cdiv_mult_ge [OF assms, of K] by (metis le_add_diff_inverse upt_add_eq_append zero_le)
  finally have "tile_acc BK K a b = sum_list (map ?g [0..<K]) + sum_list (map ?g [K..<cdiv K BK * BK])" by simp
  moreover have "map ?g [0..<K] = map (\<lambda>i. a i * b i) [0..<K]" by simp
  moreover have "map ?g [K..<cdiv K BK * BK] = map (\<lambda>_. 0) [K..<cdiv K BK * BK]" by simp
  ultimately show ?thesis by (simp only: sum_list_0 add.right_neutral)
qed

subsection \<open>The whole product\<close>

lemma distinct_concat_map:
  "distinct xs \<Longrightarrow> (\<And>x. x \<in> set xs \<Longrightarrow> distinct (f x))
    \<Longrightarrow> (\<And>x y. x \<in> set xs \<Longrightarrow> y \<in> set xs \<Longrightarrow> x \<noteq> y \<Longrightarrow> set (f x) \<inter> set (f y) = {})
    \<Longrightarrow> distinct (concat (map f xs))"
proof (induction xs)
  case (Cons x xs)
  then have "set (f x) \<inter> set (f y) = {}" if "y \<in> set xs" for y using that by (metis distinct.simps(2) list.set_intros)
  then show ?case using Cons by auto
qed simp

lemma concat_if_product:
  "map fst (concat (map (\<lambda>i. concat (map (\<lambda>j. if P (f i) (g j) then [((f i, g j), v i j)] else []) ys)) xs))
    = filter (\<lambda>(a, b). P a b) (List.product (map f xs) (map g ys))"
proof -
  have inner: "map fst (concat (map (\<lambda>j. if P a (g j) then [((a, g j), w j)] else []) ys))
      = filter (\<lambda>(a, b). P a b) (map (Pair a) (map g ys))" for a w
    by (induction ys) auto
  show ?thesis
  proof (induction xs)
    case (Cons x xs)
    then show ?case unfolding list.map concat.simps map_append inner product.simps filter_append by simp
  qed simp
qed

lemma matmul_program_keys:
  assumes "tile_of (cdiv M BM) (cdiv N BN) GM pid = (pm, pn)"
  shows "map fst (matmul_program BM BN BK GM M N K A B pid)
    = filter (\<lambda>(a, b). a < M \<and> b < N) (List.product (map ((+) (pm * BM)) [0..<BM]) (map ((+) (pn * BN)) [0..<BN]))"
  unfolding matmul_program_def assms Let_def split_conv
  by (rule concat_if_product [where P = "\<lambda>a b. a < M \<and> b < N"])

lemma matmul_program_key_set:
  assumes "tile_of (cdiv M BM) (cdiv N BN) GM pid = (pm, pn)" "0 < BM" "0 < BN"
  shows "fst ` set (matmul_program BM BN BK GM M N K A B pid) = {(a, b). a < M \<and> b < N \<and> a div BM = pm \<and> b div BN = pn}"
proof -
  have r: "a \<in> (+) (p * d) ` {0..<d} \<longleftrightarrow> a div d = p" if "0 < d" for a p d :: nat
  proof
    assume "a div d = p"
    then have "a = p * d + a mod d" by (metis div_mult_mod_eq)
    then show "a \<in> (+) (p * d) ` {0..<d}" using that by (metis atLeastLessThan_iff imageI mod_less_divisor zero_le)
  next
    assume "a \<in> (+) (p * d) ` {0..<d}"
    then show "a div d = p" using that by (auto simp del: image_add_atLeastLessThan)
  qed
  have "fst ` set (matmul_program BM BN BK GM M N K A B pid) = set (map fst (matmul_program BM BN BK GM M N K A B pid))" by simp
  also have "\<dots> = {(a, b). a < M \<and> b < N \<and> a \<in> (+) (pm * BM) ` {0..<BM} \<and> b \<in> (+) (pn * BN) ` {0..<BN}}"
    unfolding matmul_program_keys [OF assms(1)] by (auto simp del: image_add_atLeastLessThan)
  also have "\<dots> = {(a, b). a < M \<and> b < N \<and> a div BM = pm \<and> b div BN = pn}"
    unfolding r [OF assms(2)] r [OF assms(3)] ..
  finally show ?thesis .
qed

lemma matmul_program_value:
  assumes "((m, n), v) \<in> set (matmul_program BM BN BK GM M N K A B pid)" "0 < BK"
  shows "v = sum_list (map (\<lambda>k. A ! m ! k * B ! k ! n) [0..<K])"
  using assms(1) by (auto simp: matmul_program_def Let_def tile_acc_sum [OF assms(2)] split: prod.splits if_splits)

lemma mat_mul_entry:
  assumes "m < length A" "length (A ! m) = K" "length B = K" "n < length (hd B)"
  shows "mat_mul A B ! m ! n = sum_list (map (\<lambda>k. A ! m ! k * B ! k ! n) [0..<K])"
proof -
  have "map2 (*) (A ! m) (column n B) = map (\<lambda>k. A ! m ! k * B ! k ! n) [0..<K]"
    using assms by (intro nth_equalityI) (simp_all add: column_def)
  then show ?thesis using assms by (simp add: mat_mul_def row_mul_def dot_def)
qed

lemma matmul_stores_once:
  assumes pos: "0 < BM" "0 < BN" "0 < BK" "0 < GM"
  shows "distinct (map fst (matmul_stores BM BN BK GM M N K A B))"
    "fst ` set (matmul_stores BM BN BK GM M N K A B) = {..<M} \<times> {..<N}"
proof -
  let ?t = "tile_of (cdiv M BM) (cdiv N BN) GM"
  let ?G = "cdiv M BM * cdiv N BN"
  have bij: "bij_betw ?t {..<?G} ({..<cdiv M BM} \<times> {..<cdiv N BN})" by (rule tile_of_bij [OF pos(4)])
  have keys: "fst ` set (matmul_program BM BN BK GM M N K A B p) = {(a, b). a < M \<and> b < N \<and> (a div BM, b div BN) = ?t p}" for p
  proof -
    have "?t p = (fst (?t p), snd (?t p))" by simp
    from matmul_program_key_set [OF this pos(1,2), of BK K A B] show ?thesis
      unfolding prod_eq_iff fst_conv snd_conv .
  qed
  have "distinct (concat (map (\<lambda>p. map fst (matmul_program BM BN BK GM M N K A B p)) [0..<?G]))"
  proof (rule distinct_concat_map)
    fix p
    have "distinct (List.product (map ((+) (fst (?t p) * BM)) [0..<BM]) (map ((+) (snd (?t p) * BN)) [0..<BN]))"
      by (intro distinct_product) (simp_all add: distinct_map)
    then show "distinct (map fst (matmul_program BM BN BK GM M N K A B p))"
      using matmul_program_keys [of M BM N BN GM p "fst (?t p)" "snd (?t p)" BK K A B] by simp
  next
    fix p q assume pq: "p \<in> set [0..<?G]" "q \<in> set [0..<?G]" "p \<noteq> q"
    then have "?t p \<noteq> ?t q" using bij by (auto simp: bij_betw_def inj_on_def)
    then show "set (map fst (matmul_program BM BN BK GM M N K A B p)) \<inter> set (map fst (matmul_program BM BN BK GM M N K A B q)) = {}"
      using keys [of p] keys [of q] by auto
  qed simp
  then show "distinct (map fst (matmul_stores BM BN BK GM M N K A B))"
    by (simp add: matmul_stores_def map_concat comp_def)
  have "\<exists>p < ?G. ?t p = (a div BM, b div BN)" if "a < M" "b < N" for a b
  proof -
    have "a < cdiv M BM * BM" "b < cdiv N BN * BN" using that cdiv_mult_ge [OF pos(1), of M] cdiv_mult_ge [OF pos(2), of N] by auto
    then have "(a div BM, b div BN) \<in> {..<cdiv M BM} \<times> {..<cdiv N BN}" by (simp add: less_mult_imp_div_less)
    then have "(a div BM, b div BN) \<in> ?t ` {..<?G}" unfolding bij_betw_imp_surj_on [OF bij] .
    then obtain p where "p \<in> {..<?G}" "(a div BM, b div BN) = ?t p" by (rule imageE)
    then show ?thesis by (intro exI [of _ p]) simp
  qed
  then show "fst ` set (matmul_stores BM BN BK GM M N K A B) = {..<M} \<times> {..<N}"
  proof -
    assume cov: "\<And>a b. a < M \<Longrightarrow> b < N \<Longrightarrow> \<exists>p < ?G. ?t p = (a div BM, b div BN)"
    have "fst ` set (matmul_stores BM BN BK GM M N K A B) = (\<Union>p \<in> {..<?G}. {(a, b). a < M \<and> b < N \<and> (a div BM, b div BN) = ?t p})"
      unfolding matmul_stores_def set_concat set_map image_UN image_image keys by (simp add: lessThan_atLeast0)
    also have "\<dots> = {..<M} \<times> {..<N}" using cov by (auto simp del: prod.inject) (metis lessThan_iff)+
    finally show ?thesis .
  qed
qed

subsection \<open>The padded row program is RMSNorm\<close>

lemma rmsnorm_program_eq:
  assumes "length residual = length x" "length weight = length x"
  shows "rmsnorm_program rsqrt eps weight x residual = (rmsnorm rsqrt eps weight (vadd x residual), vadd x residual)"
proof -
  let ?z = "replicate (next_power_of_2 (length x) - length x) 0"
  have h: "vadd (x @ ?z) (residual @ ?z) = vadd x residual @ ?z"
    using assms by (simp add: vadd_def zip_append zip_replicate)
  have len: "length (vadd x residual) = length x" using assms by (simp add: vadd_def)
  have z: "sum_list (map (\<lambda>e. e * e) (vadd x residual @ ?z)) = sum_list (map (\<lambda>e. e * e) (vadd x residual))"
    by (simp add: sum_list_0 [symmetric] map_replicate sum_list_replicate)
  have w: "map2 f (vadd x residual @ ?z) (weight @ ?z) = map2 f (vadd x residual) weight @ map2 f ?z ?z" for f
    using assms len by (simp add: zip_append)
  show ?thesis
    unfolding rmsnorm_program_def Let_def h z w rmsnorm_def using len assms by simp
qed

subsection \<open>The online softmax is the softmax\<close>

definition is_exp :: "('a::linordered_field \<Rightarrow> 'a) \<Rightarrow> bool" where
  "is_exp ex \<longleftrightarrow> ex 0 = 1 \<and> (\<forall>x y. ex (x + y) = ex x * ex y)"

lemma is_expD:
  assumes "is_exp ex" shows "ex 0 = 1" "ex (x + y) = ex x * ex y" "ex (- x) \<noteq> 0" "ex (x - y) = ex x * ex (- y)"
proof -
  show e: "ex 0 = 1" "ex (x + y) = ex x * ex y" for x y using assms by (simp_all add: is_exp_def)
  show "ex (- x) \<noteq> 0" using e(1) e(2) [of x "- x"] by auto
  show "ex (x - y) = ex x * ex (- y)" using e(2) [of x "- y"] by simp
qed

text \<open>The keys row \<open>m\<close> sees among the first \<open>n\<close>, and the sums over them.\<close>

definition seen :: "bool \<Rightarrow> nat \<Rightarrow> nat \<Rightarrow> nat \<Rightarrow> nat set" where
  "seen causal N m n = {j. j < n \<and> j < N \<and> (causal \<longrightarrow> j \<le> m)}"

lemma finite_seen [simp]: "finite (seen causal N m n)"
  by (simp add: seen_def)

definition softmax_state :: "('a::linordered_field \<Rightarrow> 'a) \<Rightarrow> nat \<Rightarrow> (nat \<Rightarrow> 'a) \<Rightarrow> 'a list list \<Rightarrow> nat set
    \<Rightarrow> 'a option \<times> 'a \<times> 'a list \<Rightarrow> bool" where
  "softmax_state ex D S vs J = (\<lambda>(m, l, acc). case m of
     None \<Rightarrow> J = {} \<and> l = 0 \<and> acc = replicate D 0
   | Some M \<Rightarrow> l = (\<Sum>j \<in> J. ex (S j - M)) \<and> acc = map (\<lambda>d. \<Sum>j \<in> J. ex (S j - M) * vs ! j ! d) [0..<D])"

lemma score_max_fold: "fold (\<lambda>x y. score_max y x) s m = None \<longleftrightarrow> m = None \<and> (\<forall>x \<in> set s. x = None)"
proof (induction s arbitrary: m)
  case (Cons x s)
  show ?case using Cons [of "score_max m x"] by (cases m; cases x) auto
qed simp

lemma sum_list_upt: "sum_list (map f [a..<b]) = (\<Sum>j \<in> {a..<b}. f j)"
  by (simp add: sum_list_distinct_conv_sum_set atLeastLessThan_def atLeast_def lessThan_def interv_sum_list_conv_sum_set_nat)

lemma weighted_sum_upt:
  "weighted_sum D (map p [a..<b]) (map v [a..<b]) = map (\<lambda>d. \<Sum>j \<in> {a..<b}. p j * v j ! d) [0..<D]"
proof -
  have "map2 (\<lambda>x y. x * y ! d) (map p xs) (map v xs) = map (\<lambda>j. p j * v j ! d) xs" for d and xs :: "nat list"
    by (induction xs) auto
  then show ?thesis by (simp add: weighted_sum_def sum_list_upt)
qed

lemma masked_sum:
  fixes a b :: nat
  assumes "\<And>j. j \<in> {a..<b} \<Longrightarrow> j \<notin> V \<Longrightarrow> f j = 0" "V \<subseteq> {a..<b}" shows "sum f {a..<b} = sum f V"
  by (rule sum.mono_neutral_right) (use assms in auto)

text \<open>One tile: the state for the keys seen so far becomes the state for those and the tile's.\<close>

lemma flash_tile_step:
  assumes ex: "is_exp ex" and st: "softmax_state ex (length q) (\<lambda>j. dot q (ks ! j) * scale) vs (seen causal N m a) (m_i, l, acc)"
  shows "softmax_state ex (length q) (\<lambda>j. dot q (ks ! j) * scale) vs (seen causal N m (a + BN))
           (flash_tile ex scale causal N BN m ks vs q a (m_i, l, acc))"
proof -
  let ?S = "\<lambda>j. dot q (ks ! j) * scale" and ?D = "length q"
  let ?J = "seen causal N m a"
  define V where "V = {j \<in> {a..<a + BN}. j < N \<and> (causal \<longrightarrow> j \<le> m)}"
  have un: "seen causal N m (a + BN) = ?J \<union> V" "?J \<inter> V = {}" "finite V" "V \<subseteq> {a..<a + BN}"
    by (auto simp: seen_def V_def)
  define score where "score j = (if j < N \<and> (causal \<longrightarrow> j \<le> m) then Some (?S j) else None)" for j
  define m_new where "m_new = score_max m_i (fold (\<lambda>x y. score_max y x) (map score [a..<a + BN]) None)"
  define v where "v j = (if j < N then vs ! j else replicate ?D 0)" for j
  let ?p = "\<lambda>j. exp_diff ex (score j) m_new" and ?al = "exp_diff ex m_i m_new"
  have tile: "flash_tile ex scale causal N BN m ks vs q a (m_i, l, acc) =
      (m_new, ?al * l + (\<Sum>j \<in> {a..<a + BN}. ?p j),
       map2 (+) (map (\<lambda>x. x * ?al) acc) (map (\<lambda>d. \<Sum>j \<in> {a..<a + BN}. ?p j * v j ! d) [0..<?D]))"
    unfolding flash_tile_def Let_def split_conv score_def [symmetric] v_def [symmetric] m_new_def [symmetric] map_map comp_def
      weighted_sum_upt sum_list_upt ..
  have p0: "?p j = 0" if "j \<in> {a..<a + BN}" "j \<notin> V" for j using that by (auto simp: score_def V_def)
  have pl: "(\<Sum>j \<in> {a..<a + BN}. ?p j) = sum ?p V" by (rule masked_sum [OF p0 un(4)])
  have pa: "(\<Sum>j \<in> {a..<a + BN}. ?p j * v j ! d) = (\<Sum>j \<in> V. ?p j * vs ! j ! d)" for d
  proof -
    have "(\<Sum>j \<in> {a..<a + BN}. ?p j * v j ! d) = (\<Sum>j \<in> V. ?p j * v j ! d)"
      by (rule masked_sum) (use p0 un(4) in auto)
    also have "\<dots> = (\<Sum>j \<in> V. ?p j * vs ! j ! d)" by (rule sum.cong) (auto simp: v_def V_def)
    finally show ?thesis .
  qed
  show ?thesis
  proof (cases m_new)
    case None
    then have n: "fold (\<lambda>x y. score_max y x) (map score [a..<a + BN]) None = None" "m_i = None"
      unfolding m_new_def by (cases m_i; cases "fold (\<lambda>x y. score_max y x) (map score [a..<a + BN]) None"; simp)+
    from n(1) have none: "score j = None" if "j \<in> {a..<a + BN}" for j unfolding score_max_fold using that by simp
    have "j \<notin> V" for j using none [of j] by (auto simp: V_def score_def split: if_splits)
    then have "V = {}" by blast
    with n(2) None st show ?thesis unfolding tile pl pa un(1)
      by (simp add: softmax_state_def map_replicate_const zip_replicate split_def)
  next
    case (Some M')
    have pS: "?p j = ex (?S j - M')" if "j \<in> V" for j using that Some by (simp add: V_def score_def)
    have al: "?al * (\<Sum>j \<in> ?J. ex (?S j - M) * g j) = (\<Sum>j \<in> ?J. ex (?S j - M') * g j)" if "m_i = Some M" for M g
    proof -
      have e: "ex (M - M') * (ex (?S j - M) * g j) = ex (?S j - M') * g j" for j
        using is_expD(2) [OF ex, of "M - M'" "?S j - M"] by (simp add: mult.assoc [symmetric])
      have "?al = ex (M - M')" using that Some by simp
      then show ?thesis by (simp only: sum_distrib_left e)
    qed
    have split: "(\<Sum>j \<in> ?J \<union> V. f j) = sum f ?J + sum f V" for f :: "nat \<Rightarrow> 'a"
      using un by (intro sum.union_disjoint) auto
    have l': "?al * l + sum ?p V = (\<Sum>j \<in> ?J \<union> V. ex (?S j - M'))"
    proof (cases m_i)
      case None
      then show ?thesis using st pS by (simp add: softmax_state_def)
    next
      case (Some M)
      then show ?thesis using st pS al [OF Some, of "\<lambda>_. 1"] by (simp add: softmax_state_def split)
    qed
    have acc': "map2 (+) (map (\<lambda>x. x * ?al) acc) (map (\<lambda>d. \<Sum>j \<in> V. ?p j * vs ! j ! d) [0..<?D])
        = map (\<lambda>d. \<Sum>j \<in> ?J \<union> V. ex (?S j - M') * vs ! j ! d) [0..<?D]"
    proof (cases m_i)
      case None
      then show ?thesis using st pS by (intro nth_equalityI) (simp_all add: softmax_state_def)
    next
      case (Some M)
      show ?thesis
      proof (rule nth_equalityI)
        fix d assume "d < length (map2 (+) (map (\<lambda>x. x * ?al) acc) (map (\<lambda>d. \<Sum>j \<in> V. ?p j * vs ! j ! d) [0..<?D]))"
        then have d: "d < ?D" by simp
        show "map2 (+) (map (\<lambda>x. x * ?al) acc) (map (\<lambda>d. \<Sum>j \<in> V. ?p j * vs ! j ! d) [0..<?D]) ! d
            = map (\<lambda>d. \<Sum>j \<in> ?J \<union> V. ex (?S j - M') * vs ! j ! d) [0..<?D] ! d"
          using st Some d pS al [OF Some, of "\<lambda>j. vs ! j ! d"] by (simp add: softmax_state_def split mult.commute)
      qed (use st Some in \<open>simp add: softmax_state_def\<close>)
    qed
    show ?thesis unfolding tile pl pa un(1) using Some l' acc' by (simp add: softmax_state_def)
  qed
qed

text \<open>All tiles of the loop, and the quotient.\<close>

lemma flash_tiles:
  assumes "is_exp ex"
  shows "softmax_state ex (length q) (\<lambda>j. dot q (ks ! j) * scale) vs (seen causal N m (n * BN))
    (fold (\<lambda>t. flash_tile ex scale causal N BN m ks vs q (t * BN)) [0..<n] (None, 0, replicate (length q) 0))"
proof (induction n)
  case 0
  then show ?case by (simp add: softmax_state_def seen_def)
next
  case (Suc n)
  obtain m_i l acc where s: "fold (\<lambda>t. flash_tile ex scale causal N BN m ks vs q (t * BN)) [0..<n] (None, 0, replicate (length q) 0) = (m_i, l, acc)"
    by (metis prod.exhaust)
  from flash_tile_step [OF assms Suc.IH [unfolded s]] show ?case by (simp add: s add.commute)
qed

lemma attend_sums:
  assumes "length ks = length vs"
  shows "attend ex scale q ks vs = map (\<lambda>d. (\<Sum>j < length ks. ex (dot q (ks ! j) * scale) * vs ! j ! d)
      / (\<Sum>j < length ks. ex (dot q (ks ! j) * scale))) [0..<length q]"
proof -
  have ks: "map (\<lambda>k. ex (dot q k * scale)) ks = map (\<lambda>j. ex (dot q (ks ! j) * scale)) [0..<length ks]"
    by (intro nth_equalityI) simp_all
  have vs: "vs = map (\<lambda>j. vs ! j) [0..<length ks]" by (simp add: assms map_nth)
  have "weighted_sum (length q) (map (\<lambda>k. ex (dot q k * scale)) ks) vs
      = map (\<lambda>d. \<Sum>j \<in> {0..<length ks}. ex (dot q (ks ! j) * scale) * vs ! j ! d) [0..<length q]"
    unfolding ks using weighted_sum_upt [of _ _ 0 "length ks" "\<lambda>j. vs ! j"] vs by simp
  then show ?thesis by (simp add: attend_def ks sum_list_upt Let_def comp_def lessThan_atLeast0)
qed

lemma flash_row_eq:
  assumes ex: "is_exp ex" and BM: "0 < BM" and BN: "0 < BN" and m: "m < N" and len: "length ks = N" "length vs = N"
  shows "flash_row ex scale causal N BM BN ks vs q m =
    (if causal then attend ex scale q (take (Suc m) ks) (take (Suc m) vs) else attend ex scale q ks vs)"
proof -
  let ?hi = "if causal then min N ((m div BM + 1) * BM) else N"
  let ?S = "\<lambda>j. dot q (ks ! j) * scale"
  define J where "J = (if causal then {..m} else {..<N})"
  obtain m_i l acc where s: "fold (\<lambda>t. flash_tile ex scale causal N BN m ks vs q (t * BN)) [0..<cdiv ?hi BN] (None, 0, replicate (length q) 0) = (m_i, l, acc)"
    by (metis prod.exhaust)
  have "m < (m div BM + 1) * BM" using BM by (simp add: dividend_less_div_times)
  then have hi: "causal \<longrightarrow> m < ?hi" "\<not> causal \<longrightarrow> ?hi = N" using m by simp_all
  have "?hi \<le> cdiv ?hi BN * BN" by (rule cdiv_mult_ge [OF BN])
  then have "seen causal N m (cdiv ?hi BN * BN) = J" using hi m unfolding seen_def J_def by (cases causal) auto
  with flash_tiles [OF ex, of q ks scale vs causal N m "cdiv ?hi BN" BN]
  have st: "softmax_state ex (length q) ?S vs J (m_i, l, acc)" by (simp only: s)
  have "m \<in> J" using m by (simp add: J_def)
  then obtain M where M: "m_i = Some M" using st by (cases m_i) (auto simp: softmax_state_def)
  have c: "ex (- M) \<noteq> 0" by (rule is_expD(3) [OF ex])
  have "(\<Sum>j \<in> J. ex (?S j - M) * g j) = ex (- M) * (\<Sum>j \<in> J. ex (?S j) * g j)" for g
    by (simp add: is_expD(4) [OF ex] sum_distrib_left mult_ac)
  from this [of "\<lambda>_. 1"] this
  have row: "flash_row ex scale causal N BM BN ks vs q m
      = map (\<lambda>d. (\<Sum>j \<in> J. ex (?S j) * vs ! j ! d) / (\<Sum>j \<in> J. ex (?S j))) [0..<length q]"
    using st c M unfolding flash_row_def Let_def s by (simp add: softmax_state_def)
  show ?thesis
  proof (cases causal)
    case True
    have "{..<min (length ks) (Suc m)} = J" using True m len by (auto simp: J_def)
    moreover have "min (length vs) (Suc m) = Suc m" "J = {..<Suc m}" using True m len by (auto simp: J_def)
    ultimately show ?thesis unfolding row using True len m by (simp add: attend_sums)
  next
    case False
    then show ?thesis unfolding row using len by (simp add: attend_sums J_def)
  qed
qed

lemma flash_attention_eq:
  assumes "is_exp ex" "0 < BM" "0 < BN" "length ks = length qs" "length vs = length qs"
  shows "flash_attention_forward ex scale True BM BN qs ks vs = Inr (causal_attention ex scale qs ks vs)"
  using assms by (simp add: flash_attention_forward_def causal_attention_def flash_row_eq)

end
