(* ===== verification/KV_Cache.thy ===== *)
theory KV_Cache
  imports Request
begin

text \<open>
  \<^verbatim>\<open>model/kv_cache.py\<close>: the physical store behind the block ids.  A cell is one token's K
  (or V) of one layer, a list of heads; it is stored as it is, or with \<open>int8_kv\<close> as integers
  with one scale per head.  The tensors of shape
  \<open>[n_layers, num_gpu_blocks, block_size, num_kv_heads, head_dim]\<close> are functions of layer,
  block and offset, with the shape in the record and an index past it an \<open>IndexError\<close>.

  The numbers are those of an ordered field with a floor (rationals, reals): the arithmetic is
  exact, the rounding of bf16 and fp32 is not modelled, the rounding to int8 is.
\<close>

subsection \<open>Quantization\<close>

type_synonym 'a heads = "'a list list"

datatype 'a kv_cell = Plain "'a heads" | Int8 "int list list" "'a list"

text \<open>\<open>torch.round\<close>: to the nearest integer, halves to even.\<close>

definition torch_round :: "'a::floor_ceiling \<Rightarrow> int" where
  "torch_round x =
     (let f = \<lfloor>x\<rfloor>; d = x - of_int f in
      if d < 1 / 2 then f else if 1 / 2 < d then f + 1 else if even f then f else f + 1)"

definition amax :: "'a::linordered_field list \<Rightarrow> 'a" where
  "amax xs = fold (\<lambda>x m. max \<bar>x\<bar> m) xs 0"

definition head_scale :: "'a::linordered_field list \<Rightarrow> 'a" where
  "head_scale xs = max (amax xs) (1 / 100000000) / 127"

definition clamp :: "int \<Rightarrow> int \<Rightarrow> int \<Rightarrow> int" where
  "clamp lo hi x = min hi (max lo x)"

definition quantize_head :: "'a::floor_ceiling list \<Rightarrow> int list \<times> 'a" where
  "quantize_head xs = (let s = head_scale xs in (map (\<lambda>x. clamp (-127) 127 (torch_round (x / s))) xs, s))"

definition quantize_row :: "'a::floor_ceiling heads \<Rightarrow> 'a kv_cell" where
  "quantize_row hs = Int8 (map (\<lambda>h. fst (quantize_head h)) hs) (map head_scale hs)"

definition dequantize :: "int list list \<Rightarrow> 'a::floor_ceiling list \<Rightarrow> 'a heads" where
  "dequantize qs ss = map2 (\<lambda>q s. map (\<lambda>i. of_int i * s) q) qs ss"

subsection \<open>The cache\<close>

datatype torch_dtype = bfloat16 | float16 | float32

record 'a kv_cache =
  kv_block_size :: int
  kv_num_blocks :: int
  kv_compute_dtype :: torch_dtype
  kv_int8 :: bool
  kv_n_layers :: nat
  kv_num_heads :: nat
  kv_head_dim :: nat
  kv_k :: "nat \<Rightarrow> nat \<Rightarrow> nat \<Rightarrow> 'a kv_cell"
  kv_v :: "nat \<Rightarrow> nat \<Rightarrow> nat \<Rightarrow> 'a kv_cell"

text \<open>A cell never written reads as zeros, with scale one where it is quantized.\<close>

definition blank_cell :: "bool \<Rightarrow> nat \<Rightarrow> nat \<Rightarrow> 'a::floor_ceiling kv_cell" where
  "blank_cell i8 h d =
     (if i8 then Int8 (replicate h (replicate d 0)) (replicate h 1) else Plain (replicate h (replicate d 0)))"

definition PagedKVCache :: "int \<Rightarrow> int \<Rightarrow> bool \<Rightarrow> torch_dtype \<Rightarrow> nat \<Rightarrow> nat \<Rightarrow> nat \<Rightarrow> 'a::floor_ceiling kv_cache" where
  "PagedKVCache bs nb i8 dt n h d =
     \<lparr>kv_block_size = bs, kv_num_blocks = nb, kv_compute_dtype = dt, kv_int8 = i8, kv_n_layers = n,
      kv_num_heads = h, kv_head_dim = d, kv_k = (\<lambda>_ _ _. blank_cell i8 h d), kv_v = (\<lambda>_ _ _. blank_cell i8 h d)\<rparr>"

definition encode_row :: "bool \<Rightarrow> 'a::floor_ceiling heads \<Rightarrow> 'a kv_cell" where
  "encode_row i8 hs = (if i8 then quantize_row hs else Plain hs)"

fun decode_row :: "'a::floor_ceiling kv_cell \<Rightarrow> 'a heads" where
  "decode_row (Plain hs) = hs"
| "decode_row (Int8 q s) = dequantize q s"

text \<open>Where a sequence position lives: \<open>table[pos // block_size]\<close> and \<open>pos % block_size\<close>.\<close>

definition physical_location :: "'a kv_cache \<Rightarrow> request \<Rightarrow> int \<Rightarrow> (nat \<times> nat) or_raise" where
  "physical_location c r pos =
     bindE (py_nth (block_table r) (nat (pos div kv_block_size c))) (\<lambda>b.
       if int b < kv_num_blocks c then Inr (b, nat (pos mod kv_block_size c)) else Inl IndexError)"

definition physical_locations :: "'a kv_cache \<Rightarrow> request \<Rightarrow> int \<Rightarrow> int \<Rightarrow> (nat \<times> nat) list or_raise" where
  "physical_locations c r a b = mapE (physical_location c r) [a..b - 1]"

text \<open>The scatter \<open>cache[layer, blocks, offsets] = rows\<close>.\<close>

definition scatter :: "nat \<Rightarrow> (nat \<times> nat) list \<Rightarrow> 'c list \<Rightarrow> (nat \<Rightarrow> nat \<Rightarrow> nat \<Rightarrow> 'c) \<Rightarrow> (nat \<Rightarrow> nat \<Rightarrow> nat \<Rightarrow> 'c)" where
  "scatter l locs cells t =
     fold (\<lambda>((b, i), cell) t. t(l := (t l)(b := (t l b)(i := cell)))) (zip locs cells) t"

definition gather_cells :: "nat \<Rightarrow> (nat \<times> nat) list \<Rightarrow> (nat \<Rightarrow> nat \<Rightarrow> nat \<Rightarrow> 'c) \<Rightarrow> 'c list" where
  "gather_cells l locs t = map (\<lambda>(b, i). t l b i) locs"

text \<open>
  The assigned rows are broadcast to the shape \<open>[len(locs), num_kv_heads, head_dim]\<close> of the indexed
  cells: a dimension must agree or be 1, else torch raises a \<open>RuntimeError\<close>.
\<close>

definition broadcast_dim :: "nat \<Rightarrow> 'b list \<Rightarrow> 'b list option" where
  "broadcast_dim n xs = (if length xs = n then Some xs else if length xs = 1 then Some (replicate n (hd xs)) else None)"

definition broadcast_row :: "nat \<Rightarrow> nat \<Rightarrow> 'a heads \<Rightarrow> 'a heads option" where
  "broadcast_row nh d hs = Option.bind (broadcast_dim nh hs) (\<lambda>hs. those (map (broadcast_dim d) hs))"

definition broadcast_rows :: "nat \<Rightarrow> nat \<Rightarrow> nat \<Rightarrow> 'a heads list \<Rightarrow> 'a heads list option" where
  "broadcast_rows n nh d rows = Option.bind (broadcast_dim n rows) (\<lambda>rows. those (map (broadcast_row nh d) rows))"

definition kv_write :: "nat \<Rightarrow> request \<Rightarrow> int \<Rightarrow> 'a::floor_ceiling heads list \<Rightarrow> 'a heads list
    \<Rightarrow> 'a kv_cache \<Rightarrow> 'a kv_cache or_raise" where
  "kv_write l r start ks vs c =
     bindE (physical_locations c r start (start + int (length ks))) (\<lambda>locs.
       if kv_n_layers c \<le> l then Inl IndexError
       else
         case (broadcast_rows (length locs) (kv_num_heads c) (kv_head_dim c) ks,
               broadcast_rows (length locs) (kv_num_heads c) (kv_head_dim c) vs) of
           (Some ks', Some vs') \<Rightarrow>
             Inr (c\<lparr>kv_k := scatter l locs (map (encode_row (kv_int8 c)) ks') (kv_k c),
                    kv_v := scatter l locs (map (encode_row (kv_int8 c)) vs') (kv_v c)\<rparr>)
         | _ \<Rightarrow> Inl RuntimeError)"

definition kv_read :: "nat \<Rightarrow> request \<Rightarrow> int \<Rightarrow> 'a::floor_ceiling kv_cache \<Rightarrow> ('a heads list \<times> 'a heads list) or_raise" where
  "kv_read l r n c =
     bindE (physical_locations c r 0 n) (\<lambda>locs.
       if kv_n_layers c \<le> l then Inl IndexError
       else Inr (map decode_row (gather_cells l locs (kv_k c)), map decode_row (gather_cells l locs (kv_v c))))"

text \<open>A row of the shape of a cache: so many heads, each of so many numbers.\<close>

definition row_shaped :: "nat \<Rightarrow> nat \<Rightarrow> 'b list list \<Rightarrow> bool" where
  "row_shaped nh d hs \<longleftrightarrow> length hs = nh \<and> list_all (\<lambda>h. length h = d) hs"

abbreviation rows_shaped :: "'a kv_cache \<Rightarrow> 'b list list list \<Rightarrow> bool" where
  "rows_shaped c rows \<equiv> list_all (row_shaped (kv_num_heads c) (kv_head_dim c)) rows"

lemma those_map_Some: "(\<And>x. x \<in> set xs \<Longrightarrow> f x = Some x) \<Longrightarrow> those (map f xs) = Some xs"
  by (induction xs) auto

lemma those_map_all: "those (map f xs) = Some ys \<Longrightarrow> (\<And>x y. f x = Some y \<Longrightarrow> P y) \<Longrightarrow> list_all P ys \<and> length ys = length xs"
  by (induction xs arbitrary: ys) (auto split: option.splits)

lemma broadcast_dim_length: "broadcast_dim n xs = Some ys \<Longrightarrow> length ys = n"
  by (auto simp: broadcast_dim_def split: if_splits)

lemma broadcast_rows_shaped:
  "length rows = n \<Longrightarrow> list_all (row_shaped nh d) rows \<Longrightarrow> broadcast_rows n nh d rows = Some rows"
  by (auto simp: broadcast_rows_def broadcast_row_def broadcast_dim_def row_shaped_def list_all_iff intro!: those_map_Some)

lemma broadcast_row_result: "broadcast_row nh d hs = Some hs' \<Longrightarrow> row_shaped nh d hs'"
  using those_map_all [of "broadcast_dim d" _ hs' "\<lambda>h. length h = d"] broadcast_dim_length
  unfolding broadcast_row_def row_shaped_def bind_eq_Some_conv by metis

lemma broadcast_rows_result: "broadcast_rows n nh d rows = Some rows' \<Longrightarrow> length rows' = n \<and> list_all (row_shaped nh d) rows'"
  using those_map_all [of "broadcast_row nh d" _ rows' "row_shaped nh d"] broadcast_dim_length broadcast_row_result
  unfolding broadcast_rows_def bind_eq_Some_conv by metis

subsection \<open>Transfer between two caches\<close>

text \<open>
  An exported bundle: per layer, the rows of the first positions; its dtype and per-token
  shape travel with the tensor.
\<close>

record 'a kv_bundle =
  kb_dtype :: torch_dtype
  kb_seq_len :: nat
  kb_heads :: nat
  kb_head_dim :: nat
  kb_k :: "'a heads list list"
  kb_v :: "'a heads list list"

definition export_request_kv :: "request \<Rightarrow> int \<Rightarrow> 'a::floor_ceiling kv_cache \<Rightarrow> 'a kv_bundle or_raise" where
  "export_request_kv r n c =
     bindE (mapE (\<lambda>l. kv_read l r n c) [0..<kv_n_layers c]) (\<lambda>kvs.
       Inr \<lparr>kb_dtype = kv_compute_dtype c, kb_seq_len = nat n, kb_heads = kv_num_heads c,
            kb_head_dim = kv_head_dim c, kb_k = map fst kvs, kb_v = map snd kvs\<rparr>)"

definition import_request_kv :: "request \<Rightarrow> 'a::floor_ceiling kv_bundle \<Rightarrow> 'a kv_cache \<Rightarrow> 'a kv_cache or_raise" where
  "import_request_kv r b c =
     (if length (kb_k b) \<noteq> length (kb_v b) then Inl AssertionError
      else if \<not> (length (kb_k b) = kv_n_layers c \<and> kb_heads b = kv_num_heads c \<and> kb_head_dim b = kv_head_dim c)
      then Inl AssertionError
      else if kb_dtype b \<noteq> kv_compute_dtype c then Inl AssertionError
      else foldE (\<lambda>l. kv_write l r 0 (kb_k b ! l) (kb_v b ! l)) [0..<kv_n_layers c] c)"

subsection \<open>Locations\<close>

definition loc :: "int \<Rightarrow> block_id list \<Rightarrow> int \<Rightarrow> nat \<times> nat" where
  "loc bs table pos = (table ! nat (pos div bs), nat (pos mod bs))"

definition covers :: "'a kv_cache \<Rightarrow> request \<Rightarrow> int \<Rightarrow> bool" where
  "covers c r n \<longleftrightarrow> 0 < kv_block_size c \<and> n \<le> int (length (block_table r)) * kv_block_size c
     \<and> (\<forall>b \<in> set (block_table r). int b < kv_num_blocks c)"

lemma block_index_less:
  assumes "0 < (bs::int)" "0 \<le> pos" "pos < int n * bs" shows "nat (pos div bs) < n"
proof -
  have "pos div bs < int n" using assms(3) int_le_div_iff [OF assms(1), of "int n" pos] by linarith
  then show ?thesis using assms(1,2) by (simp add: nat_less_iff pos_imp_zdiv_nonneg_iff)
qed

lemma physical_location_ok:
  assumes "covers c r n" "0 \<le> pos" "pos < n"
  shows "physical_location c r pos = Inr (loc (kv_block_size c) (block_table r) pos)"
proof -
  have "nat (pos div kv_block_size c) < length (block_table r)"
    using assms by (intro block_index_less) (auto simp: covers_def)
  then show ?thesis using assms(1)
    by (auto simp: physical_location_def py_nth_def loc_def covers_def)
qed

lemma physical_locations_ok:
  assumes "covers c r n" "0 \<le> a" "b \<le> n"
  shows "physical_locations c r a b = Inr (map (loc (kv_block_size c) (block_table r)) [a..b - 1])"
  unfolding physical_locations_def
  by (rule mapE_all_Inr) (use assms in \<open>auto intro!: physical_location_ok\<close>)

lemma loc_inj:
  assumes "0 < bs" "distinct table" "0 \<le> p" "0 \<le> q" "p < int (length table) * bs" "q < int (length table) * bs"
    and eq: "loc bs table p = loc bs table q"
  shows "p = q"
proof -
  have i: "nat (p div bs) < length table" "nat (q div bs) < length table"
    using assms by (auto intro: block_index_less)
  then have "nat (p div bs) = nat (q div bs)"
    using assms(2) eq by (simp add: loc_def nth_eq_iff_index_eq)
  then have d: "p div bs = q div bs"
    using assms(1,3,4) by (metis eq_nat_nat_iff pos_imp_zdiv_nonneg_iff)
  have "nat (p mod bs) = nat (q mod bs)" using eq by (simp add: loc_def)
  then have "p mod bs = q mod bs" using assms(1) by (metis eq_nat_nat_iff pos_mod_sign)
  with d show ?thesis by (metis mult_div_mod_eq)
qed

lemma loc_block: 
  assumes "0 < bs" "0 \<le> p" "p < int (length table) * bs" shows "fst (loc bs table p) \<in> set table"
  using block_index_less [OF assms] by (simp add: loc_def)

lemma distinct_locs:
  assumes "covers c r n" "distinct (block_table r)" "0 \<le> a" "b \<le> n"
  shows "distinct (map (loc (kv_block_size c) (block_table r)) [a..b - 1])"
proof -
  have "inj_on (loc (kv_block_size c) (block_table r)) (set [a..b - 1])"
    using assms by (intro inj_onI) (rule loc_inj, auto simp: covers_def)
  then show ?thesis by (simp add: distinct_map)
qed

subsection \<open>Scatter and gather_cells\<close>

lemma scatter_Nil [simp]: "scatter l [] cells t = t"
  by (simp add: scatter_def)

lemma scatter_Cons [simp]:
  "scatter l (p # locs) (x # cells) t = scatter l locs cells (t(l := (t l)(fst p := (t l (fst p))(snd p := x))))"
  by (cases p) (simp add: scatter_def)

lemma scatter_other:
  "l' \<noteq> l \<or> (b, i) \<notin> set locs \<Longrightarrow> length cells = length locs \<Longrightarrow> scatter l locs cells t l' b i = t l' b i"
proof (induction locs arbitrary: cells t)
  case (Cons p locs)
  obtain x xs where c: "cells = x # xs" using Cons.prems(2) by (cases cells) auto
  have "scatter l locs xs (t(l := (t l)(fst p := (t l (fst p))(snd p := x)))) l' b i
      = (t(l := (t l)(fst p := (t l (fst p))(snd p := x)))) l' b i"
    using Cons.prems c by (intro Cons.IH) auto
  then show ?case using Cons.prems c by (cases p) auto
qed simp

lemma gather_scatter:
  "distinct locs \<Longrightarrow> length cells = length locs \<Longrightarrow> gather_cells l locs (scatter l locs cells t) = cells"
proof (induction locs arbitrary: cells t)
  case Nil
  then show ?case by (simp add: gather_cells_def)
next
  case (Cons p locs)
  obtain x xs where c: "cells = x # xs" "length xs = length locs" using Cons.prems(2) by (cases cells) auto
  let ?t = "t(l := (t l)(fst p := (t l (fst p))(snd p := x)))"
  have "scatter l locs xs ?t l (fst p) (snd p) = ?t l (fst p) (snd p)"
    using Cons.prems(1) c by (intro scatter_other) auto
  moreover have "gather_cells l locs (scatter l locs xs ?t) = xs" using Cons.prems(1) c by (intro Cons.IH) auto
  ultimately show ?case by (simp add: c gather_cells_def split_def)
qed

lemma gather_scatter_other:
  "set locs' \<inter> set locs = {} \<Longrightarrow> length cells = length locs \<Longrightarrow> gather_cells l locs' (scatter l locs cells t) = gather_cells l locs' t"
  by (auto simp: gather_cells_def intro!: scatter_other)

subsection \<open>Codecs\<close>

text \<open>
  What the cache needs of a storage format: decoding what was encoded gives back a row close
  to it.  The plain format returns it, the int8 format stays within half a quantization step.
\<close>

locale row_codec =
  fixes enc :: "'r \<Rightarrow> 'c" and dec :: "'c \<Rightarrow> 'r" and ok :: "'r \<Rightarrow> bool" and close :: "'r \<Rightarrow> 'r \<Rightarrow> bool"
  assumes dec_enc: "ok x \<Longrightarrow> close x (dec (enc x))"
begin

lemma stored_rows_close:
  assumes "distinct locs" "length rows = length locs" "\<forall>x \<in> set rows. ok x"
  shows "list_all2 close rows (map dec (gather_cells l locs (scatter l locs (map enc rows) t)))"
  using assms by (simp add: gather_scatter list_all2_map2 comp_def list_all2_same dec_enc)

end

interpretation plain: row_codec "encode_row False" decode_row "\<lambda>_. True" "(=)"
  by unfold_locales (simp add: encode_row_def)

text \<open>Half a quantization step, per head.\<close>

definition within_step :: "'a::floor_ceiling heads \<Rightarrow> 'a heads \<Rightarrow> bool" where
  "within_step = list_all2 (\<lambda>h h'. list_all2 (\<lambda>x y. \<bar>x - y\<bar> \<le> head_scale h / 2) h h')"

lemma torch_round_error: "\<bar>x - of_int (torch_round x)\<bar> \<le> 1 / 2"
proof -
  have "of_int \<lfloor>x\<rfloor> \<le> x" "x < of_int \<lfloor>x\<rfloor> + 1" by linarith+
  then show ?thesis by (auto simp: torch_round_def Let_def abs_le_iff)
qed

lemma torch_round_bound:
  assumes "\<bar>x\<bar> \<le> of_int n" shows "\<bar>torch_round x\<bar> \<le> n"
proof -
  have "of_int \<bar>torch_round x\<bar> \<le> \<bar>x\<bar> + 1 / 2" using torch_round_error [of x] by (simp add: abs_if split: if_splits)
  also have "\<dots> < of_int n + 1" using assms by (simp add: field_simps)
  finally have "(of_int \<bar>torch_round x\<bar> :: 'a) < of_int (n + 1)" by simp
  then show ?thesis by (simp only: of_int_less_iff)
qed

lemma fold_max_ge: "(m::'a::linordered_field) \<le> fold (\<lambda>x m. max \<bar>x\<bar> m) xs m"
  by (induction xs arbitrary: m) (auto intro: order_trans [OF max.cobounded2])

lemma amax_ge: "x \<in> set xs \<Longrightarrow> \<bar>x\<bar> \<le> amax xs"
proof -
  have "x \<in> set xs \<Longrightarrow> \<bar>x\<bar> \<le> fold (\<lambda>x m. max \<bar>x\<bar> m) xs m" for m
    by (induction xs arbitrary: m) (auto intro: order_trans [OF max.cobounded1 fold_max_ge])
  then show "x \<in> set xs \<Longrightarrow> \<bar>x\<bar> \<le> amax xs" by (simp add: amax_def)
qed

lemma head_scale_pos: "0 < head_scale xs"
  by (simp add: head_scale_def less_max_iff_disj)

lemma head_scale_ge: "x \<in> set xs \<Longrightarrow> \<bar>x\<bar> \<le> 127 * head_scale xs"
  using amax_ge [of x xs] by (simp add: head_scale_def le_max_iff_disj)

lemma quantized_element:
  assumes "x \<in> set h"
  shows "\<bar>x - of_int (clamp (-127) 127 (torch_round (x / head_scale h))) * head_scale h\<bar> \<le> head_scale h / 2"
proof -
  let ?s = "head_scale h" and ?q = "torch_round (x / head_scale h)"
  note s = head_scale_pos [of h]
  have "\<bar>x / ?s\<bar> \<le> of_int 127" using head_scale_ge [OF assms] s by (simp add: field_simps abs_divide)
  then have "\<bar>?q\<bar> \<le> 127" by (rule torch_round_bound)
  then have c: "clamp (-127) 127 ?q = ?q" by (auto simp: clamp_def)
  have "\<bar>x - of_int ?q * ?s\<bar> = \<bar>x / ?s - of_int ?q\<bar> * ?s"
    using s by (simp add: abs_mult_pos left_diff_distrib)
  also have "\<dots> \<le> 1 / 2 * ?s" using torch_round_error [of "x / ?s"] s by (intro mult_right_mono) auto
  finally show ?thesis unfolding c by simp
qed

interpretation int8: row_codec "encode_row True" decode_row "\<lambda>_. True" within_step
proof unfold_locales
  fix x :: "'a heads"
  have "list_all2 (\<lambda>a b. \<bar>a - b\<bar> \<le> head_scale h / 2) h
      (map (\<lambda>i. of_int i * head_scale h) (fst (quantize_head h)))" for h :: "'a list"
    unfolding quantize_head_def Let_def fst_conv map_map list_all2_map2 list_all2_same comp_def
    using quantized_element by blast
  then show "within_step x (decode_row (encode_row True x))"
    by (auto simp: encode_row_def quantize_row_def dequantize_def within_step_def zip_map_map zip_same_conv_map
        list_all2_map2 comp_def list_all2_same split_def)
qed

subsection \<open>Reading and writing sequence positions\<close>

text \<open>The row a cache holds for a sequence position.\<close>

definition k_row :: "'a::floor_ceiling kv_cache \<Rightarrow> nat \<Rightarrow> block_id list \<Rightarrow> int \<Rightarrow> 'a heads" where
  "k_row c l table p = (case loc (kv_block_size c) table p of (b, i) \<Rightarrow> decode_row (kv_k c l b i))"

definition v_row :: "'a::floor_ceiling kv_cache \<Rightarrow> nat \<Rightarrow> block_id list \<Rightarrow> int \<Rightarrow> 'a heads" where
  "v_row c l table p = (case loc (kv_block_size c) table p of (b, i) \<Rightarrow> decode_row (kv_v c l b i))"

lemma kv_read_ok:
  assumes "covers c r n" and l: "l < kv_n_layers c"
  shows "kv_read l r n c = Inr (map (k_row c l (block_table r)) [0..n - 1], map (v_row c l (block_table r)) [0..n - 1])"
  using l by (simp add: kv_read_def physical_locations_ok [OF assms(1)] gather_cells_def k_row_def v_row_def split_def comp_def)

lemma kv_write_ok:
  assumes "covers c r n" "0 \<le> start" "start + int (length ks) \<le> n"
    and "l < kv_n_layers c" "rows_shaped c ks" "rows_shaped c vs" "length vs = length ks"
  shows "kv_write l r start ks vs c =
    (let locs = map (loc (kv_block_size c) (block_table r)) [start..start + int (length ks) - 1]
     in Inr (c\<lparr>kv_k := scatter l locs (map (encode_row (kv_int8 c)) ks) (kv_k c),
               kv_v := scatter l locs (map (encode_row (kv_int8 c)) vs) (kv_v c)\<rparr>))"
  using assms(4-7) by (simp add: kv_write_def physical_locations_ok [OF assms(1-3)] Let_def broadcast_rows_shaped)

lemma kv_layer_IndexError:
  assumes "kv_n_layers c \<le> l" and "covers c r n"
  shows "kv_read l r n c = Inl IndexError"
    and "0 \<le> start \<Longrightarrow> start + int (length ks) \<le> n \<Longrightarrow> kv_write l r start ks vs c = Inl IndexError"
  using assms by (simp_all add: kv_read_def kv_write_def physical_locations_ok [OF assms(2)])

lemma kv_write_shape:
  assumes "kv_write l r start ks vs c = Inr c'"
  shows "kv_block_size c' = kv_block_size c" "kv_num_blocks c' = kv_num_blocks c" "kv_int8 c' = kv_int8 c"
    "kv_n_layers c' = kv_n_layers c" "kv_num_heads c' = kv_num_heads c" "kv_head_dim c' = kv_head_dim c"
    "kv_compute_dtype c' = kv_compute_dtype c" "covers c' = covers c"
  using assms by (auto simp: kv_write_def bindE_Inr_iff covers_def fun_eq_iff split: if_splits option.splits)

text \<open>A written position reads as what was stored there; every other position of the same
request, every position of a request that shares no block, and every other layer is as before.\<close>

lemma scatter_at:
  assumes "distinct locs" "length cells = length locs" "j < length locs"
  shows "scatter l locs cells t l (fst (locs ! j)) (snd (locs ! j)) = cells ! j"
proof -
  have "gather_cells l locs (scatter l locs cells t) ! j = cells ! j" using gather_scatter [OF assms(1,2)] by metis
  then show ?thesis using assms(3) by (simp add: gather_cells_def split_def)
qed

lemma kv_write_same:
  assumes w: "kv_write l r start ks vs c = Inr c'" and cov: "covers c r n" and d: "distinct (block_table r)"
    and pos: "0 \<le> start" "start + int (length ks) \<le> n" and fit: "l < kv_n_layers c" "rows_shaped c ks" "rows_shaped c vs"
    and len: "length vs = length ks" and j: "j < length ks"
  shows "k_row c' l (block_table r) (start + int j) = decode_row (encode_row (kv_int8 c) (ks ! j))"
    "v_row c' l (block_table r) (start + int j) = decode_row (encode_row (kv_int8 c) (vs ! j))"
proof -
  let ?locs = "map (loc (kv_block_size c) (block_table r)) [start..start + int (length ks) - 1]"
  have dl: "distinct ?locs" by (rule distinct_locs [OF cov d pos])
  have ll: "length ?locs = length ks" by simp
  have at: "?locs ! j = loc (kv_block_size c) (block_table r) (start + int j)" using j by (simp add: nth_upto)
  have c': "kv_k c' = scatter l ?locs (map (encode_row (kv_int8 c)) ks) (kv_k c)"
    "kv_v c' = scatter l ?locs (map (encode_row (kv_int8 c)) vs) (kv_v c)" "kv_block_size c' = kv_block_size c"
    using w kv_write_ok [OF cov pos fit len] by (auto simp: Let_def)
  show "k_row c' l (block_table r) (start + int j) = decode_row (encode_row (kv_int8 c) (ks ! j))"
    using scatter_at [OF dl, of "map (encode_row (kv_int8 c)) ks" j l "kv_k c"] j
    unfolding k_row_def c' split_def at by simp
  show "v_row c' l (block_table r) (start + int j) = decode_row (encode_row (kv_int8 c) (vs ! j))"
    using scatter_at [OF dl, of "map (encode_row (kv_int8 c)) vs" j l "kv_v c"] j len
    unfolding v_row_def c' split_def at by simp
qed

lemma kv_write_other:
  assumes w: "kv_write l r start ks vs c = Inr c'" and cov: "covers c r n"
    and pos: "0 \<le> start" "start + int (length ks) \<le> n"
    and other: "l' \<noteq> l \<or> loc (kv_block_size c) table p \<notin> loc (kv_block_size c) (block_table r) ` {start..<start + int (length ks)}"
  shows "k_row c' l' table p = k_row c l' table p" "v_row c' l' table p = v_row c l' table p"
proof -
  let ?locs = "map (loc (kv_block_size c) (block_table r)) [start..start + int (length ks) - 1]"
  obtain ks' vs' where c': "kv_k c' = scatter l ?locs (map (encode_row (kv_int8 c)) ks') (kv_k c)"
    "kv_v c' = scatter l ?locs (map (encode_row (kv_int8 c)) vs') (kv_v c)" "kv_block_size c' = kv_block_size c"
    and len: "length ks' = length ?locs" "length vs' = length ?locs"
    using w by (auto simp: kv_write_def physical_locations_ok [OF cov pos] dest!: broadcast_rows_result split: if_splits option.splits)
  have "{start..start + int (length ks) - 1} = {start..<start + int (length ks)}" by auto
  then have o: "l' \<noteq> l \<or> (fst (loc (kv_block_size c) table p), snd (loc (kv_block_size c) table p)) \<notin> set ?locs"
    using other by simp
  show "k_row c' l' table p = k_row c l' table p" "v_row c' l' table p = v_row c l' table p"
    using len by (simp_all only: k_row_def v_row_def split_def c' scatter_other [OF o] length_map)
qed

lemma kv_write_before:
  assumes w: "kv_write l r start ks vs c = Inr c'" and cov: "covers c r n" and d: "distinct (block_table r)"
    and pos: "0 \<le> start" "start + int (length ks) \<le> n"
    and p: "0 \<le> p" "p < n" "p \<notin> {start..<start + int (length ks)}"
  shows "k_row c' l' (block_table r) p = k_row c l' (block_table r) p" "v_row c' l' (block_table r) p = v_row c l' (block_table r) p"
proof -
  have "loc (kv_block_size c) (block_table r) p \<noteq> loc (kv_block_size c) (block_table r) q"
    if "q \<in> {start..<start + int (length ks)}" for q
    using loc_inj [of "kv_block_size c" "block_table r" p q] cov d pos p that by (auto simp: covers_def)
  then show "k_row c' l' (block_table r) p = k_row c l' (block_table r) p" "v_row c' l' (block_table r) p = v_row c l' (block_table r) p"
    by (intro kv_write_other [OF w cov pos]; blast)+
qed

lemma kv_write_disjoint:
  assumes w: "kv_write l r start ks vs c = Inr c'" and cov: "covers c r n"
    and pos: "0 \<le> start" "start + int (length ks) \<le> n"
    and dis: "set table \<inter> set (block_table r) = {}" and p: "0 \<le> p" "p < int (length table) * kv_block_size c"
  shows "k_row c' l' table p = k_row c l' table p" "v_row c' l' table p = v_row c l' table p"
proof -
  have bs: "0 < kv_block_size c" using cov by (simp add: covers_def)
  have "fst (loc (kv_block_size c) table p) \<in> set table" by (rule loc_block [OF bs p])
  moreover have "fst (loc (kv_block_size c) (block_table r) q) \<in> set (block_table r)"
    if "q \<in> {start..<start + int (length ks)}" for q
    using that cov pos by (intro loc_block) (auto simp: covers_def)
  ultimately have "loc (kv_block_size c) table p \<notin> loc (kv_block_size c) (block_table r) ` {start..<start + int (length ks)}"
    using dis by auto
  then show "k_row c' l' table p = k_row c l' table p" "v_row c' l' table p = v_row c l' table p"
    by (intro kv_write_other [OF w cov pos]; blast)+
qed

subsection \<open>Transfer\<close>

definition import_layer :: "request \<Rightarrow> 'a::floor_ceiling kv_bundle \<Rightarrow> nat \<Rightarrow> 'a kv_cache \<Rightarrow> 'a kv_cache or_raise" where
  "import_layer r b l = kv_write l r 0 (kb_k b ! l) (kb_v b ! l)"

definition imported :: "request \<Rightarrow> 'a::floor_ceiling kv_bundle \<Rightarrow> 'a kv_cache \<Rightarrow> nat \<Rightarrow> bool" where
  "imported r b c l \<longleftrightarrow> (\<forall>j < kb_seq_len b.
     k_row c l (block_table r) (int j) = decode_row (encode_row (kv_int8 c) (kb_k b ! l ! j))
     \<and> v_row c l (block_table r) (int j) = decode_row (encode_row (kv_int8 c) (kb_v b ! l ! j)))"

definition bundle_ok :: "'a kv_bundle \<Rightarrow> bool" where
  "bundle_ok b \<longleftrightarrow> length (kb_v b) = length (kb_k b)
     \<and> (\<forall>l < length (kb_k b). length (kb_k b ! l) = kb_seq_len b \<and> length (kb_v b ! l) = kb_seq_len b
          \<and> list_all (row_shaped (kb_heads b) (kb_head_dim b)) (kb_k b ! l @ kb_v b ! l))"

lemma import_layers:
  assumes "bundle_ok b" "m \<le> length (kb_k b)" "covers c r (int (kb_seq_len b))" "distinct (block_table r)"
    and "length (kb_k b) \<le> kv_n_layers c" "kb_heads b = kv_num_heads c" "kb_head_dim b = kv_head_dim c"
  shows "\<exists>c'. foldE (import_layer r b) [0..<m] c = Inr c' \<and> covers c' = covers c \<and> kv_int8 c' = kv_int8 c
      \<and> kv_block_size c' = kv_block_size c \<and> kv_n_layers c' = kv_n_layers c
      \<and> kv_num_heads c' = kv_num_heads c \<and> kv_head_dim c' = kv_head_dim c
      \<and> (\<forall>l < m. imported r b c' l)"
  using assms(2)
proof (induction m)
  case 0
  then show ?case by simp
next
  case (Suc m)
  then obtain c1 where c1: "foldE (import_layer r b) [0..<m] c = Inr c1" "covers c1 = covers c" "kv_int8 c1 = kv_int8 c"
      "kv_block_size c1 = kv_block_size c" "\<forall>l < m. imported r b c1 l"
    and dims: "kv_n_layers c1 = kv_n_layers c" "kv_num_heads c1 = kv_num_heads c" "kv_head_dim c1 = kv_head_dim c"
    by auto
  have len: "length (kb_k b ! m) = kb_seq_len b" "length (kb_v b ! m) = kb_seq_len b"
    using assms(1) Suc.prems by (auto simp: bundle_ok_def)
  have fit: "m < kv_n_layers c1" "rows_shaped c1 (kb_k b ! m)" "rows_shaped c1 (kb_v b ! m)"
    using assms(1,5-7) Suc.prems dims by (auto simp: bundle_ok_def)
  have cov: "covers c1 r (int (kb_seq_len b))" using assms(3) c1(2) by simp
  have pos: "(0::int) \<le> 0" "0 + int (length (kb_k b ! m)) \<le> int (kb_seq_len b)" using len by simp_all
  obtain c2 where w: "kv_write m r 0 (kb_k b ! m) (kb_v b ! m) c1 = Inr c2"
    using kv_write_ok [OF cov pos fit] len by (simp add: Let_def)
  note sh = kv_write_shape [OF w]
  have "imported r b c2 l" if l: "l < Suc m" for l
  proof (cases "l = m")
    case True
    then show ?thesis
      using kv_write_same [OF w cov assms(4) pos fit] len sh(3) c1(3) by (auto simp: imported_def)
  next
    case False
    then have "k_row c2 l (block_table r) p = k_row c1 l (block_table r) p"
        "v_row c2 l (block_table r) p = v_row c1 l (block_table r) p" for p
      using kv_write_other [OF w cov pos, of l "block_table r" p] by auto
    then show ?thesis using c1(5) l False sh(3) by (simp add: imported_def)
  qed
  moreover have "foldE (import_layer r b) [0..<Suc m] c = Inr c2"
    using c1(1) w by (simp add: foldE_append import_layer_def)
  ultimately show ?case using sh c1(2-4) dims by auto
qed

lemma mapE_Inr_nth: "mapE f xs = Inr ys \<Longrightarrow> i < length xs \<Longrightarrow> f (xs ! i) = Inr (ys ! i)"
  by (auto simp: mapE_Inr_iff list_all2_conv_all_nth)

lemma export_ok:
  assumes "covers c r n" "0 \<le> n"
  shows "export_request_kv r n c = Inr \<lparr>kb_dtype = kv_compute_dtype c, kb_seq_len = nat n, kb_heads = kv_num_heads c,
      kb_head_dim = kv_head_dim c, kb_k = map (\<lambda>l. map (k_row c l (block_table r)) [0..n - 1]) [0..<kv_n_layers c],
      kb_v = map (\<lambda>l. map (v_row c l (block_table r)) [0..n - 1]) [0..<kv_n_layers c]\<rparr>"
proof -
  have "mapE (\<lambda>l. kv_read l r n c) [0..<kv_n_layers c]
      = Inr (map (\<lambda>l. (map (k_row c l (block_table r)) [0..n - 1], map (v_row c l (block_table r)) [0..n - 1])) [0..<kv_n_layers c])"
    by (intro mapE_all_Inr) (simp add: kv_read_ok [OF assms(1)])
  then show ?thesis by (simp add: export_request_kv_def comp_def)
qed

text \<open>The type of a cache: every cell has its storage format and shape.  A plain cell is a row of
heads; an int8 cell is a row of signed bytes, never \<open>-128\<close>, and one scale per head.\<close>

fun cell_typed :: "bool \<Rightarrow> nat \<Rightarrow> nat \<Rightarrow> 'a::floor_ceiling kv_cell \<Rightarrow> bool" where
  "cell_typed int8 nh d (Plain hs) = (\<not> int8 \<and> row_shaped nh d hs)"
| "cell_typed int8 nh d (Int8 qs ss) = (int8 \<and> row_shaped nh d qs \<and> list_all (list_all (\<lambda>q. -127 \<le> q \<and> q \<le> 127)) qs
     \<and> length ss = nh \<and> list_all (\<lambda>s. 0 \<le> s) ss)"

definition kv_typed :: "'a::floor_ceiling kv_cache \<Rightarrow> bool" where
  "kv_typed c \<longleftrightarrow> (\<forall>l b i. cell_typed (kv_int8 c) (kv_num_heads c) (kv_head_dim c) (kv_k c l b i)
     \<and> cell_typed (kv_int8 c) (kv_num_heads c) (kv_head_dim c) (kv_v c l b i))"

lemma decode_shaped: "cell_typed int8 nh d x \<Longrightarrow> row_shaped nh d (decode_row x)"
  by (cases x) (auto simp: row_shaped_def dequantize_def list_all_iff elim!: in_set_zipE)

lemma rows_typed: "kv_typed c \<Longrightarrow> row_shaped (kv_num_heads c) (kv_head_dim c) (k_row c l table p)"
  "kv_typed c \<Longrightarrow> row_shaped (kv_num_heads c) (kv_head_dim c) (v_row c l table p)"
  by (auto simp: k_row_def v_row_def kv_typed_def split_def intro!: decode_shaped)

lemma transfer:
  assumes src: "covers a r n" "0 \<le> n" "kv_typed a" and dst: "covers c r' n" "distinct (block_table r')"
    and shape: "kv_n_layers a = kv_n_layers c" "kv_num_heads a = kv_num_heads c" "kv_head_dim a = kv_head_dim c"
      "kv_compute_dtype a = kv_compute_dtype c"
  shows "\<exists>b c'. export_request_kv r n a = Inr b \<and> import_request_kv r' b c = Inr c' \<and> covers c' = covers c
      \<and> kv_int8 c' = kv_int8 c \<and> kv_block_size c' = kv_block_size c \<and>
    (\<forall>l < kv_n_layers c. \<forall>p \<in> {0..<n}.
      k_row c' l (block_table r') p = decode_row (encode_row (kv_int8 c) (k_row a l (block_table r) p)) \<and>
      v_row c' l (block_table r') p = decode_row (encode_row (kv_int8 c) (v_row a l (block_table r) p)))"
proof -
  obtain b where b: "export_request_kv r n a = Inr b"
    and kb: "kb_dtype b = kv_compute_dtype a" "kb_seq_len b = nat n" "kb_heads b = kv_num_heads a"
      "kb_head_dim b = kv_head_dim a" "kb_k b = map (\<lambda>l. map (k_row a l (block_table r)) [0..n - 1]) [0..<kv_n_layers a]"
      "kb_v b = map (\<lambda>l. map (v_row a l (block_table r)) [0..n - 1]) [0..<kv_n_layers a]"
    by (rule that [OF export_ok [OF src(1,2)]]) simp_all
  have ok: "bundle_ok b" using rows_typed [OF src(3)] by (auto simp: bundle_ok_def kb list_all_iff)
  have n: "int (kb_seq_len b) = n" using src(2) kb(2) by simp
  obtain c' where c': "foldE (import_layer r' b) [0..<kv_n_layers c] c = Inr c'" "covers c' = covers c"
      "kv_int8 c' = kv_int8 c" "kv_block_size c' = kv_block_size c" "\<forall>l < kv_n_layers c. imported r' b c' l"
    using import_layers [OF ok, of "kv_n_layers c" c r'] dst shape n kb(3-5) by auto
  have "import_request_kv r' b c = Inr c'"
    using c'(1) shape kb unfolding import_request_kv_def by (simp add: import_layer_def [abs_def])
  moreover have "k_row c' l (block_table r') p = decode_row (encode_row (kv_int8 c) (k_row a l (block_table r) p)) \<and>
      v_row c' l (block_table r') p = decode_row (encode_row (kv_int8 c) (v_row a l (block_table r) p))"
    if l: "l < kv_n_layers c" and p: "p \<in> {0..<n}" for l p
  proof -
    have j: "nat p < kb_seq_len b" "int (nat p) = p" "nat p < nat n" using p kb(2) by auto
    have "kb_k b ! l ! nat p = k_row a l (block_table r) p" "kb_v b ! l ! nat p = v_row a l (block_table r) p"
      using l shape(1) j p by (simp_all add: kb nth_upto)
    moreover have "imported r' b c' l" using c'(5) l by blast
    ultimately show ?thesis using j(1,2) c'(3) unfolding imported_def by (elim allE [of _ "nat p"]) simp
  qed
  ultimately show ?thesis using b c'(2-4) by blast
qed

end
