(* ===== verification/Llama.thy ===== *)
theory Llama
  imports Kernels KV_Cache
begin

text \<open>
  \<^verbatim>\<open>model/minimal_llama.py\<close>: the model's shape and weights, the rotary tables and the dense
  forward pass, one sequence at a time (no operation of it mixes the sequences of a batch).
  Matrices are lists of rows; the attention kernel is the softmax attention it computes (theory
  \<open>Kernels\<close>).  The scalar functions of torch are a record of parameters.
\<close>

record 'a numerics =
  n_rsqrt :: "'a \<Rightarrow> 'a"
  n_exp :: "'a \<Rightarrow> 'a"
  n_cos :: "'a \<Rightarrow> 'a"
  n_sin :: "'a \<Rightarrow> 'a"
  n_pow :: "'a \<Rightarrow> 'a \<Rightarrow> 'a"
  n_pi :: 'a

subsection \<open>Shape and weights\<close>

record 'a rope_scaling =
  rs_rope_type :: string
  rs_factor :: 'a
  rs_low_freq_factor :: 'a
  rs_high_freq_factor :: 'a
  rs_original_max_position_embeddings :: 'a

record 'a llama_config =
  vocab_size :: nat
  hidden_size :: nat
  intermediate_size :: nat
  n_layers :: nat
  n_heads :: nat
  head_dim :: nat
  max_seq_len :: nat
  num_kv_heads :: nat
  rope_theta :: 'a
  rope_scaling :: "'a rope_scaling option"
  rms_eps :: 'a
  lc_dtype :: torch_dtype

text \<open>\<open>__post_init__\<close>: the default number of KV heads and the three assertions.\<close>

definition LlamaConfig :: "nat option \<Rightarrow> 'a llama_config \<Rightarrow> 'a llama_config or_raise" where
  "LlamaConfig kv c0 =
     (if hidden_size c0 \<noteq> n_heads c0 * head_dim c0 then Inl AssertionError
      else let c = c0\<lparr>num_kv_heads := (case kv of None \<Rightarrow> n_heads c0 | Some k \<Rightarrow> k)\<rparr> in
        if num_kv_heads c = 0 then Inl ZeroDivisionError
        else if n_heads c mod num_kv_heads c \<noteq> 0 then Inl AssertionError
        else case rope_scaling c of
          None \<Rightarrow> Inr c
        | Some rs \<Rightarrow> if rs_rope_type rs = ''llama3'' then Inr c else Inl AssertionError)"

record 'a layer_weights =
  input_layernorm_weight :: "'a list"
  q_proj :: "'a list list"
  k_proj :: "'a list list"
  v_proj :: "'a list list"
  o_proj :: "'a list list"
  post_attention_layernorm_weight :: "'a list"
  gate_proj :: "'a list list"
  up_proj :: "'a list list"
  down_proj :: "'a list list"

record 'a llama_weights =
  embed_tokens :: "'a list list"
  layers :: "'a layer_weights list"
  norm_weight :: "'a list"
  lm_head :: "'a list list"

subsection \<open>Rotary embedding\<close>

definition llama3_rope_scaling :: "'a::linordered_field numerics \<Rightarrow> 'a rope_scaling \<Rightarrow> 'a \<Rightarrow> 'a" where
  "llama3_rope_scaling num rs inv_freq =
     (let old = rs_original_max_position_embeddings rs;
          low_freq_wavelen = old / rs_low_freq_factor rs;
          high_freq_wavelen = old / rs_high_freq_factor rs;
          wavelen = 2 * n_pi num / inv_freq;
          scaled = (if low_freq_wavelen < wavelen then inv_freq / rs_factor rs else inv_freq);
          smooth = (old / wavelen - rs_low_freq_factor rs) / (rs_high_freq_factor rs - rs_low_freq_factor rs);
          smoothed = smooth * scaled / rs_factor rs + (1 - smooth) * scaled;
          is_medium = (\<not> wavelen < high_freq_wavelen \<and> \<not> low_freq_wavelen < wavelen)
      in if is_medium then smoothed else scaled)"

definition rope_inv_freq :: "'a::linordered_field numerics \<Rightarrow> 'a llama_config \<Rightarrow> 'a list" where
  "rope_inv_freq num c =
     (let half = head_dim c div 2;
          plain = map (\<lambda>i. 1 / n_pow num (rope_theta c) (of_nat i / of_nat half)) [0..<half]
      in case rope_scaling c of None \<Rightarrow> plain | Some rs \<Rightarrow> map (llama3_rope_scaling num rs) plain)"

definition precompute_rope :: "'a::linordered_field numerics \<Rightarrow> 'a llama_config \<Rightarrow> 'a list list \<times> 'a list list" where
  "precompute_rope num c =
     (let freqs = map (\<lambda>p. map (\<lambda>f. of_nat p * f) (rope_inv_freq num c)) [0..<max_seq_len c]
      in (map (\<lambda>fs. map (n_cos num) fs @ map (n_cos num) fs) freqs,
          map (\<lambda>fs. map (n_sin num) fs @ map (n_sin num) fs) freqs))"

text \<open>\<open>chunk(2)\<close> makes the first half the longer one.\<close>

definition rotate_half :: "'a::uminus list \<Rightarrow> 'a list" where
  "rotate_half x = (let h = (length x + 1) div 2 in map uminus (drop h x) @ take h x)"

definition rope_heads :: "'a::ring list \<Rightarrow> 'a list \<Rightarrow> 'a heads \<Rightarrow> 'a heads" where
  "rope_heads cos_p sin_p hs = map (\<lambda>x. vadd (map2 (*) x cos_p) (map2 (*) (rotate_half x) sin_p)) hs"

subsection \<open>The layers\<close>

definition split_heads :: "nat \<Rightarrow> nat \<Rightarrow> 'a list \<Rightarrow> 'a heads" where
  "split_heads n d x = map (\<lambda>i. take d (drop (i * d) x)) [0..<n]"

definition repeat_kv :: "nat \<Rightarrow> 'a heads \<Rightarrow> 'a heads" where
  "repeat_kv n_rep hs = (if n_rep = 1 then hs else concat (map (replicate n_rep) hs))"

definition silu :: "'a::field numerics \<Rightarrow> 'a \<Rightarrow> 'a" where
  "silu num x = x / (1 + n_exp num (- x))"

text \<open>Attention over rows of heads: per head, rows to \<open>[N, head_dim]\<close> and back.\<close>

definition attention_heads :: "'a::linordered_field numerics \<Rightarrow> 'a llama_config \<Rightarrow> 'a heads list \<Rightarrow> 'a heads list
    \<Rightarrow> 'a heads list \<Rightarrow> 'a heads list" where
  "attention_heads num c qs ks vs =
     (let scale = n_rsqrt num (of_nat (head_dim c));
          outs = map (\<lambda>h. causal_attention (n_exp num) scale (map (\<lambda>r. r ! h) qs) (map (\<lambda>r. r ! h) ks) (map (\<lambda>r. r ! h) vs))
                   [0..<n_heads c]
      in map (\<lambda>i. map (\<lambda>out. out ! i) outs) [0..<length qs])"

definition mlp :: "'a::linordered_field numerics \<Rightarrow> 'a layer_weights \<Rightarrow> 'a list list \<Rightarrow> 'a list list" where
  "mlp num w normed2 =
     (let gate = mat_mul normed2 (gate_proj w); up = mat_mul normed2 (up_proj w);
          hidden = map2 (map2 (\<lambda>g u. silu num g * u)) gate up
      in mat_mul hidden (down_proj w))"

text \<open>Queries, keys and values of every row, rotated to the row's position.\<close>

definition qkv :: "'a::linordered_field llama_config \<Rightarrow> 'a layer_weights \<Rightarrow> ('a list \<times> 'a list) list \<Rightarrow> 'a list list
    \<Rightarrow> 'a heads list \<times> 'a heads list \<times> 'a heads list" where
  "qkv c w rope normed =
     (let q = map (split_heads (n_heads c) (head_dim c)) (mat_mul normed (q_proj w));
          k = map (split_heads (num_kv_heads c) (head_dim c)) (mat_mul normed (k_proj w));
          v = map (split_heads (num_kv_heads c) (head_dim c)) (mat_mul normed (v_proj w))
      in (map2 (\<lambda>(cs, sn). rope_heads cs sn) rope q, map2 (\<lambda>(cs, sn). rope_heads cs sn) rope k, v))"

definition dense_layer :: "'a::linordered_field numerics \<Rightarrow> 'a llama_config \<Rightarrow> ('a list \<times> 'a list) list \<Rightarrow> 'a layer_weights
    \<Rightarrow> 'a list list \<times> 'a list list \<Rightarrow> 'a list list \<times> 'a list list" where
  "dense_layer num c rope w = (\<lambda>(x, residual).
     let (normed, residual1) = fused_add_rmsnorm (n_rsqrt num) (rms_eps c) (input_layernorm_weight w) x residual;
         (q, k, v) = qkv c w rope normed;
         n_rep = n_heads c div num_kv_heads c;
         attn_out = attention_heads num c q (map (repeat_kv n_rep) k) (map (repeat_kv n_rep) v);
         x1 = mat_mul (map concat attn_out) (o_proj w);
         (normed2, residual2) = fused_add_rmsnorm (n_rsqrt num) (rms_eps c) (post_attention_layernorm_weight w) x1 residual1
     in (mlp num w normed2, residual2))"

definition embed :: "'a::zero llama_weights \<Rightarrow> int list \<Rightarrow> 'a list list \<times> 'a list list" where
  "embed W tokens =
     (let residual = map (\<lambda>t. embed_tokens W ! nat t) tokens
      in (map (\<lambda>r. replicate (length r) 0) residual, residual))"

text \<open>Weights of the shapes the configuration gives them.\<close>

definition is_matrix :: "nat \<Rightarrow> nat \<Rightarrow> 'b list list \<Rightarrow> bool" where
  "is_matrix m n A \<longleftrightarrow> length A = m \<and> list_all (\<lambda>r. length r = n) A"

definition layer_fits :: "'a llama_config \<Rightarrow> 'a layer_weights \<Rightarrow> bool" where
  "layer_fits c w \<longleftrightarrow>
     (let H = hidden_size c; Q = n_heads c * head_dim c; KV = num_kv_heads c * head_dim c; I = intermediate_size c in
      length (input_layernorm_weight w) = H \<and> length (post_attention_layernorm_weight w) = H
      \<and> is_matrix H Q (q_proj w) \<and> is_matrix H KV (k_proj w) \<and> is_matrix H KV (v_proj w) \<and> is_matrix Q H (o_proj w)
      \<and> is_matrix H I (gate_proj w) \<and> is_matrix H I (up_proj w) \<and> is_matrix I H (down_proj w))"

definition weights_fit :: "'a llama_config \<Rightarrow> 'a llama_weights \<Rightarrow> bool" where
  "weights_fit c W \<longleftrightarrow> 0 < hidden_size c \<and> is_matrix (vocab_size c) (hidden_size c) (embed_tokens W)
     \<and> list_all (layer_fits c) (layers W) \<and> length (norm_weight W) = hidden_size c
     \<and> is_matrix (hidden_size c) (vocab_size c) (lm_head W)"

definition llama_hidden :: "'a::linordered_field numerics \<Rightarrow> 'a llama_config \<Rightarrow> 'a llama_weights \<Rightarrow> ('a list \<times> 'a list) list
    \<Rightarrow> int list \<Rightarrow> 'a list list" where
  "llama_hidden num c W rope tokens =
     (let (x, residual) = fold (dense_layer num c rope) (layers W) (embed W tokens)
      in fst (fused_add_rmsnorm (n_rsqrt num) (rms_eps c) (norm_weight W) x residual))"

text \<open>The pass over one sequence (a batch of one) with \<open>causal=True\<close>, the mode the engine and the
decode loops use; \<open>causal=False\<close> is not modelled.\<close>

definition llama_forward :: "'a::linordered_field numerics \<Rightarrow> 'a llama_config \<Rightarrow> 'a llama_weights \<Rightarrow> int list
    \<Rightarrow> 'a list list or_raise" where
  "llama_forward num c W tokens =
     (if \<not> (\<forall>t \<in> set tokens. 0 \<le> t \<and> nat t < length (embed_tokens W)) then Inl IndexError
      else if max_seq_len c < length tokens then Inl RuntimeError
      else let (cos, sin) = precompute_rope num c
           in Inr (mat_mul (llama_hidden num c W (zip cos sin) tokens) (lm_head W)))"

subsection \<open>One row at a time\<close>

text \<open>
  The layers seen from one row: what it computes before attention (query, key, value and the
  new residual), the attention of one query, and what follows it.
\<close>

definition layer_pre :: "'a::linordered_field numerics \<Rightarrow> 'a llama_config \<Rightarrow> 'a layer_weights \<Rightarrow> 'a list \<times> 'a list
    \<Rightarrow> 'a list \<times> 'a list \<Rightarrow> 'a heads \<times> 'a heads \<times> 'a heads \<times> 'a list" where
  "layer_pre num c w rope_p = (\<lambda>(x, residual).
     let (normed, residual1) = rmsnorm_program (n_rsqrt num) (rms_eps c) (input_layernorm_weight w) x residual;
         (cs, sn) = rope_p
     in (rope_heads cs sn (split_heads (n_heads c) (head_dim c) (row_mul normed (q_proj w))),
         rope_heads cs sn (split_heads (num_kv_heads c) (head_dim c) (row_mul normed (k_proj w))),
         split_heads (num_kv_heads c) (head_dim c) (row_mul normed (v_proj w)), residual1))"

definition attend_heads :: "'a::linordered_field numerics \<Rightarrow> 'a llama_config \<Rightarrow> 'a heads \<Rightarrow> 'a heads list \<Rightarrow> 'a heads list \<Rightarrow> 'a heads" where
  "attend_heads num c q ks vs =
     map (\<lambda>h. attend (n_exp num) (n_rsqrt num (of_nat (head_dim c))) (q ! h) (map (\<lambda>r. r ! h) ks) (map (\<lambda>r. r ! h) vs))
       [0..<n_heads c]"

definition layer_post :: "'a::linordered_field numerics \<Rightarrow> 'a llama_config \<Rightarrow> 'a layer_weights \<Rightarrow> 'a heads \<Rightarrow> 'a list
    \<Rightarrow> 'a list \<times> 'a list" where
  "layer_post num c w attn residual1 =
     (let (normed2, residual2) = rmsnorm_program (n_rsqrt num) (rms_eps c) (post_attention_layernorm_weight w)
                                   (row_mul (concat attn) (o_proj w)) residual1
      in (row_mul (map2 (\<lambda>g u. silu num g * u) (row_mul normed2 (gate_proj w)) (row_mul normed2 (up_proj w))) (down_proj w),
          residual2))"

definition kv_rep :: "'a llama_config \<Rightarrow> 'a heads \<Rightarrow> 'a heads" where
  "kv_rep c = repeat_kv (n_heads c div num_kv_heads c)"

lemma attention_heads_rows:
  assumes "length ks = length qs" "length vs = length qs"
  shows "attention_heads num c qs ks vs
    = map (\<lambda>i. attend_heads num c (qs ! i) (take (Suc i) ks) (take (Suc i) vs)) [0..<length qs]"
  using assms by (simp add: attention_heads_def attend_heads_def causal_attention_def Let_def take_map)

lemma fused_add_rmsnorm_rows:
  "fused_add_rmsnorm rsqrt eps w (map fst rows) (map snd rows)
    = (map (\<lambda>(x, r). fst (rmsnorm_program rsqrt eps w x r)) rows, map (\<lambda>(x, r). snd (rmsnorm_program rsqrt eps w x r)) rows)"
  by (simp add: fused_add_rmsnorm_def zip_map_map zip_same_conv_map split_def comp_def)

lemma map2_same: "map2 f (map g xs) (map h xs) = map (\<lambda>x. f (g x) (h x)) xs"
  by (induction xs) auto

text \<open>Both passes do this to the rows of a layer, before and after their attention.\<close>

lemma qkv_rows:
  assumes "length rope = length rows"
  shows "qkv c w rope (fst (fused_add_rmsnorm (n_rsqrt num) (rms_eps c) (input_layernorm_weight w) (map fst rows) (map snd rows)))
    = (map2 (\<lambda>p row. fst (layer_pre num c w p row)) rope rows,
       map2 (\<lambda>p row. fst (snd (layer_pre num c w p row))) rope rows,
       map2 (\<lambda>p row. fst (snd (snd (layer_pre num c w p row)))) rope rows)"
    "snd (fused_add_rmsnorm (n_rsqrt num) (rms_eps c) (input_layernorm_weight w) (map fst rows) (map snd rows))
      = map2 (\<lambda>p row. snd (snd (snd (layer_pre num c w p row)))) rope rows"
  using assms
  by (auto simp: fused_add_rmsnorm_rows qkv_def mat_mul_def Let_def layer_pre_def split_def list_eq_iff_nth_eq)

lemma post_rows:
  assumes "length residual1 = length attn"
  shows "(let x1 = mat_mul (map concat attn) (o_proj w);
              (normed2, residual2) = fused_add_rmsnorm (n_rsqrt num) (rms_eps c) (post_attention_layernorm_weight w) x1 residual1
          in (mlp num w normed2, residual2))
    = (map fst (map2 (layer_post num c w) attn residual1), map snd (map2 (layer_post num c w) attn residual1))"
  using assms
  by (auto simp: fused_add_rmsnorm_def mlp_def mat_mul_def Let_def layer_post_def split_def list_eq_iff_nth_eq)

subsection \<open>The state of a row after some layers\<close>

text \<open>
  What the dense pass holds for position \<open>p\<close> of the tokens after \<open>l\<close> layers: the layer's input
  and the residual.
\<close>

fun dense_row :: "'a::linordered_field numerics \<Rightarrow> 'a llama_config \<Rightarrow> 'a llama_weights \<Rightarrow> ('a list \<times> 'a list) list
    \<Rightarrow> int list \<Rightarrow> nat \<Rightarrow> nat \<Rightarrow> 'a list \<times> 'a list" where
  "dense_row num c W rope ts 0 p =
     (let r = embed_tokens W ! nat (ts ! p) in (replicate (length r) 0, r))"
| "dense_row num c W rope ts (Suc l) p =
     (let w = layers W ! l;
          pre = (\<lambda>j. layer_pre num c w (rope ! j) (dense_row num c W rope ts l j))
      in layer_post num c w
           (attend_heads num c (fst (pre p)) (map (\<lambda>j. kv_rep c (fst (snd (pre j)))) [0..<Suc p])
              (map (\<lambda>j. kv_rep c (fst (snd (snd (pre j))))) [0..<Suc p]))
           (snd (snd (snd (pre p)))))"

definition dense_pre :: "'a::linordered_field numerics \<Rightarrow> 'a llama_config \<Rightarrow> 'a llama_weights \<Rightarrow> ('a list \<times> 'a list) list
    \<Rightarrow> int list \<Rightarrow> nat \<Rightarrow> nat \<Rightarrow> 'a heads \<times> 'a heads \<times> 'a heads \<times> 'a list" where
  "dense_pre num c W rope ts l j = layer_pre num c (layers W ! l) (rope ! j) (dense_row num c W rope ts l j)"

definition dense_k :: "'a::linordered_field numerics \<Rightarrow> 'a llama_config \<Rightarrow> 'a llama_weights \<Rightarrow> ('a list \<times> 'a list) list
    \<Rightarrow> int list \<Rightarrow> nat \<Rightarrow> nat \<Rightarrow> 'a heads" where
  "dense_k num c W rope ts l j = fst (snd (dense_pre num c W rope ts l j))"

definition dense_v :: "'a::linordered_field numerics \<Rightarrow> 'a llama_config \<Rightarrow> 'a llama_weights \<Rightarrow> ('a list \<times> 'a list) list
    \<Rightarrow> int list \<Rightarrow> nat \<Rightarrow> nat \<Rightarrow> 'a heads" where
  "dense_v num c W rope ts l j = fst (snd (snd (dense_pre num c W rope ts l j)))"

lemma dense_row_Suc:
  "dense_row num c W rope ts (Suc l) p = layer_post num c (layers W ! l)
     (attend_heads num c (fst (dense_pre num c W rope ts l p))
        (map (\<lambda>j. kv_rep c (dense_k num c W rope ts l j)) [0..<Suc p])
        (map (\<lambda>j. kv_rep c (dense_v num c W rope ts l j)) [0..<Suc p]))
     (snd (snd (snd (dense_pre num c W rope ts l p))))"
  by (simp add: Let_def dense_k_def dense_v_def dense_pre_def)

declare dense_row.simps(2) [simp del]

text \<open>Causality: the row at \<open>p\<close> depends on the tokens up to \<open>p\<close> only.\<close>

lemma dense_row_causal:
  "(\<forall>j \<le> p. ts ! j = ts' ! j) \<Longrightarrow> dense_row num c W rope ts l p = dense_row num c W rope ts' l p"
proof (induction l arbitrary: p)
  case (Suc l)
  then have "dense_pre num c W rope ts l j = dense_pre num c W rope ts' l j" if "j \<le> p" for j
    using that by (simp add: dense_pre_def)
  then have pre: "dense_pre num c W rope ts l p = dense_pre num c W rope ts' l p"
    and k: "map (\<lambda>j. kv_rep c (dense_k num c W rope ts l j)) [0..<Suc p] = map (\<lambda>j. kv_rep c (dense_k num c W rope ts' l j)) [0..<Suc p]"
    and v: "map (\<lambda>j. kv_rep c (dense_v num c W rope ts l j)) [0..<Suc p] = map (\<lambda>j. kv_rep c (dense_v num c W rope ts' l j)) [0..<Suc p]"
    by (auto simp only: dense_k_def dense_v_def intro!: map_cong) (auto simp: dense_k_def dense_v_def)
  show ?case unfolding dense_row_Suc pre k v ..
qed simp

lemma dense_kv_causal:
  assumes "\<forall>j \<le> p. ts ! j = ts' ! j"
  shows "dense_k num c W rope ts l p = dense_k num c W rope ts' l p" "dense_v num c W rope ts l p = dense_v num c W rope ts' l p"
  unfolding dense_k_def dense_v_def dense_pre_def dense_row_causal [OF assms, of num c W rope l] by (rule refl)+

lemma map2_take: "length ys \<le> length xs \<Longrightarrow> map2 f xs ys = map2 f (take (length ys) xs) ys"
  by (simp add: list_eq_iff_nth_eq)

lemma qkv_take:
  "length normed \<le> length rope \<Longrightarrow> qkv c w rope normed = qkv c w (take (length normed) rope) normed"
  by (simp add: qkv_def mat_mul_def Let_def map2_take [of _ rope])

lemma dense_layer_rows:
  assumes n: "n \<le> length rope"
  shows "dense_layer num c rope (layers W ! l) (map fst (map (dense_row num c W rope ts l) [0..<n]), map snd (map (dense_row num c W rope ts l) [0..<n]))
    = (map fst (map (dense_row num c W rope ts (Suc l)) [0..<n]), map snd (map (dense_row num c W rope ts (Suc l)) [0..<n]))"
proof -
  let ?w = "layers W ! l" and ?rows = "map (dense_row num c W rope ts l) [0..<n]" and ?pre = "dense_pre num c W rope ts l"
  let ?f = "fused_add_rmsnorm (n_rsqrt num) (rms_eps c) (input_layernorm_weight ?w) (map fst ?rows) (map snd ?rows)"
  have len: "length (take n rope) = length ?rows" using n by simp
  have fl: "length (fst ?f) = n" by (simp add: fused_add_rmsnorm_def Let_def)
  have m2: "map2 (\<lambda>p row. g (layer_pre num c ?w p row)) (take n rope) ?rows = map (\<lambda>j. g (?pre j)) [0..<n]" for g :: "_ \<Rightarrow> 'z"
    using n by (intro nth_equalityI) (simp_all add: dense_pre_def)
  have "qkv c ?w rope (fst ?f) = qkv c ?w (take n rope) (fst ?f)" using qkv_take [of "fst ?f" rope c ?w] n fl by simp
  also have "\<dots> = (map (\<lambda>j. fst (?pre j)) [0..<n], map (dense_k num c W rope ts l) [0..<n], map (dense_v num c W rope ts l) [0..<n])"
    unfolding qkv_rows(1) [OF len] m2 [of fst] m2 [of "\<lambda>t. fst (snd t)"] m2 [of "\<lambda>t. fst (snd (snd t))"]
      dense_k_def [abs_def] dense_v_def [abs_def] ..
  finally have q: "qkv c ?w rope (fst ?f) = \<dots>" .
  have r: "snd ?f = map (\<lambda>j. snd (snd (snd (?pre j)))) [0..<n]" unfolding qkv_rows(2) [OF len] m2 [of "\<lambda>t. snd (snd (snd t))"] ..
  let ?attn = "attention_heads num c (map (\<lambda>j. fst (?pre j)) [0..<n]) (map (repeat_kv (n_heads c div num_kv_heads c)) (map (dense_k num c W rope ts l) [0..<n]))
      (map (repeat_kv (n_heads c div num_kv_heads c)) (map (dense_v num c W rope ts l) [0..<n]))"
  have attn: "?attn = map (\<lambda>p. attend_heads num c (fst (?pre p)) (map (\<lambda>j. kv_rep c (dense_k num c W rope ts l j)) [0..<Suc p])
      (map (\<lambda>j. kv_rep c (dense_v num c W rope ts l j)) [0..<Suc p])) [0..<n]"
    by (auto simp: attention_heads_rows take_map kv_rep_def comp_def intro!: map_cong)
  have split: "dense_layer num c rope ?w (map fst ?rows, map snd ?rows) =
     (let x1 = mat_mul (map concat ?attn) (o_proj ?w);
          (normed2, residual2) = fused_add_rmsnorm (n_rsqrt num) (rms_eps c) (post_attention_layernorm_weight ?w) x1 (snd ?f)
      in (mlp num ?w normed2, residual2))"
    unfolding dense_layer_def split_conv Let_def by (subst surjective_pairing [of ?f], simp only: split_conv q)
  have rows: "map2 (layer_post num c ?w) ?attn (snd ?f) = map (dense_row num c W rope ts (Suc l)) [0..<n]"
    unfolding attn r map2_same dense_row_Suc ..
  have "length (snd ?f) = length ?attn" unfolding attn r by simp
  then show ?thesis by (simp only: split post_rows rows)
qed

subsection \<open>The dense pass, row by row\<close>

definition final_row :: "'a::linordered_field numerics \<Rightarrow> 'a llama_config \<Rightarrow> 'a llama_weights \<Rightarrow> ('a list \<times> 'a list) list
    \<Rightarrow> int list \<Rightarrow> nat \<Rightarrow> 'a list" where
  "final_row num c W rope ts p =
     (case dense_row num c W rope ts (length (layers W)) p of
        (x, residual) \<Rightarrow> fst (rmsnorm_program (n_rsqrt num) (rms_eps c) (norm_weight W) x residual))"

lemma dense_layers_rows:
  assumes "length ts \<le> length rope" "m \<le> length (layers W)"
  shows "fold (dense_layer num c rope) (take m (layers W)) (embed W ts)
    = (map fst (map (dense_row num c W rope ts m) [0..<length ts]), map snd (map (dense_row num c W rope ts m) [0..<length ts]))"
  using assms(2)
proof (induction m)
  case 0
  show ?case by (auto simp: embed_def Let_def intro!: nth_equalityI)
next
  case (Suc m)
  then show ?case
    using dense_layer_rows [OF assms(1), of num c W m ts] by (simp add: take_Suc_conv_app_nth)
qed

lemma llama_hidden_rows:
  assumes "length ts \<le> length rope"
  shows "llama_hidden num c W rope ts = map (final_row num c W rope ts) [0..<length ts]"
proof -
  let ?rows = "map (dense_row num c W rope ts (length (layers W))) [0..<length ts]"
  have "fold (dense_layer num c rope) (layers W) (embed W ts) = (map fst ?rows, map snd ?rows)"
    using dense_layers_rows [OF assms order_refl, of num c W] by simp
  then have "llama_hidden num c W rope ts
      = fst (fused_add_rmsnorm (n_rsqrt num) (rms_eps c) (norm_weight W) (map fst ?rows) (map snd ?rows))"
    by (simp only: llama_hidden_def split_conv Let_def)
  also have "\<dots> = map (final_row num c W rope ts) [0..<length ts]"
    unfolding fused_add_rmsnorm_rows fst_conv by (simp add: final_row_def split_def)
  finally show ?thesis .
qed

lemma final_row_causal:
  "(\<forall>j \<le> p. ts ! j = ts' ! j) \<Longrightarrow> final_row num c W rope ts p = final_row num c W rope ts' p"
  unfolding final_row_def by (simp only: dense_row_causal)

subsection \<open>A model from nothing\<close>

text \<open>The demonstration shape; the number of KV heads is the default, the number of heads.\<close>

definition llama3_8b_shape :: "nat \<Rightarrow> nat \<Rightarrow> 'a::linordered_field llama_config or_raise" where
  "llama3_8b_shape nl max_seq =
     LlamaConfig None \<lparr>vocab_size = 128256, hidden_size = 4096, intermediate_size = 14336, n_layers = nl, n_heads = 32,
       head_dim = 128, max_seq_len = max_seq, num_kv_heads = 0, rope_theta = 500000, rope_scaling = None,
       rms_eps = 1 / 10 ^ 5, lc_dtype = bfloat16\<rparr>"

definition TOY_CONFIG :: "'a::linordered_field llama_config or_raise" where
  "TOY_CONFIG =
     LlamaConfig None \<lparr>vocab_size = 256, hidden_size = 256, intermediate_size = 688, n_layers = 2, n_heads = 4,
       head_dim = 64, max_seq_len = 64, num_kv_heads = 0, rope_theta = 500000, rope_scaling = None,
       rms_eps = 1 / 10 ^ 5, lc_dtype = bfloat16\<rparr>"

lemma shapes_are_models: "\<exists>c. llama3_8b_shape nl max_seq = Inr c \<and> num_kv_heads c = 32 \<and> n_layers c = nl \<and> max_seq_len c = max_seq"
  "\<exists>c. TOY_CONFIG = Inr c \<and> num_kv_heads c = 4"
  by (simp_all add: llama3_8b_shape_def TOY_CONFIG_def LlamaConfig_def)

text \<open>
  \<open>init_weights\<close> draws every matrix from one generator, in order.  \<open>randn rows columns\<close> is
  torch's, with the generator's state passed along.
\<close>

type_synonym ('g, 'a) randn = "nat \<Rightarrow> nat \<Rightarrow> 'g \<Rightarrow> 'a list list \<times> 'g"

definition scaled_randn :: "('g, 'a::field) randn \<Rightarrow> ('g, 'a) randn" where
  "scaled_randn randn m n g = (let (x, g') = randn m n g in (map (map (\<lambda>a. a * (2 / 100))) x, g'))"

definition init_layer :: "('g, 'a::field) randn \<Rightarrow> 'a llama_config \<Rightarrow> 'g \<Rightarrow> 'a layer_weights \<times> 'g" where
  "init_layer randn c g =
     (let H = hidden_size c; I = intermediate_size c; qkv_dim = n_heads c * head_dim c; kv_dim = num_kv_heads c * head_dim c;
          (q, g) = scaled_randn randn H qkv_dim g; (k, g) = scaled_randn randn H kv_dim g; (v, g) = scaled_randn randn H kv_dim g;
          (o_w, g) = scaled_randn randn qkv_dim H g;
          (gate, g) = scaled_randn randn H I g; (up, g) = scaled_randn randn H I g; (down, g) = scaled_randn randn I H g
      in (\<lparr>input_layernorm_weight = replicate H 1, q_proj = q, k_proj = k, v_proj = v, o_proj = o_w,
           post_attention_layernorm_weight = replicate H 1, gate_proj = gate, up_proj = up, down_proj = down\<rparr>, g))"

fun init_layers :: "('g, 'a::field) randn \<Rightarrow> 'a llama_config \<Rightarrow> nat \<Rightarrow> 'g \<Rightarrow> 'a layer_weights list \<times> 'g" where
  "init_layers randn c 0 g = ([], g)"
| "init_layers randn c (Suc n) g =
     (let (w, g1) = init_layer randn c g; (ws, g2) = init_layers randn c n g1 in (w # ws, g2))"

definition init_weights :: "('g, 'a::field) randn \<Rightarrow> 'a llama_config \<Rightarrow> 'g \<Rightarrow> 'a llama_weights" where
  "init_weights randn c g =
     (let (ws, g1) = init_layers randn c (n_layers c) g;
          (embeds, g2) = scaled_randn randn (vocab_size c) (hidden_size c) g1;
          (head, _) = scaled_randn randn (hidden_size c) (vocab_size c) g2
      in \<lparr>embed_tokens = embeds, layers = ws, norm_weight = replicate (hidden_size c) 1, lm_head = head\<rparr>)"

definition shaped :: "nat \<Rightarrow> nat \<Rightarrow> 'a list list \<Rightarrow> bool" where
  "shaped m n x \<longleftrightarrow> length x = m \<and> (\<forall>r \<in> set x. length r = n)"

lemma scaled_randn_shaped:
  assumes "\<forall>m n g. shaped m n (fst (randn m n g))"
  shows "shaped m n (fst (scaled_randn randn m n g))"
  using assms [rule_format, of m n g] by (auto simp: scaled_randn_def shaped_def split: prod.splits)

lemma length_init_layers: "length (fst (init_layers randn c n g)) = n"
  by (induction n arbitrary: g) (simp_all add: split_def Let_def)

text \<open>A model as it is drawn has every layer asked for, a row per token of the vocabulary and a logit per token.\<close>

lemma init_weights_shapes:
  assumes "\<forall>m n g. shaped m n (fst (randn m n g))" "0 < hidden_size c"
  shows "length (layers (init_weights randn c g)) = n_layers c" "length (embed_tokens (init_weights randn c g)) = vocab_size c"
    "length (hd (lm_head (init_weights randn c g))) = vocab_size c"
proof -
  obtain ws g1 e g2 h g3 where eq: "init_layers randn c (n_layers c) g = (ws, g1)"
    "scaled_randn randn (vocab_size c) (hidden_size c) g1 = (e, g2)" "scaled_randn randn (hidden_size c) (vocab_size c) g2 = (h, g3)"
    by (metis surj_pair)
  have "shaped (vocab_size c) (hidden_size c) e" "shaped (hidden_size c) (vocab_size c) h"
    using scaled_randn_shaped [OF assms(1)] eq(2,3) by (metis fst_conv)+
  moreover from this assms(2) have "h \<noteq> []" by (auto simp: shaped_def)
  ultimately show "length (layers (init_weights randn c g)) = n_layers c" "length (embed_tokens (init_weights randn c g)) = vocab_size c"
    "length (hd (lm_head (init_weights randn c g))) = vocab_size c"
    using length_init_layers [of randn c "n_layers c" g] by (auto simp: init_weights_def eq shaped_def)
qed

end
