(* ===== verification/Model_Runner.thy ===== *)
theory Model_Runner
  imports Llama Scheduler
begin

text \<open>
  \<^verbatim>\<open>model/model_runner.py\<close>: one forward pass over the flat batch of everything a step
  scheduled, with the paged KV cache behind the attention, and greedy sampling.  The runner
  returns the stepped requests; the engine stores them back (theory \<open>LLM_Engine\<close>).
\<close>

record 'a model_runner =
  mr_num :: "'a numerics"
  mr_config :: "'a llama_config"
  mr_weights :: "'a llama_weights"
  mr_kv :: "'a kv_cache"
  mr_cos :: "'a list list"
  mr_sin :: "'a list list"

text \<open>\<open>max_model_len or config.max_seq_len\<close>: zero counts as not given.\<close>

definition ModelRunner :: "'a::linordered_field numerics \<Rightarrow> 'a llama_config \<Rightarrow> 'a llama_weights \<Rightarrow> 'a kv_cache
    \<Rightarrow> nat option \<Rightarrow> 'a model_runner" where
  "ModelRunner num c W kv max_model_len =
     (let m = (case max_model_len of None \<Rightarrow> max_seq_len c | Some 0 \<Rightarrow> max_seq_len c | Some n \<Rightarrow> n);
          (cs, sn) = precompute_rope num (c\<lparr>max_seq_len := m\<rparr>)
      in \<lparr>mr_num = num, mr_config = c, mr_weights = W, mr_kv = kv, mr_cos = cs, mr_sin = sn\<rparr>)"

subsection \<open>Speculative verification\<close>

text \<open>The loop of \<open>_accept_reject\<close>: the committed tokens, and whether every draft token matched.\<close>

fun accept_loop :: "(int \<times> int) list \<Rightarrow> int list \<times> bool" where
  "accept_loop [] = ([], True)"
| "accept_loop ((draft_id, t) # rest) =
     (if draft_id \<noteq> t then ([t], False) else (case accept_loop rest of (committed, all) \<Rightarrow> (t # committed, all)))"

definition accept_reject :: "int list \<Rightarrow> int list \<Rightarrow> int list" where
  "accept_reject draft row_tokens =
     (case accept_loop (zip draft (butlast row_tokens)) of
        (committed, all) \<Rightarrow> if all then committed @ [last row_tokens] else committed)"

subsection \<open>The flat batch\<close>

text \<open>
  One scheduled request's rows: flat positions \<open>[fb_start, fb_end)\<close> of the batch, sequence
  positions \<open>[fb_seq_start, fb_seq_end)\<close> of the request.
\<close>

record flat_entry =
  fb_request :: request
  fb_start :: nat
  fb_end :: nat
  fb_seq_start :: int
  fb_seq_end :: int

definition input_tokens :: "request \<Rightarrow> int \<Rightarrow> int list or_raise" where
  "input_tokens r n =
     (let seq_end = num_computed_tokens r; seq_start = seq_end - n in
      if draft_token_ids r \<noteq> [] then
        if n \<noteq> int (length (draft_token_ids r)) + 1 then Inl AssertionError
        else bindE (py_nth (all_token_ids r) (nat seq_start)) (\<lambda>t. Inr (t # draft_token_ids r))
      else Inr (py_slice (nat seq_start) (nat seq_end) (all_token_ids r)))"

fun flat_loop :: "nat \<Rightarrow> (request \<times> int) list \<Rightarrow> (int list \<times> int list \<times> flat_entry list) or_raise" where
  "flat_loop cursor [] = Inr ([], [], [])"
| "flat_loop cursor ((r, n) # rest) =
     bindE (input_tokens r n) (\<lambda>ids.
     bindE (flat_loop (cursor + nat n) rest) (\<lambda>(more_ids, more_positions, entries).
       let seq_end = num_computed_tokens r; seq_start = seq_end - n in
       Inr (ids @ more_ids, [seq_start..seq_end - 1] @ more_positions,
            \<lparr>fb_request = r, fb_start = cursor, fb_end = cursor + nat n,
             fb_seq_start = seq_start, fb_seq_end = seq_end\<rparr> # entries)))"

definition build_flat_batch :: "'a model_runner \<Rightarrow> (request \<times> int) list
    \<Rightarrow> (int list \<times> int list \<times> flat_entry list) or_raise" where
  "build_flat_batch mr scheduled =
     bindE (flat_loop 0 scheduled) (\<lambda>(ids, positions, entries).
       if positions \<noteq> [] \<and> int (length (mr_cos mr)) \<le> last positions then Inl ValueError
       else Inr (ids, positions, entries))"

subsection \<open>Attention through the cache\<close>

text \<open>
  The rows a request attends with: its new rows behind dummy rows of zeros, so that query and
  key lengths agree; only the real rows of the result are kept.
\<close>

definition padded_attention :: "'a::linordered_field numerics \<Rightarrow> 'a llama_config \<Rightarrow> 'a heads list \<Rightarrow> 'a heads list
    \<Rightarrow> 'a heads list \<Rightarrow> 'a heads list" where
  "padded_attention num c q_new k_full v_full =
     (let se = length k_full; L = length q_new;
          pad = replicate (se - L) (replicate (n_heads c) (replicate (head_dim c) 0));
          q_full = (if L < se then pad @ q_new else q_new);
          out = attention_heads num c q_full k_full v_full
      in drop (length out - L) out)"

text \<open>
  The loop of \<open>_attention\<close>.  The flat ranges are consecutive and start at zero, so writing each
  request's rows into its slice of \<open>attn_out\<close> concatenates them.
\<close>

fun attention_loop :: "'a::floor_ceiling numerics \<Rightarrow> 'a llama_config \<Rightarrow> nat \<Rightarrow> 'a heads list \<Rightarrow> 'a heads list \<Rightarrow> 'a heads list
    \<Rightarrow> flat_entry list \<Rightarrow> 'a kv_cache \<Rightarrow> ('a kv_cache \<times> 'a heads list) or_raise" where
  "attention_loop num c l q k v [] kv = Inr (kv, [])"
| "attention_loop num c l q k v (e # es) kv =
     (let fs = fb_start e; fe = fb_end e; ss = fb_seq_start e; se = fb_seq_end e; r = fb_request e in
      if fe - fs = 0 then attention_loop num c l q k v es kv
      else
        bindE (kv_write l r ss (py_slice fs fe k) (py_slice fs fe v) kv) (\<lambda>kv1.
        bindE (kv_read l r se kv1) (\<lambda>(ks, vs).
          let n_rep = n_heads c div num_kv_heads c;
              out = padded_attention num c (py_slice fs fe q) (map (repeat_kv n_rep) ks) (map (repeat_kv n_rep) vs)
          in bindE (attention_loop num c l q k v es kv1) (\<lambda>(kv2, rows). Inr (kv2, out @ rows)))))"

definition runner_layer :: "'a::floor_ceiling numerics \<Rightarrow> 'a llama_config \<Rightarrow> ('a list \<times> 'a list) list \<Rightarrow> flat_entry list
    \<Rightarrow> nat \<Rightarrow> 'a layer_weights \<Rightarrow> 'a list list \<times> 'a list list \<times> 'a kv_cache
    \<Rightarrow> ('a list list \<times> 'a list list \<times> 'a kv_cache) or_raise" where
  "runner_layer num c rope es l w = (\<lambda>(x, residual, kv).
     let (normed, residual1) = fused_add_rmsnorm (n_rsqrt num) (rms_eps c) (input_layernorm_weight w) x residual;
         (q, k, v) = qkv c w rope normed
     in bindE (attention_loop num c l q k v es kv) (\<lambda>(kv1, attn_out).
          let x1 = mat_mul (map concat attn_out) (o_proj w);
              (normed2, residual2) = fused_add_rmsnorm (n_rsqrt num) (rms_eps c) (post_attention_layernorm_weight w) x1 residual1
          in Inr (mlp num w normed2, residual2, kv1)))"

subsection \<open>One forward pass\<close>

text \<open>
  The hidden state of every row after the last norm.  A token without an embedding row and a
  position without a rotary row are index errors; fewer tokens than positions do not broadcast.
\<close>

definition runner_hidden :: "'a::floor_ceiling model_runner \<Rightarrow> int list \<Rightarrow> int list \<Rightarrow> flat_entry list
    \<Rightarrow> ('a kv_cache \<times> 'a list list) or_raise" where
  "runner_hidden mr ids positions es =
     (let num = mr_num mr; c = mr_config mr; W = mr_weights mr in
      if \<not> (\<forall>t \<in> set ids. 0 \<le> t \<and> nat t < length (embed_tokens W)) then Inl IndexError
      else if layers W \<noteq> [] \<and> \<not> (\<forall>p \<in> set positions. nat p < length (mr_cos mr)) then Inl IndexError
      else if layers W \<noteq> [] \<and> length ids \<noteq> length positions then Inl RuntimeError
      else
        let (x, residual) = embed W ids;
            rope = map (\<lambda>p. (mr_cos mr ! nat p, mr_sin mr ! nat p)) positions
        in bindE (foldE (\<lambda>(l, w). runner_layer num c rope es l w) (enumerate 0 (layers W)) (x, residual, mr_kv mr))
             (\<lambda>(x, residual, kv). Inr (kv, fst (fused_add_rmsnorm (n_rsqrt num) (rms_eps c) (norm_weight W) x residual))))"

text \<open>Greedy sampling: the first index of the largest logit.\<close>

fun argmax_from :: "nat \<Rightarrow> nat \<Rightarrow> 'a::linorder \<Rightarrow> 'a list \<Rightarrow> nat" where
  "argmax_from best i m [] = best"
| "argmax_from best i m (x # xs) = (if m < x then argmax_from i (Suc i) x xs else argmax_from best (Suc i) m xs)"

definition argmax :: "'a::linorder list \<Rightarrow> nat" where
  "argmax xs = argmax_from 0 1 (hd xs) (tl xs)"

definition sample :: "'a::linordered_field llama_weights \<Rightarrow> 'a list \<Rightarrow> int" where
  "sample W hidden = int (argmax (row_mul hidden (lm_head W)))"

text \<open>What the last loop of \<open>execute_model\<close> does to one request.\<close>

definition commit :: "'a::linordered_field llama_weights \<Rightarrow> 'a list list \<Rightarrow> flat_entry \<Rightarrow> int \<Rightarrow> request" where
  "commit W hidden e next_token =
     (let r = fb_request e in
      if is_prefill r then r
      else
        let committed = (if draft_token_ids r \<noteq> []
                         then accept_reject (draft_token_ids r) (map (sample W) (py_slice (fb_start e) (fb_end e) hidden))
                         else [next_token])
        in maybe_finish (r\<lparr>output_token_ids := output_token_ids r @ committed\<rparr>))"

definition execute_model :: "'a::floor_ceiling model_runner \<Rightarrow> (request \<times> int) list
    \<Rightarrow> ('a model_runner \<times> request list) or_raise" where
  "execute_model mr scheduled =
     (if scheduled = [] then Inr (mr, [])
      else
        bindE (build_flat_batch mr scheduled) (\<lambda>(ids, positions, es).
        bindE (runner_hidden mr ids positions es) (\<lambda>(kv, hidden).
        bindE (mapE (\<lambda>e. if fb_end e = 0 then Inl IndexError
                         else bindE (py_nth hidden (fb_end e - 1)) (\<lambda>h. Inr (sample (mr_weights mr) h))) es) (\<lambda>nexts.
          Inr (mr\<lparr>mr_kv := kv\<rparr>, map2 (commit (mr_weights mr) hidden) es nexts)))))"

end
