(* ===== verification/Runner_Refinement.thy ===== *)
theory Runner_Refinement
  imports Model_Runner
begin

text \<open>
  The model runner against the dense pass of \<^verbatim>\<open>minimal_llama.py\<close>: if the cache holds the dense
  keys and values of every scheduled request's computed tokens, one forward pass over the flat
  batch gives each request the rows the dense pass gives its own token sequence, and leaves the
  cache holding the keys and values of the new tokens too.
\<close>

subsection \<open>Padding the queries\<close>

lemma padded_attention_rows:
  assumes "length v = length k" "length q \<le> length k"
  shows "padded_attention num c q k v
    = map (\<lambda>i. attend_heads num c (q ! i) (take (Suc (length k - length q + i)) k) (take (Suc (length k - length q + i)) v)) [0..<length q]"
proof -
  let ?pad = "replicate (length k - length q) (replicate (n_heads c) (replicate (head_dim c) 0))"
  have full: "(if length q < length k then ?pad @ q else q) = ?pad @ q" by simp
  have out: "attention_heads num c (?pad @ q) k v
      = map (\<lambda>i. attend_heads num c ((?pad @ q) ! i) (take (Suc i) k) (take (Suc i) v)) [0..<length k]"
    using attention_heads_rows [of k "?pad @ q" v num c] assms by simp
  have d: "drop (length k - length q) [0..<length k] = map (\<lambda>i. length k - length q + i) [0..<length q]"
    using assms(2) by (intro nth_equalityI) auto
  show ?thesis
    unfolding padded_attention_def Let_def full out length_map length_upt diff_zero drop_map d map_map comp_def
    by (simp add: nth_append)
qed

subsection \<open>What a flat batch must satisfy\<close>

text \<open>
  The entry of a request whose tokens (committed and drafted) are \<open>ts\<close>: its sequence range lies
  in them and its table covers it.  The entries tile the flat batch, and their tables share no
  block.
\<close>

definition entry_tokens :: "flat_entry \<Rightarrow> int list" where
  "entry_tokens e = all_token_ids (fb_request e) @ draft_token_ids (fb_request e)"

definition entry_ok :: "'a kv_cache \<Rightarrow> nat \<Rightarrow> flat_entry \<Rightarrow> bool" where
  "entry_ok kv n e \<longleftrightarrow> 0 \<le> fb_seq_start e \<and> fb_seq_start e < fb_seq_end e
     \<and> fb_seq_end e \<le> int (length (entry_tokens e)) \<and> fb_seq_end e \<le> int n
     \<and> fb_end e = fb_start e + nat (fb_seq_end e - fb_seq_start e)
     \<and> covers kv (fb_request e) (fb_seq_end e) \<and> distinct (block_table (fb_request e))"

fun tiles :: "nat \<Rightarrow> flat_entry list \<Rightarrow> bool" where
  "tiles n [] = True"
| "tiles n (e # es) = (fb_start e = n \<and> tiles (fb_end e) es)"

definition own_tables :: "flat_entry list \<Rightarrow> bool" where
  "own_tables es \<longleftrightarrow> (\<forall>i < length es. \<forall>j < length es. i \<noteq> j \<longrightarrow>
     set (block_table (fb_request (es ! i))) \<inter> set (block_table (fb_request (es ! j))) = {})"

definition entry_positions :: "flat_entry \<Rightarrow> nat list" where
  "entry_positions e = [nat (fb_seq_start e)..<nat (fb_seq_end e)]"

definition flat_map :: "(flat_entry \<Rightarrow> nat \<Rightarrow> 'b) \<Rightarrow> flat_entry list \<Rightarrow> 'b list" where
  "flat_map f es = concat (map (\<lambda>e. map (f e) (entry_positions e)) es)"

text \<open>The cache holds the dense pass's keys and values of the first \<open>n\<close> positions, in layer \<open>l\<close>.\<close>

definition kv_holds :: "'a::floor_ceiling numerics \<Rightarrow> 'a llama_config \<Rightarrow> 'a llama_weights \<Rightarrow> ('a list \<times> 'a list) list
    \<Rightarrow> 'a kv_cache \<Rightarrow> nat \<Rightarrow> int list \<Rightarrow> block_id list \<Rightarrow> int \<Rightarrow> bool" where
  "kv_holds num c W rope kv l ts table n \<longleftrightarrow>
     (\<forall>p. 0 \<le> p \<longrightarrow> p < n \<longrightarrow> k_row kv l table p = dense_k num c W rope ts l (nat p)
                            \<and> v_row kv l table p = dense_v num c W rope ts l (nat p))"

lemma entry_okD:
  assumes "entry_ok kv n e"
  shows "0 \<le> fb_seq_start e" "fb_seq_start e < fb_seq_end e" "fb_seq_end e \<le> int (length (entry_tokens e))"
    "fb_end e = fb_start e + nat (fb_seq_end e - fb_seq_start e)" "covers kv (fb_request e) (fb_seq_end e)"
    "distinct (block_table (fb_request e))" "fb_seq_end e \<le> int n"
  using assms by (auto simp: entry_ok_def)

lemma entry_length:
  assumes "entry_ok kv n e" shows "length (entry_positions e) = fb_end e - fb_start e"
  using entry_okD [OF assms] by (simp add: entry_positions_def nat_diff_distrib)

lemma flat_map_Cons [simp]: "flat_map f (e # es) = map (f e) (entry_positions e) @ flat_map f es"
  by (simp add: flat_map_def)

lemma flat_map_Nil [simp]: "flat_map f [] = []"
  by (simp add: flat_map_def)

lemma flat_slice:
  assumes "entry_ok kv n e" "length pre = fb_start e"
  shows "py_slice (fb_start e) (fb_end e) (pre @ flat_map f (e # es)) = map (f e) (entry_positions e)"
  using assms(2) entry_length [OF assms(1)] by (simp add: py_slice_def)

text \<open>Frame: what a pass over these entries may change.\<close>

definition kv_frame :: "flat_entry list \<Rightarrow> nat \<Rightarrow> 'a::floor_ceiling kv_cache \<Rightarrow> 'a kv_cache \<Rightarrow> bool" where
  "kv_frame es l kv kv' \<longleftrightarrow>
     kv_block_size kv' = kv_block_size kv \<and> kv_num_blocks kv' = kv_num_blocks kv \<and> kv_int8 kv' = kv_int8 kv
     \<and> kv_n_layers kv' = kv_n_layers kv \<and> kv_num_heads kv' = kv_num_heads kv \<and> kv_head_dim kv' = kv_head_dim kv \<and> kv_compute_dtype kv' = kv_compute_dtype kv
     \<and> covers kv' = covers kv
     \<and> (\<forall>l' table p. (l' \<noteq> l \<or> (\<forall>e \<in> set es. set table \<inter> set (block_table (fb_request e)) = {}))
          \<longrightarrow> 0 \<le> p \<longrightarrow> p < int (length table) * kv_block_size kv
          \<longrightarrow> k_row kv' l' table p = k_row kv l' table p \<and> v_row kv' l' table p = v_row kv l' table p)"

lemma kv_frame_refl: "kv_frame es l kv kv"
  by (simp add: kv_frame_def)

lemma kv_frame_trans:
  assumes "kv_frame [e] l kv kv1" "kv_frame es l kv1 kv2" shows "kv_frame (e # es) l kv kv2"
  using assms unfolding kv_frame_def by (clarsimp simp del: split_paired_All)

subsection \<open>The cache fits the model\<close>

text \<open>
  The cache has the model's heads and head size and a layer for every layer of the weights, and
  the weights and the rotary rows have the configured shapes.
\<close>

definition kv_fits :: "'a llama_config \<Rightarrow> 'a llama_weights \<Rightarrow> ('a list \<times> 'a list) list \<Rightarrow> 'a kv_cache \<Rightarrow> bool" where
  "kv_fits c W rope kv \<longleftrightarrow> kv_num_heads kv = num_kv_heads c \<and> kv_head_dim kv = head_dim c
     \<and> length (layers W) \<le> kv_n_layers kv \<and> weights_fit c W
     \<and> list_all (\<lambda>(cs, sn). length cs = head_dim c \<and> length sn = head_dim c) rope"

lemma kv_fits_cong:
  "kv_num_heads kv' = kv_num_heads kv \<Longrightarrow> kv_head_dim kv' = kv_head_dim kv \<Longrightarrow> kv_n_layers kv' = kv_n_layers kv
    \<Longrightarrow> kv_fits c W rope kv' = kv_fits c W rope kv"
  by (simp add: kv_fits_def)

lemma split_heads_shaped: "length x = n * d \<Longrightarrow> row_shaped n d (split_heads n d x)"
proof -
  assume x: "length x = n * d"
  have "i * d + d \<le> n * d" if "i < n" for i
    using mult_le_mono1 [of "Suc i" n d] that by simp
  then have "min d (n * d - i * d) = d" if "i < n" for i using that by (metis add_le_imp_le_diff add.commute min_absorb1)
  then show ?thesis by (simp add: row_shaped_def split_heads_def list_all_iff x min.commute)
qed

lemma is_matrix_width: "is_matrix m n A \<Longrightarrow> 0 < m \<Longrightarrow> length (hd A) = n"
  by (cases A) (auto simp: is_matrix_def)

lemma rope_heads_shaped:
  "row_shaped n d hs \<Longrightarrow> length cs = d \<Longrightarrow> length sn = d \<Longrightarrow> row_shaped n d (rope_heads cs sn hs)"
  by (auto simp: row_shaped_def rope_heads_def list_all_iff vadd_def rotate_half_def Let_def)

lemma dense_kv_shaped:
  assumes fit: "kv_fits c W rope kv" and l: "l < length (layers W)" and p: "p < length rope"
  shows "row_shaped (kv_num_heads kv) (kv_head_dim kv) (dense_k num c W rope ts l p)"
    "row_shaped (kv_num_heads kv) (kv_head_dim kv) (dense_v num c W rope ts l p)"
proof -
  have "layer_fits c (layers W ! l)" "0 < hidden_size c" using fit l by (auto simp: kv_fits_def weights_fit_def list_all_length)
  then have "length (hd (k_proj (layers W ! l))) = num_kv_heads c * head_dim c"
    "length (hd (v_proj (layers W ! l))) = num_kv_heads c * head_dim c"
    by (auto simp: layer_fits_def Let_def intro: is_matrix_width)
  then have rm: "row_shaped (num_kv_heads c) (head_dim c) (split_heads (num_kv_heads c) (head_dim c) (row_mul x (k_proj (layers W ! l))))"
    "row_shaped (num_kv_heads c) (head_dim c) (split_heads (num_kv_heads c) (head_dim c) (row_mul x (v_proj (layers W ! l))))" for x
    by (auto intro!: split_heads_shaped simp: row_mul_def)
  obtain cs sn where r: "rope ! p = (cs, sn)" by fastforce
  then have "length cs = head_dim c" "length sn = head_dim c"
    using fit p by (auto simp: kv_fits_def list_all_length)
  then show "row_shaped (kv_num_heads kv) (kv_head_dim kv) (dense_k num c W rope ts l p)"
    "row_shaped (kv_num_heads kv) (kv_head_dim kv) (dense_v num c W rope ts l p)"
    using fit rm by (simp_all add: dense_k_def dense_v_def dense_pre_def layer_pre_def r split_def Let_def kv_fits_def rope_heads_shaped)
qed

subsection \<open>Attention through the cache is the dense attention\<close>

lemma attention_loop_rows:
  fixes num :: "'a::floor_ceiling numerics"
  assumes "\<forall>e \<in> set es. entry_ok kv n e" "tiles (length pre) es" "own_tables es" "\<not> kv_int8 kv"
    and "\<forall>e \<in> set es. kv_holds num c W rope kv l (entry_tokens e) (block_table (fb_request e)) (fb_seq_start e)"
    and "length pre = length prek" "length pre = length prev"
    and "kv_fits c W rope kv" "l < length (layers W)" "n \<le> length rope"
  shows "\<exists>kv'. attention_loop num c l
        (pre @ flat_map (\<lambda>e p. fst (dense_pre num c W rope (entry_tokens e) l p)) es)
        (prek @ flat_map (\<lambda>e p. dense_k num c W rope (entry_tokens e) l p) es)
        (prev @ flat_map (\<lambda>e p. dense_v num c W rope (entry_tokens e) l p) es) es kv
      = Inr (kv', flat_map (\<lambda>e p. attend_heads num c (fst (dense_pre num c W rope (entry_tokens e) l p))
          (map (\<lambda>j. kv_rep c (dense_k num c W rope (entry_tokens e) l j)) [0..<Suc p])
          (map (\<lambda>j. kv_rep c (dense_v num c W rope (entry_tokens e) l j)) [0..<Suc p])) es)
      \<and> kv_frame es l kv kv'
      \<and> (\<forall>e \<in> set es. kv_holds num c W rope kv' l (entry_tokens e) (block_table (fb_request e)) (fb_seq_end e))"
  using assms
proof (induction es arbitrary: pre prek prev kv)
  case Nil
  then show ?case by (simp add: kv_frame_refl)
next
  case (Cons e es)
  let ?r = "fb_request e" and ?ts = "entry_tokens e" and ?ss = "fb_seq_start e" and ?se = "fb_seq_end e"
  let ?q = "\<lambda>e p. fst (dense_pre num c W rope (entry_tokens e) l p)"
  let ?k = "\<lambda>e p. dense_k num c W rope (entry_tokens e) l p" and ?v = "\<lambda>e p. dense_v num c W rope (entry_tokens e) l p"
  let ?K = "map (?k e) (entry_positions e)" and ?V = "map (?v e) (entry_positions e)" and ?Q = "map (?q e) (entry_positions e)"
  have eok: "entry_ok kv n e" using Cons.prems(1) by simp
  note E = entry_okD [OF eok]
  have start: "fb_start e = length pre" using Cons.prems(2) by simp
  have lenp: "length (entry_positions e) = nat (?se - ?ss)" using E by (simp add: entry_positions_def nat_diff_distrib)
  have posn: "entry_positions e ! i = nat ?ss + i" if "i < nat (?se - ?ss)" for i
    using that E by (simp add: entry_positions_def nat_diff_distrib)
  have sl: "py_slice (fb_start e) (fb_end e) (pre @ flat_map ?q (e # es)) = ?Q"
    "py_slice (fb_start e) (fb_end e) (prek @ flat_map ?k (e # es)) = ?K"
    "py_slice (fb_start e) (fb_end e) (prev @ flat_map ?v (e # es)) = ?V"
    by (rule flat_slice [OF eok], use start Cons.prems(6,7) in simp)+
  have rng: "?ss + int (length ?K) = ?se" using lenp E by simp
  have pos: "0 \<le> ?ss" "?ss + int (length ?K) \<le> ?se" using E rng by simp_all
  have lenKV: "length ?V = length ?K" by simp
  have shp: "row_shaped (kv_num_heads kv) (kv_head_dim kv) (?k e p)" "row_shaped (kv_num_heads kv) (kv_head_dim kv) (?v e p)"
    if "p \<in> set (entry_positions e)" for p
  proof -
    have "p < length rope" using that E(7) Cons.prems(10) by (auto simp: entry_positions_def)
    from dense_kv_shaped [OF Cons.prems(8,9) this] show "row_shaped (kv_num_heads kv) (kv_head_dim kv) (?k e p)"
      "row_shaped (kv_num_heads kv) (kv_head_dim kv) (?v e p)" by blast+
  qed
  have fit: "l < kv_n_layers kv" "rows_shaped kv ?K" "rows_shaped kv ?V"
    using Cons.prems(8,9) shp by (auto simp: kv_fits_def list_all_iff)
  obtain kv1 where w: "kv_write l ?r ?ss ?K ?V kv = Inr kv1"
    using kv_write_ok [OF E(5) pos fit lenKV] by (simp add: Let_def)
  note sh = kv_write_shape [OF w]
  have holds: "kv_holds num c W rope kv1 l ?ts (block_table ?r) ?se"
    unfolding kv_holds_def
  proof (intro allI impI)
    fix p assume p: "0 \<le> p" "p < ?se"
    show "k_row kv1 l (block_table ?r) p = dense_k num c W rope ?ts l (nat p) \<and> v_row kv1 l (block_table ?r) p = dense_v num c W rope ?ts l (nat p)"
    proof (cases "p < ?ss")
      case True
      then have "p \<notin> {?ss..<?ss + int (length ?K)}" by simp
      from kv_write_before [OF w E(5,6) pos p this] show ?thesis
        using Cons.prems(5) True p(1) by (simp add: kv_holds_def)
    next
      case False
      define j where "j = nat (p - ?ss)"
      have j: "j < length ?K" "p = ?ss + int j" "j < nat (?se - ?ss)" using False p lenp by (auto simp: j_def)
      have "nat p = nat ?ss + j" using j(2) E(1) by simp
      then show ?thesis
        using kv_write_same [OF w E(5,6) pos fit lenKV j(1)] j posn [OF j(3)] lenp Cons.prems(4)
        by (simp add: encode_row_def)
    qed
  qed
  have cov1: "covers kv1 ?r ?se" using E(5) sh(8) by simp
  have rd: "kv_read l ?r ?se kv1 = Inr (map (\<lambda>p. ?k e p) [0..<nat ?se], map (\<lambda>p. ?v e p) [0..<nat ?se])"
  proof -
    have "map (k_row kv1 l (block_table ?r)) [0..?se - 1] = map (\<lambda>p. ?k e p) [0..<nat ?se]"
      "map (v_row kv1 l (block_table ?r)) [0..?se - 1] = map (\<lambda>p. ?v e p) [0..<nat ?se]"
      using holds by (auto simp: kv_holds_def nth_upto intro!: nth_equalityI)
    then show ?thesis using fit(1) sh(4) by (simp add: kv_read_ok [OF cov1])
  qed
  have att: "padded_attention num c ?Q (map (repeat_kv (n_heads c div num_kv_heads c)) (map (\<lambda>p. ?k e p) [0..<nat ?se]))
        (map (repeat_kv (n_heads c div num_kv_heads c)) (map (\<lambda>p. ?v e p) [0..<nat ?se]))
      = map (\<lambda>p. attend_heads num c (?q e p) (map (\<lambda>j. kv_rep c (?k e j)) [0..<Suc p]) (map (\<lambda>j. kv_rep c (?v e j)) [0..<Suc p])) (entry_positions e)"
    (is "?lhs = map ?att _")
  proof -
    have tk: "take (Suc (nat ?ss + x)) [0..<nat ?se] = [0..<Suc (nat ?ss + x)]" if "x < nat ?se - nat ?ss" for x
      using that by (subst take_upt) simp_all
    have "?lhs = map (\<lambda>i. ?att (nat ?ss + i)) [0..<nat (?se - ?ss)]"
      using E posn lenp
      by (subst padded_attention_rows)
        (auto simp: take_map tk kv_rep_def nat_diff_distrib comp_def intro!: map_cong)
    also have "\<dots> = map ?att (entry_positions e)" using posn lenp by (intro nth_equalityI) simp_all
    finally show ?thesis .
  qed
  have fr1: "kv_frame [e] l kv kv1"
    unfolding kv_frame_def
  proof (intro conjI allI impI)
    fix l' table p
    assume o: "l' \<noteq> l \<or> (\<forall>e' \<in> set [e]. set table \<inter> set (block_table (fb_request e')) = {})"
      and p: "0 \<le> p" "p < int (length table) * kv_block_size kv"
    show "k_row kv1 l' table p = k_row kv l' table p" "v_row kv1 l' table p = v_row kv l' table p"
      using kv_write_other [OF w E(5) pos] kv_write_disjoint [OF w E(5) pos _ p] o by auto
  qed (simp_all add: sh)
  have okk: "\<forall>e' \<in> set es. entry_ok kv1 n e'" using Cons.prems(1) sh(8) by (simp add: entry_ok_def)
  have dis: "set (block_table (fb_request e')) \<inter> set (block_table ?r) = {}" if "e' \<in> set es" for e'
  proof -
    obtain i where "i < length es" "es ! i = e'" using \<open>e' \<in> set es\<close> by (auto simp: in_set_conv_nth)
    then show ?thesis using Cons.prems(3) unfolding own_tables_def by (metis Suc_less_eq length_Cons nat.distinct(1) nth_Cons_0 nth_Cons_Suc zero_less_Suc)
  qed
  have hold1: "\<forall>e' \<in> set es. kv_holds num c W rope kv1 l (entry_tokens e') (block_table (fb_request e')) (fb_seq_start e')"
  proof
    fix e' assume e': "e' \<in> set es"
    then have "entry_ok kv n e'" using Cons.prems(1) by simp
    note E' = entry_okD [OF this]
    have "p < int (length (block_table (fb_request e'))) * kv_block_size kv" if "p < fb_seq_start e'" for p
      using E'(2,5) that by (simp add: covers_def)
    then show "kv_holds num c W rope kv1 l (entry_tokens e') (block_table (fb_request e')) (fb_seq_start e')"
      using Cons.prems(5) e' fr1 dis [OF e'] unfolding kv_holds_def kv_frame_def by simp
  qed
  have til: "tiles (length (pre @ ?Q)) es" using Cons.prems(2) start entry_length [OF eok] E(4) by simp
  have own: "own_tables es" using Cons.prems(3) unfolding own_tables_def by (metis Suc_less_eq length_Cons nat.inject nth_Cons_Suc)
  have i8: "\<not> kv_int8 kv1" using Cons.prems(4) sh by simp
  have fits1: "kv_fits c W rope kv1" using Cons.prems(8) kv_fits_cong [OF sh(5,6,4)] by blast
  have lens: "length (pre @ ?Q) = length (prek @ ?K)" "length (pre @ ?Q) = length (prev @ ?V)" using Cons.prems(6,7) by simp_all
  obtain kv2 where ih: "attention_loop num c l ((pre @ ?Q) @ flat_map ?q es) ((prek @ ?K) @ flat_map ?k es) ((prev @ ?V) @ flat_map ?v es) es kv1
      = Inr (kv2, flat_map (\<lambda>e p. attend_heads num c (?q e p) (map (\<lambda>j. kv_rep c (?k e j)) [0..<Suc p]) (map (\<lambda>j. kv_rep c (?v e j)) [0..<Suc p])) es)"
    and fr2: "kv_frame es l kv1 kv2"
    and hold2: "\<forall>e \<in> set es. kv_holds num c W rope kv2 l (entry_tokens e) (block_table (fb_request e)) (fb_seq_end e)"
    using Cons.IH [OF okk til own i8 hold1 lens fits1 Cons.prems(9,10)] by (elim exE conjE) (rule that)
  have "kv_holds num c W rope kv2 l ?ts (block_table ?r) ?se"
    using holds fr2 dis E(5) sh unfolding kv_holds_def kv_frame_def covers_def by (auto simp: Int_commute)
  then have "\<forall>e' \<in> set (e # es). kv_holds num c W rope kv2 l (entry_tokens e') (block_table (fb_request e')) (fb_seq_end e')"
    using hold2 by simp
  moreover have "fb_end e - fb_start e \<noteq> 0" using E by simp
  moreover have args: "(pre @ ?Q) @ flat_map ?q es = pre @ flat_map ?q (e # es)"
    "(prek @ ?K) @ flat_map ?k es = prek @ flat_map ?k (e # es)" "(prev @ ?V) @ flat_map ?v es = prev @ flat_map ?v (e # es)"
    by simp_all
  ultimately have "attention_loop num c l (pre @ flat_map ?q (e # es)) (prek @ flat_map ?k (e # es)) (prev @ flat_map ?v (e # es)) (e # es) kv
      = Inr (kv2, flat_map (\<lambda>e p. attend_heads num c (?q e p) (map (\<lambda>j. kv_rep c (?k e j)) [0..<Suc p]) (map (\<lambda>j. kv_rep c (?v e j)) [0..<Suc p])) (e # es))
      \<and> (\<forall>e' \<in> set (e # es). kv_holds num c W rope kv2 l (entry_tokens e') (block_table (fb_request e')) (fb_seq_end e'))"
    using ih [unfolded args]
    by (simp only: attention_loop.simps(2) Let_def if_False sl w bindE.simps rd split_conv att) (simp only: flat_map_Cons)
  then show ?case using kv_frame_trans [OF fr1 fr2] by blast
qed

subsection \<open>A layer\<close>

lemma flat_map_map: "map g (flat_map f es) = flat_map (\<lambda>e p. g (f e p)) es"
  by (induction es) (simp_all add: comp_def)

lemma flat_map_length: "length (flat_map f es) = length (flat_map g es)"
  by (induction es) simp_all

lemma flat_map2: "map2 h (flat_map f es) (flat_map g es) = flat_map (\<lambda>e p. h (f e p) (g e p)) es"
  by (induction es) (simp_all add: map2_same)

definition batch_ok :: "'a::floor_ceiling kv_cache \<Rightarrow> nat \<Rightarrow> flat_entry list \<Rightarrow> bool" where
  "batch_ok kv n es \<longleftrightarrow> (\<forall>e \<in> set es. entry_ok kv n e) \<and> tiles 0 es \<and> own_tables es \<and> \<not> kv_int8 kv"

lemma batch_ok_frame: "batch_ok kv n es \<Longrightarrow> kv_frame es' l kv kv' \<Longrightarrow> batch_ok kv' n es"
  by (simp add: batch_ok_def entry_ok_def kv_frame_def)

lemma runner_layer_rows:
  fixes num :: "'a::floor_ceiling numerics"
  assumes ok: "batch_ok kv n es" and fit: "kv_fits c W rope kv" "l < length (layers W)" "n \<le> length rope"
    and hold: "\<forall>e \<in> set es. kv_holds num c W rope kv l (entry_tokens e) (block_table (fb_request e)) (fb_seq_start e)"
  defines "rows \<equiv> \<lambda>m. flat_map (\<lambda>e p. dense_row num c W rope (entry_tokens e) m p) es"
  shows "\<exists>kv'. runner_layer num c (flat_map (\<lambda>e p. rope ! p) es) es l (layers W ! l) (map fst (rows l), map snd (rows l), kv)
      = Inr (map fst (rows (Suc l)), map snd (rows (Suc l)), kv')
      \<and> kv_frame es l kv kv'
      \<and> (\<forall>e \<in> set es. kv_holds num c W rope kv' l (entry_tokens e) (block_table (fb_request e)) (fb_seq_end e))"
proof -
  let ?w = "layers W ! l" and ?pre = "\<lambda>e p. dense_pre num c W rope (entry_tokens e) l p"
  let ?rope = "flat_map (\<lambda>e p. rope ! p) es"
  let ?f = "fused_add_rmsnorm (n_rsqrt num) (rms_eps c) (input_layernorm_weight ?w) (map fst (rows l)) (map snd (rows l))"
  have len: "length ?rope = length (rows l)" unfolding rows_def by (rule flat_map_length)
  have m2: "map2 (\<lambda>p row. g (layer_pre num c ?w p row)) ?rope (rows l) = flat_map (\<lambda>e p. g (?pre e p)) es" for g :: "_ \<Rightarrow> 'z"
    unfolding rows_def flat_map2 dense_pre_def ..
  have q: "qkv c ?w ?rope (fst ?f) = (flat_map (\<lambda>e p. fst (?pre e p)) es, flat_map (\<lambda>e p. dense_k num c W rope (entry_tokens e) l p) es,
      flat_map (\<lambda>e p. dense_v num c W rope (entry_tokens e) l p) es)"
    unfolding qkv_rows(1) [OF len] m2 [of fst] m2 [of "\<lambda>t. fst (snd t)"] m2 [of "\<lambda>t. fst (snd (snd t))"] dense_k_def dense_v_def ..
  have r: "snd ?f = flat_map (\<lambda>e p. snd (snd (snd (?pre e p)))) es"
    unfolding qkv_rows(2) [OF len] m2 [of "\<lambda>t. snd (snd (snd t))"] ..
  let ?att = "\<lambda>e p. attend_heads num c (fst (?pre e p))
      (map (\<lambda>j. kv_rep c (dense_k num c W rope (entry_tokens e) l j)) [0..<Suc p])
      (map (\<lambda>j. kv_rep c (dense_v num c W rope (entry_tokens e) l j)) [0..<Suc p])"
  obtain kv' where att: "attention_loop num c l (flat_map (\<lambda>e p. fst (?pre e p)) es) (flat_map (\<lambda>e p. dense_k num c W rope (entry_tokens e) l p) es)
      (flat_map (\<lambda>e p. dense_v num c W rope (entry_tokens e) l p) es) es kv = Inr (kv', flat_map ?att es)"
    and fr: "kv_frame es l kv kv'"
    and h: "\<forall>e \<in> set es. kv_holds num c W rope kv' l (entry_tokens e) (block_table (fb_request e)) (fb_seq_end e)"
    using attention_loop_rows [of es kv n "[]" num c W rope l "[]" "[]"] ok hold fit unfolding batch_ok_def by auto
  have len2: "length (snd ?f) = length (flat_map ?att es)" unfolding r by (rule flat_map_length)
  have rows: "map2 (layer_post num c ?w) (flat_map ?att es) (snd ?f) = rows (Suc l)"
    unfolding r flat_map2 unfolding rows_def dense_row_Suc ..
  have "runner_layer num c ?rope es l ?w (map fst (rows l), map snd (rows l), kv)
      = (case (let x1 = mat_mul (map concat (flat_map ?att es)) (o_proj ?w);
              (normed2, residual2) = fused_add_rmsnorm (n_rsqrt num) (rms_eps c) (post_attention_layernorm_weight ?w) x1 (snd ?f)
          in (mlp num ?w normed2, residual2)) of (x, r) \<Rightarrow> Inr (x, r, kv'))"
    unfolding runner_layer_def split_conv Let_def
    by (subst surjective_pairing [of ?f], simp only: split_conv q att bindE.simps) (simp add: split_def)
  also have "\<dots> = Inr (map fst (rows (Suc l)), map snd (rows (Suc l)), kv')"
    unfolding post_rows [OF len2] rows by simp
  finally show ?thesis using fr h by blast
qed

lemma runner_layers_rows:
  fixes num :: "'a::floor_ceiling numerics"
  assumes ok: "batch_ok kv n es" and m: "m \<le> length (layers W)" and fit: "kv_fits c W rope kv" "n \<le> length rope"
    and hold: "\<forall>e \<in> set es. \<forall>l < length (layers W). kv_holds num c W rope kv l (entry_tokens e) (block_table (fb_request e)) (fb_seq_start e)"
  defines "rows \<equiv> \<lambda>m. flat_map (\<lambda>e p. dense_row num c W rope (entry_tokens e) m p) es"
  shows "\<exists>kv'. foldE (\<lambda>(l, w). runner_layer num c (flat_map (\<lambda>e p. rope ! p) es) es l w) (enumerate 0 (take m (layers W)))
        (map fst (rows 0), map snd (rows 0), kv) = Inr (map fst (rows m), map snd (rows m), kv')
      \<and> batch_ok kv' n es \<and> (\<forall>l < m. \<forall>e \<in> set es. kv_holds num c W rope kv' l (entry_tokens e) (block_table (fb_request e)) (fb_seq_end e))
      \<and> (\<forall>l. \<forall>e \<in> set es. m \<le> l \<longrightarrow> l < length (layers W) \<longrightarrow> kv_holds num c W rope kv' l (entry_tokens e) (block_table (fb_request e)) (fb_seq_start e))
      \<and> (\<forall>table l p. (\<forall>e \<in> set es. set table \<inter> set (block_table (fb_request e)) = {}) \<longrightarrow> 0 \<le> p \<longrightarrow> p < int (length table) * kv_block_size kv
            \<longrightarrow> k_row kv' l table p = k_row kv l table p \<and> v_row kv' l table p = v_row kv l table p)
      \<and> kv_block_size kv' = kv_block_size kv \<and> covers kv' = covers kv \<and> kv_int8 kv' = kv_int8 kv \<and> kv_n_layers kv' = kv_n_layers kv
      \<and> kv_num_blocks kv' = kv_num_blocks kv \<and> kv_num_heads kv' = kv_num_heads kv \<and> kv_head_dim kv' = kv_head_dim kv \<and> kv_compute_dtype kv' = kv_compute_dtype kv"
  using m
proof (induction m)
  case 0
  then show ?case using ok hold by simp
next
  case (Suc m)
  let ?R = "\<lambda>(l, w). runner_layer num c (flat_map (\<lambda>e p. rope ! p) es) es l w"
  have mle: "m \<le> length (layers W)" using Suc.prems by simp
  obtain kv1 where f: "foldE ?R (enumerate 0 (take m (layers W))) (map fst (rows 0), map snd (rows 0), kv) = Inr (map fst (rows m), map snd (rows m), kv1)"
    and ok1: "batch_ok kv1 n es"
    and done1: "\<forall>l < m. \<forall>e \<in> set es. kv_holds num c W rope kv1 l (entry_tokens e) (block_table (fb_request e)) (fb_seq_end e)"
    and todo1: "\<forall>l. \<forall>e \<in> set es. m \<le> l \<longrightarrow> l < length (layers W) \<longrightarrow> kv_holds num c W rope kv1 l (entry_tokens e) (block_table (fb_request e)) (fb_seq_start e)"
    and oth1: "\<forall>table l p. (\<forall>e \<in> set es. set table \<inter> set (block_table (fb_request e)) = {}) \<longrightarrow> 0 \<le> p \<longrightarrow> p < int (length table) * kv_block_size kv
            \<longrightarrow> k_row kv1 l table p = k_row kv l table p \<and> v_row kv1 l table p = v_row kv l table p"
    and sh1: "kv_block_size kv1 = kv_block_size kv" "covers kv1 = covers kv" "kv_int8 kv1 = kv_int8 kv" "kv_n_layers kv1 = kv_n_layers kv"
      "kv_num_blocks kv1 = kv_num_blocks kv" "kv_num_heads kv1 = kv_num_heads kv" "kv_head_dim kv1 = kv_head_dim kv" "kv_compute_dtype kv1 = kv_compute_dtype kv"
    using Suc.IH [OF mle] by (elim exE conjE) (rule that)
  have ml: "m < length (layers W)" using Suc.prems by simp
  have "\<forall>e \<in> set es. kv_holds num c W rope kv1 m (entry_tokens e) (block_table (fb_request e)) (fb_seq_start e)"
    using todo1 ml by blast
  have "kv_fits c W rope kv1" using fit(1) kv_fits_cong [OF sh1(6,7,4)] by blast
  from runner_layer_rows [OF ok1 this ml fit(2) \<open>\<forall>e \<in> set es. kv_holds _ _ _ _ kv1 m _ _ _\<close>] obtain kv2 where
    s: "?R (m, layers W ! m) (map fst (rows m), map snd (rows m), kv1) = Inr (map fst (rows (Suc m)), map snd (rows (Suc m)), kv2)"
    and fr: "kv_frame es m kv1 kv2"
    and h: "\<forall>e \<in> set es. kv_holds num c W rope kv2 m (entry_tokens e) (block_table (fb_request e)) (fb_seq_end e)"
    unfolding rows_def by auto
  have enum: "enumerate 0 (take (Suc m) (layers W)) = enumerate 0 (take m (layers W)) @ [(m, layers W ! m)]"
    using ml by (simp add: take_Suc_conv_app_nth enumerate_append_eq)
  have step: "foldE ?R (enumerate 0 (take (Suc m) (layers W))) (map fst (rows 0), map snd (rows 0), kv) = Inr (map fst (rows (Suc m)), map snd (rows (Suc m)), kv2)"
    unfolding enum foldE_append f bindE.simps foldE.simps s ..
  have keep: "kv_holds num c W rope kv2 l (entry_tokens e) (block_table (fb_request e)) k = kv_holds num c W rope kv1 l (entry_tokens e) (block_table (fb_request e)) k"
    if "l \<noteq> m" "e \<in> set es" "k \<le> fb_seq_end e" for l e k
  proof -
    have "covers kv1 (fb_request e) (fb_seq_end e)" using ok1 that(2) by (auto simp: batch_ok_def entry_ok_def)
    then have "p < int (length (block_table (fb_request e))) * kv_block_size kv1" if "p < k" for p
      using that \<open>k \<le> fb_seq_end e\<close> by (simp add: covers_def)
    then show ?thesis using fr that(1) unfolding kv_holds_def kv_frame_def by simp
  qed
  have le: "fb_seq_start e \<le> fb_seq_end e" if "e \<in> set es" for e
    using ok that by (auto simp: batch_ok_def entry_ok_def)
  have d: "\<forall>l < Suc m. \<forall>e \<in> set es. kv_holds num c W rope kv2 l (entry_tokens e) (block_table (fb_request e)) (fb_seq_end e)"
    using h done1 keep by (auto simp: less_Suc_eq)
  have t: "\<forall>l. \<forall>e \<in> set es. Suc m \<le> l \<longrightarrow> l < length (layers W) \<longrightarrow> kv_holds num c W rope kv2 l (entry_tokens e) (block_table (fb_request e)) (fb_seq_start e)"
    using todo1 keep le by auto
  have o: "\<forall>table l p. (\<forall>e \<in> set es. set table \<inter> set (block_table (fb_request e)) = {}) \<longrightarrow> 0 \<le> p \<longrightarrow> p < int (length table) * kv_block_size kv
            \<longrightarrow> k_row kv2 l table p = k_row kv l table p \<and> v_row kv2 l table p = v_row kv l table p"
    using oth1 fr sh1(1) unfolding kv_frame_def by simp
  have sh2: "kv_block_size kv2 = kv_block_size kv" "covers kv2 = covers kv" "kv_int8 kv2 = kv_int8 kv" "kv_n_layers kv2 = kv_n_layers kv"
      "kv_num_blocks kv2 = kv_num_blocks kv" "kv_num_heads kv2 = kv_num_heads kv" "kv_head_dim kv2 = kv_head_dim kv" "kv_compute_dtype kv2 = kv_compute_dtype kv"
    using fr sh1 by (simp_all add: kv_frame_def)
  show ?case using step batch_ok_frame [OF ok1 fr] d t o sh2 by blast
qed

subsection \<open>The flat batch of a step\<close>

text \<open>
  What the scheduler and the cache owe the runner for one scheduled request: it has been
  advanced by \<open>n\<close> tokens, within what it has (drafts included, which then are all scheduled
  behind the one uncomputed token), and its table covers them.
\<close>

definition scheduled_ok :: "'a::floor_ceiling model_runner \<Rightarrow> request \<times> int \<Rightarrow> bool" where
  "scheduled_ok mr = (\<lambda>(r, n). 0 < n \<and> n \<le> num_computed_tokens r
     \<and> (if draft_token_ids r = [] then num_computed_tokens r \<le> get_len r
        else n = int (length (draft_token_ids r)) + 1 \<and> num_computed_tokens r = get_len r + int (length (draft_token_ids r)))
     \<and> num_computed_tokens r \<le> int (length (mr_cos mr))
     \<and> covers (mr_kv mr) r (num_computed_tokens r) \<and> distinct (block_table r)
     \<and> (\<forall>t \<in> set (all_token_ids r @ draft_token_ids r). 0 \<le> t \<and> nat t < length (embed_tokens (mr_weights mr))))"

definition mr_rope :: "'a model_runner \<Rightarrow> ('a list \<times> 'a list) list" where
  "mr_rope mr = zip (mr_cos mr) (mr_sin mr)"

lemma py_slice_map: "a \<le> b \<Longrightarrow> b \<le> length xs \<Longrightarrow> py_slice a b xs = map ((!) xs) [a..<b]"
  unfolding py_slice_def by (intro nth_equalityI) simp_all

lemma input_tokens_ok:
  assumes "scheduled_ok mr (r, n)"
  shows "input_tokens r n = Inr (map ((!) (all_token_ids r @ draft_token_ids r)) [nat (num_computed_tokens r - n)..<nat (num_computed_tokens r)])"
proof (cases "draft_token_ids r = []")
  case True
  then have le: "nat (num_computed_tokens r - n) \<le> nat (num_computed_tokens r)" "nat (num_computed_tokens r) \<le> length (all_token_ids r)"
    using assms length_all_token_ids [of r] by (auto simp: scheduled_ok_def simp del: length_all_token_ids)
  show ?thesis using True py_slice_map [OF le] by (simp add: input_tokens_def Let_def)
next
  case False
  let ?k = "length (draft_token_ids r)" and ?m = "length (all_token_ids r)"
  have n: "n = int ?k + 1" "num_computed_tokens r = get_len r + int ?k" "n \<le> num_computed_tokens r"
    using assms False by (auto simp: scheduled_ok_def)
  have m: "get_len r = int ?m" by simp
  have idx: "nat (num_computed_tokens r - n) = ?m - 1" "nat (num_computed_tokens r) = ?m + ?k" "0 < ?m"
    using n m by (auto simp del: length_all_token_ids)
  have "?m - 1 < ?m + ?k" "Suc (?m - 1) = ?m" using idx(3) by linarith+
  then have "[?m - 1..<?m + ?k] = (?m - 1) # [?m..<?m + ?k]" by (metis upt_conv_Cons)
  moreover have "map ((!) (all_token_ids r @ draft_token_ids r)) [?m..<?m + ?k] = draft_token_ids r"
    by (intro nth_equalityI) simp_all
  ultimately have "map ((!) (all_token_ids r @ draft_token_ids r)) [?m - 1..<?m + ?k] = all_token_ids r ! (?m - 1) # draft_token_ids r"
    using idx(3) by (simp add: nth_append)
  then show ?thesis using False n(1) idx by (simp add: input_tokens_def Let_def py_nth_def)
qed

lemma flat_map_cong:
  "(\<And>e p. e \<in> set es \<Longrightarrow> p \<in> set (entry_positions e) \<Longrightarrow> f e p = g e p) \<Longrightarrow> flat_map f es = flat_map g es"
  by (induction es) auto

lemma upto_map_int: "0 \<le> a \<Longrightarrow> [a..b - 1] = map int [nat a..<nat b]"
  by (intro nth_equalityI) (auto simp: nth_upto nat_diff_distrib')

lemma flat_loop_ok:
  assumes "\<forall>x \<in> set scheduled. scheduled_ok mr x"
  shows "\<exists>es. flat_loop cur scheduled = Inr (flat_map (\<lambda>e p. entry_tokens e ! p) es, flat_map (\<lambda>e p. int p) es, es)
    \<and> map fb_request es = map fst scheduled \<and> tiles cur es
    \<and> list_all2 (\<lambda>e (r, n). fb_seq_start e = num_computed_tokens r - n \<and> fb_seq_end e = num_computed_tokens r) es scheduled
    \<and> (\<forall>e \<in> set es. entry_ok (mr_kv mr) (length (mr_cos mr)) e)"
  using assms
proof (induction scheduled arbitrary: cur)
  case Nil
  then show ?case by simp
next
  case (Cons x rest)
  obtain r n where x: "x = (r, n)" by force
  have ok: "scheduled_ok mr (r, n)" using Cons.prems x by simp
  obtain es where es: "flat_loop (cur + nat n) rest = Inr (flat_map (\<lambda>e p. entry_tokens e ! p) es, flat_map (\<lambda>e p. int p) es, es)"
    "map fb_request es = map fst rest" "tiles (cur + nat n) es"
    "list_all2 (\<lambda>e (r, n). fb_seq_start e = num_computed_tokens r - n \<and> fb_seq_end e = num_computed_tokens r) es rest"
    "\<forall>e \<in> set es. entry_ok (mr_kv mr) (length (mr_cos mr)) e"
    using Cons.IH [of "cur + nat n"] Cons.prems by auto
  define e where "e = \<lparr>fb_request = r, fb_start = cur, fb_end = cur + nat n,
             fb_seq_start = num_computed_tokens r - n, fb_seq_end = num_computed_tokens r\<rparr>"
  have len: "num_computed_tokens r \<le> int (length (all_token_ids r @ draft_token_ids r))"
    using ok length_all_token_ids [of r] by (auto simp: scheduled_ok_def simp del: length_all_token_ids split: if_splits)
  have eok: "entry_ok (mr_kv mr) (length (mr_cos mr)) e"
    using ok len by (auto simp: e_def entry_ok_def entry_tokens_def scheduled_ok_def)
  have "[num_computed_tokens r - n..num_computed_tokens r - 1] = map (\<lambda>p. int p) (entry_positions e)"
    using ok by (simp add: upto_map_int e_def entry_positions_def scheduled_ok_def)
  moreover have "input_tokens r n = Inr (map (\<lambda>p. entry_tokens e ! p) (entry_positions e))"
    using input_tokens_ok [OF ok] by (simp add: e_def entry_positions_def entry_tokens_def)
  ultimately have "flat_loop cur (x # rest) = Inr (flat_map (\<lambda>e p. entry_tokens e ! p) (e # es), flat_map (\<lambda>e p. int p) (e # es), e # es)"
    using es(1) by (simp add: x Let_def e_def)
  then show ?case using es eok
    by (intro exI [of _ "e # es"]) (simp add: x e_def)
qed

lemma flat_slice_mem:
  assumes "\<forall>e \<in> set es. entry_ok kv n e" "tiles (length pre) es" "e \<in> set es"
  shows "py_slice (fb_start e) (fb_end e) (pre @ flat_map f es) = map (f e) (entry_positions e)
    \<and> fb_end e \<le> length (pre @ flat_map f es)"
  using assms
proof (induction es arbitrary: pre)
  case (Cons e' es)
  have ok: "entry_ok kv n e'" using Cons.prems(1) by simp
  have t: "tiles (length (pre @ map (f e') (entry_positions e'))) es"
    using Cons.prems(2) entry_length [OF ok] entry_okD(4) [OF ok] by auto
  show ?case
  proof (cases "e = e'")
    case True
    then show ?thesis
      using flat_slice [OF ok, of pre f es] Cons.prems(2) entry_length [OF ok] entry_okD(4) [OF ok] by simp
  next
    case False
    then show ?thesis using Cons.IH [OF _ t] Cons.prems(1,3) by simp
  qed
qed simp

subsection \<open>The whole pass\<close>

abbreviation runner_fits :: "'a model_runner \<Rightarrow> bool" where
  "runner_fits mr \<equiv> kv_fits (mr_config mr) (mr_weights mr) (mr_rope mr) (mr_kv mr)"

definition tables_apart :: "request list \<Rightarrow> bool" where
  "tables_apart rs \<longleftrightarrow> (\<forall>i < length rs. \<forall>j < length rs. i \<noteq> j \<longrightarrow>
     set (block_table (rs ! i)) \<inter> set (block_table (rs ! j)) = {})"

text \<open>The cache is right for a request's first \<open>n\<close> positions, in every layer.\<close>

definition kv_ready :: "'a::floor_ceiling model_runner \<Rightarrow> 'a kv_cache \<Rightarrow> request \<Rightarrow> int \<Rightarrow> bool" where
  "kv_ready mr kv r n \<longleftrightarrow> (\<forall>l < length (layers (mr_weights mr)).
     kv_holds (mr_num mr) (mr_config mr) (mr_weights mr) (mr_rope mr) kv l (all_token_ids r @ draft_token_ids r) (block_table r) n)"

text \<open>The specification: the token the dense pass over all the tokens so far predicts next.\<close>

definition greedy_next :: "'a::floor_ceiling model_runner \<Rightarrow> int list \<Rightarrow> int" where
  "greedy_next mr ts = sample (mr_weights mr) (last (llama_hidden (mr_num mr) (mr_config mr) (mr_weights mr) (mr_rope mr) ts))"

definition commit_greedy :: "'a::floor_ceiling model_runner \<Rightarrow> request \<Rightarrow> request" where
  "commit_greedy mr r =
     (if is_prefill r then r
      else maybe_finish (r\<lparr>output_token_ids := output_token_ids r @
        (if draft_token_ids r \<noteq> []
         then accept_reject (draft_token_ids r)
                (map (\<lambda>i. greedy_next mr (all_token_ids r @ take i (draft_token_ids r))) [0..<Suc (length (draft_token_ids r))])
         else [greedy_next mr (take (nat (num_computed_tokens r)) (all_token_ids r))])\<rparr>))"

lemma greedy_next_row:
  assumes "0 < p" "p \<le> length ts" "p \<le> length (mr_rope mr)"
  shows "greedy_next mr (take p ts) = sample (mr_weights mr) (final_row (mr_num mr) (mr_config mr) (mr_weights mr) (mr_rope mr) ts (p - 1))"
proof -
  have "length (take p ts) = p" using assms by simp
  then have "last (llama_hidden (mr_num mr) (mr_config mr) (mr_weights mr) (mr_rope mr) (take p ts))
      = final_row (mr_num mr) (mr_config mr) (mr_weights mr) (mr_rope mr) (take p ts) (p - 1)"
    using assms by (simp add: llama_hidden_rows last_map)
  also have "\<dots> = final_row (mr_num mr) (mr_config mr) (mr_weights mr) (mr_rope mr) ts (p - 1)"
    using assms by (intro final_row_causal) simp
  finally show ?thesis by (simp add: greedy_next_def)
qed

lemma runner_hidden_rows:
  assumes ok: "batch_ok (mr_kv mr) (length (mr_cos mr)) es" and sin: "length (mr_sin mr) = length (mr_cos mr)"
    and fit: "runner_fits mr"
    and vocab: "\<forall>e \<in> set es. \<forall>t \<in> set (entry_tokens e). 0 \<le> t \<and> nat t < length (embed_tokens (mr_weights mr))"
    and hold: "\<forall>e \<in> set es. \<forall>l < length (layers (mr_weights mr)). kv_holds (mr_num mr) (mr_config mr) (mr_weights mr) (mr_rope mr) (mr_kv mr) l
        (entry_tokens e) (block_table (fb_request e)) (fb_seq_start e)"
  shows "\<exists>kv'. runner_hidden mr (flat_map (\<lambda>e p. entry_tokens e ! p) es) (flat_map (\<lambda>e p. int p) es) es
      = Inr (kv', flat_map (\<lambda>e p. final_row (mr_num mr) (mr_config mr) (mr_weights mr) (mr_rope mr) (entry_tokens e) p) es)
    \<and> (\<forall>l < length (layers (mr_weights mr)). \<forall>e \<in> set es. kv_holds (mr_num mr) (mr_config mr) (mr_weights mr) (mr_rope mr) kv' l
        (entry_tokens e) (block_table (fb_request e)) (fb_seq_end e))
    \<and> (\<forall>table l p. (\<forall>e \<in> set es. set table \<inter> set (block_table (fb_request e)) = {}) \<longrightarrow> 0 \<le> p
        \<longrightarrow> p < int (length table) * kv_block_size (mr_kv mr)
        \<longrightarrow> k_row kv' l table p = k_row (mr_kv mr) l table p \<and> v_row kv' l table p = v_row (mr_kv mr) l table p)
    \<and> kv_block_size kv' = kv_block_size (mr_kv mr) \<and> covers kv' = covers (mr_kv mr) \<and> kv_int8 kv' = kv_int8 (mr_kv mr)
    \<and> kv_n_layers kv' = kv_n_layers (mr_kv mr) \<and> kv_num_blocks kv' = kv_num_blocks (mr_kv mr)
    \<and> kv_num_heads kv' = kv_num_heads (mr_kv mr) \<and> kv_head_dim kv' = kv_head_dim (mr_kv mr) \<and> kv_compute_dtype kv' = kv_compute_dtype (mr_kv mr)"
proof -
  let ?num = "mr_num mr" and ?c = "mr_config mr" and ?W = "mr_weights mr" and ?rope = "mr_rope mr"
  let ?ids = "flat_map (\<lambda>e p. entry_tokens e ! p) es" and ?pos = "flat_map (\<lambda>e p. int p) es"
  let ?rows = "\<lambda>m. flat_map (\<lambda>e p. dense_row ?num ?c ?W ?rope (entry_tokens e) m p) es"
  have eok: "entry_ok (mr_kv mr) (length (mr_cos mr)) e" if "e \<in> set es" for e using ok that by (simp add: batch_ok_def)
  have rng: "p < length (entry_tokens e)" "p < length (mr_cos mr)" if "e \<in> set es" "p \<in> set (entry_positions e)" for e p
    using entry_okD [OF eok [OF that(1)]] that(2) by (auto simp: entry_positions_def)
  have vi: "\<forall>t \<in> set ?ids. 0 \<le> t \<and> nat t < length (embed_tokens ?W)"
    using vocab rng by (auto simp: flat_map_def)
  have vp: "\<forall>p \<in> set ?pos. nat p < length (mr_cos mr)"
    using rng by (auto simp: flat_map_def)
  have len: "length ?ids = length ?pos" by (rule flat_map_length)
  have emb: "embed ?W ?ids = (map fst (?rows 0), map snd (?rows 0))"
    by (simp add: embed_def Let_def flat_map_map)
  have rope: "map (\<lambda>p. (mr_cos mr ! nat p, mr_sin mr ! nat p)) ?pos = flat_map (\<lambda>e p. ?rope ! p) es"
    unfolding flat_map_map by (rule flat_map_cong) (use rng sin in \<open>simp add: mr_rope_def\<close>)
  have long: "length (mr_cos mr) \<le> length ?rope" using sin by (simp add: mr_rope_def)
  from runner_layers_rows [OF ok order_refl fit long hold] obtain kv' where
    f: "foldE (\<lambda>(l, w). runner_layer ?num ?c (flat_map (\<lambda>e p. ?rope ! p) es) es l w) (enumerate 0 (layers ?W)) (map fst (?rows 0), map snd (?rows 0), mr_kv mr)
      = Inr (map fst (?rows (length (layers ?W))), map snd (?rows (length (layers ?W))), kv')"
    and rest: "\<forall>l < length (layers ?W). \<forall>e \<in> set es. kv_holds ?num ?c ?W ?rope kv' l (entry_tokens e) (block_table (fb_request e)) (fb_seq_end e)"
      "\<forall>table l p. (\<forall>e \<in> set es. set table \<inter> set (block_table (fb_request e)) = {}) \<longrightarrow> 0 \<le> p
        \<longrightarrow> p < int (length table) * kv_block_size (mr_kv mr)
        \<longrightarrow> k_row kv' l table p = k_row (mr_kv mr) l table p \<and> v_row kv' l table p = v_row (mr_kv mr) l table p"
      "kv_block_size kv' = kv_block_size (mr_kv mr)" "covers kv' = covers (mr_kv mr)" "kv_int8 kv' = kv_int8 (mr_kv mr)"
      "kv_n_layers kv' = kv_n_layers (mr_kv mr)" "kv_num_blocks kv' = kv_num_blocks (mr_kv mr)"
      "kv_num_heads kv' = kv_num_heads (mr_kv mr)" "kv_head_dim kv' = kv_head_dim (mr_kv mr)" "kv_compute_dtype kv' = kv_compute_dtype (mr_kv mr)"
    unfolding take_all [OF order_refl] by (elim exE conjE) (rule that)
  have fin: "fst (fused_add_rmsnorm (n_rsqrt ?num) (rms_eps ?c) (norm_weight ?W) (map fst (?rows (length (layers ?W)))) (map snd (?rows (length (layers ?W)))))
      = flat_map (\<lambda>e p. final_row ?num ?c ?W ?rope (entry_tokens e) p) es"
    unfolding fused_add_rmsnorm_rows fst_conv unfolding flat_map_map by (simp add: final_row_def split_def)
  have "runner_hidden mr ?ids ?pos es = Inr (kv', flat_map (\<lambda>e p. final_row ?num ?c ?W ?rope (entry_tokens e) p) es)"
    unfolding runner_hidden_def Let_def emb rope split_conv
    by (subst if_not_P, use vi in blast, subst if_not_P, use vp in blast, subst if_not_P, use len in blast)
      (simp only: f bindE.simps fin split_conv)
  then show ?thesis using rest by blast
qed

theorem execute_model_dense:
  assumes ok: "\<forall>x \<in> set scheduled. scheduled_ok mr x" and ne: "scheduled \<noteq> []"
    and apart: "tables_apart (map fst scheduled)" and i8: "\<not> kv_int8 (mr_kv mr)" and sin: "length (mr_sin mr) = length (mr_cos mr)"
    and fit: "runner_fits mr"
    and ready: "\<forall>(r, n) \<in> set scheduled. kv_ready mr (mr_kv mr) r (num_computed_tokens r - n)"
  shows "\<exists>kv'. execute_model mr scheduled = Inr (mr\<lparr>mr_kv := kv'\<rparr>, map (\<lambda>(r, _). commit_greedy mr r) scheduled)
    \<and> (\<forall>(r, _) \<in> set scheduled. kv_ready mr kv' r (num_computed_tokens r))
    \<and> (\<forall>table l p. (\<forall>(r, _) \<in> set scheduled. set table \<inter> set (block_table r) = {}) \<longrightarrow> 0 \<le> p
        \<longrightarrow> p < int (length table) * kv_block_size (mr_kv mr)
        \<longrightarrow> k_row kv' l table p = k_row (mr_kv mr) l table p \<and> v_row kv' l table p = v_row (mr_kv mr) l table p)
    \<and> kv_block_size kv' = kv_block_size (mr_kv mr) \<and> covers kv' = covers (mr_kv mr) \<and> kv_int8 kv' = kv_int8 (mr_kv mr)
    \<and> kv_n_layers kv' = kv_n_layers (mr_kv mr) \<and> kv_num_blocks kv' = kv_num_blocks (mr_kv mr)
    \<and> kv_num_heads kv' = kv_num_heads (mr_kv mr) \<and> kv_head_dim kv' = kv_head_dim (mr_kv mr) \<and> kv_compute_dtype kv' = kv_compute_dtype (mr_kv mr)"
proof -
  let ?num = "mr_num mr" and ?c = "mr_config mr" and ?W = "mr_weights mr" and ?rope = "mr_rope mr"
  obtain es where fl: "flat_loop 0 scheduled = Inr (flat_map (\<lambda>e p. entry_tokens e ! p) es, flat_map (\<lambda>e p. int p) es, es)"
    and reqs: "map fb_request es = map fst scheduled" and til: "tiles 0 es"
    and seqs: "list_all2 (\<lambda>e (r, n). fb_seq_start e = num_computed_tokens r - n \<and> fb_seq_end e = num_computed_tokens r) es scheduled"
    and eok: "\<forall>e \<in> set es. entry_ok (mr_kv mr) (length (mr_cos mr)) e"
    using flat_loop_ok [OF ok, of 0] by (elim exE conjE) (rule that)
  have len: "length es = length scheduled" using reqs by (metis length_map)
  have own: "own_tables es" using apart len unfolding own_tables_def tables_apart_def reqs [symmetric] by simp
  have bok: "batch_ok (mr_kv mr) (length (mr_cos mr)) es" using eok til own i8 by (simp add: batch_ok_def)
  have nth: "scheduled ! i = (fb_request (es ! i), num_computed_tokens (fb_request (es ! i)) - fb_seq_start (es ! i))
      \<and> fb_seq_end (es ! i) = num_computed_tokens (fb_request (es ! i))" if "i < length es" for i
  proof -
    have "fb_request (es ! i) = fst (scheduled ! i)" using reqs that len by (metis nth_map)
    then show ?thesis using list_all2_nthD [OF seqs that] by (cases "scheduled ! i") auto
  qed
  have mem: "(fb_request e, num_computed_tokens (fb_request e) - fb_seq_start e) \<in> set scheduled"
    "fb_seq_end e = num_computed_tokens (fb_request e)" if "e \<in> set es" for e
    using that nth len by (metis in_set_conv_nth)+
  have vocab: "\<forall>e \<in> set es. \<forall>t \<in> set (entry_tokens e). 0 \<le> t \<and> nat t < length (embed_tokens ?W)"
    using ok mem(1) by (fastforce simp: scheduled_ok_def entry_tokens_def)
  have hold: "\<forall>e \<in> set es. \<forall>l < length (layers ?W). kv_holds ?num ?c ?W ?rope (mr_kv mr) l (entry_tokens e) (block_table (fb_request e)) (fb_seq_start e)"
    using ready mem(1) by (fastforce simp: kv_ready_def entry_tokens_def)
  let ?hid = "flat_map (\<lambda>e p. final_row ?num ?c ?W ?rope (entry_tokens e) p) es"
  obtain kv' where h: "runner_hidden mr (flat_map (\<lambda>e p. entry_tokens e ! p) es) (flat_map (\<lambda>e p. int p) es) es = Inr (kv', ?hid)"
    and rest: "\<forall>l < length (layers ?W). \<forall>e \<in> set es. kv_holds ?num ?c ?W ?rope kv' l (entry_tokens e) (block_table (fb_request e)) (fb_seq_end e)"
      "\<forall>table l p. (\<forall>e \<in> set es. set table \<inter> set (block_table (fb_request e)) = {}) \<longrightarrow> 0 \<le> p
        \<longrightarrow> p < int (length table) * kv_block_size (mr_kv mr)
        \<longrightarrow> k_row kv' l table p = k_row (mr_kv mr) l table p \<and> v_row kv' l table p = v_row (mr_kv mr) l table p"
      "kv_block_size kv' = kv_block_size (mr_kv mr)" "covers kv' = covers (mr_kv mr)" "kv_int8 kv' = kv_int8 (mr_kv mr)"
      "kv_n_layers kv' = kv_n_layers (mr_kv mr)" "kv_num_blocks kv' = kv_num_blocks (mr_kv mr)"
      "kv_num_heads kv' = kv_num_heads (mr_kv mr)" "kv_head_dim kv' = kv_head_dim (mr_kv mr)" "kv_compute_dtype kv' = kv_compute_dtype (mr_kv mr)"
    using runner_hidden_rows [OF bok sin fit vocab hold] by (elim exE conjE) (rule that)
  have last_pos: "last (flat_map (\<lambda>e p. int p) es) < int (length (mr_cos mr))" if "flat_map (\<lambda>e p. int p) es \<noteq> []"
  proof -
    have "last (flat_map (\<lambda>e p. int p) es) \<in> set (flat_map (\<lambda>e p. int p) es)" using that by simp
    then obtain e p where "e \<in> set es" "p \<in> set (entry_positions e)" "last (flat_map (\<lambda>e p. int p) es) = int p"
      by (auto simp: flat_map_def)
    moreover have "fb_seq_end e \<le> int (length (mr_cos mr))" using eok \<open>e \<in> set es\<close> entry_okD(7) by blast
    ultimately show ?thesis unfolding entry_positions_def set_upt atLeastLessThan_iff by linarith
  qed
  have batch: "build_flat_batch mr scheduled = Inr (flat_map (\<lambda>e p. entry_tokens e ! p) es, flat_map (\<lambda>e p. int p) es, es)"
    by (simp add: build_flat_batch_def fl not_le) (use last_pos in blast)
  have rowlen: "length ?rope = length (mr_cos mr)" using sin by (simp add: mr_rope_def)
  have slice: "py_slice (fb_start e) (fb_end e) ?hid = map (final_row ?num ?c ?W ?rope (entry_tokens e)) (entry_positions e)"
    "fb_end e \<le> length ?hid" if "e \<in> set es" for e
    using flat_slice_mem [OF eok, of "[]" e "\<lambda>e p. final_row ?num ?c ?W ?rope (entry_tokens e) p"] til that by simp_all
  have next1: "(if fb_end e = 0 then Inl IndexError else bindE (py_nth ?hid (fb_end e - 1)) (\<lambda>h. Inr (sample ?W h)))
      = Inr (greedy_next mr (take (nat (fb_seq_end e)) (entry_tokens e)))" if e: "e \<in> set es" for e
  proof -
    note E = entry_okD [OF eok [rule_format, OF e]]
    have pos: "fb_start e < fb_end e" "0 < nat (fb_seq_end e)" using E by simp_all
    then have "fb_end e - 1 < length ?hid" using slice(2) [OF e] by simp
    moreover have "?hid ! (fb_end e - 1) = last (py_slice (fb_start e) (fb_end e) ?hid)"
      using pos slice(2) [OF e] by (simp add: py_slice_map last_map)
    then have "?hid ! (fb_end e - 1) = last (map (final_row ?num ?c ?W ?rope (entry_tokens e)) (entry_positions e))"
      by (simp only: slice(1) [OF e])
    moreover have lt: "nat (fb_seq_start e) < nat (fb_seq_end e)" using E by simp
    have "last (map (final_row ?num ?c ?W ?rope (entry_tokens e)) (entry_positions e))
        = final_row ?num ?c ?W ?rope (entry_tokens e) (nat (fb_seq_end e) - 1)"
      unfolding entry_positions_def using lt by (subst last_map) (auto simp del: nat_less_eq_zless zless_nat_conj)
    moreover have "greedy_next mr (take (nat (fb_seq_end e)) (entry_tokens e)) = sample ?W (final_row ?num ?c ?W ?rope (entry_tokens e) (nat (fb_seq_end e) - 1))"
      using E rowlen pos by (intro greedy_next_row) auto
    ultimately show ?thesis using pos by (simp add: py_nth_def)
  qed
  let ?next = "\<lambda>e. greedy_next mr (take (nat (fb_seq_end e)) (entry_tokens e))"
  have nexts: "mapE (\<lambda>e. if fb_end e = 0 then Inl IndexError else bindE (py_nth ?hid (fb_end e - 1)) (\<lambda>h. Inr (sample ?W h))) es = Inr (map ?next es)"
    by (rule mapE_all_Inr) (rule next1)
  have com: "commit ?W ?hid e (?next e) = commit_greedy mr (fb_request e)" if e: "e \<in> set es" for e
  proof -
    note E = entry_okD [OF eok [rule_format, OF e]] and m = mem [OF e]
    let ?r = "fb_request e"
    have sok: "scheduled_ok mr (?r, num_computed_tokens ?r - fb_seq_start e)" using ok m(1) by blast
    show ?thesis
    proof (cases "draft_token_ids ?r = []")
      case True
      then show ?thesis using m(2) by (simp add: commit_def commit_greedy_def Let_def entry_tokens_def)
    next
      case False
      let ?K = "length (draft_token_ids ?r)" and ?m = "length (all_token_ids ?r)"
      have ends: "nat (fb_seq_start e) = ?m - 1" "nat (fb_seq_end e) = ?m + ?K" "0 < ?m"
        using sok m(2) False E(1,2) length_all_token_ids [of ?r] by (auto simp: scheduled_ok_def simp del: length_all_token_ids)
      have cnt: "length (entry_positions e) = Suc ?K"
        unfolding entry_positions_def length_upt ends(1,2) using ends(3) by linarith
      have at: "entry_positions e ! i = ?m + i - 1" if "i < Suc ?K" for i
      proof -
        have "?m - 1 + i < ?m + ?K" "?m - 1 + i = ?m + i - 1" using that ends(3) by linarith+
        then show ?thesis unfolding entry_positions_def ends(1,2) by simp
      qed
      have "map (sample ?W) (map (final_row ?num ?c ?W ?rope (entry_tokens e)) (entry_positions e))
          = map (\<lambda>i. greedy_next mr (all_token_ids ?r @ take i (draft_token_ids ?r))) [0..<Suc ?K]"
      proof (rule nth_equalityI)
        fix i assume "i < length (map (sample ?W) (map (final_row ?num ?c ?W ?rope (entry_tokens e)) (entry_positions e)))"
        then have i: "i < Suc ?K" using cnt by simp
        have lenT: "length (entry_tokens e) = ?m + ?K" by (simp add: entry_tokens_def)
        have "?m + ?K \<le> length (mr_cos mr)" using E(7) ends(2) by linarith
        then have "greedy_next mr (take (?m + i) (entry_tokens e)) = sample ?W (final_row ?num ?c ?W ?rope (entry_tokens e) (?m + i - 1))"
          using ends(3) i lenT rowlen by (intro greedy_next_row) linarith+
        moreover have "take (?m + i) (entry_tokens e) = all_token_ids ?r @ take i (draft_token_ids ?r)"
          by (simp add: entry_tokens_def)
        ultimately show "map (sample ?W) (map (final_row ?num ?c ?W ?rope (entry_tokens e)) (entry_positions e)) ! i
            = map (\<lambda>i. greedy_next mr (all_token_ids ?r @ take i (draft_token_ids ?r))) [0..<Suc ?K] ! i"
          using i cnt at [OF i] by (simp del: upt_Suc)
      qed (simp add: cnt)
      then have "map (sample ?W) (py_slice (fb_start e) (fb_end e) ?hid)
          = map (\<lambda>i. greedy_next mr (all_token_ids ?r @ take i (draft_token_ids ?r))) [0..<Suc ?K]"
        by (simp only: slice(1) [OF e])
      then show ?thesis using False by (simp add: commit_def commit_greedy_def Let_def del: upt_Suc)
    qed
  qed
  have "map2 (commit ?W ?hid) es (map ?next es) = map (\<lambda>e. commit_greedy mr (fb_request e)) es"
    using com by (simp add: map2_map_map [symmetric] zip_map2 zip_same_conv_map)
  also have "\<dots> = map (commit_greedy mr) (map fb_request es)" by simp
  also have "\<dots> = map (\<lambda>(r, _). commit_greedy mr r) scheduled" unfolding reqs by (simp add: split_def)
  finally have "execute_model mr scheduled = Inr (mr\<lparr>mr_kv := kv'\<rparr>, map (\<lambda>(r, _). commit_greedy mr r) scheduled)"
    using ne by (simp add: execute_model_def batch h nexts del: One_nat_def)
  moreover have "\<forall>(r, _) \<in> set scheduled. kv_ready mr kv' r (num_computed_tokens r)"
  proof (intro ballI, clarify)
    fix r n assume "(r, n) \<in> set scheduled"
    then have "r \<in> fb_request ` set es" using reqs by (metis fst_conv image_eqI list.set_map)
    then obtain e where "e \<in> set es" "r = fb_request e" by blast
    then show "kv_ready mr kv' r (num_computed_tokens r)" using rest(1) mem(2) by (auto simp: kv_ready_def entry_tokens_def)
  qed
  moreover have "\<forall>table l p. (\<forall>(r, _) \<in> set scheduled. set table \<inter> set (block_table r) = {}) \<longrightarrow> 0 \<le> p
        \<longrightarrow> p < int (length table) * kv_block_size (mr_kv mr)
        \<longrightarrow> k_row kv' l table p = k_row (mr_kv mr) l table p \<and> v_row kv' l table p = v_row (mr_kv mr) l table p"
  proof (intro allI impI)
    fix table l p
    assume o: "\<forall>(r, _) \<in> set scheduled. set table \<inter> set (block_table r) = {}"
      and p: "0 \<le> p" "p < int (length table) * kv_block_size (mr_kv mr)"
    have "\<forall>r \<in> set (map fb_request es). set table \<inter> set (block_table r) = {}"
      unfolding reqs using o by (simp add: split_def)
    then have "\<forall>e \<in> set es. set table \<inter> set (block_table (fb_request e)) = {}" by simp
    then show "k_row kv' l table p = k_row (mr_kv mr) l table p \<and> v_row kv' l table p = v_row (mr_kv mr) l table p"
      using rest(2) p by blast
  qed
  ultimately show ?thesis using rest(3-) by blast
qed

end
