(* ===== verification/Draft_Proposer.thy ===== *)
theory Draft_Proposer
  imports Model_Runner
begin

text \<open>
  \<^verbatim>\<open>model/draft_proposer.py\<close>: the draft side of speculative decoding.  The shadow requests are
  objects only this component sees, so they are values in its dictionary.
\<close>

record 'a draft_proposer =
  dp_runner :: "'a model_runner"
  dp_num_speculative_tokens :: int
  dp_bm :: block_manager
  dp_shadows :: "(string \<times> request) list"

definition DraftProposer :: "hash_function \<Rightarrow> 'a model_runner \<Rightarrow> int \<Rightarrow> 'a draft_proposer" where
  "DraftProposer H mr k =
     \<lparr>dp_runner = mr, dp_num_speculative_tokens = k,
      dp_bm = BlockManager H \<lparr>block_size = kv_block_size (mr_kv mr), num_gpu_blocks = kv_num_blocks (mr_kv mr),
                watermark_blocks = 0, enable_prefix_caching = False, int8_kv = False\<rparr>,
      dp_shadows = []\<rparr>"

text \<open>
  The \<open>while\<close> of \<open>_ensure_capacity\<close>.  Each round calls \<open>append_slot\<close>, which raises or adds one
  block as long as the table is short, so the loop is a recursion on the missing blocks; a round
  that added none would repeat for ever (\<open>None\<close>), which \<open>grow_shadow_returns\<close> excludes.
\<close>

partial_function (option) grow_shadow :: "block_manager \<Rightarrow> request \<Rightarrow> (block_manager \<times> request) or_raise option" where
  "grow_shadow bm shadow =
     (if int (length (get_block_table bm (request_id shadow))) < num_blocks_needed shadow (bm_block_size bm)
      then (case append_slot bm shadow of
              Inl e \<Rightarrow> Some (Inl e)
            | Inr (bm', shadow') \<Rightarrow> grow_shadow bm' shadow')
      else Some (Inr (bm, shadow)))"

declare grow_shadow.simps [code]

lemma num_blocks_needed_gt:
  assumes "0 < bs" shows "int k < num_blocks_needed r bs \<longleftrightarrow> int k * bs < get_len r"
  using num_blocks_needed_le_iff [OF assms, of r "int k"] by linarith

lemma append_slot_grows:
  assumes "append_slot bm r = Inr (bm', r')" "needs_new_block bm r"
  shows "length (get_block_table bm' (request_id r')) = Suc (length (get_block_table bm (request_id r)))"
    "request_id r' = request_id r" "get_len r' = get_len r" "bm_block_size bm' = bm_block_size bm"
  using assms by (auto simp: append_slot_def get_block_table_def get_len_def Let_def update_conv' split: option.splits if_splits)

lemma num_blocks_needed_cong: "get_len r' = get_len r \<Longrightarrow> num_blocks_needed r' bs = num_blocks_needed r bs"
  by (simp add: num_blocks_needed_def)

lemma grow_shadow_returns:
  assumes "0 < bm_block_size bm" shows "\<exists>res. grow_shadow bm shadow = Some res"
  using assms
proof (induction "nat (num_blocks_needed shadow (bm_block_size bm) - int (length (get_block_table bm (request_id shadow))))"
    arbitrary: bm shadow rule: less_induct)
  case less
  show ?case
  proof (cases "int (length (get_block_table bm (request_id shadow))) < num_blocks_needed shadow (bm_block_size bm)")
    case False
    then show ?thesis by (subst grow_shadow.simps) simp
  next
    case True
    then have need: "needs_new_block bm shadow"
      using num_blocks_needed_gt [OF less.prems] by (simp add: needs_new_block_def)
    show ?thesis
    proof (cases "append_slot bm shadow")
      case (Inl e)
      with True show ?thesis by (subst grow_shadow.simps) simp
    next
      case (Inr p)
      then obtain bm' sh' where p: "append_slot bm shadow = Inr (bm', sh')" by (cases p) auto
      note g = append_slot_grows [OF p need]
      have "nat (num_blocks_needed sh' (bm_block_size bm') - int (length (get_block_table bm' (request_id sh'))))
          < nat (num_blocks_needed shadow (bm_block_size bm) - int (length (get_block_table bm (request_id shadow))))"
        using True g num_blocks_needed_cong [OF g(3)] by simp
      from less.hyps [OF this] less.prems g(4) obtain res where "grow_shadow bm' sh' = Some res" by auto
      with True p show ?thesis by (subst grow_shadow.simps) simp
    qed
  qed
qed

text \<open>\<open>None\<close> stays \<open>None\<close>: a call that does not return.\<close>

definition ensure_shadow_capacity :: "'a draft_proposer \<Rightarrow> request \<Rightarrow> ('a draft_proposer \<times> request) or_raise option" where
  "ensure_shadow_capacity dp shadow =
     bindR (grow_shadow (dp_bm dp) shadow) (\<lambda>(bm, sh). Some (Inr (dp\<lparr>dp_bm := bm\<rparr>, sh)))"

definition get_or_create_shadow :: "'a draft_proposer \<Rightarrow> request \<Rightarrow> ('a draft_proposer \<times> request) or_raise" where
  "get_or_create_shadow dp r =
     (case map_of (dp_shadows dp) (request_id r) of
        Some shadow \<Rightarrow>
          let sh = shadow\<lparr>output_token_ids := output_token_ids r\<rparr>
          in Inr (dp\<lparr>dp_shadows := AList.update (request_id r) sh (dp_shadows dp)\<rparr>, sh)
      | None \<Rightarrow>
          let sh = (mk_request (request_id r) (prompt_token_ids r) (sampling_params r))
                     \<lparr>output_token_ids := output_token_ids r, status := RUNNING\<rparr>
          in bindE (allocate (dp_bm dp) sh None) (\<lambda>(bm, sh1).
               Inr (dp\<lparr>dp_bm := bm, dp_shadows := AList.update (request_id r) sh1 (dp_shadows dp)\<rparr>, sh1)))"

definition rollback :: "string \<Rightarrow> int \<Rightarrow> 'a draft_proposer \<Rightarrow> 'a draft_proposer" where
  "rollback rid num_accepted dp =
     (case map_of (dp_shadows dp) rid of
        None \<Rightarrow> dp
      | Some sh \<Rightarrow>
          let sh1 = sh\<lparr>num_computed_tokens :=
                num_computed_tokens sh - max 0 (dp_num_speculative_tokens dp - num_accepted)\<rparr>
          in dp\<lparr>dp_shadows := AList.update rid sh1 (dp_shadows dp)\<rparr>)"

text \<open>The loop of \<open>propose\<close>, over the tokens still to draft.\<close>

fun propose_loop :: "nat \<Rightarrow> 'a::floor_ceiling draft_proposer \<Rightarrow> request \<Rightarrow> int list
    \<Rightarrow> ('a draft_proposer \<times> int list) or_raise option" where
  "propose_loop 0 dp shadow proposed = Some (Inr (dp, proposed))"
| "propose_loop (Suc n) dp shadow proposed =
     bindR (ensure_shadow_capacity dp shadow) (\<lambda>(dp1, sh1).
       let num_new = get_num_new_tokens sh1;
           sh2 = sh1\<lparr>num_computed_tokens := num_computed_tokens sh1 + num_new\<rparr>
       in bindR (Some (execute_model (dp_runner dp1) [(sh2, num_new)])) (\<lambda>(mr, shs).
            let sh3 = hd shs;
                dp2 = dp1\<lparr>dp_runner := mr, dp_shadows := AList.update (request_id shadow) sh3 (dp_shadows dp1)\<rparr>
            in if output_token_ids sh3 = [] then Some (Inl IndexError)
               else propose_loop n dp2 sh3 (proposed @ [last (output_token_ids sh3)])))"

definition propose :: "'a::floor_ceiling draft_proposer \<Rightarrow> request \<Rightarrow> ('a draft_proposer \<times> int list) or_raise option" where
  "propose dp r =
     bindR (Some (get_or_create_shadow dp r)) (\<lambda>(dp1, shadow).
       propose_loop (nat (dp_num_speculative_tokens dp)) dp1 shadow [])"

end
