(* ===== verification/LLM_Engine.thy ===== *)
theory LLM_Engine
  imports Draft_Proposer
begin

text \<open>
  \<^verbatim>\<open>model/llm_engine.py\<close>: the scheduler, the model runner and the draft proposer, sequenced by
  \<open>step\<close>.  The requests live in the scheduler's heap; what the runner did to the scheduled ones
  is stored back there.
\<close>

record 'a engine =
  e_sched :: scheduler
  e_runner :: "'a model_runner"
  e_next_id :: nat
  e_draft :: "'a draft_proposer option"

record generation_output =
  go_request_id :: string
  go_prompt_token_ids :: "int list"
  go_output_token_ids :: "int list"
  go_finish_reason :: request_status

text \<open>
  The constructor: the weights are given or drawn by \<open>init_weights\<close> (a parameter of the caller),
  the draft side is built from the loaded checkpoint \<open>(config, weights)\<close>.
\<close>

definition LLMEngine :: "hash_function \<Rightarrow> 'a::floor_ceiling numerics \<Rightarrow> cache_config \<Rightarrow> scheduler_config \<Rightarrow> 'a llama_config
    \<Rightarrow> 'a llama_weights \<Rightarrow> nat option \<Rightarrow> (speculative_config \<times> 'a llama_config \<times> 'a llama_weights) option
    \<Rightarrow> (rref \<Rightarrow> request) \<Rightarrow> 'a engine" where
  "LLMEngine H num cc sc mc W max_model_len spec objs =
     (let cache = (\<lambda>cc mc. PagedKVCache (block_size cc) (num_gpu_blocks cc) (int8_kv cc) (lc_dtype mc)
                     (n_layers mc) (num_kv_heads mc) (head_dim mc))
      in \<lparr>e_sched = Scheduler H cc sc objs, e_runner = ModelRunner num mc W (cache cc mc) max_model_len, e_next_id = 0,
          e_draft = (case spec of
            None \<Rightarrow> None
          | Some (sp, dc, dw) \<Rightarrow>
              let dcc = \<lparr>block_size = block_size cc, num_gpu_blocks = draft_num_gpu_blocks sp, watermark_blocks = 0,
                         enable_prefix_caching = False, int8_kv = False\<rparr>
              in Some (DraftProposer H (ModelRunner num dc dw (cache dcc dc) max_model_len) (num_speculative_tokens sp)))\<rparr>)"

subsection \<open>Adding a request\<close>

text \<open>The request object is the one at the fresh address \<open>x\<close>; \<open>name n\<close> renders \<open>req-n\<close>.\<close>

definition engine_add_request :: "(nat \<Rightarrow> string) \<Rightarrow> rref \<Rightarrow> int list \<Rightarrow> sampling_params option \<Rightarrow> string option
    \<Rightarrow> 'a engine \<Rightarrow> 'a engine or_raise" where
  "engine_add_request name x prompt sp rid e =
     (let (rid', next) = (case rid of None \<Rightarrow> (name (e_next_id e), e_next_id e + 1) | Some i \<Rightarrow> (i, e_next_id e));
          r = mk_request rid' prompt (case sp of None \<Rightarrow> default_sampling_params | Some p \<Rightarrow> p);
          s = (e_sched e)\<lparr>s_objs := (s_objs (e_sched e))(x := r)\<rparr>
      in bindE (add_request x s) (\<lambda>s'. Inr (e\<lparr>e_sched := s', e_next_id := next\<rparr>)))"

subsection \<open>One step\<close>

definition store_requests :: "rref list \<Rightarrow> request list \<Rightarrow> scheduler \<Rightarrow> scheduler" where
  "store_requests xs rs s = fold (\<lambda>(x, r). upd_req x (\<lambda>_. r)) (zip xs rs) s"

definition spec_pre_len :: "(rref \<Rightarrow> request) \<Rightarrow> scheduler_output \<Rightarrow> (string \<times> int) list" where
  "spec_pre_len objs out =
     map (\<lambda>(x, _). (request_id (objs x), int (length (output_token_ids (objs x)))))
       (filter (\<lambda>(x, _). draft_token_ids (objs x) \<noteq> []) (scheduled_running out))"

text \<open>Registering computed prompt blocks in the prefix cache.\<close>

definition register_prefix :: "rref \<times> int \<Rightarrow> scheduler \<Rightarrow> scheduler or_raise" where
  "register_prefix = (\<lambda>(x, n) s.
     if num_computed_tokens (s_objs s x) - n < int (length (prompt_token_ids (s_objs s x)))
     then with_bm insert_computed_prefix x s else Inr s)"

text \<open>
  The correction of one speculating request: the committed tokens are cut at the first stop
  condition, the computed count wound back to what was committed, the drafts cleared.
\<close>

fun first_stop :: "int option \<Rightarrow> int \<Rightarrow> int \<Rightarrow> nat \<Rightarrow> int list \<Rightarrow> nat option" where
  "first_stop eos max_toks pre_len i [] = None"
| "first_stop eos max_toks pre_len i (tok # rest) =
     (if Some tok = eos \<or> max_toks \<le> pre_len + int i + 1 then Some i
      else first_stop eos max_toks pre_len (Suc i) rest)"

definition trim_committed :: "int \<Rightarrow> int \<Rightarrow> request \<Rightarrow> request \<times> int" where
  "trim_committed pre_len num_scheduled r =
     (let accepted0 = int (length (output_token_ids r)) - pre_len;
          new_tokens = drop (nat pre_len) (output_token_ids r);
          eos = eos_token_id (sampling_params r);
          (r1, accepted) =
            (case first_stop eos (max_tokens (sampling_params r)) pre_len 0 new_tokens of
               None \<Rightarrow> (r, accepted0)
             | Some stop_at \<Rightarrow>
                 if int stop_at < accepted0 - 1
                 then (r\<lparr>output_token_ids := take (nat pre_len + stop_at + 1) (output_token_ids r),
                         status := (if Some (new_tokens ! stop_at) = eos then FINISHED_STOPPED
                                    else FINISHED_LENGTH_CAPPED)\<rparr>,
                       int stop_at + 1)
                 else (r, accepted0))
      in (r1\<lparr>num_computed_tokens := num_computed_tokens r1 - (num_scheduled - accepted), draft_token_ids := []\<rparr>,
          accepted))"

definition correct_one :: "(string \<times> int) list \<Rightarrow> rref \<times> int \<Rightarrow> 'a engine \<Rightarrow> 'a engine" where
  "correct_one pre = (\<lambda>(x, n) e.
     let r = s_objs (e_sched e) x in
     case map_of pre (request_id r) of
       None \<Rightarrow> e
     | Some pre_len \<Rightarrow>
         let (r1, accepted) = trim_committed pre_len n r
         in e\<lparr>e_sched := upd_req x (\<lambda>_. r1) (e_sched e),
              e_draft := map_option (rollback (request_id r) accepted) (e_draft e)\<rparr>)"

text \<open>\<open>step\<close> up to the sweep of finished requests.\<close>

definition step_run :: "'a::floor_ceiling engine \<Rightarrow> ('a engine \<times> scheduler_output \<times> rref list) or_raise" where
  "step_run e =
     bindE (schedule (e_sched e)) (\<lambda>(s1, out).
     let pre = spec_pre_len (s_objs s1) out;
         scheduled = scheduled_new out @ scheduled_running out
     in bindE (execute_model (e_runner e) (map (\<lambda>(x, n). (s_objs s1 x, n)) scheduled)) (\<lambda>(mr, rs).
        let s2 = store_requests (map fst scheduled) rs s1
        in bindE (if bm_cache (s_bm s2) = None then Inr s2 else foldE register_prefix scheduled s2) (\<lambda>s3.
           let e1 = fold (correct_one pre) (scheduled_running out) (e\<lparr>e_sched := s3, e_runner := mr\<rparr>)
           in bindE (free_finished_requests (e_sched e1)) (\<lambda>(s4, finished).
                Inr (e1\<lparr>e_sched := s4\<rparr>, out, finished)))))"

text \<open>The proposals for the next round, over the running requests.\<close>

fun propose_all :: "rref list \<Rightarrow> 'a::floor_ceiling engine \<Rightarrow> 'a engine or_raise option" where
  "propose_all [] e = Some (Inr e)"
| "propose_all (x # xs) e =
     (case e_draft e of
        None \<Rightarrow> Some (Inr e)
      | Some dp \<Rightarrow>
          if is_prefill (s_objs (e_sched e) x) then propose_all xs e
          else bindR (propose dp (s_objs (e_sched e) x)) (\<lambda>(dp', drafts).
                 propose_all xs (e\<lparr>e_draft := Some dp',
                    e_sched := upd_req x (\<lambda>r. r\<lparr>draft_token_ids := drafts\<rparr>) (e_sched e)\<rparr>)))"

definition engine_step :: "'a::floor_ceiling engine \<Rightarrow> ('a engine \<times> scheduler_output \<times> rref list) or_raise option" where
  "engine_step e =
     bindR (Some (step_run e)) (\<lambda>(e1, out, finished).
       bindR (propose_all (s_running (e_sched e1)) e1) (\<lambda>e2. Some (Inr (e2, out, finished))))"

subsection \<open>Batch generation\<close>

text \<open>The loop of \<open>generate\<close>, bounded by \<open>max_steps\<close>.\<close>

fun run_steps :: "nat \<Rightarrow> 'a::floor_ceiling engine \<Rightarrow> 'a engine or_raise option" where
  "run_steps 0 e = Some (Inr e)"
| "run_steps (Suc n) e =
     (if has_unfinished_requests (e_sched e) then bindR (engine_step e) (\<lambda>(e', _, _). run_steps n e')
      else Some (Inr e))"

definition generation_output_of :: "request \<Rightarrow> generation_output" where
  "generation_output_of r =
     \<lparr>go_request_id = request_id r, go_prompt_token_ids = prompt_token_ids r,
      go_output_token_ids = output_token_ids r, go_finish_reason = status r\<rparr>"

definition generate :: "(nat \<Rightarrow> string) \<Rightarrow> (rref \<times> int list) list \<Rightarrow> sampling_params option \<Rightarrow> nat
    \<Rightarrow> 'a::floor_ceiling engine \<Rightarrow> ('a engine \<times> generation_output list) or_raise option" where
  "generate name prompts sp max_steps e =
     bindR (Some (foldE (\<lambda>(x, p). engine_add_request name x p sp None) prompts e)) (\<lambda>e1.
     bindR (run_steps max_steps e1) (\<lambda>e2.
       Some (Inr (e2, map (\<lambda>(x, _). generation_output_of (s_objs (e_sched e2) x)) prompts))))"

end
