(* ===== verification/PD_Disaggregation.thy ===== *)
theory PD_Disaggregation
  imports LLM_Engine
begin

text \<open>
  \<^verbatim>\<open>model/pd_disaggregation.py\<close>: prefill on one engine, decode on another, with the KV cache
  handed over.
\<close>

record 'a prefill_handoff =
  ph_request_id :: string
  ph_prompt_token_ids :: "int list"
  ph_first_token_id :: int
  ph_sampling_params :: sampling_params
  ph_kv :: "'a kv_bundle"

text \<open>\<open>while request.is_prefill(): engine.step()\<close> may not end, and then is \<open>None\<close>.\<close>

partial_function (option) prefill_loop :: "rref \<Rightarrow> 'a::floor_ceiling engine \<Rightarrow> 'a engine or_raise option" where
  "prefill_loop x e =
     (if is_prefill (s_objs (e_sched e) x)
      then (case engine_step e of
              None \<Rightarrow> None
            | Some (Inl err) \<Rightarrow> Some (Inl err)
            | Some (Inr (e', _, _)) \<Rightarrow> prefill_loop x e')
      else Some (Inr e))"

declare prefill_loop.simps [code]

definition prefill :: "(nat \<Rightarrow> string) \<Rightarrow> rref \<Rightarrow> int list \<Rightarrow> sampling_params option \<Rightarrow> string option
    \<Rightarrow> 'a::floor_ceiling engine \<Rightarrow> ('a engine \<times> (generation_output + 'a prefill_handoff)) or_raise option" where
  "prefill name x prompt sp rid e =
     bindR (Some (engine_add_request name x prompt sp rid e)) (\<lambda>e1.
     bindR (prefill_loop x e1) (\<lambda>e2.
       let r = s_objs (e_sched e2) x in
       if is_finished r then Some (Inr (e2, Inl (generation_output_of r)))
       else
         bindR (Some (export_request_kv r (int (length (prompt_token_ids r))) (mr_kv (e_runner e2)))) (\<lambda>kv.
           if output_token_ids r = [] then Some (Inl IndexError)
           else
             let handoff = \<lparr>ph_request_id = request_id r, ph_prompt_token_ids = prompt_token_ids r,
                   ph_first_token_id = last (output_token_ids r), ph_sampling_params = sampling_params r, ph_kv = kv\<rparr>
             in bindR (Some (abort_requests {request_id r} (e_sched e2))) (\<lambda>(s, _).
                  Some (Inr (e2\<lparr>e_sched := s\<rparr>, Inr handoff))))))"

text \<open>The resumed request, placed at the fresh address \<open>x\<close> of the decoding engine.\<close>

definition resume_decode :: "rref \<Rightarrow> 'a::floor_ceiling prefill_handoff \<Rightarrow> 'a engine \<Rightarrow> 'a engine or_raise" where
  "resume_decode x h e =
     (let r = (mk_request (ph_request_id h) (ph_prompt_token_ids h) (ph_sampling_params h))
                \<lparr>output_token_ids := [ph_first_token_id h], status := RUNNING\<rparr>;
          s = e_sched e
      in bindE (allocate (s_bm s) r None) (\<lambda>(bm, r1).
         bindE (import_request_kv r1 (ph_kv h) (mr_kv (e_runner e))) (\<lambda>kv.
           let r2 = r1\<lparr>num_computed_tokens := int (length (ph_prompt_token_ids h))\<rparr>;
               s' = s\<lparr>s_bm := bm, s_objs := (s_objs s)(x := r2),
                      s_requests := AList.update (request_id r2) x (s_requests s), s_running := s_running s @ [x]\<rparr>
           in Inr (e\<lparr>e_sched := s', e_runner := (e_runner e)\<lparr>mr_kv := kv\<rparr>\<rparr>))))"

fun decode_until_finished :: "nat \<Rightarrow> rref \<Rightarrow> 'a::floor_ceiling engine \<Rightarrow> 'a engine or_raise option" where
  "decode_until_finished 0 x e = Some (Inr e)"
| "decode_until_finished (Suc n) x e =
     (if is_finished (s_objs (e_sched e) x) then Some (Inr e)
      else bindR (engine_step e) (\<lambda>(e', _, _). decode_until_finished n x e'))"

definition generate_disaggregated :: "(nat \<Rightarrow> string) \<Rightarrow> rref \<Rightarrow> rref \<Rightarrow> int list \<Rightarrow> sampling_params option \<Rightarrow> string option \<Rightarrow> nat
    \<Rightarrow> 'a::floor_ceiling engine \<Rightarrow> 'a engine \<Rightarrow> ('a engine \<times> 'a engine \<times> generation_output) or_raise option" where
  "generate_disaggregated name x y prompt sp rid max_steps pe de =
     bindR (prefill name x prompt sp rid pe) (\<lambda>(pe1, res).
       case res of
         Inl result \<Rightarrow> Some (Inr (pe1, de, result))
       | Inr h \<Rightarrow>
           bindR (Some (resume_decode y h de)) (\<lambda>de1.
           bindR (decode_until_finished max_steps y de1) (\<lambda>de2.
             Some (Inr (pe1, de2, generation_output_of (s_objs (e_sched de2) y))))))"

end
