(* ===== verification/Engine_Refinement.thy ===== *)
theory Engine_Refinement
  imports Runner_Refinement PD_Disaggregation
begin

text \<open>
  The engine against its specification.  Without a prefix cache and without drafts, every token
  the engine commits is the one the dense forward pass over the whole sequence predicts, whatever
  else shares the batch, however the prompt is chunked, and across preemption as long as a
  resumed request is recomputed in one chunk.
\<close>

subsection \<open>Tables without a prefix cache\<close>

lemma plain_private: "bm_cache bm = None \<Longrightarrow> private_part bm held table = table"
  by (simp add: private_part_def cache_owned_def)

lemma plain_tables:
  assumes inv: "bm_inv bm held" and none: "bm_cache bm = None"
    and t: "map_of (bm_tables bm) i = Some t"
  shows "distinct t" "\<forall>b \<in> set t. int b < bm_num_gpu_blocks bm"
    "map_of (bm_tables bm) j = Some u \<Longrightarrow> j \<noteq> i \<Longrightarrow> set t \<inter> set u = {}"
proof -
  have dist: "distinct (map fst (bm_tables bm))" and acc: "blocks_accounted bm held" using inv by (auto simp: bm_inv_def)
  obtain xs ys where tabs: "bm_tables bm = xs @ (i, t) # ys"
    and no: "i \<notin> fst ` set xs" "i \<notin> fst ` set ys" by (rule alist_split [OF dist t]) blast
  have p: "private_blocks bm held = mset t + (\<Sum>(rid, table)\<leftarrow>xs @ ys. mset (private_part bm (held rid) table))"
    using private_blocks_at [OF tabs, of held] plain_private [OF none] by simp
  have le1: "count (private_blocks bm held) b \<le> 1" for b using blocks_count [OF acc, of b] by linarith
  have "count (mset t) b \<le> 1" for b using le1 [of b] p by simp
  then show "distinct t" by (simp add: distinct_count_atmost_1) (metis One_nat_def count_mset_0_iff le_SucE le_zero_eq)
  have "set_mset (private_blocks bm held) \<subseteq> set_mset (mset [0..<nat (bm_num_gpu_blocks bm)])"
    using acc unfolding blocks_accounted_def by (metis mset_subset_eq_add_right set_mset_mono)
  then show "\<forall>b \<in> set t. int b < bm_num_gpu_blocks bm" using p by auto
  show "set t \<inter> set u = {}" if u: "map_of (bm_tables bm) j = Some u" "j \<noteq> i"
  proof -
    have "(j, u) \<in> set (xs @ ys)" using map_of_SomeD [OF u(1)] u(2) tabs by auto
    then obtain as bs where "xs @ ys = as @ (j, u) # bs" by (meson split_list)
    then obtain R where q: "private_blocks bm held = mset t + (mset u + R)"
      using p plain_private [OF none] by (simp add: union_assoc union_lcomm)
    show ?thesis
    proof (rule ccontr)
      assume "set t \<inter> set u \<noteq> {}"
      then obtain b where "b \<in> set t" "b \<in> set u" by blast
      then have "1 \<le> count (mset t) b" "1 \<le> count (mset u) b" by (simp_all add: Suc_le_eq count_greater_zero_iff)
      moreover have "count (private_blocks bm held) b = count (mset t) b + (count (mset u) b + count R b)" by (simp add: q)
      ultimately show False using le1 [of b] by linarith
    qed
  qed
qed

subsection \<open>What a step grants, without cache and drafts\<close>

definition same_content :: "request \<Rightarrow> request \<Rightarrow> bool" where
  "same_content r r' \<longleftrightarrow> request_id r' = request_id r \<and> prompt_token_ids r' = prompt_token_ids r
     \<and> sampling_params r' = sampling_params r \<and> output_token_ids r' = output_token_ids r \<and> draft_token_ids r' = draft_token_ids r"

text \<open>A request given \<open>c\<close> tokens: from where it stood if it was running, from nothing if it was waiting.\<close>

definition granted :: "int \<Rightarrow> request \<Rightarrow> int \<Rightarrow> request \<Rightarrow> bool" where
  "granted bs r c r' \<longleftrightarrow> same_content r r' \<and> status r' = RUNNING \<and> 0 < c \<and> num_computed_tokens r' \<le> get_len r'
     \<and> get_len r' \<le> int (length (block_table r')) * bs + 1
     \<and> num_computed_tokens r' \<le> int (length (block_table r')) * bs
     \<and> num_computed_tokens r' = num_computed_tokens r + c
     \<and> (take (length (block_table r)) (block_table r') = block_table r \<or> num_computed_tokens r = 0)"

lemma subseq_distinct: "subseq xs ys \<Longrightarrow> distinct ys \<Longrightarrow> distinct xs"
  by (auto simp: subseq_conv_nths distinct_nthsI)

lemma schedule_grants:
  assumes inv: "sched_inv s" and sch: "schedule s = Inr (s', out)" and none: "bm_cache (s_bm s) = None"
    and run: "\<forall>x \<in> set (s_running s). draft_token_ids (s_objs s x) = [] \<and> status (s_objs s x) = RUNNING
        \<and> get_len (s_objs s x) \<le> int (length (block_table (s_objs s x))) * bm_block_size (s_bm s) + 1"
    and wait: "\<forall>x \<in> set (s_waiting s). 0 < get_len (s_objs s x)"
  shows "sched_inv s'" "same_pool s s'"
    "distinct (map fst (scheduled_new out @ scheduled_running out))"
    "\<And>x c. (x, c) \<in> set (scheduled_new out @ scheduled_running out) \<Longrightarrow>
        x \<in> set (s_running s') \<and> granted (bm_block_size (s_bm s)) (s_objs s x) c (s_objs s' x)"
    "\<And>x. x \<notin> fst ` set (scheduled_new out @ scheduled_running out) \<Longrightarrow>
        s_objs s' x = s_objs s x \<or> x \<in> set (s_waiting s') \<and> s_objs s' x = reset_request (s_objs s x)"
    "set (s_running s') \<subseteq> fst ` set (scheduled_new out @ scheduled_running out) \<union> set (s_running s)"
    "set (s_running s' @ s_waiting s') = set (s_running s @ s_waiting s)"
proof -
  let ?bs = "bm_block_size (s_bm s)"
  have core: "core_inv s (s_running s) (s_waiting s)" and cfg: "scheduler_config_ok (s_config s)" using inv by (auto simp: sched_inv_def)
  have bs: "0 < ?bs" using core_invD(3) [OF core] by (simp add: bm_inv_def)
  have sh: "step_shape s s' out" by (rule schedule_shape [OF inv sch])
  show inv': "sched_inv s'" by (rule step_shape_inv [OF sh cfg])
  have adv: "granted ?bs (s_objs s x) c r" if a: "advanced ?bs (s_objs s x) c r" and x: "x \<in> set (s_running s)" for x c r
  proof -
    let ?r = "s_objs s x"
    have d: "draft_token_ids ?r = []" "status ?r = RUNNING" and len: "get_len ?r \<le> int (length (block_table ?r)) * ?bs + 1" using run x by auto
    have r: "same_content ?r r" "get_len r = get_len ?r" "num_computed_tokens r = num_computed_tokens ?r + c"
      "take (length (block_table ?r)) (block_table r) = block_table ?r" "status r = RUNNING"
      using a d by (auto simp: advanced_def same_content_def get_len_def)
    have c: "num_computed_tokens r \<le> get_len ?r" "0 < c" using a d by (auto simp: advanced_def num_new_tokens_def get_num_new_tokens_def)
    have tb: "int (length (block_table r)) = int (length (block_table ?r))
        + (if int (length (block_table ?r)) * ?bs < get_len ?r then 1 else 0)" using a d by (auto simp: advanced_def)
    have "get_len ?r \<le> int (length (block_table r)) * ?bs"
    proof (cases "int (length (block_table ?r)) * ?bs < get_len ?r")
      case True
      then show ?thesis using tb len bs by (simp add: algebra_simps)
    next
      case False
      then show ?thesis using tb by simp
    qed
    then show ?thesis using r c by (simp add: granted_def)
  qed
  let ?G = "scheduled_new out @ scheduled_running out"
  have "same_pool s s' \<and> distinct (map fst ?G)
    \<and> (\<forall>(x, c) \<in> set ?G. x \<in> set (s_running s') \<and> granted ?bs (s_objs s x) c (s_objs s' x))
    \<and> (\<forall>x. x \<notin> fst ` set ?G \<longrightarrow> s_objs s' x = s_objs s x \<or> x \<in> set (s_waiting s') \<and> s_objs s' x = reset_request (s_objs s x))
    \<and> set (s_running s') \<subseteq> fst ` set ?G \<union> set (s_running s)
    \<and> set (s_running s' @ s_waiting s') = set (s_running s @ s_waiting s)"
    using sh
  proof (cases rule: step_shape_cases)
    case (preempting s1 b)
    note r = run_stateD [OF preempting(1)] and d = run_state_distinct [OF preempting(1)]
    have eqs: "s_objs s' = s_objs s1" "s_waiting s' = s_waiting s1" "same_pool s s'"
      using r(4) by (subst preempting(3), simp add: same_pool_def)+
    have new: "scheduled_new out = []" by (rule r(5))
    have dist: "distinct (map fst (scheduled_running out))"
      using subseq_distinct [OF r(7)] d(1) by simp
    have mem: "x \<in> set (s_running s') \<and> x \<in> set (s_running s)" if "(x, c) \<in> set (scheduled_running out)" for x c
    proof -
      have "x \<in> set (s_running s')" using d(2) that by force
      then show ?thesis using r(3) by (metis Un_iff set_append)
    qed
    have "\<forall>(x, c) \<in> set ?G. x \<in> set (s_running s') \<and> granted ?bs (s_objs s x) c (s_objs s' x)"
      using r(8) adv mem new eqs by fastforce
    moreover have "\<forall>x. x \<notin> fst ` set ?G \<longrightarrow> s_objs s' x = s_objs s x \<or> x \<in> set (s_waiting s') \<and> s_objs s' x = reset_request (s_objs s x)"
      using r(2,9) new eqs by auto
    moreover have "set (s_running s') \<subseteq> fst ` set ?G \<union> set (s_running s)" using r(3) by (metis Un_iff set_append subsetI)
    moreover have "set (s_running s' @ s_waiting s') = set (s_running s @ s_waiting s)"
      using r(2,3) eqs(2) by (metis append.left_neutral append.assoc)
    ultimately show ?thesis using eqs(3) dist new by simp
  next
    case (admitting s1 s2 b outr b' ctx')
    note r = run_stateD [OF admitting(1)] and d = run_state_distinct [OF admitting(1)]
    have run1: "s_running s1 = s_running s" "s_waiting s1 = s_waiting s" using r(2,3) admitting(2) by simp_all
    have none1: "bm_cache (s_bm s1) = None" using r(4) none by (simp add: same_pool_def)
    have w: "scheduled_running out = scheduled_running outr"
      "\<And>x c. (x, c) \<in> set (scheduled_new out) \<Longrightarrow> started (bm_block_size (s_bm s1)) (s_objs s1 x) c (s_objs s2 x)"
      "\<And>x. x \<notin> fst ` set (scheduled_new out) \<Longrightarrow> s_objs s2 x = s_objs s1 x"
      "map fst (scheduled_new out) @ s_waiting s' = s_waiting s"
      "s_running s2 = s_running s @ map fst (scheduled_new out)" "same_pool s1 s2"
      using admitting(3) run1 by (auto simp: wait_state_def)
    have num: "num_computed_tokens (s_objs s2 x) = c" if "(x, c) \<in> set (scheduled_new out)" for x c
    proof -
      have "bm_cache (s_bm s1) = None \<longrightarrow> (\<forall>(x, c) \<in> set (scheduled_new out). num_computed_tokens (s_objs s2 x) = c)"
        using admitting(3) unfolding wait_state_def by (elim conjE) assumption
      then show ?thesis using none1 that by (auto dest!: bspec)
    qed
    have eqs: "s_objs s' = s_objs s2" "s_running s' = s_running s2" "same_pool s s'"
      using r(4) w(6) by (subst admitting(4), simp add: same_pool_def)+
    have bs1: "bm_block_size (s_bm s1) = ?bs" using r(4) by (simp add: same_pool_def)
    have distall: "distinct (s_running s @ s_waiting s)" by (rule core_invD(1) [OF core])
    have inw: "x \<in> set (s_waiting s)" if "(x, c) \<in> set (scheduled_new out)" for x c
    proof -
      have "x \<in> set (map fst (scheduled_new out))" using that by force
      then show ?thesis using w(4) by (metis Un_iff set_append)
    qed
    have inr: "x \<in> set (s_running s)" if "(x, c) \<in> set (scheduled_running outr)" for x c
      using d(2) that run1(1) by force
    have dist: "distinct (map fst ?G)"
    proof -
      have "distinct (map fst (scheduled_new out))" using distall w(4) by (metis distinct_append)
      moreover have "distinct (map fst (scheduled_running out))"
        using subseq_distinct [OF r(7)] d(1) run1 w(1) by simp
      moreover have "set (map fst (scheduled_new out)) \<inter> set (map fst (scheduled_running out)) = {}"
        using inw inr distall w(1) by fastforce
      ultimately show ?thesis by simp
    qed
    have old1: "s_objs s1 x = s_objs s x" if "x \<in> set (s_waiting s)" for x
    proof -
      have "x \<notin> fst ` set (scheduled_running outr)" using inr that distall by fastforce
      then show ?thesis using r(9) [of x] admitting(2) by simp
    qed
    have gnew: "x \<in> set (s_running s') \<and> granted ?bs (s_objs s x) c (s_objs s' x)" if m: "(x, c) \<in> set (scheduled_new out)" for x c
    proof -
      have st: "started ?bs (s_objs s x) c (s_objs s' x)" using w(2) [OF m] old1 [OF inw [OF m]] bs1 eqs by simp
      have "0 < get_len (s_objs s x)" using wait inw [OF m] by blast
      then have "0 < c" "num_computed_tokens (s_objs s' x) \<le> get_len (s_objs s' x)"
        "get_len (s_objs s' x) \<le> int (length (block_table (s_objs s' x))) * ?bs" "same_content (s_objs s x) (s_objs s' x)"
        "status (s_objs s' x) = RUNNING"
        using st by (auto simp: started_def same_content_def get_len_def)
      moreover have "x \<in> set (s_running s')" using m eqs w(5) by force
      moreover have "num_computed_tokens (s_objs s x) = 0" using core_invD(6) [OF core inw [OF m]] by (simp add: waiting_ok_def)
      ultimately show ?thesis using num [OF m] eqs by (simp add: granted_def)
    qed
    have gold: "x \<in> set (s_running s') \<and> granted ?bs (s_objs s x) c (s_objs s' x)" if m: "(x, c) \<in> set (scheduled_running out)" for x c
    proof -
      have x: "x \<in> set (s_running s)" using inr m w(1) by simp
      have "x \<notin> fst ` set (scheduled_new out)" using inw x distall by fastforce
      then have "s_objs s' x = s_objs s1 x" using w(3) eqs by simp
      then show ?thesis using adv [OF r(8) x] m w(1,5) eqs x by simp
    qed
    have rest: "s_objs s' x = s_objs s x" if "x \<notin> fst ` set ?G" for x
      using that w(1) w(3) [of x] r(9) [of x] admitting(2) eqs by (simp add: image_Un)
    have "set (s_running s' @ s_waiting s') = set (s_running s @ s_waiting s)"
      unfolding eqs(2) w(5) set_append w(4) [symmetric] by blast
    moreover have "set (s_running s') \<subseteq> fst ` set ?G \<union> set (s_running s)" using eqs w(5) by auto
    ultimately show ?thesis using eqs(3) dist gnew gold rest by auto
  qed
  then show "same_pool s s'" "distinct (map fst ?G)"
    "\<And>x c. (x, c) \<in> set ?G \<Longrightarrow> x \<in> set (s_running s') \<and> granted ?bs (s_objs s x) c (s_objs s' x)"
    "\<And>x. x \<notin> fst ` set ?G \<Longrightarrow> s_objs s' x = s_objs s x \<or> x \<in> set (s_waiting s') \<and> s_objs s' x = reset_request (s_objs s x)"
    "set (s_running s') \<subseteq> fst ` set ?G \<union> set (s_running s)"
    "set (s_running s' @ s_waiting s') = set (s_running s @ s_waiting s)"
    by blast+
qed

subsection \<open>The specification: greedy decoding\<close>

fun greedy_decode :: "(int list \<Rightarrow> int) \<Rightarrow> sampling_params \<Rightarrow> int list \<Rightarrow> nat \<Rightarrow> int list \<Rightarrow> int list" where
  "greedy_decode f sp prompt 0 out = out"
| "greedy_decode f sp prompt (Suc n) out =
     (let out' = out @ [f (prompt @ out)] in if stops_at sp out' then out' else greedy_decode f sp prompt n out')"

text \<open>At least one token is generated, and at most \<open>max_tokens\<close>.\<close>

definition token_limit :: "sampling_params \<Rightarrow> nat" where
  "token_limit sp = max 1 (nat (max_tokens sp))"

definition greedy_output :: "(int list \<Rightarrow> int) \<Rightarrow> request \<Rightarrow> int list" where
  "greedy_output f r = greedy_decode f (sampling_params r) (prompt_token_ids r) (token_limit (sampling_params r)) []"

text \<open>
  A request whose output is a stage of the specification's decoding; once it has stopped, its
  output is the specification's.
\<close>

definition served :: "(int list \<Rightarrow> int) \<Rightarrow> request \<Rightarrow> bool" where
  "served f r \<longleftrightarrow>
     (if is_finished r then output_token_ids r = greedy_output f r
      else length (output_token_ids r) < token_limit (sampling_params r)
        \<and> greedy_output f r = greedy_decode f (sampling_params r) (prompt_token_ids r)
            (token_limit (sampling_params r) - length (output_token_ids r)) (output_token_ids r))"

lemma served_new: "served f (mk_request rid prompt sp)"
  by (simp add: served_def mk_request_def is_finished_def greedy_output_def token_limit_def)

lemma stops_at_limit: "token_limit sp \<le> length out \<Longrightarrow> stops_at sp out"
  by (auto simp: token_limit_def stops_at_def)

lemma served_commit:
  assumes s: "served f r" and st: "status r = RUNNING"
  shows "served f (maybe_finish (r\<lparr>output_token_ids := output_token_ids r @ [f (prompt_token_ids r @ output_token_ids r)]\<rparr>))"
proof -
  let ?sp = "sampling_params r" and ?out = "output_token_ids r" and ?M = "token_limit (sampling_params r)"
  let ?out' = "?out @ [f (prompt_token_ids r @ ?out)]" and ?r = "r\<lparr>output_token_ids := output_token_ids r @ [f (prompt_token_ids r @ output_token_ids r)]\<rparr>"
  have lt: "length ?out < ?M" and on: "greedy_output f r = greedy_decode f ?sp (prompt_token_ids r) (?M - length ?out) ?out"
    using s st by (auto simp: served_def is_finished_def)
  obtain n where n: "?M - length ?out = Suc n" "?M - length ?out' = n" using lt by (cases "?M - length ?out") auto
  have fin: "is_finished (maybe_finish ?r) \<longleftrightarrow> stops_at ?sp ?out'"
    unfolding maybe_finish_finished_iff using st by (simp add: is_finished_def)
  have same: "greedy_output f (maybe_finish ?r) = greedy_output f r" by (simp add: greedy_output_def)
  have "greedy_output f r = (if stops_at ?sp ?out' then ?out' else greedy_decode f ?sp (prompt_token_ids r) n ?out')"
    unfolding on n(1) by (simp add: Let_def)
  moreover have "\<not> stops_at ?sp ?out' \<Longrightarrow> length ?out' < ?M" using stops_at_limit [of ?sp ?out'] by (meson not_le)
  ultimately show ?thesis using fin n(2) by (simp add: served_def same)
qed

subsection \<open>The engine's state\<close>

definition model_ok :: "'a::floor_ceiling model_runner \<Rightarrow> bool" where
  "model_ok mr \<longleftrightarrow> \<not> kv_int8 (mr_kv mr) \<and> 0 < kv_block_size (mr_kv mr) \<and> runner_fits mr \<and> length (mr_sin mr) = length (mr_cos mr)
     \<and> 0 < length (embed_tokens (mr_weights mr)) \<and> length (hd (lm_head (mr_weights mr))) \<le> length (embed_tokens (mr_weights mr))"

definition in_vocab :: "'a model_runner \<Rightarrow> int \<Rightarrow> bool" where
  "in_vocab mr t \<longleftrightarrow> 0 \<le> t \<and> nat t < length (embed_tokens (mr_weights mr))"

text \<open>A request the model can serve to its end: non-empty, in the vocabulary, within the rotary table.\<close>

definition servable :: "'a model_runner \<Rightarrow> request \<Rightarrow> bool" where
  "servable mr r \<longleftrightarrow> draft_token_ids r = [] \<and> prompt_token_ids r \<noteq> [] \<and> list_all (in_vocab mr) (all_token_ids r)
     \<and> length (prompt_token_ids r) + token_limit (sampling_params r) \<le> length (mr_cos mr) + 1"

text \<open>A request holding blocks, computed up to \<open>n\<close>: the cache holds the dense rows of these positions.\<close>

definition in_flight :: "'a::floor_ceiling model_runner \<Rightarrow> int \<Rightarrow> request \<Rightarrow> bool" where
  "in_flight mr n r \<longleftrightarrow> 0 \<le> n \<and> num_computed_tokens r \<le> get_len r
     \<and> num_computed_tokens r \<le> int (length (block_table r)) * kv_block_size (mr_kv mr)
     \<and> get_len r \<le> int (length (block_table r)) * kv_block_size (mr_kv mr) + 1
     \<and> kv_ready mr (mr_kv mr) r n"

definition grant :: "(rref \<times> int) list \<Rightarrow> rref \<Rightarrow> int" where
  "grant G x = (case map_of G x of None \<Rightarrow> 0 | Some c \<Rightarrow> c)"

text \<open>
  \<open>X\<close> are the requests ever added; \<open>G\<close> what the current step has granted and the runner has
  not computed yet.
\<close>

definition plain_core :: "rref set \<Rightarrow> (rref \<times> int) list \<Rightarrow> 'a::floor_ceiling model_runner \<Rightarrow> scheduler \<Rightarrow> bool" where
  "plain_core X G mr s \<longleftrightarrow>
     sched_inv s \<and> bm_cache (s_bm s) = None \<and> model_ok mr
     \<and> kv_block_size (mr_kv mr) = bm_block_size (s_bm s) \<and> kv_num_blocks (mr_kv mr) = bm_num_gpu_blocks (s_bm s)
     \<and> set (s_running s @ s_waiting s) \<subseteq> X
     \<and> (\<forall>x \<in> X. servable mr (s_objs s x) \<and> served (greedy_next mr) (s_objs s x))
     \<and> (\<forall>x \<in> set (s_running s). in_flight mr (num_computed_tokens (s_objs s x) - grant G x) (s_objs s x))"

definition plain_inv :: "rref set \<Rightarrow> 'a::floor_ceiling engine \<Rightarrow> bool" where
  "plain_inv X e \<longleftrightarrow> plain_core X [] (e_runner e) (e_sched e) \<and> e_draft e = None
     \<and> (\<forall>x \<in> set (s_running (e_sched e)). status (s_objs (e_sched e) x) = RUNNING)"

lemma plain_coreD:
  assumes "plain_core X G mr s"
  shows "sched_inv s" "bm_cache (s_bm s) = None" "model_ok mr" "kv_block_size (mr_kv mr) = bm_block_size (s_bm s)"
    "kv_num_blocks (mr_kv mr) = bm_num_gpu_blocks (s_bm s)" "set (s_running s @ s_waiting s) \<subseteq> X"
    "\<And>x. x \<in> X \<Longrightarrow> servable mr (s_objs s x)" "\<And>x. x \<in> X \<Longrightarrow> served (greedy_next mr) (s_objs s x)"
    "\<And>x. x \<in> set (s_running s) \<Longrightarrow> in_flight mr (num_computed_tokens (s_objs s x) - grant G x) (s_objs s x)"
  using assms by (auto simp: plain_core_def)

lemma grant_Nil [simp]: "grant [] x = 0"
  by (simp add: grant_def)

lemma grant_in: "distinct (map fst G) \<Longrightarrow> (x, c) \<in> set G \<Longrightarrow> grant G x = c"
  by (simp add: grant_def)

lemma grant_out: "x \<notin> fst ` set G \<Longrightarrow> grant G x = 0"
  using map_of_eq_None_iff [of G x] by (simp add: grant_def)

lemma argmax_from_less: "argmax_from b i m xs < max (Suc b) (i + length xs)"
proof (induction xs arbitrary: b i m)
  case (Cons x xs)
  then show ?case using Cons.IH [of i "Suc i" x] Cons.IH [of b "Suc i" m] by (simp add: max_def split: if_splits)
qed simp

lemma argmax_less: "0 < n \<Longrightarrow> length xs \<le> n \<Longrightarrow> argmax xs < n"
  using argmax_from_less [of 0 1 "hd xs" "tl xs"] by (simp add: argmax_def max_def split: if_splits)

lemma sample_vocab:
  assumes "model_ok mr" shows "in_vocab mr (greedy_next mr ts)"
proof -
  have "argmax (row_mul h (lm_head (mr_weights mr))) < length (embed_tokens (mr_weights mr))" for h
    by (rule argmax_less) (use assms in \<open>auto simp: row_mul_def model_ok_def\<close>)
  then show ?thesis by (simp add: in_vocab_def greedy_next_def sample_def)
qed

lemma greedy_next_kv [simp]: "greedy_next (mr\<lparr>mr_kv := kv\<rparr>) = greedy_next mr"
  by (simp add: fun_eq_iff greedy_next_def mr_rope_def)

lemma runner_fits_kv:
  "kv_num_heads kv' = kv_num_heads (mr_kv mr) \<Longrightarrow> kv_head_dim kv' = kv_head_dim (mr_kv mr) \<Longrightarrow> kv_n_layers kv' = kv_n_layers (mr_kv mr)
    \<Longrightarrow> runner_fits (mr\<lparr>mr_kv := kv'\<rparr>) = runner_fits mr"
  by (simp add: mr_rope_def kv_fits_def)

lemma kv_ready_kv [simp]: "kv_ready (mr\<lparr>mr_kv := kv\<rparr>) = kv_ready mr"
  by (simp add: fun_eq_iff kv_ready_def mr_rope_def)

lemma servable_kv [simp]: "servable (mr\<lparr>mr_kv := kv\<rparr>) = servable mr"
  by (simp add: fun_eq_iff servable_def in_vocab_def list_all_iff)

subsection \<open>What a cache that is right stays right for\<close>

lemma row_take:
  assumes "take (length t) t' = t" "0 \<le> p" "p < int (length t) * kv_block_size kv" "0 < kv_block_size kv"
  shows "k_row kv l t' p = k_row kv l t p" "v_row kv l t' p = v_row kv l t p"
proof -
  have "nat (p div kv_block_size kv) < length t" by (rule block_index_less) (use assms in auto)
  then have "t' ! nat (p div kv_block_size kv) = t ! nat (p div kv_block_size kv)" using assms(1) by (metis nth_take)
  then show "k_row kv l t' p = k_row kv l t p" "v_row kv l t' p = v_row kv l t p" by (simp_all add: k_row_def v_row_def loc_def)
qed

lemma kv_ready_extend:
  assumes "kv_ready mr kv r n" "take (length (block_table r)) (block_table r') = block_table r"
    and n: "n \<le> int (length (block_table r)) * kv_block_size kv" and bs: "0 < kv_block_size kv"
    and ts: "\<forall>j < nat n. (all_token_ids r @ draft_token_ids r) ! j = (all_token_ids r' @ draft_token_ids r') ! j"
  shows "kv_ready mr kv r' n"
  unfolding kv_ready_def kv_holds_def
proof (intro allI impI)
  fix l p assume l: "l < length (layers (mr_weights mr))" and p: "0 \<le> p" "p < n"
  let ?ts = "all_token_ids r @ draft_token_ids r" and ?ts' = "all_token_ids r' @ draft_token_ids r'"
  have agree: "\<forall>j \<le> nat p. ?ts ! j = ?ts' ! j" using ts p by auto
  have rows: "k_row kv l (block_table r') p = k_row kv l (block_table r) p" "v_row kv l (block_table r') p = v_row kv l (block_table r) p"
    using row_take [OF assms(2) p(1) _ bs] p n by simp_all
  have holds: "k_row kv l (block_table r) p = dense_k (mr_num mr) (mr_config mr) (mr_weights mr) (mr_rope mr) ?ts l (nat p)"
    "v_row kv l (block_table r) p = dense_v (mr_num mr) (mr_config mr) (mr_weights mr) (mr_rope mr) ?ts l (nat p)"
    using assms(1) l p by (simp_all add: kv_ready_def kv_holds_def)
  show "k_row kv l (block_table r') p = dense_k (mr_num mr) (mr_config mr) (mr_weights mr) (mr_rope mr) ?ts' l (nat p)
      \<and> v_row kv l (block_table r') p = dense_v (mr_num mr) (mr_config mr) (mr_weights mr) (mr_rope mr) ?ts' l (nat p)"
    unfolding rows holds using dense_kv_causal [OF agree] by blast
qed

text \<open>What the client asked for, which no step changes.\<close>

definition same_ask :: "request \<Rightarrow> request \<Rightarrow> bool" where
  "same_ask r r' \<longleftrightarrow> request_id r' = request_id r \<and> prompt_token_ids r' = prompt_token_ids r \<and> sampling_params r' = sampling_params r"

lemma same_ask_output: "same_ask r r' \<Longrightarrow> greedy_output f r' = greedy_output f r"
  by (simp add: same_ask_def greedy_output_def)

lemma kv_ready_zero: "n \<le> 0 \<Longrightarrow> kv_ready mr kv r n"
  by (simp add: kv_ready_def kv_holds_def)

lemma same_contentD:
  assumes "same_content r r'"
  shows "all_token_ids r' = all_token_ids r" "get_len r' = get_len r" "servable mr r' = servable mr r"
    "request_id r' = request_id r" "draft_token_ids r' = draft_token_ids r"
  using assms by (auto simp: same_content_def all_token_ids_def get_len_def servable_def)

lemma served_same:
  assumes "same_content r r'" "\<not> is_finished r" "\<not> is_finished r'" shows "served f r' = served f r"
  using assms by (simp add: same_content_def served_def greedy_output_def)

subsection \<open>The three parts of a step\<close>

lemma schedule_ready:
  assumes inv: "plain_inv X e"
  obtains s out where "schedule (e_sched e) = Inr (s, out)"
    "plain_core X (scheduled_new out @ scheduled_running out) (e_runner e) s"
    "distinct (map fst (scheduled_new out @ scheduled_running out))"
    "\<forall>(x, c) \<in> set (scheduled_new out @ scheduled_running out). x \<in> set (s_running s) \<and> 0 < c \<and> c \<le> num_computed_tokens (s_objs s x)"
    "\<forall>x \<in> set (s_running s). status (s_objs s x) = RUNNING" "\<forall>x. same_ask (s_objs (e_sched e) x) (s_objs s x)"
    "set (s_running s @ s_waiting s) = set (s_running (e_sched e) @ s_waiting (e_sched e))"
    "\<forall>x. output_token_ids (s_objs s x) = output_token_ids (s_objs (e_sched e) x)"
    "\<forall>(x, c) \<in> set (scheduled_new out @ scheduled_running out). granted (bm_block_size (s_bm (e_sched e))) (s_objs (e_sched e) x) c (s_objs s x)"
    "same_pool (e_sched e) s"
proof -
  let ?s0 = "e_sched e" and ?mr = "e_runner e"
  have core: "plain_core X [] ?mr ?s0" and run0: "\<forall>x \<in> set (s_running ?s0). status (s_objs ?s0 x) = RUNNING"
    using inv by (auto simp: plain_inv_def)
  note C = plain_coreD [OF core]
  have ci: "core_inv ?s0 (s_running ?s0) (s_waiting ?s0)" using C(1) by (simp add: sched_inv_def)
  obtain s out where sch: "schedule ?s0 = Inr (s, out)"
    by (rule schedule_cases [OF C(1)]) (use C(2) in auto)
  let ?G = "scheduled_new out @ scheduled_running out" and ?bs = "bm_block_size (s_bm ?s0)"
  have mem: "x \<in> X" if "x \<in> set (s_running ?s0) \<or> x \<in> set (s_waiting ?s0)" for x using C(6) that by auto
  have run: "\<forall>x \<in> set (s_running ?s0). draft_token_ids (s_objs ?s0 x) = [] \<and> status (s_objs ?s0 x) = RUNNING
        \<and> get_len (s_objs ?s0 x) \<le> int (length (block_table (s_objs ?s0 x))) * ?bs + 1"
    using C(7) [OF mem] C(9) C(4) run0 by (auto simp: servable_def in_flight_def)
  have wait: "\<forall>x \<in> set (s_waiting ?s0). 0 < get_len (s_objs ?s0 x)"
    using C(7) [OF mem] by (auto simp: servable_def get_len_def add_pos_nonneg)
  note g = schedule_grants [OF C(1) sch C(2) run wait]
  have pool: "same_pool ?s0 s" by (rule g(2))
  have ci': "core_inv s (s_running s) (s_waiting s)" using g(1) by (simp add: sched_inv_def)
  have bs: "0 < ?bs" using core_invD(3) [OF ci] by (simp add: bm_inv_def)
  have sub: "set (s_running s @ s_waiting s) \<subseteq> X" using g(7) C(6) by simp
  have grantx: "x \<in> X" "granted ?bs (s_objs ?s0 x) c (s_objs s x)" "x \<in> set (s_running s)" if "(x, c) \<in> set ?G" for x c
    using g(4) [OF that] sub by auto
  have other: "s_objs s x = s_objs ?s0 x \<or> x \<in> set (s_waiting s) \<and> s_objs s x = reset_request (s_objs ?s0 x)"
    if "x \<notin> fst ` set ?G" for x by (rule g(5) [OF that])
  have alive: "\<not> is_finished (s_objs ?s0 x)" if "x \<in> set (s_running ?s0 @ s_waiting ?s0)" for x
    using that run0 core_invD(6) [OF ci, of x] by (auto simp: is_finished_def waiting_ok_def)
  have alive': "\<not> is_finished (s_objs ?s0 x)" if "x \<in> set (s_running s @ s_waiting s)" for x
    by (rule alive) (use that in \<open>simp only: g(7)\<close>)
  have srv: "servable ?mr (s_objs s x) \<and> served (greedy_next ?mr) (s_objs s x)" if x: "x \<in> X" for x
  proof (cases "x \<in> fst ` set ?G")
    case True
    then obtain c where xc: "(x, c) \<in> set ?G" by (auto simp del: set_append)
    note gr = grantx [OF xc]
    have sc: "same_content (s_objs ?s0 x) (s_objs s x)" "\<not> is_finished (s_objs s x)" using gr(2) by (auto simp: granted_def is_finished_def)
    show ?thesis using C(7,8) [OF x] same_contentD(3) [OF sc(1)] served_same [OF sc(1) alive' sc(2)] gr(3) by auto
  next
    case False
    then show ?thesis
    proof (cases "s_objs s x = s_objs ?s0 x")
      case True
      then show ?thesis using C(7,8) [OF x] by simp
    next
      case False
      then have w: "x \<in> set (s_waiting s)" "s_objs s x = reset_request (s_objs ?s0 x)" using other \<open>x \<notin> fst ` set ?G\<close> by auto
      have sc: "same_content (s_objs ?s0 x) (s_objs s x)" "\<not> is_finished (s_objs s x)"
        using w(2) by (auto simp: same_content_def reset_request_def is_finished_def)
      show ?thesis using C(7,8) [OF x] same_contentD(3) [OF sc(1)] served_same [OF sc(1) alive' sc(2)] w(1) by auto
    qed
  qed
  have fly: "in_flight ?mr (num_computed_tokens (s_objs s x) - grant ?G x) (s_objs s x) \<and> status (s_objs s x) = RUNNING
      \<and> 0 \<le> grant ?G x" if x: "x \<in> set (s_running s)" for x
  proof (cases "x \<in> fst ` set ?G")
    case True
    then obtain c where xc: "(x, c) \<in> set ?G" by (auto simp del: set_append)
    let ?r = "s_objs ?s0 x" and ?r' = "s_objs s x"
    have gc: "grant ?G x = c" by (rule grant_in [OF g(3) xc])
    have gr: "same_content ?r ?r'" "status ?r' = RUNNING" "0 < c" "num_computed_tokens ?r' \<le> get_len ?r'"
      "get_len ?r' \<le> int (length (block_table ?r')) * ?bs + 1" "num_computed_tokens ?r' \<le> int (length (block_table ?r')) * ?bs"
      "num_computed_tokens ?r' = num_computed_tokens ?r + c \<and> take (length (block_table ?r)) (block_table ?r') = block_table ?r
        \<or> num_computed_tokens ?r' = c" using grantx(2) [OF xc] by (auto simp: granted_def)
    have "0 \<le> num_computed_tokens ?r' - c \<and> kv_ready ?mr (mr_kv ?mr) ?r' (num_computed_tokens ?r' - c)"
    proof (cases "num_computed_tokens ?r' = c")
      case True
      then show ?thesis by (simp add: kv_ready_zero)
    next
      case False
      then have more: "num_computed_tokens ?r' = num_computed_tokens ?r + c" "take (length (block_table ?r)) (block_table ?r') = block_table ?r"
        using gr(7) by auto
      have "x \<in> set (s_running ?s0)"
      proof (rule ccontr)
        assume "x \<notin> set (s_running ?s0)"
        then have "x \<in> set (s_waiting ?s0)" using x g(7) by auto
        then have "num_computed_tokens ?r = 0" using core_invD(6) [OF ci] by (simp add: waiting_ok_def)
        then show False using more(1) False by simp
      qed
      then have "in_flight ?mr (num_computed_tokens ?r) ?r" using C(9) [of x] by simp
      then show ?thesis unfolding more(1)
        by (auto simp: in_flight_def same_contentD(1,5) [OF gr(1)] C(4) bs intro!: kv_ready_extend [OF _ more(2)])
    qed
    then show ?thesis using gr gc C(4) by (simp add: in_flight_def)
  next
    case False
    have "x \<notin> set (s_waiting s)" using x core_invD(1) [OF ci'] by auto
    then have same: "s_objs s x = s_objs ?s0 x" using other [OF False] by blast
    have "x \<in> set (s_running ?s0)" using g(6) x False by blast
    then show ?thesis using C(9) [of x] run0 by (simp add: same grant_out [OF False])
  qed
  have "plain_core X ?G ?mr s" unfolding plain_core_def
    using g(1) pool C(2-5) sub srv fly by (auto simp: same_pool_def)
  moreover have "same_ask (s_objs ?s0 x) (s_objs s x) \<and> output_token_ids (s_objs s x) = output_token_ids (s_objs ?s0 x)" for x
  proof (cases "x \<in> fst ` set ?G")
    case True
    then obtain c where "(x, c) \<in> set ?G" by (auto simp del: set_append)
    then show ?thesis using grantx(2) by (force simp: granted_def same_content_def same_ask_def)
  next
    case False
    then show ?thesis using other [OF False] by (auto simp: same_ask_def reset_request_def)
  qed
  moreover have "x \<in> set (s_running s) \<and> 0 < c \<and> c \<le> num_computed_tokens (s_objs s x)" if xc: "(x, c) \<in> set ?G" for x c
    using grantx [OF xc] fly [of x] grant_in [OF g(3) xc] by (auto simp: granted_def in_flight_def)
  moreover have "\<forall>(x, c) \<in> set ?G. granted ?bs (s_objs ?s0 x) c (s_objs s x)" using grantx(2) by blast
  ultimately show ?thesis using that sch g(3,7) fly pool by blast
qed

lemma commit_ok:
  assumes ok: "servable mr r" "served (greedy_next mr) r" "model_ok mr" "status r = RUNNING"
    and n: "0 \<le> num_computed_tokens r" "num_computed_tokens r \<le> get_len r" "num_computed_tokens r \<le> cap" "get_len r \<le> cap + 1"
    and whole: "output_token_ids r \<noteq> [] \<longrightarrow> \<not> is_prefill r \<longrightarrow> num_computed_tokens r = get_len r"
  shows "servable mr (commit_greedy mr r)" "served (greedy_next mr) (commit_greedy mr r)" "keeps_blocks r (commit_greedy mr r)"
    "num_computed_tokens (commit_greedy mr r) = num_computed_tokens r" "block_table (commit_greedy mr r) = block_table r"
    "num_computed_tokens r \<le> get_len (commit_greedy mr r)" "get_len (commit_greedy mr r) \<le> cap + 1"
    "\<forall>j < nat (num_computed_tokens r). (all_token_ids r @ draft_token_ids r) ! j
       = (all_token_ids (commit_greedy mr r) @ draft_token_ids (commit_greedy mr r)) ! j"
proof -
  have "servable mr (commit_greedy mr r) \<and> served (greedy_next mr) (commit_greedy mr r) \<and> keeps_blocks r (commit_greedy mr r)
    \<and> num_computed_tokens (commit_greedy mr r) = num_computed_tokens r \<and> block_table (commit_greedy mr r) = block_table r
    \<and> num_computed_tokens r \<le> get_len (commit_greedy mr r) \<and> get_len (commit_greedy mr r) \<le> cap + 1
    \<and> (\<forall>j < nat (num_computed_tokens r). (all_token_ids r @ draft_token_ids r) ! j
       = (all_token_ids (commit_greedy mr r) @ draft_token_ids (commit_greedy mr r)) ! j)"
  proof (cases "is_prefill r")
    case True
    then have "commit_greedy mr r = r" by (simp add: commit_greedy_def)
    then show ?thesis using ok n by (simp add: keeps_blocks_def)
  next
    case False
    have full: "num_computed_tokens r = get_len r"
    proof (cases "output_token_ids r = []")
      case True
      then show ?thesis using False n(2) by (simp add: is_prefill_def get_len_def)
    qed (use whole False in blast)
    let ?t = "greedy_next mr (prompt_token_ids r @ output_token_ids r)"
    let ?r' = "maybe_finish (r\<lparr>output_token_ids := output_token_ids r @ [?t]\<rparr>)"
    have d: "draft_token_ids r = []" using ok(1) by (simp add: servable_def)
    have len: "nat (get_len r) = length (all_token_ids r)" by (metis length_all_token_ids nat_int)
    have eq: "commit_greedy mr r = ?r'"
      using False d by (simp add: commit_greedy_def full len) (simp add: all_token_ids_def)
    have all: "all_token_ids ?r' = all_token_ids r @ [?t]" by (simp add: all_token_ids_def)
    have srv: "servable mr ?r'"
      using ok(1) sample_vocab [OF ok(3), of "prompt_token_ids r @ output_token_ids r"] by (simp add: servable_def all)
    have "served (greedy_next mr) ?r'" by (rule served_commit [OF ok(2,4)])
    moreover have "keeps_blocks r ?r'"
      using n(1) by (auto simp: keeps_blocks_def maybe_finish_def status_finished_def min_def split: option.splits)
    moreover have "get_len ?r' = get_len r + 1" by (simp add: get_len_def)
    moreover have "\<forall>j < nat (num_computed_tokens r). (all_token_ids r @ draft_token_ids r) ! j = (all_token_ids ?r' @ draft_token_ids ?r') ! j"
      using d full len by (simp add: all nth_append)
    ultimately show ?thesis unfolding eq using srv n full by simp
  qed
  then show "servable mr (commit_greedy mr r)" "served (greedy_next mr) (commit_greedy mr r)" "keeps_blocks r (commit_greedy mr r)"
    "num_computed_tokens (commit_greedy mr r) = num_computed_tokens r" "block_table (commit_greedy mr r) = block_table r"
    "num_computed_tokens r \<le> get_len (commit_greedy mr r)" "get_len (commit_greedy mr r) \<le> cap + 1"
    "\<forall>j < nat (num_computed_tokens r). (all_token_ids r @ draft_token_ids r) ! j
       = (all_token_ids (commit_greedy mr r) @ draft_token_ids (commit_greedy mr r)) ! j" by blast+
qed

lemma kv_ready_frame:
  assumes "kv_ready mr kv r n"
    and "\<And>l p. 0 \<le> p \<Longrightarrow> p < n \<Longrightarrow> k_row kv' l (block_table r) p = k_row kv l (block_table r) p \<and> v_row kv' l (block_table r) p = v_row kv l (block_table r) p"
  shows "kv_ready mr kv' r n"
  using assms by (auto simp: kv_ready_def kv_holds_def)

text \<open>Two running requests hold different blocks, all of them in the pool.\<close>

lemma running_tables:
  assumes inv: "sched_inv s" and none: "bm_cache (s_bm s) = None" and x: "x \<in> set (s_running s)"
  shows "distinct (block_table (s_objs s x))" "\<forall>b \<in> set (block_table (s_objs s x)). int b < bm_num_gpu_blocks (s_bm s)"
    "y \<in> set (s_running s) \<Longrightarrow> y \<noteq> x \<Longrightarrow> set (block_table (s_objs s x)) \<inter> set (block_table (s_objs s y)) = {}"
proof -
  have ci: "core_inv s (s_running s) (s_waiting s)" using inv by (simp add: sched_inv_def)
  note I = core_invD [OF ci]
  have t: "map_of (bm_tables (s_bm s)) (request_id (s_objs s z)) = Some (block_table (s_objs s z))" if "z \<in> set (s_running s)" for z
    using I(5) [OF that] by (simp add: running_ok_def)
  note P = plain_tables [OF I(3) none t [OF x]]
  show "distinct (block_table (s_objs s x))" "\<forall>b \<in> set (block_table (s_objs s x)). int b < bm_num_gpu_blocks (s_bm s)" using P(1,2) by auto
  show "set (block_table (s_objs s x)) \<inter> set (block_table (s_objs s y)) = {}" if y: "y \<in> set (s_running s)" "y \<noteq> x"
  proof (rule P(3) [OF t [OF y(1)]])
    have "map_of (s_requests s) (request_id (s_objs s x)) = Some x" "map_of (s_requests s) (request_id (s_objs s y)) = Some y"
      using tracked_id [OF I(2)] x y by auto
    then show "request_id (s_objs s y) \<noteq> request_id (s_objs s x)" using y(2) by force
  qed
qed

lemma plain_running_tables:
  assumes core: "plain_core X G mr s" and x: "x \<in> set (s_running s)"
  shows "distinct (block_table (s_objs s x))" "\<forall>b \<in> set (block_table (s_objs s x)). int b < kv_num_blocks (mr_kv mr)"
    "y \<in> set (s_running s) \<Longrightarrow> y \<noteq> x \<Longrightarrow> set (block_table (s_objs s x)) \<inter> set (block_table (s_objs s y)) = {}"
  using running_tables [OF plain_coreD(1,2) [OF core] x] plain_coreD(5) [OF core] by auto

lemma store_requests_fold:
  "store_requests xs (map f xs) s = fold (\<lambda>x. upd_req x (\<lambda>_. f x)) xs s"
  by (induction xs arbitrary: s) (simp_all add: store_requests_def)

definition same_cache_shape :: "'a kv_cache \<Rightarrow> 'a kv_cache \<Rightarrow> bool" where
  "same_cache_shape c c' \<longleftrightarrow> kv_block_size c' = kv_block_size c \<and> kv_n_layers c' = kv_n_layers c
     \<and> kv_num_heads c' = kv_num_heads c \<and> kv_head_dim c' = kv_head_dim c \<and> kv_compute_dtype c' = kv_compute_dtype c"

lemma runner_step:
  assumes core: "plain_core X G mr s" and dist: "distinct (map fst G)"
    and G: "\<forall>(x, c) \<in> set G. x \<in> set (s_running s) \<and> 0 < c \<and> c \<le> num_computed_tokens (s_objs s x)"
    and run: "\<forall>x \<in> set (s_running s). status (s_objs s x) = RUNNING"
    and whole: "\<forall>(x, c) \<in> set G. output_token_ids (s_objs s x) \<noteq> [] \<longrightarrow> \<not> is_prefill (s_objs s x)
      \<longrightarrow> num_computed_tokens (s_objs s x) = get_len (s_objs s x)"
  shows "\<exists>kv'. execute_model mr (map (\<lambda>(x, n). (s_objs s x, n)) G)
      = Inr (mr\<lparr>mr_kv := kv'\<rparr>, map (\<lambda>x. commit_greedy mr (s_objs s x)) (map fst G))
    \<and> plain_core X [] (mr\<lparr>mr_kv := kv'\<rparr>) (fold (\<lambda>x. upd_req x (\<lambda>_. commit_greedy mr (s_objs s x))) (map fst G) s)
    \<and> same_cache_shape (mr_kv mr) kv'"
proof -
  note C = plain_coreD [OF core]
  let ?kv = "mr_kv mr" and ?bs = "kv_block_size (mr_kv mr)" and ?sch = "map (\<lambda>(x, n). (s_objs s x, n)) G"
  have ci: "core_inv s (s_running s) (s_waiting s)" and cfg: "scheduler_config_ok (s_config s)" using C(1) by (auto simp: sched_inv_def)
  have bs: "0 < ?bs" using C(3) by (simp add: model_ok_def)
  note T = plain_running_tables [OF core]
  have mem: "x \<in> X" if "x \<in> set (s_running s)" for x using C(6) that by auto
  have exec: "\<exists>kv'. execute_model mr ?sch = Inr (mr\<lparr>mr_kv := kv'\<rparr>, map (\<lambda>(r, _). commit_greedy mr r) ?sch)
    \<and> (\<forall>(r, _) \<in> set ?sch. kv_ready mr kv' r (num_computed_tokens r))
    \<and> (\<forall>table l p. (\<forall>(r, _) \<in> set ?sch. set table \<inter> set (block_table r) = {}) \<longrightarrow> 0 \<le> p
        \<longrightarrow> p < int (length table) * ?bs \<longrightarrow> k_row kv' l table p = k_row ?kv l table p \<and> v_row kv' l table p = v_row ?kv l table p)
    \<and> kv_block_size kv' = ?bs \<and> covers kv' = covers ?kv \<and> kv_int8 kv' = kv_int8 ?kv
    \<and> kv_n_layers kv' = kv_n_layers ?kv \<and> kv_num_blocks kv' = kv_num_blocks ?kv
    \<and> kv_num_heads kv' = kv_num_heads ?kv \<and> kv_head_dim kv' = kv_head_dim ?kv \<and> kv_compute_dtype kv' = kv_compute_dtype ?kv"
  proof (cases "G = []")
    case True
    then show ?thesis by (intro exI [of _ ?kv]) (simp add: execute_model_def)
  next
    case False
    show ?thesis
    proof (rule execute_model_dense)
      show "\<forall>x \<in> set ?sch. scheduled_ok mr x"
      proof
        fix z assume "z \<in> set ?sch"
        then obtain x c where xc: "(x, c) \<in> set G" and z: "z = (s_objs s x, c)" by auto
        let ?r = "s_objs s x"
        have x: "x \<in> set (s_running s)" "0 < c" "c \<le> num_computed_tokens ?r" using G xc by auto
        have fl: "in_flight mr (num_computed_tokens ?r - c) ?r" using C(9) [OF x(1)] grant_in [OF dist xc] by simp
        have sv: "servable mr ?r" "served (greedy_next mr) ?r" using C(7,8) [OF mem [OF x(1)]] by auto
        have "length (output_token_ids ?r) < token_limit (sampling_params ?r)"
          using sv(2) run x(1) by (auto simp: served_def is_finished_def)
        then have "get_len ?r \<le> int (length (mr_cos mr))" using sv(1) by (simp add: servable_def get_len_def)
        then show "scheduled_ok mr z"
          using x fl sv(1) T(1,2) [OF x(1)] bs by (auto simp: z scheduled_ok_def in_flight_def servable_def covers_def in_vocab_def list_all_iff)
      qed
      show "tables_apart (map fst ?sch)" unfolding tables_apart_def
      proof (intro allI impI)
        fix i j assume i: "i < length (map fst ?sch)" and j: "j < length (map fst ?sch)" and ij: "i \<noteq> j"
        have nth: "map fst ?sch ! k = s_objs s (fst (G ! k))" "fst (G ! k) \<in> set (s_running s)" if "k < length G" for k
          using that G nth_mem [OF that] by (auto simp: split_def)
        have "fst (G ! i) \<noteq> fst (G ! j)" using dist i j ij by (simp add: distinct_conv_nth)
        then show "set (block_table (map fst ?sch ! i)) \<inter> set (block_table (map fst ?sch ! j)) = {}"
          using nth i j T(3) [of "fst (G ! i)" "fst (G ! j)"] by (metis length_map)
      qed
      show "\<not> kv_int8 ?kv" "length (mr_sin mr) = length (mr_cos mr)" "runner_fits mr" using C(3) by (simp_all add: model_ok_def)
      show "\<forall>(r, n) \<in> set ?sch. kv_ready mr ?kv r (num_computed_tokens r - n)"
        using C(9) G grant_in [OF dist] by (fastforce simp: in_flight_def)
      show "?sch \<noteq> []" using False by simp
    qed
  qed
  then obtain kv' where ex: "execute_model mr ?sch = Inr (mr\<lparr>mr_kv := kv'\<rparr>, map (\<lambda>(r, _). commit_greedy mr r) ?sch)"
    and rdy: "\<forall>(r, _) \<in> set ?sch. kv_ready mr kv' r (num_computed_tokens r)"
    and frame: "\<forall>table l p. (\<forall>(r, _) \<in> set ?sch. set table \<inter> set (block_table r) = {}) \<longrightarrow> 0 \<le> p
        \<longrightarrow> p < int (length table) * ?bs \<longrightarrow> k_row kv' l table p = k_row ?kv l table p \<and> v_row kv' l table p = v_row ?kv l table p"
    and shape: "kv_block_size kv' = ?bs" "kv_int8 kv' = kv_int8 ?kv" "kv_num_blocks kv' = kv_num_blocks ?kv"
    and dims: "kv_num_heads kv' = kv_num_heads ?kv" "kv_head_dim kv' = kv_head_dim ?kv" "kv_n_layers kv' = kv_n_layers ?kv" "kv_compute_dtype kv' = kv_compute_dtype ?kv"
    by (elim exE conjE) (rule that)
  let ?mr' = "mr\<lparr>mr_kv := kv'\<rparr>" and ?com = "\<lambda>x. commit_greedy mr (s_objs s x)"
  let ?s' = "fold (\<lambda>x. upd_req x (\<lambda>_. ?com x)) (map fst G) s"
  note F = fold_upd_req(1) [OF dist, where f = "\<lambda>x _. ?com x" and s = s]
    fold_upd_req(2-5) [where xs = "map fst G" and f = "\<lambda>x _. ?com x" and s = s]
  have Grun: "x \<in> set (s_running s)" if "x \<in> fst ` set G" for x using G that by auto
  have com: "servable mr (?com x)" "served (greedy_next mr) (?com x)" "keeps_blocks (s_objs s x) (?com x)"
      "num_computed_tokens (?com x) = num_computed_tokens (s_objs s x)" "in_flight ?mr' (num_computed_tokens (?com x)) (?com x)"
    if x: "x \<in> fst ` set G" for x
  proof -
    obtain c where xc: "(x, c) \<in> set G" using x by auto
    let ?r = "s_objs s x"
    have fl: "in_flight mr (num_computed_tokens ?r - c) ?r" "0 < c" using C(9) [OF Grun [OF x]] grant_in [OF dist xc] G xc by auto
    have n: "0 \<le> num_computed_tokens ?r" "num_computed_tokens ?r \<le> get_len ?r" "num_computed_tokens ?r \<le> int (length (block_table ?r)) * ?bs"
      "get_len ?r \<le> int (length (block_table ?r)) * ?bs + 1" using fl by (auto simp: in_flight_def)
    have wh: "output_token_ids ?r \<noteq> [] \<longrightarrow> \<not> is_prefill ?r \<longrightarrow> num_computed_tokens ?r = get_len ?r" using whole xc by auto
    note K = commit_ok [OF C(7) [OF mem [OF Grun [OF x]]] C(8) [OF mem [OF Grun [OF x]]] C(3) _ n wh]
    note K' = K [OF run [rule_format, OF Grun [OF x]]]
    show "servable mr (?com x)" "served (greedy_next mr) (?com x)" "keeps_blocks (s_objs s x) (?com x)"
      "num_computed_tokens (?com x) = num_computed_tokens (s_objs s x)" by (simp_all only: K'(1-4))
    have "kv_ready mr kv' ?r (num_computed_tokens ?r)" using rdy xc by force
    then have "kv_ready mr kv' (?com x) (num_computed_tokens ?r)"
      by (rule kv_ready_extend) (use K'(5,8) n(3) shape(1) bs in auto)
    then show "in_flight ?mr' (num_computed_tokens (?com x)) (?com x)"
      using K' n shape(1) by (simp add: in_flight_def)
  qed
  have fly: "in_flight ?mr' (num_computed_tokens (s_objs ?s' x)) (s_objs ?s' x)" if x: "x \<in> set (s_running s)" for x
  proof (cases "x \<in> fst ` set G")
    case True
    then show ?thesis using com(5) by (simp add: F(1))
  next
    case False
    let ?r = "s_objs s x"
    have fl: "in_flight mr (num_computed_tokens ?r) ?r" using C(9) [OF x] grant_out [OF False] by simp
    have apart: "\<forall>(r, _) \<in> set ?sch. set (block_table ?r) \<inter> set (block_table r) = {}"
      using T(3) [OF x] Grun False by force
    have "kv_ready mr kv' ?r (num_computed_tokens ?r)"
    proof (rule kv_ready_frame)
      show "kv_ready mr ?kv ?r (num_computed_tokens ?r)" using fl by (simp add: in_flight_def)
      fix l p assume p: "0 \<le> p" "p < num_computed_tokens ?r"
      then have "p < int (length (block_table ?r)) * ?bs" using fl by (simp add: in_flight_def)
      then show "k_row kv' l (block_table ?r) p = k_row ?kv l (block_table ?r) p \<and> v_row kv' l (block_table ?r) p = v_row ?kv l (block_table ?r) p"
        using frame apart p(1) by blast
    qed
    then show ?thesis using fl False shape(1) by (simp add: F(1) in_flight_def)
  qed
  have "core_inv ?s' (s_running s) (s_waiting s)"
    by (rule core_inv_upds [OF ci dist]) (use Grun com(3) in auto)
  then have "sched_inv ?s'" using cfg by (simp add: sched_inv_def F)
  moreover have "model_ok ?mr'" using C(3) shape runner_fits_kv [OF dims(1-3)] by (simp add: model_ok_def)
  moreover have "servable ?mr' (s_objs ?s' x) \<and> served (greedy_next ?mr') (s_objs ?s' x)" if "x \<in> X" for x
    using that C(7,8) com(1,2) by (simp add: F(1))
  ultimately have "plain_core X [] ?mr' ?s'"
    using C(2,4-6) shape fly by (simp add: plain_core_def F)
  moreover have "same_cache_shape ?kv kv'" using shape(1) dims by (simp add: same_cache_shape_def)
  moreover have "map (\<lambda>(r, _). commit_greedy mr r) ?sch = map ?com (map fst G)" by (simp add: split_def)
  ultimately show ?thesis using ex by auto
qed

lemma free_blocks_pool:
  assumes "free_blocks bm r = Inr (bm', r')"
  shows "bm_block_size bm' = bm_block_size bm" "bm_num_gpu_blocks bm' = bm_num_gpu_blocks bm" "bm_cache bm = None \<Longrightarrow> bm_cache bm' = None"
  using assms by (auto simp: free_blocks_def Let_def bindE_Inr_iff split: option.splits list.splits prod.splits)

lemma foldE_finish_pool:
  "foldE finish_one xs s = Inr s' \<Longrightarrow> bm_block_size (s_bm s') = bm_block_size (s_bm s)
     \<and> bm_num_gpu_blocks (s_bm s') = bm_num_gpu_blocks (s_bm s) \<and> (bm_cache (s_bm s) = None \<longrightarrow> bm_cache (s_bm s') = None)"
proof (induction xs arbitrary: s)
  case (Cons x xs)
  obtain s1 where s1: "finish_one x s = Inr s1" and rest: "foldE finish_one xs s1 = Inr s'"
    using Cons.prems by (auto simp: bindE_Inr_iff)
  have "bm_block_size (s_bm s1) = bm_block_size (s_bm s) \<and> bm_num_gpu_blocks (s_bm s1) = bm_num_gpu_blocks (s_bm s)
      \<and> (bm_cache (s_bm s) = None \<longrightarrow> bm_cache (s_bm s1) = None)"
    using s1 by (auto simp: finish_one_def with_bm_def Let_def bindE_Inr_iff dest: free_blocks_pool split: if_splits prod.splits)
  then show ?case using Cons.IH [OF rest] by simp
qed simp

lemma finish_step:
  assumes core: "plain_core X [] mr s"
  obtains s' where "free_finished_requests s = Inr (s', filter (\<lambda>x. is_finished (s_objs s x)) (s_running s))"
    "plain_core X [] mr s'" "\<forall>x \<in> set (s_running s'). status (s_objs s' x) = RUNNING"
    "\<forall>x. same_ask (s_objs s x) (s_objs s' x) \<and> output_token_ids (s_objs s' x) = output_token_ids (s_objs s x)
       \<and> status (s_objs s' x) = status (s_objs s x) \<and> num_computed_tokens (s_objs s' x) = num_computed_tokens (s_objs s x)"
    "s_running s' = filter (\<lambda>x. \<not> is_finished (s_objs s x)) (s_running s)" "s_waiting s' = s_waiting s"
    "bm_num_gpu_blocks (s_bm s') = bm_num_gpu_blocks (s_bm s)"
proof -
  note C = plain_coreD [OF core]
  have ci: "core_inv s (s_running s) (s_waiting s)" using C(1) by (simp add: sched_inv_def)
  obtain s' where s': "free_finished_requests s = Inr (s', filter (\<lambda>x. is_finished (s_objs s x)) (s_running s))" "sched_inv s'"
    "s_running s' = filter (\<lambda>x. \<not> is_finished (s_objs s x)) (s_running s)" "s_waiting s' = s_waiting s"
    "\<forall>y. s_objs s' y = (if y \<in> set (s_running s) \<and> is_finished (s_objs s y)
        then (s_objs s y)\<lparr>cached_prefix_nodes := [], block_table := []\<rparr> else s_objs s y)"
    by (rule free_finished_inv [OF C(1)]) blast
  have pool: "bm_block_size (s_bm s') = bm_block_size (s_bm s)" "bm_num_gpu_blocks (s_bm s') = bm_num_gpu_blocks (s_bm s)"
    "bm_cache (s_bm s') = None"
    using s'(1) C(2) by (auto simp: free_finished_requests_def Let_def bindE_Inr_iff dest!: foldE_finish_pool split: if_splits prod.splits)
  have strip: "servable mr (r\<lparr>cached_prefix_nodes := [], block_table := []\<rparr>) = servable mr r"
    "served f (r\<lparr>cached_prefix_nodes := [], block_table := []\<rparr>) = served f r" for f r
    by (simp_all add: servable_def all_token_ids_def served_def is_finished_def greedy_output_def)
  have x: "servable mr (s_objs s' x) \<and> served (greedy_next mr) (s_objs s' x)" if "x \<in> X" for x
    using s'(5) [rule_format, of x] C(7,8) [OF that] strip by (auto simp del: request.simps split: if_splits)
  have same: "s_objs s' x = s_objs s x \<and> status (s_objs s x) = RUNNING" if "x \<in> set (s_running s')" for x
    using that s'(3,5) core_invD(5) [OF ci, of x] by (auto simp: running_ok_def)
  have "plain_core X [] mr s'"
    using C s'(2-4) pool x same by (simp add: plain_core_def subset_iff)
  then show ?thesis using that [OF s'(1)] same s'(3-5) pool by (simp add: same_ask_def)
qed

subsection \<open>A step of the engine\<close>

text \<open>
  A request that already has output tokens and is recomputed after a preemption must be given all
  its tokens in one chunk: a chunk that ends among its output tokens would commit a token early.
\<close>

definition whole_chunks :: "'a engine \<Rightarrow> bool" where
  "whole_chunks e =
     (case schedule (e_sched e) of
        Inl _ \<Rightarrow> True
      | Inr (s, out) \<Rightarrow> list_all (\<lambda>(x, c). output_token_ids (s_objs s x) \<noteq> [] \<longrightarrow> \<not> is_prefill (s_objs s x)
            \<longrightarrow> num_computed_tokens (s_objs s x) = get_len (s_objs s x)) (scheduled_new out @ scheduled_running out))"

lemma commit_greedy_ask: "same_ask r (commit_greedy mr r)"
  by (simp add: same_ask_def commit_greedy_def)

lemma same_ask_trans: "same_ask r r' \<Longrightarrow> same_ask r' r'' \<Longrightarrow> same_ask r r''"
  by (simp add: same_ask_def)

lemma fold_id: "(\<And>x. x \<in> set xs \<Longrightarrow> f x e = e) \<Longrightarrow> fold f xs e = e"
  by (induction xs) auto

text \<open>A step returns, keeps the invariant, and adds to the scheduled requests what \<open>commit_greedy\<close> says.\<close>

lemma plain_step_full:
  assumes inv: "plain_inv X e" and whole: "whole_chunks e"
  obtains s out e' fin where "schedule (e_sched e) = Inr (s, out)" "engine_step e = Some (Inr (e', out, fin))" "plain_inv X e'"
    "greedy_next (e_runner e') = greedy_next (e_runner e)" "servable (e_runner e') = servable (e_runner e)"
    "\<forall>x. same_ask (s_objs (e_sched e) x) (s_objs (e_sched e') x)"
    "\<forall>x. output_token_ids (s_objs s x) = output_token_ids (s_objs (e_sched e) x)"
    "distinct (map fst (scheduled_new out @ scheduled_running out))"
    "set (map fst (scheduled_new out @ scheduled_running out)) \<subseteq> set (s_running s)" "set (s_running s) \<subseteq> X"
    "set (s_running s) \<subseteq> set (s_running (e_sched e) @ s_waiting (e_sched e))"
    "\<forall>x \<in> set (s_running s). status (s_objs s x) = RUNNING \<and> draft_token_ids (s_objs s x) = []"
    "\<forall>x. let r = (if x \<in> set (map fst (scheduled_new out @ scheduled_running out)) then commit_greedy (e_runner e) (s_objs s x) else s_objs s x)
       in output_token_ids (s_objs (e_sched e') x) = output_token_ids r \<and> status (s_objs (e_sched e') x) = status r"
    "set fin = {x \<in> set (s_running s). is_finished (s_objs (e_sched e') x)}"
    "set (s_running (e_sched e') @ s_waiting (e_sched e')) = set (s_running (e_sched e) @ s_waiting (e_sched e)) - set fin"
    "\<exists>kv'. e_runner e' = (e_runner e)\<lparr>mr_kv := kv'\<rparr> \<and> same_cache_shape (mr_kv (e_runner e)) kv'"
    "\<forall>x. num_computed_tokens (s_objs (e_sched e') x) = num_computed_tokens (s_objs s x)"
    "\<forall>(x, c) \<in> set (scheduled_new out @ scheduled_running out). granted (bm_block_size (s_bm (e_sched e))) (s_objs (e_sched e) x) c (s_objs s x)"
    "bm_num_gpu_blocks (s_bm (e_sched e')) = bm_num_gpu_blocks (s_bm (e_sched e))"
    "s_running (e_sched e') = filter (\<lambda>x. \<not> is_finished (s_objs (e_sched e') x)) (s_running s)" "s_waiting (e_sched e') = s_waiting s"
proof -
  let ?mr = "e_runner e"
  obtain s out where sch: "schedule (e_sched e) = Inr (s, out)" and core: "plain_core X (scheduled_new out @ scheduled_running out) ?mr s"
    and dist: "distinct (map fst (scheduled_new out @ scheduled_running out))"
    and G: "\<forall>(x, c) \<in> set (scheduled_new out @ scheduled_running out). x \<in> set (s_running s) \<and> 0 < c \<and> c \<le> num_computed_tokens (s_objs s x)"
    and run: "\<forall>x \<in> set (s_running s). status (s_objs s x) = RUNNING" and ask: "\<forall>x. same_ask (s_objs (e_sched e) x) (s_objs s x)"
    and sets: "set (s_running s @ s_waiting s) = set (s_running (e_sched e) @ s_waiting (e_sched e))"
    and outs: "\<forall>x. output_token_ids (s_objs s x) = output_token_ids (s_objs (e_sched e) x)"
    and grants: "\<forall>(x, c) \<in> set (scheduled_new out @ scheduled_running out). granted (bm_block_size (s_bm (e_sched e))) (s_objs (e_sched e) x) c (s_objs s x)"
    and pool: "same_pool (e_sched e) s"
    by (rule schedule_ready [OF inv])
  let ?G = "scheduled_new out @ scheduled_running out"
  have wh: "\<forall>(x, c) \<in> set ?G. output_token_ids (s_objs s x) \<noteq> [] \<longrightarrow> \<not> is_prefill (s_objs s x)
      \<longrightarrow> num_computed_tokens (s_objs s x) = get_len (s_objs s x)"
    using whole by (auto simp: whole_chunks_def sch list_all_iff)
  obtain kv' where ex: "execute_model ?mr (map (\<lambda>(x, n). (s_objs s x, n)) ?G)
      = Inr (?mr\<lparr>mr_kv := kv'\<rparr>, map (\<lambda>x. commit_greedy ?mr (s_objs s x)) (map fst ?G))"
    and core0: "plain_core X [] (?mr\<lparr>mr_kv := kv'\<rparr>) (fold (\<lambda>x. upd_req x (\<lambda>_. commit_greedy ?mr (s_objs s x))) (map fst ?G) s)"
    and kvsh: "same_cache_shape (mr_kv ?mr) kv'"
    using runner_step [OF core dist G run wh] by blast
  define s2 where "s2 = fold (\<lambda>x. upd_req x (\<lambda>_. commit_greedy ?mr (s_objs s x))) (map fst ?G) s"
  note core2 = core0 [folded s2_def]
  obtain s4 where fin: "free_finished_requests s2 = Inr (s4, filter (\<lambda>x. is_finished (s_objs s2 x)) (s_running s2))"
    and core4: "plain_core X [] (?mr\<lparr>mr_kv := kv'\<rparr>) s4" and run4: "\<forall>x \<in> set (s_running s4). status (s_objs s4 x) = RUNNING"
    and ask4: "\<forall>x. same_ask (s_objs s2 x) (s_objs s4 x) \<and> output_token_ids (s_objs s4 x) = output_token_ids (s_objs s2 x)
       \<and> status (s_objs s4 x) = status (s_objs s2 x) \<and> num_computed_tokens (s_objs s4 x) = num_computed_tokens (s_objs s2 x)"
    and queues: "s_running s4 = filter (\<lambda>x. \<not> is_finished (s_objs s2 x)) (s_running s2)" "s_waiting s4 = s_waiting s2"
    and blocks4: "bm_num_gpu_blocks (s_bm s4) = bm_num_gpu_blocks (s_bm s2)"
    by (rule finish_step [OF core2])
  let ?e' = "e\<lparr>e_sched := s4, e_runner := ?mr\<lparr>mr_kv := kv'\<rparr>\<rparr>" and ?fin = "filter (\<lambda>x. is_finished (s_objs s2 x)) (s_running s2)"
  have nodraft: "draft_token_ids (s_objs s x) = []" if "(x, c) \<in> set (scheduled_running out)" for x c
  proof -
    have "x \<in> set (s_running s)" using G that by auto
    then have "x \<in> X" using plain_coreD(6) [OF core] by auto
    then show ?thesis using plain_coreD(7) [OF core] by (simp add: servable_def)
  qed
  have "spec_pre_len (s_objs s) out = []" using nodraft by (auto simp: spec_pre_len_def filter_empty_conv)
  then have corr: "fold (correct_one (spec_pre_len (s_objs s) out)) xs e1 = e1" for xs and e1 :: "'a engine"
    by (intro fold_id) (simp add: correct_one_def split_def)
  have none: "bm_cache (s_bm s2) = None" by (rule plain_coreD(2) [OF core2])
  have "step_run e = Inr (?e', out, ?fin)"
    by (simp only: step_run_def sch bindE.simps split_conv Let_def ex store_requests_fold s2_def [symmetric] none if_True corr)
      (simp add: fin)
  then have step: "engine_step e = Some (Inr (?e', out, ?fin))"
    using inv by (cases "s_running s4") (simp_all add: engine_step_def plain_inv_def)
  have o2: "s_objs s2 x = (if x \<in> set (map fst ?G) then commit_greedy ?mr (s_objs s x) else s_objs s x)" for x
    unfolding s2_def by (rule fold_upd_req(1) [OF dist])
  have q2: "s_running s2 = s_running s" "s_waiting s2 = s_waiting s" unfolding s2_def by (rule fold_upd_req)+
  have ask2: "same_ask (s_objs s x) (s_objs s2 x)" for x
    using commit_greedy_ask [of "s_objs s x" ?mr] o2 [of x] by (simp add: same_ask_def split: if_splits)
  have fins: "is_finished (s_objs s4 x) = is_finished (s_objs s2 x)" for x using ask4 by (simp add: is_finished_def)
  have core0s: "core_inv s (s_running s) (s_waiting s)" using plain_coreD(1) [OF core] by (simp add: sched_inv_def)
  have runX: "set (s_running s) \<subseteq> X" using plain_coreD(6) [OF core] by auto
  show ?thesis
  proof (rule that [OF sch step])
    show "plain_inv X ?e'" using core4 run4 inv by (simp add: plain_inv_def)
    show "greedy_next (e_runner ?e') = greedy_next (e_runner e)" "servable (e_runner ?e') = servable (e_runner e)" by simp_all
    show "\<forall>x. same_ask (s_objs (e_sched e) x) (s_objs (e_sched ?e') x)"
      using same_ask_trans [OF same_ask_trans [OF ask [rule_format] ask2]] ask4 by simp
    show "\<forall>x. output_token_ids (s_objs s x) = output_token_ids (s_objs (e_sched e) x)" by (rule outs)
    show "distinct (map fst ?G)" by (rule dist)
    show "set (map fst ?G) \<subseteq> set (s_running s)" using G by auto
    show "set (s_running s) \<subseteq> X" by (rule runX)
    show "set (s_running s) \<subseteq> set (s_running (e_sched e) @ s_waiting (e_sched e))" unfolding sets [symmetric] by simp
    show "\<forall>x \<in> set (s_running s). status (s_objs s x) = RUNNING \<and> draft_token_ids (s_objs s x) = []"
      using run runX plain_coreD(7) [OF core] by (auto simp: servable_def)
    show "\<forall>x. let r = (if x \<in> set (map fst ?G) then commit_greedy (e_runner e) (s_objs s x) else s_objs s x)
       in output_token_ids (s_objs (e_sched ?e') x) = output_token_ids r \<and> status (s_objs (e_sched ?e') x) = status r"
      using ask4 by (simp add: o2 Let_def)
    show "set ?fin = {x \<in> set (s_running s). is_finished (s_objs (e_sched ?e') x)}" by (simp add: q2 fins)
    have "set (s_running s) \<inter> set (s_waiting s) = {}" using core_invD(1) [OF core0s] by simp
    then show "set (s_running (e_sched ?e') @ s_waiting (e_sched ?e')) = set (s_running (e_sched e) @ s_waiting (e_sched e)) - set ?fin"
      unfolding sets [symmetric] by (auto simp: queues q2)
    show "\<exists>kv'. e_runner ?e' = (e_runner e)\<lparr>mr_kv := kv'\<rparr> \<and> same_cache_shape (mr_kv (e_runner e)) kv'" using kvsh by auto
    show "\<forall>x. num_computed_tokens (s_objs (e_sched ?e') x) = num_computed_tokens (s_objs s x)"
      using ask4 by (simp add: o2 commit_greedy_def)
    show "bm_num_gpu_blocks (s_bm (e_sched ?e')) = bm_num_gpu_blocks (s_bm (e_sched e))"
      using blocks4 pool unfolding s2_def by (simp add: fold_upd_req same_pool_def)
    show "s_running (e_sched ?e') = filter (\<lambda>x. \<not> is_finished (s_objs (e_sched ?e') x)) (s_running s)" "s_waiting (e_sched ?e') = s_waiting s"
      by (simp_all add: queues q2 fins)
  qed (rule grants)
qed

lemma plain_step_commits:
  assumes inv: "plain_inv X e" and whole: "whole_chunks e"
  obtains s out e' fin where "schedule (e_sched e) = Inr (s, out)" "engine_step e = Some (Inr (e', out, fin))" "plain_inv X e'"
    "greedy_next (e_runner e') = greedy_next (e_runner e)" "servable (e_runner e') = servable (e_runner e)"
    "\<forall>x. same_ask (s_objs (e_sched e) x) (s_objs (e_sched e') x)"
    "\<forall>x. output_token_ids (s_objs s x) = output_token_ids (s_objs (e_sched e) x)"
    "distinct (map fst (scheduled_new out @ scheduled_running out))"
    "set (map fst (scheduled_new out @ scheduled_running out)) \<subseteq> set (s_running s)" "set (s_running s) \<subseteq> X"
    "set (s_running s) \<subseteq> set (s_running (e_sched e) @ s_waiting (e_sched e))"
    "\<forall>x \<in> set (s_running s). status (s_objs s x) = RUNNING \<and> draft_token_ids (s_objs s x) = []"
    "\<forall>x. let r = (if x \<in> set (map fst (scheduled_new out @ scheduled_running out)) then commit_greedy (e_runner e) (s_objs s x) else s_objs s x)
       in output_token_ids (s_objs (e_sched e') x) = output_token_ids r \<and> status (s_objs (e_sched e') x) = status r"
    "set fin = {x \<in> set (s_running s). is_finished (s_objs (e_sched e') x)}"
    "set (s_running (e_sched e') @ s_waiting (e_sched e')) = set (s_running (e_sched e) @ s_waiting (e_sched e)) - set fin"
  by (rule plain_step_full [OF assms]) (rule that; assumption)

lemma plain_step:
  assumes inv: "plain_inv X e" and whole: "whole_chunks e"
  shows "\<exists>e' out fin. engine_step e = Some (Inr (e', out, fin)) \<and> plain_inv X e'
    \<and> greedy_next (e_runner e') = greedy_next (e_runner e)
    \<and> (\<forall>x. same_ask (s_objs (e_sched e) x) (s_objs (e_sched e') x))
    \<and> (\<forall>x \<in> set fin. x \<in> X \<and> is_finished (s_objs (e_sched e') x))"
  by (rule plain_step_commits [OF assms]) blast

subsection \<open>Arrivals\<close>

lemma core_inv_fresh_obj:
  assumes inv: "core_inv s R W" and x: "x \<notin> set (R @ W)"
  shows "core_inv (s\<lparr>s_objs := (s_objs s)(x := r)\<rparr>) R W"
proof -
  let ?s = "s\<lparr>s_objs := (s_objs s)(x := r)\<rparr>"
  note I = core_invD [OF inv]
  have same: "s_objs ?s y = s_objs s y" if "y \<in> set (R @ W)" for y using that x by auto
  have tr: "tracked ?s (set (R @ W))"
    unfolding tracked_def
  proof (intro conjI allI)
    show "distinct (map fst (s_requests ?s))" using I(2) by (simp add: tracked_def)
    show "map_of (s_requests ?s) rid = Some y \<longleftrightarrow> y \<in> set (R @ W) \<and> request_id (s_objs ?s y) = rid" for rid y
      using I(2) same [of y] unfolding tracked_def by auto
  qed
  have held: "held_by ?s = held_by s"
  proof
    fix rid
    show "held_by ?s rid = held_by s rid"
    proof (cases "map_of (s_requests s) rid")
      case (Some y)
      then have "y \<in> set (R @ W)" using tracked_lookup(1) [OF I(2)] by blast
      then show ?thesis using Some same by (simp add: held_by_def)
    qed (simp add: held_by_def)
  qed
  have "(\<lambda>y. request_id (s_objs ?s y)) ` set R = (\<lambda>y. request_id (s_objs s y)) ` set R" using x by (intro image_cong) auto
  then show ?thesis unfolding core_inv_def held using I tr x by auto
qed

lemma add_request_fields:
  assumes "add_request x s = Inr s'"
  shows "s_running s' = s_running s" "s_waiting s' = s_waiting s @ [x]" "s_bm s' = s_bm s" "s_config s' = s_config s"
    "s_objs s' = (s_objs s)(x := (s_objs s x)\<lparr>status := WAITING\<rparr>)"
  using assms by (auto simp: add_request_def upd_req_def Let_def bindE_Inr_iff fun_eq_iff split: if_splits)

lemma plain_arrival:
  assumes inv: "plain_inv X e" and x: "x \<notin> X"
    and add: "engine_add_request name x prompt sp rid e = Inr e'"
    and ok: "\<And>i. servable (e_runner e) (mk_request i prompt (case sp of None \<Rightarrow> default_sampling_params | Some p \<Rightarrow> p))"
  shows "plain_inv (insert x X) e'" "e_runner e' = e_runner e" "\<forall>y. y \<noteq> x \<longrightarrow> s_objs (e_sched e') y = s_objs (e_sched e) y"
    "prompt_token_ids (s_objs (e_sched e') x) = prompt"
    "sampling_params (s_objs (e_sched e') x) = (case sp of None \<Rightarrow> default_sampling_params | Some p \<Rightarrow> p)"
proof -
  let ?s = "e_sched e" and ?mr = "e_runner e" and ?p = "case sp of None \<Rightarrow> default_sampling_params | Some p \<Rightarrow> p"
  define i where "i = (case rid of None \<Rightarrow> name (e_next_id e) | Some i \<Rightarrow> i)"
  let ?r = "mk_request i prompt ?p" and ?s1 = "?s\<lparr>s_objs := (s_objs ?s)(x := mk_request i prompt ?p)\<rparr>"
  note C = plain_coreD [OF inv [unfolded plain_inv_def, THEN conjunct1]]
  have rest: "e_draft e = None" "\<forall>x \<in> set (s_running ?s). status (s_objs ?s x) = RUNNING" using inv by (auto simp: plain_inv_def)
  define n where "n = (case rid of None \<Rightarrow> e_next_id e + 1 | Some i \<Rightarrow> e_next_id e)"
  have keep: "e\<lparr>e_sched := s', e_next_id := e_next_id e\<rparr> = e\<lparr>e_sched := s'\<rparr>" for s' by (cases e) simp
  obtain s' where s': "add_request x ?s1 = Inr s'" and e': "e' = e\<lparr>e_sched := s', e_next_id := n\<rparr>"
    using add by (auto simp: engine_add_request_def i_def n_def keep bindE_Inr_iff split: option.splits)
  have x': "x \<notin> set (s_running ?s @ s_waiting ?s)" using C(6) x by auto
  have w: "?r\<lparr>status := WAITING\<rparr> = ?r" by (simp add: mk_request_def)
  note F = add_request_fields [OF s', simplified, simplified w]
  have "core_inv ?s1 (s_running ?s1) (s_waiting ?s1)" using core_inv_fresh_obj [OF _ x'] C(1) by (simp add: sched_inv_def)
  then have inv1: "sched_inv ?s1" using C(1) by (simp add: sched_inv_def)
  have inv': "sched_inv s'"
    by (rule add_request_inv [OF inv1 _ _ s']) (use x' in \<open>simp_all add: mk_request_def waiting_ok_def\<close>)
  have run: "s_objs s' y = s_objs ?s y" if "y \<in> set (s_running ?s)" for y using that x' F(5) by auto
  have each: "servable ?mr (s_objs s' y) \<and> served (greedy_next ?mr) (s_objs s' y)" if "y \<in> insert x X" for y
    using that C(7,8) ok served_new F(5) by auto
  have "plain_core (insert x X) [] ?mr s'"
    using inv' C(2-6,9) F(1-3) run each by (auto simp: plain_core_def)
  then show "plain_inv (insert x X) e'" using rest F(1) run by (simp add: plain_inv_def e')
  show "e_runner e' = e_runner e" "\<forall>y. y \<noteq> x \<longrightarrow> s_objs (e_sched e') y = s_objs (e_sched e) y"
    "prompt_token_ids (s_objs (e_sched e') x) = prompt" "sampling_params (s_objs (e_sched e') x) = ?p"
    using F(5) by (simp_all add: e' mk_request_def)
qed

subsection \<open>Batch generation\<close>

fun run_whole :: "nat \<Rightarrow> 'a::floor_ceiling engine \<Rightarrow> bool" where
  "run_whole 0 e = True"
| "run_whole (Suc n) e =
     (has_unfinished_requests (e_sched e) \<longrightarrow> whole_chunks e \<and>
        (case engine_step e of Some (Inr (e', _, _)) \<Rightarrow> run_whole n e' | _ \<Rightarrow> True))"

lemma plain_run:
  assumes "plain_inv X e" "run_whole n e"
  shows "\<exists>e'. run_steps n e = Some (Inr e') \<and> plain_inv X e' \<and> greedy_next (e_runner e') = greedy_next (e_runner e)
    \<and> (\<forall>x. same_ask (s_objs (e_sched e) x) (s_objs (e_sched e') x))"
  using assms
proof (induction n arbitrary: e)
  case 0
  then show ?case by (auto simp: same_ask_def)
next
  case (Suc n)
  show ?case
  proof (cases "has_unfinished_requests (e_sched e)")
    case False
    then show ?thesis using Suc.prems by (auto simp: same_ask_def)
  next
    case True
    then have "whole_chunks e" using Suc.prems(2) by simp
    from plain_step [OF Suc.prems(1) this] obtain e1 out fin where e1: "engine_step e = Some (Inr (e1, out, fin))" "plain_inv X e1"
      "greedy_next (e_runner e1) = greedy_next (e_runner e)" "\<forall>x. same_ask (s_objs (e_sched e) x) (s_objs (e_sched e1) x)" by blast
    have "run_whole n e1" using Suc.prems(2) True e1(1) by simp
    from Suc.IH [OF e1(2) this] obtain e' where e': "run_steps n e1 = Some (Inr e')" "plain_inv X e'"
      "greedy_next (e_runner e') = greedy_next (e_runner e1)" "\<forall>x. same_ask (s_objs (e_sched e1) x) (s_objs (e_sched e') x)" by blast
    have "run_steps (Suc n) e = Some (Inr e')" using True e1(1) e'(1) by simp
    then show ?thesis using e' e1(3,4) same_ask_trans by (metis (no_types))
  qed
qed

lemma plain_arrivals:
  assumes "plain_inv X e" "distinct (map fst ps)" "fst ` set ps \<inter> X = {}"
    and "foldE (\<lambda>(x, p). engine_add_request name x p sp None) ps e = Inr e'"
    and "\<And>i x p. (x, p) \<in> set ps \<Longrightarrow> servable (e_runner e) (mk_request i p (case sp of None \<Rightarrow> default_sampling_params | Some p \<Rightarrow> p))"
  shows "plain_inv (fst ` set ps \<union> X) e' \<and> e_runner e' = e_runner e
    \<and> (\<forall>y. y \<notin> fst ` set ps \<longrightarrow> s_objs (e_sched e') y = s_objs (e_sched e) y)
    \<and> (\<forall>(x, p) \<in> set ps. prompt_token_ids (s_objs (e_sched e') x) = p
         \<and> sampling_params (s_objs (e_sched e') x) = (case sp of None \<Rightarrow> default_sampling_params | Some p \<Rightarrow> p))"
  using assms
proof (induction ps arbitrary: e X)
  case Nil
  then show ?case by simp
next
  case (Cons z ps)
  obtain x p where z: "z = (x, p)" by (cases z)
  obtain e1 where e1: "engine_add_request name x p sp None e = Inr e1" "foldE (\<lambda>(x, p). engine_add_request name x p sp None) ps e1 = Inr e'"
    using Cons.prems(4) by (auto simp: z bindE_Inr_iff)
  have "x \<notin> X" using Cons.prems(3) by (simp add: z)
  note A = plain_arrival [OF Cons.prems(1) this e1(1) Cons.prems(5)]
  have mem: "(x, p) \<in> set (z # ps)" by (simp add: z)
  note B = A [OF mem]
  have sub: "distinct (map fst ps)" "fst ` set ps \<inter> insert x X = {}" "x \<notin> fst ` set ps" using Cons.prems(2,3) by (auto simp: z)
  have "servable (e_runner e1) (mk_request i q (case sp of None \<Rightarrow> default_sampling_params | Some p \<Rightarrow> p))" if "(y, q) \<in> set ps" for i y q
    using Cons.prems(5) [of y q i] that B(2) by simp
  from Cons.IH [OF B(1) sub(1,2) e1(2) this] have "plain_inv (fst ` set ps \<union> insert x X) e' \<and> e_runner e' = e_runner e1
    \<and> (\<forall>y. y \<notin> fst ` set ps \<longrightarrow> s_objs (e_sched e') y = s_objs (e_sched e1) y)
    \<and> (\<forall>(x, p) \<in> set ps. prompt_token_ids (s_objs (e_sched e') x) = p
         \<and> sampling_params (s_objs (e_sched e') x) = (case sp of None \<Rightarrow> default_sampling_params | Some p \<Rightarrow> p))" by simp
  then show ?case using B sub(3) by (auto simp: z)
qed

text \<open>The rotary rows of an even head size have that size.\<close>

lemma length_rope_inv_freq: "length (rope_inv_freq num c) = head_dim c div 2"
  by (simp add: rope_inv_freq_def Let_def split: option.split)

lemma rope_rows:
  assumes "even (head_dim c)"
  shows "list_all (\<lambda>(cs, sn). length cs = head_dim c \<and> length sn = head_dim c)
    (zip (fst (precompute_rope num (c\<lparr>max_seq_len := m\<rparr>))) (snd (precompute_rope num (c\<lparr>max_seq_len := m\<rparr>))))"
  using assms
  by (auto simp: precompute_rope_def Let_def list_all_iff zip_map_map zip_same_conv_map length_rope_inv_freq)

lemma plain_inv_init:
  assumes "cache_config_ok cc" "scheduler_config_ok sc" "\<not> enable_prefix_caching cc" "\<not> int8_kv cc"
    and fit: "weights_fit mc W" "0 < vocab_size mc" "length (layers W) \<le> n_layers mc" "even (head_dim mc)"
  shows "plain_inv {} (LLMEngine H num cc sc mc W mml None objs)"
proof -
  let ?e = "LLMEngine H num cc sc mc W mml None objs"
  have "sched_inv (Scheduler H cc sc objs)" by (rule sched_inv_init) (use assms in auto)
  moreover have "0 < length (embed_tokens W)" "length (hd (lm_head W)) \<le> length (embed_tokens W)"
    using fit(1,2) is_matrix_width [of "hidden_size mc" _ "lm_head W"] by (auto simp: weights_fit_def is_matrix_def)
  moreover have "runner_fits (e_runner ?e)"
    using fit(1,3) rope_rows [OF fit(4), of num]
    by (simp add: kv_fits_def mr_rope_def LLMEngine_def ModelRunner_def PagedKVCache_def Let_def split_def)
  moreover have "length (fst (precompute_rope num c)) = length (snd (precompute_rope num c))" for c :: "'a llama_config"
    by (simp add: precompute_rope_def Let_def)
  ultimately show ?thesis using assms
    by (simp add: plain_inv_def plain_core_def model_ok_def LLMEngine_def ModelRunner_def PagedKVCache_def Let_def split_def
        Scheduler_def BlockManager_def cache_config_ok_def)
qed

end
