(* ===== verification/Engine_Properties.thy ===== *)
theory Engine_Properties
  imports Engine_Refinement
begin

text \<open>
  Properties of the model runner and of the engine built on it, each with a concrete instance.
\<close>

subsection \<open>A tiny model\<close>

definition tiny_numerics :: "rat numerics" where
  "tiny_numerics = \<lparr>n_rsqrt = (\<lambda>x. 1), n_exp = (\<lambda>x. 1), n_cos = (\<lambda>x. 1), n_sin = (\<lambda>x. 0), n_pow = (\<lambda>x y. 1), n_pi = 3\<rparr>"

definition tiny_config :: "rat llama_config" where
  "tiny_config = \<lparr>vocab_size = 3, hidden_size = 4, intermediate_size = 1, n_layers = 1, n_heads = 1, head_dim = 4, max_seq_len = 8,
     num_kv_heads = 1, rope_theta = 1, rope_scaling = None, rms_eps = 0, lc_dtype = float32\<rparr>"

definition tiny_weights :: "rat llama_weights" where
  "tiny_weights = \<lparr>embed_tokens = [[1,0,0,0],[0,1,0,0],[0,0,1,0]],
     layers = [\<lparr>input_layernorm_weight = [1,1,1,1], q_proj = replicate 4 [1,0,0,0], k_proj = replicate 4 [1,0,0,0],
        v_proj = replicate 4 [0,0,1,0], o_proj = replicate 4 [0,0,0,0],
        post_attention_layernorm_weight = [1,1,1,1], gate_proj = replicate 4 [1], up_proj = replicate 4 [1], down_proj = [[0,0,0,0]]\<rparr>],
     norm_weight = [1,1,1,1], lm_head = [[0,1,0],[0,0,1],[1,0,0],[0,0,0]]\<rparr>"

definition tiny_engine :: "int \<Rightarrow> int \<Rightarrow> rat engine" where
  "tiny_engine blocks batch = LLMEngine (\<lambda>_ _. 0) tiny_numerics
     \<lparr>block_size = 2, num_gpu_blocks = blocks, watermark_blocks = 0, enable_prefix_caching = False, int8_kv = False\<rparr>
     \<lparr>max_num_seqs = 2, max_num_batched_tokens = batch, max_cache_hit_context_tokens = None\<rparr>
     tiny_config tiny_weights None None (\<lambda>_. mk_request [] [] default_sampling_params)"

text \<open>C1: batch generation is greedy decoding.  Started from an engine without prefix cache and drafts,
over a plain (not int8) KV cache that fits the model (\<open>plain_inv\<close>), with prompts it can serve (not
empty, in the vocabulary, with their output within the rotary table), and as long as requests
resumed after preemption are recomputed at once (\<open>run_whole\<close>), \<open>generate\<close> returns, one output per
prompt in the order given, and every output that ended by itself is the token sequence that
decoding its prompt alone with the dense forward pass gives: batching, chunked prefill, paging and
preemption change nothing.\<close>

theorem generate_is_greedy:
  assumes inv: "plain_inv X e" and addr: "distinct (map fst ps)" "fst ` set ps \<inter> X = {}"
    and ok: "\<And>i x p. (x, p) \<in> set ps \<Longrightarrow> servable (e_runner e) (mk_request i p (case sp of None \<Rightarrow> default_sampling_params | Some q \<Rightarrow> q))"
    and add: "foldE (\<lambda>(x, p). engine_add_request name x p sp None) ps e = Inr e1" and whole: "run_whole n e1"
  shows "\<exists>e' outs. generate name ps sp n e = Some (Inr (e', outs))
    \<and> list_all2 (\<lambda>(x, p) out. go_prompt_token_ids out = p
        \<and> (status_finished (go_finish_reason out) \<longrightarrow> go_output_token_ids out
             = (let q = (case sp of None \<Rightarrow> default_sampling_params | Some q \<Rightarrow> q)
                in greedy_decode (greedy_next (e_runner e)) q p (token_limit q) []))) ps outs"
proof -
  let ?q = "case sp of None \<Rightarrow> default_sampling_params | Some q \<Rightarrow> q"
  have "plain_inv (fst ` set ps \<union> X) e1 \<and> e_runner e1 = e_runner e
    \<and> (\<forall>y. y \<notin> fst ` set ps \<longrightarrow> s_objs (e_sched e1) y = s_objs (e_sched e) y)
    \<and> (\<forall>(x, p) \<in> set ps. prompt_token_ids (s_objs (e_sched e1) x) = p \<and> sampling_params (s_objs (e_sched e1) x) = ?q)"
    by (rule plain_arrivals [OF inv addr add]) (rule ok)
  then have A: "plain_inv (fst ` set ps \<union> X) e1" "e_runner e1 = e_runner e"
    "\<And>x p. (x, p) \<in> set ps \<Longrightarrow> prompt_token_ids (s_objs (e_sched e1) x) = p \<and> sampling_params (s_objs (e_sched e1) x) = ?q"
    by auto
  obtain e2 where e2: "run_steps n e1 = Some (Inr e2)" "plain_inv (fst ` set ps \<union> X) e2" "greedy_next (e_runner e2) = greedy_next (e_runner e1)"
    "\<forall>x. same_ask (s_objs (e_sched e1) x) (s_objs (e_sched e2) x)" using plain_run [OF A(1) whole] by blast
  let ?outs = "map (\<lambda>(x, _). generation_output_of (s_objs (e_sched e2) x)) ps"
  have "generate name ps sp n e = Some (Inr (e2, ?outs))" by (simp add: generate_def add e2(1))
  moreover have "go_prompt_token_ids (generation_output_of (s_objs (e_sched e2) x)) = p
      \<and> (status_finished (go_finish_reason (generation_output_of (s_objs (e_sched e2) x))) \<longrightarrow>
           go_output_token_ids (generation_output_of (s_objs (e_sched e2) x)) = greedy_decode (greedy_next (e_runner e)) ?q p (token_limit ?q) [])"
    if xp: "(x, p) \<in> set ps" for x p
  proof -
    have "x \<in> fst ` set ps \<union> X" using xp by force
    then have "served (greedy_next (e_runner e2)) (s_objs (e_sched e2) x)"
      using e2(2) unfolding plain_inv_def by (blast dest: plain_coreD(8))
    then show ?thesis using A(3) [OF xp] e2(3) e2(4) [rule_format, of x] A(2)
      by (auto simp: served_def is_finished_def greedy_output_def same_ask_def generation_output_of_def)
  qed
  then have "list_all2 (\<lambda>(x, p) out. go_prompt_token_ids out = p
        \<and> (status_finished (go_finish_reason out) \<longrightarrow> go_output_token_ids out = greedy_decode (greedy_next (e_runner e)) ?q p (token_limit ?q) [])) ps ?outs"
    by (auto simp: list_all2_map2 list_all2_same)
  ultimately show ?thesis by (auto simp: Let_def)
qed


definition tiny_params :: sampling_params where
  "tiny_params = \<lparr>max_tokens = 1, eos_token_id = None\<rparr>"

definition tiny_prompts :: "(rref \<times> int list) list" where
  "tiny_prompts = [(0, [0, 1, 2]), (1, [1])]"

lemma tiny_weights_fit: "weights_fit tiny_config tiny_weights" "0 < vocab_size tiny_config"
    "length (layers tiny_weights) \<le> n_layers tiny_config" "even (head_dim tiny_config)"
proof -
  show "weights_fit tiny_config tiny_weights"
    by (simp add: weights_fit_def layer_fits_def is_matrix_def tiny_weights_def tiny_config_def Let_def numeral_eq_Suc)
qed (simp_all add: tiny_weights_def tiny_config_def)

lemma tiny_engine_ok: "plain_inv {} (tiny_engine 4 8)"
  unfolding tiny_engine_def using tiny_weights_fit
  by (intro plain_inv_init) (simp_all add: cache_config_ok_def scheduler_config_ok_def)

lemma tiny_servable:
  assumes "(x, p) \<in> set tiny_prompts"
  shows "servable (e_runner (tiny_engine 4 8)) (mk_request i p tiny_params)"
proof -
  have "length (mr_cos (e_runner (tiny_engine 4 8))) = 8"
    by (simp add: tiny_engine_def LLMEngine_def ModelRunner_def precompute_rope_def Let_def tiny_config_def)
  moreover have "mr_weights (e_runner (tiny_engine 4 8)) = tiny_weights"
    by (simp add: tiny_engine_def LLMEngine_def ModelRunner_def Let_def split_def)
  ultimately show ?thesis using assms
    by (auto simp: servable_def mk_request_def all_token_ids_def in_vocab_def tiny_weights_def tiny_params_def token_limit_def tiny_prompts_def)
qed

definition tiny_start :: "rat engine or_raise" where
  "tiny_start = foldE (\<lambda>(x, p). engine_add_request (\<lambda>n. replicate n CHR ''r'') x p (Some tiny_params) None) tiny_prompts (tiny_engine 4 8)"

lemma tiny_started: "\<not> isl tiny_start" by code_simp

lemma tiny_whole: "whole_chunks (projr tiny_start)" by code_simp

theorem generate_is_greedy_witness:
  "\<exists>e' outs. generate (\<lambda>n. replicate n CHR ''r'') tiny_prompts (Some tiny_params) 1 (tiny_engine 4 8) = Some (Inr (e', outs))
    \<and> list_all2 (\<lambda>(x, p) out. go_prompt_token_ids out = p
        \<and> (status_finished (go_finish_reason out) \<longrightarrow> go_output_token_ids out
             = greedy_decode (greedy_next (e_runner (tiny_engine 4 8))) tiny_params p (token_limit tiny_params) [])) tiny_prompts outs"
proof -
  have start: "foldE (\<lambda>(x, p). engine_add_request (\<lambda>n. replicate n CHR ''r'') x p (Some tiny_params) None) tiny_prompts (tiny_engine 4 8)
      = Inr (projr tiny_start)"
    using tiny_started unfolding tiny_start_def by (cases "foldE (\<lambda>(x, p). engine_add_request (\<lambda>n. replicate n CHR ''r'') x p (Some tiny_params) None) tiny_prompts (tiny_engine 4 8)") simp_all
  have whole: "run_whole 1 (projr tiny_start)" using tiny_whole by (simp split: option.split sum.split)
  show ?thesis
    using generate_is_greedy [where sp = "Some tiny_params", OF tiny_engine_ok _ _ _ start whole] tiny_servable
    by (simp add: tiny_prompts_def)
qed

subsection \<open>Speculative verification\<close>

text \<open>The reference: the next \<open>n\<close> tokens of greedy decoding, one at a time.\<close>

fun greedy_tokens :: "(int list \<Rightarrow> int) \<Rightarrow> int list \<Rightarrow> nat \<Rightarrow> int list" where
  "greedy_tokens f ts 0 = []"
| "greedy_tokens f ts (Suc n) = f ts # greedy_tokens f (ts @ [f ts]) n"

lemma length_greedy_tokens [simp]: "length (greedy_tokens f ts n) = n"
  by (induction n arbitrary: ts) auto

lemma greedy_tokens_snoc: "greedy_tokens f ts (Suc n) = greedy_tokens f ts n @ [f (ts @ greedy_tokens f ts n)]"
proof (induction n arbitrary: ts)
  case (Suc n)
  show ?case by (subst greedy_tokens.simps(2), subst Suc.IH) simp
qed simp

lemma take_greedy_tokens: "j \<le> n \<Longrightarrow> take j (greedy_tokens f ts n) = greedy_tokens f ts j"
  by (induction n arbitrary: ts j) (auto simp: take_Cons split: nat.split)

lemma accept_reject_Cons:
  "rows \<noteq> [] \<Longrightarrow> accept_reject (x # d) (t # rows) = (if x \<noteq> t then [t] else t # accept_reject d rows)"
  by (auto simp: accept_reject_def split: prod.splits)

lemma accept_reject_greedy:
  "\<exists>m \<le> length d. accept_reject d (map (\<lambda>i. f (ts @ take i d)) [0..<Suc (length d)]) = greedy_tokens f ts (Suc m)
     \<and> take m d = greedy_tokens f ts m \<and> (m < length d \<longrightarrow> d ! m \<noteq> f (ts @ take m d))"
proof (induction d arbitrary: ts)
  case Nil
  then show ?case by (simp add: accept_reject_def)
next
  case (Cons x d)
  have rows: "map (\<lambda>i. f (ts @ take i (x # d))) [0..<Suc (length (x # d))]
      = f ts # map (\<lambda>i. f ((ts @ [x]) @ take i d)) [0..<Suc (length d)]"
    by (subst upt_rec) (simp add: map_Suc_upt [symmetric] del: upt_Suc)
  show ?case
  proof (cases "x = f ts")
    case False
    then show ?thesis unfolding rows by (intro exI [of _ 0]) (simp add: accept_reject_Cons)
  next
    case True
    obtain m where "m \<le> length d" "accept_reject d (map (\<lambda>i. f ((ts @ [x]) @ take i d)) [0..<Suc (length d)]) = greedy_tokens f (ts @ [x]) (Suc m)"
      "take m d = greedy_tokens f (ts @ [x]) m" "m < length d \<longrightarrow> d ! m \<noteq> f ((ts @ [x]) @ take m d)"
      using Cons.IH [of "ts @ [x]"] by blast
    then show ?thesis unfolding rows using True by (intro exI [of _ "Suc m"]) (simp add: accept_reject_Cons del: upt_Suc)
  qed
qed

text \<open>C4: speculative verification is greedy decoding, faster.  Over a plain (not int8) cache that
fits the model, when one pass verifies a request's drafts, the tokens committed are exactly the next
ones greedy decoding with the target model would produce: those of the longest prefix of the drafts
that greedy decoding agrees with, and one more, the model's own token at the first draft it rejects
or behind the last one.\<close>

theorem speculative_commits_greedy:
  assumes ok: "scheduled_ok mr (r, n)" and d: "draft_token_ids r \<noteq> []" and i8: "\<not> kv_int8 (mr_kv mr)"
    and fit: "runner_fits mr"
    and sin: "length (mr_sin mr) = length (mr_cos mr)" and ready: "kv_ready mr (mr_kv mr) r (num_computed_tokens r - n)"
  shows "\<exists>mr' r' m. execute_model mr [(r, n)] = Inr (mr', [r']) \<and> m \<le> length (draft_token_ids r)
    \<and> output_token_ids r' = output_token_ids r @ greedy_tokens (greedy_next mr) (all_token_ids r) (Suc m)
    \<and> take m (draft_token_ids r) = greedy_tokens (greedy_next mr) (all_token_ids r) m
    \<and> (m < length (draft_token_ids r) \<longrightarrow>
         draft_token_ids r ! m \<noteq> greedy_next mr (all_token_ids r @ take m (draft_token_ids r)))"
proof -
  obtain kv' where ex: "execute_model mr [(r, n)] = Inr (mr\<lparr>mr_kv := kv'\<rparr>, [commit_greedy mr r])"
    using execute_model_dense [of "[(r, n)]" mr] ok i8 sin fit ready by (auto simp: tables_apart_def)
  obtain m where m: "m \<le> length (draft_token_ids r)"
    "accept_reject (draft_token_ids r) (map (\<lambda>i. greedy_next mr (all_token_ids r @ take i (draft_token_ids r))) [0..<Suc (length (draft_token_ids r))])
      = greedy_tokens (greedy_next mr) (all_token_ids r) (Suc m)"
    "take m (draft_token_ids r) = greedy_tokens (greedy_next mr) (all_token_ids r) m"
    "m < length (draft_token_ids r) \<longrightarrow> draft_token_ids r ! m \<noteq> greedy_next mr (all_token_ids r @ take m (draft_token_ids r))"
    using accept_reject_greedy [of "draft_token_ids r" "greedy_next mr" "all_token_ids r"] by blast
  have "\<not> is_prefill r" using ok d by (auto simp: scheduled_ok_def is_prefill_def get_len_def)
  then have "output_token_ids (commit_greedy mr r) = output_token_ids r @ greedy_tokens (greedy_next mr) (all_token_ids r) (Suc m)"
    using d m(2) by (simp add: commit_greedy_def del: upt_Suc greedy_tokens.simps)
  then show ?thesis using ex m by blast
qed

text \<open>The engine's correction after the pass.\<close>

lemma served_cong:
  assumes "is_finished r' = is_finished r" "output_token_ids r' = output_token_ids r" "prompt_token_ids r' = prompt_token_ids r"
    "sampling_params r' = sampling_params r"
  shows "served f r' = served f r"
  using assms by (simp add: served_def greedy_output_def)

lemma served_tokens:
  assumes "served f r" "status r = RUNNING"
    and "\<forall>i < j. \<not> stops_at (sampling_params r) (output_token_ids r @ greedy_tokens f (all_token_ids r) (Suc i))"
  shows "served f (r\<lparr>output_token_ids := output_token_ids r @ greedy_tokens f (all_token_ids r) j\<rparr>)"
  using assms(3)
proof (induction j)
  case 0
  then show ?case using assms(1) by simp
next
  case (Suc j)
  let ?r = "r\<lparr>output_token_ids := output_token_ids r @ greedy_tokens f (all_token_ids r) j\<rparr>"
  let ?r1 = "?r\<lparr>output_token_ids := output_token_ids ?r @ [f (prompt_token_ids ?r @ output_token_ids ?r)]\<rparr>"
  have "served f ?r" using Suc by simp
  then have "served f (maybe_finish ?r1)" by (rule served_commit) (simp add: assms(2))
  moreover have toks: "output_token_ids ?r1 = output_token_ids r @ greedy_tokens f (all_token_ids r) (Suc j)"
    by (simp add: greedy_tokens_snoc all_token_ids_def del: greedy_tokens.simps)
  moreover have "\<not> stops_at (sampling_params ?r1) (output_token_ids ?r1)" unfolding toks using Suc.prems by simp
  then have "is_finished (maybe_finish ?r1) = is_finished (r\<lparr>output_token_ids := output_token_ids r @ greedy_tokens f (all_token_ids r) (Suc j)\<rparr>)"
    unfolding maybe_finish_finished_iff by (simp add: is_finished_def)
  ultimately show ?case by (subst served_cong [of _ "maybe_finish ?r1"]) simp_all
qed

text \<open>Where the first stop is.\<close>

lemma first_stop_None:
  "first_stop eos mx pre i ts = None \<longleftrightarrow> (\<forall>j < length ts. Some (ts ! j) \<noteq> eos \<and> \<not> mx \<le> pre + int (i + j) + 1)"
proof (induction ts arbitrary: i)
  case (Cons t ts)
  show ?case unfolding first_stop.simps length_Cons All_less_Suc2 nth_Cons_0 nth_Cons_Suc using Cons [of "Suc i"] by simp
qed simp

lemma first_stop_Some:
  "first_stop eos mx pre i ts = Some k \<Longrightarrow> i \<le> k \<and> k - i < length ts \<and> (Some (ts ! (k - i)) = eos \<or> mx \<le> pre + int k + 1)
     \<and> (\<forall>j < k - i. Some (ts ! j) \<noteq> eos \<and> \<not> mx \<le> pre + int (i + j) + 1)"
proof (induction ts arbitrary: i)
  case (Cons t ts)
  show ?case
  proof (cases "Some t = eos \<or> mx \<le> pre + int i + 1")
    case True
    then show ?thesis using Cons.prems by auto
  next
    case False
    then have "first_stop eos mx pre (Suc i) ts = Some k" using Cons.prems by (simp split: if_splits)
    from Cons.IH [OF this] have H: "Suc i \<le> k" "k - Suc i < length ts" "Some (ts ! (k - Suc i)) = eos \<or> mx \<le> pre + int k + 1"
      "\<forall>j < k - Suc i. Some (ts ! j) \<noteq> eos \<and> \<not> mx \<le> pre + int (Suc i + j) + 1" by auto
    have e: "k - i = Suc (k - Suc i)" using H(1) by simp
    show ?thesis unfolding e length_Cons All_less_Suc2 nth_Cons_0 nth_Cons_Suc using H False by auto
  qed
qed simp

lemma stops_at_snoc: "stops_at sp (out @ [t]) \<longleftrightarrow> Some t = eos_token_id sp \<or> max_tokens sp \<le> int (length out) + 1"
  by (cases "eos_token_id sp") (auto simp: stops_at_def)

lemma stops_at_tokens:
  assumes "i < n"
  shows "stops_at sp (out @ greedy_tokens f ts (Suc i))
    \<longleftrightarrow> Some (greedy_tokens f ts n ! i) = eos_token_id sp \<or> max_tokens sp \<le> int (length out) + int i + 1"
proof -
  have "greedy_tokens f ts (Suc i) = take i (greedy_tokens f ts n) @ [greedy_tokens f ts n ! i]"
    using assms take_greedy_tokens [of "Suc i" n f ts] by (simp add: take_Suc_conv_app_nth del: greedy_tokens.simps)
  then show ?thesis using assms stops_at_snoc [of sp "out @ take i (greedy_tokens f ts n)"] by (simp add: min_def del: greedy_tokens.simps)
qed

text \<open>Greedy tokens appended to a running request: before a stop it is still served, at the first stop too.\<close>

lemma served_open_tokens:
  assumes "served f r" "status r = RUNNING" "\<forall>i < j. \<not> stops_at (sampling_params r) (output_token_ids r @ greedy_tokens f (all_token_ids r) (Suc i))"
    and "output_token_ids r' = output_token_ids r @ greedy_tokens f (all_token_ids r) j"
    and "prompt_token_ids r' = prompt_token_ids r" "sampling_params r' = sampling_params r" "\<not> is_finished r'"
  shows "served f r'"
proof -
  have "served f (r\<lparr>output_token_ids := output_token_ids r @ greedy_tokens f (all_token_ids r) j\<rparr>)"
    by (rule served_tokens [OF assms(1-3)])
  then show ?thesis
    by (subst served_cong [of _ "r\<lparr>output_token_ids := output_token_ids r @ greedy_tokens f (all_token_ids r) j\<rparr>"])
      (use assms in \<open>simp_all add: is_finished_def\<close>)
qed

lemma served_stopped_tokens:
  assumes "served f r" "status r = RUNNING" "\<forall>i < j. \<not> stops_at (sampling_params r) (output_token_ids r @ greedy_tokens f (all_token_ids r) (Suc i))"
    and "stops_at (sampling_params r) (output_token_ids r @ greedy_tokens f (all_token_ids r) (Suc j))"
    and r': "output_token_ids r' = output_token_ids r @ greedy_tokens f (all_token_ids r) (Suc j)"
      "prompt_token_ids r' = prompt_token_ids r" "sampling_params r' = sampling_params r" "is_finished r'"
  shows "served f r'"
proof -
  let ?rj = "r\<lparr>output_token_ids := output_token_ids r @ greedy_tokens f (all_token_ids r) j\<rparr>"
  let ?q = "maybe_finish (?rj\<lparr>output_token_ids := output_token_ids ?rj @ [f (prompt_token_ids ?rj @ output_token_ids ?rj)]\<rparr>)"
  have "served f ?q" by (rule served_commit [OF served_tokens [OF assms(1-3)]]) (simp add: assms(2))
  moreover have out: "output_token_ids ?q = output_token_ids r @ greedy_tokens f (all_token_ids r) (Suc j)"
    by (simp add: greedy_tokens_snoc all_token_ids_def del: greedy_tokens.simps)
  moreover have "is_finished ?q"
    unfolding maybe_finish_finished_iff using assms(4) out by (simp del: greedy_tokens.simps)
  ultimately show ?thesis by (subst served_cong [of _ ?q]) (use r' in \<open>simp_all del: greedy_tokens.simps\<close>)
qed

text \<open>Where the first stop among the committed tokens is, in terms of \<open>stops_at\<close>.\<close>

lemma first_stop_tokens:
  fixes r m f
  defines "stop \<equiv> first_stop (eos_token_id (sampling_params r)) (max_tokens (sampling_params r)) (int (length (output_token_ids r))) 0
    (greedy_tokens f (all_token_ids r) (Suc m))"
  defines "halts \<equiv> \<lambda>i. stops_at (sampling_params r) (output_token_ids r @ greedy_tokens f (all_token_ids r) (Suc i))"
  shows "stop = Some k \<Longrightarrow> k \<le> m \<and> halts k \<and> (\<forall>i < k. \<not> halts i)"
    and "stop = None \<Longrightarrow> \<forall>i \<le> m. \<not> halts i"
proof -
  let ?toks = "greedy_tokens f (all_token_ids r) (Suc m)" and ?sp = "sampling_params r"
  have len: "length ?toks = Suc m" by (rule length_greedy_tokens)
  have halts: "halts i \<longleftrightarrow> Some (?toks ! i) = eos_token_id ?sp \<or> max_tokens ?sp \<le> int (length (output_token_ids r)) + int (0 + i) + 1"
    if "i \<le> m" for i
    unfolding halts_def using that stops_at_tokens [of i "Suc m" ?sp "output_token_ids r" f "all_token_ids r"] by simp
  show "k \<le> m \<and> halts k \<and> (\<forall>i < k. \<not> halts i)" if "stop = Some k"
  proof -
    note F = first_stop_Some [OF that [unfolded stop_def]]
    have "k \<le> m" using F len by simp
    then show ?thesis using F halts by auto
  qed
  show "\<forall>i \<le> m. \<not> halts i" if "stop = None"
    using that len halts unfolding stop_def first_stop_None by (simp del: greedy_tokens.simps)
qed

text \<open>C19: a round of speculative decoding ends where greedy decoding would.  After the pass has
committed \<open>m + 1\<close> tokens of the greedy continuation, the engine's correction cuts them at the first
stop condition, so the request is again at a stage of greedy decoding its prompt (finished exactly
if that decoding stops there), its count of computed tokens is one less than its length, as after
an ordinary decode step, and no draft is left.\<close>

theorem speculative_round_served:
  assumes sv: "served f r" and st: "status r = RUNNING" and m: "m \<le> length (draft_token_ids r)"
    and n: "num_scheduled = int (length (draft_token_ids r)) + 1" and comp: "num_computed_tokens r = get_len r + int (length (draft_token_ids r))"
  shows "case trim_committed (int (length (output_token_ids r))) num_scheduled
        (maybe_finish (r\<lparr>output_token_ids := output_token_ids r @ greedy_tokens f (all_token_ids r) (Suc m)\<rparr>)) of (r', accepted) \<Rightarrow>
      served f r' \<and> (is_finished r' \<longleftrightarrow> stops_at (sampling_params r) (output_token_ids r'))
      \<and> (\<exists>j \<le> m. accepted = int j + 1 \<and> output_token_ids r' = output_token_ids r @ greedy_tokens f (all_token_ids r) (Suc j))
      \<and> num_computed_tokens r' = get_len r' - 1 \<and> draft_token_ids r' = []"
proof -
  let ?out = "output_token_ids r" and ?sp = "sampling_params r" and ?g = "greedy_tokens f (all_token_ids r)"
  let ?r1 = "maybe_finish (r\<lparr>output_token_ids := ?out @ ?g (Suc m)\<rparr>)"
  let ?stop = "first_stop (eos_token_id ?sp) (max_tokens ?sp) (int (length ?out)) 0 (?g (Suc m))"
  note stop = first_stop_tokens [of r f m]
  have fin1: "is_finished ?r1 \<longleftrightarrow> stops_at ?sp (?out @ ?g (Suc m))"
    unfolding maybe_finish_finished_iff using st by (simp add: is_finished_def)
  show ?thesis
  proof (cases "\<exists>k. ?stop = Some k \<and> k < m")
    case True
    then obtain k where k: "?stop = Some k" "k < m" by blast
    let ?r2 = "?r1\<lparr>output_token_ids := take (Suc (length ?out + k)) (?out @ ?g (Suc m)),
        status := (if Some (?g (Suc m) ! k) = eos_token_id ?sp then FINISHED_STOPPED else FINISHED_LENGTH_CAPPED),
        num_computed_tokens := num_computed_tokens r - (num_scheduled - (int k + 1)), draft_token_ids := []\<rparr>"
    have tk: "take (Suc (length ?out + k)) (?out @ ?g (Suc m)) = ?out @ ?g (Suc k)"
      using take_greedy_tokens [of "Suc k" "Suc m" f "all_token_ids r"] k(2) unfolding take_append by (simp del: greedy_tokens.simps)
    have tr: "trim_committed (int (length ?out)) num_scheduled ?r1 = (?r2, int k + 1)"
      using k by (simp add: trim_committed_def Let_def del: greedy_tokens.simps first_stop.simps)
    have "served f ?r2"
      by (rule served_stopped_tokens [OF sv st, of k]) (use stop(1) [OF k(1)] in \<open>simp_all add: is_finished_def tk del: greedy_tokens.simps take_append\<close>)
    then show ?thesis unfolding tr split_conv using stop(1) [OF k(1)] k(2) tk n comp
      by (auto simp: is_finished_def get_len_def simp del: greedy_tokens.simps take_append)
  next
    case False
    let ?r2 = "?r1\<lparr>num_computed_tokens := num_computed_tokens r - (num_scheduled - (int m + 1)), draft_token_ids := []\<rparr>"
    have le: "k = m" if "?stop = Some k" for k using stop(1) [OF that] False that by force
    have tr: "trim_committed (int (length ?out)) num_scheduled ?r1 = (?r2, int m + 1)"
      using le by (auto simp: trim_committed_def Let_def simp del: greedy_tokens.simps first_stop.simps split: option.split)
    have no: "\<forall>i < m. \<not> stops_at ?sp (?out @ ?g (Suc i))"
      using stop le by (cases ?stop) (auto simp del: greedy_tokens.simps first_stop.simps)
    have fin2: "is_finished ?r2 \<longleftrightarrow> stops_at ?sp (?out @ ?g (Suc m))" using fin1 by (simp add: is_finished_def del: greedy_tokens.simps)
    have "served f ?r2"
    proof (cases "stops_at ?sp (?out @ ?g (Suc m))")
      case True
      then show ?thesis by (intro served_stopped_tokens [OF sv st no]) (use fin2 in \<open>simp_all del: greedy_tokens.simps\<close>)
    next
      case False
      then have "\<forall>i < Suc m. \<not> stops_at ?sp (?out @ ?g (Suc i))" using no by (auto simp: less_Suc_eq)
      then show ?thesis by (rule served_open_tokens [OF sv st]) (use fin2 False in \<open>simp_all del: greedy_tokens.simps\<close>)
    qed
    then show ?thesis unfolding tr split_conv using fin2 n comp by (auto simp: get_len_def simp del: greedy_tokens.simps)
  qed
qed

definition tiny_runner :: "rat model_runner" where
  "tiny_runner = ModelRunner tiny_numerics tiny_config tiny_weights (PagedKVCache 2 4 False float32 1 1 4) None"

lemma tiny_runner_fits: "runner_fits tiny_runner"
  using tiny_weights_fit(1,3) rope_rows [OF tiny_weights_fit(4), of tiny_numerics]
  by (simp add: kv_fits_def mr_rope_def tiny_runner_def ModelRunner_def PagedKVCache_def tiny_config_def Let_def split_def)

lemma tiny_runner_simps:
  "length (mr_cos tiny_runner) = 8" "length (mr_sin tiny_runner) = 8" "mr_weights tiny_runner = tiny_weights"
  "\<not> kv_int8 (mr_kv tiny_runner)" "kv_block_size (mr_kv tiny_runner) = 2" "kv_num_blocks (mr_kv tiny_runner) = 4"
  "length (embed_tokens tiny_weights) = 3"
  by (simp_all add: tiny_runner_def ModelRunner_def precompute_rope_def PagedKVCache_def Let_def tiny_config_def tiny_weights_def)

text \<open>A request as it reaches the runner: \<open>prompt\<close> and \<open>drafts\<close> all scheduled, in blocks 0 and 1.\<close>

definition tiny_request :: "int list \<Rightarrow> int list \<Rightarrow> request" where
  "tiny_request prompt drafts = (mk_request ''r'' prompt \<lparr>max_tokens = 4, eos_token_id = None\<rparr>)
     \<lparr>draft_token_ids := drafts, status := RUNNING, block_table := [0, 1],
      num_computed_tokens := int (length prompt + length drafts)\<rparr>"

lemma tiny_scheduled:
  assumes "length prompt + length drafts \<le> 4" "prompt \<noteq> []" "drafts \<noteq> [] \<longrightarrow> length prompt = 1" "\<forall>t \<in> set prompt \<union> set drafts. 0 \<le> t \<and> nat t < 3"
  shows "scheduled_ok tiny_runner (tiny_request prompt drafts, int (length prompt + length drafts))"
  using assms by (auto simp: scheduled_ok_def tiny_request_def mk_request_def all_token_ids_def get_len_def covers_def tiny_runner_simps)

theorem speculative_commits_greedy_witness:
  "\<exists>mr' r' m. execute_model tiny_runner [(tiny_request [0] [1, 0], 3)] = Inr (mr', [r']) \<and> m \<le> 2
    \<and> output_token_ids r' = greedy_tokens (greedy_next tiny_runner) [0] (Suc m)
    \<and> take m [1, 0] = greedy_tokens (greedy_next tiny_runner) [0] m
    \<and> (m < 2 \<longrightarrow> [1, 0] ! m \<noteq> greedy_next tiny_runner ([0] @ take m [1, 0]))"
proof -
  have ok: "scheduled_ok tiny_runner (tiny_request [0] [1, 0], 3)" using tiny_scheduled [of "[0]" "[1, 0]"] by simp
  have r: "draft_token_ids (tiny_request [0] [1, 0]) = [1, 0]" "num_computed_tokens (tiny_request [0] [1, 0]) - 3 = 0"
    "output_token_ids (tiny_request [0] [1, 0]) = []" "all_token_ids (tiny_request [0] [1, 0]) = [0]"
    by (simp_all add: tiny_request_def mk_request_def all_token_ids_def)
  show ?thesis using speculative_commits_greedy [OF ok] r tiny_runner_fits
    by (simp add: tiny_runner_simps kv_ready_zero numeral_2_eq_2 del: greedy_tokens.simps)
qed

theorem speculative_round_served_witness:
  "case trim_committed 0 3 (maybe_finish ((tiny_request [0] [1, 0])\<lparr>output_token_ids := [1, 2]\<rparr>)) of (r', accepted) \<Rightarrow>
      served (\<lambda>ts. last ts + 1) r' \<and> num_computed_tokens r' = get_len r' - 1 \<and> draft_token_ids r' = []"
proof -
  let ?r = "tiny_request [0] [1, 0]" and ?f = "\<lambda>ts. last ts + 1 :: int"
  have "served ?f ?r" using served_new [of ?f "''r''" "[0]" "\<lparr>max_tokens = 4, eos_token_id = None\<rparr>"]
    by (subst served_cong [of _ "mk_request ''r'' [0] \<lparr>max_tokens = 4, eos_token_id = None\<rparr>"]) (simp_all add: tiny_request_def mk_request_def is_finished_def)
  moreover have "status ?r = RUNNING" "draft_token_ids ?r = [1, 0]" "num_computed_tokens ?r = get_len ?r + 2" "output_token_ids ?r = []"
    "all_token_ids ?r = [0]" by (simp_all add: tiny_request_def mk_request_def get_len_def all_token_ids_def)
  moreover have "greedy_tokens ?f [0] (Suc 1) = [1, 2]" by simp
  moreover obtain r' acc where "trim_committed 0 3 (maybe_finish (?r\<lparr>output_token_ids := [1, 2]\<rparr>)) = (r', acc)" by (rule prod.exhaust)
  ultimately show ?thesis using speculative_round_served [of ?f ?r 1 3] by (simp del: greedy_tokens.simps)
qed

text \<open>C5: the runner refines the dense forward pass.  Over a plain (not int8) cache with the model's
shape (a layer for every layer of the weights, its heads and head size), and for a batch of requests
whose blocks are disjoint and whose computed positions the cache holds, \<open>execute_model\<close>
returns, for each request in order, what the dense pass over that request's own tokens alone
prescribes, leaves the cache holding all their computed positions, and touches no row of any
block table that shares no block with the batch.  (An int8 cache returns rounded keys and values,
so its tokens can differ.)\<close>

theorem runner_matches_dense:
  assumes "\<forall>x \<in> set scheduled. scheduled_ok mr x" and "scheduled \<noteq> []" and "tables_apart (map fst scheduled)"
    and "\<not> kv_int8 (mr_kv mr)" and "length (mr_sin mr) = length (mr_cos mr)" and "runner_fits mr"
    and "\<forall>(r, n) \<in> set scheduled. kv_ready mr (mr_kv mr) r (num_computed_tokens r - n)"
  shows "\<exists>kv'. execute_model mr scheduled = Inr (mr\<lparr>mr_kv := kv'\<rparr>, map (\<lambda>(r, _). commit_greedy mr r) scheduled)
    \<and> (\<forall>(r, _) \<in> set scheduled. kv_ready mr kv' r (num_computed_tokens r))
    \<and> (\<forall>table l p. (\<forall>(r, _) \<in> set scheduled. set table \<inter> set (block_table r) = {}) \<longrightarrow> 0 \<le> p
        \<longrightarrow> p < int (length table) * kv_block_size (mr_kv mr)
        \<longrightarrow> k_row kv' l table p = k_row (mr_kv mr) l table p \<and> v_row kv' l table p = v_row (mr_kv mr) l table p)"
  using execute_model_dense [OF assms] by blast

theorem runner_matches_dense_witness:
  "\<exists>kv'. execute_model tiny_runner [(tiny_request [0, 1, 2] [], 3)] = Inr (tiny_runner\<lparr>mr_kv := kv'\<rparr>, [commit_greedy tiny_runner (tiny_request [0, 1, 2] [])])"
proof -
  have ok: "scheduled_ok tiny_runner (tiny_request [0, 1, 2] [], 3)" using tiny_scheduled [of "[0, 1, 2]" "[]"] by simp
  have "num_computed_tokens (tiny_request [0, 1, 2] []) - 3 = 0" by (simp add: tiny_request_def)
  then show ?thesis using runner_matches_dense [of "[(tiny_request [0, 1, 2] [], 3)]" tiny_runner] ok tiny_runner_fits
    by (auto simp: tables_apart_def tiny_runner_simps kv_ready_zero)
qed

text \<open>C39: why a resumed request must be recomputed in one chunk.  Over a plain cache that fits the model, a chunk that ends behind the
prompt but before the request's last token is sampled all the same, and the token appended is the
one predicted at the chunk's end, the position of a token the request already has.\<close>

theorem short_chunk_commits_early:
  assumes ok: "scheduled_ok mr (r, n)" and d: "draft_token_ids r = []" and i8: "\<not> kv_int8 (mr_kv mr)" and fit: "runner_fits mr"
    and sin: "length (mr_sin mr) = length (mr_cos mr)" and ready: "kv_ready mr (mr_kv mr) r (num_computed_tokens r - n)"
    and early: "int (length (prompt_token_ids r)) \<le> num_computed_tokens r" "num_computed_tokens r < get_len r"
  shows "\<exists>mr' r'. execute_model mr [(r, n)] = Inr (mr', [r'])
    \<and> output_token_ids r' = output_token_ids r @ [greedy_next mr (take (nat (num_computed_tokens r)) (all_token_ids r))]"
proof -
  obtain kv' where ex: "execute_model mr [(r, n)] = Inr (mr\<lparr>mr_kv := kv'\<rparr>, [commit_greedy mr r])"
    using execute_model_dense [of "[(r, n)]" mr] ok i8 sin fit ready by (auto simp: tables_apart_def)
  then show ?thesis using d early(1) by (simp add: commit_greedy_def is_prefill_def)
qed

theorem short_chunk_commits_early_witness:
  "\<exists>mr' r'. execute_model tiny_runner [((tiny_request [0] [])\<lparr>output_token_ids := [1, 2], num_computed_tokens := 2\<rparr>, 2)] = Inr (mr', [r'])
    \<and> output_token_ids r' = [1, 2, greedy_next tiny_runner [0, 1]]"
proof -
  let ?r = "(tiny_request [0] [])\<lparr>output_token_ids := [1, 2], num_computed_tokens := 2\<rparr>"
  have ok: "scheduled_ok tiny_runner (?r, 2)"
    by (auto simp: scheduled_ok_def tiny_request_def mk_request_def all_token_ids_def get_len_def covers_def tiny_runner_simps)
  show ?thesis using short_chunk_commits_early [OF ok] tiny_runner_fits
    by (simp add: tiny_request_def mk_request_def all_token_ids_def get_len_def tiny_runner_simps kv_ready_zero)
qed

subsection \<open>The draft model's shadow requests\<close>

lemma grow_shadow_covers:
  assumes "0 < bm_block_size bm" "grow_shadow bm shadow = Some (Inr (bm', sh'))"
  shows "num_blocks_needed sh' (bm_block_size bm') \<le> int (length (get_block_table bm' (request_id sh')))
    \<and> request_id sh' = request_id shadow \<and> get_len sh' = get_len shadow \<and> bm_block_size bm' = bm_block_size bm"
  using assms
proof (induction "nat (num_blocks_needed shadow (bm_block_size bm) - int (length (get_block_table bm (request_id shadow))))"
    arbitrary: bm shadow rule: less_induct)
  case less
  show ?case
  proof (cases "int (length (get_block_table bm (request_id shadow))) < num_blocks_needed shadow (bm_block_size bm)")
    case False
    then have "bm' = bm \<and> sh' = shadow" using less.prems(2) by (subst (asm) grow_shadow.simps) simp
    then show ?thesis using False by simp
  next
    case True
    then have need: "needs_new_block bm shadow"
      using num_blocks_needed_gt [OF less.prems(1)] by (simp add: needs_new_block_def)
    obtain bm1 sh1 where p: "append_slot bm shadow = Inr (bm1, sh1)" and rest: "grow_shadow bm1 sh1 = Some (Inr (bm', sh'))"
      using less.prems(2) True by (subst (asm) grow_shadow.simps) (auto split: sum.splits)
    note g = append_slot_grows [OF p need]
    have "nat (num_blocks_needed sh1 (bm_block_size bm1) - int (length (get_block_table bm1 (request_id sh1))))
        < nat (num_blocks_needed shadow (bm_block_size bm) - int (length (get_block_table bm (request_id shadow))))"
      using True g num_blocks_needed_cong [OF g(3)] by simp
    from less.hyps [OF this _ rest] less.prems(1) g show ?thesis by (auto simp del: num_blocks_needed_nonneg)
  qed
qed

text \<open>C36: growing a shadow request's table always ends.  The loop that appends one block at a time
until the table covers the request returns for every block manager; when it returns normally the
table covers every token, and nothing else about the request has changed.\<close>

theorem ensure_shadow_capacity_returns:
  assumes "0 < bm_block_size (dp_bm dp)"
  shows "\<exists>res. ensure_shadow_capacity dp shadow = Some res \<and> (\<forall>dp' sh'. res = Inr (dp', sh') \<longrightarrow>
      get_len sh' \<le> int (length (get_block_table (dp_bm dp') (request_id sh'))) * bm_block_size (dp_bm dp')
      \<and> request_id sh' = request_id shadow \<and> get_len sh' = get_len shadow \<and> dp_runner dp' = dp_runner dp)"
proof -
  obtain res where r: "grow_shadow (dp_bm dp) shadow = Some res" using grow_shadow_returns [OF assms] by blast
  have "get_len sh' \<le> int (length (get_block_table bm' (request_id sh'))) * bm_block_size bm'
      \<and> request_id sh' = request_id shadow \<and> get_len sh' = get_len shadow" if "res = Inr (bm', sh')" for bm' sh'
  proof -
    note g = grow_shadow_covers [OF assms r [unfolded that]]
    have "0 < bm_block_size bm'" using g assms by simp
    then show ?thesis using g num_blocks_needed_le_iff [of "bm_block_size bm'" sh' "int (length (get_block_table bm' (request_id sh')))"] by blast
  qed
  then show ?thesis using r by (cases res) (auto simp: ensure_shadow_capacity_def bindR_simps)
qed

text \<open>An instance: a shadow of five tokens whose table has one block of two grows by two blocks.\<close>

definition short_proposer :: "rat draft_proposer" where
  "short_proposer = (DraftProposer (\<lambda>_ _. 0) tiny_runner 2)
     \<lparr>dp_bm := \<lparr>bm_block_size = 2, bm_num_gpu_blocks = 4, bm_watermark_blocks = 0, bm_free = [1, 2, 3], bm_tables = [(''r'', [0])], bm_cache = None\<rparr>\<rparr>"

definition short_shadow :: request where
  "short_shadow = (tiny_request [0, 1, 2, 0, 1] [])\<lparr>block_table := [0]\<rparr>"

lemma short_shadow_grows:
  "case grow_shadow (dp_bm short_proposer) short_shadow of Some (Inr (bm, sh)) \<Rightarrow> length (get_block_table bm ''r'') = 3 | _ \<Rightarrow> False"
  by code_simp

theorem ensure_shadow_capacity_returns_witness:
  "\<exists>dp' sh'. ensure_shadow_capacity short_proposer short_shadow = Some (Inr (dp', sh'))
    \<and> 5 \<le> int (length (get_block_table (dp_bm dp') (request_id sh'))) * bm_block_size (dp_bm dp')"
proof -
  have "0 < bm_block_size (dp_bm short_proposer)" by (simp add: short_proposer_def)
  from ensure_shadow_capacity_returns [OF this, of short_shadow] obtain res where
    res: "ensure_shadow_capacity short_proposer short_shadow = Some res"
    "\<And>dp' sh'. res = Inr (dp', sh') \<Longrightarrow> get_len sh' \<le> int (length (get_block_table (dp_bm dp') (request_id sh'))) * bm_block_size (dp_bm dp')
      \<and> get_len sh' = get_len short_shadow" by blast
  have "\<not> isl res" using short_shadow_grows res(1)
    by (auto simp: ensure_shadow_capacity_def bindR_def split: option.splits sum.splits)
  then obtain dp' sh' where "res = Inr (dp', sh')" by (cases res) auto
  moreover have "get_len short_shadow = 5" by (simp add: short_shadow_def tiny_request_def mk_request_def get_len_def)
  ultimately show ?thesis using res by (metis prod.inject sum.inject(2))
qed

text \<open>What \<open>accept_reject\<close> keeps of the proposals, whatever the target's rows are.\<close>

lemma accept_reject_prefix:
  "length rows = Suc (length d) \<Longrightarrow> \<exists>m \<le> length d. accept_reject d rows = take m d @ [rows ! m]"
proof (induction d arbitrary: rows)
  case Nil
  then obtain t where "rows = [t]" by (cases rows) auto
  then show ?case by (simp add: accept_reject_def)
next
  case (Cons x d)
  then obtain t rows' where rows: "rows = t # rows'" "length rows' = Suc (length d)" by (cases rows) auto
  then have ne: "rows' \<noteq> []" by auto
  show ?case
  proof (cases "x = t")
    case False
    then show ?thesis by (intro exI [of _ 0]) (simp add: rows(1) accept_reject_Cons [OF ne])
  next
    case True
    obtain m where "m \<le> length d" "accept_reject d rows' = take m d @ [rows' ! m]" using Cons.IH [OF rows(2)] by blast
    then show ?thesis using True by (intro exI [of _ "Suc m"]) (simp add: rows(1) accept_reject_Cons [OF ne])
  qed
qed

text \<open>C20: rolling the draft model back is sound.  After a verify round, \<open>rollback\<close> and the resync of
the next proposal leave the shadow request with the committed tokens, at least one of them not yet
computed, and with a draft-side cache that is right for every position still counted as computed,
although the draft model computed those positions from its own proposals.\<close>

theorem rollback_keeps_shadow_ready:
  assumes sh: "map_of (dp_shadows dp) (request_id r) = Some sh" and k: "dp_num_speculative_tokens dp = int (length proposed)" "proposed \<noteq> []"
    and shadow: "prompt_token_ids sh = prompt_token_ids r" "output_token_ids sh = old @ proposed" "draft_token_ids sh = []"
      "num_computed_tokens sh = get_len sh - 1"
    and cap: "num_computed_tokens sh \<le> int (length (block_table sh)) * kv_block_size kv" "0 < kv_block_size kv"
    and ready: "kv_ready mr kv sh (num_computed_tokens sh)"
    and rows: "length rows = Suc (length proposed)" and committed: "output_token_ids r = old @ accept_reject proposed rows"
  shows "\<exists>dp' sh'. get_or_create_shadow (rollback (request_id r) (int (length (accept_reject proposed rows))) dp) r = Inr (dp', sh')
    \<and> all_token_ids sh' = all_token_ids r \<and> 0 < get_num_new_tokens sh' \<and> kv_ready mr kv sh' (num_computed_tokens sh')"
proof -
  obtain m where m: "m \<le> length proposed" "accept_reject proposed rows = take m proposed @ [rows ! m]"
    using accept_reject_prefix [OF rows] by blast
  let ?a = "int m + 1" and ?base = "int (length (prompt_token_ids r)) + int (length old)"
  let ?sh = "sh\<lparr>num_computed_tokens := num_computed_tokens sh - max 0 (dp_num_speculative_tokens dp - ?a), output_token_ids := output_token_ids r\<rparr>"
  let ?dp = "dp\<lparr>dp_shadows := AList.update (request_id r) (sh\<lparr>num_computed_tokens := num_computed_tokens sh
      - max 0 (dp_num_speculative_tokens dp - ?a)\<rparr>) (dp_shadows dp)\<rparr>"
  have len: "int (length (accept_reject proposed rows)) = ?a" using m by simp
  have "rollback (request_id r) (int (length (accept_reject proposed rows))) dp = ?dp"
    unfolding len by (simp add: rollback_def sh)
  then have get: "get_or_create_shadow (rollback (request_id r) (int (length (accept_reject proposed rows))) dp) r
      = Inr (?dp\<lparr>dp_shadows := AList.update (request_id r) ?sh (dp_shadows ?dp)\<rparr>, ?sh)"
    by (simp add: get_or_create_shadow_def update_conv' Let_def)
  have num: "num_computed_tokens sh = ?base + int (length proposed) - 1"
    using shadow by (simp add: get_len_def)
  have num': "num_computed_tokens ?sh = ?base + min (int (length proposed) - 1) (int m)"
    using num k(1) m(1) by (simp add: max_def min_def)
  have rout: "output_token_ids r = old @ take m proposed @ [rows ! m]" using committed m(2) by simp
  have len': "get_len ?sh = ?base + int m + 1" using m(1) shadow(1) by (simp add: get_len_def rout)
  have base: "length (prompt_token_ids r @ old) = nat ?base" by simp
  have "kv_ready mr kv ?sh (num_computed_tokens ?sh)"
  proof (rule kv_ready_extend [where r = sh])
    show "kv_ready mr kv sh (num_computed_tokens ?sh)"
      using ready unfolding num num' by (auto simp: kv_ready_def kv_holds_def)
    show "num_computed_tokens ?sh \<le> int (length (block_table sh)) * kv_block_size kv"
      using cap(1) num num' m(1) by simp
    show "\<forall>j < nat (num_computed_tokens ?sh). (all_token_ids sh @ draft_token_ids sh) ! j = (all_token_ids ?sh @ draft_token_ids ?sh) ! j"
    proof (intro allI impI)
      fix j assume j: "j < nat (num_computed_tokens ?sh)"
      have a: "all_token_ids sh = (prompt_token_ids r @ old) @ proposed" "all_token_ids ?sh = (prompt_token_ids r @ old) @ take m proposed @ [rows ! m]"
        using shadow rout by (simp_all add: all_token_ids_def)
      have jm: "j < length (prompt_token_ids r @ old) + m" using j unfolding num' base by linarith
      then show "(all_token_ids sh @ draft_token_ids sh) ! j = (all_token_ids ?sh @ draft_token_ids ?sh) ! j"
        unfolding a using shadow(3) m(1) by (auto simp: nth_append)
    qed
  qed (use cap(2) in simp_all)
  moreover have "0 < get_num_new_tokens ?sh" using num' len' by (simp add: get_num_new_tokens_def)
  moreover have "all_token_ids ?sh = all_token_ids r" using shadow(1) by (simp add: all_token_ids_def)
  ultimately show ?thesis using get by blast
qed

theorem rollback_keeps_shadow_ready_witness:
  "\<exists>dp' sh'. get_or_create_shadow (rollback ''r'' 2 ((DraftProposer (\<lambda>_ _. 0) tiny_runner 2)
        \<lparr>dp_shadows := [(''r'', (tiny_request [0] [])\<lparr>output_token_ids := [1, 2], num_computed_tokens := 2\<rparr>)]\<rparr>))
      ((tiny_request [0] [])\<lparr>output_token_ids := [1, 0]\<rparr>) = Inr (dp', sh')
    \<and> all_token_ids sh' = [0, 1, 0] \<and> 0 < get_num_new_tokens sh'"
proof -
  let ?sh = "(tiny_request [0] [])\<lparr>output_token_ids := [1, 2], num_computed_tokens := 2\<rparr>"
  let ?dp = "(DraftProposer (\<lambda>_ _. 0) tiny_runner 2)\<lparr>dp_shadows := [(''r'', ?sh)]\<rparr>"
  have ok: "scheduled_ok tiny_runner (?sh, 2)"
    by (auto simp: scheduled_ok_def tiny_request_def mk_request_def all_token_ids_def get_len_def covers_def tiny_runner_simps)
  obtain kv where ready: "kv_ready tiny_runner kv ?sh 2" "kv_block_size kv = 2"
    using execute_model_dense [of "[(?sh, 2)]" tiny_runner] ok tiny_runner_fits by (auto simp: tables_apart_def tiny_runner_simps kv_ready_zero)
  have acc: "accept_reject [1, 2] [1, 0, 0] = [1, 0]" by (simp add: accept_reject_def)
  show ?thesis
    using rollback_keeps_shadow_ready [of ?dp "(tiny_request [0] [])\<lparr>output_token_ids := [1, 0]\<rparr>" ?sh "[1, 2]" "[]" kv tiny_runner "[1, 0, 0]"] ready acc
    by (auto simp: tiny_request_def mk_request_def get_len_def all_token_ids_def DraftProposer_def tiny_runner_simps Let_def)
qed

end
