(* ===== verification/PD_Properties.thy ===== *)
theory PD_Properties
  imports Scheduler_Properties Engine_Properties
begin

text \<open>
  Disaggregated generation, of \<^verbatim>\<open>model/pd_disaggregation.py\<close>: the prefill loop on an otherwise idle
  engine returns with the prompt computed and its first token committed, and the exported rows
  resumed on a second engine continue greedy decoding.
\<close>

subsection \<open>Resuming a handed-over request\<close>

lemma import_layers_frame:
  assumes "foldE (import_layer r b) ls c = Inr c'" "bundle_ok b" "\<forall>l \<in> set ls. l < length (kb_k b)" "covers c r (int (kb_seq_len b))"
  shows "kv_num_blocks c' = kv_num_blocks c \<and> kv_block_size c' = kv_block_size c \<and> kv_n_layers c' = kv_n_layers c
    \<and> kv_num_heads c' = kv_num_heads c \<and> kv_head_dim c' = kv_head_dim c
    \<and> (\<forall>l table p. set table \<inter> set (block_table r) = {} \<longrightarrow> 0 \<le> p \<longrightarrow> p < int (length table) * kv_block_size c
        \<longrightarrow> k_row c' l table p = k_row c l table p \<and> v_row c' l table p = v_row c l table p)"
  using assms
proof (induction ls arbitrary: c)
  case (Cons m ls)
  obtain c1 where w: "kv_write m r 0 (kb_k b ! m) (kb_v b ! m) c = Inr c1" and rest: "foldE (import_layer r b) ls c1 = Inr c'"
    using Cons.prems(1) by (auto simp: bindE_Inr_iff import_layer_def [of r b m])
  note sh = kv_write_shape [OF w]
  have len: "0 + int (length (kb_k b ! m)) \<le> int (kb_seq_len b)"
    using Cons.prems(2,3) by (auto simp: bundle_ok_def)
  have "covers c1 r (int (kb_seq_len b))" using Cons.prems(4) sh(8) by simp
  from Cons.IH [OF rest Cons.prems(2) _ this] Cons.prems(3) have ih: "kv_num_blocks c' = kv_num_blocks c1" "kv_block_size c' = kv_block_size c1"
    "kv_n_layers c' = kv_n_layers c1" "kv_num_heads c' = kv_num_heads c1" "kv_head_dim c' = kv_head_dim c1"
    "\<forall>l table p. set table \<inter> set (block_table r) = {} \<longrightarrow> 0 \<le> p \<longrightarrow> p < int (length table) * kv_block_size c1
        \<longrightarrow> k_row c' l table p = k_row c1 l table p \<and> v_row c' l table p = v_row c1 l table p" by auto
  have "k_row c1 l table p = k_row c l table p \<and> v_row c1 l table p = v_row c l table p"
    if "set table \<inter> set (block_table r) = {}" "0 \<le> p" "p < int (length table) * kv_block_size c" for l table p
    using kv_write_disjoint [OF w Cons.prems(4) _ len that, of l] by simp
  then show ?case using ih sh(1,2,4-6) by auto
qed simp

lemma import_frame:
  assumes "import_request_kv r b c = Inr c'" "bundle_ok b" "covers c r (int (kb_seq_len b))"
  shows "kv_num_blocks c' = kv_num_blocks c" "kv_n_layers c' = kv_n_layers c" "kv_num_heads c' = kv_num_heads c" "kv_head_dim c' = kv_head_dim c"
    "\<And>l table p. set table \<inter> set (block_table r) = {} \<Longrightarrow> 0 \<le> p \<Longrightarrow> p < int (length table) * kv_block_size c
        \<Longrightarrow> k_row c' l table p = k_row c l table p \<and> v_row c' l table p = v_row c l table p"
proof -
  have "foldE (import_layer r b) [0..<kv_n_layers c] c = Inr c'" "length (kb_k b) = kv_n_layers c"
    using assms(1) by (auto simp: import_request_kv_def import_layer_def [abs_def] split: if_splits)
  then have "kv_num_blocks c' = kv_num_blocks c \<and> kv_block_size c' = kv_block_size c \<and> kv_n_layers c' = kv_n_layers c
    \<and> kv_num_heads c' = kv_num_heads c \<and> kv_head_dim c' = kv_head_dim c
    \<and> (\<forall>l table p. set table \<inter> set (block_table r) = {} \<longrightarrow> 0 \<le> p \<longrightarrow> p < int (length table) * kv_block_size c
        \<longrightarrow> k_row c' l table p = k_row c l table p \<and> v_row c' l table p = v_row c l table p)"
    by (intro import_layers_frame [OF _ assms(2) _ assms(3)]) auto
  then show "kv_num_blocks c' = kv_num_blocks c" "kv_n_layers c' = kv_n_layers c" "kv_num_heads c' = kv_num_heads c" "kv_head_dim c' = kv_head_dim c"
    "\<And>l table p. set table \<inter> set (block_table r) = {} \<Longrightarrow> 0 \<le> p \<Longrightarrow> p < int (length table) * kv_block_size c
        \<Longrightarrow> k_row c' l table p = k_row c l table p \<and> v_row c' l table p = v_row c l table p" by blast+
qed

lemma core_inv_queue_front:
  assumes "core_inv s R (W @ [x])" shows "core_inv s R (x # W)"
  using assms by (simp add: core_inv_def insert_commute)

lemma num_blocks_needed_status: "num_blocks_needed (r\<lparr>status := st\<rparr>) = num_blocks_needed r"
  by (simp add: fun_eq_iff num_blocks_needed_def get_len_def)

lemma allocate_status:
  assumes "bm_cache bm = None"
  shows "allocate bm (r\<lparr>status := st\<rparr>) None = bindE (allocate bm r None) (\<lambda>(bm', r'). Inr (bm', r'\<lparr>status := st\<rparr>))"
  using assms by (simp add: allocate_def num_blocks_needed_status Let_def split: prod.split)

text \<open>Admitting a request that arrives with its prompt already computed elsewhere.\<close>

lemma resume_admits:
  assumes inv: "sched_inv s" and none: "bm_cache (s_bm s) = None" and x: "x \<notin> set (s_running s @ s_waiting s)"
    and new: "map_of (s_requests s) (request_id r) = None"
    and r: "status r = RUNNING" "num_computed_tokens r = 0" "block_table r = []" "cached_prefix_nodes r = []"
      "get_len r = int (length (prompt_token_ids r)) + 1" "prompt_token_ids r \<noteq> []"
    and seat: "int (length (s_running s)) < max_num_seqs (s_config s)" and room: "can_allocate (s_bm s) r None"
  obtains bm r1 where "allocate (s_bm s) r None = Inr (bm, r1)"
    "sched_inv (s\<lparr>s_bm := bm, s_objs := (s_objs s)(x := r1\<lparr>num_computed_tokens := int (length (prompt_token_ids r))\<rparr>),
        s_requests := AList.update (request_id r) x (s_requests s), s_running := s_running s @ [x]\<rparr>)"
    "bm_cache bm = None" "bm_block_size bm = bm_block_size (s_bm s)" "bm_num_gpu_blocks bm = bm_num_gpu_blocks (s_bm s)"
    "r1 = r\<lparr>block_table := block_table r1\<rparr>" "get_len r \<le> int (length (block_table r1)) * bm_block_size (s_bm s)"
proof -
  have core: "core_inv s (s_running s) (s_waiting s)" and cfg: "scheduler_config_ok (s_config s)" using inv by (auto simp: sched_inv_def)
  let ?w = "r\<lparr>status := WAITING\<rparr>"
  let ?s0 = "s\<lparr>s_objs := (s_objs s)(x := r)\<rparr>"
  let ?s1 = "s\<lparr>s_objs := (s_objs s)(x := ?w), s_requests := s_requests s @ [(request_id r, x)], s_waiting := s_waiting s @ [x]\<rparr>"
  have inv0: "sched_inv ?s0" using core_inv_fresh_obj [OF core x] cfg by (simp add: sched_inv_def)
  have add: "add_request x ?s0 = Inr ?s1" using new by (simp add: add_request_def upd_req_def alist_update_fresh Let_def)
  have "sched_inv ?s1" by (rule add_request_inv [OF inv0 _ _ add]) (use x r in \<open>simp_all add: waiting_ok_def\<close>)
  then have "core_inv ?s1 (s_running s) (s_waiting s @ [x])" by (simp add: sched_inv_def)
  then have core1: "core_inv ?s1 (s_running s) (x # s_waiting s)" by (rule core_inv_queue_front)
  have m: "None = match_prefix (s_bm ?s1) (prompt_token_ids (s_objs ?s1 x))" using none by (simp add: match_prefix_def)
  let ?n = "int (length (prompt_token_ids r))"
  have adm: "admissible x None ?n 0 ?s1"
    using seat room r(6) by (simp add: admissible_def matched_tokens_def can_allocate_def num_blocks_needed_status)
  from admit_core [OF core1 m adm] none obtain s1 s2 chunk tb nodes c where
    s1: "with_bm (\<lambda>bm r. allocate bm r None) x ?s1 = Inr s1" and s2: "start_request x None ?n s1 = (s2, chunk)"
    and core2: "core_inv s2 (s_running s @ [x]) (s_waiting s)"
    and flds: "s_config s2 = s_config ?s1" "bm_cache (s_bm s2) = None" "bm_block_size (s_bm s2) = bm_block_size (s_bm s)"
      "bm_num_gpu_blocks (s_bm s2) = bm_num_gpu_blocks (s_bm s)"
    and objs: "s_objs s2 = (s_objs ?s1)(x := (s_objs ?s1 x)\<lparr>status := RUNNING, num_computed_tokens := c + chunk, block_table := tb, cached_prefix_nodes := nodes\<rparr>)"
    and c: "c = 0" and cap: "get_len (s_objs ?s1 x) \<le> int (length tb) * bm_block_size (s_bm ?s1)"
    by auto
  obtain bm rw where w: "allocate (s_bm s) ?w None = Inr (bm, rw)" "s1 = set_obj x rw bm ?s1" using s1 by (auto simp: with_bm_Inr)
  obtain r1 where al: "allocate (s_bm s) r None = Inr (bm, r1)" "rw = r1\<lparr>status := WAITING\<rparr>"
    using w(1) by (auto simp: allocate_status [OF none] bindE_Inr_iff)
  have tab: "r1 = r\<lparr>block_table := block_table r1\<rparr>"
    using al(1) none r(4) by (auto simp: allocate_def Let_def matched_blocks_def split: if_splits prod.splits)
  then obtain t where t: "r1 = r\<lparr>block_table := t\<rparr>" by blast
  have fields: "num_computed_tokens r1 = 0" "get_len r1 = ?n + 1" "status r1 = RUNNING" "request_id r1 = request_id r" "prompt_token_ids r1 = prompt_token_ids r"
    using r(1,2,5) by (simp_all add: t get_len_def)
  have run: "r\<lparr>block_table := t, status := RUNNING, num_computed_tokens := n\<rparr> = r\<lparr>block_table := t, num_computed_tokens := n\<rparr>" for n
    using r(1) by (cases r) simp
  have s2': "s2 = ?s1\<lparr>s_bm := bm, s_objs := (s_objs s)(x := r1\<lparr>num_computed_tokens := ?n\<rparr>), s_running := s_running s @ [x]\<rparr>"
    using s2 r(1,2,5) unfolding w(2)
    by (auto simp: start_request_def set_obj_def upd_req_def Let_def al(2) t run get_num_new_tokens_def get_len_def)
  let ?r2 = "r1\<lparr>num_computed_tokens := ?n\<rparr>"
  let ?s3 = "s\<lparr>s_bm := bm, s_objs := (s_objs s)(x := ?r2), s_requests := AList.update (request_id r) x (s_requests s), s_running := s_running s @ [x]\<rparr>"
  have "?s3 = s2\<lparr>s_waiting := s_waiting s\<rparr>" unfolding s2' using new by (simp add: alist_update_fresh)
  moreover have "s_running s2 = s_running s @ [x]" by (simp add: s2')
  ultimately have inv3: "sched_inv ?s3" using core2 cfg flds(1) by (simp add: sched_inv_def core_inv_waiting_irrelevant)
  have "bm_cache bm = None" "bm_block_size bm = bm_block_size (s_bm s)" "bm_num_gpu_blocks bm = bm_num_gpu_blocks (s_bm s)"
    using flds by (simp_all add: s2')
  moreover have "get_len r \<le> int (length (block_table r1)) * bm_block_size (s_bm s)"
  proof -
    have "block_table (s_objs s2 x) = tb" by (simp add: objs)
    moreover have "block_table (s_objs s2 x) = block_table r1" by (simp add: s2')
    ultimately have "tb = block_table r1" by simp
    then show ?thesis using cap by (simp add: get_len_def)
  qed
  ultimately show ?thesis using that [OF al(1) inv3] tab by blast
qed

text \<open>The request \<open>resume_decode\<close> builds.\<close>

definition resumed_request :: "'a prefill_handoff \<Rightarrow> request" where
  "resumed_request h = (mk_request (ph_request_id h) (ph_prompt_token_ids h) (ph_sampling_params h))
     \<lparr>output_token_ids := [ph_first_token_id h], status := RUNNING\<rparr>"

text \<open>A handoff is right for a model: its bundle holds the dense rows of the prompt, and its first
token is a stage of greedy decoding.\<close>

definition handoff_ok :: "'a::floor_ceiling model_runner \<Rightarrow> 'a prefill_handoff \<Rightarrow> bool" where
  "handoff_ok mr h \<longleftrightarrow> servable mr (resumed_request h) \<and> served (greedy_next mr) (resumed_request h)
     \<and> bundle_ok (ph_kv h) \<and> kb_seq_len (ph_kv h) = length (ph_prompt_token_ids h)
     \<and> kb_dtype (ph_kv h) = kv_compute_dtype (mr_kv mr) \<and> kb_heads (ph_kv h) = kv_num_heads (mr_kv mr)
     \<and> kb_head_dim (ph_kv h) = kv_head_dim (mr_kv mr) \<and> length (kb_k (ph_kv h)) = kv_n_layers (mr_kv mr)
     \<and> (\<forall>l < kv_n_layers (mr_kv mr). \<forall>j < length (ph_prompt_token_ids h).
          kb_k (ph_kv h) ! l ! j = dense_k (mr_num mr) (mr_config mr) (mr_weights mr) (mr_rope mr) (all_token_ids (resumed_request h)) l j
          \<and> kb_v (ph_kv h) ! l ! j = dense_v (mr_num mr) (mr_config mr) (mr_weights mr) (mr_rope mr) (all_token_ids (resumed_request h)) l j)"

lemma resume_plain:
  assumes inv: "plain_inv Y e" and y: "y \<notin> Y" and ok: "handoff_ok (e_runner e) h"
    and new: "map_of (s_requests (e_sched e)) (ph_request_id h) = None"
    and layers: "kv_n_layers (mr_kv (e_runner e)) = length (layers (mr_weights (e_runner e)))"
    and seat: "int (length (s_running (e_sched e))) < max_num_seqs (s_config (e_sched e))"
    and room: "can_allocate (s_bm (e_sched e)) (resumed_request h) None"
  shows "\<exists>e'. resume_decode y h e = Inr e' \<and> plain_inv (insert y Y) e' \<and> greedy_next (e_runner e') = greedy_next (e_runner e)
    \<and> same_ask (resumed_request h) (s_objs (e_sched e') y)"
proof -
  let ?s = "e_sched e" and ?mr = "e_runner e" and ?r = "resumed_request h" and ?n = "int (length (ph_prompt_token_ids h))"
  let ?kv = "mr_kv (e_runner e)" and ?b = "ph_kv h"
  have core: "plain_core Y [] ?mr ?s" and run: "\<forall>x \<in> set (s_running ?s). status (s_objs ?s x) = RUNNING" and dr: "e_draft e = None"
    using inv by (auto simp: plain_inv_def)
  note C = plain_coreD [OF core]
  have bs: "0 < kv_block_size ?kv" and i8: "\<not> kv_int8 ?kv" using C(3) by (auto simp: model_ok_def)
  have x: "y \<notin> set (s_running ?s @ s_waiting ?s)" using C(6) y by auto
  have r: "status ?r = RUNNING" "num_computed_tokens ?r = 0" "block_table ?r = []" "cached_prefix_nodes ?r = []" "draft_token_ids ?r = []"
    "get_len ?r = int (length (prompt_token_ids ?r)) + 1" "prompt_token_ids ?r = ph_prompt_token_ids h" "request_id ?r = ph_request_id h"
    by (simp_all add: resumed_request_def mk_request_def get_len_def)
  have srv: "servable ?mr ?r" "served (greedy_next ?mr) ?r" using ok by (auto simp: handoff_ok_def)
  have ne: "prompt_token_ids ?r \<noteq> []" using srv(1) by (simp add: servable_def)
  have new': "map_of (s_requests ?s) (request_id ?r) = None" using new r by simp
  obtain bm r1 where al: "allocate (s_bm ?s) ?r None = Inr (bm, r1)"
    and sinv0: "sched_inv (?s\<lparr>s_bm := bm, s_objs := (s_objs ?s)(y := r1\<lparr>num_computed_tokens := int (length (prompt_token_ids ?r))\<rparr>),
        s_requests := AList.update (request_id ?r) y (s_requests ?s), s_running := s_running ?s @ [y]\<rparr>)"
    and bm: "bm_cache bm = None" "bm_block_size bm = bm_block_size (s_bm ?s)" "bm_num_gpu_blocks bm = bm_num_gpu_blocks (s_bm ?s)"
    and r1: "r1 = ?r\<lparr>block_table := block_table r1\<rparr>" and cap0: "get_len ?r \<le> int (length (block_table r1)) * bm_block_size (s_bm ?s)"
    by (rule resume_admits [OF C(1,2) x new' r(1-4,6) ne seat room])
  let ?r2 = "r1\<lparr>num_computed_tokens := ?n\<rparr>"
  let ?s' = "?s\<lparr>s_bm := bm, s_objs := (s_objs ?s)(y := ?r2), s_requests := AList.update (request_id ?r2) y (s_requests ?s), s_running := s_running ?s @ [y]\<rparr>"
  obtain tb where tb: "r1 = ?r\<lparr>block_table := tb\<rparr>" using r1 by blast
  have f: "block_table ?r2 = tb" "request_id ?r2 = request_id ?r" "status ?r2 = RUNNING" "draft_token_ids ?r2 = []" "all_token_ids ?r2 = all_token_ids ?r"
    "get_len ?r2 = ?n + 1" "num_computed_tokens ?r2 = ?n" "servable ?mr ?r2 = servable ?mr ?r" "served (greedy_next ?mr) ?r2 = served (greedy_next ?mr) ?r"
    "same_ask ?r ?r2" "block_table r1 = tb" "same_content ?r ?r2"
    using r by (simp_all add: tb all_token_ids_def get_len_def servable_def served_def is_finished_def greedy_output_def same_ask_def same_content_def)
  have sinv: "sched_inv ?s'" using sinv0 f(2) r(7) by simp
  have cap: "?n \<le> int (length tb) * kv_block_size ?kv" "?n + 1 \<le> int (length tb) * kv_block_size ?kv"
    using cap0 r(6,7) f(11) C(4) by simp_all
  have yrun: "y \<in> set (s_running ?s')" by simp
  note T = running_tables [OF sinv _ yrun]
  have tabs: "distinct tb" "\<forall>b \<in> set tb. int b < kv_num_blocks ?kv" using T(1,2) bm(1,3) C(5) f(1,11) by simp_all
  have apart: "set (block_table (s_objs ?s z)) \<inter> set tb = {}" if "z \<in> set (s_running ?s)" for z
    using T(3) [of z] that x bm(1) f(1) by (auto simp: Int_commute)
  have cov: "covers ?kv r1 ?n" using bs cap tabs f(11) by (simp add: covers_def)
  have bok: "bundle_ok ?b" "kb_seq_len ?b = length (ph_prompt_token_ids h)" "length (kb_k ?b) = kv_n_layers ?kv"
    using ok by (auto simp: handoff_ok_def)
  have cov': "covers ?kv r1 (int (kb_seq_len ?b))" using cov bok(2) by simp
  obtain kv' where imp0: "foldE (import_layer r1 ?b) [0..<kv_n_layers ?kv] ?kv = Inr kv'" "covers kv' = covers ?kv" "kv_int8 kv' = kv_int8 ?kv"
    "kv_block_size kv' = kv_block_size ?kv" "\<forall>l < kv_n_layers ?kv. imported r1 ?b kv' l"
    using import_layers [OF bok(1) _ cov', of "kv_n_layers ?kv"] tabs(1) f(11) bok(3) ok by (auto simp: handoff_ok_def)
  have imp: "import_request_kv r1 ?b ?kv = Inr kv'"
    using imp0(1) ok bok(1) unfolding import_request_kv_def by (simp add: handoff_ok_def bundle_ok_def import_layer_def [abs_def])
  note F = import_frame [OF imp bok(1) cov']
  let ?mr' = "?mr\<lparr>mr_kv := kv'\<rparr>" and ?e' = "e\<lparr>e_sched := ?s', e_runner := ?mr\<lparr>mr_kv := kv'\<rparr>\<rparr>"
  have res: "resume_decode y h e = Inr ?e'"
    using al imp unfolding resumed_request_def by (simp add: resume_decode_def Let_def)
  have ready: "kv_ready ?mr kv' ?r2 ?n"
    unfolding kv_ready_def kv_holds_def
  proof (intro allI impI)
    fix l p assume l: "l < length (layers (mr_weights ?mr))" and p: "0 \<le> p" "p < ?n"
    have j: "nat p < kb_seq_len ?b" "int (nat p) = p" using p bok(2) by auto
    have ll: "l < kv_n_layers ?kv" using l layers by simp
    have "k_row kv' l tb p = kb_k ?b ! l ! nat p \<and> v_row kv' l tb p = kb_v ?b ! l ! nat p"
      using imp0(5) [rule_format, OF ll] j i8 imp0(3) f(11) unfolding imported_def
      by (elim allE [of _ "nat p"]) (simp add: encode_row_def)
    then show "k_row kv' l (block_table ?r2) p = dense_k (mr_num ?mr) (mr_config ?mr) (mr_weights ?mr) (mr_rope ?mr) (all_token_ids ?r2 @ draft_token_ids ?r2) l (nat p)
        \<and> v_row kv' l (block_table ?r2) p = dense_v (mr_num ?mr) (mr_config ?mr) (mr_weights ?mr) (mr_rope ?mr) (all_token_ids ?r2 @ draft_token_ids ?r2) l (nat p)"
      using ok ll j(1) bok(2) f(1,4,5) by (simp add: handoff_ok_def)
  qed
  have flyy: "in_flight ?mr' (num_computed_tokens (s_objs ?s' y)) (s_objs ?s' y)"
    using ready cap f imp0(4) r(7) by (simp add: in_flight_def)
  have flyx: "in_flight ?mr' (num_computed_tokens (s_objs ?s' z)) (s_objs ?s' z)" if z: "z \<in> set (s_running ?s)" for z
  proof -
    have same: "s_objs ?s' z = s_objs ?s z" using z x by auto
    have fl: "in_flight ?mr (num_computed_tokens (s_objs ?s z)) (s_objs ?s z)" using C(9) [OF z] by simp
    have "kv_ready ?mr kv' (s_objs ?s z) (num_computed_tokens (s_objs ?s z))"
    proof (rule kv_ready_frame)
      show "kv_ready ?mr ?kv (s_objs ?s z) (num_computed_tokens (s_objs ?s z))" using fl by (simp add: in_flight_def)
      fix l p assume p: "0 \<le> p" "p < num_computed_tokens (s_objs ?s z)"
      then have "p < int (length (block_table (s_objs ?s z))) * kv_block_size ?kv" using fl by (simp add: in_flight_def)
      then show "k_row kv' l (block_table (s_objs ?s z)) p = k_row ?kv l (block_table (s_objs ?s z)) p
          \<and> v_row kv' l (block_table (s_objs ?s z)) p = v_row ?kv l (block_table (s_objs ?s z)) p"
        using F(5) [of "block_table (s_objs ?s z)" p l] apart [OF z] p(1) f(11) by simp
    qed
    then show ?thesis unfolding same using fl imp0(4) by (simp add: in_flight_def)
  qed
  have objs: "servable ?mr' (s_objs ?s' z) \<and> served (greedy_next ?mr') (s_objs ?s' z)" if "z \<in> insert y Y" for z
    using that C(7,8) srv f(8,9) by auto
  have mok: "model_ok ?mr'" using C(3) imp0(3,4) runner_fits_kv [OF F(3,4,2)] by (simp add: model_ok_def)
  have sub: "set (s_running ?s' @ s_waiting ?s') \<subseteq> insert y Y" using C(6) by auto
  have "plain_core (insert y Y) [] ?mr' ?s'"
    unfolding plain_core_def
  proof (intro conjI ballI)
    show "bm_cache (s_bm ?s') = None" using bm(1) by simp
    show "kv_block_size (mr_kv ?mr') = bm_block_size (s_bm ?s')" using imp0(4) bm(2) C(4) by simp
    show "kv_num_blocks (mr_kv ?mr') = bm_num_gpu_blocks (s_bm ?s')" using F(1) bm(3) C(5) by simp
    show "in_flight ?mr' (num_computed_tokens (s_objs ?s' z) - grant [] z) (s_objs ?s' z)" if "z \<in> set (s_running ?s')" for z
      using that flyx [of z] flyy by (cases "z = y") simp_all
  qed (use sinv mok sub objs in auto)
  moreover have "\<forall>z \<in> set (s_running ?s'). status (s_objs ?s' z) = RUNNING" using run f(3) by auto
  ultimately have "plain_inv (insert y Y) ?e'" using dr by (simp add: plain_inv_def)
  then show ?thesis using res f(10) by (intro exI [of _ ?e']) simp
qed

fun decode_whole :: "nat \<Rightarrow> rref \<Rightarrow> 'a::floor_ceiling engine \<Rightarrow> bool" where
  "decode_whole 0 x e = True"
| "decode_whole (Suc n) x e =
     (is_finished (s_objs (e_sched e) x) \<or> whole_chunks e \<and>
        (case engine_step e of Some (Inr (e', _, _)) \<Rightarrow> decode_whole n x e' | _ \<Rightarrow> True))"

lemma plain_decode:
  assumes "plain_inv X e" "decode_whole n x e"
  shows "\<exists>e'. decode_until_finished n x e = Some (Inr e') \<and> plain_inv X e' \<and> greedy_next (e_runner e') = greedy_next (e_runner e)
    \<and> (\<forall>x. same_ask (s_objs (e_sched e) x) (s_objs (e_sched e') x))"
  using assms
proof (induction n arbitrary: e)
  case 0
  then show ?case by (auto simp: same_ask_def)
next
  case (Suc n)
  show ?case
  proof (cases "is_finished (s_objs (e_sched e) x)")
    case True
    then show ?thesis using Suc.prems by (auto simp: same_ask_def)
  next
    case False
    then have "whole_chunks e" using Suc.prems(2) by simp
    from plain_step [OF Suc.prems(1) this] obtain e1 out fin where e1: "engine_step e = Some (Inr (e1, out, fin))" "plain_inv X e1"
      "greedy_next (e_runner e1) = greedy_next (e_runner e)" "\<forall>x. same_ask (s_objs (e_sched e) x) (s_objs (e_sched e1) x)" by blast
    have "decode_whole n x e1" using Suc.prems(2) False e1(1) by simp
    from Suc.IH [OF e1(2) this] obtain e' where e': "decode_until_finished n x e1 = Some (Inr e')" "plain_inv X e'"
      "greedy_next (e_runner e') = greedy_next (e_runner e1)" "\<forall>x. same_ask (s_objs (e_sched e1) x) (s_objs (e_sched e') x)" by blast
    have "decode_until_finished (Suc n) x e = Some (Inr e')" using False e1(1) e'(1) by simp
    then show ?thesis using e' e1(3,4) same_ask_trans by (metis (no_types))
  qed
qed

text \<open>The handoff \<open>prefill\<close> builds from the engine's state when the loop has ended.\<close>

definition handoff_of :: "request \<Rightarrow> 'a kv_bundle \<Rightarrow> 'a prefill_handoff" where
  "handoff_of r b = \<lparr>ph_request_id = request_id r, ph_prompt_token_ids = prompt_token_ids r,
     ph_first_token_id = last (output_token_ids r), ph_sampling_params = sampling_params r, ph_kv = b\<rparr>"

lemma exported_handoff_ok:
  assumes inv: "plain_inv X pe" and x: "x \<in> set (s_running (e_sched pe))"
    and r: "r = s_objs (e_sched pe) x" "output_token_ids r = [t]" "num_computed_tokens r = int (length (prompt_token_ids r))"
    and layers: "kv_n_layers (mr_kv (e_runner pe)) = length (layers (mr_weights (e_runner pe)))"
  obtains b where "export_request_kv r (int (length (prompt_token_ids r))) (mr_kv (e_runner pe)) = Inr b"
    "handoff_ok (e_runner pe) (handoff_of r b)" "all_token_ids (resumed_request (handoff_of r b)) = all_token_ids r"
    "same_ask r (resumed_request (handoff_of r b))"
proof -
  let ?mr = "e_runner pe" and ?s = "e_sched pe" and ?kv = "mr_kv (e_runner pe)" and ?n = "int (length (prompt_token_ids r))"
  have core: "plain_core X [] ?mr ?s" and run: "status r = RUNNING" using inv x r(1) by (auto simp: plain_inv_def)
  note C = plain_coreD [OF core]
  have xX: "x \<in> X" using C(6) x by auto
  have fl: "in_flight ?mr ?n r" using C(9) [OF x] r by simp
  have srv: "servable ?mr r" "served (greedy_next ?mr) r" using C(7,8) [OF xX] r(1) by auto
  have d: "draft_token_ids r = []" using srv(1) by (simp add: servable_def)
  have cov: "covers ?kv r ?n"
    using plain_running_tables [OF core x] fl C(3) r(1,3) by (auto simp: covers_def in_flight_def model_ok_def get_len_def)
  note ex = export_ok [OF cov]
  let ?b = "\<lparr>kb_dtype = kv_compute_dtype ?kv, kb_seq_len = nat ?n, kb_heads = kv_num_heads ?kv,
      kb_head_dim = kv_head_dim ?kv, kb_k = map (\<lambda>l. map (k_row ?kv l (block_table r)) [0..?n - 1]) [0..<kv_n_layers ?kv],
      kb_v = map (\<lambda>l. map (v_row ?kv l (block_table r)) [0..?n - 1]) [0..<kv_n_layers ?kv]\<rparr>"
  let ?h = "handoff_of r ?b"
  have hr: "resumed_request (handoff_of r b) = r\<lparr>arrival_time := 0, block_table := [], cached_prefix_nodes := [], num_computed_tokens := 0\<rparr>" for b :: "'a kv_bundle"
    using r(2) run d by (cases r) (simp add: resumed_request_def handoff_of_def mk_request_def)
  have toks: "all_token_ids (resumed_request ?h) = all_token_ids r" by (simp add: hr all_token_ids_def)
  have srv': "servable ?mr (resumed_request ?h)" using srv(1) by (simp add: hr servable_def all_token_ids_def)
  have svd': "served (greedy_next ?mr) (resumed_request ?h)"
    using srv(2) by (subst served_cong [of _ r]) (simp_all add: hr is_finished_def)
  have rows: "k_row ?kv l (block_table r) (int j) = dense_k (mr_num ?mr) (mr_config ?mr) (mr_weights ?mr) (mr_rope ?mr) (all_token_ids r) l j
      \<and> v_row ?kv l (block_table r) (int j) = dense_v (mr_num ?mr) (mr_config ?mr) (mr_weights ?mr) (mr_rope ?mr) (all_token_ids r) l j"
    if "l < kv_n_layers ?kv" "j < length (prompt_token_ids r)" for l j
  proof -
    have "kv_ready ?mr ?kv r ?n" using fl by (simp add: in_flight_def)
    then have "kv_holds (mr_num ?mr) (mr_config ?mr) (mr_weights ?mr) (mr_rope ?mr) ?kv l (all_token_ids r @ draft_token_ids r) (block_table r) ?n"
      using that(1) layers by (simp add: kv_ready_def)
    then show ?thesis using that(2) d unfolding kv_holds_def by (elim allE [of _ "int j"]) simp
  qed
  have "length (prompt_token_ids r) \<le> length (mr_rope ?mr)"
    using srv(1) C(3) by (auto simp: servable_def token_limit_def mr_rope_def model_ok_def)
  then have shaped: "row_shaped (kv_num_heads ?kv) (kv_head_dim ?kv) (k_row ?kv l (block_table r) (int j))
      \<and> row_shaped (kv_num_heads ?kv) (kv_head_dim ?kv) (v_row ?kv l (block_table r) (int j))"
    if "l < kv_n_layers ?kv" "j < length (prompt_token_ids r)" for l j
    using that rows [OF that] C(3) layers by (auto simp: model_ok_def intro!: dense_kv_shaped)
  have "bundle_ok ?b"
  proof -
    have "row_shaped (kv_num_heads ?kv) (kv_head_dim ?kv) (k_row ?kv l (block_table r) p)
        \<and> row_shaped (kv_num_heads ?kv) (kv_head_dim ?kv) (v_row ?kv l (block_table r) p)"
      if "l < kv_n_layers ?kv" "0 \<le> p" "p < ?n" for l p
      using shaped [of l "nat p"] that by simp
    then show ?thesis by (auto simp: bundle_ok_def list_all_iff)
  qed
  then have "handoff_ok ?mr ?h"
    unfolding handoff_ok_def toks using srv' svd' rows
    by (simp add: handoff_of_def nth_upto)
  moreover have "same_ask r (resumed_request ?h)" by (simp add: hr same_ask_def)
  ultimately show ?thesis using that [of ?b] ex toks by simp
qed

subsection \<open>Prefill on an idle engine\<close>

abbreviation fits_alone :: "scheduler \<Rightarrow> rref \<Rightarrow> bool" where
  "fits_alone \<equiv> Scheduler_Properties.servable"

text \<open>The engine has the one request \<open>x\<close>, whose prompt is not computed yet.\<close>

definition prefilling :: "rref set \<Rightarrow> rref \<Rightarrow> 'a::floor_ceiling engine \<Rightarrow> bool" where
  "prefilling X x e \<longleftrightarrow> plain_inv X e \<and> s_running (e_sched e) @ s_waiting (e_sched e) = [x]
     \<and> output_token_ids (s_objs (e_sched e) x) = [] \<and> is_prefill (s_objs (e_sched e) x) \<and> fits_alone (e_sched e) x"

text \<open>The prompt is computed, its first token is committed, and the request runs on or has stopped there.\<close>

definition prefilled :: "rref set \<Rightarrow> rref \<Rightarrow> 'a::floor_ceiling engine \<Rightarrow> bool" where
  "prefilled X x e \<longleftrightarrow> plain_inv X e \<and> (\<exists>t. output_token_ids (s_objs (e_sched e) x) = [t])
     \<and> num_computed_tokens (s_objs (e_sched e) x) = int (length (prompt_token_ids (s_objs (e_sched e) x)))
     \<and> s_waiting (e_sched e) = []
     \<and> s_running (e_sched e) = (if is_finished (s_objs (e_sched e) x) then [] else [x])"

definition same_model :: "'a engine \<Rightarrow> 'a engine \<Rightarrow> bool" where
  "same_model e e' \<longleftrightarrow> (\<exists>kv'. e_runner e' = (e_runner e)\<lparr>mr_kv := kv'\<rparr> \<and> same_cache_shape (mr_kv (e_runner e)) kv')"

lemma same_model_refl: "same_model e e"
  unfolding same_model_def by (intro exI [of _ "mr_kv (e_runner e)"]) (simp add: same_cache_shape_def)

lemma same_model_trans: "same_model e e' \<Longrightarrow> same_model e' e'' \<Longrightarrow> same_model e e''"
  by (auto simp: same_model_def same_cache_shape_def)

lemma prefill_whole:
  assumes inv: "plain_inv X e" and lone: "s_running (e_sched e) @ s_waiting (e_sched e) = [x]"
    and out: "output_token_ids (s_objs (e_sched e) x) = []"
  shows "whole_chunks e"
proof -
  obtain s out where sch: "schedule (e_sched e) = Inr (s, out)"
    and G: "\<forall>(x, c) \<in> set (scheduled_new out @ scheduled_running out). x \<in> set (s_running s) \<and> 0 < c \<and> c \<le> num_computed_tokens (s_objs s x)"
    and sets: "set (s_running s @ s_waiting s) = set (s_running (e_sched e) @ s_waiting (e_sched e))"
    and outs: "\<forall>x. output_token_ids (s_objs s x) = output_token_ids (s_objs (e_sched e) x)"
    by (rule schedule_ready [OF inv])
  have "y = x" if "y \<in> set (s_running s)" for y using sets that unfolding lone by auto
  then have "\<forall>(y, c) \<in> set (scheduled_new out @ scheduled_running out). y = x" using G by blast
  then show ?thesis using outs assms(3) by (auto simp: whole_chunks_def sch list_all_iff)
qed

lemma distinct_singleton: "distinct xs \<Longrightarrow> set xs = {x} \<Longrightarrow> xs = [x]"
  by (cases xs; cases "tl xs") auto

lemma lone_fits:
  assumes "plain_core X [] mr s" and "x \<in> X" and "fits_alone s x" and "output_token_ids (s_objs s x) = []"
  shows "int (length (prompt_token_ids (s_objs s x))) \<le> bm_num_gpu_blocks (s_bm s) * bm_block_size (s_bm s)"
proof -
  note C = plain_coreD [OF assms(1)]
  have bm: "0 < bm_block_size (s_bm s)" "0 \<le> bm_watermark_blocks (s_bm s)"
    using core_invD(3) C(1) unfolding sched_inv_def bm_inv_def by blast+
  have len: "get_len (s_objs s x) = int (length (prompt_token_ids (s_objs s x)))" by (simp add: get_len_def assms(4))
  show ?thesis
  proof (cases "x \<in> set (s_running s)")
    case True
    then show ?thesis using assms(3) len by (simp add: Scheduler_Properties.servable_def)
  next
    case False
    then have "num_blocks_needed (s_objs s x) (bm_block_size (s_bm s)) \<le> bm_num_gpu_blocks (s_bm s)"
      using assms(3) bm(2) by (simp add: Scheduler_Properties.servable_def)
    then show ?thesis using num_blocks_needed_le_iff [OF bm(1)] len by simp
  qed
qed

lemma running_fits:
  assumes "plain_core X [] mr s" and "x \<in> set (s_running s)" and "output_token_ids (s_objs s x) = []" "is_prefill (s_objs s x)"
    and "int (length (prompt_token_ids (s_objs s x))) \<le> bm_num_gpu_blocks (s_bm s) * bm_block_size (s_bm s)"
  shows "fits_alone s x"
proof -
  have "x \<in> X" using plain_coreD(6) [OF assms(1)] assms(2) by auto
  then have "draft_token_ids (s_objs s x) = []" using plain_coreD(7) [OF assms(1)] by (simp add: servable_def)
  then show ?thesis
    using assms(2-5) by (simp add: Scheduler_Properties.servable_def num_new_tokens_def get_num_new_tokens_def get_len_def is_prefill_def)
qed

text \<open>What the step that computes the last prompt token commits.\<close>

lemma first_commit:
  assumes "output_token_ids r = []" "draft_token_ids r = []" "\<not> is_prefill r"
  shows "\<exists>t. output_token_ids (commit_greedy mr r) = [t]"
  using assms by (simp add: commit_greedy_def)

text \<open>A step of an engine with one request, which the scheduler serves: the request is granted
tokens, and stays the only one until it finishes.\<close>

lemma lone_served:
  assumes inv: "plain_inv X e" and lone: "s_running (e_sched e) @ s_waiting (e_sched e) = [x]"
    and whole: "whole_chunks e" and fits: "fits_alone (e_sched e) x"
  obtains e' out fin c r where "engine_step e = Some (Inr (e', out, fin))" "plain_inv X e'" "x \<in> X" "same_model e e'"
    "same_ask (s_objs (e_sched e) x) (s_objs (e_sched e') x)"
    "granted (bm_block_size (s_bm (e_sched e))) (s_objs (e_sched e) x) c r" "draft_token_ids r = []"
    "num_computed_tokens (s_objs (e_sched e') x) = num_computed_tokens r"
    "output_token_ids (s_objs (e_sched e') x) = output_token_ids (commit_greedy (e_runner e) r)"
    "status (s_objs (e_sched e') x) = status (commit_greedy (e_runner e) r)"
    "bm_num_gpu_blocks (s_bm (e_sched e')) = bm_num_gpu_blocks (s_bm (e_sched e))"
    "bm_block_size (s_bm (e_sched e')) = bm_block_size (s_bm (e_sched e))"
    "s_running (e_sched e') = (if is_finished (s_objs (e_sched e') x) then [] else [x])" "s_waiting (e_sched e') = []"
proof -
  let ?s0 = "e_sched e"
  obtain s out e' fin where sch: "schedule ?s0 = Inr (s, out)" and step: "engine_step e = Some (Inr (e', out, fin))" and inv': "plain_inv X e'"
    and ask: "\<forall>x. same_ask (s_objs ?s0 x) (s_objs (e_sched e') x)"
    and outs: "\<forall>x. output_token_ids (s_objs s x) = output_token_ids (s_objs ?s0 x)"
    and sub: "set (map fst (scheduled_new out @ scheduled_running out)) \<subseteq> set (s_running s)"
    and subX: "set (s_running s) \<subseteq> X" and subq: "set (s_running s) \<subseteq> set (s_running ?s0 @ s_waiting ?s0)"
    and run: "\<forall>x \<in> set (s_running s). status (s_objs s x) = RUNNING \<and> draft_token_ids (s_objs s x) = []"
    and com: "\<forall>x. let r = (if x \<in> set (map fst (scheduled_new out @ scheduled_running out)) then commit_greedy (e_runner e) (s_objs s x) else s_objs s x)
       in output_token_ids (s_objs (e_sched e') x) = output_token_ids r \<and> status (s_objs (e_sched e') x) = status r"
    and model: "\<exists>kv'. e_runner e' = (e_runner e)\<lparr>mr_kv := kv'\<rparr> \<and> same_cache_shape (mr_kv (e_runner e)) kv'"
    and num: "\<forall>x. num_computed_tokens (s_objs (e_sched e') x) = num_computed_tokens (s_objs s x)"
    and grants: "\<forall>(x, c) \<in> set (scheduled_new out @ scheduled_running out). granted (bm_block_size (s_bm ?s0)) (s_objs ?s0 x) c (s_objs s x)"
    and blocks: "bm_num_gpu_blocks (s_bm (e_sched e')) = bm_num_gpu_blocks (s_bm ?s0)"
    and queues: "s_running (e_sched e') = filter (\<lambda>x. \<not> is_finished (s_objs (e_sched e') x)) (s_running s)" "s_waiting (e_sched e') = s_waiting s"
    and fin: "set fin = {x \<in> set (s_running s). is_finished (s_objs (e_sched e') x)}"
    and setq: "set (s_running (e_sched e') @ s_waiting (e_sched e')) = set (s_running ?s0 @ s_waiting ?s0) - set fin"
    by (rule plain_step_full [OF inv whole])
  have core: "plain_core X [] (e_runner e) ?s0" "plain_core X [] (e_runner e') (e_sched e')" using inv inv' by (auto simp: plain_inv_def)
  note C = plain_coreD [OF core(1)] and C' = plain_coreD [OF core(2)]
  have old: "oldest ?s0 = x" by (simp add: oldest_def lone)
  have "has_unfinished_requests ?s0" using lone by (auto simp: has_unfinished_requests_def get_num_unfinished_requests_def append_eq_Cons_conv)
  then have "x \<in> fst ` set (scheduled_new out @ scheduled_running out)"
    using oldest_granted [OF C(1,2) _ _ sch] fits old by simp
  then obtain c where xc: "(x, c) \<in> set (scheduled_new out @ scheduled_running out)" by (auto simp del: set_append)
  let ?ro = "s_objs ?s0 x" and ?r = "s_objs s x" and ?r' = "s_objs (e_sched e') x"
  have xm: "x \<in> set (map fst (scheduled_new out @ scheduled_running out))" using xc by force
  have xrun: "x \<in> set (s_running s)" using sub xm by blast
  have gr: "granted (bm_block_size (s_bm ?s0)) ?ro c ?r" using grants xc by blast
  have xall: "set (s_running s) = {x}" using subq xrun unfolding lone by auto
  have dist: "distinct (s_running (e_sched e') @ s_waiting (e_sched e'))"
    using core_invD(1) C'(1) unfolding sched_inv_def by blast
  have runs: "s_running (e_sched e') = (if is_finished ?r' then [] else [x])" and waits: "s_waiting (e_sched e') = []"
  proof -
    have "s_running (e_sched e') = (if is_finished ?r' then [] else [x]) \<and> s_waiting (e_sched e') = []"
    proof (cases "is_finished ?r'")
      case True
      then have "set (s_running (e_sched e') @ s_waiting (e_sched e')) = {}" using setq fin xall unfolding lone by simp
      then show ?thesis using True by simp
    next
      case False
      then have eq: "s_running (e_sched e') = s_running s" unfolding queues using xall by (simp add: filter_id_conv)
      have w: "set (s_waiting (e_sched e')) \<subseteq> {x}" using setq unfolding lone by auto
      have "x \<in> set (s_running (e_sched e'))" using eq xrun by simp
      then have "s_waiting (e_sched e') = []" using w dist by (cases "s_waiting (e_sched e')") auto
      moreover have "s_running (e_sched e') = [x]"
        using dist eq xall by (intro distinct_singleton) simp_all
      ultimately show ?thesis using False by simp
    qed
    then show "s_running (e_sched e') = (if is_finished ?r' then [] else [x])" "s_waiting (e_sched e') = []" by blast+
  qed
  have xX: "x \<in> X" using subX xrun by blast
  show ?thesis
  proof (rule that [OF step inv' xX _ _ gr])
    show "same_model e e'" using model by (simp add: same_model_def)
    show "same_ask ?ro ?r'" using ask by blast
    show "draft_token_ids ?r = []" using run xrun by blast
    show "num_computed_tokens ?r' = num_computed_tokens ?r" using num by blast
    show "output_token_ids ?r' = output_token_ids (commit_greedy (e_runner e) ?r)" "status ?r' = status (commit_greedy (e_runner e) ?r)"
      using com [rule_format, of x] xm by (simp_all add: Let_def del: set_map set_append)
    show "bm_num_gpu_blocks (s_bm (e_sched e')) = bm_num_gpu_blocks (s_bm (e_sched e))" by (rule blocks)
    show "bm_block_size (s_bm (e_sched e')) = bm_block_size (s_bm ?s0)" using C(4) C'(4) model by (auto simp: same_cache_shape_def)
    show "s_running (e_sched e') = (if is_finished ?r' then [] else [x])" "s_waiting (e_sched e') = []" by (rule runs, rule waits)
  qed
qed

lemma lone_step:
  assumes pre: "prefilling X x e"
  obtains e' out fin where "engine_step e = Some (Inr (e', out, fin))" "prefilling X x e' \<or> prefilled X x e'"
    "same_model e e'" "same_ask (s_objs (e_sched e) x) (s_objs (e_sched e') x)"
    "num_computed_tokens (s_objs (e_sched e) x) < num_computed_tokens (s_objs (e_sched e') x)"
proof -
  have inv: "plain_inv X e" and lone: "s_running (e_sched e) @ s_waiting (e_sched e) = [x]" and none: "output_token_ids (s_objs (e_sched e) x) = []"
    and fits: "fits_alone (e_sched e) x" using pre by (auto simp: prefilling_def)
  obtain e' out fin c r where step: "engine_step e = Some (Inr (e', out, fin))" and inv': "plain_inv X e'" and xX: "x \<in> X" and model: "same_model e e'"
    and ask: "same_ask (s_objs (e_sched e) x) (s_objs (e_sched e') x)"
    and gr: "granted (bm_block_size (s_bm (e_sched e))) (s_objs (e_sched e) x) c r" and d: "draft_token_ids r = []"
    and num: "num_computed_tokens (s_objs (e_sched e') x) = num_computed_tokens r"
    and res: "output_token_ids (s_objs (e_sched e') x) = output_token_ids (commit_greedy (e_runner e) r)"
      "status (s_objs (e_sched e') x) = status (commit_greedy (e_runner e) r)"
    and pool: "bm_num_gpu_blocks (s_bm (e_sched e')) = bm_num_gpu_blocks (s_bm (e_sched e))"
      "bm_block_size (s_bm (e_sched e')) = bm_block_size (s_bm (e_sched e))"
    and queues: "s_running (e_sched e') = (if is_finished (s_objs (e_sched e') x) then [] else [x])" "s_waiting (e_sched e') = []"
    by (rule lone_served [OF inv lone prefill_whole [OF inv lone none] fits])
  have core: "plain_core X [] (e_runner e) (e_sched e)" "plain_core X [] (e_runner e') (e_sched e')" using inv inv' by (auto simp: plain_inv_def)
  let ?r = "s_objs (e_sched e) x" and ?r' = "s_objs (e_sched e') x"
  have prog: "num_computed_tokens ?r < num_computed_tokens ?r'" "num_computed_tokens r \<le> get_len r" "output_token_ids r = []"
    "prompt_token_ids ?r' = prompt_token_ids r" "status r = RUNNING"
    using gr num none ask by (auto simp: granted_def same_content_def same_ask_def)
  have "prefilling X x e' \<or> prefilled X x e'"
  proof (cases "is_prefill r")
    case True
    then have o: "output_token_ids ?r' = []" "\<not> is_finished ?r'" "is_prefill ?r'"
      using res prog num by (simp_all add: commit_greedy_def is_finished_def is_prefill_def)
    have "fits_alone (e_sched e') x"
      using lone_fits [OF core(1) xX fits none] queues o pool ask by (intro running_fits [OF core(2)]) (auto simp: same_ask_def)
    then show ?thesis using inv' queues o by (simp add: prefilling_def)
  next
    case False
    then obtain t where "output_token_ids ?r' = [t]" using first_commit [OF prog(3) d] res by metis
    moreover have "num_computed_tokens ?r' = int (length (prompt_token_ids ?r'))"
      using False prog num by (simp add: is_prefill_def get_len_def)
    ultimately show ?thesis using inv' queues by (simp add: prefilled_def)
  qed
  then show ?thesis using that [OF step _ model ask prog(1)] by blast
qed

text \<open>The loop of \<open>prefill\<close> returns.\<close>

lemma prefill_loop_returns:
  assumes "prefilling X x e"
  shows "\<exists>e'. prefill_loop x e = Some (Inr e') \<and> prefilled X x e' \<and> same_model e e'
    \<and> same_ask (s_objs (e_sched e) x) (s_objs (e_sched e') x)"
  using assms
proof (induction "nat (int (length (prompt_token_ids (s_objs (e_sched e) x))) - num_computed_tokens (s_objs (e_sched e) x))"
    arbitrary: e rule: less_induct)
  case less
  obtain e1 out fin where st: "engine_step e = Some (Inr (e1, out, fin))" and or: "prefilling X x e1 \<or> prefilled X x e1"
    and sm: "same_model e e1" and ask: "same_ask (s_objs (e_sched e) x) (s_objs (e_sched e1) x)"
    and lt: "num_computed_tokens (s_objs (e_sched e) x) < num_computed_tokens (s_objs (e_sched e1) x)"
    by (rule lone_step [OF less.prems])
  have p: "is_prefill (s_objs (e_sched e) x)" using less.prems by (simp add: prefilling_def)
  then have unf: "prefill_loop x e = prefill_loop x e1" using st by (subst prefill_loop.simps) simp
  show ?case
  proof (cases "prefilled X x e1")
    case True
    then have "prefill_loop x e1 = Some (Inr e1)" by (subst prefill_loop.simps) (auto simp: prefilled_def is_prefill_def)
    then show ?thesis using True sm ask unf by auto
  next
    case False
    then have pre1: "prefilling X x e1" using or by blast
    have "nat (int (length (prompt_token_ids (s_objs (e_sched e1) x))) - num_computed_tokens (s_objs (e_sched e1) x))
        < nat (int (length (prompt_token_ids (s_objs (e_sched e) x))) - num_computed_tokens (s_objs (e_sched e) x))"
      using lt ask p by (simp add: is_prefill_def same_ask_def)
    from less.hyps [OF this pre1] obtain e' where "prefill_loop x e1 = Some (Inr e')" "prefilled X x e'" "same_model e1 e'"
      "same_ask (s_objs (e_sched e1) x) (s_objs (e_sched e') x)" by blast
    then show ?thesis using unf same_model_trans [OF sm] same_ask_trans [OF ask] by auto
  qed
qed

text \<open>What \<open>prefill\<close> gives on an idle engine: the finished output, or the handoff of the prefilled request.\<close>

definition idle :: "'a engine \<Rightarrow> bool" where
  "idle e \<longleftrightarrow> s_running (e_sched e) = [] \<and> s_waiting (e_sched e) = []"

lemma idle_adds:
  assumes inv: "plain_inv X e" and idle: "idle e"
  shows "\<exists>e1. engine_add_request name x prompt sp rid e = Inr e1"
proof -
  have "core_inv (e_sched e) [] []" using inv idle by (simp add: plain_inv_def plain_core_def sched_inv_def idle_def)
  then have "map_of (s_requests (e_sched e)) i = None" for i
    using tracked_lookup(1) [OF core_invD(2)] by (cases "map_of (s_requests (e_sched e)) i") force+
  then show ?thesis by (simp add: engine_add_request_def add_request_def Let_def split: option.split)
qed

lemma idle_prefilling:
  assumes inv: "plain_inv X e" and x: "x \<notin> X" and idle: "idle e"
    and ok: "\<And>i. servable (e_runner e) (mk_request i prompt (case sp of None \<Rightarrow> default_sampling_params | Some p \<Rightarrow> p))"
    and fits: "int (length prompt) \<le> k * bm_block_size (s_bm (e_sched e))"
      "bm_watermark_blocks (s_bm (e_sched e)) + k \<le> bm_num_gpu_blocks (s_bm (e_sched e))"
    and add: "engine_add_request name x prompt sp rid e = Inr e1"
  shows "prefilling (insert x X) x e1" "same_model e e1" "prompt_token_ids (s_objs (e_sched e1) x) = prompt"
    "sampling_params (s_objs (e_sched e1) x) = (case sp of None \<Rightarrow> default_sampling_params | Some p \<Rightarrow> p)"
    "request_id (s_objs (e_sched e1) x) = (case rid of None \<Rightarrow> name (e_next_id e) | Some i \<Rightarrow> i)"
proof -
  note A = plain_arrival [OF inv x add ok]
  let ?mk = "mk_request (case rid of None \<Rightarrow> name (e_next_id e) | Some i \<Rightarrow> i) prompt (case sp of None \<Rightarrow> default_sampling_params | Some p \<Rightarrow> p)"
  obtain s' n where s': "add_request x ((e_sched e)\<lparr>s_objs := (s_objs (e_sched e))(x := ?mk)\<rparr>) = Inr s'" and e1: "e1 = e\<lparr>e_sched := s', e_next_id := n\<rparr>"
  proof (cases rid)
    case None
    then show ?thesis using add that by (auto simp: engine_add_request_def bindE_Inr_iff)
  next
    case (Some i)
    then show ?thesis using add that [of _ "e_next_id e"] by (auto simp: engine_add_request_def bindE_Inr_iff)
  qed
  note F = add_request_fields [OF s', simplified]
  have q: "s_running (e_sched e1) @ s_waiting (e_sched e1) = [x]" "s_bm (e_sched e1) = s_bm (e_sched e)" "s_objs (e_sched e1) x = ?mk"
    using F idle by (simp_all add: e1 idle_def mk_request_def)
  have bs: "0 < bm_block_size (s_bm (e_sched e))"
    using inv core_invD(3) unfolding plain_inv_def plain_core_def sched_inv_def bm_inv_def by blast
  have run: "s_running (e_sched e1) = []" using F(1) idle by (simp add: e1 idle_def)
  have "prompt \<noteq> []" using ok [of "[]"] by (simp add: servable_def mk_request_def)
  moreover have "fits_alone (e_sched e1) x"
  proof -
    have "num_blocks_needed ?mk (bm_block_size (s_bm (e_sched e))) \<le> k"
      using num_blocks_needed_le_iff [OF bs, of ?mk k] fits(1) by (simp add: mk_request_def get_len_def)
    then have "num_blocks_needed ?mk (bm_block_size (s_bm (e_sched e))) \<le> bm_num_gpu_blocks (s_bm (e_sched e)) - bm_watermark_blocks (s_bm (e_sched e))"
      using fits(2) by linarith
    then show ?thesis using run q by (simp add: Scheduler_Properties.servable_def)
  qed
  ultimately show "prefilling (insert x X) x e1"
    using A(1) q by (simp add: prefilling_def mk_request_def is_prefill_def)
  show "same_model e e1" using same_model_refl [of e] A(2) by (simp add: same_model_def)
  show "prompt_token_ids (s_objs (e_sched e1) x) = prompt"
    "sampling_params (s_objs (e_sched e1) x) = (case sp of None \<Rightarrow> default_sampling_params | Some p \<Rightarrow> p)"
    "request_id (s_objs (e_sched e1) x) = (case rid of None \<Rightarrow> name (e_next_id e) | Some i \<Rightarrow> i)"
    by (simp_all add: q mk_request_def)
qed

text \<open>The whole of \<open>prefill\<close>, once its loop has returned.\<close>

lemma prefill_result:
  assumes add: "engine_add_request name x prompt sp rid e = Inr e1"
    and loop: "prefill_loop x e1 = Some (Inr e2)" and pre: "prefilled X x e2"
  defines "r \<equiv> s_objs (e_sched e2) x"
  obtains (stopped) "is_finished r" "prefill name x prompt sp rid e = Some (Inr (e2, Inl (generation_output_of r)))" "idle e2"
  | (handed) s where "\<not> is_finished r" "idle (e2\<lparr>e_sched := s\<rparr>)"
      "\<And>b. export_request_kv r (int (length (prompt_token_ids r))) (mr_kv (e_runner e2)) = Inr b
        \<Longrightarrow> prefill name x prompt sp rid e = Some (Inr (e2\<lparr>e_sched := s\<rparr>, Inr (handoff_of r b)))"
proof (cases "is_finished r")
  case True
  then have "idle e2" using pre by (simp add: prefilled_def idle_def r_def)
  moreover have "prefill name x prompt sp rid e = Some (Inr (e2, Inl (generation_output_of r)))"
    using True by (simp add: prefill_def add loop r_def Let_def)
  ultimately show ?thesis using stopped True by blast
next
  case False
  have inv: "sched_inv (e_sched e2)" using pre plain_coreD(1) unfolding prefilled_def plain_inv_def by blast
  have q: "s_running (e_sched e2) = [x]" "s_waiting (e_sched e2) = []" "output_token_ids r \<noteq> []"
    using pre False by (auto simp: prefilled_def r_def)
  obtain s f where ab: "abort_requests {request_id r} (e_sched e2) = Inr (s, f)" and "s_running s = []" "s_waiting s = []"
    using abort_requests_result [OF inv, of "{request_id r}"] q by (simp add: r_def) metis
  moreover have "prefill name x prompt sp rid e = Some (Inr (e2\<lparr>e_sched := s\<rparr>, Inr (handoff_of r b)))"
    if "export_request_kv r (int (length (prompt_token_ids r))) (mr_kv (e_runner e2)) = Inr b" for b
    using that False q(3) ab by (simp add: prefill_def add loop r_def Let_def handoff_of_def)
  ultimately show ?thesis using handed [of s] False by (simp add: idle_def)
qed

text \<open>Two engines of the same model, with caches of its shape (block sizes and pools may differ).\<close>

definition paired :: "'a::floor_ceiling engine \<Rightarrow> 'a engine \<Rightarrow> bool" where
  "paired pe de \<longleftrightarrow> e_runner de = (e_runner pe)\<lparr>mr_kv := mr_kv (e_runner de)\<rparr>
     \<and> kv_n_layers (mr_kv (e_runner pe)) = length (layers (mr_weights (e_runner pe)))
     \<and> kv_n_layers (mr_kv (e_runner de)) = kv_n_layers (mr_kv (e_runner pe))
     \<and> kv_num_heads (mr_kv (e_runner de)) = kv_num_heads (mr_kv (e_runner pe))
     \<and> kv_head_dim (mr_kv (e_runner de)) = kv_head_dim (mr_kv (e_runner pe))
     \<and> kv_compute_dtype (mr_kv (e_runner de)) = kv_compute_dtype (mr_kv (e_runner pe))"

lemma paired_model: "same_model pe pe' \<Longrightarrow> paired pe de \<Longrightarrow> paired pe' de"
  by (auto simp: same_model_def same_cache_shape_def paired_def)

text \<open>A prefilled request's exported rows, resumed on the paired engine.\<close>

lemma handoff_resumes:
  assumes pe: "plain_inv X pe" "x \<in> set (s_running (e_sched pe))"
    and r: "r = s_objs (e_sched pe) x" "output_token_ids r = [t]" "num_computed_tokens r = int (length (prompt_token_ids r))"
    and de: "plain_inv Y de" "y \<notin> Y" "map_of (s_requests (e_sched de)) (request_id r) = None" and pair: "paired pe de"
    and seat: "int (length (s_running (e_sched de))) < max_num_seqs (s_config (e_sched de))"
    and room: "bm_watermark_blocks (s_bm (e_sched de)) + num_blocks_needed r (bm_block_size (s_bm (e_sched de))) \<le> num_free_blocks (s_bm (e_sched de))"
  obtains b de1 where "export_request_kv r (int (length (prompt_token_ids r))) (mr_kv (e_runner pe)) = Inr b"
    "resume_decode y (handoff_of r b) de = Inr de1" "plain_inv (insert y Y) de1" "greedy_next (e_runner de1) = greedy_next (e_runner pe)"
    "same_ask r (s_objs (e_sched de1) y)"
proof -
  let ?pm = "e_runner pe" and ?dm = "e_runner de"
  have model: "?dm = ?pm\<lparr>mr_kv := mr_kv ?dm\<rparr>" "kv_n_layers (mr_kv ?pm) = length (layers (mr_weights ?pm))"
    "kv_n_layers (mr_kv ?dm) = kv_n_layers (mr_kv ?pm)" "kv_num_heads (mr_kv ?dm) = kv_num_heads (mr_kv ?pm)"
    "kv_head_dim (mr_kv ?dm) = kv_head_dim (mr_kv ?pm)" "kv_compute_dtype (mr_kv ?dm) = kv_compute_dtype (mr_kv ?pm)"
    using pair unfolding paired_def by blast+
  obtain b where b: "export_request_kv r (int (length (prompt_token_ids r))) (mr_kv ?pm) = Inr b" "handoff_ok ?pm (handoff_of r b)"
    "all_token_ids (resumed_request (handoff_of r b)) = all_token_ids r" "same_ask r (resumed_request (handoff_of r b))"
    by (rule exported_handoff_ok [OF pe r model(2)])
  let ?h = "handoff_of r b"
  have same: "mr_num ?dm = mr_num ?pm" "mr_config ?dm = mr_config ?pm" "mr_weights ?dm = mr_weights ?pm" "mr_rope ?dm = mr_rope ?pm"
    "greedy_next ?dm = greedy_next ?pm" "servable ?dm = servable ?pm"
    by (subst model(1), simp add: mr_rope_def)+
  have hok: "handoff_ok ?dm ?h" using b(2) model(3-6) unfolding handoff_ok_def same by simp
  have ids: "map_of (s_requests (e_sched de)) (ph_request_id ?h) = None" using de(3) by (simp add: handoff_of_def)
  have lay: "kv_n_layers (mr_kv ?dm) = length (layers (mr_weights ?dm))" using model(2,3) same(3) by simp
  have len: "get_len (resumed_request ?h) = get_len r" using arg_cong [OF b(3), of length] by (metis length_all_token_ids)
  have can: "can_allocate (s_bm (e_sched de)) (resumed_request ?h) None"
  proof -
    have none: "bm_cache (s_bm (e_sched de)) = None" using de(1) by (auto simp: plain_inv_def plain_core_def)
    have "0 < bm_block_size (s_bm (e_sched de))" using plain_coreD(3,4) de(1) unfolding plain_inv_def model_ok_def by metis
    then have "0 \<le> num_blocks_needed r (bm_block_size (s_bm (e_sched de)))" by (rule num_blocks_needed_nonneg)
    then show ?thesis using room none
      by (simp add: can_allocate_def matched_blocks_def num_blocks_needed_cong [OF len])
  qed
  obtain de1 where de1: "resume_decode y ?h de = Inr de1" "plain_inv (insert y Y) de1" "greedy_next (e_runner de1) = greedy_next ?dm"
    "same_ask (resumed_request ?h) (s_objs (e_sched de1) y)" using resume_plain [OF de(1,2) hok ids lay seat can] by blast
  show ?thesis using that [OF b(1) de1(1,2)] de1(3) same(5) same_ask_trans [OF b(4) de1(4)] by simp
qed

subsection \<open>Decode on an otherwise idle engine\<close>

text \<open>The engine has the one request \<open>y\<close>, with a token to compute, and a pool that holds it to its end.\<close>

definition decoding :: "rref set \<Rightarrow> rref \<Rightarrow> 'a::floor_ceiling engine \<Rightarrow> bool" where
  "decoding X y e \<longleftrightarrow> plain_inv X e \<and> s_running (e_sched e) = [y] \<and> s_waiting (e_sched e) = []
     \<and> output_token_ids (s_objs (e_sched e) y) \<noteq> []
     \<and> num_computed_tokens (s_objs (e_sched e) y) + 1 = get_len (s_objs (e_sched e) y)
     \<and> int (length (prompt_token_ids (s_objs (e_sched e) y)) + token_limit (sampling_params (s_objs (e_sched e) y)))
         \<le> bm_num_gpu_blocks (s_bm (e_sched e)) * bm_block_size (s_bm (e_sched e)) + 1"

lemma granted_last:
  assumes "granted bs r c r'" "num_computed_tokens r + 1 = get_len r"
  shows "num_computed_tokens r' = get_len r'"
  using assms by (auto simp: granted_def same_content_def get_len_def)

lemma decode_whole_chunks:
  assumes "decoding X y e" shows "whole_chunks e"
proof -
  have inv: "plain_inv X e" and lone: "s_running (e_sched e) @ s_waiting (e_sched e) = [y]"
    and num: "num_computed_tokens (s_objs (e_sched e) y) + 1 = get_len (s_objs (e_sched e) y)" using assms by (auto simp: decoding_def)
  obtain s out where sch: "schedule (e_sched e) = Inr (s, out)"
    and G: "\<forall>(x, c) \<in> set (scheduled_new out @ scheduled_running out). x \<in> set (s_running s) \<and> 0 < c \<and> c \<le> num_computed_tokens (s_objs s x)"
    and sets: "set (s_running s @ s_waiting s) = set (s_running (e_sched e) @ s_waiting (e_sched e))"
    and grants: "\<forall>(x, c) \<in> set (scheduled_new out @ scheduled_running out). granted (bm_block_size (s_bm (e_sched e))) (s_objs (e_sched e) x) c (s_objs s x)"
    by (rule schedule_ready [OF inv])
  have "x = y" if "x \<in> set (s_running s)" for x using sets that unfolding lone by auto
  then have "num_computed_tokens (s_objs s x) = get_len (s_objs s x)" if "(x, c) \<in> set (scheduled_new out @ scheduled_running out)" for x c
    using grants G that num by (blast intro: granted_last)
  then show ?thesis by (auto simp: whole_chunks_def sch list_all_iff)
qed

lemma decode_step:
  assumes dec: "decoding X y e"
  obtains e' out fin where "engine_step e = Some (Inr (e', out, fin))" "decoding X y e' \<or> is_finished (s_objs (e_sched e') y)"
    "length (output_token_ids (s_objs (e_sched e') y)) = Suc (length (output_token_ids (s_objs (e_sched e) y)))"
    "same_ask (s_objs (e_sched e) y) (s_objs (e_sched e') y)" "plain_inv X e'"
proof -
  have inv: "plain_inv X e" and lone: "s_running (e_sched e) @ s_waiting (e_sched e) = [y]" "y \<in> set (s_running (e_sched e))"
    and out: "output_token_ids (s_objs (e_sched e) y) \<noteq> []"
    and num: "num_computed_tokens (s_objs (e_sched e) y) + 1 = get_len (s_objs (e_sched e) y)"
    and fits: "int (length (prompt_token_ids (s_objs (e_sched e) y)) + token_limit (sampling_params (s_objs (e_sched e) y)))
         \<le> bm_num_gpu_blocks (s_bm (e_sched e)) * bm_block_size (s_bm (e_sched e)) + 1"
    using dec by (auto simp: decoding_def)
  let ?r = "s_objs (e_sched e) y"
  have core: "plain_core X [] (e_runner e) (e_sched e)" using inv by (simp add: plain_inv_def)
  note C = plain_coreD [OF core]
  have yX: "y \<in> X" using C(6) lone(2) by auto
  have run: "status ?r = RUNNING" using inv lone(2) by (simp add: plain_inv_def)
  have lim: "length (output_token_ids ?r) < token_limit (sampling_params ?r)"
    using C(8) [OF yX] run by (simp add: served_def is_finished_def)
  have dr: "draft_token_ids ?r = []" using C(7) [OF yX] by (simp add: servable_def)
  have "fits_alone (e_sched e) y"
    using lone(2) num dr lim fits
    by (simp add: Scheduler_Properties.servable_def num_new_tokens_def get_num_new_tokens_def get_len_def)
  from lone_served [OF inv lone(1) decode_whole_chunks [OF dec] this] obtain e' o' fin c r where
    step: "engine_step e = Some (Inr (e', o', fin))" and inv': "plain_inv X e'" and ask: "same_ask ?r (s_objs (e_sched e') y)"
    and gr: "granted (bm_block_size (s_bm (e_sched e))) ?r c r" and d: "draft_token_ids r = []"
    and num': "num_computed_tokens (s_objs (e_sched e') y) = num_computed_tokens r"
    and res: "output_token_ids (s_objs (e_sched e') y) = output_token_ids (commit_greedy (e_runner e) r)"
      "status (s_objs (e_sched e') y) = status (commit_greedy (e_runner e) r)"
    and pool: "bm_num_gpu_blocks (s_bm (e_sched e')) = bm_num_gpu_blocks (s_bm (e_sched e))"
      "bm_block_size (s_bm (e_sched e')) = bm_block_size (s_bm (e_sched e))"
    and queues: "s_running (e_sched e') = (if is_finished (s_objs (e_sched e') y) then [] else [y])" "s_waiting (e_sched e') = []"
    by metis
  let ?r' = "s_objs (e_sched e') y"
  have full: "num_computed_tokens r = get_len r" by (rule granted_last [OF gr num])
  have same: "prompt_token_ids r = prompt_token_ids ?r" "output_token_ids r = output_token_ids ?r" "get_len r = get_len ?r"
    using gr by (simp_all add: granted_def same_content_def get_len_def)
  have "\<not> is_prefill r" using full out same by (simp add: is_prefill_def get_len_def)
  then have len: "length (output_token_ids ?r') = Suc (length (output_token_ids ?r))" using res(1) d same by (simp add: commit_greedy_def)
  have "decoding X y e'" if "\<not> is_finished ?r'"
    using that inv' queues len num' full same fits pool ask
    by (auto simp: decoding_def same_ask_def get_len_def)
  then show ?thesis using that [OF step _ len ask inv'] by blast
qed

lemma decode_whole_lone: "decoding X y e \<Longrightarrow> decode_whole n y e"
proof (induction n arbitrary: e)
  case (Suc n)
  obtain e' out fin where st: "engine_step e = Some (Inr (e', out, fin))" "decoding X y e' \<or> is_finished (s_objs (e_sched e') y)"
    by (rule decode_step [OF Suc.prems])
  have "decode_whole n y e'" using st(2) Suc.IH by (cases n) auto
  then show ?case using st(1) decode_whole_chunks [OF Suc.prems] by simp
qed simp

lemma decodingD:
  assumes "decoding X y e"
  shows "\<not> is_finished (s_objs (e_sched e) y)" "length (output_token_ids (s_objs (e_sched e) y)) < token_limit (sampling_params (s_objs (e_sched e) y))"
proof -
  have inv: "plain_inv X e" and y: "y \<in> set (s_running (e_sched e))" using assms by (auto simp: decoding_def)
  show nf: "\<not> is_finished (s_objs (e_sched e) y)" using inv y by (simp add: plain_inv_def is_finished_def)
  have core: "plain_core X [] (e_runner e) (e_sched e)" using inv by (simp add: plain_inv_def)
  have "y \<in> X" using plain_coreD(6) [OF core] y by auto
  then show "length (output_token_ids (s_objs (e_sched e) y)) < token_limit (sampling_params (s_objs (e_sched e) y))"
    using plain_coreD(8) [OF core] nf by (simp add: served_def)
qed

lemma decode_finishes:
  assumes "decoding X y e" "token_limit (sampling_params (s_objs (e_sched e) y)) \<le> length (output_token_ids (s_objs (e_sched e) y)) + n"
  shows "\<exists>e'. decode_until_finished n y e = Some (Inr e') \<and> is_finished (s_objs (e_sched e') y)"
  using assms
proof (induction n arbitrary: e)
  case 0
  then show ?case using decodingD(2) [OF 0(1)] by simp
next
  case (Suc n)
  obtain e' out fin where st: "engine_step e = Some (Inr (e', out, fin))" "decoding X y e' \<or> is_finished (s_objs (e_sched e') y)"
    "length (output_token_ids (s_objs (e_sched e') y)) = Suc (length (output_token_ids (s_objs (e_sched e) y)))"
    "same_ask (s_objs (e_sched e) y) (s_objs (e_sched e') y)"
    by (rule decode_step [OF Suc.prems(1)])
  show ?case
  proof (cases "is_finished (s_objs (e_sched e') y)")
    case True
    then have "decode_until_finished n y e' = Some (Inr e')" by (cases n) simp_all
    then show ?thesis using True st(1) decodingD(1) [OF Suc.prems(1)] by simp
  next
    case False
    then have "\<exists>e''. decode_until_finished n y e' = Some (Inr e'') \<and> is_finished (s_objs (e_sched e'') y)"
      using st Suc.prems(2) by (intro Suc.IH) (auto simp: same_ask_def)
    then show ?thesis using st(1) decodingD(1) [OF Suc.prems(1)] by simp
  qed
qed

text \<open>What \<open>resume_decode\<close> leaves on an idle engine.\<close>

lemma resume_fields:
  assumes "resume_decode y h e = Inr e'" "bm_cache (s_bm (e_sched e)) = None"
  shows "s_running (e_sched e') = s_running (e_sched e) @ [y]" "s_waiting (e_sched e') = s_waiting (e_sched e)"
    "bm_block_size (s_bm (e_sched e')) = bm_block_size (s_bm (e_sched e))"
    "bm_num_gpu_blocks (s_bm (e_sched e')) = bm_num_gpu_blocks (s_bm (e_sched e))"
    "num_computed_tokens (s_objs (e_sched e') y) = int (length (ph_prompt_token_ids h))"
    "prompt_token_ids (s_objs (e_sched e') y) = ph_prompt_token_ids h"
    "output_token_ids (s_objs (e_sched e') y) = [ph_first_token_id h]"
  using assms by (auto simp: resume_decode_def Let_def bindE_Inr_iff allocate_def mk_request_def split: if_splits prod.splits)

lemma resumed_decoding:
  assumes "resume_decode y h e = Inr e'" "plain_inv X e" "idle e" "plain_inv (insert y Y) e'"
    and "int (length (ph_prompt_token_ids h) + token_limit (sampling_params (s_objs (e_sched e') y)))
         \<le> bm_num_gpu_blocks (s_bm (e_sched e)) * bm_block_size (s_bm (e_sched e)) + 1"
  shows "decoding (insert y Y) y e'"
proof -
  have "bm_cache (s_bm (e_sched e)) = None" using assms(2) by (simp add: plain_inv_def plain_core_def)
  note F = resume_fields [OF assms(1) this]
  show ?thesis using F assms(3-5) by (simp add: decoding_def idle_def get_len_def)
qed

subsection \<open>Disaggregated generation\<close>

text \<open>Up to the resumed state: the prefill engine has finished the request itself, or the decode
engine is about to continue it.\<close>

lemma disaggregated_resumes:
  assumes pe: "plain_inv X pe" "x \<notin> X" "idle pe"
    and ok: "\<And>i. servable (e_runner pe) (mk_request i prompt (case sp of None \<Rightarrow> default_sampling_params | Some q \<Rightarrow> q))"
    and fits: "int (length prompt) \<le> k * bm_block_size (s_bm (e_sched pe))"
      "bm_watermark_blocks (s_bm (e_sched pe)) + k \<le> bm_num_gpu_blocks (s_bm (e_sched pe))"
    and de: "plain_inv Y de" "y \<notin> Y" "map_of (s_requests (e_sched de)) (case rid of None \<Rightarrow> name (e_next_id pe) | Some i \<Rightarrow> i) = None"
    and pair: "paired pe de"
    and seat: "int (length (s_running (e_sched de))) < max_num_seqs (s_config (e_sched de))"
    and room: "int (length prompt) + 1 \<le> m * bm_block_size (s_bm (e_sched de))"
      "bm_watermark_blocks (s_bm (e_sched de)) + m \<le> num_free_blocks (s_bm (e_sched de))"
  defines "q \<equiv> case sp of None \<Rightarrow> default_sampling_params | Some q \<Rightarrow> q"
  obtains (stopped) pe1 r where "prefill name x prompt sp rid pe = Some (Inr (pe1, Inl (generation_output_of r)))" "idle pe1" "is_finished r"
      "prompt_token_ids r = prompt" "output_token_ids r = greedy_decode (greedy_next (e_runner pe)) q prompt (token_limit q) []"
  | (resumed) pe1 h de1 where "prefill name x prompt sp rid pe = Some (Inr (pe1, Inr h))" "idle pe1" "ph_prompt_token_ids h = prompt"
      "resume_decode y h de = Inr de1" "plain_inv (insert y Y) de1" "greedy_next (e_runner de1) = greedy_next (e_runner pe)"
      "prompt_token_ids (s_objs (e_sched de1) y) = prompt" "sampling_params (s_objs (e_sched de1) y) = q"
proof -
  obtain e1 where add: "engine_add_request name x prompt sp rid pe = Inr e1" using idle_adds [OF pe(1,3)] by blast
  note P = idle_prefilling [OF pe ok fits add, folded q_def]
  obtain e2 where e2: "prefill_loop x e1 = Some (Inr e2)" "prefilled (insert x X) x e2" "same_model e1 e2"
    "same_ask (s_objs (e_sched e1) x) (s_objs (e_sched e2) x)" using prefill_loop_returns [OF P(1)] by blast
  let ?r = "s_objs (e_sched e2) x"
  have r: "prompt_token_ids ?r = prompt" "sampling_params ?r = q" "request_id ?r = (case rid of None \<Rightarrow> name (e_next_id pe) | Some i \<Rightarrow> i)"
    using e2(4) P(3-5) by (simp_all add: same_ask_def)
  have model: "same_model pe e2" by (rule same_model_trans [OF P(2) e2(3)])
  have next2: "greedy_next (e_runner e2) = greedy_next (e_runner pe)" using model by (auto simp: same_model_def)
  have inv2: "plain_inv (insert x X) e2" using e2(2) by (simp add: prefilled_def)
  show ?thesis using add e2(1,2)
  proof (cases rule: prefill_result)
    case stopped
    have "served (greedy_next (e_runner e2)) ?r" using inv2 unfolding plain_inv_def by (blast dest: plain_coreD(8))
    then have "output_token_ids ?r = greedy_decode (greedy_next (e_runner pe)) q prompt (token_limit q) []"
      using stopped(1) by (simp add: served_def next2 greedy_output_def r)
    then show ?thesis using that(1) stopped r(1) by blast
  next
    case (handed s)
    have run: "x \<in> set (s_running (e_sched e2))" using e2(2) handed(1) by (simp add: prefilled_def)
    obtain t where t: "output_token_ids ?r = [t]" "num_computed_tokens ?r = int (length (prompt_token_ids ?r))"
      using e2(2) by (auto simp: prefilled_def)
    have bs: "0 < bm_block_size (s_bm (e_sched de))"
      using de(1) core_invD(3) unfolding plain_inv_def plain_core_def sched_inv_def bm_inv_def by blast
    have "get_len ?r \<le> m * bm_block_size (s_bm (e_sched de))" using room(1) t r(1) by (simp add: get_len_def)
    then have need: "bm_watermark_blocks (s_bm (e_sched de)) + num_blocks_needed ?r (bm_block_size (s_bm (e_sched de))) \<le> num_free_blocks (s_bm (e_sched de))"
      using room(2) num_blocks_needed_le_iff [OF bs, of ?r m] by linarith
    have new: "map_of (s_requests (e_sched de)) (request_id ?r) = None" using de(3) r(3) by simp
    obtain b de1 where d: "export_request_kv ?r (int (length (prompt_token_ids ?r))) (mr_kv (e_runner e2)) = Inr b"
      "resume_decode y (handoff_of ?r b) de = Inr de1" "plain_inv (insert y Y) de1" "greedy_next (e_runner de1) = greedy_next (e_runner e2)"
      "same_ask ?r (s_objs (e_sched de1) y)"
      by (rule handoff_resumes [OF inv2 run refl t de(1,2) new paired_model [OF model pair] seat need])
    have "ph_prompt_token_ids (handoff_of ?r b) = prompt" by (simp add: handoff_of_def r)
    then show ?thesis using that(2) [OF handed(3) [OF d(1)] handed(2) _ d(2,3)] d(4,5) next2 r by (simp add: same_ask_def)
  qed
qed

text \<open>On an idle decode engine the resumed request runs alone, and to its end.\<close>

lemma idle_pool:
  assumes inv: "plain_inv Y e" and idle: "idle e"
  shows "num_free_blocks (s_bm (e_sched e)) = bm_num_gpu_blocks (s_bm (e_sched e)) \<or> bm_num_gpu_blocks (s_bm (e_sched e)) < 0"
    "int (length (s_running (e_sched e))) < max_num_seqs (s_config (e_sched e))" "map_of (s_requests (e_sched e)) i = None"
proof -
  have core: "core_inv (e_sched e) [] []" and none: "bm_cache (s_bm (e_sched e)) = None" and cfg: "scheduler_config_ok (s_config (e_sched e))"
    using inv idle by (auto simp: plain_inv_def plain_core_def sched_inv_def idle_def)
  show "num_free_blocks (s_bm (e_sched e)) = bm_num_gpu_blocks (s_bm (e_sched e)) \<or> bm_num_gpu_blocks (s_bm (e_sched e)) < 0"
    using no_request_blocks [OF core none] by (auto simp: num_free_blocks_def)
  show "int (length (s_running (e_sched e))) < max_num_seqs (s_config (e_sched e))" using cfg idle by (simp add: scheduler_config_ok_def idle_def)
  show "map_of (s_requests (e_sched e)) i = None"
    using tracked_lookup(1) [OF core_invD(2) [OF core]] by (cases "map_of (s_requests (e_sched e)) i") force+
qed

lemma idle_room:
  assumes "plain_inv Y e" "idle e" "int n + 1 \<le> m * bm_block_size (s_bm (e_sched e))"
    and "bm_watermark_blocks (s_bm (e_sched e)) + m \<le> bm_num_gpu_blocks (s_bm (e_sched e))"
  shows "bm_watermark_blocks (s_bm (e_sched e)) + m \<le> num_free_blocks (s_bm (e_sched e))"
proof -
  have bm: "0 < bm_block_size (s_bm (e_sched e))" "0 \<le> bm_watermark_blocks (s_bm (e_sched e))"
    using assms(1) core_invD(3) unfolding plain_inv_def plain_core_def sched_inv_def bm_inv_def by blast+
  have "0 < m * bm_block_size (s_bm (e_sched e))" using assms(3) by linarith
  then have "0 < m" using bm(1) by (simp add: zero_less_mult_iff)
  then show ?thesis using idle_pool(1) [OF assms(1,2)] assms(4) bm(2) by linarith
qed

lemma lone_resumed:
  assumes pe: "plain_inv X pe" "x \<notin> X" "idle pe"
    and ok: "\<And>i. servable (e_runner pe) (mk_request i prompt (case sp of None \<Rightarrow> default_sampling_params | Some q \<Rightarrow> q))"
    and fits: "int (length prompt) \<le> k * bm_block_size (s_bm (e_sched pe))"
      "bm_watermark_blocks (s_bm (e_sched pe)) + k \<le> bm_num_gpu_blocks (s_bm (e_sched pe))"
    and de: "plain_inv Y de" "y \<notin> Y" "idle de" and pair: "paired pe de"
    and room: "int (length prompt) + 1 \<le> m * bm_block_size (s_bm (e_sched de))"
      "bm_watermark_blocks (s_bm (e_sched de)) + m \<le> bm_num_gpu_blocks (s_bm (e_sched de))"
      "int (length prompt + token_limit (case sp of None \<Rightarrow> default_sampling_params | Some q \<Rightarrow> q))
         \<le> bm_num_gpu_blocks (s_bm (e_sched de)) * bm_block_size (s_bm (e_sched de)) + 1"
    and run: "prefill name x prompt sp rid pe = Some (Inr (pe1, Inr h))" "resume_decode y h de = Inr de1"
  shows "decoding (insert y Y) y de1"
proof -
  note I = idle_pool [OF de(1,3)]
  have free: "bm_watermark_blocks (s_bm (e_sched de)) + m \<le> num_free_blocks (s_bm (e_sched de))"
    by (rule idle_room [OF de(1,3) room(1,2)])
  show ?thesis using pe ok fits de(1,2) I(3) pair I(2) room(1) free
  proof (cases rule: disaggregated_resumes [where name = name and rid = rid])
    case (stopped pe2 r)
    then show ?thesis using run(1) by simp
  next
    case (resumed pe2 h' de2)
    then have eq: "h' = h" "de2 = de1" using run by simp_all
    show ?thesis
      by (rule resumed_decoding [OF run(2) de(1,3)]) (use resumed room(3) in \<open>simp_all add: eq\<close>)
  qed
qed


text \<open>An instance: a one-layer model, the prompt of three tokens prefilled two tokens a step into blocks
of two, and decoded in blocks of four to its second and last token.\<close>

definition pd_engine :: "int \<Rightarrow> int \<Rightarrow> rat engine" where
  "pd_engine bs blocks = LLMEngine (\<lambda>_ _. 0) tiny_numerics
     \<lparr>block_size = bs, num_gpu_blocks = blocks, watermark_blocks = 0, enable_prefix_caching = False, int8_kv = False\<rparr>
     \<lparr>max_num_seqs = 2, max_num_batched_tokens = 2, max_cache_hit_context_tokens = None\<rparr>
     tiny_config tiny_weights None None (\<lambda>_. mk_request [] [] default_sampling_params)"

definition pd_params :: sampling_params where
  "pd_params = \<lparr>max_tokens = 2, eos_token_id = None\<rparr>"

lemma pd_engine_ok: "0 < bs \<Longrightarrow> 0 < n \<Longrightarrow> plain_inv {} (pd_engine bs n)"
  unfolding pd_engine_def using tiny_weights_fit
  by (intro plain_inv_init) (simp_all add: cache_config_ok_def scheduler_config_ok_def)

lemma pd_engine_simps:
  "idle (pd_engine bs n)" "bm_block_size (s_bm (e_sched (pd_engine bs n))) = bs" "bm_num_gpu_blocks (s_bm (e_sched (pd_engine bs n))) = n"
  "bm_watermark_blocks (s_bm (e_sched (pd_engine bs n))) = 0" "num_free_blocks (s_bm (e_sched (pd_engine bs n))) = int (nat n)"
  "s_requests (e_sched (pd_engine bs n)) = []" "s_running (e_sched (pd_engine bs n)) = []" "max_num_seqs (s_config (e_sched (pd_engine bs n))) = 2"
  by (simp_all add: pd_engine_def LLMEngine_def Scheduler_def BlockManager_def idle_def num_free_blocks_def)

lemma pd_paired: "paired (pd_engine bs n) (pd_engine bs' n')"
  by (simp add: paired_def pd_engine_def LLMEngine_def ModelRunner_def PagedKVCache_def Let_def split_def tiny_config_def tiny_weights_def)

lemma pd_servable: "Engine_Refinement.servable (e_runner (pd_engine bs n)) (mk_request i [0, 1, 2] pd_params)"
proof -
  have "length (mr_cos (e_runner (pd_engine bs n))) = 8"
    by (simp add: pd_engine_def LLMEngine_def ModelRunner_def precompute_rope_def Let_def tiny_config_def)
  moreover have "mr_weights (e_runner (pd_engine bs n)) = tiny_weights"
    by (simp add: pd_engine_def LLMEngine_def ModelRunner_def Let_def split_def)
  ultimately show ?thesis
    by (auto simp: servable_def mk_request_def all_token_ids_def in_vocab_def tiny_weights_def pd_params_def token_limit_def)
qed



text \<open>C38: between two idle engines disaggregated generation always completes.  When the prompt fits the
prefill engine, the prompt and its whole output fit the decode engine, and the step bound allows for
\<open>max_tokens\<close>, \<open>generate_disaggregated\<close> returns a finished output whose tokens are exactly those that
greedy decoding of the prompt with the dense forward pass gives: no preemption can disturb it, and
no run condition is left.  The engines are as for C6: no prefix cache, no drafts, plain caches.\<close>

theorem disaggregated_completes:
  assumes pe: "plain_inv X pe" "x \<notin> X" "idle pe"
    and ok: "\<And>i. Engine_Refinement.servable (e_runner pe) (mk_request i prompt (case sp of None \<Rightarrow> default_sampling_params | Some q \<Rightarrow> q))"
    and fits: "int (length prompt) \<le> k * bm_block_size (s_bm (e_sched pe))"
      "bm_watermark_blocks (s_bm (e_sched pe)) + k \<le> bm_num_gpu_blocks (s_bm (e_sched pe))"
    and de: "plain_inv Y de" "y \<notin> Y" "idle de" and pair: "paired pe de"
    and room: "int (length prompt) + 1 \<le> m * bm_block_size (s_bm (e_sched de))"
      "bm_watermark_blocks (s_bm (e_sched de)) + m \<le> bm_num_gpu_blocks (s_bm (e_sched de))"
      "int (length prompt + token_limit (case sp of None \<Rightarrow> default_sampling_params | Some q \<Rightarrow> q))
         \<le> bm_num_gpu_blocks (s_bm (e_sched de)) * bm_block_size (s_bm (e_sched de)) + 1"
    and steps: "token_limit (case sp of None \<Rightarrow> default_sampling_params | Some q \<Rightarrow> q) \<le> Suc n"
  shows "\<exists>pe1 de1 out. generate_disaggregated name x y prompt sp rid n pe de = Some (Inr (pe1, de1, out))
    \<and> idle pe1 \<and> status_finished (go_finish_reason out) \<and> go_prompt_token_ids out = prompt
    \<and> go_output_token_ids out = (let q = (case sp of None \<Rightarrow> default_sampling_params | Some q \<Rightarrow> q)
         in greedy_decode (greedy_next (e_runner pe)) q prompt (token_limit q) [])"
proof -
  note L = lone_resumed [OF pe ok fits de pair room]
  note I = idle_pool [OF de(1,3)]
  have free: "bm_watermark_blocks (s_bm (e_sched de)) + m \<le> num_free_blocks (s_bm (e_sched de))"
    by (rule idle_room [OF de(1,3) room(1,2)])
  show ?thesis using pe ok fits de(1,2) I(3) pair I(2) room(1) free
  proof (cases rule: disaggregated_resumes [where name = name and rid = rid])
    case (stopped pe1 r)
    then show ?thesis by (simp add: generate_disaggregated_def generation_output_of_def is_finished_def Let_def)
  next
    case (resumed pe1 h de1)
    have dec: "decoding (insert y Y) y de1" by (rule L [OF resumed(1,4)])
    have "output_token_ids (s_objs (e_sched de1) y) \<noteq> []" using dec by (simp add: decoding_def)
    then have "token_limit (sampling_params (s_objs (e_sched de1) y)) \<le> length (output_token_ids (s_objs (e_sched de1) y)) + n"
      using steps resumed(8) by (cases "output_token_ids (s_objs (e_sched de1) y)") auto
    from decode_finishes [OF dec this] obtain de2 where de2: "decode_until_finished n y de1 = Some (Inr de2)" "is_finished (s_objs (e_sched de2) y)" by blast
    have more: "plain_inv (insert y Y) de2" "greedy_next (e_runner de2) = greedy_next (e_runner de1)" "same_ask (s_objs (e_sched de1) y) (s_objs (e_sched de2) y)"
      using plain_decode [OF resumed(5) decode_whole_lone [OF dec], of n] de2(1) by auto
    have "served (greedy_next (e_runner de2)) (s_objs (e_sched de2) y)"
      using more(1) unfolding plain_inv_def by (blast dest: plain_coreD(8))
    then show ?thesis using resumed de2 more
      by (auto simp: generate_disaggregated_def generation_output_of_def served_def is_finished_def greedy_output_def same_ask_def Let_def)
  qed
qed

theorem disaggregated_completes_witness:
  "\<exists>pe1 de1 out. generate_disaggregated (\<lambda>_. ''r'') 0 1 [0, 1, 2] (Some pd_params) None 1 (pd_engine 2 2) (pd_engine 4 1) = Some (Inr (pe1, de1, out))
    \<and> idle pe1 \<and> status_finished (go_finish_reason out) \<and> go_prompt_token_ids out = [0, 1, 2]
    \<and> go_output_token_ids out = greedy_decode (greedy_next (e_runner (pd_engine 2 2))) pd_params [0, 1, 2] 2 []"
proof -
  have "token_limit pd_params = 2" by (simp add: token_limit_def pd_params_def)
  then show ?thesis
    using disaggregated_completes [where sp = "Some pd_params" and k = 2 and m = 1 and n = 1 and prompt = "[0, 1, 2]",
        OF pd_engine_ok _ _ _ _ _ pd_engine_ok _ _ pd_paired] pd_servable
    by (simp add: pd_engine_simps)
qed

end
