(* ===== verification/Prefix_Cache_Properties.thy ===== *)
theory Prefix_Cache_Properties
  imports Block_Manager "HOL-Library.Countable"
begin

text \<open>
  What the trie and the block manager promise their callers, and the two places where the
  code breaks a promise its documentation makes.
\<close>

subsection \<open>A hash function without collisions\<close>

definition exact_hash :: hash_function where
  "exact_hash p b = int (to_nat (p, b))"

lemma exact_hash_collision_free: "collision_free exact_hash"
  by (simp add: collision_free_def exact_hash_def)

subsection \<open>Lookup\<close>

definition cached_path :: "radix_trie \<Rightarrow> int list \<Rightarrow> node_addr list \<Rightarrow> bool" where
  "cached_path t toks as \<longleftrightarrow> node_path t None as \<and> length as * nat (t_block_size t) \<le> length toks
     \<and> map (\<lambda>a. n_token_ids (t_store t a)) as = map (token_block (t_block_size t) toks) [0..<length as]"

lemma cached_path_matched:
  assumes "trie_inv t" and "cached_path t toks as"
  shows "take (length as) (match_nodes (trie_match t toks)) = as"
proof -
  let ?full = "length toks div nat (t_block_size t)" and ?blocks = "map (token_block (t_block_size t) toks)"
  have bs: "0 < t_block_size t" using assms(1) by (simp add: trie_inv_def)
  have as: "node_path t None as" "length as \<le> ?full"
    using assms(2) bs by (auto simp: cached_path_def less_eq_div_iff_mult_less_eq)
  then have "map (\<lambda>a. n_token_ids (t_store t a)) as = take (length as) (?blocks [0..<?full])"
    using assms(2) by (simp add: cached_path_def take_map)
  from match_walk_complete [OF assms(1) as(1) _ this] as(2) show ?thesis by (simp add: trie_match_nodes level_of_def)
qed

text \<open>C23: a lookup finds the longest cached prefix, whatever the hash function: the nodes it
returns are a path from the root whose blocks spell exactly the first matched tokens, and every
cached path that spells a prefix of the query is a prefix of the one returned.\<close>

theorem match_longest_cached_prefix:
  assumes "trie_inv t"
  shows "cached_path t toks (match_nodes (trie_match t toks))
    \<and> concat (map (\<lambda>a. n_token_ids (t_store t a)) (match_nodes (trie_match t toks)))
        = take (nat (num_matched_tokens (trie_match t toks))) toks
    \<and> (\<forall>as. cached_path t toks as \<longrightarrow> take (length as) (match_nodes (trie_match t toks)) = as)"
proof -
  let ?bs = "nat (t_block_size t)" and ?n = "length (match_nodes (trie_match t toks))"
  let ?blocks = "map (token_block (t_block_size t) toks) [0..<length toks div ?bs]"
  have bs: "0 < t_block_size t" using assms by (simp add: trie_inv_def)
  have nodes: "match_nodes (trie_match t toks) = match_walk t None (t_roots t) ?blocks" by (rule trie_match_nodes)
  have n: "?n \<le> length toks div ?bs" using match_walk_length [of t None "t_roots t" ?blocks] by (simp add: nodes)
  have "map (\<lambda>a. n_token_ids (t_store t a)) (match_nodes (trie_match t toks)) = take ?n ?blocks"
    unfolding nodes by (rule match_walk_tokens)
  then have "cached_path t toks (match_nodes (trie_match t toks))"
    using trie_match_path [OF assms] n bs by (simp add: cached_path_def take_map less_eq_div_iff_mult_less_eq)
  then show ?thesis using trie_match_tokens(1) [OF bs] cached_path_matched [OF assms] by blast
qed

text \<open>A path that insertion built spells any prompt with the same computed tokens.\<close>

lemma token_block_same:
  assumes "0 < bs" "i < nat (n div bs)" "take (nat n) toks' = take (nat n) toks"
  shows "token_block bs toks' i = token_block bs toks i" "nat (n div bs) * nat bs \<le> nat n"
proof -
  show len: "nat (n div bs) * nat bs \<le> nat n"
  proof (cases "0 \<le> n")
    case True
    then have "int (nat (n div bs)) * bs \<le> n" using assms(1) int_le_div_iff [OF assms(1), of "int (nat (n div bs))" n]
      by (simp add: pos_imp_zdiv_nonneg_iff)
    then show ?thesis using True assms(1) by (metis int_nat_eq nat_int nat_mono nat_mult_distrib of_nat_0_le_iff)
  next
    case False
    then have "n div bs < 0" using assms(1) by (simp add: pos_imp_zdiv_neg_iff)
    then show ?thesis by simp
  qed
  have "(i + 1) * nat bs \<le> nat (n div bs) * nat bs" using assms(2) by (intro mult_right_mono) auto
  with len have le: "(i + 1) * nat bs \<le> nat n" by linarith
  have "py_slice a b xs = py_slice a b (take (nat n) xs)" if "b \<le> nat n" for a b and xs :: "int list"
    using that by (simp add: py_slice_def drop_take min_def take_take)
  from this [OF le] show "token_block bs toks' i = token_block bs toks i" unfolding token_block_def using assms(3) by metis
qed

lemma insert_rel_cached_path:
  assumes "cached_path t toks known" "0 < t_block_size t" and len: "nat n \<le> length toks" and rel: "insert_rel toks phys known t nodes t'"
    and n: "length nodes \<le> nat (n div t_block_size t)" and same: "take (nat n) toks' = take (nat n) toks"
  shows "cached_path t' toks' nodes"
proof -
  let ?bs = "t_block_size t"
  have path: "node_path t None known" using assms(1) by (simp add: cached_path_def)
  have path': "node_path t' None nodes" and bs': "t_block_size t' = ?bs"
    and pre: "take (length known) nodes = known" and lk: "length known \<le> length nodes"
    and kept: "\<And>a. live t a \<Longrightarrow> kept t t' a"
    and new: "\<And>i. length known \<le> i \<Longrightarrow> i < length nodes \<Longrightarrow> n_token_ids (t_store t' (nodes ! i)) = token_block ?bs toks i"
    using rel by (auto simp: insert_rel_def)
  have tok: "n_token_ids (t_store t' (nodes ! i)) = token_block ?bs toks i" if "i < length nodes" for i
  proof (cases "length known \<le> i")
    case True
    then show ?thesis using new that by blast
  next
    case False
    then have i: "i < length known" "nodes ! i = known ! i" using pre by (simp, metis nth_take not_le)
    have "n_token_ids (t_store t (known ! i)) = map (\<lambda>a. n_token_ids (t_store t a)) known ! i" using i by simp
    also have "\<dots> = token_block ?bs toks i" using assms(1) i(1) by (simp add: cached_path_def)
    finally show ?thesis using kept [of "known ! i"] node_path_live [OF path, of "known ! i"] i by (simp add: kept_def)
  qed
  have fits: "length nodes * nat ?bs \<le> length toks'"
  proof (cases "nodes = []")
    case False
    then have "0 < nat (n div ?bs)" using n by (metis length_greater_0_conv less_le_trans)
    from token_block_same(2) [OF assms(2) this same] have "nat (n div ?bs) * nat ?bs \<le> nat n" .
    then have "length nodes * nat ?bs \<le> nat n" using n by (meson le_trans mult_le_mono1)
    moreover have "nat n \<le> length toks" using len .
    ultimately have "length nodes * nat ?bs \<le> length (take (nat n) toks)" by simp
    then show ?thesis unfolding same [symmetric] by simp
  qed simp
  show ?thesis
    unfolding cached_path_def bs'
    using path' fits tok token_block_same(1) [OF assms(2) _ same] n by (auto intro!: nth_equalityI)
qed

text \<open>C24: what was registered is found, with any hash function.  An \<open>insert\<close> of the first
\<open>n_computed\<close> tokens of a prompt returns a node for each of their full blocks, or stops early at a
block whose hash another block of the same level has; every query that shares these tokens matches
the blocks registered, through the nodes \<open>insert\<close> returned, and a block that was not cached before
is served from the very physical block the request computed it in.  The condition is on this one
insertion: no block it adds has the hash of a cached block with another parent
(\<open>collision_breaks_eviction\<close> below shows that such a clash breaks the trie).\<close>

theorem insert_then_match:
  assumes "trie_inv t" and "clash_free_insert t toks phys n_computed known"
    and "cached_path t toks known"
    and "n_computed \<le> int (length toks)" and "length known \<le> nat (n_computed div t_block_size t)"
    and "nat (n_computed div t_block_size t) \<le> length phys"
    and "take (nat n_computed) toks' = take (nat n_computed) toks"
  shows "\<exists>t' nodes. trie_insert t toks phys n_computed known = Inr (t', nodes) \<and> trie_inv t'
     \<and> length nodes \<le> nat (n_computed div t_block_size t)
     \<and> (length nodes = nat (n_computed div t_block_size t) \<or> blocked toks nodes t')
     \<and> take (length nodes) (match_nodes (trie_match t' toks')) = nodes
     \<and> (\<forall>i < length nodes. length known \<le> i \<longrightarrow> \<not> live t (nodes ! i) \<longrightarrow>
           n_physical_block_id (t_store t' (nodes ! i)) = phys ! i)"
proof -
  have path: "node_path t None known" using assms(3) by (simp add: cached_path_def)
  have bs: "0 < t_block_size t" using assms(1) by (simp add: trie_inv_def)
  obtain t' nodes where r: "trie_insert t toks phys n_computed known = Inr (t', nodes)"
    "length nodes \<le> nat (n_computed div t_block_size t)"
    "length nodes = nat (n_computed div t_block_size t) \<or> blocked toks nodes t'" "insert_rel toks phys known t nodes t'"
    by (rule trie_insert_complete [OF assms(1,2) path assms(4,5,6)])
  have inv': "trie_inv t'" and new: "\<And>i. length known \<le> i \<Longrightarrow> i < length nodes
      \<Longrightarrow> live t (nodes ! i) \<or> n_physical_block_id (t_store t' (nodes ! i)) = phys ! i"
    using r(4) by (auto simp: insert_rel_def)
  have "nat n_computed \<le> length toks" using assms(4) by simp
  then have "take (length nodes) (match_nodes (trie_match t' toks')) = nodes"
    by (intro cached_path_matched [OF inv'] insert_rel_cached_path [OF assms(3) bs _ r(4,2) assms(7)])
  then show ?thesis using r(1-3) inv' new by blast
qed

text \<open>Instances: a prompt of two full blocks under a hash of the tokens alone that is no more than
their sum, and a second prompt whose second block collides with the first one's: only its first
block, which the two share, is registered.\<close>

definition sum_hash :: hash_function where
  "sum_hash p b = (case p of None \<Rightarrow> 0 | Some h \<Rightarrow> 1000 * (h + 1)) + sum_list b"

definition ex_two_blocks :: "(radix_trie \<times> node_addr list) or_raise" where
  "ex_two_blocks = trie_insert (RadixTrie 2 sum_hash) [1, 2, 3, 4, 5] [7, 9, 11] 5 []"

lemma ex_two_blocks_runs:
  "case ex_two_blocks of Inl _ \<Rightarrow> False | Inr (t, nodes) \<Rightarrow> nodes = [0, 1] \<and> t_block_size t = 2
     \<and> clash_free_insert t [1, 2, 4, 3] [7, 13] 4 [] \<and> bindE (trie_insert t [1, 2, 4, 3] [7, 13] 4 []) (\<lambda>(_, ns). Inr ns) = Inr [0]"
  by code_simp

lemma ex_two_blocks_path:
  obtains t where "ex_two_blocks = Inr (t, [0, 1])" "trie_inv t" "cached_path t [1, 2, 3, 4, 5, 8] [0, 1]"
proof -
  obtain t where t: "ex_two_blocks = Inr (t, [0, 1])" "t_block_size t = 2" using ex_two_blocks_runs by (auto split: sum.splits)
  have "clash_free_insert (RadixTrie 2 sum_hash) [1, 2, 3, 4, 5] [7, 9, 11] 5 []" by code_simp
  then have r: "insert_rel [1, 2, 3, 4, 5] [7, 9, 11] [] (RadixTrie 2 sum_hash) [0, 1] t"
    by (intro trie_insert_rel(1) [OF t(1) [unfolded ex_two_blocks_def] trie_inv_init]) simp_all
  then have "n_token_ids (t_store t ([0, 1] ! i)) = token_block (t_block_size (RadixTrie 2 sum_hash)) [1, 2, 3, 4, 5] i" if "i < 2" for i
    using that by (simp add: insert_rel_def)
  from this [of 0] this [of 1] have "n_token_ids (t_store t 0) = [1, 2]" "n_token_ids (t_store t 1) = [3, 4]"
    by (simp_all add: RadixTrie_def token_block_def py_slice_def)
  then have "cached_path t [1, 2, 3, 4, 5, 8] [0, 1]"
    using r t(2) by (simp add: insert_rel_def cached_path_def token_block_def py_slice_def)
  then show ?thesis using that t(1) r by (simp add: insert_rel_def)
qed

text \<open>The lookup of a prompt that continues the two blocks, in the trie that holds them.\<close>

theorem match_longest_cached_prefix_witness:
  "\<exists>t. ex_two_blocks = Inr (t, [0, 1]) \<and> take 2 (match_nodes (trie_match t [1, 2, 3, 4, 5, 8])) = [0, 1]"
proof -
  obtain t where t: "ex_two_blocks = Inr (t, [0, 1])" "trie_inv t" "cached_path t [1, 2, 3, 4, 5, 8] [0, 1]"
    by (rule ex_two_blocks_path)
  have "take (length [0, 1 :: nat]) (match_nodes (trie_match t [1, 2, 3, 4, 5, 8])) = [0, 1]"
    using match_longest_cached_prefix [OF t(2), of "[1, 2, 3, 4, 5, 8]"] t(3) by blast
  then show ?thesis using t(1) by (intro exI [of _ t]) (simp add: numeral_2_eq_2)
qed

theorem insert_then_match_witness:
  "\<exists>t t'. ex_two_blocks = Inr (t, [0, 1]) \<and> take 2 (match_nodes (trie_match t [1, 2, 3, 4, 5, 8])) = [0, 1]
     \<and> trie_insert t [1, 2, 4, 3] [7, 13] 4 [] = Inr (t', [0]) \<and> take 1 (match_nodes (trie_match t' [1, 2, 4, 3, 6])) = [0]"
proof -
  let ?t0 = "RadixTrie 2 sum_hash"
  have inv: "trie_inv ?t0" by (rule trie_inv_init) simp
  have cf: "clash_free_insert ?t0 [1, 2, 3, 4, 5] [7, 9, 11] 5 []" by code_simp
  obtain t where run: "ex_two_blocks = Inr (t, [0, 1])" "t_block_size t = 2" "clash_free_insert t [1, 2, 4, 3] [7, 13] 4 []"
      "bindE (trie_insert t [1, 2, 4, 3] [7, 13] 4 []) (\<lambda>(_, ns). Inr ns) = Inr [0]"
    using ex_two_blocks_runs by (auto split: sum.splits)
  have t: "trie_inv t" "take 2 (match_nodes (trie_match t [1, 2, 3, 4, 5, 8])) = [0, 1]"
    using insert_then_match [OF inv cf, of "[1, 2, 3, 4, 5, 8]"] run(1)
    by (auto simp: cached_path_def RadixTrie_def ex_two_blocks_def numeral_2_eq_2)
  obtain t' where t': "trie_insert t [1, 2, 4, 3] [7, 13] 4 [] = Inr (t', [0])"
    using run(4) by (auto simp: bindE_Inr_iff)
  have "take 1 (match_nodes (trie_match t' [1, 2, 4, 3, 6])) = [0]"
    using insert_then_match [OF t(1) run(3), of "[1, 2, 4, 3, 6]"] t' run(2) by (auto simp: cached_path_def)
  with run(1) t(2) t' show ?thesis by blast
qed

subsection \<open>Eviction\<close>

text \<open>C25: eviction takes the least recently used block nobody needs, and only that one: if some
cached leaf is unreferenced, \<open>evict_one_lru\<close> frees the block of one such leaf, used no later
than any other, every other node stays cached with its block, and the trie stays well formed.\<close>

theorem evict_least_recently_used:
  assumes "trie_inv t" and "\<exists>a. live t a \<and> evictable t a"
  shows "\<exists>t' v. evict_one_lru t = Inr (t', Some (n_physical_block_id (t_store t v))) \<and> trie_inv t'
     \<and> live t v \<and> evictable t v
     \<and> (\<forall>b. live t b \<and> evictable t b \<longrightarrow> n_last_used (t_store t v) \<le> n_last_used (t_store t b))
     \<and> (\<forall>b. live t' b \<longleftrightarrow> live t b \<and> b \<noteq> v)
     \<and> (\<forall>b. n_physical_block_id (t_store t' b) = n_physical_block_id (t_store t b)
          \<and> n_token_ids (t_store t' b) = n_token_ids (t_store t b) \<and> n_ref_count (t_store t' b) = n_ref_count (t_store t b))"
proof -
  have c: "eviction_candidates t \<noteq> []" using assms eviction_candidates_iff [OF assms(1)] by (metis empty_iff empty_set)
  obtain t' where t': "evict_one_lru t = Inr (t', Some (n_physical_block_id (t_store t (lru_victim t))))" "trie_inv t'"
    "\<And>c. live t' c \<longleftrightarrow> live t c \<and> c \<noteq> lru_victim t"
    "\<And>c. \<exists>ch. t_store t' c = (t_store t c)\<lparr>n_children := ch\<rparr>"
    using evict_one_lru_inv [OF assms(1) c] by metis
  have "n_physical_block_id (t_store t' b) = n_physical_block_id (t_store t b)
          \<and> n_token_ids (t_store t' b) = n_token_ids (t_store t b) \<and> n_ref_count (t_store t' b) = n_ref_count (t_store t b)" for b
    using t'(4) [of b] by auto
  then show ?thesis using t' lru_victim_props [OF assms(1) c]
    by (intro exI [of _ t'] exI [of _ "lru_victim t"] conjI) simp_all
qed

subsection \<open>Small tries and managers to run\<close>

definition ex_hash :: hash_function where
  "ex_hash p b = (case p of None \<Rightarrow> 0 | Some h \<Rightarrow> h * 31) + sum_list b + 1"

definition ok_or :: "'b \<Rightarrow> 'b or_raise \<Rightarrow> 'b" where "ok_or d r = (case r of Inl _ \<Rightarrow> d | Inr x \<Rightarrow> x)"

text \<open>One prompt block, computed and registered, then unreferenced.\<close>

definition ex_trie :: radix_trie where
  "ex_trie = (let t0 = RadixTrie 1 exact_hash in
     ok_or t0 (bindE (trie_insert t0 [5] [3] 1 []) (\<lambda>(t, nodes). release t nodes)))"

lemma ex_trie_props: "trie_inv ex_trie" "live ex_trie 0" "evictable ex_trie 0"
proof -
  let ?h = "exact_hash None [5]" and ?t0 = "RadixTrie 1 exact_hash"
  have ins: "\<exists>t1. trie_insert ?t0 [5] [3] 1 [] = Inr (t1, [0]) \<and> t_by_hash t1 = [(?h, 0)] \<and> t_store t1 0 =
     \<lparr>n_block_hash = ?h, n_parent_hash = None, n_token_ids = [5], n_physical_block_id = 3,
      n_ref_count = 1, n_children = [], n_last_used = 1\<rparr>"
    by (simp add: trie_insert_def RadixTrie_def upt_rec token_block_def py_slice_def py_nth_def level_of_def
        new_node_def set_level_def touch_node_def upd_node_def Let_def)
  then obtain t1 where t1: "trie_insert ?t0 [5] [3] 1 [] = Inr (t1, [0])" "t_by_hash t1 = [(?h, 0)]" "t_store t1 0 =
     \<lparr>n_block_hash = ?h, n_parent_hash = None, n_token_ids = [5], n_physical_block_id = 3,
      n_ref_count = 1, n_children = [], n_last_used = 1\<rparr>" by blast
  have inv0: "trie_inv ?t0" "clash_free_insert ?t0 [5] [3] 1 []"
    using trie_inv_init by (auto simp: RadixTrie_def intro!: clash_freeI exact_hash_collision_free)
  have "insert_rel [5] [3] [] ?t0 [0] t1"
    by (rule trie_insert_rel(1) [OF t1(1) inv0]) (simp_all add: RadixTrie_def)
  then have inv1: "trie_inv t1" by (simp add: insert_rel_def)
  let ?t = "upd_node 0 (\<lambda>n. n\<lparr>n_ref_count := n_ref_count n - 1\<rparr>) t1"
  have rel: "release t1 [0] = Inr ?t" using t1(3) by (simp add: release_def release_one_def)
  have eq: "ex_trie = ?t" using t1(1) rel by (simp add: ex_trie_def ok_or_def Let_def)
  show "trie_inv ex_trie" unfolding eq using same_shape_inv [OF release_shape [OF rel]] inv1 by simp
  show "live ex_trie 0" "evictable ex_trie 0" unfolding eq using t1
    by (simp_all add: live_def evictable_def upd_node_def)
qed

theorem evict_least_recently_used_witness:
  "\<exists>t' v. evict_one_lru ex_trie = Inr (t', Some (n_physical_block_id (t_store ex_trie v)))"
  using evict_least_recently_used [OF ex_trie_props(1)] ex_trie_props(2,3) by blast

subsection \<open>A hash collision between two levels\<close>

text \<open>
  The module says a hash collision can never do worse than miss an opportunity to share.
  Between two blocks of one level that is so (the token comparison of \<open>match_walk\<close> and
  \<open>insert_walk\<close>); but \<open>_by_hash\<close> is one dictionary for all levels, and when a block's hash
  equals that of a block on another level the newer node replaces the older one in it, and
  evicting the newer one looks for its parent under the wrong hash.
\<close>

definition ex_collision :: "radix_trie or_raise" where
  "ex_collision = bindE (trie_insert (RadixTrie 1 (\<lambda>_ _. 0)) [1, 2] [4, 5] 2 []) (\<lambda>(t, nodes). release t nodes)"

text \<open>a hash collision between a cached block and the block after it makes eviction raise
\<open>KeyError\<close>: with a hash function that maps both blocks of a two-block prompt to one value, registering the prompt and releasing it
leaves a trie on which \<open>evict_one_lru\<close> fails instead of freeing a block.\<close>

theorem collision_breaks_eviction:
  "raised (bindE ex_collision evict_one_lru) = Some KeyError"
  by code_simp

text \<open>what \<open>can_allocate\<close> approves, \<open>allocate\<close> delivers, as long as no block of the match is
itself waiting to be evicted: the table is created, its first blocks are the matched ones, and
the manager's invariant is kept.\<close>

theorem can_allocate_sufficient:
  assumes "bm_inv bm held" and "map_of (bm_tables bm) (request_id r) = None"
    and "can_allocate bm r (match_prefix bm (prompt_token_ids r))"
    and "\<forall>t. bm_cache bm = Some t \<longrightarrow> (\<forall>a \<in> set (match_nodes (trie_match t (prompt_token_ids r))). \<not> evictable t a)"
  shows "\<exists>bm' r'. allocate bm r (match_prefix bm (prompt_token_ids r)) = Inr (bm', r') \<and> admitted bm r bm' r'
    \<and> bm_inv bm' (held(request_id r := cached_prefix_nodes r'))"
proof (cases "bm_cache bm")
  case None
  then have m: "match_prefix bm (prompt_token_ids r) = None" by (simp add: match_prefix_def)
  obtain bm' r' where a: "allocate bm r None = Inr (bm', r')" "admitted bm r bm' r'"
    "bm_inv bm' (held(request_id r := cached_prefix_nodes r))"
    by (rule allocate_uncached [OF assms(1) None assms(2)]) (use assms(3) m in simp_all)
  have "cached_prefix_nodes r' = cached_prefix_nodes r" using a(2) None by (auto simp: admitted_def match_prefix_def)
  with a m show ?thesis by auto
next
  case (Some t)
  let ?m = "trie_match t (prompt_token_ids r)"
  let ?t1 = "acquire t ?m (int (length (prompt_token_ids r)))"
  have tinv: "trie_inv t" and wm: "0 \<le> bm_watermark_blocks bm" using assms(1) Some by (auto simp: bm_inv_def cache_ok_def)
  note sh = acquire_shape [of t ?m "int (length (prompt_token_ids r))"]
  have d: "distinct (match_nodes ?m)" by (rule node_path_distinct [OF trie_match_path [OF tinv]])
  have "{a. live t a \<and> evictable t a} \<subseteq> {a. live ?t1 a \<and> evictable ?t1 a}"
    using assms(4) Some same_shape_live [OF sh] sh acquire_refs [OF d, of t "int (length (prompt_token_ids r))"]
    by (auto simp: evictable_def same_shape_def)
  moreover have "finite {a. live ?t1 a \<and> evictable ?t1 a}" using finite_live [of ?t1] same_shape_inv [OF sh] tinv by simp
  ultimately have "num_evictable_blocks t \<le> num_evictable_blocks ?t1"
    using same_shape_inv [OF sh] tinv by (simp add: num_evictable_card card_mono)
  moreover have "num_blocks_needed r (bm_block_size bm) - int (length (match_nodes ?m)) \<le> num_free_blocks bm + num_evictable_blocks t"
    using assms(3) Some wm by (simp add: can_allocate_def match_prefix_def matched_blocks_def trie_match_fields)
  ultimately have enough: "\<not> num_free_blocks bm + num_evictable_blocks ?t1 < num_blocks_needed r (bm_block_size bm) - int (length (match_nodes ?m))"
    by linarith
  have "admitted bm r bm' r' \<Longrightarrow> cached_prefix_nodes r' = match_nodes ?m" for bm' r'
    using Some by (auto simp: admitted_def match_prefix_def)
  with allocate_cached [OF assms(1) Some assms(2) disjI2 [OF refl] refl] enough show ?thesis by fastforce
qed

definition ex_request :: "string \<Rightarrow> int list \<Rightarrow> request" where
  "ex_request rid toks = mk_request rid toks default_sampling_params"

theorem can_allocate_sufficient_witness:
  "\<exists>bm' r'. allocate (BlockManager exact_hash \<lparr>block_size = 2, num_gpu_blocks = 3, watermark_blocks = 0,
      enable_prefix_caching = True, int8_kv = False\<rparr>) (ex_request ''a'' [1, 2, 3])
      (match_prefix (BlockManager exact_hash \<lparr>block_size = 2, num_gpu_blocks = 3, watermark_blocks = 0,
      enable_prefix_caching = True, int8_kv = False\<rparr>) [1, 2, 3]) = Inr (bm', r')"
proof -
  let ?c = "\<lparr>block_size = 2, num_gpu_blocks = 3, watermark_blocks = 0, enable_prefix_caching = True, int8_kv = False\<rparr>"
  let ?bm = "BlockManager exact_hash ?c" and ?r = "ex_request ''a'' [1, 2, 3]"
  have inv: "bm_inv ?bm (\<lambda>_. [])"
    by (rule bm_inv_init) (simp add: cache_config_ok_def)
  have none: "match_nodes (trie_match (RadixTrie 2 exact_hash) [1, 2, 3]) = []"
    by (simp add: trie_match_def RadixTrie_def)
  have "map_of (bm_tables ?bm) (request_id ?r) = None" "prompt_token_ids ?r = [1, 2, 3]"
    by (simp_all add: BlockManager_def ex_request_def mk_request_def)
  moreover have "can_allocate ?bm ?r (match_prefix ?bm (prompt_token_ids ?r))"
    using none by (simp add: can_allocate_def BlockManager_def match_prefix_def matched_blocks_def trie_match_fields
        num_free_blocks_def ex_request_def mk_request_def num_blocks_needed_def get_len_def num_evictable_blocks_def
        eviction_candidates_def RadixTrie_def)
  moreover have "\<forall>t. bm_cache ?bm = Some t \<longrightarrow> (\<forall>a \<in> set (match_nodes (trie_match t (prompt_token_ids ?r))). \<not> evictable t a)"
    using none by (simp add: BlockManager_def ex_request_def mk_request_def)
  ultimately show ?thesis using can_allocate_sufficient [OF inv, of ?r] by auto
qed

text \<open>
  Without the last condition the check is not enough: the request's own matched block counts as
  evictable in \<open>can_allocate\<close>, and \<open>allocate\<close> pins it before it evicts.  Two blocks of one token:
  one request leaves the block of token 1 cached and unreferenced, the next one asks for the
  prompt 1, 2, 3.
\<close>

definition ex_overcommit :: "block_manager or_raise" where
  "ex_overcommit =
     (let bm0 = BlockManager ex_hash \<lparr>block_size = 1, num_gpu_blocks = 2, watermark_blocks = 0,
                  enable_prefix_caching = True, int8_kv = False\<rparr>
      in bindE (allocate bm0 (ex_request ''a'' [1]) None) (\<lambda>(bm1, r1).
         bindE (insert_computed_prefix bm1 (r1\<lparr>num_computed_tokens := 1\<rparr>)) (\<lambda>(bm2, r2).
         bindE (free_blocks bm2 r2) (\<lambda>(bm3, r3). Inr bm3))))"

text \<open>\<open>can_allocate\<close> can approve a request that \<open>allocate\<close> then refuses with
\<open>OutOfMemoryError\<close>, in a state the manager's own operations lead to.\<close>

lemma can_allocate_overcommits:
  "raised (bindE ex_overcommit (\<lambda>bm. let r = ex_request ''b'' [1, 2, 3]; m = match_prefix bm (prompt_token_ids r) in
     if can_allocate bm r m then allocate bm r m else Inl AssertionError)) = Some OutOfMemoryError"
  by code_simp

end
