(* ===== verification/Model_Properties.thy ===== *)
theory Model_Properties
  imports Engine_Properties
begin

text \<open>
  Properties of the kernels, of the paged KV cache and of the dense model, each with a concrete
  instance.
\<close>

subsection \<open>The kernels\<close>

text \<open>C31: the tiled matrix product.  Over the whole launch grid, with the swizzled order of the tiles
and masked partial tiles, every element of the output is stored exactly once, nothing outside the
matrix is stored, and the value stored is the element of the matrix product.\<close>

theorem matmul_kernel_correct:
  assumes pos: "0 < BM" "0 < BN" "0 < BK" "0 < GM"
    and A: "length A = M" "\<forall>r \<in> set A. length r = K" and B: "length B = K" "length (hd B) = N"
  shows "distinct (map fst (matmul_stores BM BN BK GM M N K A B)) \<and>
    set (matmul_stores BM BN BK GM M N K A B) = {((m, n), mat_mul A B ! m ! n) | m n. m < M \<and> n < N}"
proof -
  have val: "v = mat_mul A B ! m ! n" if z: "((m, n), v) \<in> set (matmul_stores BM BN BK GM M N K A B)" for m n v
  proof -
    have "(m, n) \<in> fst ` set (matmul_stores BM BN BK GM M N K A B)" using z by force
    then have "m < M" "n < N" using matmul_stores_once(2) [OF pos, of M N K A B] by auto
    moreover obtain pid where "((m, n), v) \<in> set (matmul_program BM BN BK GM M N K A B pid)"
      using z by (auto simp: matmul_stores_def)
    ultimately show ?thesis using matmul_program_value [OF _ pos(3)] mat_mul_entry [of m A K B n] A B by simp
  qed
  have "set (matmul_stores BM BN BK GM M N K A B) = {((m, n), mat_mul A B ! m ! n) | m n. m < M \<and> n < N}" (is "?S = ?T")
  proof (rule set_eqI)
    fix z :: "(nat \<times> nat) \<times> 'a"
    obtain m n v where z: "z = ((m, n), v)" by (metis surj_pair)
    have keys: "(m, n) \<in> fst ` ?S \<longleftrightarrow> m < M \<and> n < N" using matmul_stores_once(2) [OF pos, of M N K A B] by auto
    then have "z \<in> ?T" if "z \<in> ?S" using that val [of m n v] unfolding z by force
    moreover have "z \<in> ?S" if "z \<in> ?T"
    proof -
      have m: "m < M" "n < N" "v = mat_mul A B ! m ! n" using that unfolding z by auto
      obtain u where "((m, n), u) \<in> ?S" using m keys by force
      then show ?thesis using val [of m n u] m(3) unfolding z by simp
    qed
    ultimately show "z \<in> ?S \<longleftrightarrow> z \<in> ?T" by blast
  qed
  then show ?thesis using matmul_stores_once(1) [OF pos] by blast
qed

theorem matmul_kernel_correct_witness:
  "distinct (map fst (matmul_stores 2 2 2 2 3 1 3 [[1, 2, 3], [4, 5, 6], [7, 8, 9]] [[1], [0], [1::rat]])) \<and> set (matmul_stores 2 2 2 2 3 1 3 [[1, 2, 3], [4, 5, 6], [7, 8, 9]] [[1], [0], [1::rat]])
     = {((m, n), mat_mul [[1, 2, 3], [4, 5, 6], [7, 8, 9]] [[1], [0], [1]] ! m ! n) | m n. m < 3 \<and> n < 1}"
  by (rule matmul_kernel_correct) simp_all

text \<open>C13: flash attention is attention.  Sweeping the keys tile by tile with a running maximum and a
rescaled accumulator, and skipping the tiles past the diagonal, gives for every head and every tile
size exactly the causal softmax attention of the docstring, for any function with the law of the
exponential.\<close>

theorem flash_attention_is_softmax:
  assumes "is_exp ex" "0 < BM" "0 < BN" "length ks = length qs" "length vs = length qs"
  shows "flash_attention_forward ex scale causal BM BN qs ks vs
    = Inr (if causal then causal_attention ex scale qs ks vs else map (\<lambda>q. attend ex scale q ks vs) qs)"
proof (cases causal)
  case True
  then show ?thesis using flash_attention_eq [OF assms] by simp
next
  case False
  have "map (\<lambda>m. flash_row ex scale False (length qs) BM BN ks vs (qs ! m) m) [0..<length qs] = map (\<lambda>m. attend ex scale (qs ! m) ks vs) [0..<length qs]"
    using assms by (intro map_cong refl) (simp add: flash_row_eq)
  also have "\<dots> = map (\<lambda>q. attend ex scale q ks vs) qs" by (rule nth_equalityI) simp_all
  finally show ?thesis using assms False by (simp add: flash_attention_forward_def)
qed

theorem flash_attention_is_softmax_witness:
  "flash_attention_forward (exp :: real \<Rightarrow> real) (1 / 2) True 2 2 [[1, 0], [0, 1], [1, 1]] [[1, 0], [0, 1], [1, 1]] [[1, 2], [3, 4], [5, 6]]
     = Inr (causal_attention exp (1 / 2) [[1, 0], [0, 1], [1, 1]] [[1, 0], [0, 1], [1, 1]] [[1, 2], [3, 4], [5, 6]])"
  using flash_attention_is_softmax [of "exp :: real \<Rightarrow> real" 2 2 "[[1, 0], [0, 1], [1, 1]]" "[[1, 0], [0, 1], [1, 1]]" "[[1, 2], [3, 4], [5, 6]]" "1 / 2" True]
  by (simp add: is_exp_def exp_add)

subsection \<open>The paged KV cache\<close>

text \<open>C21: what is written is read back.  Writing rows of the cache's shape over a run of positions of
a request, at a layer the cache has, and reading its first \<open>n\<close> positions there returns, in a plain
cache, the rows just written at theirs and what was there at the others, and in an int8 cache rows
within half a quantization step per head.  At a layer past the last one both the write and the read
raise an \<open>IndexError\<close>.\<close>

theorem kv_write_then_read:
  fixes c :: "'a::floor_ceiling kv_cache"
  assumes cov: "covers c r n" and d: "distinct (block_table r)"
    and pos: "0 \<le> start" "start + int (length ks) \<le> n"
    and shaped: "list_all (row_shaped (kv_num_heads c) (kv_head_dim c)) (ks @ vs)" and len: "length vs = length ks"
  shows "if l < kv_n_layers c then \<exists>c'. kv_write l r start ks vs c = Inr c' \<and> kv_read l r n c' = Inr (
      map (\<lambda>p. if start \<le> p \<and> p < start + int (length ks) then decode_row (encode_row (kv_int8 c) (ks ! nat (p - start)))
               else k_row c l (block_table r) p) [0..n - 1],
      map (\<lambda>p. if start \<le> p \<and> p < start + int (length ks) then decode_row (encode_row (kv_int8 c) (vs ! nat (p - start)))
               else v_row c l (block_table r) p) [0..n - 1])
    \<and> (\<forall>x :: 'a heads. if kv_int8 c then within_step x (decode_row (encode_row (kv_int8 c) x)) else decode_row (encode_row (kv_int8 c) x) = x)
    else kv_write l r start ks vs c = Inl IndexError \<and> kv_read l r n c = Inl IndexError"
proof (cases "l < kv_n_layers c")
  case l: True
  have fit: "rows_shaped c ks" "rows_shaped c vs" using shaped by simp_all
  obtain c' where w: "kv_write l r start ks vs c = Inr c'" using kv_write_ok [OF cov pos l fit len] by (simp add: Let_def)
  note sh = kv_write_shape [OF w]
  have cov': "covers c' r n" using cov sh(8) by simp
  have row: "k_row c' l (block_table r) p = (if start \<le> p \<and> p < start + int (length ks) then decode_row (encode_row (kv_int8 c) (ks ! nat (p - start)))
               else k_row c l (block_table r) p)
    \<and> v_row c' l (block_table r) p = (if start \<le> p \<and> p < start + int (length ks) then decode_row (encode_row (kv_int8 c) (vs ! nat (p - start)))
               else v_row c l (block_table r) p)" if p: "p \<in> set [0..n - 1]" for p
  proof (cases "start \<le> p \<and> p < start + int (length ks)")
    case True
    then have j: "nat (p - start) < length ks" "start + int (nat (p - start)) = p" by linarith+
    show ?thesis using kv_write_same [OF w cov d pos l fit len j(1)] True by (simp add: j(2))
  next
    case False
    then show ?thesis using kv_write_before [OF w cov d pos, of p] p by auto
  qed
  have "kv_read l r n c' = Inr (map (k_row c' l (block_table r)) [0..n - 1], map (v_row c' l (block_table r)) [0..n - 1])"
    by (rule kv_read_ok [OF cov']) (simp add: sh(4) l)
  moreover have "if kv_int8 c then within_step x (decode_row (encode_row (kv_int8 c) x)) else decode_row (encode_row (kv_int8 c) x) = x" for x :: "'a heads"
    using int8.dec_enc [of x] plain.dec_enc [of x] by (cases "kv_int8 c") auto
  ultimately show ?thesis using w row l by (auto intro!: exI [of _ c'])
next
  case False
  then have "kv_n_layers c \<le> l" by simp
  then show ?thesis using kv_layer_IndexError [OF _ cov] pos by simp
qed

theorem kv_write_then_read_witness:
  "\<exists>c'. kv_write 0 (tiny_request [0, 1] []) 0 [[[1, 2, 3, 4]], [[5, 6, 7, 8::rat]]] [[[1, 1, 1, 1]], [[2, 2, 2, 2]]] (mr_kv tiny_runner) = Inr c'
     \<and> kv_read 0 (tiny_request [0, 1] []) 2 c' = Inr ([[[1, 2, 3, 4]], [[5, 6, 7, 8]]], [[[1, 1, 1, 1]], [[2, 2, 2, 2]]])"
proof -
  have cov: "covers (mr_kv tiny_runner) (tiny_request [0, 1] []) 2" by (simp add: covers_def tiny_request_def tiny_runner_simps)
  have d: "distinct (block_table (tiny_request [0, 1] []))" by (simp add: tiny_request_def)
  have u: "[0..1] = [0, 1::int]" by (simp add: upto_rec1)
  have dims: "kv_n_layers (mr_kv tiny_runner) = 1" "kv_num_heads (mr_kv tiny_runner) = 1" "kv_head_dim (mr_kv tiny_runner) = 4"
    by (simp_all add: tiny_runner_def ModelRunner_def Let_def split_def PagedKVCache_def)
  show ?thesis
    using kv_write_then_read [OF cov d, of 0 "[[[1, 2, 3, 4]], [[5, 6, 7, 8]]]" "[[[1, 1, 1, 1]], [[2, 2, 2, 2]]]" 0]
    by (auto simp: u dims tiny_runner_simps encode_row_def row_shaped_def)
qed

text \<open>C22: a request's cache survives the move to another engine.  Exporting the first \<open>n\<close> positions
of a well typed cache (every cell a row of its heads, which \<open>kv_write\<close> keeps) and importing them
into another cache of the same model shape, whatever the block sizes and the physical blocks on
either side, makes every position read there what it read here: exactly, or within half a
quantization step if the receiving cache is int8.\<close>

theorem kv_transfer_roundtrip:
  assumes src: "covers a r n" "0 \<le> n" "kv_typed a" and dst: "covers c r' n" "distinct (block_table r')"
    and shape: "kv_n_layers a = kv_n_layers c" "kv_num_heads a = kv_num_heads c" "kv_head_dim a = kv_head_dim c"
      "kv_compute_dtype a = kv_compute_dtype c"
  shows "\<exists>b c'. export_request_kv r n a = Inr b \<and> import_request_kv r' b c = Inr c'
    \<and> (\<forall>l < kv_n_layers c. \<forall>p \<in> {0..<n}.
      (if kv_int8 c then within_step (k_row a l (block_table r) p) (k_row c' l (block_table r') p)
         \<and> within_step (v_row a l (block_table r) p) (v_row c' l (block_table r') p)
       else k_row c' l (block_table r') p = k_row a l (block_table r) p \<and> v_row c' l (block_table r') p = v_row a l (block_table r) p))"
proof -
  obtain b c' where t: "export_request_kv r n a = Inr b" "import_request_kv r' b c = Inr c'"
    "\<forall>l < kv_n_layers c. \<forall>p \<in> {0..<n}. k_row c' l (block_table r') p = decode_row (encode_row (kv_int8 c) (k_row a l (block_table r) p)) \<and>
      v_row c' l (block_table r') p = decode_row (encode_row (kv_int8 c) (v_row a l (block_table r) p))"
    using transfer [OF src dst shape] by blast
  have "if kv_int8 c then within_step x (decode_row (encode_row (kv_int8 c) x)) else decode_row (encode_row (kv_int8 c) x) = x" for x :: "'a heads"
    using int8.dec_enc [of x] plain.dec_enc [of x] by (cases "kv_int8 c") auto
  then show ?thesis using t by (intro exI [of _ b] exI [of _ c']) (auto split: if_splits)
qed

theorem kv_transfer_roundtrip_witness:
  "\<exists>b c'. export_request_kv (tiny_request [0, 1, 2] []) 3 (mr_kv tiny_runner) = Inr b
     \<and> import_request_kv ((tiny_request [0, 1, 2] [])\<lparr>block_table := [1]\<rparr>) b (PagedKVCache 4 2 True float32 1 1 4) = Inr c'"
proof -
  have s: "covers (mr_kv tiny_runner) (tiny_request [0, 1, 2] []) 3" by (simp add: covers_def tiny_request_def tiny_runner_simps)
  have t: "covers (PagedKVCache 4 2 True float32 1 1 4 :: rat kv_cache) ((tiny_request [0, 1, 2] [])\<lparr>block_table := [1]\<rparr>) 3"
    by (simp add: covers_def PagedKVCache_def)
  have k: "kv_typed (mr_kv tiny_runner)"
    by (simp add: kv_typed_def tiny_runner_def ModelRunner_def Let_def split_def PagedKVCache_def blank_cell_def row_shaped_def list_all_iff)
  show ?thesis using kv_transfer_roundtrip [OF s _ k t]
    by (auto simp: tiny_runner_def ModelRunner_def Let_def split_def PagedKVCache_def)
qed

subsection \<open>The dense model\<close>

text \<open>\<open>reference_llama_forward\<close>: the residual kept explicitly, a plain norm, library attention.\<close>

definition reference_layer :: "'a::linordered_field numerics \<Rightarrow> 'a llama_config \<Rightarrow> ('a list \<times> 'a list) list
    \<Rightarrow> 'a layer_weights \<Rightarrow> 'a list list \<Rightarrow> 'a list list" where
  "reference_layer num c rope w residual =
     (let norm = rmsnorm (n_rsqrt num) (rms_eps c);
          normed = map (norm (input_layernorm_weight w)) residual;
          (q, k, v) = qkv c w rope normed;
          n_rep = n_heads c div num_kv_heads c;
          attn_out = attention_heads num c q (map (repeat_kv n_rep) k) (map (repeat_kv n_rep) v);
          residual1 = map2 vadd residual (mat_mul (map concat attn_out) (o_proj w));
          normed2 = map (norm (post_attention_layernorm_weight w)) residual1
      in map2 vadd residual1 (mlp num w normed2))"

definition reference_llama_forward :: "'a::linordered_field numerics \<Rightarrow> 'a llama_config \<Rightarrow> 'a llama_weights \<Rightarrow> int list
    \<Rightarrow> 'a list list or_raise" where
  "reference_llama_forward num c W tokens =
     (if \<not> (\<forall>t \<in> set tokens. 0 \<le> t \<and> nat t < length (embed_tokens W)) then Inl IndexError
      else if max_seq_len c < length tokens then Inl RuntimeError
      else
        let (cos, sin) = precompute_rope num c;
            residual = fold (reference_layer num c (zip cos sin)) (layers W) (map (\<lambda>t. embed_tokens W ! nat t) tokens)
        in Inr (mat_mul (map (rmsnorm (n_rsqrt num) (rms_eps c) (norm_weight W)) residual) (lm_head W)))"

text \<open>Every vector of the residual stream has the hidden size.\<close>

definition layer_shaped :: "nat \<Rightarrow> 'a layer_weights \<Rightarrow> bool" where
  "layer_shaped H w \<longleftrightarrow> length (input_layernorm_weight w) = H \<and> length (post_attention_layernorm_weight w) = H
     \<and> length (hd (o_proj w)) = H \<and> length (hd (down_proj w)) = H"

definition weights_shaped :: "nat \<Rightarrow> 'a llama_weights \<Rightarrow> bool" where
  "weights_shaped H W \<longleftrightarrow> list_all (\<lambda>r. length r = H) (embed_tokens W) \<and> length (norm_weight W) = H \<and> list_all (layer_shaped H) (layers W)"

lemma vadd_commute: "vadd x y = vadd y (x :: 'a::ab_semigroup_add list)"
  by (rule nth_equalityI) (simp_all add: vadd_def add.commute)

lemma length_vadd [simp]: "length (vadd x y) = min (length x) (length y)"
  by (simp add: vadd_def)

lemma fused_rows:
  assumes "length xs = length rs" "list_all (\<lambda>r. length r = H) xs" "list_all (\<lambda>r. length r = H) rs" "length weight = H"
  shows "fused_add_rmsnorm rsqrt eps weight xs rs = (map (rmsnorm rsqrt eps weight) (map2 vadd xs rs), map2 vadd xs rs)"
proof -
  have "map2 (rmsnorm_program rsqrt eps weight) xs rs = map (\<lambda>h. (rmsnorm rsqrt eps weight h, h)) (map2 vadd xs rs)"
  proof (rule nth_equalityI)
    fix i assume "i < length (map2 (rmsnorm_program rsqrt eps weight) xs rs)"
    then have i: "i < length xs" "i < length rs" using assms(1) by simp_all
    then have "rmsnorm_program rsqrt eps weight (xs ! i) (rs ! i) = (rmsnorm rsqrt eps weight (vadd (xs ! i) (rs ! i)), vadd (xs ! i) (rs ! i))"
      using assms by (intro rmsnorm_program_eq) (auto simp: list_all_length)
    then show "map2 (rmsnorm_program rsqrt eps weight) xs rs ! i = map (\<lambda>h. (rmsnorm rsqrt eps weight h, h)) (map2 vadd xs rs) ! i"
      using i by simp
  qed simp
  then show ?thesis by (simp add: fused_add_rmsnorm_def Let_def comp_def)
qed

lemma map2_vadd_commute: "map2 vadd xs ys = map2 vadd ys (xs :: 'a::ab_semigroup_add list list)"
  by (rule nth_equalityI) (simp_all add: vadd_commute)

lemma shaped_map2: "list_all (\<lambda>r. length r = H) xs \<Longrightarrow> list_all (\<lambda>r. length r = H) ys \<Longrightarrow> list_all (\<lambda>r. length r = H) (map2 vadd xs ys)"
  by (simp add: list_all_length)

lemma shaped_mat_mul: "length (hd B) = H \<Longrightarrow> list_all (\<lambda>r. length r = H) (mat_mul A B)"
  by (simp add: mat_mul_def row_mul_def list_all_iff)

lemma length_mat_mul [simp]: "length (mat_mul A B) = length A"
  by (simp add: mat_mul_def)

lemma dense_reference_layer:
  assumes ls: "layer_shaped H w" and len: "length x = N" "length res = N" "N \<le> length rope"
    and sh: "list_all (\<lambda>r. length r = H) x" "list_all (\<lambda>r. length r = H) res"
  shows "case dense_layer num c rope w (x, res) of (x', res') \<Rightarrow>
    reference_layer num c rope w (map2 vadd x res) = map2 vadd x' res' \<and> length x' = N \<and> length res' = N
    \<and> list_all (\<lambda>r. length r = H) x' \<and> list_all (\<lambda>r. length r = H) res'"
proof -
  let ?R = "map2 vadd x res" and ?norm = "rmsnorm (n_rsqrt num) (rms_eps c)"
  have L: "length (input_layernorm_weight w) = H" "length (post_attention_layernorm_weight w) = H" "length (hd (o_proj w)) = H" "length (hd (down_proj w)) = H"
    using ls by (auto simp: layer_shaped_def)
  obtain q k v where qkv: "qkv c w rope (map (?norm (input_layernorm_weight w)) ?R) = (q, k, v)" by (metis prod_cases3)
  have lq: "length q = N" using qkv len by (auto simp: qkv_def Let_def)
  let ?n = "n_heads c div num_kv_heads c"
  let ?a = "attention_heads num c q (map (repeat_kv ?n) k) (map (repeat_kv ?n) v)"
  let ?x1 = "mat_mul (map concat ?a) (o_proj w)"
  have la: "length ?x1 = N" using lq by (simp add: attention_heads_def Let_def)
  have s1: "list_all (\<lambda>r. length r = H) ?x1" by (rule shaped_mat_mul [OF L(3)])
  have sR: "list_all (\<lambda>r. length r = H) ?R" by (rule shaped_map2 [OF sh])
  have lR: "length ?R = N" using len by simp
  have f1: "fused_add_rmsnorm (n_rsqrt num) (rms_eps c) (input_layernorm_weight w) x res = (map (?norm (input_layernorm_weight w)) ?R, ?R)"
    by (rule fused_rows [OF _ sh L(1)]) (simp add: len)
  have f2: "fused_add_rmsnorm (n_rsqrt num) (rms_eps c) (post_attention_layernorm_weight w) ?x1 ?R
      = (map (?norm (post_attention_layernorm_weight w)) (map2 vadd ?x1 ?R), map2 vadd ?x1 ?R)"
    by (rule fused_rows [OF _ s1 sR L(2)]) (simp only: la lR)
  let ?m = "mlp num w (map (?norm (post_attention_layernorm_weight w)) (map2 vadd ?x1 ?R))"
  have d: "dense_layer num c rope w (x, res) = (?m, map2 vadd ?x1 ?R)"
    unfolding dense_layer_def split_conv f1 Let_def qkv f2 by (rule refl)
  have r: "reference_layer num c rope w ?R = map2 vadd ?m (map2 vadd ?x1 ?R)"
    unfolding reference_layer_def Let_def qkv split_conv map2_vadd_commute [of ?R ?x1] by (rule map2_vadd_commute)
  have lm: "length ?m = N" using la lR by (simp add: mlp_def Let_def)
  have sm: "list_all (\<lambda>r. length r = H) ?m" unfolding mlp_def Let_def by (rule shaped_mat_mul [OF L(4)])
  have s2: "list_all (\<lambda>r. length r = H) (map2 vadd ?x1 ?R)" by (rule shaped_map2 [OF s1 sR])
  have l2: "length (map2 vadd ?x1 ?R) = N" using la lR by simp
  show ?thesis unfolding d split_conv using r lm l2 sm s2 by blast
qed

lemma dense_reference_layers:
  assumes "list_all (layer_shaped H) ws" "length x = N" "length res = N" "N \<le> length rope"
    "list_all (\<lambda>r. length r = H) x" "list_all (\<lambda>r. length r = H) res"
  shows "case fold (dense_layer num c rope) ws (x, res) of (x', res') \<Rightarrow>
    fold (reference_layer num c rope) ws (map2 vadd x res) = map2 vadd x' res' \<and> length x' = N \<and> length res' = N
    \<and> list_all (\<lambda>r. length r = H) x' \<and> list_all (\<lambda>r. length r = H) res'"
  using assms
proof (induction ws arbitrary: x res)
  case (Cons w ws)
  obtain x1 res1 where d: "dense_layer num c rope w (x, res) = (x1, res1)" by fastforce
  have "layer_shaped H w" using Cons.prems(1) by simp
  from dense_reference_layer [OF this Cons.prems(2-6), of num c, unfolded d split_conv] have
    h: "reference_layer num c rope w (map2 vadd x res) = map2 vadd x1 res1" "length x1 = N" "length res1 = N"
      "list_all (\<lambda>r. length r = H) x1" "list_all (\<lambda>r. length r = H) res1" by blast+
  show ?case using Cons.IH [of x1 res1] Cons.prems(1,4) h by (simp add: d)
qed simp

text \<open>C32: the kernel-built forward pass is the reference model.  \<open>llama_forward\<close>, which folds each
residual into the next fused norm and feeds a zero vector to the first, returns for every input,
errors included, the logits of \<open>reference_llama_forward\<close>, which keeps the residual explicitly: no
sublayer's output is dropped or counted twice.\<close>

theorem llama_forward_reference:
  assumes "weights_shaped H W"
  shows "llama_forward num c W tokens = reference_llama_forward num c W tokens"
proof (cases "(\<forall>t \<in> set tokens. 0 \<le> t \<and> nat t < length (embed_tokens W)) \<and> \<not> max_seq_len c < length tokens")
  case False
  then show ?thesis by (auto simp: llama_forward_def reference_llama_forward_def)
next
  case True
  obtain cs sn where rope: "precompute_rope num c = (cs, sn)" by fastforce
  have lr: "length tokens \<le> length (zip cs sn)" using rope True by (auto simp: precompute_rope_def Let_def)
  let ?res = "map (\<lambda>t. embed_tokens W ! nat t) tokens"
  let ?x = "map (\<lambda>r. replicate (length r) 0) ?res"
  have sres: "list_all (\<lambda>r. length r = H) ?res" using True assms by (auto simp: weights_shaped_def list_all_iff)
  then have sx: "list_all (\<lambda>r. length r = H) ?x" by (simp add: list_all_iff)
  have zero: "map2 vadd ?x ?res = ?res"
    by (rule nth_equalityI) (simp_all add: vadd_def list_eq_iff_nth_eq)
  obtain x' res' where f: "fold (dense_layer num c (zip cs sn)) (layers W) (?x, ?res) = (x', res')" by fastforce
  have ls: "list_all (layer_shaped H) (layers W)" using assms by (simp add: weights_shaped_def)
  have "case fold (dense_layer num c (zip cs sn)) (layers W) (?x, ?res) of (x', res') \<Rightarrow>
    fold (reference_layer num c (zip cs sn)) (layers W) (map2 vadd ?x ?res) = map2 vadd x' res' \<and> length x' = length tokens
    \<and> length res' = length tokens \<and> list_all (\<lambda>r. length r = H) x' \<and> list_all (\<lambda>r. length r = H) res'"
    by (rule dense_reference_layers [OF ls _ _ lr sx sres]) simp_all
  then have h: "fold (reference_layer num c (zip cs sn)) (layers W) ?res = map2 vadd x' res'" "length x' = length res'"
      "list_all (\<lambda>r. length r = H) x'" "list_all (\<lambda>r. length r = H) res'"
    unfolding f zero by simp_all
  have "fused_add_rmsnorm (n_rsqrt num) (rms_eps c) (norm_weight W) x' res'
      = (map (rmsnorm (n_rsqrt num) (rms_eps c) (norm_weight W)) (map2 vadd x' res'), map2 vadd x' res')"
    by (rule fused_rows [OF h(2-4)]) (use assms in \<open>simp add: weights_shaped_def\<close>)
  then show ?thesis using True f h(1)
    by (simp add: llama_forward_def reference_llama_forward_def rope llama_hidden_def embed_def Let_def)
qed

theorem llama_forward_reference_witness:
  "llama_forward tiny_numerics tiny_config tiny_weights [0, 1, 2] = reference_llama_forward tiny_numerics tiny_config tiny_weights [0, 1, 2]"
  by (rule llama_forward_reference [of 4]) (simp add: weights_shaped_def layer_shaped_def tiny_weights_def)

subsection \<open>The type of the cache\<close>

lemma encode_typed: "row_shaped nh d hs \<Longrightarrow> cell_typed int8 nh d (encode_row int8 hs)"
  by (auto simp: encode_row_def quantize_row_def quantize_head_def row_shaped_def list_all_iff clamp_def Let_def less_imp_le [OF head_scale_pos])

lemma scatter_typed:
  "\<forall>l b i. P (t l b i) \<Longrightarrow> \<forall>x \<in> set cells. P x \<Longrightarrow> length cells = length locs \<Longrightarrow> P (scatter l0 locs cells t l b i)"
proof (induction locs arbitrary: cells t)
  case (Cons p locs)
  obtain x xs where c: "cells = x # xs" using Cons.prems(3) by (cases cells) auto
  show ?case unfolding c scatter_Cons
    by (rule Cons.IH) (use Cons.prems c in \<open>auto simp del: split_paired_All\<close>)
qed simp

text \<open>C37: the cache is well typed and stays so.  A new cache holds only cells of its storage format
and shape, and a write that goes through, whatever its rows, keeps it so (rows that do not broadcast
to the shape of the cells raise): int8 caches hold bytes between -127 and 127 with one non-negative
scale per head, plain ones rows of heads.\<close>

theorem kv_write_keeps_type:
  assumes "kv_typed c" "kv_write l r start ks vs c = Inr c'"
  shows "kv_typed (PagedKVCache bs nb i8 dt n nh d :: 'a::floor_ceiling kv_cache) \<and> kv_typed (c' :: 'a kv_cache)"
proof -
  have new: "kv_typed (PagedKVCache bs nb i8 dt n nh d :: 'a kv_cache)"
    by (simp add: kv_typed_def PagedKVCache_def blank_cell_def row_shaped_def list_all_iff)
  obtain locs ks' vs' where rows: "broadcast_rows (length locs) (kv_num_heads c) (kv_head_dim c) ks = Some ks'"
      "broadcast_rows (length locs) (kv_num_heads c) (kv_head_dim c) vs = Some vs'"
    and c': "c' = c\<lparr>kv_k := scatter l locs (map (encode_row (kv_int8 c)) ks') (kv_k c), kv_v := scatter l locs (map (encode_row (kv_int8 c)) vs') (kv_v c)\<rparr>"
    using assms(2) by (auto simp: kv_write_def bindE_Inr_iff split: if_splits option.splits)
  let ?P = "cell_typed (kv_int8 c) (kv_num_heads c) (kv_head_dim c)"
  have typed: "\<forall>x \<in> set (map (encode_row (kv_int8 c)) ks'). ?P x" "\<forall>x \<in> set (map (encode_row (kv_int8 c)) vs'). ?P x"
    and len: "length ks' = length locs" "length vs' = length locs"
    using rows [THEN broadcast_rows_result] by (auto simp: list_all_iff intro: encode_typed)
  have "?P (scatter l locs (map (encode_row (kv_int8 c)) ks') (kv_k c) l' b i)"
    "?P (scatter l locs (map (encode_row (kv_int8 c)) vs') (kv_v c) l' b i)" for l' b i
    using assms(1) typed len by (auto simp: kv_typed_def intro!: scatter_typed [where P = ?P])
  then have "kv_typed c'" by (simp add: kv_typed_def c')
  with new show ?thesis by blast
qed

theorem kv_write_keeps_type_witness:
  "\<exists>c'. kv_write 0 (tiny_request [0] []) 0 [[[1, 2, 3, 4]]] [[[5, 6, 7, 8::rat]]] (PagedKVCache 2 4 True float32 1 1 4) = Inr c' \<and> kv_typed c'"
proof -
  let ?c = "PagedKVCache 2 4 True float32 1 1 4 :: rat kv_cache"
  have cov: "covers ?c (tiny_request [0] []) 1" by (simp add: covers_def tiny_request_def PagedKVCache_def)
  obtain c' where w: "kv_write 0 (tiny_request [0] []) 0 [[[1, 2, 3, 4]]] [[[5, 6, 7, 8::rat]]] ?c = Inr c'"
    using kv_write_ok [OF cov, of 0 "[[[1, 2, 3, 4]]]" 0 "[[[5, 6, 7, 8]]]"] by (simp add: Let_def row_shaped_def PagedKVCache_def)
  have new: "kv_typed ?c" by (simp add: kv_typed_def PagedKVCache_def blank_cell_def row_shaped_def list_all_iff)
  show ?thesis using kv_write_keeps_type [OF new w] w by (simp add: row_shaped_def PagedKVCache_def)
qed

end
