(* ===== verification/Engine_Worker.thy ===== *)
theory Engine_Worker
  imports PD_Disaggregation
begin

text \<open>
  \<^verbatim>\<open>server/engine_worker.py\<close>: the one thread that owns the engine, the queue the HTTP handlers
  put submissions and aborts into, and the stream each request reads its tokens from.

  The worker touches only an engine-shaped interface (module docstring), so its operations take
  that interface as a record of functions; theory \<open>Engine_Worker_Properties\<close> states what the
  worker relies on and provides it for \<open>LLMEngine\<close>.  A stream handle is an object shared by
  both sides, so handles live in a heap; a handle's queue is everything put into it, in order.
  Clock readings are arguments.  A step of the system (\<open>worker_event\<close>) is one queue operation of
  a client or one stage of the engine thread's loop, so a list of events is an interleaving.
\<close>

subsection \<open>Streams\<close>

text \<open>The finish reason is the status' member name, here the status itself.\<close>

datatype stream_item = StreamToken int | StreamEnd request_status

record stream_handle =
  sh_request_id :: string
  sh_queue :: "stream_item list"
  sh_scheduled_ns :: "int option"

type_synonym href = nat

definition StreamHandle :: "string \<Rightarrow> stream_handle" where
  "StreamHandle rid = \<lparr>sh_request_id = rid, sh_queue = [], sh_scheduled_ns = None\<rparr>"

text \<open>What the generator \<open>stream\<close> has yielded once it has read these items.\<close>

fun stream :: "stream_item list \<Rightarrow> stream_item list" where
  "stream [] = []"
| "stream (StreamToken t # items) = StreamToken t # stream items"
| "stream (StreamEnd r # items) = [StreamEnd r]"

subsection \<open>The worker's state\<close>

record submission =
  sub_prompt_token_ids :: "int list"
  sub_sampling_params :: sampling_params
  sub_request_id :: string
  sub_timeout_s :: "real option"
  sub_handle :: href

datatype incoming = Submission submission | Abort string

text \<open>Histograms are the lists of their observations, newest last.\<close>

record worker_metrics =
  m_requests :: "request_status \<Rightarrow> nat"
  m_step :: "(bool \<times> real) list"
  m_batch :: "nat list"
  m_queue_wait :: "real list"
  m_preempt :: nat
  m_kv :: real
  m_waiting :: nat
  m_running :: nat

definition empty_metrics :: worker_metrics where
  "empty_metrics = \<lparr>m_requests = (\<lambda>_. 0), m_step = [], m_batch = [], m_queue_wait = [], m_preempt = 0,
     m_kv = 0, m_waiting = 0, m_running = 0\<rparr>"

text \<open>
  The engine-shaped interface: \<open>add_request\<close> (with the address of the new request object),
  \<open>step\<close>, which may raise or not return, and the scheduler inside.
\<close>

record 'e engine_shape =
  es_add :: "rref \<Rightarrow> int list \<Rightarrow> sampling_params \<Rightarrow> string \<Rightarrow> 'e \<Rightarrow> 'e or_raise"
  es_step :: "'e \<Rightarrow> ('e \<times> scheduler_output \<times> rref list) or_raise option"
  es_scheduler :: "'e \<Rightarrow> scheduler"
  es_put :: "scheduler \<Rightarrow> 'e \<Rightarrow> 'e"

record 'e worker =
  ew_engine :: 'e
  ew_error :: "exn option"
  ew_default_timeout_s :: "real option"
  ew_incoming :: "incoming list"
  ew_streams :: "(string \<times> href) list"
  ew_deadlines :: "(string \<times> real) list"
  ew_queued :: "(string \<times> real) list"
  ew_stop :: bool
  ew_metrics :: worker_metrics
  ew_handles :: "href \<Rightarrow> stream_handle"
  ew_next_handle :: href
  ew_next_request :: rref

definition put_item :: "href \<Rightarrow> stream_item \<Rightarrow> ('e, 'z) worker_scheme \<Rightarrow> ('e, 'z) worker_scheme" where
  "put_item h i w = w\<lparr>ew_handles := (ew_handles w)(h := (ew_handles w h)\<lparr>sh_queue := sh_queue (ew_handles w h) @ [i]\<rparr>)\<rparr>"

abbreviation queue_of :: "('e, 'z) worker_scheme \<Rightarrow> href \<Rightarrow> stream_item list" where
  "queue_of w h \<equiv> sh_queue (ew_handles w h)"

subsection \<open>Producer side\<close>

text \<open>
  \<open>submit\<close> puts the submission and then looks whether the engine has died; another thread may
  run between the two.  \<open>uuid\<close> is the fresh name taken when the caller gives none.
\<close>

definition submit_put :: "string \<Rightarrow> int list \<Rightarrow> sampling_params \<Rightarrow> string option \<Rightarrow> real option
    \<Rightarrow> ('e, 'z) worker_scheme \<Rightarrow> ('e, 'z) worker_scheme" where
  "submit_put uuid prompt sp rid timeout w =
     (let rid' = (case rid of None \<Rightarrow> uuid | Some r \<Rightarrow> if r = [] then uuid else r);
          h = ew_next_handle w;
          sub = \<lparr>sub_prompt_token_ids = prompt, sub_sampling_params = sp, sub_request_id = rid',
                 sub_timeout_s = (case timeout of None \<Rightarrow> ew_default_timeout_s w | Some t \<Rightarrow> Some t), sub_handle = h\<rparr>
      in w\<lparr>ew_handles := (ew_handles w)(h := StreamHandle rid'), ew_next_handle := Suc h,
           ew_incoming := ew_incoming w @ [Submission sub]\<rparr>)"

definition submit_check :: "href \<Rightarrow> ('e, 'z) worker_scheme \<Rightarrow> ('e, 'z) worker_scheme" where
  "submit_check h w = (if ew_error w \<noteq> None then put_item h (StreamEnd FINISHED_ABORTED) w else w)"

definition submit :: "string \<Rightarrow> int list \<Rightarrow> sampling_params \<Rightarrow> string option \<Rightarrow> real option
    \<Rightarrow> ('e, 'z) worker_scheme \<Rightarrow> ('e, 'z) worker_scheme \<times> href" where
  "submit uuid prompt sp rid timeout w =
     (let h = ew_next_handle w in (submit_check h (submit_put uuid prompt sp rid timeout w), h))"

definition abort :: "string \<Rightarrow> ('e, 'z) worker_scheme \<Rightarrow> ('e, 'z) worker_scheme" where
  "abort rid w = w\<lparr>ew_incoming := ew_incoming w @ [Abort rid]\<rparr>"

subsection \<open>Engine thread\<close>

definition finish_stream :: "string \<Rightarrow> request_status \<Rightarrow> ('e, 'z) worker_scheme \<Rightarrow> ('e, 'z) worker_scheme" where
  "finish_stream rid st w =
     (let m = ew_metrics w;
          w1 = w\<lparr>ew_metrics := m\<lparr>m_requests := (m_requests m)(st := m_requests m st + 1)\<rparr>,
                 ew_queued := AList.delete rid (ew_queued w), ew_deadlines := AList.delete rid (ew_deadlines w),
                 ew_streams := AList.delete rid (ew_streams w)\<rparr>
      in case map_of (ew_streams w) rid of None \<Rightarrow> w1 | Some h \<Rightarrow> put_item h (StreamEnd st) w1)"

definition finish :: "'e engine_shape \<Rightarrow> rref list \<Rightarrow> ('e, 'z) worker_scheme \<Rightarrow> ('e, 'z) worker_scheme" where
  "finish E xs w = fold (\<lambda>x w. let r = s_objs (es_scheduler E (ew_engine w)) x in finish_stream (request_id r) (status r) w) xs w"

definition abort_and_finish :: "'e engine_shape \<Rightarrow> string list \<Rightarrow> ('e, 'z) worker_scheme \<Rightarrow> ('e, 'z) worker_scheme or_raise" where
  "abort_and_finish E rids w =
     bindE (abort_requests (set rids) (es_scheduler E (ew_engine w)))
       (\<lambda>(s, gone). Inr (finish E gone (w\<lparr>ew_engine := es_put E s (ew_engine w)\<rparr>)))"

definition handle_submission :: "'e engine_shape \<Rightarrow> real \<Rightarrow> submission \<Rightarrow> ('e, 'z) worker_scheme
    \<Rightarrow> ('e, 'z) worker_scheme or_raise" where
  "handle_submission E now sub w =
     (let x = ew_next_request w; rid = sub_request_id sub in
      bindE (es_add E x (sub_prompt_token_ids sub) (sub_sampling_params sub) rid (ew_engine w)) (\<lambda>e.
        Inr (w\<lparr>ew_engine := es_put E (upd_req x (\<lambda>r. r\<lparr>arrival_time := now\<rparr>) (es_scheduler E e)) e,
               ew_next_request := Suc x,
               ew_streams := AList.update rid (sub_handle sub) (ew_streams w),
               ew_queued := AList.update rid now (ew_queued w),
               ew_deadlines := (case sub_timeout_s sub of None \<Rightarrow> ew_deadlines w
                                | Some t \<Rightarrow> AList.update rid (now + t) (ew_deadlines w))\<rparr>)))"

text \<open>One turn of \<open>_drain_incoming\<close>: an item taken off the queue.\<close>

definition drain_item :: "'e engine_shape \<Rightarrow> real \<Rightarrow> incoming \<Rightarrow> ('e, 'z) worker_scheme \<Rightarrow> ('e, 'z) worker_scheme or_raise" where
  "drain_item E now i w = (case i of Submission sub \<Rightarrow> handle_submission E now sub w | Abort rid \<Rightarrow> abort_and_finish E [rid] w)"

definition expired :: "real \<Rightarrow> ('e, 'z) worker_scheme \<Rightarrow> string list" where
  "expired now w = map fst (filter (\<lambda>(rid, deadline). deadline \<le> now) (ew_deadlines w))"

definition sweep_timeouts :: "'e engine_shape \<Rightarrow> real \<Rightarrow> ('e, 'z) worker_scheme \<Rightarrow> ('e, 'z) worker_scheme or_raise" where
  "sweep_timeouts E now w = (if expired now w \<noteq> [] then abort_and_finish E (expired now w) w else Inr w)"

definition record_admission :: "'e engine_shape \<Rightarrow> int \<Rightarrow> rref \<Rightarrow> ('e, 'z) worker_scheme \<Rightarrow> ('e, 'z) worker_scheme" where
  "record_admission E started_ns x w =
     (let rid = request_id (s_objs (es_scheduler E (ew_engine w)) x); m = ew_metrics w in
      case map_of (ew_queued w) rid of
        None \<Rightarrow> w
      | Some arrival \<Rightarrow>
          let w1 = w\<lparr>ew_queued := AList.delete rid (ew_queued w),
                     ew_metrics := m\<lparr>m_queue_wait := m_queue_wait m @ [of_int started_ns / 10 ^ 9 - arrival]\<rparr>\<rparr>
          in case map_of (ew_streams w) rid of
               None \<Rightarrow> w1
             | Some h \<Rightarrow> w1\<lparr>ew_handles := (ew_handles w)(h := (ew_handles w h)\<lparr>sh_scheduled_ns := Some started_ns\<rparr>)\<rparr>)"

definition record_step :: "'e engine_shape \<Rightarrow> scheduler_output \<Rightarrow> real \<Rightarrow> int \<Rightarrow> ('e, 'z) worker_scheme
    \<Rightarrow> ('e, 'z) worker_scheme or_raise" where
  "record_step E out seconds started_ns w =
     (let scheduled = scheduled_new out @ scheduled_running out;
          prefill = (scheduled_new out \<noteq> [] \<or> list_ex (\<lambda>(_, n). 1 < n) scheduled);
          m = ew_metrics w;
          w1 = w\<lparr>ew_metrics := m\<lparr>m_step := m_step m @ [(prefill, seconds)], m_batch := m_batch m @ [length scheduled]\<rparr>\<rparr>;
          w2 = fold (record_admission E started_ns) (map fst (scheduled_new out)) w1;
          s = es_scheduler E (ew_engine w);
          m2 = ew_metrics w2
      in if bm_num_gpu_blocks (s_bm s) = 0 then Inl ZeroDivisionError
         else Inr (w2\<lparr>ew_metrics := m2\<lparr>m_preempt := m_preempt m2 + length (preempted out),
              m_kv := 1 - real_of_int (num_free_blocks (s_bm s)) / real_of_int (bm_num_gpu_blocks (s_bm s)),
              m_waiting := length (s_waiting s), m_running := length (s_running s)\<rparr>\<rparr>))"

definition emit_token :: "'e engine_shape \<Rightarrow> rref \<Rightarrow> ('e, 'z) worker_scheme \<Rightarrow> ('e, 'z) worker_scheme" where
  "emit_token E x w =
     (let r = s_objs (es_scheduler E (ew_engine w)) x in
      case map_of (ew_streams w) (request_id r) of
        None \<Rightarrow> w
      | Some h \<Rightarrow> if output_token_ids r \<noteq> [] then put_item h (StreamToken (last (output_token_ids r))) w else w)"

definition emit_tokens :: "'e engine_shape \<Rightarrow> scheduler_output \<Rightarrow> ('e, 'z) worker_scheme \<Rightarrow> ('e, 'z) worker_scheme" where
  "emit_tokens E out w = fold (emit_token E) (map fst (scheduled_new out @ scheduled_running out)) w"

text \<open>The loop's step, when there is work: \<open>None\<close> when the engine's step does not return.\<close>

definition step_and_publish :: "'e engine_shape \<Rightarrow> real \<Rightarrow> int \<Rightarrow> ('e, 'z) worker_scheme \<Rightarrow> ('e, 'z) worker_scheme or_raise option" where
  "step_and_publish E seconds started_ns w =
     (if has_unfinished_requests (es_scheduler E (ew_engine w))
      then bindR (es_step E (ew_engine w)) (\<lambda>(e, out, finished).
           bindR (Some (record_step E out seconds started_ns (w\<lparr>ew_engine := e\<rparr>))) (\<lambda>w1.
             Some (Inr (finish E finished (emit_tokens E out w1)))))
      else Some (Inr w))"

subsection \<open>The worker and its clients as a system of interleaved steps\<close>

text \<open>
  Where the engine thread stands.  \<open>Failing\<close> is the exception handler: the submission whose
  \<open>add_request\<close> raised, if that is what raised, and the handles collected so far.
\<close>

datatype engine_pc = At_top | Draining | Sweeping | Stepping | Failing "href option" "href list" | Dead "href option" | Stopped

record 'e worker_system = "'e worker" +
  sy_pc :: engine_pc
  sy_checking :: "href list"

definition EngineWorker :: "'e \<Rightarrow> real option \<Rightarrow> 'e worker_system" where
  "EngineWorker e timeout = \<lparr>ew_engine = e, ew_error = None, ew_default_timeout_s = timeout, ew_incoming = [], ew_streams = [],
     ew_deadlines = [], ew_queued = [], ew_stop = False, ew_metrics = empty_metrics, ew_handles = (\<lambda>_. StreamHandle []),
     ew_next_handle = 0, ew_next_request = 0, sy_pc = At_top, sy_checking = []\<rparr>"

definition alive :: "'e worker_system \<Rightarrow> bool" where
  "alive sy \<longleftrightarrow> ew_error sy = None \<and> sy_pc sy \<noteq> Stopped"

text \<open>
  What an exception leaves to the handler: the error is recorded, the handles of the streams are
  listed.  The engine and the gauges are left as they were before the call that raised, since
  nothing reads the engine once its thread has died.
\<close>

definition thread_result :: "engine_pc \<Rightarrow> href option \<Rightarrow> ('e worker_system) or_raise \<Rightarrow> 'e worker_system \<Rightarrow> 'e worker_system" where
  "thread_result next handled res sy =
     (case res of
        Inr sy' \<Rightarrow> sy'\<lparr>sy_pc := next\<rparr>
      | Inl err \<Rightarrow> sy\<lparr>ew_error := Some err, sy_pc := Failing handled (map snd (ew_streams sy))\<rparr>)"

fun handle_of :: "incoming \<Rightarrow> href option" where
  "handle_of (Submission sub) = Some (sub_handle sub)"
| "handle_of (Abort _) = None"

definition end_all :: "href list \<Rightarrow> ('e, 'z) worker_scheme \<Rightarrow> ('e, 'z) worker_scheme" where
  "end_all hs w = (fold (\<lambda>h. put_item h (StreamEnd FINISHED_ABORTED)) hs w)\<lparr>ew_streams := []\<rparr>"

definition loop_top :: "'e worker_system \<Rightarrow> 'e worker_system" where
  "loop_top sy = sy\<lparr>sy_pc := (if ew_stop sy then Stopped else Draining)\<rparr>"

definition drain_stage :: "'e engine_shape \<Rightarrow> real \<Rightarrow> 'e worker_system \<Rightarrow> 'e worker_system" where
  "drain_stage E now sy =
     (case ew_incoming sy of
        [] \<Rightarrow> sy\<lparr>sy_pc := Sweeping\<rparr>
      | i # rest \<Rightarrow> let sy1 = sy\<lparr>ew_incoming := rest\<rparr> in thread_result Draining (handle_of i) (drain_item E now i sy1) sy1)"

text \<open>\<open>_abort_everything\<close>: the queue is emptied item by item, then every collected handle is ended.\<close>

definition abort_everything :: "href option \<Rightarrow> href list \<Rightarrow> 'e worker_system \<Rightarrow> 'e worker_system" where
  "abort_everything lost hs sy =
     (case ew_incoming sy of
        i # rest \<Rightarrow> sy\<lparr>ew_incoming := rest,
            sy_pc := Failing lost (case handle_of i of None \<Rightarrow> hs | Some h \<Rightarrow> hs @ [h])\<rparr>
      | [] \<Rightarrow> (end_all hs sy)\<lparr>sy_pc := Dead lost\<rparr>)"

datatype worker_event =
    Submit_put string "int list" sampling_params "string option" "real option"
  | Submit_check href
  | Client_abort string
  | Stop
  | Engine_thread real real int

text \<open>One stage of the engine thread, at time \<open>now\<close>; \<open>None\<close> when it has ended or does not return.\<close>

definition engine_thread :: "'e engine_shape \<Rightarrow> real \<Rightarrow> real \<Rightarrow> int \<Rightarrow> 'e worker_system \<Rightarrow> 'e worker_system option" where
  "engine_thread E now seconds started_ns sy =
     (case sy_pc sy of
        At_top \<Rightarrow> Some (loop_top sy)
      | Draining \<Rightarrow> Some (drain_stage E now sy)
      | Sweeping \<Rightarrow> Some (thread_result Stepping None (sweep_timeouts E now sy) sy)
      | Stepping \<Rightarrow> map_option (\<lambda>res. thread_result At_top None res sy) (step_and_publish E seconds started_ns sy)
      | Failing lost hs \<Rightarrow> Some (abort_everything lost hs sy)
      | Dead _ \<Rightarrow> None
      | Stopped \<Rightarrow> None)"

fun worker_step :: "'e engine_shape \<Rightarrow> worker_event \<Rightarrow> 'e worker_system \<Rightarrow> 'e worker_system option" where
  "worker_step E (Submit_put uuid prompt sp rid timeout) sy =
     Some ((submit_put uuid prompt sp rid timeout sy)\<lparr>sy_checking := sy_checking sy @ [ew_next_handle sy]\<rparr>)"
| "worker_step E (Submit_check h) sy =
     (if h \<in> set (sy_checking sy) then Some ((submit_check h sy)\<lparr>sy_checking := remove1 h (sy_checking sy)\<rparr>) else None)"
| "worker_step E (Client_abort rid) sy = Some (abort rid sy)"
| "worker_step E Stop sy = Some (sy\<lparr>ew_stop := True\<rparr>)"
| "worker_step E (Engine_thread now seconds started_ns) sy = engine_thread E now seconds started_ns sy"

fun worker_run :: "'e engine_shape \<Rightarrow> worker_event list \<Rightarrow> 'e worker_system \<Rightarrow> 'e worker_system option" where
  "worker_run E [] sy = Some sy"
| "worker_run E (ev # evs) sy = (case worker_step E ev sy of None \<Rightarrow> None | Some sy' \<Rightarrow> worker_run E evs sy')"

subsection \<open>The engine the server runs\<close>

definition llm_engine_shape :: "(nat \<Rightarrow> string) \<Rightarrow> ('a::floor_ceiling engine) engine_shape" where
  "llm_engine_shape name =
     \<lparr>es_add = (\<lambda>x prompt sp rid e. engine_add_request name x prompt (Some sp) (Some rid) e),
      es_step = engine_step, es_scheduler = e_sched, es_put = (\<lambda>s e. e\<lparr>e_sched := s\<rparr>)\<rparr>"

end
