(* ===== verification/Engine_Worker_Properties.thy ===== *)
theory Engine_Worker_Properties
  imports Engine_Worker Engine_Properties
begin

text \<open>
  What the engine's worker promises its clients, whatever the interleaving: while the engine is
  alive every stream is open or has ended exactly once, and when it has died every stream has
  ended, save the one of a submission the engine rejected.  What the worker relies on, that the
  scheduler knows exactly the requests added and not yet reported as gone, is the locale
  \<open>engine_iface\<close>, interpreted for \<open>LLMEngine\<close>.
\<close>

subsection \<open>The requests a scheduler knows\<close>

definition known :: "scheduler \<Rightarrow> string set" where
  "known s = fst ` set (s_requests s)"

lemma known_simps [simp]:
  "known (upd_req x f s) = known s" "known (s\<lparr>s_objs := os\<rparr>) = known s" "known (s\<lparr>s_running := r\<rparr>) = known s"
  "known (s\<lparr>s_waiting := w\<rparr>) = known s" "known (s\<lparr>s_bm := b\<rparr>) = known s" "known (set_obj x q b s) = known s"
  by (simp_all add: known_def upd_req_def set_obj_def)

lemma known_delete [simp]: "known (s\<lparr>s_requests := AList.delete k (s_requests t)\<rparr>) = known t - {k}"
  by (simp add: known_def keys_delete)

lemma with_bm_known: "with_bm f x s = Inr s' \<Longrightarrow> known s' = known s"
  by (auto simp: with_bm_Inr)

lemma free_blocks_id: "free_blocks bm r = Inr (bm', r') \<Longrightarrow> request_id r' = request_id r"
  by (auto simp: free_blocks_def Let_def bindE_Inr_iff split: option.splits list.splits prod.splits)

lemma preempt_known: "preempt x s out = Inr (s', out') \<Longrightarrow> known s' = known s"
  by (auto simp: preempt_def bindE_Inr_iff Let_def dest: with_bm_known)

lemma make_room_known: "make_room fits x p s out = Inr (s', out', p', got) \<Longrightarrow> known s' = known s"
proof (induction fits x p s out rule: make_room.induct)
  case (1 fits x p s out)
  show ?case using 1(2) make_room.simps [of fits x p s out] 1(1)
    by (auto split: if_splits sum.splits dest: preempt_known)
qed

lemma run_loop_known: "run_loop p sc b s out = Inr (s', out', b') \<Longrightarrow> known s' = known s"
proof (induction "length p" arbitrary: p sc b s out rule: less_induct)
  case less
  show ?case
  proof (cases p)
    case Nil
    then show ?thesis using less.prems by auto
  next
    case (Cons x q)
    let ?r = "s_objs s x"
    show ?thesis
    proof (cases "num_new_tokens ?r \<le> 0 \<or> b \<le> 0")
      case True
      then have "run_loop q (sc @ [x]) b s out = Inr (s', out', b')" using less.prems Cons by (simp add: Let_def split: if_splits)
      then show ?thesis using less.hyps [of q] Cons by simp
    next
      case False
      let ?sp = "draft_token_ids ?r \<noteq> []" and ?chunk = "run_chunk ?r b"
      let ?t = "num_computed_tokens ?r + ?chunk"
      obtain s1 out1 p1 got where mr: "make_room (run_fits ?sp ?t) x q s out = Inr (s1, out1, p1, got)"
        using less.prems Cons False by (auto simp: Let_def split: sum.splits)
      have short: "length p1 < length p" using make_room_shorter [OF mr] Cons by simp
      have k1: "known s1 = known s" by (rule make_room_known [OF mr])
      show ?thesis
      proof (cases got)
        case False
        then have "run_loop p1 sc b s1 out1 = Inr (s', out', b')"
          using less.prems Cons mr \<open>\<not> (num_new_tokens ?r \<le> 0 \<or> b \<le> 0)\<close> by (auto simp: Let_def)
        then show ?thesis using less.hyps [OF short] k1 by simp
      next
        case True
        then obtain s2 where s2: "with_bm (run_reserve ?sp ?t) x s1 = Inr s2"
          and rest: "run_loop p1 (sc @ [x]) (b - ?chunk)
            (upd_req x (\<lambda>r. r\<lparr>num_computed_tokens := num_computed_tokens r + ?chunk\<rparr>) s2)
            (out1\<lparr>scheduled_running := scheduled_running out1 @ [(x, ?chunk)]\<rparr>) = Inr (s', out', b')"
          using less.prems Cons mr \<open>\<not> (num_new_tokens ?r \<le> 0 \<or> b \<le> 0)\<close> by (auto simp: Let_def split: sum.splits)
        from less.hyps [OF short rest] show ?thesis using k1 with_bm_known [OF s2] by simp
      qed
    qed
  qed
qed

lemma wait_loop_known: "wait_loop w b ctx s out = Inr (s', out', b') \<Longrightarrow> known s' = known s"
proof (induction w arbitrary: b ctx s out)
  case (Cons x w)
  then show ?case
    by (auto simp: Let_def bindE_Inr_iff start_request_def split: if_splits prod.splits option.splits dest!: with_bm_known)
qed auto


lemma schedule_known: "schedule s = Inr (s', out) \<Longrightarrow> known s' = known s"
  by (auto simp: schedule_def bindE_Inr_iff dest!: run_loop_known wait_loop_known split: if_splits)

lemma finish_one_known:
  assumes "finish_one x s = Inr s'"
  shows "known s' = known s - {request_id (s_objs s x)} \<and> request_id (s_objs s' y) = request_id (s_objs s y)"
  using assms by (auto simp: finish_one_def bindE_Inr_iff with_bm_Inr Let_def dest: free_blocks_id split: if_splits)

lemma foldE_finish_known:
  "foldE finish_one xs s = Inr s' \<Longrightarrow>
     known s' = known s - (\<lambda>x. request_id (s_objs s x)) ` set xs \<and> (\<forall>y. request_id (s_objs s' y) = request_id (s_objs s y))"
proof (induction xs arbitrary: s)
  case (Cons x xs)
  obtain s1 where s1: "finish_one x s = Inr s1" "foldE finish_one xs s1 = Inr s'" using Cons.prems by (auto simp: bindE_Inr_iff)
  show ?case using Cons.IH [OF s1(2)] finish_one_known [OF s1(1)] by auto
qed simp

lemma free_finished_known:
  assumes "free_finished_requests s = Inr (s', gone)"
  shows "known s' = known s - (\<lambda>x. request_id (s_objs s' x)) ` set gone" "request_id (s_objs s' y) = request_id (s_objs s y)"
  using assms by (auto simp: free_finished_requests_def Let_def bindE_Inr_iff dest!: foldE_finish_known split: if_splits)

lemma abort_waiting_known:
  assumes "abort_waiting x s = Inr s'"
  shows "known s' = known s - {request_id (s_objs s x)} \<and> request_id (s_objs s' y) = request_id (s_objs s y)"
  using assms by (auto simp: abort_waiting_def Let_def split: if_splits) (auto simp: upd_req_def)

lemma foldE_abort_known:
  "foldE abort_waiting xs s = Inr s' \<Longrightarrow>
     known s' = known s - (\<lambda>x. request_id (s_objs s x)) ` set xs \<and> (\<forall>y. request_id (s_objs s' y) = request_id (s_objs s y))"
proof (induction xs arbitrary: s)
  case (Cons x xs)
  obtain s1 where s1: "abort_waiting x s = Inr s1" "foldE abort_waiting xs s1 = Inr s'" using Cons.prems by (auto simp: bindE_Inr_iff)
  show ?case using Cons.IH [OF s1(2)] abort_waiting_known [OF s1(1)] by auto
qed simp

lemma fold_upd_req_known:
  assumes "\<And>r. request_id (f r) = request_id r"
  shows "known (fold (\<lambda>x. upd_req x f) xs s) = known s
     \<and> request_id (s_objs (fold (\<lambda>x. upd_req x f) xs s) y) = request_id (s_objs s y)"
  using assms by (induction xs arbitrary: s) (auto simp: upd_req_def known_def)

lemma abort_requests_known:
  assumes "abort_requests ids s = Inr (s', gone)"
  shows "known s' = known s - (\<lambda>x. request_id (s_objs s' x)) ` set gone"
proof -
  let ?hit = "\<lambda>x. request_id (s_objs s x) \<in> ids" and ?ab = "\<lambda>r. r\<lparr>status := FINISHED_ABORTED\<rparr>"
  obtain s1 s4 finished where s1: "foldE abort_waiting (filter ?hit (s_waiting s)) s = Inr s1"
    and fin: "free_finished_requests (fold (\<lambda>x. upd_req x ?ab) (filter ?hit (s_running s1)) (s1\<lparr>s_waiting := filter (\<lambda>x. \<not> ?hit x) (s_waiting s)\<rparr>))
        = Inr (s', finished)"
    and gone: "gone = filter ?hit (s_waiting s) @ finished"
    using assms by (auto simp: abort_requests_def Let_def bindE_Inr_iff)
  note F = free_finished_known [OF fin] and U = fold_upd_req_known [of ?ab, simplified]
  show ?thesis using F foldE_abort_known [OF s1] U by (auto simp: gone)
qed

subsection \<open>The engine behind the interface\<close>

lemma add_request_known:
  "add_request x s = Inr s' \<Longrightarrow> request_id (s_objs s x) \<notin> known s \<and> known s' = insert (request_id (s_objs s x)) (known s)"
  by (clarsimp simp: add_request_def Let_def upd_req_def map_of_eq_None_iff split: if_splits) (simp add: known_def dom_update)

lemma engine_add_known:
  assumes "engine_add_request name x prompt sp (Some rid) e = Inr e'"
  shows "rid \<notin> known (e_sched e) \<and> known (e_sched e') = insert rid (known (e_sched e))"
  using assms by (auto simp: engine_add_request_def bindE_Inr_iff mk_request_def dest!: add_request_known)

lemma fold_upd_known: "known (fold (\<lambda>(x, r). upd_req x (f x r)) xs s) = known s"
  by (induction xs arbitrary: s) auto

lemma foldE_known: "(\<And>x s s'. f x s = Inr s' \<Longrightarrow> known s' = known s) \<Longrightarrow> foldE f xs s = Inr s' \<Longrightarrow> known s' = known s" for s s'
  by (rule foldE_invariant [where P = "\<lambda>t. known t = known s"]) auto

lemma register_prefix_known: "register_prefix p s = Inr s' \<Longrightarrow> known s' = known s"
  by (auto simp: register_prefix_def split: prod.splits if_splits dest: with_bm_known)

lemma register_all_known: "foldE register_prefix xs s = Inr s' \<Longrightarrow> known s' = known s"
  by (erule foldE_known [rotated]) (rule register_prefix_known)

lemma store_requests_known: "known (store_requests xs rs s) = known s"
  by (simp add: store_requests_def fold_upd_known)

lemma correct_all_known: "known (e_sched (fold (correct_one pre) xs e)) = known (e_sched e)"
  by (induction xs arbitrary: e) (auto simp: correct_one_def Let_def split: option.splits prod.splits)

lemma register_phase_known:
  "(if c then Inr s else foldE register_prefix xs s) = Inr s' \<Longrightarrow> known s' = known s"
  by (cases c) (simp_all add: register_all_known)

lemma step_run_known:
  assumes "step_run e = Inr (e', out, gone)"
  shows "known (e_sched e') = known (e_sched e) - (\<lambda>x. request_id (s_objs (e_sched e') x)) ` set gone"
proof -
  obtain p1 p2 s3 p4 where s: "schedule (e_sched e) = Inr p1"
    and s3: "(if bm_cache (s_bm (store_requests (map fst (scheduled_new (snd p1) @ scheduled_running (snd p1))) (snd p2) (fst p1))) = None
       then Inr (store_requests (map fst (scheduled_new (snd p1) @ scheduled_running (snd p1))) (snd p2) (fst p1))
       else foldE register_prefix (scheduled_new (snd p1) @ scheduled_running (snd p1))
          (store_requests (map fst (scheduled_new (snd p1) @ scheduled_running (snd p1))) (snd p2) (fst p1))) = Inr s3"
    and fin: "free_finished_requests (e_sched (fold (correct_one (spec_pre_len (s_objs (fst p1)) (snd p1))) (scheduled_running (snd p1))
        (e\<lparr>e_sched := s3, e_runner := fst p2\<rparr>))) = Inr p4"
    and e': "(fold (correct_one (spec_pre_len (s_objs (fst p1)) (snd p1))) (scheduled_running (snd p1))
        (e\<lparr>e_sched := s3, e_runner := fst p2\<rparr>))\<lparr>e_sched := fst p4\<rparr> = e'" "snd p4 = gone"
    using assms unfolding step_run_def bindE_Inr_iff Let_def split_beta
    by (elim exE conjE, unfold sum.inject prod.inject, elim conjE) (rule that, assumption+)
  have "known s3 = known (fst p1)"
    using register_phase_known [OF s3] by (simp only: store_requests_known)
  moreover have "known (fst p1) = known (e_sched e)" using schedule_known [of "e_sched e" "fst p1" "snd p1"] s by simp
  moreover note free_finished_known(1) [of _ "fst p4" "snd p4", unfolded prod.collapse, OF fin]
  ultimately show ?thesis unfolding e' [symmetric] correct_all_known by (simp add: correct_all_known)
qed

lemma propose_all_known:
  "propose_all xs e = Some (Inr e') \<Longrightarrow>
     known (e_sched e') = known (e_sched e) \<and> (\<forall>y. request_id (s_objs (e_sched e') y) = request_id (s_objs (e_sched e) y))"
proof (induction xs arbitrary: e)
  case (Cons x xs)
  show ?case
  proof (cases "e_draft e = None \<or> is_prefill (s_objs (e_sched e) x)")
    case True
    then show ?thesis using Cons by (auto split: option.splits)
  next
    case False
    then obtain dp dp' drafts where "propose dp (s_objs (e_sched e) x) = Some (Inr (dp', drafts))"
      and "propose_all xs (e\<lparr>e_draft := Some dp', e_sched := upd_req x (\<lambda>r. r\<lparr>draft_token_ids := drafts\<rparr>) (e_sched e)\<rparr>) = Some (Inr e')"
      using Cons.prems by (auto simp: bindR_Inr_iff)
    from Cons.IH [OF this(2)] show ?thesis by (auto simp: upd_req_def)
  qed
qed simp

lemma engine_step_known:
  assumes "engine_step e = Some (Inr (e', out, gone))"
  shows "known (e_sched e') = known (e_sched e) - (\<lambda>x. request_id (s_objs (e_sched e') x)) ` set gone"
  using assms by (auto simp: engine_step_def bindR_Inr_iff dest!: step_run_known propose_all_known)

locale engine_iface =
  fixes E :: "'e engine_shape"
  assumes scheduler_put: "es_scheduler E (es_put E s e) = s"
    and add_known: "es_add E x prompt sp rid e = Inr e' \<Longrightarrow>
      rid \<notin> known (es_scheduler E e) \<and> known (es_scheduler E e') = insert rid (known (es_scheduler E e))"
    and step_known: "es_step E e = Some (Inr (e', out, gone)) \<Longrightarrow>
      known (es_scheduler E e') = known (es_scheduler E e) - (\<lambda>x. request_id (s_objs (es_scheduler E e') x)) ` set gone"

interpretation llm: engine_iface "llm_engine_shape name"
  by unfold_locales (simp_all add: llm_engine_shape_def engine_add_known engine_step_known)

subsection \<open>Where every stream stands\<close>

definition only_tokens :: "stream_item list \<Rightarrow> bool" where
  "only_tokens items \<longleftrightarrow> (\<exists>ts. items = map StreamToken ts)"

definition closed_stream :: "stream_item list \<Rightarrow> bool" where
  "closed_stream items \<longleftrightarrow> (\<exists>ts r. items = map StreamToken ts @ [StreamEnd r])"

definition ended :: "stream_item list \<Rightarrow> bool" where
  "ended items \<longleftrightarrow> (\<exists>r. StreamEnd r \<in> set items)"

definition queued_handles :: "incoming list \<Rightarrow> href list" where
  "queued_handles items = List.map_filter handle_of items"

definition open_handles :: "('e, 'z) worker_scheme \<Rightarrow> href list" where
  "open_handles w = map snd (ew_streams w) @ queued_handles (ew_incoming w)"

text \<open>Every handle ever made is open and holds tokens only, or is closed; none is open twice.\<close>

definition accounted :: "href set \<Rightarrow> ('e, 'z) worker_scheme \<Rightarrow> bool" where
  "accounted hs w \<longleftrightarrow> (\<forall>h < ew_next_handle w. if h \<in> hs then only_tokens (queue_of w h) else closed_stream (queue_of w h))"

definition streams_ok :: "string set \<Rightarrow> ('e, 'z) worker_scheme \<Rightarrow> bool" where
  "streams_ok K w \<longleftrightarrow> ew_error w = None \<and> distinct (open_handles w) \<and> (\<forall>h \<in> set (open_handles w). h < ew_next_handle w)
     \<and> accounted (set (open_handles w)) w \<and> distinct (map fst (ew_streams w)) \<and> fst ` set (ew_streams w) \<subseteq> K"

definition worker_inv :: "'e engine_shape \<Rightarrow> 'e worker_system \<Rightarrow> bool" where
  "worker_inv E sy \<longleftrightarrow> (\<forall>h \<in> set (sy_checking sy). h < ew_next_handle sy)
     \<and> (case sy_pc sy of
          Failing lost hs \<Rightarrow> ew_error sy \<noteq> None \<and> (\<forall>h < ew_next_handle sy. Some h = lost \<or> h \<in> set hs
             \<or> h \<in> set (queued_handles (ew_incoming sy)) \<or> ended (queue_of sy h))
        | Dead lost \<Rightarrow> ew_error sy \<noteq> None \<and> (\<forall>h < ew_next_handle sy. Some h = lost \<or> h \<in> set (sy_checking sy) \<or> ended (queue_of sy h))
        | _ \<Rightarrow> streams_ok (known (es_scheduler E (ew_engine sy))) sy)"

lemma queued_handles_simps [simp]:
  "queued_handles [] = []"
  "queued_handles (Submission s # is) = sub_handle s # queued_handles is"
  "queued_handles (Abort r # is) = queued_handles is"
  "queued_handles (is @ is') = queued_handles is @ queued_handles is'"
  by (simp_all add: queued_handles_def List.map_filter_def)

lemma stream_shapes [simp]:
  "only_tokens []" "only_tokens items \<Longrightarrow> only_tokens (items @ [StreamToken t])"
  "only_tokens items \<Longrightarrow> closed_stream (items @ [StreamEnd r])" "closed_stream items \<Longrightarrow> ended items"
  "ended (items @ [StreamEnd r])" "ended items \<Longrightarrow> ended (items @ [i])"
  by (auto simp: only_tokens_def closed_stream_def ended_def map_eq_append_conv intro: exI [of _ "_ @ [t]"])

lemma put_item_simps [simp]:
  "queue_of (put_item h i w) = (queue_of w)(h := queue_of w h @ [i])"
  "ew_streams (put_item h i w) = ew_streams w" "ew_incoming (put_item h i w) = ew_incoming w"
  "ew_next_handle (put_item h i w) = ew_next_handle w" "ew_error (put_item h i w) = ew_error w"
  "ew_engine (put_item h i w) = ew_engine w" "worker.more (put_item h i w) = worker.more w"
  by (simp_all add: put_item_def fun_eq_iff)

lemma accounted_close:
  assumes "accounted hs w" "h \<in> hs" "queue_of w' = (queue_of w)(h := queue_of w h @ [StreamEnd r])" "ew_next_handle w' = ew_next_handle w"
  shows "accounted (hs - {h}) w'"
  using assms unfolding accounted_def by (auto simp: fun_eq_iff)

lemma accounted_emit:
  assumes "accounted hs w" "h \<in> hs" "queue_of w' = (queue_of w)(h := queue_of w h @ [StreamToken t])" "ew_next_handle w' = ew_next_handle w"
  shows "accounted hs w'"
  using assms unfolding accounted_def by (auto simp: fun_eq_iff)

lemma accounted_same: "queue_of w' = queue_of w \<Longrightarrow> ew_next_handle w' = ew_next_handle w \<Longrightarrow> accounted hs w' = accounted hs w"
  by (simp add: accounted_def fun_eq_iff)

lemma finish_stream_frame [simp]:
  "ew_engine (finish_stream rid st w) = ew_engine w" "worker.more (finish_stream rid st w) = worker.more w"
  "ew_next_handle (finish_stream rid st w) = ew_next_handle w" "ew_incoming (finish_stream rid st w) = ew_incoming w"
  "ew_error (finish_stream rid st w) = ew_error w"
  by (simp_all add: finish_stream_def Let_def split: option.splits)

lemma finish_stream_ok:
  assumes ok: "streams_ok K w"
  shows "streams_ok (K - {rid}) (finish_stream rid st w)"
proof (cases "map_of (ew_streams w) rid")
  case None
  then have del: "AList.delete rid (ew_streams w) = ew_streams w" and out: "rid \<notin> fst ` set (ew_streams w)"
    by (simp_all add: map_of_eq_None_iff delete_id)
  let ?w = "finish_stream rid st w"
  have "ew_streams ?w = ew_streams w" "queue_of ?w = queue_of w"
    using None del by (simp_all add: finish_stream_def Let_def)
  then show ?thesis using ok out accounted_same [of ?w w] by (auto simp: streams_ok_def open_handles_def)
next
  case (Some h)
  have "distinct (map fst (ew_streams w))" using ok by (simp add: streams_ok_def)
  then obtain xs ys where st: "ew_streams w = xs @ (rid, h) # ys" and no: "rid \<notin> fst ` set xs" "rid \<notin> fst ` set ys"
    and del: "AList.delete rid (ew_streams w) = xs @ ys"
    using Some by (rule alist_split)
  let ?w = "finish_stream rid st w" and ?Q = "queued_handles (ew_incoming w)"
  have q: "queue_of ?w = (queue_of w)(h := queue_of w h @ [StreamEnd st])" and s': "ew_streams ?w = xs @ ys"
    using Some del by (simp_all add: finish_stream_def Let_def)
  have op: "open_handles w = map snd xs @ h # map snd ys @ ?Q" "open_handles ?w = map snd xs @ map snd ys @ ?Q"
    by (simp_all add: open_handles_def st s')
  have dist: "distinct (open_handles w)" and acc: "accounted (set (open_handles w)) w" using ok by (auto simp: streams_ok_def)
  have eq: "set (open_handles w) - {h} = set (open_handles ?w)" using dist by (auto simp: op)
  have "accounted (set (open_handles ?w)) ?w"
    using accounted_close [OF acc _ q] eq by (simp add: op)
  moreover have "distinct (open_handles ?w)" using dist by (simp add: op)
  ultimately show ?thesis using ok eq no by (auto simp: streams_ok_def st s')
qed

lemma finish_eq:
  "finish E xs w = fold (\<lambda>x. finish_stream (request_id (s_objs (es_scheduler E (ew_engine w)) x))
     (status (s_objs (es_scheduler E (ew_engine w)) x))) xs w"
proof -
  have "finish E xs w' = fold (\<lambda>x. finish_stream (request_id (s_objs (es_scheduler E e) x)) (status (s_objs (es_scheduler E e) x))) xs w'"
    if "ew_engine w' = e" for w' e
    using that by (induction xs arbitrary: w') (simp_all add: finish_def Let_def)
  then show ?thesis by blast
qed

lemma finish_frame [simp]:
  "ew_engine (finish E xs w) = ew_engine w" "worker.more (finish E xs w) = worker.more w"
  "ew_next_handle (finish E xs w) = ew_next_handle w"
proof -
  have "ew_engine (fold (\<lambda>x. finish_stream (f x) (g x)) xs w) = ew_engine w
      \<and> ew_next_handle (fold (\<lambda>x. finish_stream (f x) (g x)) xs w) = ew_next_handle w
      \<and> worker.more (fold (\<lambda>x. finish_stream (f x) (g x)) xs w) = worker.more w"
    for f g and w :: "('a, 'b) worker_scheme"
    by (induction xs arbitrary: w) simp_all
  then show "ew_engine (finish E xs w) = ew_engine w" "worker.more (finish E xs w) = worker.more w"
    "ew_next_handle (finish E xs w) = ew_next_handle w"
    unfolding finish_eq by simp_all
qed

lemma finish_ok:
  assumes "streams_ok K w"
  shows "streams_ok (K - (\<lambda>x. request_id (s_objs (es_scheduler E (ew_engine w)) x)) ` set xs) (finish E xs w)"
proof -
  have gen: "streams_ok (K - f ` set xs) (fold (\<lambda>x. finish_stream (f x) (g x)) xs w)"
    if "streams_ok K w" for K f g and w :: "('a, 'b) worker_scheme"
    using that
  proof (induction xs arbitrary: K w)
    case (Cons x xs)
    have "K - {f x} - f ` set xs = K - f ` set (x # xs)" by auto
    then show ?case using Cons.IH [OF finish_stream_ok [OF Cons.prems], of "f x" "g x"] by simp
  qed simp
  show ?thesis unfolding finish_eq by (rule gen [OF assms])
qed


text \<open>The worker is judged by its streams alone: the same streams, handles and error, the same verdict.\<close>

lemma streams_ok_cong:
  assumes "ew_error w' = ew_error w" "ew_streams w' = ew_streams w" "ew_incoming w' = ew_incoming w"
    "ew_next_handle w' = ew_next_handle w" "\<And>h. queue_of w' h = queue_of w h"
  shows "streams_ok K w' = streams_ok K w"
  using assms by (simp add: streams_ok_def open_handles_def accounted_def)

lemma emit_token_ok:
  assumes ok: "streams_ok K w"
  shows "streams_ok K (emit_token E x w) \<and> ew_engine (emit_token E x w) = ew_engine w
    \<and> worker.more (emit_token E x w) = worker.more w \<and> ew_next_handle (emit_token E x w) = ew_next_handle w"
proof -
  let ?r = "s_objs (es_scheduler E (ew_engine w)) x"
  consider "emit_token E x w = w" | h where "map_of (ew_streams w) (request_id ?r) = Some h"
      "emit_token E x w = put_item h (StreamToken (last (output_token_ids ?r))) w"
    by (cases "map_of (ew_streams w) (request_id ?r)"; cases "output_token_ids ?r = []") (simp_all add: emit_token_def Let_def)
  then show ?thesis
  proof cases
    case 1
    then show ?thesis using ok by simp
  next
    case 2
    let ?t = "StreamToken (last (output_token_ids ?r))"
    have h: "h \<in> set (open_handles w)" using map_of_SomeD [OF 2(1)] by (force simp: open_handles_def)
    have op: "open_handles (put_item h ?t w) = open_handles w" by (simp add: open_handles_def)
    have "accounted (set (open_handles w)) w" using ok by (simp add: streams_ok_def)
    then have "accounted (set (open_handles w)) (put_item h ?t w)" using h by (rule accounted_emit) simp_all
    then have "streams_ok K (put_item h ?t w)" using ok unfolding streams_ok_def op by simp
    then show ?thesis unfolding 2(2) by simp
  qed
qed

lemma emit_tokens_ok:
  assumes "streams_ok K w"
  shows "streams_ok K (emit_tokens E out w) \<and> ew_engine (emit_tokens E out w) = ew_engine w
    \<and> worker.more (emit_tokens E out w) = worker.more w \<and> ew_next_handle (emit_tokens E out w) = ew_next_handle w"
proof -
  have "streams_ok K (fold (emit_token E) xs w) \<and> ew_engine (fold (emit_token E) xs w) = ew_engine w
      \<and> worker.more (fold (emit_token E) xs w) = worker.more w \<and> ew_next_handle (fold (emit_token E) xs w) = ew_next_handle w"
    if "streams_ok K w" for xs and w :: "('a, 'b) worker_scheme"
    using that by (induction xs arbitrary: w) (simp_all add: emit_token_ok)
  then show ?thesis using assms by (simp add: emit_tokens_def)
qed

lemma record_admission_same:
  "ew_error (record_admission E t x w) = ew_error w" "ew_streams (record_admission E t x w) = ew_streams w"
  "ew_incoming (record_admission E t x w) = ew_incoming w" "ew_next_handle (record_admission E t x w) = ew_next_handle w"
  "ew_engine (record_admission E t x w) = ew_engine w" "worker.more (record_admission E t x w) = worker.more w" "queue_of (record_admission E t x w) h = queue_of w h"
  by (simp_all add: record_admission_def Let_def split: option.splits)

lemma record_admissions_same:
  "ew_error (fold (record_admission E t) xs w) = ew_error w" "ew_streams (fold (record_admission E t) xs w) = ew_streams w"
  "ew_incoming (fold (record_admission E t) xs w) = ew_incoming w"
  "ew_next_handle (fold (record_admission E t) xs w) = ew_next_handle w"
  "ew_engine (fold (record_admission E t) xs w) = ew_engine w"
  "worker.more (fold (record_admission E t) xs w) = worker.more w" "queue_of (fold (record_admission E t) xs w) h = queue_of w h"
  by (induction xs arbitrary: w) (simp_all add: record_admission_same)

lemma record_step_ok:
  assumes "record_step E out seconds t w = Inr w'"
  shows "streams_ok K w' = streams_ok K w" "ew_engine w' = ew_engine w" "worker.more w' = worker.more w"
    "ew_next_handle w' = ew_next_handle w"
proof -
  obtain m m' where w': "w' = (fold (record_admission E t) (map fst (scheduled_new out)) (w\<lparr>ew_metrics := m\<rparr>))\<lparr>ew_metrics := m'\<rparr>"
    using assms unfolding record_step_def Let_def by (simp split: if_splits) blast
  show "streams_ok K w' = streams_ok K w"
    by (rule streams_ok_cong) (simp_all add: w' record_admissions_same)
  show "ew_engine w' = ew_engine w" "worker.more w' = worker.more w" "ew_next_handle w' = ew_next_handle w"
    by (simp_all add: w' record_admissions_same)
qed

lemma put_item_queue [simp]: "queue_of (put_item h i w) k = (if k = h then queue_of w h @ [i] else queue_of w k)"
  by (simp add: put_item_def)

lemma more_checking: "worker.more w' = worker.more w \<Longrightarrow> sy_checking w' = sy_checking w"
  by (cases w; cases w') simp

lemma streams_okD:
  assumes "streams_ok K w" "h < ew_next_handle w"
  shows "h \<in> set (map snd (ew_streams w)) \<or> h \<in> set (queued_handles (ew_incoming w)) \<or> ended (queue_of w h)"
  using assms by (auto simp: streams_ok_def accounted_def open_handles_def split: if_splits)

lemma ended_snoc: "ended (items @ [StreamEnd r])"
  by (auto simp: ended_def)

lemma fold_end_queue:
  "ended (queue_of (fold (\<lambda>h. put_item h (StreamEnd r)) hs w) h) \<longleftrightarrow> h \<in> set hs \<or> ended (queue_of w h)"
  by (induction hs arbitrary: w) (auto simp: ended_snoc)

lemma fold_end_frame:
  "ew_next_handle (fold (\<lambda>h. put_item h (StreamEnd r)) hs w) = ew_next_handle w"
  "ew_error (fold (\<lambda>h. put_item h (StreamEnd r)) hs w) = ew_error w"
  "worker.more (fold (\<lambda>h. put_item h (StreamEnd r)) hs w) = worker.more w"
  by (induction hs arbitrary: w) simp_all

context engine_iface begin

abbreviation ids :: "('e, 'z) worker_scheme \<Rightarrow> string set" where
  "ids w \<equiv> known (es_scheduler E (ew_engine w))"

lemma abort_ok:
  assumes ok: "streams_ok (ids w) w" and a: "abort_and_finish E rids w = Inr w'"
  shows "streams_ok (ids w') w'" "worker.more w' = worker.more w" "ew_next_handle w' = ew_next_handle w"
proof -
  obtain s gone where s: "abort_requests (set rids) (es_scheduler E (ew_engine w)) = Inr (s, gone)"
    and w': "w' = finish E gone (w\<lparr>ew_engine := es_put E s (ew_engine w)\<rparr>)"
    using a by (auto simp: abort_and_finish_def bindE_Inr_iff)
  let ?w = "w\<lparr>ew_engine := es_put E s (ew_engine w)\<rparr>"
  have "streams_ok (ids w) ?w" using ok streams_ok_cong [of ?w w] by simp
  from finish_ok [OF this, of E gone] show "streams_ok (ids w') w'"
    using abort_requests_known [OF s] by (simp add: w' scheduler_put)
  show "worker.more w' = worker.more w" "ew_next_handle w' = ew_next_handle w" by (simp_all add: w')
qed

lemma sweep_ok:
  assumes "streams_ok (ids w) w" "sweep_timeouts E now w = Inr w'"
  shows "streams_ok (ids w') w'" "worker.more w' = worker.more w" "ew_next_handle w' = ew_next_handle w"
  using assms abort_ok [OF assms(1)] by (auto simp: sweep_timeouts_def split: if_splits)

lemma publish_ok:
  assumes ok: "streams_ok (ids w) w" and p: "step_and_publish E seconds t w = Some (Inr w')"
  shows "streams_ok (ids w') w'" "worker.more w' = worker.more w" "ew_next_handle w' = ew_next_handle w"
proof -
  have "streams_ok (ids w') w' \<and> worker.more w' = worker.more w \<and> ew_next_handle w' = ew_next_handle w"
  proof (cases "has_unfinished_requests (es_scheduler E (ew_engine w))")
    case False
    then show ?thesis using ok p by (simp add: step_and_publish_def)
  next
    case True
    then obtain e out gone w1 where st: "es_step E (ew_engine w) = Some (Inr (e, out, gone))"
      and r: "record_step E out seconds t (w\<lparr>ew_engine := e\<rparr>) = Inr w1"
      and w': "w' = finish E gone (emit_tokens E out w1)"
      using p by (auto simp: step_and_publish_def bindR_Inr_iff)
    have "streams_ok (ids w) (w\<lparr>ew_engine := e\<rparr>)" using ok streams_ok_cong [of "w\<lparr>ew_engine := e\<rparr>" w] by simp
    then have "streams_ok (ids w) w1" and e: "ew_engine w1 = e" "worker.more w1 = worker.more w" "ew_next_handle w1 = ew_next_handle w"
      using record_step_ok [OF r] by simp_all
    note em = emit_tokens_ok [OF this(1), of E out]
    from finish_ok [OF em [THEN conjunct1], of E gone] show ?thesis
      using em e step_known [OF st] by (simp add: w')
  qed
  then show "streams_ok (ids w') w'" "worker.more w' = worker.more w" "ew_next_handle w' = ew_next_handle w" by blast+
qed

lemma submission_ok:
  assumes ok: "streams_ok (ids w) w" and q: "ew_incoming w = Submission sub # rest"
    and h: "handle_submission E now sub (w\<lparr>ew_incoming := rest\<rparr>) = Inr w'"
  shows "streams_ok (ids w') w'" "worker.more w' = worker.more w" "ew_next_handle w' = ew_next_handle w"
proof -
  let ?rid = "sub_request_id sub" and ?h = "sub_handle sub"
  obtain e where add: "es_add E (ew_next_request w) (sub_prompt_token_ids sub) (sub_sampling_params sub) ?rid (ew_engine w) = Inr e"
    and f: "ew_engine w' = es_put E (upd_req (ew_next_request w) (\<lambda>r. r\<lparr>arrival_time := now\<rparr>) (es_scheduler E e)) e"
      "ew_streams w' = AList.update ?rid ?h (ew_streams w)" "ew_incoming w' = rest" "ew_error w' = ew_error w"
      "ew_next_handle w' = ew_next_handle w" "\<And>h. queue_of w' h = queue_of w h" "worker.more w' = worker.more w"
    using h by (auto simp: handle_submission_def Let_def bindE_Inr_iff)
  note K = add_known [OF add]
  have "?rid \<notin> fst ` set (ew_streams w)" using ok K by (auto simp: streams_ok_def)
  then have st: "ew_streams w' = ew_streams w @ [(?rid, ?h)]" by (simp add: f(2) alist_update_fresh map_of_eq_None_iff)
  have op: "mset (open_handles w') = mset (open_handles w)" by (simp add: open_handles_def st f(3) q)
  then have "set (open_handles w') = set (open_handles w)" "distinct (open_handles w') = distinct (open_handles w)"
    using mset_eq_setD mset_eq_imp_distinct_iff by blast+
  moreover have "accounted hs w' = accounted hs w" for hs by (rule accounted_same) (simp_all add: f fun_eq_iff)
  ultimately show "streams_ok (ids w') w'"
    using ok K \<open>?rid \<notin> _\<close> by (auto simp: streams_ok_def f(1,4,5) scheduler_put st)
  show "worker.more w' = worker.more w" "ew_next_handle w' = ew_next_handle w" by (rule f(7), rule f(5))
qed

lemma thread_result_inv:
  assumes chk: "\<forall>h \<in> set (sy_checking sy). h < ew_next_handle sy"
    and nxt: "nxt \<in> {At_top, Draining, Sweeping, Stepping}"
    and bad: "\<And>h. h < ew_next_handle sy \<Longrightarrow> Some h = lost \<or> h \<in> set (map snd (ew_streams sy))
        \<or> h \<in> set (queued_handles (ew_incoming sy)) \<or> ended (queue_of sy h)"
    and good: "\<And>sy'. res = Inr sy' \<Longrightarrow> streams_ok (ids sy') sy' \<and> worker.more sy' = worker.more sy
        \<and> ew_next_handle sy' = ew_next_handle sy"
  shows "worker_inv E (thread_result nxt lost res sy)"
proof (cases res)
  case (Inl err)
  then show ?thesis using bad chk by (auto simp: worker_inv_def thread_result_def)
next
  case (Inr sy')
  have "sy_checking sy' = sy_checking sy" using good [OF Inr] more_checking by blast
  moreover have "streams_ok K (sy'\<lparr>sy_pc := nxt\<rparr>) = streams_ok K sy'" for K by (rule streams_ok_cong) simp_all
  ultimately show ?thesis using good [OF Inr] chk nxt by (auto simp: worker_inv_def thread_result_def Inr)
qed

lemma thread_result_ok:
  assumes ok: "streams_ok (ids sy) sy" and chk: "\<forall>h \<in> set (sy_checking sy). h < ew_next_handle sy"
    and nxt: "nxt \<in> {At_top, Draining, Sweeping, Stepping}"
    and good: "\<And>sy'. res = Inr sy' \<Longrightarrow> streams_ok (ids sy') sy' \<and> worker.more sy' = worker.more sy
        \<and> ew_next_handle sy' = ew_next_handle sy"
  shows "worker_inv E (thread_result nxt None res sy)"
  by (rule thread_result_inv [OF chk nxt _ good]) (use streams_okD [OF ok] in blast)

lemma worker_inv_pc:
  assumes "worker_inv E sy" "sy_pc sy \<in> {At_top, Draining, Sweeping, Stepping, Stopped}" "pc \<in> {At_top, Draining, Sweeping, Stepping, Stopped}"
  shows "worker_inv E (sy\<lparr>sy_pc := pc\<rparr>)"
proof -
  have "streams_ok K (sy\<lparr>sy_pc := pc\<rparr>) = streams_ok K sy" for K by (rule streams_ok_cong) simp_all
  then show ?thesis using assms by (auto simp: worker_inv_def)
qed

lemma drain_stage_inv:
  assumes inv: "worker_inv E sy" and pc: "sy_pc sy = Draining"
  shows "worker_inv E (drain_stage E now sy)"
proof (cases "ew_incoming sy")
  case Nil
  then show ?thesis using worker_inv_pc [OF inv] pc by (simp add: drain_stage_def)
next
  case (Cons i rest)
  let ?sy = "sy\<lparr>ew_incoming := rest\<rparr>"
  have ok: "streams_ok (ids sy) sy" and chk: "\<forall>h \<in> set (sy_checking sy). h < ew_next_handle sy"
    using inv pc by (auto simp: worker_inv_def)
  have eq: "drain_stage E now sy = thread_result Draining (handle_of i) (drain_item E now i ?sy) ?sy"
    by (simp add: drain_stage_def Cons Let_def)
  show ?thesis
    unfolding eq
  proof (rule thread_result_inv)
    show "\<forall>h \<in> set (sy_checking ?sy). h < ew_next_handle ?sy" using chk by simp
    show "Some h = handle_of i \<or> h \<in> set (map snd (ew_streams ?sy)) \<or> h \<in> set (queued_handles (ew_incoming ?sy))
        \<or> ended (queue_of ?sy h)" if "h < ew_next_handle ?sy" for h
      using streams_okD [OF ok, of h] that by (cases i) (auto simp: Cons)
    fix sy' assume r: "drain_item E now i ?sy = Inr sy'"
    show "streams_ok (ids sy') sy' \<and> worker.more sy' = worker.more ?sy \<and> ew_next_handle sy' = ew_next_handle ?sy"
    proof (cases i)
      case (Submission sub)
      have q: "ew_incoming sy = Submission sub # rest" using Cons Submission by simp
      have r': "handle_submission E now sub ?sy = Inr sy'" using r by (simp add: drain_item_def Submission)
      show ?thesis using submission_ok [OF ok q r'] by simp
    next
      case (Abort rid)
      have r': "abort_and_finish E [rid] ?sy = Inr sy'" using r by (simp add: drain_item_def Abort)
      have "streams_ok (ids ?sy) ?sy" using ok by (simp add: streams_ok_def open_handles_def accounted_def Cons Abort)
      from abort_ok [OF this r'] show ?thesis by simp
    qed
  qed simp
qed

lemma abort_everything_inv:
  assumes inv: "worker_inv E sy" and pc: "sy_pc sy = Failing lost hs"
  shows "worker_inv E (abort_everything lost hs sy)"
proof (cases "ew_incoming sy")
  case Nil
  have "sy_checking (fold (\<lambda>h. put_item h (StreamEnd FINISHED_ABORTED)) hs sy) = sy_checking sy"
    by (rule more_checking) (rule fold_end_frame)
  then show ?thesis using inv pc
    by (auto simp: worker_inv_def abort_everything_def Nil end_all_def fold_end_frame fold_end_queue)
next
  case (Cons i rest)
  then show ?thesis using inv pc by (cases i) (auto simp: worker_inv_def abort_everything_def)
qed

lemma engine_thread_inv:
  assumes inv: "worker_inv E sy" and st: "engine_thread E now seconds t sy = Some sy'"
  shows "worker_inv E sy'"
proof (cases "sy_pc sy")
  case At_top
  then have sy': "sy' = sy\<lparr>sy_pc := if ew_stop sy then Stopped else Draining\<rparr>"
    using st by (simp add: engine_thread_def loop_top_def)
  show ?thesis unfolding sy' by (rule worker_inv_pc [OF inv]) (simp_all add: At_top)
next
  case Draining
  then show ?thesis using drain_stage_inv [OF inv, of now] st by (simp add: engine_thread_def)
next
  case Sweeping
  then have ok: "streams_ok (ids sy) sy" and chk: "\<forall>h \<in> set (sy_checking sy). h < ew_next_handle sy"
    using inv by (auto simp: worker_inv_def)
  have "worker_inv E (thread_result Stepping None (sweep_timeouts E now sy) sy)"
    by (rule thread_result_ok [OF ok chk]) (simp, intro conjI sweep_ok [OF ok], assumption+)
  then show ?thesis using st Sweeping by (simp add: engine_thread_def)
next
  case Stepping
  then have ok: "streams_ok (ids sy) sy" and chk: "\<forall>h \<in> set (sy_checking sy). h < ew_next_handle sy"
    using inv by (auto simp: worker_inv_def)
  obtain res where res: "step_and_publish E seconds t sy = Some res" "sy' = thread_result At_top None res sy"
    using st Stepping by (auto simp: engine_thread_def)
  have p: "step_and_publish E seconds t sy = Some (Inr s2)" if "res = Inr s2" for s2 using res(1) that by simp
  show ?thesis unfolding res(2)
    by (rule thread_result_ok [OF ok chk]) (simp, intro conjI publish_ok [OF ok p], assumption+)
next
  case (Failing lost hs)
  then show ?thesis using abort_everything_inv [OF inv Failing] st by (simp add: engine_thread_def)
qed (use st in \<open>auto simp: engine_thread_def\<close>)

end

subsection \<open>Every interleaving\<close>

lemma submit_put_fields:
  "ew_error (submit_put u p sp rid t w) = ew_error w" "ew_streams (submit_put u p sp rid t w) = ew_streams w"
  "ew_engine (submit_put u p sp rid t w) = ew_engine w" "ew_next_request (submit_put u p sp rid t w) = ew_next_request w"
  "ew_next_handle (submit_put u p sp rid t w) = Suc (ew_next_handle w)"
  "\<exists>sub. ew_incoming (submit_put u p sp rid t w) = ew_incoming w @ [Submission sub] \<and> sub_handle sub = ew_next_handle w"
  "queue_of (submit_put u p sp rid t w) h = (if h = ew_next_handle w then [] else queue_of w h)"
  "worker.more (submit_put u p sp rid t w) = worker.more w"
  by (simp_all add: submit_put_def Let_def StreamHandle_def)

lemma sy_pc_more: "worker.more w' = worker.more w \<Longrightarrow> sy_pc w' = sy_pc w"
  by (cases w; cases w') simp

lemma submit_put_system:
  "sy_pc (submit_put u p sp rid t sy) = sy_pc sy" "sy_checking (submit_put u p sp rid t sy) = sy_checking sy"
  by (rule sy_pc_more more_checking, rule submit_put_fields)+

lemma put_item_system [simp]: "sy_pc (put_item h i sy) = sy_pc sy" "sy_checking (put_item h i sy) = sy_checking sy"
  by (rule sy_pc_more more_checking, simp)+

lemma streams_ok_submit:
  assumes ok: "streams_ok K w"
  shows "streams_ok K (submit_put u p sp rid t w)"
proof -
  let ?w = "submit_put u p sp rid t w"
  note F = submit_put_fields [of u p sp rid t w]
  obtain sub where sub: "ew_incoming ?w = ew_incoming w @ [Submission sub]" "sub_handle sub = ew_next_handle w" using F(6) by blast
  have op: "open_handles ?w = open_handles w @ [ew_next_handle w]" by (simp add: open_handles_def F(2) sub)
  have acc: "accounted (set (open_handles w)) w" and lt: "\<forall>h \<in> set (open_handles w). h < ew_next_handle w"
    using ok by (auto simp: streams_ok_def)
  have "accounted (set (open_handles ?w)) ?w" using acc by (auto simp: accounted_def op F(5,7) less_Suc_eq)
  then show ?thesis using ok lt by (auto simp: streams_ok_def op F(1,2,5))
qed

lemma streams_ok_pc: "streams_ok K (sy\<lparr>sy_checking := c\<rparr>) = streams_ok K sy"
  by (rule streams_ok_cong) simp_all

lemma worker_step_inv:
  assumes "engine_iface E" and inv: "worker_inv E sy" and st: "worker_step E ev sy = Some sy'"
  shows "worker_inv E sy'"
proof (cases ev)
  case (Submit_put u p sp rid t)
  let ?s = "submit_put u p sp rid t sy"
  note F = submit_put_fields [of u p sp rid t sy] submit_put_system [of u p sp rid t sy]
  obtain sub where sub: "ew_incoming ?s = ew_incoming sy @ [Submission sub]" "sub_handle sub = ew_next_handle sy" using F(6) by blast
  have sy': "sy' = ?s\<lparr>sy_checking := sy_checking sy @ [ew_next_handle sy]\<rparr>" using st Submit_put by simp
  show ?thesis
    using inv streams_ok_submit [of "known (es_scheduler E (ew_engine sy))" sy u p sp rid t]
    by (auto simp: worker_inv_def sy' F(1-5,7-) sub streams_ok_pc less_Suc_eq split: engine_pc.splits)
next
  case (Submit_check h)
  then have h: "h \<in> set (sy_checking sy)" "sy' = (submit_check h sy)\<lparr>sy_checking := remove1 h (sy_checking sy)\<rparr>"
    using st by (auto split: if_splits)
  have rest: "k \<in> set (remove1 h (sy_checking sy))" if "k \<in> set (sy_checking sy)" "k \<noteq> h" for k using that by simp
  show ?thesis
  proof (cases "ew_error sy = None")
    case True
    then show ?thesis using inv notin_set_remove1 [of _ "sy_checking sy" h]
      by (auto simp: worker_inv_def h(2) submit_check_def streams_ok_pc split: engine_pc.splits)
  next
    case False
    then show ?thesis using inv rest notin_set_remove1 [of _ "sy_checking sy" h]
      by (auto simp: worker_inv_def h(2) submit_check_def streams_ok_def split: engine_pc.splits)
  qed
next
  case (Client_abort rid)
  have "streams_ok K (abort rid sy) = streams_ok K sy" for K
    by (simp add: streams_ok_def open_handles_def accounted_def abort_def)
  then show ?thesis using inv st Client_abort by (auto simp: worker_inv_def abort_def split: engine_pc.splits)
next
  case Stop
  have "streams_ok K (sy\<lparr>ew_stop := True\<rparr>) = streams_ok K sy" for K by (rule streams_ok_cong) simp_all
  then show ?thesis using inv st Stop by (auto simp: worker_inv_def split: engine_pc.splits)
next
  case (Engine_thread now seconds t)
  then show ?thesis using engine_iface.engine_thread_inv [OF assms(1) inv] st by simp
qed

lemma worker_run_inv:
  assumes "engine_iface E" "worker_inv E sy" "worker_run E evs sy = Some sy'"
  shows "worker_inv E sy'"
  using assms(2,3)
  by (induction evs arbitrary: sy) (auto split: option.splits dest: worker_step_inv [OF assms(1)])

lemma worker_inv_init: "worker_inv E (EngineWorker e timeout)"
  by (simp add: worker_inv_def EngineWorker_def streams_ok_def open_handles_def accounted_def)

subsection \<open>What clients may rely on\<close>

lemma stream_open: "stream (map StreamToken ts) = map StreamToken ts"
  by (induction ts) auto

lemma stream_closed: "stream (map StreamToken ts @ StreamEnd r # items) = map StreamToken ts @ [StreamEnd r]"
  by (induction ts) auto

text \<open>C9: While the engine is alive, whatever the interleaving of submissions, aborts, timeouts and
  steps, every stream is a run of tokens, still open, or a run of tokens and one end marker after
  which nothing is put; its consumer reads exactly what was put.
\<close>

theorem streams_end_once:
  assumes "worker_run (llm_engine_shape name) evs (EngineWorker e timeout) = Some sy"
    and "ew_error sy = None" and "h < ew_next_handle sy"
  shows "(if h \<in> set (open_handles sy) then \<exists>ts. queue_of sy h = map StreamToken ts
          else \<exists>ts r. queue_of sy h = map StreamToken ts @ [StreamEnd r])
     \<and> stream (queue_of sy h) = queue_of sy h"
proof -
  have "worker_inv (llm_engine_shape name) sy"
    by (rule worker_run_inv [OF llm.engine_iface_axioms worker_inv_init assms(1)])
  then have "\<exists>K. streams_ok K sy" using assms(2) by (auto simp: worker_inv_def split: engine_pc.splits)
  then have "if h \<in> set (open_handles sy) then only_tokens (queue_of sy h) else closed_stream (queue_of sy h)"
    using assms(3) by (auto simp: streams_ok_def accounted_def)
  then show ?thesis using stream_open stream_closed [where items = "[]"]
    by (auto simp: only_tokens_def closed_stream_def split: if_splits)
qed

text \<open>C17: Once the engine thread has died and no client stands between its put and its check, every
  stream has ended, so nobody waits for ever, except perhaps the reader of the one submission
  whose \<open>add_request\<close> raised.
\<close>

theorem dead_engine_ends_streams:
  assumes "worker_run (llm_engine_shape name) evs (EngineWorker e timeout) = Some sy"
    and "sy_pc sy = Dead lost" and "sy_checking sy = []" and "h < ew_next_handle sy" and "lost \<noteq> Some h"
  shows "\<exists>r. StreamEnd r \<in> set (queue_of sy h)"
proof -
  have "worker_inv (llm_engine_shape name) sy"
    by (rule worker_run_inv [OF llm.engine_iface_axioms worker_inv_init assms(1)])
  then show ?thesis using assms(2-5) by (auto simp: worker_inv_def ended_def)
qed

text \<open>The stream of a submission that the engine rejects.\<close>

definition rejected :: "'e engine_shape \<Rightarrow> href \<Rightarrow> 'e worker_system \<Rightarrow> bool" where
  "rejected E h sy \<longleftrightarrow> h < ew_next_handle sy \<and> h \<notin> set (sy_checking sy) \<and> queue_of sy h = []
     \<and> (case sy_pc sy of
          Draining \<Rightarrow> \<exists>sub rest err. ew_incoming sy = Submission sub # rest \<and> sub_handle sub = h
            \<and> es_add E (ew_next_request sy) (sub_prompt_token_ids sub) (sub_sampling_params sub) (sub_request_id sub)
                (ew_engine sy) = Inl err
            \<and> h \<notin> set (queued_handles rest) \<and> h \<notin> set (map snd (ew_streams sy))
        | Failing _ hs \<Rightarrow> h \<notin> set hs \<and> h \<notin> set (queued_handles (ew_incoming sy))
        | Dead _ \<Rightarrow> True
        | _ \<Rightarrow> False)"

lemma put_item_next_request [simp]: "ew_next_request (put_item h i w) = ew_next_request w"
  by (simp add: put_item_def)

lemma fold_end_other: "h \<notin> set hs \<Longrightarrow> queue_of (fold (\<lambda>h. put_item h (StreamEnd r)) hs w) h = queue_of w h"
  by (induction hs arbitrary: w) auto

lemma rejected_engine_thread:
  assumes rej: "rejected E h sy" and st: "engine_thread E now seconds t sy = Some sy'"
  shows "rejected E h sy'"
proof (cases "sy_pc sy")
  case Draining
  then show ?thesis using rej st
    by (auto simp: rejected_def engine_thread_def drain_stage_def drain_item_def handle_submission_def thread_result_def Let_def)
next
  case (Failing lost hs)
  show ?thesis
  proof (cases "ew_incoming sy")
    case Nil
    have "sy_checking (fold (\<lambda>h. put_item h (StreamEnd FINISHED_ABORTED)) hs sy) = sy_checking sy"
      by (rule more_checking) (rule fold_end_frame)
    then show ?thesis using rej st Failing Nil
      by (auto simp: rejected_def engine_thread_def abort_everything_def end_all_def fold_end_frame fold_end_other)
  next
    case (Cons i rest)
    then show ?thesis using rej st Failing
      by (cases i) (auto simp: rejected_def engine_thread_def abort_everything_def)
  qed
qed (use rej st in \<open>auto simp: rejected_def engine_thread_def\<close>)

lemma rejected_step:
  assumes rej: "rejected E h sy" and st: "worker_step E ev sy = Some sy'"
  shows "rejected E h sy'"
proof (cases ev)
  case (Submit_put u p sp rid t)
  let ?s = "submit_put u p sp rid t sy"
  note F = submit_put_fields [of u p sp rid t sy] submit_put_system [of u p sp rid t sy]
  obtain sub where sub: "ew_incoming ?s = ew_incoming sy @ [Submission sub]" "sub_handle sub = ew_next_handle sy" using F(6) by blast
  have sy': "sy' = ?s\<lparr>sy_checking := sy_checking sy @ [ew_next_handle sy]\<rparr>" using st Submit_put by simp
  show ?thesis using rej
    by (auto simp: rejected_def sy' F(1-5,7-) sub split: engine_pc.splits)
next
  case (Submit_check k)
  then show ?thesis using rej st by (auto simp: rejected_def submit_check_def dest: notin_set_remove1 split: if_splits engine_pc.splits)
next
  case (Client_abort rid)
  then show ?thesis using rej st by (auto simp: rejected_def abort_def split: engine_pc.splits)
next
  case Stop
  then show ?thesis using rej st by (auto simp: rejected_def split: engine_pc.splits)
next
  case (Engine_thread now seconds t)
  then show ?thesis using rejected_engine_thread [OF rej] st by simp
qed

text \<open>C40: A submission whose \<open>add_request\<close> raises (a request id already in use, say) and whose
  \<open>submit\<close> has returned is never answered: the handler collects the streams and the queue, and
  this submission is in neither, so its stream stays empty in every continuation.
\<close>

theorem rejected_submission_never_ends:
  assumes "rejected E h sy" and "worker_run E evs sy = Some sy'"
  shows "queue_of sy' h = []"
proof -
  have "rejected E h sy'"
    using assms by (induction evs arbitrary: sy) (auto split: option.splits dest: rejected_step)
  then show ?thesis by (simp add: rejected_def)
qed

subsection \<open>Two submissions under one id\<close>

text \<open>The engine thread dies on the second; the first is told, the second waits for ever.\<close>

definition twice :: "worker_event list" where
  "twice = [Submit_put [] [0] default_sampling_params (Some ''a'') None, Submit_check 0,
            Submit_put [] [1] default_sampling_params (Some ''a'') None, Submit_check 1,
            Engine_thread 0 0 0, Engine_thread 0 0 0]"

definition then_dies :: "worker_event list" where
  "then_dies = [Engine_thread 0 0 0, Engine_thread 0 0 0]"

lemma tiny_engine_fresh: "s_requests (e_sched (tiny_engine n b)) = []"
  by (simp add: tiny_engine_def LLMEngine_def Scheduler_def Let_def)

lemma twice_run:
  "\<exists>sy. worker_run (llm_engine_shape (\<lambda>_. [])) twice (EngineWorker (tiny_engine 4 8) None) = Some sy
     \<and> ew_error sy = None \<and> ew_next_handle sy = 2 \<and> rejected (llm_engine_shape (\<lambda>_. [])) 1 sy
     \<and> set (open_handles sy) = {0, 1}
     \<and> (\<exists>sy'. worker_run (llm_engine_shape (\<lambda>_. [])) then_dies sy = Some sy' \<and> sy_pc sy' = Dead (Some 1)
          \<and> sy_checking sy' = [] \<and> ew_next_handle sy' = 2)"
  by (simp add: twice_def then_dies_def EngineWorker_def submit_put_def submit_check_def engine_thread_def loop_top_def
    drain_stage_def drain_item_def handle_submission_def llm_engine_shape_def engine_add_request_def add_request_def Let_def
    tiny_engine_fresh mk_request_def upd_req_def thread_result_def rejected_def open_handles_def abort_everything_def end_all_def StreamHandle_def insert_commute)

text \<open>One client, served to its end in one step of the engine.\<close>

definition one_client :: "worker_event list" where
  "one_client = [Submit_put ''u'' [0, 1, 2] tiny_params (Some ''a'') None, Submit_check 0,
     Engine_thread 0 0 0, Engine_thread 0 0 0, Engine_thread 0 0 0, Engine_thread 0 0 0]"

lemma one_client_served:
  "case worker_run (llm_engine_shape (\<lambda>_. [])) (one_client @ [Engine_thread 0 0 0]) (EngineWorker (tiny_engine 4 8) None) of None \<Rightarrow> False
   | Some sy \<Rightarrow> ew_error sy = None \<and> ew_next_handle sy = 1 \<and> ew_streams sy = [] \<and> ew_incoming sy = []
       \<and> queue_of sy 0 = [StreamToken 0, StreamEnd FINISHED_LENGTH_CAPPED]"
  by code_simp

theorem streams_end_once_witness:
  "\<exists>sy ts r. worker_run (llm_engine_shape (\<lambda>_. [])) (one_client @ [Engine_thread 0 0 0]) (EngineWorker (tiny_engine 4 8) None) = Some sy
     \<and> queue_of sy 0 = map StreamToken ts @ [StreamEnd r] \<and> stream (queue_of sy 0) = [StreamToken 0, StreamEnd FINISHED_LENGTH_CAPPED]"
proof -
  obtain sy where sy: "worker_run (llm_engine_shape (\<lambda>_. [])) (one_client @ [Engine_thread 0 0 0]) (EngineWorker (tiny_engine 4 8) None) = Some sy"
    "ew_error sy = None" "ew_next_handle sy = 1" "open_handles sy = []" "queue_of sy 0 = [StreamToken 0, StreamEnd FINISHED_LENGTH_CAPPED]"
    using one_client_served by (auto simp: open_handles_def queued_handles_def split: option.splits)
  from streams_end_once [OF sy(1,2), of 0] show ?thesis using sy by (intro exI [of _ sy]) auto
qed

lemma worker_run_append:
  "worker_run E (evs @ evs') sy = (case worker_run E evs sy of None \<Rightarrow> None | Some sy' \<Rightarrow> worker_run E evs' sy')"
  by (induction evs arbitrary: sy) (auto split: option.splits)

theorem dead_engine_ends_streams_witness:
  "\<exists>sy. worker_run (llm_engine_shape (\<lambda>_. [])) (twice @ then_dies) (EngineWorker (tiny_engine 4 8) None) = Some sy
     \<and> sy_pc sy = Dead (Some 1) \<and> (\<exists>r. StreamEnd r \<in> set (queue_of sy 0))"
proof -
  obtain sy where sy: "worker_run (llm_engine_shape (\<lambda>_. [])) (twice @ then_dies) (EngineWorker (tiny_engine 4 8) None) = Some sy"
    "sy_pc sy = Dead (Some 1)" "sy_checking sy = []" "ew_next_handle sy = 2"
    using twice_run by (auto simp: worker_run_append)
  from dead_engine_ends_streams [OF sy(1-3), of 0] show ?thesis using sy by (intro exI [of _ sy]) simp
qed

theorem rejected_submission_never_ends_witness:
  "\<exists>sy. worker_run (llm_engine_shape (\<lambda>_. [])) (twice @ then_dies) (EngineWorker (tiny_engine 4 8) None) = Some sy
     \<and> sy_pc sy = Dead (Some 1) \<and> queue_of sy 1 = []"
proof -
  obtain sy sy' where "worker_run (llm_engine_shape (\<lambda>_. [])) twice (EngineWorker (tiny_engine 4 8) None) = Some sy"
    and rej: "rejected (llm_engine_shape (\<lambda>_. [])) 1 sy"
    and dies: "worker_run (llm_engine_shape (\<lambda>_. [])) then_dies sy = Some sy'" and "sy_pc sy' = Dead (Some 1)"
    using twice_run by blast
  then show ?thesis using rejected_submission_never_ends [OF rej dies] by (intro exI [of _ sy']) (simp add: worker_run_append)
qed

end
