(* ===== verification/Py_Strings.thy ===== *)
theory Py_Strings
  imports Prelude "HOL-Library.List_Lexorder"
begin

text \<open>
  The string operations of Python the tools and the server use, on lists of Latin-1
  characters: \<open>strip\<close>, \<open>split\<close>, \<open>partition\<close>, \<open>splitlines\<close>, \<open>join\<close>, \<open>isdigit\<close>, \<open>int\<close> and
  \<open>str\<close> of an integer, with the facts that make printing and parsing inverse to each other.
\<close>

subsection \<open>Splitting and joining\<close>

definition py_space :: "char \<Rightarrow> bool" where
  "py_space c \<longleftrightarrow> (let n = of_char c :: nat in (9 \<le> n \<and> n \<le> 13) \<or> (28 \<le> n \<and> n \<le> 32) \<or> n = 133 \<or> n = 160)"

definition py_strip :: "string \<Rightarrow> string" where
  "py_strip s = rev (dropWhile py_space (rev (dropWhile py_space s)))"

fun split_on :: "char \<Rightarrow> string \<Rightarrow> string list" where
  "split_on c [] = [[]]"
| "split_on c (x # xs) = (if x = c then [] # split_on c xs
     else case split_on c xs of [] \<Rightarrow> [[x]] | p # ps \<Rightarrow> (x # p) # ps)"

text \<open>\<open>s.partition(c)\<close> without the separator in the middle.\<close>

definition py_partition :: "char \<Rightarrow> string \<Rightarrow> string \<times> string" where
  "py_partition c s = (takeWhile (\<lambda>x. x \<noteq> c) s, drop 1 (dropWhile (\<lambda>x. x \<noteq> c) s))"

fun py_join :: "string \<Rightarrow> string list \<Rightarrow> string" where
  "py_join sep [] = []"
| "py_join sep [s] = s"
| "py_join sep (s # t # ts) = s @ sep @ py_join sep (t # ts)"

text \<open>\<open>s.split()\<close>: the maximal runs of characters that are not white space.\<close>

function py_words :: "string \<Rightarrow> string list" where
  "py_words s = (let t = dropWhile py_space s in
     if t = [] then [] else takeWhile (\<lambda>c. \<not> py_space c) t # py_words (dropWhile (\<lambda>c. \<not> py_space c) t))"
  by auto
termination
proof (relation "measure length", simp)
  fix s x assume x: "x = dropWhile py_space s" "x \<noteq> []"
  then have "\<not> py_space (hd x)" using hd_dropWhile [of py_space s] by simp
  then have "length (dropWhile (\<lambda>c. \<not> py_space c) x) < length x"
    using x(2) by (cases x) (auto simp: length_dropWhile_le le_imp_less_Suc)
  also have "length x \<le> length s" unfolding x(1) by (rule length_dropWhile_le)
  finally show "(dropWhile (\<lambda>c. \<not> py_space c) x, s) \<in> measure length" by simp
qed

declare py_words.simps [simp del]

definition line_break :: "char \<Rightarrow> bool" where
  "line_break c \<longleftrightarrow> (let n = of_char c :: nat in (10 \<le> n \<and> n \<le> 13) \<or> (28 \<le> n \<and> n \<le> 30) \<or> n = 133)"

text \<open>
  \<open>s.splitlines()\<close>: a newline right after a carriage return belongs to the same break (\<open>cr\<close>);
  \<open>cur\<close> is the line read so far, reversed.
\<close>

fun lines_from :: "bool \<Rightarrow> string \<Rightarrow> string \<Rightarrow> string list" where
  "lines_from cr cur [] = (if cur = [] then [] else [rev cur])"
| "lines_from cr cur (c # s) =
     (if cr \<and> of_char c = (10::nat) then lines_from False cur s
      else if line_break c then rev cur # lines_from (of_char c = (13::nat)) [] s
      else lines_from False (c # cur) s)"

definition splitlines :: "string \<Rightarrow> string list" where
  "splitlines s = lines_from False [] s"

subsection \<open>Integers\<close>

definition ascii_digit :: "char \<Rightarrow> bool" where
  "ascii_digit c \<longleftrightarrow> (let n = of_char c :: nat in 48 \<le> n \<and> n \<le> 57)"

text \<open>\<open>isdigit\<close> also accepts the three superscript digits of Latin-1, which \<open>int\<close> refuses.\<close>

definition py_isdigit :: "string \<Rightarrow> bool" where
  "py_isdigit s \<longleftrightarrow> s \<noteq> [] \<and> list_all (\<lambda>c. ascii_digit c \<or> of_char c \<in> {178, 179, 185 :: nat}) s"

definition digit_value :: "char \<Rightarrow> int" where
  "digit_value c = int (of_char c) - 48"

text \<open>Digits, with single underscores between digits: \<open>after\<close> says that the last character was a digit.\<close>

fun read_digits :: "bool \<Rightarrow> int \<Rightarrow> string \<Rightarrow> int option" where
  "read_digits after n [] = (if after then Some n else None)"
| "read_digits after n (c # s) =
     (if ascii_digit c then read_digits True (10 * n + digit_value c) s
      else if c = CHR ''_'' \<and> after then read_digits False n s
      else None)"

definition py_int :: "string \<Rightarrow> int or_raise" where
  "py_int s =
     (let t = py_strip s;
          r = (case t of
                 [] \<Rightarrow> None
               | c # u \<Rightarrow> if c = CHR ''-'' then map_option uminus (read_digits False 0 u)
                          else if c = CHR ''+'' then read_digits False 0 u
                          else read_digits False 0 t)
      in case r of None \<Rightarrow> Inl ValueError | Some n \<Rightarrow> Inr n)"

fun show_nat :: "nat \<Rightarrow> string" where
  "show_nat n = (if n < 10 then [char_of (48 + n)] else show_nat (n div 10) @ [char_of (48 + n mod 10)])"

declare show_nat.simps [simp del]

definition show_int :: "int \<Rightarrow> string" where
  "show_int n = (if n < 0 then CHR ''-'' # show_nat (nat (- n)) else show_nat (nat n))"

subsection \<open>Printing and parsing are inverse\<close>

lemma digit_char: "n < 10 \<Longrightarrow> ascii_digit (char_of (48 + n)) \<and> digit_value (char_of (48 + n)) = int n"
  by (simp add: ascii_digit_def digit_value_def)

lemma ascii_digit_plain: "ascii_digit c \<Longrightarrow> \<not> py_space c \<and> c \<noteq> CHR ''-'' \<and> c \<noteq> CHR '','' \<and> c \<noteq> CHR ''+'' \<and> c \<noteq> CHR ''_''"
  by (auto simp: ascii_digit_def py_space_def Let_def)

lemma show_nat_digits: "list_all ascii_digit (show_nat n)" and show_nat_nonempty: "show_nat n \<noteq> []"
proof (induction n rule: show_nat.induct)
  case (1 n)
  {
    case 1
    then show ?case using "1.IH" digit_char [of n] digit_char [of "n mod 10"] by (subst show_nat.simps) auto
  next
    case 2
    then show ?case by (subst show_nat.simps) auto
  }
qed

lemma read_digits_more:
  "list_all ascii_digit s \<Longrightarrow> read_digits True n (s @ t) = read_digits True (fold (\<lambda>c n. 10 * n + digit_value c) s n) t"
  by (induction s arbitrary: n) auto

lemma read_digits_append:
  assumes "list_all ascii_digit s" "s \<noteq> []"
  shows "read_digits b n (s @ t) = read_digits True (fold (\<lambda>c n. 10 * n + digit_value c) s n) t"
  using assms by (cases s) (simp_all add: read_digits_more)

lemma fold_show_nat: "fold (\<lambda>c n. 10 * n + digit_value c) (show_nat k) 0 = int k"
proof (induction k rule: show_nat.induct)
  case (1 n)
  show ?case
  proof (cases "n < 10")
    case True
    then show ?thesis using digit_char [of n] by (subst show_nat.simps) simp
  next
    case False
    have "fold (\<lambda>c n. 10 * n + digit_value c) (show_nat n) 0 = 10 * int (n div 10) + int (n mod 10)"
      using "1.IH" [OF False] digit_char [of "n mod 10"] False by (subst show_nat.simps) simp
    also have "\<dots> = int n" by (metis mult_div_mod_eq of_nat_add of_nat_mult of_nat_numeral)
    finally show ?thesis .
  qed
qed

lemma py_strip_digits: "list_all ascii_digit s \<Longrightarrow> py_strip s = s"
proof -
  assume d: "list_all ascii_digit s"
  have "dropWhile py_space t = t" if "list_all ascii_digit t" for t
    using that ascii_digit_plain by (cases t) auto
  from this [OF d] this [of "rev s"] show ?thesis using d by (simp add: py_strip_def)
qed

lemma read_show_nat: "read_digits False 0 (show_nat k) = Some (int k)"
  using read_digits_append [OF show_nat_digits show_nat_nonempty, of False 0 k "[]"] fold_show_nat [of k] by simp

lemma py_strip_ends:
  assumes "s \<noteq> []" "\<not> py_space (hd s)" "\<not> py_space (last s)"
  shows "py_strip s = s"
proof -
  have "dropWhile py_space s = s" using assms(1,2) by (cases s) auto
  moreover have "dropWhile py_space (rev s) = rev s" using assms(1,3) by (cases "rev s") (auto simp: last_conv_nth rev_nth hd_rev [symmetric])
  ultimately show ?thesis by (simp add: py_strip_def)
qed

lemma py_strip_plain: "\<forall>c \<in> set s. \<not> py_space c \<Longrightarrow> py_strip s = s"
  by (cases "s = []") (simp add: py_strip_def, rule py_strip_ends, auto)

lemma py_int_show: "py_int (show_int n) = Inr n"
proof -
  let ?s = "show_nat (nat \<bar>n\<bar>)"
  note d = show_nat_digits [of "nat \<bar>n\<bar>"] show_nat_nonempty [of "nat \<bar>n\<bar>"]
  have strip: "py_strip (show_int n) = show_int n"
    using d ascii_digit_plain by (intro py_strip_plain) (auto simp: show_int_def list_all_iff py_space_def)
  show ?thesis
  proof (cases "n < 0")
    case True
    then show ?thesis using read_show_nat [of "nat (- n)"] strip by (simp add: py_int_def show_int_def)
  next
    case False
    obtain c u where "?s = c # u" "ascii_digit c" using d by (cases ?s) auto
    then show ?thesis using False strip ascii_digit_plain [of c] read_show_nat [of "nat n"]
      by (simp add: py_int_def show_int_def)
  qed
qed

lemma show_int_digits: "0 \<le> n \<Longrightarrow> list_all ascii_digit (show_int n)" "show_int n \<noteq> []"
  by (simp_all add: show_int_def show_nat_digits show_nat_nonempty)

lemma split_on_no: "c \<notin> set s \<Longrightarrow> split_on c s = [s]"
  by (induction s) auto

lemma split_on_append: "c \<notin> set s \<Longrightarrow> split_on c (s @ c # t) = s # split_on c t"
  by (induction s) auto

lemma split_on_join: "ps \<noteq> [] \<Longrightarrow> (\<And>p. p \<in> set ps \<Longrightarrow> c \<notin> set p) \<Longrightarrow> split_on c (py_join [c] ps) = ps"
proof (induction "[c]" ps rule: py_join.induct)
  case (3 s t ts)
  then show ?case using split_on_append [of c s] by simp
qed (simp_all add: split_on_no)

lemma py_partition_at: "c \<notin> set s \<Longrightarrow> py_partition c (s @ c # t) = (s, t)"
  by (induction s) (auto simp: py_partition_def)

lemma py_partition_none: "c \<notin> set s \<Longrightarrow> py_partition c s = (s, [])"
  by (induction s) (auto simp: py_partition_def)

end
