(* ===== verification/Topology.thy ===== *)
theory Topology
  imports Py_Strings
begin

text \<open>
  \<^verbatim>\<open>infra/os/topology.py\<close>: the machine map the pinning and tuning tools start from.  The files
  under the machine's root are a function from a path to its text, \<open>None\<close> where the machine does
  not expose it; a directory listing (\<open>glob\<close>), the names of the running processes, the output of
  \<open>nvidia-smi\<close> and the reading of a decimal number are arguments.
\<close>

type_synonym machine_files = "string \<Rightarrow> string option"

subsection \<open>Core lists\<close>

definition cpulist_part :: "string \<Rightarrow> int list or_raise" where
  "cpulist_part part =
     (let (lo, hi) = py_partition CHR ''-'' part in
      bindE (py_int lo) (\<lambda>l. bindE (py_int (if hi = [] then lo else hi)) (\<lambda>h. Inr [l..h])))"

definition parse_cpulist :: "string \<Rightarrow> int list or_raise" where
  "parse_cpulist text =
     bindE (mapE cpulist_part (filter (\<lambda>p. p \<noteq> []) (split_on CHR '','' (py_strip text)))) (\<lambda>ps. Inr (concat ps))"

text \<open>The run of consecutive cores at the front of a list, and what follows it.\<close>

fun run_end :: "int \<Rightarrow> int list \<Rightarrow> int \<times> int list" where
  "run_end j [] = (j, [])"
| "run_end j (x # xs) = (if x = j + 1 then run_end x xs else (j, x # xs))"

lemma run_end_length: "length (snd (run_end j xs)) \<le> length xs"
  by (induction j xs rule: run_end.induct) auto

function cpulist_parts :: "int list \<Rightarrow> string list" where
  "cpulist_parts [] = []"
| "cpulist_parts (i # xs) =
     (let (j, rest) = run_end i xs
      in (if i = j then show_int i else show_int i @ ''-'' @ show_int j) # cpulist_parts rest)"
  by pat_completeness auto
termination
  by (relation "measure length") (auto, metis le_imp_less_Suc run_end_length snd_conv)

definition cpulist :: "int list \<Rightarrow> string" where
  "cpulist cpus = py_join '','' (cpulist_parts (sort cpus))"

subsection \<open>Reading the machine\<close>

definition read_file :: "machine_files \<Rightarrow> string \<Rightarrow> string option" where
  "read_file files rel = map_option py_strip (files rel)"

definition or_empty :: "string option \<Rightarrow> string" where
  "or_empty t = (case t of None \<Rightarrow> [] | Some s \<Rightarrow> s)"

definition int_or_none :: "string option \<Rightarrow> int option or_raise" where
  "int_or_none t = (case t of None \<Rightarrow> Inr None | Some s \<Rightarrow> bindE (py_int s) (\<lambda>n. Inr (Some n)))"

text \<open>
  The search for \<open>\[(\S+)\]\<close>: after the leftmost bracket that works, up to the last closing bracket
  of the run without spaces that follows, with something between.
\<close>

definition bracket_group :: "string \<Rightarrow> string option" where
  "bracket_group s =
     (let run = takeWhile (\<lambda>c. \<not> py_space c) s;
          back = dropWhile (\<lambda>c. c \<noteq> CHR '']'') (rev run)
      in if length back < 2 then None else Some (rev (tl back)))"

fun bracketed_from :: "string \<Rightarrow> string option" where
  "bracketed_from [] = None"
| "bracketed_from (c # s) =
     (if c = CHR ''['' \<and> bracket_group s \<noteq> None then bracket_group s else bracketed_from s)"

definition bracketed :: "string option \<Rightarrow> string option" where
  "bracketed t = bracketed_from (or_empty t)"

text \<open>
  The search for \<open>isolcpus=(\S+)\<close> at the start of the line or after white space finds the first
  word that begins with it and goes on.
\<close>

definition isolated :: "string \<Rightarrow> int list or_raise" where
  "isolated cmdline =
     (case filter (\<lambda>w. take 9 w = ''isolcpus='' \<and> drop 9 w \<noteq> []) (py_words cmdline) of
        [] \<Rightarrow> Inr []
      | w # _ \<Rightarrow> parse_cpulist (py_join '','' (filter (\<lambda>p. py_isdigit (take 1 p)) (split_on CHR '','' (drop 9 w)))))"

record irq_info =
  irq_number :: int
  irq_device :: string
  irq_count :: int
  irq_cpus :: "int list"

definition irq_file :: "int \<Rightarrow> string" where
  "irq_file irq = ''proc/irq/'' @ show_int irq @ ''/smp_affinity_list''"

definition irq_line :: "machine_files \<Rightarrow> nat \<Rightarrow> string \<Rightarrow> irq_info list or_raise" where
  "irq_line files n_cpus line =
     (let (head, rest) = py_partition CHR '':'' line in
      if \<not> py_isdigit (py_strip head) then Inr []
      else
        let parts = py_words rest in
        bindE (py_int head) (\<lambda>irq.
        if parts = [] then Inl IndexError
        else
        bindE (mapE py_int (take n_cpus parts)) (\<lambda>counts.
        bindE (parse_cpulist (or_empty (read_file files (irq_file irq)))) (\<lambda>cpus.
          Inr [\<lparr>irq_number = irq, irq_device = last parts, irq_count = sum_list counts, irq_cpus = cpus\<rparr>]))))"

definition irqs :: "machine_files \<Rightarrow> irq_info list or_raise" where
  "irqs files =
     (case splitlines (or_empty (read_file files ''proc/interrupts'')) of
        [] \<Rightarrow> Inr []
      | header # rows \<Rightarrow>
          bindE (mapE (irq_line files (length (py_words header))) rows) (\<lambda>found. Inr (concat found)))"

record facts =
  f_cpus :: "int list"
  f_cores :: "int list list"
  f_numa :: "(int \<times> int list) list"
  f_governor :: "string option"
  f_thp_enabled :: "string option"
  f_thp_defrag :: "string option"
  f_swappiness :: "int option"
  f_somaxconn :: "int option"
  f_netdev_max_backlog :: "int option"
  f_cmdline :: string
  f_isolated :: "int list"
  f_irqs :: "irq_info list"
  f_irqbalance :: bool

text \<open>
  \<open>node_dirs\<close>: the sorted names of the node directories.  The fields read off \<^verbatim>\<open>/proc/cpuinfo\<close> by
  regular expressions and the idle states' names, which only the report shows, are left out.
\<close>

definition gather :: "string list \<Rightarrow> string set \<Rightarrow> machine_files \<Rightarrow> facts or_raise" where
  "gather node_dirs comms files =
     (let cpu_dir = ''sys/devices/system/cpu''; rd = read_file files;
          list_of = (\<lambda>p default. parse_cpulist (case rd p of None \<Rightarrow> default | Some t \<Rightarrow> if t = [] then default else t))
      in
      bindE (list_of (cpu_dir @ ''/online'') []) (\<lambda>cpus.
      bindE (mapE (\<lambda>c. list_of (cpu_dir @ ''/cpu'' @ show_int c @ ''/topology/thread_siblings_list'') (show_int c)) cpus) (\<lambda>siblings.
      bindE (mapE (\<lambda>d. bindE (py_int (drop 4 d)) (\<lambda>n.
          bindE (list_of (''sys/devices/system/node/'' @ d @ ''/cpulist'') []) (\<lambda>cs. Inr (n, cs)))) node_dirs) (\<lambda>nodes.
      bindE (int_or_none (rd ''proc/sys/vm/swappiness'')) (\<lambda>swappiness.
      bindE (int_or_none (rd ''proc/sys/net/core/somaxconn'')) (\<lambda>somaxconn.
      bindE (int_or_none (rd ''proc/sys/net/core/netdev_max_backlog'')) (\<lambda>backlog.
      let cmdline = or_empty (rd ''proc/cmdline'') in
      bindE (isolated cmdline) (\<lambda>iso.
      bindE (irqs files) (\<lambda>is.
        Inr \<lparr>f_cpus = cpus, f_cores = sort (remdups siblings),
             f_numa = fold (\<lambda>(n, cs). AList.update n cs) nodes [],
             f_governor = rd (cpu_dir @ ''/cpu0/cpufreq/scaling_governor''),
             f_thp_enabled = bracketed (rd ''sys/kernel/mm/transparent_hugepage/enabled''),
             f_thp_defrag = bracketed (rd ''sys/kernel/mm/transparent_hugepage/defrag''),
             f_swappiness = swappiness, f_somaxconn = somaxconn, f_netdev_max_backlog = backlog,
             f_cmdline = cmdline, f_isolated = iso, f_irqs = is, f_irqbalance = ''irqbalance'' \<in> comms\<rparr>)))))))))"

subsection \<open>The GPU\<close>

record 'f gpu =
  g_index :: int
  g_name :: string
  g_pci :: string
  g_persistence :: bool
  g_sm_clock_mhz :: "int option"
  g_max_sm_clock_mhz :: "int option"
  g_app_clock_mhz :: "int option"
  g_power_limit_w :: "'f option"
  g_max_power_limit_w :: "'f option"
  g_driver :: string
  g_numa_node :: "int option"
  g_local_cpus :: "int list"

definition num_or_none :: "(string \<Rightarrow> 'n or_raise) \<Rightarrow> string \<Rightarrow> 'n option or_raise" where
  "num_or_none kind text = (if take 1 text = ''['' then Inr None else bindE (kind text) (\<lambda>n. Inr (Some n)))"

definition parse_gpu :: "(string \<Rightarrow> 'f or_raise) \<Rightarrow> string \<Rightarrow> 'f gpu or_raise" where
  "parse_gpu to_float line =
     (let f = map py_strip (split_on CHR '','' line);
          at = (\<lambda>i. if i < length f then Inr (f ! i) else Inl IndexError)
      in
      bindE (bindE (at 0) py_int) (\<lambda>index. bindE (at 1) (\<lambda>name. bindE (at 2) (\<lambda>pci. bindE (at 3) (\<lambda>pers.
      bindE (bindE (at 4) (num_or_none py_int)) (\<lambda>clock. bindE (bindE (at 5) (num_or_none py_int)) (\<lambda>top.
      bindE (bindE (at 6) (num_or_none py_int)) (\<lambda>app. bindE (bindE (at 7) (num_or_none to_float)) (\<lambda>power.
      bindE (bindE (at 8) (num_or_none to_float)) (\<lambda>max_power. bindE (at 9) (\<lambda>driver.
        Inr \<lparr>g_index = index, g_name = name, g_pci = pci, g_persistence = (pers = ''Enabled''), g_sm_clock_mhz = clock,
             g_max_sm_clock_mhz = top, g_app_clock_mhz = app, g_power_limit_w = power, g_max_power_limit_w = max_power,
             g_driver = driver, g_numa_node = None, g_local_cpus = []\<rparr>)))))))))))"

definition parse_gpus :: "(string \<Rightarrow> 'f or_raise) \<Rightarrow> string \<Rightarrow> 'f gpu list or_raise" where
  "parse_gpus to_float csv_text = mapE (parse_gpu to_float) (splitlines (py_strip csv_text))"

definition lower_char :: "char \<Rightarrow> char" where
  "lower_char c = (let n = of_char c :: nat in
     if (65 \<le> n \<and> n \<le> 90) \<or> (192 \<le> n \<and> n \<le> 222 \<and> n \<noteq> 215) then char_of (n + 32) else c)"

definition sysfs_pci_address :: "string \<Rightarrow> string or_raise" where
  "sysfs_pci_address bus_id =
     (if CHR '':'' \<notin> set bus_id then Inl ValueError
      else let (domain, rest) = py_partition CHR '':'' bus_id
           in Inr (map lower_char (drop (length domain - 4) domain @ '':'' @ rest)))"

text \<open>Where a GPU sits: VMs often give node -1, which is unknown.\<close>

definition locate_gpu :: "machine_files \<Rightarrow> 'f gpu \<Rightarrow> 'f gpu or_raise" where
  "locate_gpu files g =
     bindE (sysfs_pci_address (g_pci g)) (\<lambda>addr.
     let dev = ''sys/bus/pci/devices/'' @ addr in
     bindE (int_or_none (read_file files (dev @ ''/numa_node''))) (\<lambda>node.
     bindE (parse_cpulist (or_empty (read_file files (dev @ ''/local_cpulist'')))) (\<lambda>cpus.
       Inr (g\<lparr>g_numa_node := (case node of None \<Rightarrow> None | Some k \<Rightarrow> if k < 0 then None else Some k),
              g_local_cpus := cpus\<rparr>))))"

subsection \<open>What it means\<close>

record layout =
  housekeeping :: "int list"
  engine_core :: int
  engine_twin_idle :: "int list"
  server_cores :: "int list"
  rest_cores :: "int list"

definition near_cores :: "facts \<Rightarrow> 'f gpu option \<Rightarrow> int set" where
  "near_cores facts gpu =
     (case gpu of
        Some g \<Rightarrow> if g_numa_node g \<noteq> None \<and> g_local_cpus g \<noteq> [] then set (g_local_cpus g) else set (f_cpus facts)
      | None \<Rightarrow> set (f_cpus facts))"

definition housekeeping_group :: "int list list \<Rightarrow> int list option" where
  "housekeeping_group groups =
     (case filter (\<lambda>g. 0 \<in> set g) groups of g # _ \<Rightarrow> Some g | [] \<Rightarrow> (case groups of [] \<Rightarrow> None | g # _ \<Rightarrow> Some g))"

text \<open>The layout, or why there is none.\<close>

definition layout_of :: "facts \<Rightarrow> 'f gpu option \<Rightarrow> (string + layout) or_raise" where
  "layout_of facts gpu =
     (let groups = sort (f_cores facts);
          near = near_cores facts gpu;
          hk = housekeeping_group groups;
          free = filter (\<lambda>g. Some g \<noteq> hk \<and> set g \<subseteq> near) groups;
          n_server = (case hk of None \<Rightarrow> 2 | Some g \<Rightarrow> if 1 < length g then 1 else 2)
      in case hk of
           None \<Rightarrow> Inr (Inl (''too few cores near the GPU ('' @ show_nat (length free) @ '' free physical cores, need ''
                              @ show_nat (1 + n_server) @ '')''))
         | Some h \<Rightarrow>
             if length free < 1 + n_server
             then Inr (Inl (''too few cores near the GPU ('' @ show_nat (length free) @ '' free physical cores, need ''
                            @ show_nat (1 + n_server) @ '')''))
             else
               let engine = hd free;
                   server = concat (take n_server (tl free));
                   used = set h \<union> set engine \<union> set server
               in if engine = [] then Inl IndexError
                  else Inr (Inr \<lparr>housekeeping = h, engine_core = hd engine, engine_twin_idle = tl engine,
                                 server_cores = sort server, rest_cores = filter (\<lambda>c. c \<notin> used) (f_cpus facts)\<rparr>))"

definition reserved_cores :: "layout \<Rightarrow> int set" where
  "reserved_cores l = set (engine_core l # engine_twin_idle l @ server_cores l)"

definition irqs_to_move :: "facts \<Rightarrow> layout option \<Rightarrow> (int \<times> string) list" where
  "irqs_to_move facts l =
     map (\<lambda>i. (irq_number i, irq_device i))
       (filter (\<lambda>i. (case l of None \<Rightarrow> {} | Some l' \<Rightarrow> reserved_cores l') \<inter> set (irq_cpus i) \<noteq> {}) (f_irqs facts))"

text \<open>The advice without its report texts: the layout or why not, and the interrupts to move.\<close>

definition advise :: "facts \<Rightarrow> 'f gpu list \<Rightarrow> ((string + layout) \<times> (int \<times> string) list) or_raise" where
  "advise facts gpus =
     bindE (layout_of facts (case gpus of [] \<Rightarrow> None | g # _ \<Rightarrow> Some g)) (\<lambda>l.
       Inr (l, irqs_to_move facts (case l of Inl _ \<Rightarrow> None | Inr l' \<Rightarrow> Some l')))"

subsection \<open>Printing a core list and reading it back\<close>

lemma run_end_spec: "run_end i xs = (j, rest) \<Longrightarrow> i \<le> j \<and> i # xs = [i..j] @ rest"
proof (induction i xs arbitrary: j rest rule: run_end.induct)
  case (2 i x xs)
  show ?case
  proof (cases "x = i + 1")
    case True
    with 2 have "x \<le> j" "x # xs = [x..j] @ rest" by auto
    then show ?thesis using True by (simp add: upto_rec1 [of i j])
  next
    case False
    then show ?thesis using 2(2) by auto
  qed
qed auto

lemma digit_string:
  assumes "list_all ascii_digit s"
  shows "CHR ''-'' \<notin> set s" "CHR '','' \<notin> set s" "\<forall>c \<in> set s. \<not> py_space c"
  using assms ascii_digit_plain by (auto simp: list_all_iff)

definition core_text :: "string \<Rightarrow> bool" where
  "core_text s \<longleftrightarrow> s \<noteq> [] \<and> CHR '','' \<notin> set s \<and> (\<forall>c \<in> set s. \<not> py_space c)"

lemma cpulist_part_one: "0 \<le> i \<Longrightarrow> cpulist_part (show_int i) = Inr [i] \<and> core_text (show_int i)"
  using show_int_digits [of i] digit_string [of "show_int i"]
  by (simp add: cpulist_part_def core_text_def py_partition_none py_int_show)

lemma cpulist_part_range:
  assumes "0 \<le> i" "i \<le> j"
  shows "cpulist_part (show_int i @ ''-'' @ show_int j) = Inr [i..j] \<and> core_text (show_int i @ ''-'' @ show_int j)"
proof -
  have d: "list_all ascii_digit (show_int i)" "list_all ascii_digit (show_int j)" "show_int j \<noteq> []"
    using assms show_int_digits by auto
  have "py_partition CHR ''-'' (show_int i @ CHR ''-'' # show_int j) = (show_int i, show_int j)"
    by (rule py_partition_at) (rule digit_string(1) [OF d(1)])
  then show ?thesis using assms d digit_string [OF d(1)] digit_string [OF d(2)]
    by (auto simp: cpulist_part_def core_text_def py_int_show py_space_def)
qed

lemma cpulist_parts_read:
  "\<forall>c \<in> set xs. 0 \<le> c \<Longrightarrow> \<exists>yss. mapE cpulist_part (cpulist_parts xs) = Inr yss \<and> concat yss = xs \<and> list_all core_text (cpulist_parts xs)"
proof (induction xs rule: cpulist_parts.induct)
  case (2 i xs)
  obtain j rest where r: "run_end i xs = (j, rest)" by fastforce
  note s = run_end_spec [OF r]
  have "\<forall>c \<in> set rest. 0 \<le> c" using 2(2) s by (metis Un_iff set_append)
  then obtain yss where IH: "mapE cpulist_part (cpulist_parts rest) = Inr yss" "concat yss = rest" "list_all core_text (cpulist_parts rest)"
    using 2(1) [OF r [symmetric] refl] by blast
  have i: "0 \<le> i" using 2(2) by simp
  show ?case
  proof (cases "i = j")
    case True
    then have "cpulist_parts (i # xs) = show_int i # cpulist_parts rest" using r by simp
    then show ?thesis using IH s cpulist_part_one [OF i] True by (intro exI [of _ "[i] # yss"]) simp
  next
    case False
    then have "cpulist_parts (i # xs) = (show_int i @ ''-'' @ show_int j) # cpulist_parts rest" by (simp add: r)
    then show ?thesis using IH s cpulist_part_range [OF i, of j] by (intro exI [of _ "[i..j] # yss"]) simp
  qed
qed simp

lemma py_join_plain: "(\<And>p. p \<in> set ps \<Longrightarrow> \<forall>c \<in> set p. P c) \<Longrightarrow> \<forall>c \<in> set sep. P c \<Longrightarrow> \<forall>c \<in> set (py_join sep ps). P c"
  by (induction sep ps rule: py_join.induct) auto

text \<open>Printing a list of cores and parsing the text gives the cores back, in order, with as many
  copies of each, for every list of core numbers.
\<close>

theorem cpulist_roundtrip:
  assumes "\<forall>c \<in> set cpus. 0 \<le> c"
  shows "parse_cpulist (cpulist cpus) = Inr (sort cpus)"
proof -
  let ?ps = "cpulist_parts (sort cpus)"
  obtain yss where yss: "mapE cpulist_part ?ps = Inr yss" "concat yss = sort cpus" and ct: "list_all core_text ?ps"
    using cpulist_parts_read [of "sort cpus"] assms by auto
  have "\<forall>c \<in> set (py_join '','' ?ps). \<not> py_space c"
    using ct by (intro py_join_plain) (auto simp: list_all_iff core_text_def py_space_def)
  then have strip: "py_strip (cpulist cpus) = cpulist cpus" unfolding cpulist_def by (rule py_strip_plain)
  have parts: "filter (\<lambda>p. p \<noteq> []) (split_on CHR '','' (cpulist cpus)) = ?ps"
  proof (cases "?ps = []")
    case True
    then show ?thesis by (simp add: cpulist_def)
  next
    case False
    then have "split_on CHR '','' (cpulist cpus) = ?ps"
      unfolding cpulist_def using ct by (intro split_on_join) (auto simp: list_all_iff core_text_def)
    then show ?thesis using ct by (simp add: list_all_iff core_text_def)
  qed
  show ?thesis by (simp add: parse_cpulist_def strip parts yss)
qed

theorem cpulist_roundtrip_witness:
  "cpulist [5, 0, 2, 1] = ''0-2,5'' \<and> parse_cpulist (cpulist [5, 0, 2, 1]) = Inr (sort [5, 0, 2, 1])"
proof
  show "cpulist [5, 0, 2, 1] = ''0-2,5''" by code_simp
  show "parse_cpulist (cpulist [5, 0, 2, 1]) = Inr (sort [5, 0, 2, 1])" by (rule cpulist_roundtrip) simp
qed


subsection \<open>The suggested layout\<close>

text \<open>The physical cores partition the CPUs.\<close>

definition facts_ok :: "facts \<Rightarrow> bool" where
  "facts_ok f \<longleftrightarrow> distinct (f_cpus f) \<and> [] \<notin> set (f_cores f) \<and> distinct (concat (f_cores f))
     \<and> set (concat (f_cores f)) = set (f_cpus f)"

lemma concat_distinct_parts:
  assumes "distinct (concat gs)" "[] \<notin> set gs"
  shows "distinct gs" "g \<in> set gs \<Longrightarrow> distinct g" "g \<in> set gs \<Longrightarrow> h \<in> set gs \<Longrightarrow> g \<noteq> h \<Longrightarrow> set g \<inter> set h = {}"
  using assms by (auto simp: distinct_concat_iff removeAll_id)

lemma housekeeping_group_in: "housekeeping_group gs = Some h \<Longrightarrow> h \<in> set gs"
  by (auto simp: housekeeping_group_def filter_eq_Cons_iff split: list.splits)

lemma housekeeping_group_zero: "housekeeping_group gs = Some h \<Longrightarrow> g \<in> set gs \<Longrightarrow> 0 \<in> set g \<Longrightarrow> 0 \<in> set h"
  by (auto simp: housekeeping_group_def filter_empty_conv filter_eq_Cons_iff split: list.splits)

text \<open>On a machine whose physical cores partition its CPUs, a suggested layout is a partition of
  the CPUs into housekeeping, engine, its idle twins, server and rest; the engine's and the
  server's cores are near the GPU, and core 0 stays with housekeeping.
\<close>

theorem layout_partition:
  assumes ok: "facts_ok f" and l: "layout_of f gpu = Inr (Inr l)"
  shows "distinct (housekeeping l @ engine_core l # engine_twin_idle l @ server_cores l @ rest_cores l)
    \<and> set (housekeeping l @ engine_core l # engine_twin_idle l @ server_cores l @ rest_cores l) = set (f_cpus f)
    \<and> reserved_cores l \<subseteq> near_cores f gpu
    \<and> (0 \<in> set (f_cpus f) \<longrightarrow> 0 \<in> set (housekeeping l))"
proof -
  define gs where "gs = sort (f_cores f)"
  have gs: "set gs = set (f_cores f)" "distinct (concat gs)" "[] \<notin> set gs"
  proof -
    show "set gs = set (f_cores f)" by (simp add: gs_def)
    show "[] \<notin> set gs" using ok by (simp add: gs_def facts_ok_def)
    show "distinct (concat gs)" using ok by (auto simp: gs_def facts_ok_def distinct_concat_iff removeAll_id)
  qed
  obtain h n where h: "housekeeping_group gs = Some h" and n: "n = (if 1 < length h then 1 else 2)"
    and free: "\<not> length (filter (\<lambda>g. g \<noteq> h \<and> set g \<subseteq> near_cores f gpu) gs) < 1 + n"
    and l': "l = (let free = filter (\<lambda>g. g \<noteq> h \<and> set g \<subseteq> near_cores f gpu) gs; e = hd free; sv = concat (take n (tl free))
        in \<lparr>housekeeping = h, engine_core = hd e, engine_twin_idle = tl e, server_cores = sort sv,
            rest_cores = filter (\<lambda>c. c \<notin> set h \<union> set e \<union> set sv) (f_cpus f)\<rparr>)"
    using l unfolding layout_of_def Let_def gs_def [symmetric] by (auto split: option.splits if_splits)
  obtain e fr where fe: "filter (\<lambda>g. g \<noteq> h \<and> set g \<subseteq> near_cores f gpu) gs = e # fr"
    using free by (cases "filter (\<lambda>g. g \<noteq> h \<and> set g \<subseteq> near_cores f gpu) gs") auto
  define sv where "sv = concat (take n fr)"
  have in_gs: "set (e # fr) \<subseteq> set gs" "\<forall>g \<in> set (e # fr). g \<noteq> h \<and> set g \<subseteq> near_cores f gpu"
    unfolding fe [symmetric] by auto
  have dist: "distinct (e # fr)" unfolding fe [symmetric] using concat_distinct_parts(1) [OF gs(2,3)] by simp
  note parts = concat_distinct_parts(2,3) [OF gs(2,3)]
  have hin: "h \<in> set gs" by (rule housekeeping_group_in [OF h])
  have ne: "e \<noteq> []" using in_gs(1) gs(3) by auto
  have tk: "set (take n fr) \<subseteq> set fr" by (rule set_take_subset)
  have dsv: "distinct sv"
    unfolding sv_def using dist in_gs(1) tk parts gs(3) by (intro distinct_concat) (auto, blast)
  have disj: "set h \<inter> set e = {}" "set h \<inter> set sv = {}" "set e \<inter> set sv = {}"
    unfolding sv_def using hin in_gs dist tk parts(2) by (auto, blast+)
  have sub: "set h \<union> set e \<union> set sv \<subseteq> set (f_cpus f)"
  proof -
    have "\<Union> (set ` set gs) = set (f_cpus f)" using ok gs(1) by (simp add: facts_ok_def)
    moreover have "set (take n fr) \<subseteq> set gs" using tk in_gs(1) by auto
    ultimately show ?thesis using hin in_gs(1) by (auto simp: sv_def)
  qed
  have lf: "housekeeping l = h" "engine_core l # engine_twin_idle l = e" "server_cores l = sort sv"
    "rest_cores l = filter (\<lambda>c. c \<notin> set h \<union> set e \<union> set sv) (f_cpus f)"
    using ne by (simp_all add: l' fe sv_def Let_def)
  have shape: "housekeeping l @ engine_core l # engine_twin_idle l @ server_cores l @ rest_cores l
      = h @ e @ sort sv @ filter (\<lambda>c. c \<notin> set h \<union> set e \<union> set sv) (f_cpus f)"
    using lf by (metis append_Cons)
  have "distinct (h @ e @ sort sv @ filter (\<lambda>c. c \<notin> set h \<union> set e \<union> set sv) (f_cpus f))"
    using ok dsv disj parts(1) [OF hin] parts(1) [of e] in_gs(1) by (auto simp: facts_ok_def)
  moreover have "set (h @ e @ sort sv @ filter (\<lambda>c. c \<notin> set h \<union> set e \<union> set sv) (f_cpus f)) = set (f_cpus f)"
    using sub by auto
  moreover have "reserved_cores l = set e \<union> set sv"
    unfolding reserved_cores_def using lf(2,3) by (metis append_Cons set_append set_sort)
  then have "reserved_cores l \<subseteq> near_cores f gpu" using in_gs(2) tk by (auto simp: sv_def)
  moreover have "0 \<in> set h" if "0 \<in> set (f_cpus f)"
  proof -
    have "0 \<in> \<Union> (set ` set gs)" using that ok gs(1) by (simp add: facts_ok_def)
    then show ?thesis using housekeeping_group_zero [OF h] by blast
  qed
  ultimately show ?thesis unfolding shape using lf(1) by simp
qed

definition twin_machine :: facts where
  "twin_machine = \<lparr>f_cpus = [0, 1, 2, 3, 4, 5, 6, 7], f_cores = [[0, 4], [1, 5], [2, 6], [3, 7]], f_numa = [], f_governor = None,
     f_thp_enabled = None, f_thp_defrag = None, f_swappiness = None, f_somaxconn = None, f_netdev_max_backlog = None,
     f_cmdline = [], f_isolated = [], f_irqs = [], f_irqbalance = False\<rparr>"

lemma twin_machine_layout:
  "layout_of twin_machine (None :: unit gpu option) = Inr (Inr \<lparr>housekeeping = [0, 4], engine_core = 1, engine_twin_idle = [5],
     server_cores = [2, 6], rest_cores = [3, 7]\<rparr>)"
  by code_simp

theorem layout_partition_witness:
  "reserved_cores \<lparr>housekeeping = [0, 4], engine_core = 1, engine_twin_idle = [5], server_cores = [2, 6], rest_cores = [3, 7]\<rparr>
     \<subseteq> near_cores twin_machine (None :: unit gpu option)"
proof -
  have "facts_ok twin_machine" by (simp add: facts_ok_def twin_machine_def insert_commute)
  from layout_partition [OF this twin_machine_layout] show ?thesis by blast
qed

end
