(* ===== verification/Isolate.thy ===== *)
theory Isolate
  imports Topology
begin

text \<open>
  \<^verbatim>\<open>infra/os/isolate.py\<close>: CPU isolation.  What a mode runs, moving the interrupts off lightserve's
  cores and back, and the checks that a pinning took.

  A machine is read through \<open>rd\<close> (its files) and written through \<open>wr\<close>, which is \<open>None\<close> where the
  code sees an \<open>OSError\<close>; both are arguments.  The state file is its decoded content, \<open>None\<close> when
  there is no such file.
\<close>

subsection \<open>The commands of a mode\<close>

datatype mode = Quiet | Noisy | Isolated_quiet | Isolated_noisy | Restore

fun read_mode :: "string \<Rightarrow> mode or_raise" where
  "read_mode m =
     (if m = ''quiet'' then Inr Quiet else if m = ''noisy'' then Inr Noisy
      else if m = ''isolated-quiet'' then Inr Isolated_quiet else if m = ''isolated-noisy'' then Inr Isolated_noisy
      else if m = ''restore'' then Inr Restore else Inl ValueError)"

record isolate_config =
  ic_image :: string
  ic_gpus :: bool
  ic_server_args :: string
  ic_port :: int
  ic_noise_image :: string
  ic_tuning_cache :: "string option"
  ic_somaxconn :: "int option"

definition IsolateConfig :: isolate_config where
  "IsolateConfig = \<lparr>ic_image = ''ghcr.io/sairameshpv/lightserve:gpu-latest'', ic_gpus = True,
     ic_server_args = ''--n-layers 4 --max-model-len 512'', ic_port = 8000, ic_noise_image = ''python:3.11-slim'',
     ic_tuning_cache = Some ''/var/tmp/lightserve_triton'', ic_somaxconn = None\<rparr>"

definition stop_command :: string where
  "stop_command = ''docker rm -f lightserve noise 2>/dev/null || true''"

definition quote :: string where
  "quote = [char_of (39 :: nat)]"

definition noise_command :: "int list \<Rightarrow> isolate_config \<Rightarrow> string" where
  "noise_command cpus cfg =
     ''docker run -d --name noise --cpuset-cpus '' @ cpulist cpus @ '' '' @ ic_noise_image cfg @ '' sh -c '' @ quote
     @ ''for i in $(seq '' @ show_nat (length cpus) @ ''); do python -c \"while 1: pass\" & done; wait'' @ quote"

definition given_text :: "string option \<Rightarrow> string option" where
  "given_text t = (case t of None \<Rightarrow> None | Some s \<Rightarrow> if s = [] then None else Some s)"

definition lightserve_command :: "isolate_config \<Rightarrow> layout option \<Rightarrow> string" where
  "lightserve_command cfg layout =
     (let opts = (if ic_gpus cfg then '' --gpus all'' else [])
            @ (case given_text (ic_tuning_cache cfg) of None \<Rightarrow> []
               | Some c \<Rightarrow> '' -v '' @ c @ '':/home/lightserve/.triton -e TRITON_CACHE_AUTOTUNING=1'')
            @ (case ic_somaxconn cfg of None \<Rightarrow> []
               | Some n \<Rightarrow> if n = 0 then [] else '' --sysctl net.core.somaxconn='' @ show_int n);
          run = ''docker run -d --name lightserve'' @ opts @ '' -p '' @ show_int (ic_port cfg) @ '':8000 ''
      in case layout of
           None \<Rightarrow> run @ ic_image cfg @ '' '' @ ic_server_args cfg
         | Some l \<Rightarrow> run @ ''--cpuset-cpus '' @ cpulist (engine_core l # server_cores l) @ '' '' @ ic_image cfg @ '' ''
             @ ic_server_args cfg @ '' --engine-cpus '' @ show_int (engine_core l) @ '' --server-cpus '' @ cpulist (server_cores l))"

text \<open>The cores a mode lets the neighbour burn.\<close>

definition noise_cores :: "mode \<Rightarrow> layout \<Rightarrow> int list \<Rightarrow> int list option" where
  "noise_cores m l all_cpus =
     (case m of
        Noisy \<Rightarrow> Some (filter (\<lambda>c. c \<notin> set (housekeeping l)) all_cpus)
      | Isolated_noisy \<Rightarrow> Some (rest_cores l)
      | _ \<Rightarrow> None)"

definition is_isolated :: "mode \<Rightarrow> bool" where
  "is_isolated m \<longleftrightarrow> m = Isolated_quiet \<or> m = Isolated_noisy"

text \<open>The commands, and whether the interrupts are steered (else restored).\<close>

definition plan :: "mode \<Rightarrow> layout \<Rightarrow> int list \<Rightarrow> isolate_config \<Rightarrow> string list \<times> bool" where
  "plan m l all_cpus cfg =
     ([stop_command]
      @ (case noise_cores m l all_cpus of None \<Rightarrow> [] | Some cpus \<Rightarrow> [noise_command cpus cfg])
      @ (case given_text (ic_tuning_cache cfg) of None \<Rightarrow> []
         | Some c \<Rightarrow> if m = Restore then [] else [''mkdir -p '' @ c @ '' && chown 1000:1000 '' @ c])
      @ (if m = Restore then [] else [lightserve_command cfg (if is_isolated m then Some l else None)]),
      is_isolated m)"

subsection \<open>Steering interrupts\<close>

record irq_state =
  saved_irqs :: "(string \<times> string) list"
  irqbalance_was_running :: bool

definition irq_path :: "string \<Rightarrow> string" where
  "irq_path irq = ''proc/irq/'' @ irq @ ''/smp_affinity_list''"

definition newline :: string where
  "newline = [char_of (10 :: nat)]"

text \<open>One interrupt: the machine, what is saved, and the numbers moved and failed so far.\<close>

definition steer_one :: "('m \<Rightarrow> machine_files) \<Rightarrow> (string \<Rightarrow> string \<Rightarrow> 'm \<Rightarrow> 'm option) \<Rightarrow> layout \<Rightarrow> irq_info
    \<Rightarrow> 'm \<times> irq_state \<times> int list \<times> int list \<Rightarrow> 'm \<times> irq_state \<times> int list \<times> int list" where
  "steer_one rd wr l irq = (\<lambda>(m, saved, moved, failed).
     if reserved_cores l \<inter> set (irq_cpus irq) = {} then (m, saved, moved, failed)
     else
       let key = show_int (irq_number irq); path = irq_path key in
       case read_file (rd m) path of
         None \<Rightarrow> (m, saved, moved, failed @ [irq_number irq])
       | Some original \<Rightarrow>
           (case wr path (cpulist (housekeeping l) @ newline) m of
              None \<Rightarrow> (m, saved, moved, failed @ [irq_number irq])
            | Some m' \<Rightarrow>
                (m', (if map_of (saved_irqs saved) key = None
                      then saved\<lparr>saved_irqs := saved_irqs saved @ [(key, original)]\<rparr> else saved),
                 moved @ [irq_number irq], failed)))"

definition steer_irqs :: "('m \<Rightarrow> machine_files) \<Rightarrow> (string \<Rightarrow> string \<Rightarrow> 'm \<Rightarrow> 'm option) \<Rightarrow> layout \<Rightarrow> bool
    \<Rightarrow> 'm \<times> irq_state option \<Rightarrow> (('m \<times> irq_state option) \<times> int list \<times> int list) or_raise" where
  "steer_irqs rd wr l running = (\<lambda>(m, st).
     bindE (irqs (rd m)) (\<lambda>found.
       let saved0 = (case st of None \<Rightarrow> \<lparr>saved_irqs = [], irqbalance_was_running = running\<rparr> | Some s \<Rightarrow> s);
           (m', saved, moved, failed) = fold (steer_one rd wr l) found (m, saved0, [], [])
       in Inr ((m', Some saved), moved, failed)))"

definition restore_one :: "(string \<Rightarrow> string \<Rightarrow> 'm \<Rightarrow> 'm option) \<Rightarrow> string \<times> string \<Rightarrow> 'm \<times> int list \<Rightarrow> ('m \<times> int list) or_raise" where
  "restore_one wr = (\<lambda>(irq, cpus) (m, restored).
     case wr (irq_path irq) (cpus @ newline) m of
       None \<Rightarrow> Inr (m, restored)
     | Some m' \<Rightarrow> bindE (py_int irq) (\<lambda>n. Inr (m', restored @ [n])))"

definition restore_irqs :: "(string \<Rightarrow> string \<Rightarrow> 'm \<Rightarrow> 'm option) \<Rightarrow> 'm \<times> irq_state option
    \<Rightarrow> (('m \<times> irq_state option) \<times> int list \<times> bool) or_raise" where
  "restore_irqs wr = (\<lambda>(m, st).
     case st of
       None \<Rightarrow> Inr ((m, None), [], False)
     | Some saved \<Rightarrow>
         bindE (foldE (restore_one wr) (saved_irqs saved) (m, [])) (\<lambda>(m', restored).
           Inr ((m', None), sort restored, irqbalance_was_running saved)))"

subsection \<open>Did it take effect?\<close>

text \<open>\<open>line.rsplit("/", 1)[1]\<close> raises \<open>IndexError\<close> without a slash.\<close>

definition after_last_slash :: "string \<Rightarrow> string or_raise" where
  "after_last_slash line =
     (if CHR ''/'' \<in> set line then Inr (rev (takeWhile (\<lambda>c. c \<noteq> CHR ''/'') (rev line))) else Inl IndexError)"

definition starts_with :: "string \<Rightarrow> string \<Rightarrow> bool" where
  "starts_with s p \<longleftrightarrow> take (length p) s = p"

fun task_lines :: "string list \<Rightarrow> int option \<Rightarrow> (int \<times> int list) list \<Rightarrow> (int \<times> int list) list or_raise" where
  "task_lines [] tid threads = Inr threads"
| "task_lines (line # lines) tid threads =
     (if starts_with line ''== ''
      then bindE (after_last_slash line) (\<lambda>t. bindE (py_int t) (\<lambda>n. task_lines lines (Some n) threads))
      else case tid of
             None \<Rightarrow> task_lines lines tid threads
           | Some n \<Rightarrow>
               if starts_with line ''Cpus_allowed_list:''
               then bindE (parse_cpulist (snd (py_partition CHR '':'' line)))
                      (\<lambda>cpus. task_lines lines tid (AList.update n cpus threads))
               else task_lines lines tid threads)"

definition parse_task_status :: "string \<Rightarrow> (int \<times> int list) list or_raise" where
  "parse_task_status dump = task_lines (splitlines dump) None []"

text \<open>The verdict without its message.\<close>

definition check_pinning :: "(int \<times> int list) list \<Rightarrow> layout \<Rightarrow> bool" where
  "check_pinning threads l =
     (let engine = [engine_core l]; server = sort (server_cores l);
          on_engine = filter (\<lambda>(t, c). c = engine) threads;
          stray = filter (\<lambda>(t, c). c \<noteq> engine \<and> c \<noteq> server) threads
      in length on_engine = 1 \<and> stray = [])"

definition check_somaxconn :: "string \<Rightarrow> int \<Rightarrow> bool or_raise" where
  "check_somaxconn text want = bindE (py_int (py_strip text)) (\<lambda>got. Inr (got = want))"

subsection \<open>What the tools rely on: a machine that keeps what is written\<close>

text \<open>
  A path can be written or not; a successful write changes that file and no other; a written
  file reads back, up to white space at its ends.
\<close>

locale obedient_os =
  fixes rd :: "'m \<Rightarrow> machine_files" and wr :: "string \<Rightarrow> string \<Rightarrow> 'm \<Rightarrow> 'm option" and writable :: "string \<Rightarrow> bool"
  assumes wr_fails: "wr p t m = None \<longleftrightarrow> \<not> writable p"
    and wr_reads: "wr p t m = Some m' \<Longrightarrow> read_file (rd m') = (read_file (rd m))(p \<mapsto> py_strip t)"

text \<open>A plain folder, as the tests' fake machines are: every path can be written.\<close>

definition folder_write :: "string \<Rightarrow> string \<Rightarrow> machine_files \<Rightarrow> machine_files option" where
  "folder_write p t m = Some (m(p \<mapsto> t))"

interpretation folder: obedient_os "\<lambda>m. m" folder_write "\<lambda>_. True"
  by unfold_locales (auto simp: folder_write_def read_file_def)

lemma irq_path_inj: "irq_path k = irq_path k' \<longleftrightarrow> k = k'"
  by (simp add: irq_path_def)

lemma irq_path_mem: "irq_path k \<in> irq_path ` K \<longleftrightarrow> k \<in> K"
  by (auto simp: irq_path_inj)

lemma py_strip_strip_newline: "py_strip (py_strip s @ newline) = py_strip s"
proof -
  let ?t = "dropWhile py_space s" and ?u = "py_strip s"
  have nl: "py_space (char_of (10 :: nat))" by (simp add: py_space_def)
  show ?thesis
  proof (cases "?u = []")
    case True
    then show ?thesis using nl by (simp add: newline_def) (simp add: py_strip_def)
  next
    case False
    have rev: "rev ?u = dropWhile py_space (rev ?t)" by (simp add: py_strip_def)
    have last: "\<not> py_space (last ?u)" using hd_dropWhile [of py_space "rev ?t"] False rev by (metis hd_rev rev_is_Nil_conv)
    have "rev ?t = takeWhile py_space (rev ?t) @ rev ?u" using rev by simp
    then obtain v where v: "?t = ?u @ v" by (metis rev_append rev_rev_ident)
    then have "?t \<noteq> []" "hd ?t = hd ?u" using False by auto
    then have hd: "\<not> py_space (hd ?u)" using hd_dropWhile [of py_space s] by simp
    have "dropWhile py_space (?u @ newline) = ?u @ newline" using hd False by (cases ?u) auto
    moreover have "dropWhile py_space (rev (?u @ newline)) = dropWhile py_space (rev ?u)" using nl by (simp add: newline_def)
    moreover have "\<not> py_space (hd (rev ?u))" "rev ?u \<noteq> []" using last False by (simp_all add: hd_rev)
    then have "dropWhile py_space (rev ?u) = rev ?u" by (cases "rev ?u") simp_all
    ultimately show ?thesis by (simp add: py_strip_def [of "?u @ newline"])
  qed
qed


subsection \<open>Steering and restoring\<close>

text \<open>
  \<open>saved\<close> remembers \<open>before\<close>: the saved interrupts' files could be written and read as saved, and
  every other file reads now as it did.
\<close>

definition remembers :: "(string \<Rightarrow> bool) \<Rightarrow> machine_files \<Rightarrow> irq_state \<Rightarrow> machine_files \<Rightarrow> bool" where
  "remembers writable before saved now \<longleftrightarrow>
     distinct (map fst (saved_irqs saved))
     \<and> (\<forall>(k, t) \<in> set (saved_irqs saved). \<exists>n. k = show_int n \<and> writable (irq_path k)
          \<and> read_file before (irq_path k) = Some t \<and> py_strip (t @ newline) = t)
     \<and> (\<forall>p. p \<notin> irq_path ` fst ` set (saved_irqs saved) \<longrightarrow> read_file now p = read_file before p)"

lemma read_file_strip: "read_file files p = Some t \<Longrightarrow> py_strip (t @ newline) = t"
  by (auto simp: read_file_def py_strip_strip_newline)

context obedient_os begin

lemma steer_one_remembers:
  assumes rem: "remembers writable before saved (rd m)" 
    and st: "steer_one rd wr l irq (m, saved, moved, failed) = (m', saved', moved', failed')"
  shows "remembers writable before saved' (rd m')" "irqbalance_was_running saved' = irqbalance_was_running saved"
proof -
  let ?k = "show_int (irq_number irq)"
  let ?p = "irq_path ?k"
  have "remembers writable before saved' (rd m') \<and> irqbalance_was_running saved' = irqbalance_was_running saved"
  proof (cases "m' = m \<and> saved' = saved")
    case True
    then show ?thesis using rem by simp
  next
    case False
    then obtain t where t: "read_file (rd m) ?p = Some t" and w: "wr ?p (cpulist (housekeeping l) @ newline) m = Some m'"
      and s': "saved' = (if map_of (saved_irqs saved) ?k = None
                      then saved\<lparr>saved_irqs := saved_irqs saved @ [(?k, t)]\<rparr> else saved)"
      using st by (auto simp: steer_one_def Let_def split: if_splits option.splits)
    have wp: "writable ?p" using wr_fails w by (metis option.distinct(1))
    note reads = wr_reads [OF w]
    show ?thesis
    proof (cases "map_of (saved_irqs saved) ?k = None")
      case True
      then have new: "?k \<notin> fst ` set (saved_irqs saved)" by (simp add: map_of_eq_None_iff)
      then have "?p \<notin> irq_path ` fst ` set (saved_irqs saved)" by (simp only: irq_path_mem not_False_eq_True)
      then have "read_file before ?p = Some t" using rem t by (simp add: remembers_def)
      then show ?thesis using rem wp True read_file_strip [OF t] new
        unfolding remembers_def s' reads by (simp add: Ball_def) blast
    next
      case False
      then have "?p \<in> irq_path ` fst ` set (saved_irqs saved)" by (auto simp: map_of_eq_None_iff)
      then show ?thesis using rem False by (auto simp: remembers_def s' reads)
    qed
  qed
  then show "remembers writable before saved' (rd m')" "irqbalance_was_running saved' = irqbalance_was_running saved" by blast+
qed

lemma steer_all_remembers:
  assumes "remembers writable before saved (rd m)"
    and "fold (steer_one rd wr l) found (m, saved, moved, failed) = (m', saved', moved', failed')"
  shows "remembers writable before saved' (rd m') \<and> irqbalance_was_running saved' = irqbalance_was_running saved"
  using assms
proof (induction found arbitrary: m saved moved failed)
  case (Cons irq found)
  obtain m1 s1 mo fa where one: "steer_one rd wr l irq (m, saved, moved, failed) = (m1, s1, mo, fa)" by (metis surj_pair)
  note S = steer_one_remembers [OF Cons.prems(1) one]
  have "fold (steer_one rd wr l) found (m1, s1, mo, fa) = (m', saved', moved', failed')" using Cons.prems(2) one by simp
  from Cons.IH [OF S(1) this] S(2) show ?case by simp
qed simp

lemma restore_all:
  assumes "distinct (map fst saves)"
    and "\<forall>(k, t) \<in> set saves. \<exists>n. k = show_int n \<and> writable (irq_path k) \<and> py_strip (t @ newline) = t"
  shows "\<exists>m' ns. foldE (restore_one wr) saves (m, ns0) = Inr (m', ns)
     \<and> (\<forall>(k, t) \<in> set saves. read_file (rd m') (irq_path k) = Some t)
     \<and> (\<forall>p. p \<notin> irq_path ` fst ` set saves \<longrightarrow> read_file (rd m') p = read_file (rd m) p)"
  using assms
proof (induction saves arbitrary: m ns0)
  case (Cons kt saves)
  obtain k t where kt: "kt = (k, t)" by (cases kt)
  obtain n where n: "k = show_int n" "writable (irq_path k)" "py_strip (t @ newline) = t" using Cons.prems(2) by (auto simp: kt)
  obtain m1 where m1: "wr (irq_path k) (t @ newline) m = Some m1" using n(2) wr_fails by (metis not_None_eq)
  have one: "restore_one wr kt (m, ns0) = Inr (m1, ns0 @ [n])"
    using m1 by (simp add: restore_one_def kt n(1) py_int_show)
  have r1: "read_file (rd m1) = (read_file (rd m))(irq_path k \<mapsto> t)" using wr_reads [OF m1] n(3) by simp
  obtain m' ns where IH: "foldE (restore_one wr) saves (m1, ns0 @ [n]) = Inr (m', ns)"
    "\<forall>(k, t) \<in> set saves. read_file (rd m') (irq_path k) = Some t"
    "\<forall>p. p \<notin> irq_path ` fst ` set saves \<longrightarrow> read_file (rd m') p = read_file (rd m1) p"
    using Cons.IH [of m1 "ns0 @ [n]"] Cons.prems by auto
  have "irq_path k \<notin> irq_path ` fst ` set saves" using Cons.prems(1) by (simp add: kt irq_path_mem)
  then show ?case using one IH r1 by (intro exI [of _ m'] exI [of _ ns]) (auto simp: kt)
qed simp

lemma steer_irqs_remembers:
  assumes rem: "remembers writable before saved0 (rd m)"
    and st: "saved0 = (case st of None \<Rightarrow> \<lparr>saved_irqs = [], irqbalance_was_running = running\<rparr> | Some s \<Rightarrow> s)"
    and run: "steer_irqs rd wr l running (m, st) = Inr ((m', st'), res)"
  shows "\<exists>saved'. st' = Some saved' \<and> remembers writable before saved' (rd m')
     \<and> irqbalance_was_running saved' = irqbalance_was_running saved0"
proof -
  obtain found where found: "irqs (rd m) = Inr found" using run by (auto simp: steer_irqs_def bindE_Inr_iff)
  obtain m1 saved1 mo fa where f: "fold (steer_one rd wr l) found (m, saved0, [], []) = (m1, saved1, mo, fa)" by (metis surj_pair)
  have "m' = m1" "st' = Some saved1" using run f by (simp_all add: steer_irqs_def found st [symmetric])
  then show ?thesis using steer_all_remembers [OF rem f] by simp
qed

end

text \<open>A number of experiments, each with its own layout, one after the other.\<close>

fun steer_rounds :: "('m \<Rightarrow> machine_files) \<Rightarrow> (string \<Rightarrow> string \<Rightarrow> 'm \<Rightarrow> 'm option) \<Rightarrow> (layout \<times> bool) list
    \<Rightarrow> 'm \<times> irq_state option \<Rightarrow> ('m \<times> irq_state option) or_raise" where
  "steer_rounds rd wr [] ms = Inr ms"
| "steer_rounds rd wr ((l, running) # rounds) ms =
     bindE (steer_irqs rd wr l running ms) (\<lambda>(ms', _). steer_rounds rd wr rounds ms')"

text \<open>However often the interrupts are steered, to whatever layouts, one restore puts every file
  of the machine back to what it read before the first time, forgets the saved state, and says
  to start irqbalance exactly when it ran then.
\<close>

theorem steer_then_restore:
  assumes os: "obedient_os rd wr writable"
    and st: "steer_rounds rd wr ((l, running) # rounds) (m, None) = Inr (m1, st1)"
  shows "\<exists>m' restored. restore_irqs wr (m1, st1) = Inr ((m', None), restored, running)
     \<and> read_file (rd m') = read_file (rd m)"
proof -
  let ?s0 = "\<lparr>saved_irqs = [], irqbalance_was_running = running\<rparr>"
  have more: "\<exists>s1. st1 = Some s1 \<and> remembers writable (rd m) s1 (rd m1) \<and> irqbalance_was_running s1 = irqbalance_was_running s"
    if "remembers writable (rd m) s (rd m2)" "steer_rounds rd wr rs (m2, Some s) = Inr (m1, st1)" for s m2 rs
    using that
  proof (induction rs arbitrary: s m2)
    case (Cons r rs)
    obtain l' run' where r: "r = (l', run')" by (cases r)
    obtain m3 st3 res where one: "steer_irqs rd wr l' run' (m2, Some s) = Inr ((m3, st3), res)"
      and rest: "steer_rounds rd wr rs (m3, st3) = Inr (m1, st1)" using Cons.prems(2) by (auto simp: r bindE_Inr_iff)
    obtain s3 where "st3 = Some s3" "remembers writable (rd m) s3 (rd m3)" "irqbalance_was_running s3 = irqbalance_was_running s"
      using obedient_os.steer_irqs_remembers [OF os Cons.prems(1) _ one] by auto
    then show ?case using Cons.IH [of s3 m3] rest by simp
  qed auto
  obtain m2 st2 res where one: "steer_irqs rd wr l running (m, None) = Inr ((m2, st2), res)"
    and rest: "steer_rounds rd wr rounds (m2, st2) = Inr (m1, st1)" using st by (auto simp: bindE_Inr_iff)
  have "remembers writable (rd m) ?s0 (rd m)" by (simp add: remembers_def)
  from obedient_os.steer_irqs_remembers [OF os this _ one] obtain s2 where s2: "st2 = Some s2"
    "remembers writable (rd m) s2 (rd m2)" "irqbalance_was_running s2 = running" by auto
  obtain s1 where s1: "st1 = Some s1" "remembers writable (rd m) s1 (rd m1)" "irqbalance_was_running s1 = running"
    using more [OF s2(2)] rest s2 by auto
  have "distinct (map fst (saved_irqs s1))"
    "\<forall>(k, t) \<in> set (saved_irqs s1). \<exists>n. k = show_int n \<and> writable (irq_path k) \<and> py_strip (t @ newline) = t"
    using s1(2) by (auto simp: remembers_def)
  from obedient_os.restore_all [OF os this, of m1 "[]"] obtain m' ns where r: "foldE (restore_one wr) (saved_irqs s1) (m1, []) = Inr (m', ns)"
    "\<forall>(k, t) \<in> set (saved_irqs s1). read_file (rd m') (irq_path k) = Some t"
    "\<forall>p. p \<notin> irq_path ` fst ` set (saved_irqs s1) \<longrightarrow> read_file (rd m') p = read_file (rd m1) p" by blast
  have "read_file (rd m') p = read_file (rd m) p" for p
  proof (cases "p \<in> irq_path ` fst ` set (saved_irqs s1)")
    case True
    then obtain k t where kt: "(k, t) \<in> set (saved_irqs s1)" "p = irq_path k" by force
    have "read_file (rd m) (irq_path k) = Some t" using s1(2) kt(1) by (auto simp: remembers_def)
    moreover have "read_file (rd m') (irq_path k) = Some t" using r(2) kt(1) by auto
    ultimately show ?thesis by (simp add: kt(2))
  next
    case False
    then show ?thesis using r(3) s1(2) by (simp add: remembers_def)
  qed
  then show ?thesis using r(1) s1 by (auto simp: restore_irqs_def)
qed

text \<open>A folder with one interrupt on the engine's core and one on housekeeping.\<close>

definition demo_folder :: machine_files where
  "demo_folder = [''proc/interrupts'' \<mapsto> ''CPU0 CPU1'' @ newline @ ''7: 1 2 nic'' @ newline @ ''9: 4 0 disk'',
     ''proc/irq/7/smp_affinity_list'' \<mapsto> ''0-1'' @ newline, ''proc/irq/9/smp_affinity_list'' \<mapsto> ''0'']"

definition demo_layout :: layout where
  "demo_layout = \<lparr>housekeeping = [0], engine_core = 1, engine_twin_idle = [], server_cores = [2, 3], rest_cores = []\<rparr>"

lemma demo_irqs:
  "irqs demo_folder = Inr [\<lparr>irq_number = 7, irq_device = ''nic'', irq_count = 3, irq_cpus = [0, 1]\<rparr>,
     \<lparr>irq_number = 9, irq_device = ''disk'', irq_count = 4, irq_cpus = [0]\<rparr>]"
  by code_simp

lemma demo_texts:
  "show_int 7 = ''7''" "cpulist [0] = ''0''" "irq_path ''7'' = ''proc/irq/7/smp_affinity_list''"
  "reserved_cores demo_layout = {1, 2, 3}" "housekeeping demo_layout = [0]"
  "read_file demo_folder ''proc/irq/7/smp_affinity_list'' = Some ''0-1''"
  by code_simp+

lemma demo_steered:
  "steer_rounds (\<lambda>m. m) folder_write [(demo_layout, True)] (demo_folder, None)
     = Inr (demo_folder(''proc/irq/7/smp_affinity_list'' \<mapsto> ''0'' @ newline),
            Some \<lparr>saved_irqs = [(''7'', ''0-1'')], irqbalance_was_running = True\<rparr>)"
  by (simp add: steer_irqs_def demo_irqs steer_one_def demo_texts folder_write_def)

theorem steer_then_restore_witness:
  "\<exists>m1 m' restored. m1 ''proc/irq/7/smp_affinity_list'' = Some (''0'' @ newline)
     \<and> restore_irqs folder_write (m1, Some \<lparr>saved_irqs = [(''7'', ''0-1'')], irqbalance_was_running = True\<rparr>)
        = Inr ((m', None), restored, True)
     \<and> read_file m' = read_file demo_folder"
proof -
  let ?m1 = "demo_folder(''proc/irq/7/smp_affinity_list'' \<mapsto> ''0'' @ newline)"
  obtain m' restored where "restore_irqs folder_write (?m1, Some \<lparr>saved_irqs = [(''7'', ''0-1'')], irqbalance_was_running = True\<rparr>)
      = Inr ((m', None), restored, True)" "read_file m' = read_file demo_folder"
    using steer_then_restore [OF folder.obedient_os_axioms demo_steered] by blast
  then show ?thesis by (intro exI [of _ ?m1] exI [of _ m'] exI [of _ restored]) simp
qed

end
