(* ===== verification/Tune.thy ===== *)
theory Tune
  imports Isolate
begin

text \<open>
  \<^verbatim>\<open>infra/os/tune.py\<close>: one group of operating-system settings at a time, as found or tuned, each
  change read back, the originals saved once.

  \<open>rd\<close> and \<open>wr\<close> are the machine's files as in \<open>Isolate\<close>; \<open>run\<close> runs a command, changing the machine,
  with its output or \<open>None\<close> where the code sees an \<open>OSError\<close> or a failed process.  Every operation
  returns the machine and the state file also when it raises.  An exception carries the names its
  message lists.
\<close>

datatype tune_exn = CantRunHere "string list" | NotTaken "string list" | OS_error | Value_error | Index_error | Key_error

type_synonym settings = "(string \<times> string) list"
type_synonym tune_state = "(string \<times> settings) list"

definition FILES :: "(string \<times> settings) list" where
  "FILES = [(''memory'', [(''thp'', ''sys/kernel/mm/transparent_hugepage/enabled''), (''swappiness'', ''proc/sys/vm/swappiness'')]),
            (''network'', [(''netdev_max_backlog'', ''proc/sys/net/core/netdev_max_backlog'')])]"

definition TUNED :: settings where
  "TUNED = [(''thp'', ''always''), (''swappiness'', ''10''), (''netdev_max_backlog'', ''16384'')]"

definition value_of :: "machine_files \<Rightarrow> string \<Rightarrow> string \<Rightarrow> string option" where
  "value_of files name rel =
     (let text = read_file files rel in
      if name = ''thp'' then (case bracketed text of Some v \<Rightarrow> Some v | None \<Rightarrow> text) else text)"

definition write_setting :: "(string \<Rightarrow> string \<Rightarrow> 'm \<Rightarrow> 'm option) \<Rightarrow> string \<Rightarrow> string \<Rightarrow> 'm \<Rightarrow> 'm option" where
  "write_setting wr path text m = wr path (text @ newline) m"

text \<open>The writing half of \<open>_apply\<close>: it stops where a name is unknown or a write raises.\<close>

fun write_all :: "(string \<Rightarrow> string \<Rightarrow> 'm \<Rightarrow> 'm option) \<Rightarrow> settings \<Rightarrow> settings \<Rightarrow> 'm \<Rightarrow> tune_exn option \<times> 'm" where
  "write_all wr rels [] m = (None, m)"
| "write_all wr rels ((name, v) # want) m =
     (case map_of rels name of
        None \<Rightarrow> (Some Key_error, m)
      | Some rel \<Rightarrow> (case write_setting wr rel v m of None \<Rightarrow> (Some OS_error, m) | Some m' \<Rightarrow> write_all wr rels want m'))"

definition group_files :: "string \<Rightarrow> settings" where
  "group_files grp = (case map_of FILES grp of None \<Rightarrow> [] | Some rels \<Rightarrow> rels)"

text \<open>The settings that do not read as wanted.\<close>

definition wrong_settings :: "machine_files \<Rightarrow> settings \<Rightarrow> settings \<Rightarrow> string list" where
  "wrong_settings files rels want =
     map fst (filter (\<lambda>(n, v). (case map_of rels n of None \<Rightarrow> True | Some rel \<Rightarrow> value_of files n rel \<noteq> Some v)) want)"

definition apply_settings :: "('m \<Rightarrow> machine_files) \<Rightarrow> (string \<Rightarrow> string \<Rightarrow> 'm \<Rightarrow> 'm option) \<Rightarrow> string \<Rightarrow> settings \<Rightarrow> 'm
    \<Rightarrow> tune_exn option \<times> 'm" where
  "apply_settings rd wr grp want m =
     (case write_all wr (group_files grp) want m of
        (Some e, m') \<Rightarrow> (Some e, m')
      | (None, m') \<Rightarrow>
          (case wrong_settings (rd m') (group_files grp) want of [] \<Rightarrow> (None, m') | names \<Rightarrow> (Some (NotTaken names), m')))"

definition check_files :: "machine_files \<Rightarrow> string \<Rightarrow> tune_exn + settings" where
  "check_files files grp =
     (let values = map (\<lambda>(n, rel). (n, value_of files n rel)) (group_files grp);
          missing = map fst (filter (\<lambda>(n, v). v = None) values)
      in if missing \<noteq> [] then Inl (CantRunHere missing) else Inr (map (\<lambda>(n, v). (n, the v)) values))"

subsection \<open>The GPU's clocks\<close>

type_synonym 'm runner = "string list \<Rightarrow> 'm \<Rightarrow> string option \<times> 'm"

definition smi :: "'m runner \<Rightarrow> string list \<Rightarrow> 'm \<Rightarrow> tune_exn option \<times> 'm" where
  "smi run args m = (case run (''nvidia-smi'' # args) m of (None, m') \<Rightarrow> (Some (NotTaken [''gpu'']), m') | (Some _, m') \<Rightarrow> (None, m'))"

text \<open>The SM clock now and its maximum: the first line of the answer, two numbers.\<close>

definition gpu_clocks :: "'m runner \<Rightarrow> 'm \<Rightarrow> (tune_exn + int \<times> int) \<times> 'm" where
  "gpu_clocks run m =
     (case run [''nvidia-smi'', ''--query-gpu=clocks.sm,clocks.max.sm'', ''--format=csv,noheader,nounits''] m of
        (None, m') \<Rightarrow> (Inl OS_error, m')
      | (Some out, m') \<Rightarrow>
          (case splitlines out of
             [] \<Rightarrow> (Inl Index_error, m')
           | line # _ \<Rightarrow>
               (case split_on CHR '','' line of
                  [a, b] \<Rightarrow> (case (py_int a, py_int b) of (Inr now, Inr highest) \<Rightarrow> (Inr (now, highest), m') | _ \<Rightarrow> (Inl Value_error, m'))
                | _ \<Rightarrow> (Inl Value_error, m'))))"

datatype side = As_found | Tuned

text \<open>
  Locking the clocks at the maximum or giving them back; a clock a little under the maximum counts
  as taken (\<open>now < 0.9 * highest\<close> is compared exactly, in tenths).
\<close>

definition tune_gpu :: "'m runner \<Rightarrow> side \<Rightarrow> tune_state \<Rightarrow> 'm \<times> tune_state option \<Rightarrow> tune_exn option \<times> 'm \<times> tune_state option" where
  "tune_gpu run side saved = (\<lambda>(m, st).
     case gpu_clocks run m of
       (Inl Index_error, m1) \<Rightarrow> (Some Index_error, m1, st)
     | (Inl _, m1) \<Rightarrow> (Some (CantRunHere [''gpu'']), m1, st)
     | (Inr (_, highest), m1) \<Rightarrow>
         (case side of
            As_found \<Rightarrow>
              if map_of saved ''gpu'' = None then (None, m1, st)
              else (case smi run [''-rgc''] m1 of (e, m2) \<Rightarrow> (e, m2, st))
          | Tuned \<Rightarrow>
              let saved' = (if map_of saved ''gpu'' = None then saved @ [(''gpu'', [(''clocks'', ''free'')])] else saved) in
              (case smi run [''-lgc'', show_int highest @ '','' @ show_int highest] m1 of
                 (Some e, m2) \<Rightarrow> (Some e, m2, Some saved')
               | (None, m2) \<Rightarrow>
                   (case gpu_clocks run m2 of
                      (Inl e, m3) \<Rightarrow> (Some e, m3, Some saved')
                    | (Inr (now, _), m3) \<Rightarrow>
                        (if 10 * now < 9 * highest then Some (NotTaken [''gpu'']) else None, m3, Some saved')))))"

subsection \<open>One group to one side\<close>

text \<open>The file of saved originals lies outside the tree that \<open>wr\<close> writes; writing it does not fail here.\<close>

definition set_group :: "('m \<Rightarrow> machine_files) \<Rightarrow> (string \<Rightarrow> string \<Rightarrow> 'm \<Rightarrow> 'm option) \<Rightarrow> 'm runner \<Rightarrow> string \<Rightarrow> side
    \<Rightarrow> 'm \<times> tune_state option \<Rightarrow> tune_exn option \<times> 'm \<times> tune_state option" where
  "set_group rd wr run grp side = (\<lambda>(m, st).
     let saved = (case st of None \<Rightarrow> [] | Some s \<Rightarrow> s) in
     if grp = ''gpu'' then tune_gpu run side saved (m, st)
     else if map_of FILES grp = None then (Some Key_error, m, st)
     else
       case check_files (rd m) grp of
         Inl e \<Rightarrow> (Some e, m, st)
       | Inr found \<Rightarrow>
           (case side of
              As_found \<Rightarrow>
                (case map_of saved grp of
                   None \<Rightarrow> (None, m, st)
                 | Some originals \<Rightarrow> (case apply_settings rd wr grp originals m of (e, m') \<Rightarrow> (e, m', st)))
            | Tuned \<Rightarrow>
                let saved' = (if map_of saved grp = None then saved @ [(grp, found)] else saved);
                    want = map (\<lambda>(n, _). (n, the (map_of TUNED n))) found
                in (case apply_settings rd wr grp want m of (e, m') \<Rightarrow> (e, m', Some saved'))))"

text \<open>
  The groups of \<open>restore\<close>: a setting that does not take is noted and the next group tried; any
  other exception (a write that raises \<open>OSError\<close>) leaves the loop.
\<close>

fun restore_groups :: "('m \<Rightarrow> machine_files) \<Rightarrow> (string \<Rightarrow> string \<Rightarrow> 'm \<Rightarrow> 'm option) \<Rightarrow> tune_state \<Rightarrow> string list
    \<Rightarrow> string list \<Rightarrow> 'm \<Rightarrow> (tune_exn + string list) \<times> 'm" where
  "restore_groups rd wr saved [] failed m = (Inr failed, m)"
| "restore_groups rd wr saved (g # gs) failed m =
     (case map_of saved g of
        None \<Rightarrow> restore_groups rd wr saved gs failed m
      | Some originals \<Rightarrow>
          (case apply_settings rd wr g originals m of
             (None, m') \<Rightarrow> restore_groups rd wr saved gs failed m'
           | (Some (NotTaken names), m') \<Rightarrow> restore_groups rd wr saved gs (failed @ names) m'
           | (Some e, m') \<Rightarrow> (Inl e, m')))"

definition restore :: "('m \<Rightarrow> machine_files) \<Rightarrow> (string \<Rightarrow> string \<Rightarrow> 'm \<Rightarrow> 'm option) \<Rightarrow> 'm runner
    \<Rightarrow> 'm \<times> tune_state option \<Rightarrow> (tune_exn + string list) \<times> 'm \<times> tune_state option" where
  "restore rd wr run = (\<lambda>(m, st).
     case st of
       None \<Rightarrow> (Inr [], m, None)
     | Some saved \<Rightarrow>
         (case restore_groups rd wr saved (map fst FILES) [] m of
            (Inl e, m1) \<Rightarrow> (Inl e, m1, st)
          | (Inr failed, m1) \<Rightarrow>
              let (e, m2) = (if map_of saved ''gpu'' = None then (None, m1) else smi run [''-rgc''] m1);
                  failed' = failed @ (case e of Some (NotTaken names) \<Rightarrow> names | _ \<Rightarrow> [])
              in if failed' \<noteq> [] then (Inl (NotTaken failed'), m2, st)
                 else (Inr (filter (\<lambda>g. map_of saved g \<noteq> None) (map fst FILES @ [''gpu''])), m2, None)))"

subsection \<open>A dry run\<close>

text \<open>What a change would write, as (name, from, to); \<open>None\<close> when nothing is saved.\<close>

definition describe_files :: "machine_files \<Rightarrow> string \<Rightarrow> side \<Rightarrow> tune_state option
    \<Rightarrow> tune_exn + (string \<times> string \<times> string) list option" where
  "describe_files files grp side st =
     (let saved = (case st of None \<Rightarrow> [] | Some s \<Rightarrow> s) in
      bindE (check_files files grp) (\<lambda>found.
        if side = As_found \<and> map_of saved grp = None then Inr None
        else
          let want = (case side of As_found \<Rightarrow> the (map_of saved grp)
                      | Tuned \<Rightarrow> map (\<lambda>(n, _). (n, the (map_of TUNED n))) found)
          in if list_all (\<lambda>(n, _). map_of want n \<noteq> None) found
             then Inr (Some (map (\<lambda>(n, v). (n, v, the (map_of want n))) found)) else Inl Key_error))"

subsection \<open>Originals are saved once and put back\<close>

text \<open>What the tool relies on: writing one file leaves the others as they read.\<close>

locale os_frame =
  fixes rd :: "'m \<Rightarrow> machine_files" and wr :: "string \<Rightarrow> string \<Rightarrow> 'm \<Rightarrow> 'm option"
  assumes wr_other: "wr p t m = Some m' \<Longrightarrow> q \<noteq> p \<Longrightarrow> read_file (rd m') q = read_file (rd m) q"

sublocale obedient_os \<subseteq> frame: os_frame rd wr
  by unfold_locales (simp add: wr_reads)

definition file_groups :: "string set" where
  "file_groups = {''memory'', ''network''}"

definition reads_as :: "machine_files \<Rightarrow> machine_files \<Rightarrow> string \<Rightarrow> bool" where
  "reads_as files files' g \<longleftrightarrow> (\<forall>(n, rel) \<in> set (group_files g). value_of files n rel = value_of files' n rel)"

definition saved_of :: "tune_state option \<Rightarrow> tune_state" where
  "saved_of st = (case st of None \<Rightarrow> [] | Some s \<Rightarrow> s)"

text \<open>A group is as it was, or its originals are saved.\<close>

definition originals_kept :: "machine_files \<Rightarrow> machine_files \<Rightarrow> tune_state option \<Rightarrow> bool" where
  "originals_kept orig now st \<longleftrightarrow>
     (\<forall>g \<in> file_groups. case map_of (saved_of st) g of
        None \<Rightarrow> reads_as now orig g | Some originals \<Rightarrow> check_files orig g = Inr originals)"

lemma value_of_cong: "read_file files rel = read_file files' rel \<Longrightarrow> value_of files n rel = value_of files' n rel"
  by (simp add: value_of_def)

lemma check_files_cong: "reads_as files files' g \<Longrightarrow> check_files files g = check_files files' g"
proof -
  assume "reads_as files files' g"
  then have "map (\<lambda>(n, rel). (n, value_of files n rel)) (group_files g) = map (\<lambda>(n, rel). (n, value_of files' n rel)) (group_files g)"
    by (auto simp: reads_as_def)
  then show ?thesis by (simp only: check_files_def)
qed

lemma group_files_facts:
  "snd ` set (group_files ''memory'') \<inter> snd ` set (group_files ''network'') = {}"
  "distinct (map fst (group_files ''memory''))" "distinct (map fst (group_files ''network''))"
  by code_simp+

lemma group_files_apart:
  assumes "g \<in> file_groups" "g' \<in> file_groups" "g \<noteq> g'" "(n, rel) \<in> set (group_files g)"
  shows "rel \<notin> snd ` set (group_files g')"
proof -
  have "snd ` set (group_files g) \<inter> snd ` set (group_files g') = {}"
    using assms(1-3) group_files_facts(1) by (auto simp: file_groups_def)
  then show ?thesis using assms(4) by force
qed

lemma group_files_distinct: "g \<in> file_groups \<Longrightarrow> distinct (map fst (group_files g))"
  using group_files_facts(2,3) by (auto simp: file_groups_def)

lemma reads_as_trans: "reads_as a b g \<Longrightarrow> reads_as b c g \<Longrightarrow> reads_as a c g"
  by (simp add: reads_as_def split_beta)

context os_frame begin

lemma write_all_frame:
  "write_all wr rels want m = (e, m') \<Longrightarrow> p \<notin> snd ` set rels \<Longrightarrow> read_file (rd m') p = read_file (rd m) p"
proof (induction want arbitrary: m)
  case (Cons nv want)
  obtain n v where nv: "nv = (n, v)" by (cases nv)
  show ?case
  proof (cases "m' = m")
    case False
    then obtain rel m1 where rel: "map_of rels n = Some rel" and w: "wr rel (v @ newline) m = Some m1"
      and rest: "write_all wr rels want m1 = (e, m')"
      using Cons.prems(1) by (auto simp: nv write_setting_def split: option.splits)
    have "p \<noteq> rel" using map_of_SomeD [OF rel] Cons.prems(2) by force
    then show ?thesis using Cons.IH [OF rest Cons.prems(2)] wr_other [OF w] by simp
  qed simp
qed simp

lemma apply_frame:
  assumes "apply_settings rd wr g want m = (e, m')" "p \<notin> snd ` set (group_files g)"
  shows "read_file (rd m') p = read_file (rd m) p"
  using assms write_all_frame by (auto simp: apply_settings_def split: prod.splits option.splits list.splits)

lemma apply_reads_other:
  assumes "apply_settings rd wr g want m = (e, m')" "g \<in> file_groups" "g' \<in> file_groups" "g' \<noteq> g"
  shows "reads_as (rd m') (rd m) g'"
  unfolding reads_as_def using apply_frame [OF assms(1)] group_files_apart [OF assms(3,2,4)] by (auto intro!: value_of_cong)

text \<open>Applied without complaint, a group reads as its originals did.\<close>

lemma apply_originals:
  assumes g: "g \<in> file_groups" and orig: "check_files orig g = Inr originals"
    and ap: "apply_settings rd wr g originals m = (None, m')"
  shows "reads_as (rd m') orig g"
  unfolding reads_as_def
proof clarify
  fix n rel assume nr: "(n, rel) \<in> set (group_files g)"
  have some: "value_of orig n rel \<noteq> None" and o: "originals = map (\<lambda>(n, rel). (n, the (value_of orig n rel))) (group_files g)"
    using orig nr by (auto simp: check_files_def Let_def filter_empty_conv split: if_splits)
  have "(n, the (value_of orig n rel)) \<in> set originals" using nr by (force simp: o)
  moreover have "wrong_settings (rd m') (group_files g) originals = []"
    using ap by (auto simp: apply_settings_def split: prod.splits option.splits list.splits)
  moreover have "map_of (group_files g) n = Some rel" using nr group_files_distinct [OF g] by simp
  ultimately have "value_of (rd m') n rel = Some (the (value_of orig n rel))"
    by (fastforce simp: wrong_settings_def filter_empty_conv)
  then show "value_of (rd m') n rel = value_of orig n rel" using some by auto
qed

lemma originals_kept_apply:
  assumes kept: "originals_kept orig (rd m) st" and g: "g \<in> file_groups"
    and ap: "apply_settings rd wr g want m = (e, m')"
    and st': "\<forall>g' \<in> file_groups. g' \<noteq> g \<longrightarrow> map_of (saved_of st') g' = map_of (saved_of st) g'"
    and mine: "\<exists>originals. map_of (saved_of st') g = Some originals \<and> check_files orig g = Inr originals"
  shows "originals_kept orig (rd m') st'"
  unfolding originals_kept_def
proof
  fix g' assume g': "g' \<in> file_groups"
  show "case map_of (saved_of st') g' of None \<Rightarrow> reads_as (rd m') orig g' | Some originals \<Rightarrow> check_files orig g' = Inr originals"
  proof (cases "g' = g")
    case True
    then show ?thesis using mine by auto
  next
    case False
    then show ?thesis using kept g' st' reads_as_trans [OF apply_reads_other [OF ap g g' False]]
      by (auto simp: originals_kept_def split: option.splits)
  qed
qed

lemma tune_gpu_frame:
  assumes quiet: "\<And>args m. rd (snd (run args m)) = rd m"
    and tg: "tune_gpu run sd saved (m, st) = (e, m', st')"
  shows "rd m' = rd m" "st' = st \<or> st' = Some (if map_of saved ''gpu'' = None then saved @ [(''gpu'', [(''clocks'', ''free'')])] else saved)"
proof -
  have clocks: "rd m2 = rd m1" if "gpu_clocks run m1 = (r, m2)" for m1 r m2
    using that quiet [of "[''nvidia-smi'', ''--query-gpu=clocks.sm,clocks.max.sm'', ''--format=csv,noheader,nounits'']" m1]
    by (auto simp: gpu_clocks_def split: prod.splits option.splits list.splits sum.splits)
  have smi: "rd m2 = rd m1" if "smi run args m1 = (r, m2)" for args m1 r m2
    using that quiet [of "''nvidia-smi'' # args" m1] by (auto simp: smi_def split: prod.splits option.splits)
  show "rd m' = rd m"
    using tg by (auto simp: tune_gpu_def Let_def dest!: clocks smi split: prod.splits sum.splits tune_exn.splits side.splits option.splits if_splits)
  show "st' = st \<or> st' = Some (if map_of saved ''gpu'' = None then saved @ [(''gpu'', [(''clocks'', ''free'')])] else saved)"
    using tg by (auto simp: tune_gpu_def Let_def split: prod.splits sum.splits tune_exn.splits side.splits option.splits if_splits)
qed

lemma saved_of_simps [simp]: "saved_of (Some s) = s" "saved_of None = []"
  by (simp_all add: saved_of_def)

lemma map_of_snoc: "map_of (d @ [(k, v)]) k' = (case map_of d k' of Some x \<Rightarrow> Some x | None \<Rightarrow> if k' = k then Some v else None)"
  by (simp add: map_add_def split: option.splits)

lemma set_group_keeps:
  assumes kept: "originals_kept orig (rd m) st" and quiet: "\<And>args m. rd (snd (run args m)) = rd m"
    and sg: "set_group rd wr run g sd (m, st) = (e, m', st')"
  shows "originals_kept orig (rd m') st'"
proof (cases "g = ''gpu''")
  case True
  then have "tune_gpu run sd (saved_of st) (m, st) = (e, m', st')" using sg by (simp add: set_group_def saved_of_def)
  note T = tune_gpu_frame [OF quiet this]
  have "map_of (saved_of st') g' = map_of (saved_of st) g'" if "g' \<in> file_groups" for g'
    using T(2) that by (cases st) (auto simp: file_groups_def map_of_snoc simp del: map_of_append split: option.splits if_splits)
  then show ?thesis using kept T(1) by (simp add: originals_kept_def)
next
  case False
  show ?thesis
  proof (cases "m' = m \<and> st' = st")
    case True
    then show ?thesis using kept by simp
  next
    case changed: False
    have known: "map_of FILES g \<noteq> None" using sg False changed by (auto simp: set_group_def Let_def split: if_splits)
    then have g: "g \<in> file_groups" by (auto simp: FILES_def file_groups_def split: if_splits)
    obtain found where found: "check_files (rd m) g = Inr found"
      using sg False changed known by (auto simp: set_group_def Let_def split: sum.splits)
    show ?thesis
    proof (cases sd)
      case As_found
      then obtain originals where o: "map_of (saved_of st) g = Some originals" "apply_settings rd wr g originals m = (e, m')" "st' = st"
        using sg False changed known found by (auto simp: set_group_def saved_of_def Let_def split: option.splits prod.splits)
      show ?thesis
        by (rule originals_kept_apply [OF kept g o(2)]) (use o kept g in \<open>auto simp: originals_kept_def dest!: bspec\<close>)
    next
      case Tuned
      then obtain want where w: "apply_settings rd wr g want m = (e, m')"
        "st' = Some (if map_of (saved_of st) g = None then saved_of st @ [(g, found)] else saved_of st)"
        using sg False known found by (auto simp: set_group_def saved_of_def Let_def split: option.splits prod.splits)
      have s': "map_of (saved_of st') g' = map_of (saved_of st) g'" if "g' \<noteq> g" for g'
        using that by (simp add: w(2) map_of_snoc del: map_of_append split: option.splits)
      have "\<exists>originals. map_of (saved_of st') g = Some originals \<and> check_files orig g = Inr originals"
      proof (cases "map_of (saved_of st) g")
        case None
        then have "reads_as (rd m) orig g" using kept g by (auto simp: originals_kept_def dest!: bspec)
        then show ?thesis using None found check_files_cong by (simp add: w(2) map_of_snoc del: map_of_append)
      next
        case (Some originals)
        then show ?thesis using kept g by (auto simp: w(2) originals_kept_def dest!: bspec)
      qed
      then show ?thesis using s' by (intro originals_kept_apply [OF kept g w(1)]) auto
    qed
  qed
qed

lemma write_all_error: "write_all wr rels want m = (Some e, m') \<Longrightarrow> e = Key_error \<or> e = OS_error"
  by (induction want arbitrary: m) (auto split: option.splits)

text \<open>Restoring with nothing left to complain about: every saved group reads as its originals.\<close>

lemma restore_groups_fail: "restore_groups rd wr saved gs failed m = (Inr failed', m') \<Longrightarrow> \<exists>more. failed' = failed @ more"
  by (induction gs arbitrary: failed m) (fastforce split: option.splits prod.splits tune_exn.splits)+

lemma restore_groups_done:
  assumes "restore_groups rd wr saved gs [] m = (Inr [], m')" "set gs \<subseteq> file_groups" "distinct gs"
    and "\<And>g originals. g \<in> file_groups \<Longrightarrow> map_of saved g = Some originals \<Longrightarrow> check_files orig g = Inr originals"
  shows "(\<forall>g \<in> set gs. map_of saved g \<noteq> None \<longrightarrow> reads_as (rd m') orig g)
     \<and> (\<forall>g \<in> file_groups. g \<notin> set gs \<or> map_of saved g = None \<longrightarrow> reads_as (rd m') (rd m) g)"
  using assms(1-3)
proof (induction gs arbitrary: m)
  case (Cons g gs)
  have g: "g \<in> file_groups" "g \<notin> set gs" using Cons.prems by auto
  show ?case
  proof (cases "map_of saved g")
    case None
    then show ?thesis using Cons.IH [of m] Cons.prems by auto
  next
    case (Some originals)
    obtain e m1 where ap: "apply_settings rd wr g originals m = (e, m1)" by fastforce
    have e: "e = None"
    proof (rule ccontr)
      assume "e \<noteq> None"
      then obtain names where n: "e = Some (NotTaken names)" and r: "restore_groups rd wr saved gs names m1 = (Inr [], m')"
        using Cons.prems(1) Some ap by (auto split: option.splits tune_exn.splits)
      have "names \<noteq> []" using ap n write_all_error by (fastforce simp: apply_settings_def split: prod.splits option.splits list.splits)
      then show False using restore_groups_fail [OF r] by simp
    qed
    then have rest: "restore_groups rd wr saved gs [] m1 = (Inr [], m')" using Cons.prems(1) Some ap by simp
    have IH: "(\<forall>g \<in> set gs. map_of saved g \<noteq> None \<longrightarrow> reads_as (rd m') orig g)
       \<and> (\<forall>g \<in> file_groups. g \<notin> set gs \<or> map_of saved g = None \<longrightarrow> reads_as (rd m') (rd m1) g)"
      using Cons.IH [OF rest] Cons.prems by auto
    have "reads_as (rd m1) orig g" using apply_originals [OF g(1) assms(4) [OF g(1) Some]] ap e by simp
    then have mine: "reads_as (rd m') orig g" using IH g reads_as_trans by blast
    have others: "reads_as (rd m1) (rd m) g'" if "g' \<in> file_groups" "g' \<noteq> g" for g'
      using apply_reads_other [OF ap g(1) that] .
    have "reads_as (rd m') orig g'" if "g' \<in> set (g # gs)" "map_of saved g' \<noteq> None" for g'
      using that IH mine by auto
    moreover have "reads_as (rd m') (rd m) g'" if "g' \<in> file_groups" "g' \<notin> set (g # gs) \<or> map_of saved g' = None" for g'
    proof -
      have ne: "g' \<noteq> g" using that(2) Some by auto
      then have "reads_as (rd m') (rd m1) g'" using IH that by auto
      then show ?thesis using others [OF that(1) ne] reads_as_trans by blast
    qed
    ultimately show ?thesis by blast
  qed
qed (simp add: reads_as_def)

end


text \<open>Any sequence of groups put on a side, whatever each call raises.\<close>

fun tune_rounds :: "('m \<Rightarrow> machine_files) \<Rightarrow> (string \<Rightarrow> string \<Rightarrow> 'm \<Rightarrow> 'm option) \<Rightarrow> 'm runner \<Rightarrow> (string \<times> side) list
    \<Rightarrow> 'm \<times> tune_state option \<Rightarrow> 'm \<times> tune_state option" where
  "tune_rounds rd wr run [] ms = ms"
| "tune_rounds rd wr run ((g, sd) # rounds) ms = tune_rounds rd wr run rounds (snd (set_group rd wr run g sd ms))"

lemma tune_rounds_keep:
  assumes os: "os_frame rd wr" and quiet: "\<And>args m. rd (snd (run args m)) = rd m"
    and "originals_kept (rd m0) (rd m) st" "tune_rounds rd wr run rs (m, st) = (m', st')"
  shows "originals_kept (rd m0) (rd m') st'"
  using assms(3,4)
proof (induction rs arbitrary: m st)
  case (Cons r rs)
  obtain g sd where r: "r = (g, sd)" by (cases r)
  obtain e m3 st3 where sg: "set_group rd wr run g sd (m, st) = (e, m3, st3)" by (metis surj_pair)
  from Cons.IH [OF os_frame.set_group_keeps [OF os Cons.prems(1) quiet sg]] Cons.prems(2) sg show ?case by (simp add: r)
qed simp

lemma restored_groups_read:
  assumes os: "os_frame rd wr" and keep: "originals_kept f0 (rd m1) (Some saved)"
    and rg: "restore_groups rd wr saved (map fst FILES) [] m1 = (Inr [], m3)" and g: "g \<in> file_groups"
  shows "reads_as (rd m3) f0 g"
proof -
  have gs: "set (map fst FILES) = file_groups" "distinct (map fst FILES)" by (simp_all add: FILES_def file_groups_def)
  have orig: "\<And>g originals. g \<in> file_groups \<Longrightarrow> map_of saved g = Some originals \<Longrightarrow> check_files f0 g = Inr originals"
    using keep by (auto simp: originals_kept_def dest!: bspec)
  have sub: "set (map fst FILES) \<subseteq> file_groups" using gs(1) by blast
  note done' = os_frame.restore_groups_done [OF os rg sub gs(2) orig, unfolded gs(1)]
  show ?thesis
  proof (cases "map_of saved g")
    case None
    then have "reads_as (rd m1) f0 g" using keep g by (auto simp: originals_kept_def dest!: bspec)
    then show ?thesis using done' None g reads_as_trans by blast
  qed (use done' g in auto)
qed

text \<open>C33: After any sequence of groups tuned or put back, whatever raised on the way, a restore that
  returns leaves every file setting reading as it did before the first, and forgets the saved
  state; one that raises leaves the saved state for a second try.
\<close>

theorem restore_puts_back_originals:
  assumes os: "os_frame rd wr" and quiet: "\<And>args m. rd (snd (run args m)) = rd m"
    and rounds: "tune_rounds rd wr run rounds (m0, None) = (m1, st1)"
    and res: "restore rd wr run (m1, st1) = (result, m2, st2)"
  shows "case result of
      Inl _ \<Rightarrow> st2 = st1
    | Inr gs \<Rightarrow> st2 = None \<and> (\<forall>g \<in> {''memory'', ''network''}. \<forall>(n, rel) \<in> set (group_files g).
        value_of (rd m2) n rel = value_of (rd m0) n rel)"
proof (cases st1)
  case None
  have keep: "originals_kept (rd m0) (rd m1) st1"
    by (rule tune_rounds_keep [OF os quiet _ rounds]) (simp add: originals_kept_def reads_as_def)
  then show ?thesis using res None by (auto simp: restore_def originals_kept_def reads_as_def file_groups_def)
next
  case (Some saved)
  have keep: "originals_kept (rd m0) (rd m1) (Some saved)"
    using tune_rounds_keep [OF os quiet _ rounds, of m0] Some by (simp add: originals_kept_def reads_as_def)
  show ?thesis
  proof (cases result)
    case (Inl e)
    then show ?thesis using res Some by (auto simp: restore_def Let_def split: prod.splits sum.splits if_splits)
  next
    case (Inr gs)
    obtain m3 where rg: "restore_groups rd wr saved (map fst FILES) [] m1 = (Inr [], m3)" and st2: "st2 = None"
      and m2: "m2 = m3 \<or> (\<exists>args. m2 = snd (smi run args m3))"
      using res Some Inr by (auto simp: restore_def Let_def split: prod.splits sum.splits if_splits) (metis snd_conv)
    have "rd (snd (smi run args m)) = rd m" for args m
      using quiet [of "''nvidia-smi'' # args" m] by (auto simp: smi_def split: prod.splits option.splits)
    then have "rd m2 = rd m3" using m2 by auto
    then show ?thesis using Inr st2 restored_groups_read [OF os keep rg] by (simp add: reads_as_def file_groups_def)
  qed
qed


text \<open>A folder with the three settings; its GPU tool answers and changes no file.\<close>

definition demo_settings :: machine_files where
  "demo_settings = [''sys/kernel/mm/transparent_hugepage/enabled'' \<mapsto> ''madvise'', ''proc/sys/vm/swappiness'' \<mapsto> ''60'',
     ''proc/sys/net/core/netdev_max_backlog'' \<mapsto> ''1000'']"

definition quiet_run :: "machine_files runner" where
  "quiet_run args m = (Some ''300, 1000'', m)"

lemma demo_settings_files:
  "check_files demo_settings ''memory'' = Inr [(''thp'', ''madvise''), (''swappiness'', ''60'')]"
  by code_simp

definition tuned_settings :: machine_files where
  "tuned_settings = demo_settings(''sys/kernel/mm/transparent_hugepage/enabled'' \<mapsto> ''always'' @ newline,
     ''proc/sys/vm/swappiness'' \<mapsto> ''10'' @ newline)"

definition restored_settings :: machine_files where
  "restored_settings = tuned_settings(''sys/kernel/mm/transparent_hugepage/enabled'' \<mapsto> ''madvise'' @ newline,
     ''proc/sys/vm/swappiness'' \<mapsto> ''60'' @ newline)"

lemma demo_readings:
  "wrong_settings tuned_settings (group_files ''memory'') [(''thp'', ''always''), (''swappiness'', ''10'')] = []"
  "wrong_settings restored_settings (group_files ''memory'') [(''thp'', ''madvise''), (''swappiness'', ''60'')] = []"
  by code_simp+

lemma demo_tuned:
  "tune_rounds (\<lambda>m. m) folder_write quiet_run [(''memory'', Tuned)] (demo_settings, None)
     = (tuned_settings, Some [(''memory'', [(''thp'', ''madvise''), (''swappiness'', ''60'')])])"
  using demo_readings(1)
  by (simp add: set_group_def demo_settings_files FILES_def TUNED_def apply_settings_def group_files_def write_setting_def
    folder_write_def tuned_settings_def)

lemma demo_restored:
  "restore (\<lambda>m. m) folder_write quiet_run (tuned_settings, Some [(''memory'', [(''thp'', ''madvise''), (''swappiness'', ''60'')])])
     = (Inr [''memory''], restored_settings, None)"
  using demo_readings(2)
  by (simp add: restore_def FILES_def apply_settings_def group_files_def write_setting_def folder_write_def restored_settings_def)

theorem restore_puts_back_originals_witness:
  "value_of tuned_settings ''swappiness'' ''proc/sys/vm/swappiness'' = Some ''10''
   \<and> value_of restored_settings ''swappiness'' ''proc/sys/vm/swappiness'' = value_of demo_settings ''swappiness'' ''proc/sys/vm/swappiness''"
proof
  show "value_of tuned_settings ''swappiness'' ''proc/sys/vm/swappiness'' = Some ''10''" by code_simp
  from restore_puts_back_originals [OF folder.frame.os_frame_axioms _ demo_tuned demo_restored]
  have "\<forall>(n, rel) \<in> set (group_files ''memory''). value_of restored_settings n rel = value_of demo_settings n rel"
    by (simp add: quiet_run_def)
  then show "value_of restored_settings ''swappiness'' ''proc/sys/vm/swappiness'' = value_of demo_settings ''swappiness'' ''proc/sys/vm/swappiness''"
    by (simp add: group_files_def FILES_def)
qed

text \<open>A restore whose memory write raises \<open>OSError\<close> stops there: only \<open>NotTaken\<close> is caught, so the
  later groups are not tried and the GPU's clocks stay locked.
\<close>

theorem restore_stops_at_os_error:
  assumes "map_of saved ''memory'' = Some ((''thp'', v) # others)"
    and "wr ''sys/kernel/mm/transparent_hugepage/enabled'' (v @ newline) m = None"
  shows "restore rd wr run (m, Some saved) = (Inl OS_error, m, Some saved)"
  using assms by (simp add: restore_def FILES_def apply_settings_def group_files_def write_setting_def)

theorem restore_stops_at_os_error_witness:
  "\<forall>run m. restore (\<lambda>m. m) (\<lambda>p t m. None) run (m, Some [(''memory'', [(''thp'', ''never''), (''swappiness'', ''60'')]), (''gpu'', [(''clocks'', ''free'')])])
     = (Inl OS_error, m, Some [(''memory'', [(''thp'', ''never''), (''swappiness'', ''60'')]), (''gpu'', [(''clocks'', ''free'')])])"
  by (intro allI, rule restore_stops_at_os_error) simp_all

end
