(* ===== verification/PD_Server.thy ===== *)
theory PD_Server
  imports Engine_Properties
begin

text \<open>
  \<^verbatim>\<open>server/pd_role_server.py\<close>: the decode node's \<open>_DecodeWorker\<close>, one thread that owns the
  decoding engine, and the prefill node's handler.  Handlers put hand-offs into a queue and wait
  on a \<open>done\<close> queue of their own; these queues live in a heap, each the list of everything put
  into it.  A step (\<open>dw_event\<close>) is one queue operation of a handler or one stage of the thread's
  loop, so a list of events is an interleaving.  The wire format (\<open>torch.save\<close>) and HTTP are not
  modelled.
\<close>

subsection \<open>The decode worker\<close>

type_synonym qref = nat

record 'a incoming_handoff =
  ih_handoff :: "'a prefill_handoff"
  ih_done :: qref

record pending_decode =
  pd_request :: rref
  pd_done :: qref

record itl_record =
  il_request_id :: string
  il_token_index :: nat
  il_t :: real

text \<open>Where the thread stands; \<open>DW_raised\<close> is the end of the thread by an exception.\<close>

datatype dw_pc = DW_top | DW_draining | DW_stepping | DW_logging | DW_checking | DW_stopped | DW_raised exn

record 'a decode_worker =
  dw_engine :: "'a engine"
  dw_incoming :: "'a incoming_handoff list"
  dw_pending :: "(string \<times> pending_decode) list"
  dw_prev_len :: "(string \<times> nat) list"
  dw_itl_log :: "itl_record list"
  dw_stop :: bool
  dw_pc :: dw_pc
  dw_done :: "qref \<Rightarrow> (int list \<times> request_status) list"
  dw_next_queue :: qref
  dw_next_request :: rref

definition DecodeWorker :: "'a engine \<Rightarrow> rref \<Rightarrow> 'a decode_worker" where
  "DecodeWorker e x = \<lparr>dw_engine = e, dw_incoming = [], dw_pending = [], dw_prev_len = [], dw_itl_log = [],
     dw_stop = False, dw_pc = DW_top, dw_done = (\<lambda>_. []), dw_next_queue = 0, dw_next_request = x\<rparr>"

abbreviation dw_object :: "'a decode_worker \<Rightarrow> rref \<Rightarrow> request" where
  "dw_object w x \<equiv> s_objs (e_sched (dw_engine w)) x"

definition dw_submit :: "'a prefill_handoff \<Rightarrow> 'a decode_worker \<Rightarrow> 'a decode_worker \<times> qref" where
  "dw_submit h w =
     (let q = dw_next_queue w in
      (w\<lparr>dw_done := (dw_done w)(q := []), dw_next_queue := Suc q,
         dw_incoming := dw_incoming w @ [\<lparr>ih_handoff = h, ih_done = q\<rparr>]\<rparr>, q))"

definition reset_itl_log :: "'a decode_worker \<Rightarrow> 'a decode_worker" where
  "reset_itl_log w = w\<lparr>dw_itl_log := []\<rparr>"

text \<open>One turn of \<open>_drain_incoming\<close>: the hand-off is resumed as the request object \<open>x\<close>.\<close>

definition take_handoff :: "'a::floor_ceiling incoming_handoff \<Rightarrow> 'a decode_worker \<Rightarrow> 'a decode_worker or_raise" where
  "take_handoff i w =
     (let x = dw_next_request w in
      bindE (resume_decode x (ih_handoff i) (dw_engine w)) (\<lambda>e.
        let r = s_objs (e_sched e) x in
        Inr (w\<lparr>dw_engine := e, dw_next_request := Suc x,
               dw_pending := AList.update (request_id r) \<lparr>pd_request = x, pd_done = ih_done i\<rparr> (dw_pending w),
               dw_prev_len := AList.update (request_id r) (length (output_token_ids r)) (dw_prev_len w)\<rparr>)))"

text \<open>\<open>_record_itl\<close>, for one pending request and then for all of them in order.\<close>

definition record_one :: "real \<Rightarrow> string \<times> pending_decode \<Rightarrow> 'a decode_worker \<Rightarrow> 'a decode_worker or_raise" where
  "record_one now = (\<lambda>(rid, p) w.
     case map_of (dw_prev_len w) rid of
       None \<Rightarrow> Inl KeyError
     | Some prev \<Rightarrow>
         let cur = length (output_token_ids (dw_object w (pd_request p))) in
         Inr (w\<lparr>dw_itl_log := dw_itl_log w
                  @ map (\<lambda>i. \<lparr>il_request_id = rid, il_token_index = i, il_t = now\<rparr>) [prev..<cur],
                dw_prev_len := AList.update rid cur (dw_prev_len w)\<rparr>))"

definition record_itl :: "real \<Rightarrow> 'a decode_worker \<Rightarrow> 'a decode_worker or_raise" where
  "record_itl now w = foldE (record_one now) (dw_pending w) w"

definition check_one :: "string \<Rightarrow> 'a decode_worker \<Rightarrow> 'a decode_worker or_raise" where
  "check_one rid w =
     (case map_of (dw_pending w) rid of
        None \<Rightarrow> Inl KeyError
      | Some p \<Rightarrow>
          let r = dw_object w (pd_request p); q = pd_done p in
          Inr (w\<lparr>dw_pending := AList.delete rid (dw_pending w), dw_prev_len := AList.delete rid (dw_prev_len w),
                 dw_done := (dw_done w)(q := dw_done w q @ [(output_token_ids r, status r)])\<rparr>))"

definition check_finished :: "'a decode_worker \<Rightarrow> 'a decode_worker or_raise" where
  "check_finished w =
     foldE check_one (map fst (filter (\<lambda>(_, p). is_finished (dw_object w (pd_request p))) (dw_pending w))) w"

definition dw_result :: "dw_pc \<Rightarrow> 'a decode_worker or_raise \<Rightarrow> 'a decode_worker \<Rightarrow> 'a decode_worker" where
  "dw_result next res w = (case res of Inr w' \<Rightarrow> w'\<lparr>dw_pc := next\<rparr> | Inl err \<Rightarrow> w\<lparr>dw_pc := DW_raised err\<rparr>)"

text \<open>One stage of \<open>_run\<close> at time \<open>now\<close>; \<open>None\<close> when the thread has ended or its step does not return.\<close>

definition dw_thread :: "real \<Rightarrow> 'a::floor_ceiling decode_worker \<Rightarrow> 'a decode_worker option" where
  "dw_thread now w =
     (case dw_pc w of
        DW_top \<Rightarrow> Some (w\<lparr>dw_pc := if dw_stop w then DW_stopped else DW_draining\<rparr>)
      | DW_draining \<Rightarrow>
          (case dw_incoming w of
             [] \<Rightarrow> Some (w\<lparr>dw_pc := if has_unfinished_requests (e_sched (dw_engine w)) then DW_stepping else DW_top\<rparr>)
           | i # rest \<Rightarrow> let w1 = w\<lparr>dw_incoming := rest\<rparr> in Some (dw_result DW_draining (take_handoff i w1) w1))
      | DW_stepping \<Rightarrow>
          map_option (\<lambda>res. dw_result DW_logging
             (bindE res (\<lambda>(e, _, _). Inr (w\<lparr>dw_engine := e\<rparr>))) w) (engine_step (dw_engine w))
      | DW_logging \<Rightarrow> Some (dw_result DW_checking (record_itl now w) w)
      | DW_checking \<Rightarrow> Some (dw_result DW_top (check_finished w) w)
      | DW_stopped \<Rightarrow> None
      | DW_raised _ \<Rightarrow> None)"

datatype 'a dw_event = DW_submit "'a prefill_handoff" | DW_reset | DW_stop | DW_thread real

fun dw_step :: "'a::floor_ceiling dw_event \<Rightarrow> 'a decode_worker \<Rightarrow> 'a decode_worker option" where
  "dw_step (DW_submit h) w = Some (fst (dw_submit h w))"
| "dw_step DW_reset w = Some (reset_itl_log w)"
| "dw_step DW_stop w = Some (w\<lparr>dw_stop := True\<rparr>)"
| "dw_step (DW_thread now) w = dw_thread now w"

fun dw_run :: "'a::floor_ceiling dw_event list \<Rightarrow> 'a decode_worker \<Rightarrow> 'a decode_worker option" where
  "dw_run [] w = Some w"
| "dw_run (ev # evs) w = (case dw_step ev w of None \<Rightarrow> None | Some w' \<Rightarrow> dw_run evs w')"

subsection \<open>The prefill node's handler\<close>

record prefill_body =
  pb_prompt_token_ids :: "int list"
  pb_max_tokens :: int
  pb_eos_token_id :: "int option"
  pb_request_id :: "string option"

definition do_prefill :: "(nat \<Rightarrow> string) \<Rightarrow> rref \<Rightarrow> prefill_body \<Rightarrow> 'a::floor_ceiling engine
    \<Rightarrow> ('a engine \<times> (generation_output + 'a prefill_handoff)) or_raise option" where
  "do_prefill name x body e =
     prefill name x (pb_prompt_token_ids body)
       (Some \<lparr>max_tokens = pb_max_tokens body, eos_token_id = pb_eos_token_id body\<rparr>) (pb_request_id body) e"

subsection \<open>One answer per hand-off\<close>

text \<open>The queues some hand-off still waits to be answered on.\<close>

definition waiting_queues :: "'a decode_worker \<Rightarrow> qref set" where
  "waiting_queues w = ih_done ` set (dw_incoming w) \<union> pd_done ` ran (map_of (dw_pending w))"

definition dw_queues_ok :: "'a decode_worker \<Rightarrow> bool" where
  "dw_queues_ok w \<longleftrightarrow>
     distinct (map ih_done (dw_incoming w))
   \<and> ih_done ` set (dw_incoming w) \<inter> pd_done ` ran (map_of (dw_pending w)) = {}
   \<and> inj_on (\<lambda>rid. map_option pd_done (map_of (dw_pending w) rid)) (dom (map_of (dw_pending w)))
   \<and> (\<forall>q \<in> waiting_queues w. q < dw_next_queue w \<and> dw_done w q = [])
   \<and> (\<forall>q. q \<ge> dw_next_queue w \<longrightarrow> dw_done w q = [])
   \<and> (\<forall>q. length (dw_done w q) \<le> 1 \<and> (\<forall>a \<in> set (dw_done w q). status_finished (snd a)))"

definition dw_keys_ok :: "'a decode_worker \<Rightarrow> bool" where
  "dw_keys_ok w \<longleftrightarrow> distinct (map fst (dw_pending w)) \<and> dom (map_of (dw_prev_len w)) = dom (map_of (dw_pending w))"

lemma dw_keys_ok_cong:
  "dw_pending w' = dw_pending w \<Longrightarrow> dw_prev_len w' = dw_prev_len w \<Longrightarrow> dw_keys_ok w' = dw_keys_ok w"
  by (simp add: dw_keys_ok_def)

lemma dw_queues_ok_cong:
  "dw_pending w' = dw_pending w \<Longrightarrow> dw_incoming w' = dw_incoming w \<Longrightarrow> dw_done w' = dw_done w
   \<Longrightarrow> dw_next_queue w' = dw_next_queue w \<Longrightarrow> dw_queues_ok w' = dw_queues_ok w"
  by (simp add: dw_queues_ok_def waiting_queues_def)

lemma dw_submit_ok:
  assumes "dw_queues_ok w" and "dw_keys_ok w"
  shows "dw_queues_ok (fst (dw_submit h w)) \<and> dw_keys_ok (fst (dw_submit h w))"
proof
  from assms(1) have fresh: "\<forall>q \<in> waiting_queues w. q \<noteq> dw_next_queue w"
    by (auto simp: dw_queues_ok_def)
  have w: "waiting_queues (fst (dw_submit h w)) = insert (dw_next_queue w) (waiting_queues w)"
    by (auto simp: waiting_queues_def dw_submit_def Let_def)
  have "dw_next_queue w \<notin> ih_done ` set (dw_incoming w)" "dw_next_queue w \<notin> pd_done ` ran (map_of (dw_pending w))"
    using fresh by (auto simp: waiting_queues_def)
  then show "dw_queues_ok (fst (dw_submit h w))"
    using assms(1) fresh unfolding dw_queues_ok_def w
    by (auto simp: dw_submit_def Let_def less_SucI Suc_le_eq)
  show "dw_keys_ok (fst (dw_submit h w))"
    using assms(2) by (simp add: dw_submit_def dw_keys_ok_def Let_def)
qed

lemma disjoint_grown: "A \<inter> P = {} \<Longrightarrow> P' \<subseteq> insert x P \<Longrightarrow> x \<notin> A \<Longrightarrow> A \<inter> P' = {}"
  by blast

lemma take_handoff_ok:
  assumes "take_handoff i (w\<lparr>dw_incoming := rest\<rparr>) = Inr w'" and "dw_incoming w = i # rest"
    and "dw_queues_ok w" and "dw_keys_ok w"
  shows "dw_queues_ok w' \<and> dw_keys_ok w'"
proof -
  from assms(1) obtain e rid x n where w': "w' = w\<lparr>dw_incoming := rest, dw_engine := e, dw_next_request := Suc x,
      dw_pending := AList.update rid \<lparr>pd_request = x, pd_done = ih_done i\<rparr> (dw_pending w),
      dw_prev_len := AList.update rid n (dw_prev_len w)\<rparr>"
    by (auto simp: take_handoff_def bindE_Inr_iff Let_def)
  have m: "map_of (dw_pending w') = (map_of (dw_pending w))(rid \<mapsto> \<lparr>pd_request = x, pd_done = ih_done i\<rparr>)"
    by (simp add: w' update_conv')
  have ran: "pd_done ` ran (map_of (dw_pending w')) \<subseteq> insert (ih_done i) (pd_done ` ran (map_of (dw_pending w)))"
    unfolding m by (auto simp: ran_def split: if_splits)
  have sub: "waiting_queues w' \<subseteq> waiting_queues w"
    using ran assms(2) by (auto simp: waiting_queues_def w')
  have new: "ih_done i \<notin> ih_done ` set rest" "ih_done i \<notin> pd_done ` ran (map_of (dw_pending w))"
    using assms(2,3) by (auto simp: dw_queues_ok_def)
  have inj: "inj_on (\<lambda>r. map_option pd_done (map_of (dw_pending w') r)) (dom (map_of (dw_pending w')))"
  proof (rule inj_onI)
    fix r s assume rs: "r \<in> dom (map_of (dw_pending w'))" "s \<in> dom (map_of (dw_pending w'))"
      and eq: "map_option pd_done (map_of (dw_pending w') r) = map_option pd_done (map_of (dw_pending w') s)"
    have old: "map_of (dw_pending w) t = Some p \<Longrightarrow> pd_done p \<noteq> ih_done i" for t p
      using new(2) by (metis image_eqI ranI)
    show "r = s"
    proof (cases "r = rid \<or> s = rid")
      case True
      then show ?thesis using rs eq old unfolding m by (auto split: if_splits) metis+
    next
      case False
      then show ?thesis using rs eq assms(3) unfolding m dw_queues_ok_def inj_on_def by auto
    qed
  qed
  have "dw_queues_ok w'"
    unfolding dw_queues_ok_def
  proof (intro conjI)
    show "distinct (map ih_done (dw_incoming w'))" using assms(2,3) by (simp add: w' dw_queues_ok_def)
    show "ih_done ` set (dw_incoming w') \<inter> pd_done ` ran (map_of (dw_pending w')) = {}"
      using disjoint_grown [OF _ ran new(1)] assms(2,3) by (simp add: dw_queues_ok_def w' Int_commute)
    show "\<forall>q \<in> waiting_queues w'. q < dw_next_queue w' \<and> dw_done w' q = []"
    proof -
      have "dw_next_queue w' = dw_next_queue w" "dw_done w' = dw_done w" by (simp_all add: w')
      then show ?thesis using sub assms(3) unfolding dw_queues_ok_def by (metis subsetD)
    qed
  qed (use inj assms(3) in \<open>simp_all add: dw_queues_ok_def w'\<close>)
  moreover have "dw_keys_ok w'"
    using assms(4) unfolding dw_keys_ok_def m by (simp add: w' update_conv' distinct_update)
  ultimately show ?thesis ..
qed

text \<open>Recording never raises: every pending request has a recorded length.\<close>

definition same_queues :: "'a decode_worker \<Rightarrow> 'a decode_worker \<Rightarrow> bool" where
  "same_queues w w' \<longleftrightarrow> dw_pending w' = dw_pending w \<and> dw_incoming w' = dw_incoming w \<and> dw_done w' = dw_done w
     \<and> dw_next_queue w' = dw_next_queue w \<and> dw_engine w' = dw_engine w \<and> dw_pc w' = dw_pc w
     \<and> dom (map_of (dw_prev_len w')) = dom (map_of (dw_prev_len w))"

lemma record_one_ok:
  assumes "rid \<in> dom (map_of (dw_prev_len w))"
  shows "\<exists>w'. record_one now (rid, p) w = Inr w' \<and> same_queues w w'"
  using assms by (auto simp: record_one_def same_queues_def Let_def update_conv')

lemma record_itl_ok:
  assumes "dw_queues_ok w" and "dw_keys_ok w"
  shows "\<exists>w'. record_itl now w = Inr w' \<and> dw_queues_ok w' \<and> dw_keys_ok w'"
proof -
  have "\<exists>w'. foldE (record_one now) (dw_pending w) w = Inr w' \<and> same_queues w w'"
  proof (rule foldE_total)
    show "same_queues w w" by (simp add: same_queues_def)
    fix rp v assume rp: "rp \<in> set (dw_pending w)" and v: "same_queues w v"
    obtain rid p where "rp = (rid, p)" by (cases rp)
    with rp v assms(2) have "rid \<in> dom (map_of (dw_prev_len v))"
      by (auto simp: same_queues_def dw_keys_ok_def dom_map_of_conv_image_fst intro: rev_image_eqI)
    from record_one_ok [OF this, of now p] v \<open>rp = (rid, p)\<close>
    show "\<exists>v'. record_one now rp v = Inr v' \<and> same_queues w v'" by (auto simp: same_queues_def)
  qed
  with assms show ?thesis
    by (auto simp: record_itl_def same_queues_def dw_keys_ok_def dw_queues_ok_def waiting_queues_def)
qed

text \<open>Answering never raises either, and answers each finished request once.\<close>

lemma check_one_ok:
  assumes "map_of (dw_pending w) rid = Some p" and "status_finished (status (dw_object w (pd_request p)))"
    and "dw_queues_ok w" and "dw_keys_ok w"
  shows "\<exists>w'. check_one rid w = Inr w' \<and> dw_queues_ok w' \<and> dw_keys_ok w'
    \<and> dw_pending w' = AList.delete rid (dw_pending w) \<and> dw_engine w' = dw_engine w"
proof -
  define w' where "w' = w\<lparr>dw_pending := AList.delete rid (dw_pending w), dw_prev_len := AList.delete rid (dw_prev_len w),
    dw_done := (dw_done w)(pd_done p := dw_done w (pd_done p)
      @ [(output_token_ids (dw_object w (pd_request p)), status (dw_object w (pd_request p)))])\<rparr>"
  have m: "map_of (dw_pending w') = (map_of (dw_pending w))(rid := None)" by (simp add: w'_def delete_conv')
  have r: "ran (map_of (dw_pending w')) \<subseteq> ran (map_of (dw_pending w))" unfolding m by (auto simp: ran_def)
  have q: "pd_done p \<in> waiting_queues w" using assms(1) by (auto simp: waiting_queues_def ran_def)
  have gone: "pd_done p \<notin> waiting_queues w'"
  proof
    assume "pd_done p \<in> waiting_queues w'"
    then consider "pd_done p \<in> ih_done ` set (dw_incoming w)" | s p' where "map_of (dw_pending w) s = Some p'" "s \<noteq> rid" "pd_done p' = pd_done p"
      unfolding waiting_queues_def m by (auto simp: w'_def ran_def split: if_splits)
    then show False
    proof cases
      case 1
      with assms(1,3) show ?thesis by (fastforce simp: dw_queues_ok_def ran_def)
    next
      case 2
      with assms(1) have "map_option pd_done (map_of (dw_pending w) s) = map_option pd_done (map_of (dw_pending w) rid)"
        "s \<in> dom (map_of (dw_pending w))" "rid \<in> dom (map_of (dw_pending w))" by auto
      with assms(3) 2(2) show ?thesis unfolding dw_queues_ok_def by (metis (no_types, lifting) inj_onD)
    qed
  qed
  have "dw_queues_ok w'"
    unfolding dw_queues_ok_def
  proof (intro conjI)
    show "distinct (map ih_done (dw_incoming w'))" using assms(3) by (simp add: w'_def dw_queues_ok_def)
    show "ih_done ` set (dw_incoming w') \<inter> pd_done ` ran (map_of (dw_pending w')) = {}"
      using r assms(3) by (auto simp: dw_queues_ok_def w'_def)
    have "waiting_queues w' \<subseteq> waiting_queues w" using r by (auto simp: waiting_queues_def w'_def)
    then show "\<forall>s \<in> waiting_queues w'. s < dw_next_queue w' \<and> dw_done w' s = []"
      using gone assms(3) by (auto simp: dw_queues_ok_def w'_def)
    show "\<forall>s. s \<ge> dw_next_queue w' \<longrightarrow> dw_done w' s = []"
      using q assms(3) by (auto simp: dw_queues_ok_def w'_def)
    show "\<forall>s. length (dw_done w' s) \<le> 1 \<and> (\<forall>a \<in> set (dw_done w' s). status_finished (snd a))"
      using q assms(2,3) by (auto simp: dw_queues_ok_def w'_def)
    have "inj_on (\<lambda>s. map_option pd_done (map_of (dw_pending w) s)) (dom (map_of (dw_pending w)) - {rid})"
      using assms(3) unfolding dw_queues_ok_def by (meson Diff_subset inj_on_subset)
    then show "inj_on (\<lambda>s. map_option pd_done (map_of (dw_pending w') s)) (dom (map_of (dw_pending w')))"
      unfolding m by (auto simp: inj_on_def)
  qed
  moreover have "dw_keys_ok w'"
    using assms(4) unfolding dw_keys_ok_def m by (simp add: w'_def delete_conv' distinct_delete)
  ultimately show ?thesis
    using assms(1) by (intro exI[of _ w']) (simp add: check_one_def w'_def Let_def)
qed

lemma check_all_ok:
  assumes "distinct rids" and "dw_queues_ok w" and "dw_keys_ok w"
    and "\<forall>rid \<in> set rids. \<exists>p. map_of (dw_pending w) rid = Some p \<and> status_finished (status (dw_object w (pd_request p)))"
  shows "\<exists>w'. foldE check_one rids w = Inr w' \<and> dw_queues_ok w' \<and> dw_keys_ok w'"
  using assms
proof (induction rids arbitrary: w)
  case Nil
  then show ?case by simp
next
  case (Cons rid rids)
  then obtain p where "map_of (dw_pending w) rid = Some p" "status_finished (status (dw_object w (pd_request p)))" by auto
  from check_one_ok [OF this Cons.prems(2,3)] obtain v where v: "check_one rid w = Inr v" "dw_queues_ok v" "dw_keys_ok v"
    "dw_pending v = AList.delete rid (dw_pending w)" "dw_engine v = dw_engine w" by blast
  from Cons.prems(1,4) v(4,5)
  have "\<forall>s \<in> set rids. \<exists>p. map_of (dw_pending v) s = Some p \<and> status_finished (status (dw_object v (pd_request p)))"
    by (auto simp: delete_conv')
  with Cons.IH [of v] Cons.prems(1) v show ?case by simp
qed

lemma check_finished_ok:
  assumes "dw_queues_ok w" and "dw_keys_ok w"
  shows "\<exists>w'. check_finished w = Inr w' \<and> dw_queues_ok w' \<and> dw_keys_ok w'"
  unfolding check_finished_def
proof (rule check_all_ok)
  from assms(2) have d: "distinct (map fst (dw_pending w))" by (simp add: dw_keys_ok_def)
  then show "distinct (map fst (filter (\<lambda>(_, p). is_finished (dw_object w (pd_request p))) (dw_pending w)))"
    by (rule distinct_map_filter)
  show "\<forall>rid \<in> set (map fst (filter (\<lambda>(_, p). is_finished (dw_object w (pd_request p))) (dw_pending w))).
      \<exists>p. map_of (dw_pending w) rid = Some p \<and> status_finished (status (dw_object w (pd_request p)))"
    using d by (auto simp: is_finished_def)
qed (use assms in auto)

definition dw_inv :: "'a decode_worker \<Rightarrow> bool" where
  "dw_inv w \<longleftrightarrow> dw_queues_ok w \<and> dw_keys_ok w"

lemma dw_inv_update [simp]:
  "dw_inv (w\<lparr>dw_pc := c\<rparr>) = dw_inv w" "dw_inv (w\<lparr>dw_engine := e\<rparr>) = dw_inv w"
  "dw_inv (w\<lparr>dw_stop := b\<rparr>) = dw_inv w" "dw_inv (reset_itl_log w) = dw_inv w"
  by (simp_all add: dw_inv_def dw_queues_ok_def dw_keys_ok_def waiting_queues_def reset_itl_log_def)

lemma dw_inv_dropped: "dw_incoming w = i # rest \<Longrightarrow> dw_inv w \<Longrightarrow> dw_inv (w\<lparr>dw_incoming := rest\<rparr>)"
  by (auto simp: dw_inv_def dw_queues_ok_def dw_keys_ok_def waiting_queues_def)

lemma dw_result_inv:
  assumes "\<And>w'. res = Inr w' \<Longrightarrow> dw_inv w'" and "dw_inv w"
  shows "dw_inv (dw_result pc res w)"
  using assms by (cases res) (simp_all add: dw_result_def)

lemma dw_thread_inv:
  assumes "dw_thread now w = Some w'" and "dw_inv w"
  shows "dw_inv w'"
proof (cases "dw_pc w")
  case DW_draining
  show ?thesis
  proof (cases "dw_incoming w")
    case Nil
    with DW_draining assms show ?thesis by (auto simp: dw_thread_def)
  next
    case (Cons i rest)
    with DW_draining assms(1)
    have w': "w' = dw_result DW_draining (take_handoff i (w\<lparr>dw_incoming := rest\<rparr>)) (w\<lparr>dw_incoming := rest\<rparr>)"
      by (simp add: dw_thread_def Let_def)
    show ?thesis unfolding w'
      using take_handoff_ok [OF _ Cons] assms(2) dw_inv_dropped [OF Cons assms(2)]
      by (intro dw_result_inv) (auto simp: dw_inv_def)
  qed
next
  case DW_stepping
  with assms show ?thesis
    by (auto simp: dw_thread_def bindE_Inr_iff intro!: dw_result_inv)
next
  case DW_logging
  then show ?thesis
    using assms record_itl_ok [of w now] by (auto simp: dw_thread_def dw_inv_def [of w] intro!: dw_result_inv) (auto simp: dw_inv_def)
next
  case DW_checking
  then show ?thesis
    using assms check_finished_ok [of w] by (auto simp: dw_thread_def dw_inv_def [of w] intro!: dw_result_inv) (auto simp: dw_inv_def)
qed (use assms in \<open>auto simp: dw_thread_def\<close>)

lemma dw_run_inv: "dw_run evs w = Some w' \<Longrightarrow> dw_inv w \<Longrightarrow> dw_inv w'"
proof (induction evs arbitrary: w)
  case Nil
  then show ?case by simp
next
  case (Cons ev evs)
  from Cons.prems(1) obtain v where v: "dw_step ev w = Some v" "dw_run evs v = Some w'" by (auto split: option.splits)
  have "dw_inv v"
    using v(1) Cons.prems(2) dw_submit_ok [of w] by (cases ev) (auto simp: dw_inv_def [of "fst _"] dw_inv_def [of w] intro: dw_thread_inv)
  with v(2) show ?case by (rule Cons.IH)
qed

lemma DecodeWorker_inv: "dw_inv (DecodeWorker e x)"
  by (simp add: dw_inv_def dw_queues_ok_def dw_keys_ok_def waiting_queues_def DecodeWorker_def)

text \<open>C18: In every interleaving of the decode node's handlers with its thread, from a fresh worker
  on, a hand-off's \<open>done\<close> queue gets at most one answer, that answer carries a finished status, none
  is given while the hand-off still waits, and the thread's two bookkeeping passes never raise.\<close>

theorem handoff_answered_once:
  assumes "dw_run evs (DecodeWorker e x) = Some w"
  shows "length (dw_done w q) \<le> 1 \<and> (\<forall>a \<in> set (dw_done w q). status_finished (snd a))
    \<and> (q \<in> waiting_queues w \<longrightarrow> dw_done w q = [])
    \<and> raised (record_itl now w) = None \<and> raised (check_finished w) = None"
proof -
  have i: "dw_queues_ok w" "dw_keys_ok w"
    using dw_run_inv [OF assms DecodeWorker_inv] by (simp_all add: dw_inv_def)
  show ?thesis
    using i(1) record_itl_ok [OF i, of now] check_finished_ok [OF i] by (auto simp: dw_queues_ok_def)
qed

definition small_handoff :: "rat prefill_handoff" where
  "small_handoff = \<lparr>ph_request_id = ''r'', ph_prompt_token_ids = [0, 1], ph_first_token_id = 1,
     ph_sampling_params = \<lparr>max_tokens = 2, eos_token_id = None\<rparr>,
     ph_kv = \<lparr>kb_dtype = float32, kb_seq_len = 2, kb_heads = 1, kb_head_dim = 4,
        kb_k = [[[[1, 0, 0, 0]], [[0, 0, 0, 0]]]], kb_v = [[[[0, 0, 1, 0]], [[0, 0, 0, 0]]]]\<rparr>\<rparr>"

text \<open>A hand-off comes in, is resumed, decoded by one step and answered.\<close>

definition small_service :: "rat dw_event list" where
  "small_service = DW_submit small_handoff # replicate 6 (DW_thread 0)"

lemma small_service_run:
  "map_option (\<lambda>w. (map snd (dw_done w 0), dw_pc w)) (dw_run small_service (DecodeWorker (tiny_engine 4 8) 0))
     = Some ([FINISHED_LENGTH_CAPPED], DW_top)"
  by code_simp

theorem handoff_answered_once_witness:
  "\<exists>w. dw_run small_service (DecodeWorker (tiny_engine 4 8) 0) = Some w \<and> dw_done w 0 \<noteq> []
     \<and> length (dw_done w 0) \<le> 1 \<and> 0 \<notin> waiting_queues w"
proof -
  from small_service_run obtain w where w: "dw_run small_service (DecodeWorker (tiny_engine 4 8) 0) = Some w"
    "map snd (dw_done w 0) = [FINISHED_LENGTH_CAPPED]" by auto
  from w(2) have "dw_done w 0 \<noteq> []" by auto
  with handoff_answered_once [OF w(1), of 0] w(1) show ?thesis by blast
qed

end
