(* ===== verification/Flash_Backward.thy ===== *)
theory Flash_Backward
  imports Kernels Complex_Main "HOL-Library.Multiset"
begin

text \<open>
  \<^verbatim>\<open>kernels/flash_attention_backward.py\<close>: the backward pass of FlashAttention by recomputation.
  The forward kernel stores one number per row besides the output, the log-sum-exp of the row's
  scores; the backward kernel rebuilds the probabilities from it, one program per key tile, and the
  programs add their parts of \<open>dQ\<close> atomically into one buffer.

  One head, rows as lists; the number formats' rounding is not modelled.  \<open>ex\<close> and \<open>lg\<close> stand
  for \<open>tl.exp\<close> and \<open>tl.log\<close>; the theorems take the real functions.
\<close>

subsection \<open>The kernels\<close>

definition pick_block_sizes :: "nat \<Rightarrow> nat \<Rightarrow> nat \<times> nat" where
  "pick_block_sizes itemsize D =
     (let block_d = max 16 (next_power_of_2 D) in if 4 \<le> itemsize \<and> 64 < block_d then (16, 16) else (32, 32))"

text \<open>The forward kernel for row \<open>m\<close>.  Where no key was seen, \<open>lg 0\<close> stands for minus infinity.\<close>

definition flash_row_lse :: "('a::linordered_field \<Rightarrow> 'a) \<Rightarrow> ('a \<Rightarrow> 'a) \<Rightarrow> 'a \<Rightarrow> bool \<Rightarrow> nat \<Rightarrow> nat \<Rightarrow> nat
    \<Rightarrow> 'a list list \<Rightarrow> 'a list list \<Rightarrow> 'a list \<Rightarrow> nat \<Rightarrow> 'a list \<times> 'a" where
  "flash_row_lse ex lg scale causal N BM BN ks vs q m =
     (let hi = if causal then min N ((m div BM + 1) * BM) else N;
          (m_i, l_i, acc) = fold (\<lambda>t. flash_tile ex scale causal N BN m ks vs q (t * BN)) [0..<cdiv hi BN]
             (None, 0, replicate (length q) 0)
      in (map (\<lambda>a. a / l_i) acc, case m_i of None \<Rightarrow> lg 0 | Some M \<Rightarrow> M + lg l_i))"

definition flash_forward_lse :: "('a::linordered_field \<Rightarrow> 'a) \<Rightarrow> ('a \<Rightarrow> 'a) \<Rightarrow> 'a \<Rightarrow> bool \<Rightarrow> nat \<Rightarrow> nat
    \<Rightarrow> 'a list list \<Rightarrow> 'a list list \<Rightarrow> 'a list list \<Rightarrow> 'a list list \<times> 'a list" where
  "flash_forward_lse ex lg scale causal BM BN qs ks vs =
     (let rows = map (\<lambda>m. flash_row_lse ex lg scale causal (length qs) BM BN ks vs (qs ! m) m) [0..<length qs]
      in (map fst rows, map snd rows))"

text \<open>The preprocess kernel: \<open>D_i = rowsum(dO_i * O_i)\<close>.\<close>

definition bwd_preprocess :: "'a::semiring_0 list list \<Rightarrow> 'a list list \<Rightarrow> 'a list" where
  "bwd_preprocess os dos = map2 dot os dos"

text \<open>A masked load: rows past \<open>N\<close> are zeros.\<close>

definition load_row :: "nat \<Rightarrow> nat \<Rightarrow> 'a::zero list list \<Rightarrow> nat \<Rightarrow> 'a list" where
  "load_row N D xs i = (if i < N then xs ! i else replicate D 0)"

definition load_scalar :: "nat \<Rightarrow> 'a::zero list \<Rightarrow> nat \<Rightarrow> 'a" where
  "load_scalar N xs i = (if i < N then xs ! i else 0)"

record 'a bwd_inputs =
  bi_q :: "'a list list"
  bi_k :: "'a list list"
  bi_v :: "'a list list"
  bi_do :: "'a list list"
  bi_l :: "'a list"
  bi_d :: "'a list"

text \<open>\<open>P\<close> and \<open>dS\<close> of one tile, at query row \<open>i\<close> and key row \<open>j\<close>.\<close>

definition bwd_p :: "('a::linordered_field \<Rightarrow> 'a) \<Rightarrow> 'a \<Rightarrow> bool \<Rightarrow> nat \<Rightarrow> nat \<Rightarrow> 'a bwd_inputs \<Rightarrow> nat \<Rightarrow> nat \<Rightarrow> 'a" where
  "bwd_p ex scale causal N D b i j =
     (if i < N \<and> j < N \<and> (causal \<longrightarrow> j \<le> i)
      then ex (dot (load_row N D (bi_q b) i) (load_row N D (bi_k b) j) * scale - load_scalar N (bi_l b) i) else 0)"

definition bwd_ds :: "('a::linordered_field \<Rightarrow> 'a) \<Rightarrow> 'a \<Rightarrow> bool \<Rightarrow> nat \<Rightarrow> nat \<Rightarrow> 'a bwd_inputs \<Rightarrow> nat \<Rightarrow> nat \<Rightarrow> 'a" where
  "bwd_ds ex scale causal N D b i j =
     bwd_p ex scale causal N D b i j
       * (dot (load_row N D (bi_do b) i) (load_row N D (bi_v b) j) - load_scalar N (bi_d b) i)"

text \<open>One step of a program's sweep, over the query tile at \<open>start_m\<close>: the accumulators and the atomic adds so far.\<close>

definition bwd_tile :: "('a::linordered_field \<Rightarrow> 'a) \<Rightarrow> 'a \<Rightarrow> bool \<Rightarrow> nat \<Rightarrow> nat \<Rightarrow> nat \<Rightarrow> 'a bwd_inputs \<Rightarrow> nat list \<Rightarrow> nat
    \<Rightarrow> 'a list list \<times> 'a list list \<times> ((nat \<times> nat) \<times> 'a) list \<Rightarrow> 'a list list \<times> 'a list list \<times> ((nat \<times> nat) \<times> 'a) list" where
  "bwd_tile ex scale causal N D BM b offs_n start_m = (\<lambda>(dk_acc, dv_acc, adds).
     let offs_m = [start_m..<start_m + BM];
         p = bwd_p ex scale causal N D b;
         ds = bwd_ds ex scale causal N D b;
         dv = map2 (\<lambda>j row. map (\<lambda>d. row ! d + sum_list (map (\<lambda>i. p i j * load_row N D (bi_do b) i ! d) offs_m)) [0..<D]) offs_n dv_acc;
         dk = map2 (\<lambda>j row. map (\<lambda>d. row ! d + sum_list (map (\<lambda>i. ds i j * load_row N D (bi_q b) i ! d) offs_m) * scale) [0..<D]) offs_n dk_acc;
         dq_partial = concat (map (\<lambda>i. if i < N
             then map (\<lambda>d. ((i, d), sum_list (map (\<lambda>j. ds i j * load_row N D (bi_k b) j ! d) offs_n) * scale)) [0..<D]
             else []) offs_m)
     in (dk, dv, adds @ dq_partial))"

definition bwd_program :: "('a::linordered_field \<Rightarrow> 'a) \<Rightarrow> 'a \<Rightarrow> bool \<Rightarrow> nat \<Rightarrow> nat \<Rightarrow> nat \<Rightarrow> nat \<Rightarrow> 'a bwd_inputs \<Rightarrow> nat
    \<Rightarrow> 'a list list \<times> 'a list list \<times> ((nat \<times> nat) \<times> 'a) list" where
  "bwd_program ex scale causal N D BM BN b pid_n =
     (let offs_n = [pid_n * BN..<pid_n * BN + BN];
          lo = if causal then (pid_n * BN div BM) * BM else 0;
          zeros = replicate BN (replicate D 0)
      in fold (bwd_tile ex scale causal N D BM b offs_n) (map (\<lambda>t. lo + t * BM) [0..<cdiv (N - lo) BM]) (zeros, zeros, []))"

text \<open>The programs' stores: row \<open>j\<close> of \<open>dK\<close> and \<open>dV\<close> is stored by the program of its tile.\<close>

definition bwd_dk :: "('a::linordered_field \<Rightarrow> 'a) \<Rightarrow> 'a \<Rightarrow> bool \<Rightarrow> nat \<Rightarrow> nat \<Rightarrow> nat \<Rightarrow> nat \<Rightarrow> 'a bwd_inputs \<Rightarrow> 'a list list" where
  "bwd_dk ex scale causal N D BM BN b =
     map (\<lambda>j. fst (bwd_program ex scale causal N D BM BN b (j div BN)) ! (j mod BN)) [0..<N]"

definition bwd_dv :: "('a::linordered_field \<Rightarrow> 'a) \<Rightarrow> 'a \<Rightarrow> bool \<Rightarrow> nat \<Rightarrow> nat \<Rightarrow> nat \<Rightarrow> nat \<Rightarrow> 'a bwd_inputs \<Rightarrow> 'a list list" where
  "bwd_dv ex scale causal N D BM BN b =
     map (\<lambda>j. fst (snd (bwd_program ex scale causal N D BM BN b (j div BN))) ! (j mod BN)) [0..<N]"

text \<open>
  The atomic adds of all programs.  They interleave as the hardware has it, so what the buffer
  holds in the end is \<open>dq_buffer\<close> of some permutation of this list.
\<close>

definition bwd_adds :: "('a::linordered_field \<Rightarrow> 'a) \<Rightarrow> 'a \<Rightarrow> bool \<Rightarrow> nat \<Rightarrow> nat \<Rightarrow> nat \<Rightarrow> nat \<Rightarrow> 'a bwd_inputs \<Rightarrow> ((nat \<times> nat) \<times> 'a) list" where
  "bwd_adds ex scale causal N D BM BN b =
     concat (map (\<lambda>pid. snd (snd (bwd_program ex scale causal N D BM BN b pid))) [0..<cdiv N BN])"

fun atomic_add :: "(nat \<times> nat) \<times> 'a::plus \<Rightarrow> 'a list list \<Rightarrow> 'a list list" where
  "atomic_add ((i, d), x) buf = buf[i := (buf ! i)[d := buf ! i ! d + x]]"

definition dq_buffer :: "nat \<Rightarrow> nat \<Rightarrow> ((nat \<times> nat) \<times> 'a::{plus,zero}) list \<Rightarrow> 'a list list" where
  "dq_buffer N D adds = fold atomic_add adds (replicate N (replicate D 0))"

text \<open>
  \<open>_flash_attention_backward\<close> on what the forward pass saved; \<open>order\<close> is the order the
  hardware runs the atomic adds in.
\<close>

definition saved_inputs :: "'a::linordered_field list list \<Rightarrow> 'a list list \<Rightarrow> 'a list list \<Rightarrow> 'a list list
    \<Rightarrow> 'a list list \<Rightarrow> 'a list \<Rightarrow> 'a bwd_inputs" where
  "saved_inputs dos qs ks vs os ls =
     \<lparr>bi_q = qs, bi_k = ks, bi_v = vs, bi_do = dos, bi_l = ls, bi_d = bwd_preprocess os dos\<rparr>"

definition flash_attention_backward :: "('a::linordered_field \<Rightarrow> 'a) \<Rightarrow> 'a \<Rightarrow> bool \<Rightarrow> nat \<Rightarrow> nat \<Rightarrow> nat
    \<Rightarrow> (((nat \<times> nat) \<times> 'a) list \<Rightarrow> ((nat \<times> nat) \<times> 'a) list) \<Rightarrow> 'a list list \<Rightarrow> 'a list list \<Rightarrow> 'a list list \<Rightarrow> 'a list list
    \<Rightarrow> 'a list list \<Rightarrow> 'a list \<Rightarrow> 'a list list \<times> 'a list list \<times> 'a list list" where
  "flash_attention_backward ex scale causal BM BN D order dos qs ks vs os ls =
     (let N = length qs; b = saved_inputs dos qs ks vs os ls
      in (dq_buffer N D (order (bwd_adds ex scale causal N D BM BN b)),
          bwd_dk ex scale causal N D BM BN b, bwd_dv ex scale causal N D BM BN b))"

text \<open>The autograd function: the forward pass, and the gradients it gives for \<open>dO\<close>.\<close>

definition flash_attention_autograd :: "('a::linordered_field \<Rightarrow> 'a) \<Rightarrow> ('a \<Rightarrow> 'a) \<Rightarrow> 'a \<Rightarrow> bool \<Rightarrow> nat \<Rightarrow> nat
    \<Rightarrow> (((nat \<times> nat) \<times> 'a) list \<Rightarrow> ((nat \<times> nat) \<times> 'a) list) \<Rightarrow> 'a list list \<Rightarrow> 'a list list \<Rightarrow> 'a list list
    \<Rightarrow> ('a list list \<times> ('a list list \<Rightarrow> 'a list list \<times> 'a list list \<times> 'a list list)) or_raise" where
  "flash_attention_autograd ex lg scale causal itemsize D order qs ks vs =
     (if \<not> (map length qs = map length ks \<and> map length ks = map length vs) then Inl AssertionError
      else let (BM, BN) = pick_block_sizes itemsize D;
               (os, ls) = flash_forward_lse ex lg scale causal BM BN qs ks vs
           in Inr (os, \<lambda>dos. flash_attention_backward ex scale causal BM BN D order dos qs ks vs os ls))"

subsection \<open>The tiled sweep is the dense formula\<close>

lemma sum_list_masked:
  assumes "\<And>i. i \<in> {a..<b} \<Longrightarrow> i \<notin> V \<Longrightarrow> f i = 0" and "\<And>i. i \<in> V \<Longrightarrow> i \<notin> {a..<b} \<Longrightarrow> f i = 0" and "finite V"
  shows "sum_list (map f [a..<b]) = sum f V"
proof -
  have "sum_list (map f [a..<b]) = sum f {a..<b}" by (rule sum_list_upt)
  also have "\<dots> = sum f ({a..<b} \<inter> V)" by (rule sum.mono_neutral_right) (use assms in auto)
  also have "\<dots> = sum f V"
  proof (rule sum.mono_neutral_left [OF assms(3)])
    show "\<forall>i \<in> V - {a..<b} \<inter> V. f i = 0" using assms(2) by blast
  qed simp
  finally show ?thesis .
qed

text \<open>The sweep of one program, tile after tile.\<close>

lemma bwd_sweep:
  "fold (bwd_tile ex scale causal N D BM b offs_n) (map (\<lambda>t. lo + t * BM) [0..<n])
     (replicate (length offs_n) (replicate D 0), replicate (length offs_n) (replicate D 0), [])
   = (map (\<lambda>j. map (\<lambda>d. sum_list (map (\<lambda>i. bwd_ds ex scale causal N D b i j * load_row N D (bi_q b) i ! d) [lo..<lo + n * BM]) * scale) [0..<D]) offs_n,
      map (\<lambda>j. map (\<lambda>d. sum_list (map (\<lambda>i. bwd_p ex scale causal N D b i j * load_row N D (bi_do b) i ! d) [lo..<lo + n * BM])) [0..<D]) offs_n,
      concat (map (\<lambda>i. if i < N
        then map (\<lambda>d. ((i, d), sum_list (map (\<lambda>j. bwd_ds ex scale causal N D b i j * load_row N D (bi_k b) j ! d) offs_n) * scale)) [0..<D]
        else []) [lo..<lo + n * BM]))"
proof (induction n)
  case 0
  then show ?case by (auto intro!: nth_equalityI)
next
  case (Suc n)
  have up: "[lo..<lo + (BM + n * BM)] = [lo..<lo + n * BM] @ [lo + n * BM..<lo + n * BM + BM]"
    using upt_add_eq_append [of lo "lo + n * BM" BM] by (simp add: algebra_simps)
  have m2: "map2 f offs_n (map g offs_n) = map (\<lambda>j. f j (g j)) offs_n" for f :: "nat \<Rightarrow> 'b \<Rightarrow> 'c" and g
    by (induction offs_n) auto
  show ?case
    unfolding upt_Suc_append [OF le0] map_append fold_append comp_def Suc.IH
    by (simp add: bwd_tile_def Let_def up m2 distrib_right cong: map_cong)
qed

lemma bwd_program_eq:
  assumes "lo = (if causal then (pid * BN div BM) * BM else 0)"
  shows "bwd_program ex scale causal N D BM BN b pid =
    (map (\<lambda>j. map (\<lambda>d. sum_list (map (\<lambda>i. bwd_ds ex scale causal N D b i j * load_row N D (bi_q b) i ! d) [lo..<lo + cdiv (N - lo) BM * BM]) * scale) [0..<D]) [pid * BN..<pid * BN + BN],
     map (\<lambda>j. map (\<lambda>d. sum_list (map (\<lambda>i. bwd_p ex scale causal N D b i j * load_row N D (bi_do b) i ! d) [lo..<lo + cdiv (N - lo) BM * BM])) [0..<D]) [pid * BN..<pid * BN + BN],
     concat (map (\<lambda>i. if i < N
       then map (\<lambda>d. ((i, d), sum_list (map (\<lambda>j. bwd_ds ex scale causal N D b i j * load_row N D (bi_k b) j ! d) [pid * BN..<pid * BN + BN]) * scale)) [0..<D]
       else []) [lo..<lo + cdiv (N - lo) BM * BM]))"
  using bwd_sweep [of ex scale causal N D BM b "[pid * BN..<pid * BN + BN]" lo "cdiv (N - lo) BM"]
  unfolding bwd_program_def Let_def assms by (simp only: length_upt add_diff_cancel_left')

text \<open>Rows above the sweep's start see none of the program's keys, so they add nothing.\<close>

lemma bwd_p_unseen: "\<not> (i < N \<and> j < N \<and> (causal \<longrightarrow> j \<le> i)) \<Longrightarrow> bwd_p ex scale causal N D b i j = 0"
  by (auto simp: bwd_p_def)

lemma bwd_ds_unseen: "\<not> (i < N \<and> j < N \<and> (causal \<longrightarrow> j \<le> i)) \<Longrightarrow> bwd_ds ex scale causal N D b i j = 0"
  by (auto simp: bwd_ds_def bwd_p_unseen)

lemma sweep_range:
  assumes "0 < BM" and "lo = (if causal then (pid * BN div BM) * BM else 0)" and "i \<notin> {lo..<lo + cdiv (N - lo) BM * BM}"
    and "pid * BN \<le> j"
  shows "\<not> (i < N \<and> j < N \<and> (causal \<longrightarrow> j \<le> i))"
proof
  assume a: "i < N \<and> j < N \<and> (causal \<longrightarrow> j \<le> i)"
  have "lo \<le> i"
  proof (cases causal)
    case True
    then have "lo \<le> pid * BN" "j \<le> i" using assms(2) a by simp_all
    with assms(4) show ?thesis by simp
  qed (use assms(2) in simp)
  moreover have "N - lo \<le> cdiv (N - lo) BM * BM" by (rule cdiv_mult_ge [OF assms(1)])
  ultimately show False using assms(3) a by auto
qed

lemma bwd_dk_eq:
  assumes "0 < BM" "0 < BN" "j < N" "d < D"
  shows "bwd_dk ex scale causal N D BM BN b ! j ! d
    = (\<Sum>i < N. bwd_ds ex scale causal N D b i j * bi_q b ! i ! d) * scale"
proof -
  define pid where "pid = j div BN"
  define lo where "lo = (if causal then (pid * BN div BM) * BM else 0)"
  have j: "pid * BN + j mod BN = j" "j mod BN < BN" "pid * BN \<le> j"
    using assms(2) by (simp_all add: pid_def)
  have "bwd_dk ex scale causal N D BM BN b ! j ! d
      = sum_list (map (\<lambda>i. bwd_ds ex scale causal N D b i j * load_row N D (bi_q b) i ! d) [lo..<lo + cdiv (N - lo) BM * BM]) * scale"
    using assms(3,4) j by (simp add: bwd_dk_def pid_def [symmetric] bwd_program_eq [OF lo_def])
  also have "sum_list (map (\<lambda>i. bwd_ds ex scale causal N D b i j * load_row N D (bi_q b) i ! d) [lo..<lo + cdiv (N - lo) BM * BM])
      = (\<Sum>i < N. bwd_ds ex scale causal N D b i j * load_row N D (bi_q b) i ! d)"
    by (rule sum_list_masked) (use sweep_range [OF assms(1) lo_def _ j(3)] in \<open>auto simp: bwd_ds_unseen\<close>)
  also have "\<dots> = (\<Sum>i < N. bwd_ds ex scale causal N D b i j * bi_q b ! i ! d)" by (simp add: load_row_def)
  finally show ?thesis .
qed

lemma bwd_dv_eq:
  assumes "0 < BM" "0 < BN" "j < N" "d < D"
  shows "bwd_dv ex scale causal N D BM BN b ! j ! d = (\<Sum>i < N. bwd_p ex scale causal N D b i j * bi_do b ! i ! d)"
proof -
  define pid where "pid = j div BN"
  define lo where "lo = (if causal then (pid * BN div BM) * BM else 0)"
  have j: "pid * BN + j mod BN = j" "j mod BN < BN" "pid * BN \<le> j"
    using assms(2) by (simp_all add: pid_def)
  have "bwd_dv ex scale causal N D BM BN b ! j ! d
      = sum_list (map (\<lambda>i. bwd_p ex scale causal N D b i j * load_row N D (bi_do b) i ! d) [lo..<lo + cdiv (N - lo) BM * BM])"
    using assms(3,4) j by (simp add: bwd_dv_def pid_def [symmetric] bwd_program_eq [OF lo_def])
  also have "\<dots> = (\<Sum>i < N. bwd_p ex scale causal N D b i j * load_row N D (bi_do b) i ! d)"
    by (rule sum_list_masked) (use sweep_range [OF assms(1) lo_def _ j(3)] in \<open>auto simp: bwd_p_unseen\<close>)
  also have "\<dots> = (\<Sum>i < N. bwd_p ex scale causal N D b i j * bi_do b ! i ! d)" by (simp add: load_row_def)
  finally show ?thesis .
qed

subsection \<open>Atomic adds in any order\<close>

definition added :: "nat \<Rightarrow> nat \<Rightarrow> ((nat \<times> nat) \<times> 'a::comm_monoid_add) list \<Rightarrow> 'a" where
  "added i d adds = sum_list (map snd (filter (\<lambda>a. fst a = (i, d)) adds))"

lemma added_permuted: "mset adds = mset adds' \<Longrightarrow> added i d adds = added i d adds'"
proof -
  assume "mset adds = mset adds'"
  then have "mset (map snd (filter (\<lambda>a. fst a = (i, d)) adds)) = mset (map snd (filter (\<lambda>a. fst a = (i, d)) adds'))" by simp
  then show ?thesis unfolding added_def by (simp only: sum_mset_sum_list [symmetric])
qed

lemma added_append [simp]: "added i d (xs @ ys) = added i d xs + added i d ys"
  by (simp add: added_def)

lemma added_concat: "added i d (concat xss) = sum_list (map (added i d) xss)"
  by (induction xss) (simp_all add: added_def)

lemma atomic_adds:
  assumes "\<forall>x \<in> set buf. length x = D" and "i < length buf" and "d < D"
  shows "fold atomic_add adds buf ! i ! d = buf ! i ! d + added i d adds"
  using assms
proof (induction adds arbitrary: buf)
  case Nil
  then show ?case by (simp add: added_def)
next
  case (Cons a adds)
  obtain i' d' x where a: "a = ((i', d'), x)" by (metis surj_pair)
  let ?b = "atomic_add a buf"
  have "\<forall>y \<in> set ?b. length y = D" using Cons.prems(1) unfolding a
    by (cases "i' < length buf") (auto simp: list_update_beyond dest!: set_update_subset_insert [THEN subsetD])
  moreover have "length ?b = length buf" by (simp add: a)
  moreover have "?b ! i ! d = buf ! i ! d + (if (i', d') = (i, d) then x else 0)"
    using Cons.prems by (cases "i' = i") (auto simp: a nth_list_update)
  ultimately show ?case using Cons.IH [of ?b] Cons.prems(2,3) by (simp add: a added_def add.assoc)
qed

lemma dq_buffer_eq: "i < N \<Longrightarrow> d < D \<Longrightarrow> dq_buffer N D adds ! i ! d = added i d adds"
  for adds :: "((nat \<times> nat) \<times> 'a::comm_monoid_add) list"
  unfolding dq_buffer_def by (subst atomic_adds [where D = D]) auto

lemma added_row: "d < D \<Longrightarrow> added i d (map (\<lambda>d. ((i', d), f d)) [0..<D]) = (if i' = i then f d else 0)"
proof -
  assume "d < D"
  then have "filter (\<lambda>e. e = d) [0..<D] = [d]"
    by (induction D) (auto simp: less_Suc_eq filter_empty_conv)
  then show ?thesis by (simp add: added_def filter_map comp_def)
qed

lemma added_rows:
  assumes "d < D" and "i < N"
  shows "added i d (concat (map (\<lambda>i. if i < N then map (\<lambda>d. ((i, d), f i d)) [0..<D] else []) [a..<b])) = (if i \<in> {a..<b} then f i d else 0)"
proof -
  have "added i d (concat (map (\<lambda>i. if i < N then map (\<lambda>d. ((i, d), f i d)) [0..<D] else []) [a..<b]))
      = sum_list (map (\<lambda>i'. if i' = i then f i d else 0) [a..<b])"
    using assms unfolding added_concat map_map comp_def
    by (intro arg_cong [of _ _ sum_list] map_cong) (simp_all add: added_row, simp_all add: added_def)
  also have "\<dots> = (if i \<in> {a..<b} then f i d else 0)" by (simp add: sum_list_upt)
  finally show ?thesis .
qed

lemma tiles_sum: "sum_list (map (\<lambda>t. sum_list (map f [t * B..<t * B + B])) [0..<n]) = sum_list (map f [0..<n * B])"
proof (induction n)
  case (Suc n)
  have "[0..<Suc n * B] = [0..<n * B] @ [n * B..<n * B + B]"
    using upt_add_eq_append [of 0 "n * B" B] by (simp add: add.commute)
  with Suc show ?case by simp
qed simp

lemma bwd_adds_eq:
  assumes "0 < BM" "0 < BN" "i < N" "d < D"
  shows "added i d (bwd_adds ex scale causal N D BM BN b) = (\<Sum>j < N. bwd_ds ex scale causal N D b i j * bi_k b ! j ! d) * scale"
proof -
  let ?f = "\<lambda>j. bwd_ds ex scale causal N D b i j * load_row N D (bi_k b) j ! d"
  have prog: "added i d (snd (snd (bwd_program ex scale causal N D BM BN b pid))) = sum_list (map ?f [pid * BN..<pid * BN + BN]) * scale" for pid
  proof -
    define lo where "lo = (if causal then (pid * BN div BM) * BM else 0)"
    have "sum_list (map ?f [pid * BN..<pid * BN + BN]) = 0" if "i \<notin> {lo..<lo + cdiv (N - lo) BM * BM}"
      unfolding sum_list_upt using sweep_range [OF assms(1) lo_def that] by (intro sum.neutral) (auto simp: bwd_ds_unseen)
    then show ?thesis using assms(3,4) by (auto simp: bwd_program_eq [OF lo_def] added_rows)
  qed
  have "added i d (bwd_adds ex scale causal N D BM BN b) = sum_list (map (\<lambda>pid. sum_list (map ?f [pid * BN..<pid * BN + BN])) [0..<cdiv N BN]) * scale"
    unfolding bwd_adds_def added_concat map_map comp_def prog by (simp add: sum_list_mult_const)
  also have "\<dots> = sum_list (map ?f [0..<cdiv N BN * BN]) * scale" by (simp only: tiles_sum)
  also have "sum_list (map ?f [0..<cdiv N BN * BN]) = sum ?f {..<N}"
    using cdiv_mult_ge [OF assms(2), of N] by (intro sum_list_masked) (auto simp: bwd_ds_unseen)
  also have "\<dots> = (\<Sum>j < N. bwd_ds ex scale causal N D b i j * bi_k b ! j ! d)" by (simp add: load_row_def)
  finally show ?thesis .
qed

subsection \<open>What the forward kernel saves\<close>

lemma is_exp_exp: "is_exp (exp :: real \<Rightarrow> real)"
  by (simp add: is_exp_def exp_add)

lemma flash_row_lse_eq:
  fixes q :: "real list" and ks :: "real list list" and causal :: bool and scale :: real
  assumes BM: "0 < BM" and BN: "0 < BN" and m: "m < N"
  defines "V \<equiv> seen causal N m N" and "S \<equiv> \<lambda>j. dot q (ks ! j) * scale"
  shows "flash_row_lse exp ln scale causal N BM BN ks vs q m
    = (map (\<lambda>d. (\<Sum>j \<in> V. exp (S j) * vs ! j ! d) / (\<Sum>j \<in> V. exp (S j))) [0..<length q], ln (\<Sum>j \<in> V. exp (S j)))"
proof -
  let ?hi = "if causal then min N ((m div BM + 1) * BM) else N"
  obtain m_i l acc where s: "fold (\<lambda>t. flash_tile exp scale causal N BN m ks vs q (t * BN)) [0..<cdiv ?hi BN] (None, 0, replicate (length q) 0) = (m_i, l, acc)"
    by (metis prod.exhaust)
  have "m < (m div BM + 1) * BM" using BM by (simp add: dividend_less_div_times)
  then have hi: "causal \<longrightarrow> m < ?hi" "\<not> causal \<longrightarrow> ?hi = N" using m by simp_all
  have "?hi \<le> cdiv ?hi BN * BN" by (rule cdiv_mult_ge [OF BN])
  then have "seen causal N m (cdiv ?hi BN * BN) = V" using hi m unfolding seen_def V_def by (cases causal) auto
  with flash_tiles [OF is_exp_exp, of q ks scale vs causal N m "cdiv ?hi BN" BN]
  have st: "softmax_state exp (length q) S vs V (m_i, l, acc)" by (simp only: s S_def)
  have V: "m \<in> V" "finite V" using m by (auto simp: V_def seen_def)
  then obtain M where M: "m_i = Some M" using st by (cases m_i) (auto simp: softmax_state_def)
  have sum: "(\<Sum>j \<in> V. exp (S j - M) * g j) = exp (- M) * (\<Sum>j \<in> V. exp (S j) * g j)" for g
    by (simp add: exp_diff exp_minus sum_distrib_left field_simps)
  have l: "l = exp (- M) * (\<Sum>j \<in> V. exp (S j))" using st M sum [of "\<lambda>_. 1"] by (simp add: softmax_state_def)
  have pos: "0 < (\<Sum>j \<in> V. exp (S j))" using V by (intro sum_pos) auto
  have "M + ln l = ln (\<Sum>j \<in> V. exp (S j))" unfolding l using pos by (simp add: ln_mult)
  moreover have "map (\<lambda>a. a / l) acc = map (\<lambda>d. (\<Sum>j \<in> V. exp (S j) * vs ! j ! d) / (\<Sum>j \<in> V. exp (S j))) [0..<length q]"
  proof -
    have "acc = map (\<lambda>d. exp (- M) * (\<Sum>j \<in> V. exp (S j) * vs ! j ! d)) [0..<length q]"
      using st M sum by (simp add: softmax_state_def)
    then show ?thesis by (simp add: l)
  qed
  ultimately show ?thesis unfolding flash_row_lse_def Let_def s by (simp add: M)
qed

subsection \<open>The gradient\<close>

lemma dot_sum: "length xs = D \<Longrightarrow> length ys = D \<Longrightarrow> dot xs ys = (\<Sum>d < D. xs ! d * ys ! d)"
  for xs :: "'a::semiring_0 list"
proof -
  assume "length xs = D" "length ys = D"
  then have "map2 (*) xs ys = map (\<lambda>d. xs ! d * ys ! d) [0..<D]" by (intro nth_equalityI) auto
  then show ?thesis by (simp add: dot_def sum_list_upt lessThan_atLeast0)
qed

lemma dot_update:
  fixes xs ys :: "real list"
  assumes "length xs = D" "length ys = D" "d < D"
  shows "dot (xs[d := x]) ys = dot xs ys + (x - xs ! d) * ys ! d"
proof -
  have "dot (xs[d := x]) ys = (\<Sum>e < D. xs ! e * ys ! e + (if e = d then (x - xs ! d) * ys ! d else 0))"
    using assms by (simp add: dot_sum [of _ D] nth_list_update algebra_simps cong: if_cong) (rule sum.cong, auto simp: algebra_simps)
  then show ?thesis using assms by (simp add: dot_sum [of _ D] sum.distrib)
qed

lemma dot_commute: "dot xs ys = dot ys xs" for xs ys :: "'a::comm_semiring_0 list"
  by (induction xs ys rule: list_induct2') (simp_all add: dot_def mult.commute)

text \<open>A softmax-weighted mean, differentiated along its scores.\<close>

lemma softmax_derivative:
  fixes w c :: "'b \<Rightarrow> real"
  assumes V: "finite V" "V \<noteq> {}" and s: "\<And>j. j \<in> V \<Longrightarrow> (s j has_real_derivative c j) (at x)"
  defines "Z \<equiv> \<Sum>j \<in> V. exp (s j x)" and "F \<equiv> (\<Sum>j \<in> V. exp (s j x) * w j) / (\<Sum>j \<in> V. exp (s j x))"
  shows "((\<lambda>x. (\<Sum>j \<in> V. exp (s j x) * w j) / (\<Sum>j \<in> V. exp (s j x)))
    has_real_derivative (\<Sum>j \<in> V. exp (s j x) / Z * (w j - F) * c j)) (at x)"
proof -
  have Z: "0 < Z" unfolding Z_def using V by (intro sum_pos) auto
  have n: "((\<lambda>x. \<Sum>j \<in> V. exp (s j x) * w j) has_real_derivative (\<Sum>j \<in> V. exp (s j x) * c j * w j)) (at x)"
    by (auto intro!: derivative_eq_intros DERIV_sum s)
  have z: "((\<lambda>x. \<Sum>j \<in> V. exp (s j x)) has_real_derivative (\<Sum>j \<in> V. exp (s j x) * c j)) (at x)"
    by (auto intro!: derivative_eq_intros DERIV_sum s)
  have "((\<Sum>j \<in> V. exp (s j x) * c j * w j) * Z - (\<Sum>j \<in> V. exp (s j x) * w j) * (\<Sum>j \<in> V. exp (s j x) * c j)) / (Z * Z)
      = ((\<Sum>j \<in> V. exp (s j x) * c j * w j) - F * (\<Sum>j \<in> V. exp (s j x) * c j)) / Z"
    using Z by (simp add: F_def Z_def [symmetric] field_simps)
  also have "\<dots> = (\<Sum>j \<in> V. exp (s j x) / Z * (w j - F) * c j)"
    by (simp add: sum_distrib_left sum_subtractf [symmetric] sum_divide_distrib algebra_simps diff_divide_distrib)
  finally show ?thesis using DERIV_divide [OF n z] Z by (simp add: Z_def)
qed


text \<open>One row's loss is the softmax-weighted mean of the values' components along \<open>dO\<close>.\<close>

definition row_scores :: "real \<Rightarrow> real list list \<Rightarrow> real list list \<Rightarrow> nat \<Rightarrow> nat \<Rightarrow> real" where
  "row_scores scale qs ks i j = dot (qs ! i) (ks ! j) * scale"

definition row_mean :: "real \<Rightarrow> nat set \<Rightarrow> real list list \<Rightarrow> real list list \<Rightarrow> (nat \<Rightarrow> real) \<Rightarrow> nat \<Rightarrow> real" where
  "row_mean scale V qs ks w i = (\<Sum>j \<in> V. exp (row_scores scale qs ks i j) * w j) / (\<Sum>j \<in> V. exp (row_scores scale qs ks i j))"

definition attention_loss :: "real \<Rightarrow> bool \<Rightarrow> nat \<Rightarrow> nat \<Rightarrow> real list list \<Rightarrow> real list list \<Rightarrow> real list list \<Rightarrow> real list list \<Rightarrow> real" where
  "attention_loss scale causal BM BN dos qs ks vs =
     (\<Sum>i < length qs. dot (dos ! i) (fst (flash_forward_lse exp ln scale causal BM BN qs ks vs) ! i))"

lemma forward_row:
  assumes "0 < BM" "0 < BN" "i < length qs" "length (qs ! i) = D" "length (dos ! i) = D"
    and "\<And>j. j < length qs \<Longrightarrow> length (vs ! j) = D"
  shows "dot (dos ! i) (fst (flash_forward_lse exp ln scale causal BM BN qs ks vs) ! i)
      = row_mean scale (seen causal (length qs) i (length qs)) qs ks (\<lambda>j. dot (dos ! i) (vs ! j)) i"
    and "snd (flash_forward_lse exp ln scale causal BM BN qs ks vs) ! i
      = ln (\<Sum>j \<in> seen causal (length qs) i (length qs). exp (row_scores scale qs ks i j))"
proof -
  let ?V = "seen causal (length qs) i (length qs)" and ?S = "row_scores scale qs ks i"
  have row: "flash_row_lse exp ln scale causal (length qs) BM BN ks vs (qs ! i) i
      = (map (\<lambda>d. (\<Sum>j \<in> ?V. exp (?S j) * vs ! j ! d) / (\<Sum>j \<in> ?V. exp (?S j))) [0..<D], ln (\<Sum>j \<in> ?V. exp (?S j)))"
    using flash_row_lse_eq [OF assms(1-3), where causal = causal and ks = ks and vs = vs and q = "qs ! i" and scale = scale] assms(4) by (simp add: row_scores_def)
  show "snd (flash_forward_lse exp ln scale causal BM BN qs ks vs) ! i = ln (\<Sum>j \<in> ?V. exp (?S j))"
    using assms(3) row by (simp add: flash_forward_lse_def)
  have "dot (dos ! i) (fst (flash_forward_lse exp ln scale causal BM BN qs ks vs) ! i)
      = (\<Sum>d < D. dos ! i ! d * ((\<Sum>j \<in> ?V. exp (?S j) * vs ! j ! d) / (\<Sum>j \<in> ?V. exp (?S j))))"
    using assms(3,5) row by (simp add: flash_forward_lse_def dot_sum [of _ D])
  also have "\<dots> = (\<Sum>d < D. \<Sum>j \<in> ?V. exp (?S j) * (dos ! i ! d * vs ! j ! d)) / (\<Sum>j \<in> ?V. exp (?S j))"
    by (simp add: sum_divide_distrib sum_distrib_left mult_ac)
  also have "(\<Sum>d < D. \<Sum>j \<in> ?V. exp (?S j) * (dos ! i ! d * vs ! j ! d)) = (\<Sum>j \<in> ?V. exp (?S j) * (\<Sum>d < D. dos ! i ! d * vs ! j ! d))"
    by (subst sum.swap) (simp add: sum_distrib_left)
  also have "\<dots> = (\<Sum>j \<in> ?V. exp (?S j) * dot (dos ! i) (vs ! j))"
    using assms(5,6) by (intro sum.cong) (auto simp: seen_def dot_sum [of _ D])
  finally show "dot (dos ! i) (fst (flash_forward_lse exp ln scale causal BM BN qs ks vs) ! i)
      = row_mean scale ?V qs ks (\<lambda>j. dot (dos ! i) (vs ! j)) i" by (simp add: row_mean_def)
qed

text \<open>The backward kernel's probabilities and \<open>dS\<close>, from what was saved.\<close>

lemma bwd_values:
  assumes "0 < BM" "0 < BN" "i < length qs" "length (qs ! i) = D" "length (dos ! i) = D" "length dos = length qs"
    and "\<And>j. j < length qs \<Longrightarrow> length (vs ! j) = D"
    and fwd: "flash_forward_lse exp ln scale causal BM BN qs ks vs = (os, ls)"
  defines "V \<equiv> seen causal (length qs) i (length qs)"
  defines "P \<equiv> \<lambda>j. if j \<in> V then exp (row_scores scale qs ks i j) / (\<Sum>j \<in> V. exp (row_scores scale qs ks i j)) else 0"
  shows "bwd_p exp scale causal (length qs) D (saved_inputs dos qs ks vs os ls) i j = P j"
    and "bwd_ds exp scale causal (length qs) D (saved_inputs dos qs ks vs os ls) i j
      = P j * (dot (dos ! i) (vs ! j) - row_mean scale V qs ks (\<lambda>j. dot (dos ! i) (vs ! j)) i)"
proof -
  have V: "i \<in> V" "finite V" using assms(3) by (auto simp: V_def seen_def)
  then have pos: "0 < (\<Sum>j \<in> V. exp (row_scores scale qs ks i j))" by (intro sum_pos) auto
  have l: "ls ! i = ln (\<Sum>j \<in> V. exp (row_scores scale qs ks i j))"
    using forward_row(2) [OF assms(1-5,7), where causal = causal and scale = scale and ks = ks] fwd by (simp add: V_def)
  have jV: "j \<in> V \<longleftrightarrow> j < length qs \<and> (causal \<longrightarrow> j \<le> i)" for j by (auto simp: V_def seen_def)
  show p: "bwd_p exp scale causal (length qs) D (saved_inputs dos qs ks vs os ls) i j = P j" for j
    using assms(3) l pos by (auto simp: bwd_p_def saved_inputs_def load_row_def load_scalar_def P_def jV exp_diff row_scores_def [symmetric])
  have os: "length os = length qs" using fwd by (auto simp: flash_forward_lse_def)
  have "bwd_preprocess os dos ! i = dot (dos ! i) (os ! i)"
    using assms(3,6) os by (simp add: bwd_preprocess_def dot_commute)
  also have "\<dots> = row_mean scale V qs ks (\<lambda>j. dot (dos ! i) (vs ! j)) i"
    using forward_row(1) [OF assms(1-5,7), where causal = causal and scale = scale and ks = ks] fwd by (simp add: V_def)
  finally have d: "bwd_preprocess os dos ! i = row_mean scale V qs ks (\<lambda>j. dot (dos ! i) (vs ! j)) i" .
  show "bwd_ds exp scale causal (length qs) D (saved_inputs dos qs ks vs os ls) i j
      = P j * (dot (dos ! i) (vs ! j) - row_mean scale V qs ks (\<lambda>j. dot (dos ! i) (vs ! j)) i)"
  proof (cases "j \<in> V")
    case True
    then have j: "j < length qs" by (simp add: jV)
    then show ?thesis unfolding bwd_ds_def p
      using assms(3) d by (simp add: saved_inputs_def load_row_def load_scalar_def)
  next
    case False
    then show ?thesis by (simp add: bwd_ds_def p P_def)
  qed
qed


lemma scores_q:
  assumes "length (qs ! i) = D" "length (ks ! j) = D" "d < D" "i < length qs"
  shows "row_scores scale (qs[i := (qs ! i)[d := x]]) ks i j = row_scores scale qs ks i j + (x - qs ! i ! d) * ks ! j ! d * scale"
  using assms by (simp add: row_scores_def dot_update [of _ D] algebra_simps)

lemma scores_k:
  assumes "length (qs ! i) = D" "length (ks ! j) = D" "d < D" "j < length ks"
  shows "row_scores scale qs (ks[j := (ks ! j)[d := x]]) i j' = row_scores scale qs ks i j'
      + (x - ks ! j ! d) * (if j' = j then qs ! i ! d * scale else 0)"
  using assms by (auto simp: row_scores_def dot_commute [of "qs ! i"] dot_update [of _ D] algebra_simps)

lemma row_mean_derivative:
  assumes "finite V" "V \<noteq> {}" and lin: "\<And>x j. j \<in> V \<Longrightarrow> row_scores scale (qs' x) (ks' x) i j = row_scores scale qs ks i j + (x - a) * c j"
  shows "((\<lambda>x. row_mean scale V (qs' x) (ks' x) w i) has_real_derivative
    (\<Sum>j \<in> V. exp (row_scores scale qs ks i j) / (\<Sum>j \<in> V. exp (row_scores scale qs ks i j)) * (w j - row_mean scale V qs ks w i) * c j)) (at a)"
proof -
  let ?s = "\<lambda>j x. row_scores scale qs ks i j + (x - a) * c j"
  have "(?s j has_real_derivative c j) (at a)" for j by (auto intro!: derivative_eq_intros)
  from softmax_derivative [OF assms(1,2), of ?s c a w, OF this]
  have "((\<lambda>x. (\<Sum>j \<in> V. exp (?s j x) * w j) / (\<Sum>j \<in> V. exp (?s j x))) has_real_derivative
    (\<Sum>j \<in> V. exp (row_scores scale qs ks i j) / (\<Sum>j \<in> V. exp (row_scores scale qs ks i j)) * (w j - row_mean scale V qs ks w i) * c j)) (at a)"
    by (simp add: row_mean_def)
  moreover have "(\<lambda>x. row_mean scale V (qs' x) (ks' x) w i) = (\<lambda>x. (\<Sum>j \<in> V. exp (?s j x) * w j) / (\<Sum>j \<in> V. exp (?s j x)))"
    using lin by (simp add: row_mean_def)
  ultimately show ?thesis by simp
qed

lemma row_mean_derivative_v:
  assumes "finite V" and lin: "\<And>x j'. j' \<in> V \<Longrightarrow> w' x j' = w j' + (if j' = j then (x - a) * c else 0)"
  shows "((\<lambda>x. row_mean scale V qs ks (w' x) i) has_real_derivative
    (if j \<in> V then exp (row_scores scale qs ks i j) / (\<Sum>j \<in> V. exp (row_scores scale qs ks i j)) else 0) * c) (at a)"
proof -
  let ?Z = "\<Sum>j \<in> V. exp (row_scores scale qs ks i j)" and ?E = "if j \<in> V then exp (row_scores scale qs ks i j) else 0"
  have "(\<Sum>j' \<in> V. exp (row_scores scale qs ks i j') * w' x j') = (\<Sum>j' \<in> V. exp (row_scores scale qs ks i j') * w j') + ?E * ((x - a) * c)" for x
  proof -
    have "(\<Sum>j' \<in> V. exp (row_scores scale qs ks i j') * w' x j')
        = (\<Sum>j' \<in> V. exp (row_scores scale qs ks i j') * w j' + (if j' = j then exp (row_scores scale qs ks i j) * ((x - a) * c) else 0))"
      by (rule sum.cong) (auto simp: lin algebra_simps)
    then show ?thesis using assms(1) by (simp add: sum.distrib sum.delta)
  qed
  then have "(\<lambda>x. row_mean scale V qs ks (w' x) i) = (\<lambda>x. ((\<Sum>j' \<in> V. exp (row_scores scale qs ks i j') * w j') + ?E * ((x - a) * c)) / ?Z)"
    by (simp add: row_mean_def)
  moreover have "((\<lambda>x. ((\<Sum>j' \<in> V. exp (row_scores scale qs ks i j') * w j') + ?E * ((x - a) * c)) / ?Z) has_real_derivative (?E * c / ?Z)) (at a)"
    by (intro DERIV_cdivide) (auto intro!: derivative_eq_intros)
  moreover have "?E * c / ?Z = (if j \<in> V then exp (row_scores scale qs ks i j) / ?Z else 0) * c" by simp
  ultimately show ?thesis by simp
qed


text \<open>The loss row by row, and the gradients' entries from the values of \<open>bwd_values\<close>.\<close>

lemma attention_loss_rows:
  assumes "0 < BM" "0 < BN" and "\<And>i. i < length qs \<Longrightarrow> length (qs ! i) = D \<and> length (dos ! i) = D \<and> length (vs ! i) = D"
  shows "attention_loss scale causal BM BN dos qs ks vs
    = (\<Sum>i < length qs. row_mean scale (seen causal (length qs) i (length qs)) qs ks (\<lambda>j. dot (dos ! i) (vs ! j)) i)"
  unfolding attention_loss_def
  by (rule sum.cong [OF refl])
    (use assms forward_row(1) [OF assms(1,2), where qs = qs and D = D and vs = vs and ks = ks and dos = dos and causal = causal and scale = scale] in simp)

definition row_weight :: "real \<Rightarrow> nat set \<Rightarrow> real list list \<Rightarrow> real list list \<Rightarrow> nat \<Rightarrow> nat \<Rightarrow> real" where
  "row_weight scale V qs ks i j = exp (row_scores scale qs ks i j) / (\<Sum>j \<in> V. exp (row_scores scale qs ks i j))"

definition score_gradient :: "real \<Rightarrow> nat set \<Rightarrow> real list list \<Rightarrow> real list list \<Rightarrow> (nat \<Rightarrow> real) \<Rightarrow> nat \<Rightarrow> nat \<Rightarrow> real" where
  "score_gradient scale V qs ks w i j = row_weight scale V qs ks i j * (w j - row_mean scale V qs ks w i)"

lemma backward_entries:
  fixes qs ks vs dos :: "real list list" and causal :: bool
  assumes blocks: "0 < BM" "0 < BN"
    and shape: "length dos = length qs" "\<forall>i < length qs. length (qs ! i) = D \<and> length (dos ! i) = D \<and> length (vs ! i) = D"
    and fwd: "flash_forward_lse exp ln scale causal BM BN qs ks vs = (os, ls)"
    and order: "\<And>adds. mset (order adds) = mset adds"
    and bwd: "flash_attention_backward exp scale causal BM BN D order dos qs ks vs os ls = (dq, dk, dv)"
    and ix: "n < length qs" "d < D"
  defines "V \<equiv> \<lambda>i. seen causal (length qs) i (length qs)"
  defines "G \<equiv> \<lambda>i. score_gradient scale (V i) qs ks (\<lambda>j. dot (dos ! i) (vs ! j)) i"
  shows "dq ! n ! d = (\<Sum>j \<in> V n. G n j * (ks ! j ! d * scale))"
    and "dk ! n ! d = (\<Sum>i < length qs. \<Sum>j \<in> V i. G i j * (if j = n then qs ! i ! d * scale else 0))"
    and "dv ! n ! d = (\<Sum>i < length qs. (if n \<in> V i then row_weight scale (V i) qs ks i n else 0) * dos ! i ! d)"
proof -
  let ?N = "length qs" and ?b = "saved_inputs dos qs ks vs os ls"
  have b: "bi_q ?b = qs" "bi_k ?b = ks" "bi_do ?b = dos" by (simp_all add: saved_inputs_def)
  have V: "finite (V i)" "V i \<subseteq> {..<?N}" for i by (auto simp: V_def seen_def)
  have vals: "bwd_p exp scale causal ?N D ?b i j = (if j \<in> V i then row_weight scale (V i) qs ks i j else 0)"
    "bwd_ds exp scale causal ?N D ?b i j = (if j \<in> V i then G i j else 0)" if "i < ?N" for i j
    using bwd_values [OF blocks that _ _ shape(1) _ fwd, of D j] shape(2) that
    by (simp_all add: V_def G_def score_gradient_def row_weight_def)
  have out: "dq = dq_buffer ?N D (order (bwd_adds exp scale causal ?N D BM BN ?b))" "dk = bwd_dk exp scale causal ?N D BM BN ?b"
    "dv = bwd_dv exp scale causal ?N D BM BN ?b" using bwd by (simp_all add: flash_attention_backward_def Let_def)
  have "dq ! n ! d = (\<Sum>j < ?N. (if j \<in> V n then G n j * (ks ! j ! d * scale) else 0))"
    using ix blocks added_permuted [OF order] unfolding out
    by (simp add: dq_buffer_eq bwd_adds_eq b vals(2) sum_distrib_right) (rule sum.cong, auto)
  also have "\<dots> = (\<Sum>j \<in> V n. G n j * (ks ! j ! d * scale))"
    using V(2) [of n] by (intro sum.mono_neutral_cong_right) (auto split: if_splits)
  finally show "dq ! n ! d = (\<Sum>j \<in> V n. G n j * (ks ! j ! d * scale))" .
  have column: "(\<Sum>j \<in> V i. G i j * (if j = n then x else 0)) = (if n \<in> V i then G i n else 0) * x" for i x
    using V(1) [of i] by (simp add: sum.delta mult.commute if_distrib cong: if_cong)
  show "dk ! n ! d = (\<Sum>i < ?N. \<Sum>j \<in> V i. G i j * (if j = n then qs ! i ! d * scale else 0))"
    using ix blocks unfolding out column by (simp add: bwd_dk_eq b vals(2) sum_distrib_right mult.assoc)
  show "dv ! n ! d = (\<Sum>i < ?N. (if n \<in> V i then row_weight scale (V i) qs ks i n else 0) * dos ! i ! d)"
    using ix blocks unfolding out by (simp add: bwd_dv_eq b vals(1))
qed

text \<open>C8: The backward pass computes the gradient.  For every output gradient \<open>dO\<close>, whatever order the
  hardware runs the programs' atomic adds in and whatever the tile sizes, the \<open>dQ\<close>, \<open>dK\<close>
  and \<open>dV\<close> it returns hold, entry by entry, the derivative of the forward kernel's output
  weighted by \<open>dO\<close> with respect to that entry of the input, causal or not.\<close>

theorem flash_backward_is_gradient:
  fixes qs ks vs dos :: "real list list"
  assumes blocks: "0 < BM" "0 < BN"
    and shape: "length ks = length qs" "length vs = length qs" "length dos = length qs"
      "\<forall>r \<in> set qs \<union> set ks \<union> set vs \<union> set dos. length r = D"
    and fwd: "flash_forward_lse exp ln scale causal BM BN qs ks vs = (os, ls)"
    and order: "\<And>adds. mset (order adds) = mset adds"
    and bwd: "flash_attention_backward exp scale causal BM BN D order dos qs ks vs os ls = (dq, dk, dv)"
    and ix: "n < length qs" "d < D"
  shows "((\<lambda>x. attention_loss scale causal BM BN dos (qs[n := (qs ! n)[d := x]]) ks vs) has_real_derivative dq ! n ! d) (at (qs ! n ! d))
    \<and> ((\<lambda>x. attention_loss scale causal BM BN dos qs (ks[n := (ks ! n)[d := x]]) vs) has_real_derivative dk ! n ! d) (at (ks ! n ! d))
    \<and> ((\<lambda>x. attention_loss scale causal BM BN dos qs ks (vs[n := (vs ! n)[d := x]])) has_real_derivative dv ! n ! d) (at (vs ! n ! d))"
proof -
  let ?N = "length qs" and ?w = "\<lambda>vs i j. dot (dos ! i) (vs ! j)"
  let ?q = "\<lambda>x. qs[n := (qs ! n)[d := x]]" and ?k = "\<lambda>x. ks[n := (ks ! n)[d := x]]" and ?v = "\<lambda>x. vs[n := (vs ! n)[d := x]]"
  define V where "V i = seen causal ?N i ?N" for i
  have len: "length (qs ! i) = D" "length (ks ! i) = D" "length (vs ! i) = D" "length (dos ! i) = D" if "i < ?N" for i
    using shape that by auto
  have V: "finite (V i)" "V i \<noteq> {}" "V i \<subseteq> {..<?N}" if "i < ?N" for i using that by (auto simp: V_def seen_def)
  note loss = attention_loss_rows [OF blocks, where D = D and dos = dos and causal = causal and scale = scale]
  have rows: "\<forall>i < ?N. length (qs ! i) = D \<and> length (dos ! i) = D \<and> length (vs ! i) = D" using len by simp
  note entries = backward_entries [OF blocks shape(3) rows fwd order bwd ix, folded V_def, unfolded score_gradient_def row_weight_def]
  have dq: "((\<lambda>x. row_mean scale (V i) (?q x) ks (?w vs i) i) has_real_derivative (if i = n then dq ! n ! d else 0)) (at (qs ! n ! d))"
    if i: "i < ?N" for i
  proof (cases "i = n")
    case True
    have "((\<lambda>x. row_mean scale (V n) (?q x) ks (?w vs n) n) has_real_derivative dq ! n ! d) (at (qs ! n ! d))"
      unfolding entries(1) using V(3) [OF ix(1)] len ix by (intro row_mean_derivative V) (auto simp: scores_q [where D = D])
    then show ?thesis using True by simp
  next
    case False
    then show ?thesis by (simp add: row_mean_def row_scores_def)
  qed
  have "((\<lambda>x. \<Sum>i < ?N. row_mean scale (V i) (?q x) ks (?w vs i) i) has_real_derivative (\<Sum>i < ?N. if i = n then dq ! n ! d else 0)) (at (qs ! n ! d))"
    by (rule DERIV_sum) (simp add: dq)
  moreover have "((\<lambda>x. \<Sum>i < ?N. row_mean scale (V i) qs (?k x) (?w vs i) i) has_real_derivative dk ! n ! d) (at (ks ! n ! d))"
    unfolding entries(2) using len ix shape(1) by (intro DERIV_sum row_mean_derivative V) (auto simp: scores_k [where D = D])
  moreover have "((\<lambda>x. \<Sum>i < ?N. row_mean scale (V i) qs ks (?w (?v x) i) i) has_real_derivative dv ! n ! d) (at (vs ! n ! d))"
    unfolding entries(3)
  proof (intro DERIV_sum row_mean_derivative_v V(1))
    fix i x j' assume "i \<in> {..<?N}" "j' \<in> V i"
    then show "?w (?v x) i j' = ?w vs i j' + (if j' = n then (x - vs ! n ! d) * dos ! i ! d else 0)"
      using len ix shape(2) V(3) [of i] by (auto simp: dot_commute [of "dos ! i"] dot_update [of _ D])
  qed auto
  moreover have "attention_loss scale causal BM BN dos (?q x) ks vs = (\<Sum>i < ?N. row_mean scale (V i) (?q x) ks (?w vs i) i)"
    "attention_loss scale causal BM BN dos qs (?k x) vs = (\<Sum>i < ?N. row_mean scale (V i) qs (?k x) (?w vs i) i)"
    "attention_loss scale causal BM BN dos qs ks (?v x) = (\<Sum>i < ?N. row_mean scale (V i) qs ks (?w (?v x) i) i)" for x
    using ix len shape(2) by ((subst loss, force simp: nth_list_update, simp add: V_def)+)
  ultimately show ?thesis using ix(1) by simp
qed

theorem flash_backward_is_gradient_witness:
  "\<exists>os ls dq dk dv. flash_forward_lse exp ln 1 True 1 2 [[1], [2]] [[2], [1]] [[3], [5::real]] = (os, ls)
    \<and> flash_attention_backward exp 1 True 1 2 1 rev [[1], [2]] [[1], [2]] [[2], [1]] [[3], [5]] os ls = (dq, dk, dv)
    \<and> ((\<lambda>x. attention_loss 1 True 1 2 [[1], [2]] [[1], [x]] [[2], [1]] [[3], [5]]) has_real_derivative dq ! 1 ! 0) (at 2)"
proof -
  obtain os ls where f: "flash_forward_lse exp ln 1 True 1 2 [[1], [2]] [[2], [1]] [[3], [5::real]] = (os, ls)" by fastforce
  obtain dq dk dv where b: "flash_attention_backward exp 1 True 1 2 1 rev [[1], [2]] [[1], [2]] [[2], [1]] [[3], [5]] os ls = (dq, dk, dv)"
    using prod_cases3 by blast
  have "((\<lambda>x. attention_loss 1 True 1 2 [[1], [2]] ([[1], [2]][1 := ([[1], [2]] ! 1)[0 := x]]) [[2], [1]] [[3], [5]])
      has_real_derivative dq ! 1 ! 0) (at ([[1], [2]] ! 1 ! 0))"
    by (rule flash_backward_is_gradient [OF _ _ _ _ _ _ f _ b, THEN conjunct1]) simp_all
  then show ?thesis using f b by simp
qed

end
