(* ===== verification/Py_Round.thy ===== *)
theory Py_Round
  imports Complex_Main
begin

text \<open>
  Python's rounding of a float to a number of decimals, on exact rational values.
\<close>

text \<open>Python's \<open>round(x, n)\<close> on an exact value: half to even.\<close>

definition round_half_even :: "rat \<Rightarrow> int" where
  "round_half_even x =
     (let f = \<lfloor>x\<rfloor>; r = x - of_int f in
      if r < 1 / 2 then f else if 1 / 2 < r then f + 1 else if even f then f else f + 1)"

definition py_round :: "rat \<Rightarrow> nat \<Rightarrow> rat" where
  "py_round x n = of_int (round_half_even (x * 10 ^ n)) / 10 ^ n"

end
