(* ===== verification/Deploy.thy ===== *)
theory Deploy
  imports Prelude Py_Round "HOL-Library.List_Lexorder" "HOL-Library.Char_ord"
begin

text \<open>
  Replacing the served finance adapter: the quality gate (\<^verbatim>\<open>training/qlora_financial/promote.py\<close>,
  the checker of \<^verbatim>\<open>sample_eval.py\<close>, \<^verbatim>\<open>mlops/retrain.py\<close>), the watch after a deploy, and the
  last tasks of the retraining pipeline (\<^verbatim>\<open>mlops/dags/drift_retrain.py\<close>), which move the
  pointer to the current model and may be retried.

  Scores and times are rationals: the code's floats round, here nothing does but \<open>round\<close>.  The
  reading of a number out of an answer (regular expressions) and the calculator are parameters;
  vLLM and the registry are the state the tasks change.
\<close>

subsection \<open>Numbers\<close>

definition isclose :: "rat \<Rightarrow> rat \<Rightarrow> rat \<Rightarrow> rat \<Rightarrow> bool" where
  "isclose a b rel abs_tol \<longleftrightarrow> \<bar>a - b\<bar> \<le> max (rel * max \<bar>a\<bar> \<bar>b\<bar>) abs_tol"

subsection \<open>The checker\<close>

datatype checker = Official | Years | Scale | Fair

fun checker_level :: "checker \<Rightarrow> nat" where
  "checker_level Official = 0" | "checker_level Years = 1" | "checker_level Scale = 2" | "checker_level Fair = 3"

definition numbers_match :: "rat option \<Rightarrow> rat option \<Rightarrow> bool" where
  "numbers_match p g = (case (p, g) of
      (Some p, Some g) \<Rightarrow> list_ex (\<lambda>x. isclose x g (1 / 100) (1 / 10 ^ 6)) [p, p * 100, p / 100]
    | _ \<Rightarrow> False)"

text \<open>What is read out of an answer: the number without its scale word, the scale, the decimal places.\<close>

type_synonym parts = "rat \<times> rat \<times> int"

definition match_variant :: "(string \<Rightarrow> rat option) \<Rightarrow> (string \<Rightarrow> parts option) \<Rightarrow> string \<Rightarrow> string \<Rightarrow> checker \<Rightarrow> bool" where
  "match_variant parse_number parts pred_text gold_text variant =
     (if variant = Official then numbers_match (parse_number pred_text) (parse_number gold_text)
      else case (parts pred_text, parts gold_text) of
        (Some (pv, ps, pd), Some (gv, gs, gd)) \<Rightarrow>
          if gs = 1 \<and> of_int \<lfloor>gv\<rfloor> = gv \<and> 1900 \<le> gv \<and> gv \<le> 2100 then pv * ps = gv
          else
            let pairs = [(pv * ps, gv * gs)] @ (if 2 \<le> checker_level variant \<and> (ps = 1) \<noteq> (gs = 1) then [(pv, gv)] else []);
                scaled = concat (map (\<lambda>(p, g). [(p, g, 1, 0), (p, g, 100, 2), (p, g, 1 / 100, - 2)]) pairs)
            in if checker_level variant < 3 then list_ex (\<lambda>(p, g, f, _). isclose (p * f) g (1 / 100) (1 / 10 ^ 6)) scaled
               else list_ex (\<lambda>(p, g, f, shift). isclose (p * f) g (1 / 1000) (1 / 10 ^ 6)
                 \<or> (let d = max (gd + shift) 0 in d \<le> pd \<and> py_round p (nat d) = py_round (g / f) (nat d))) scaled
      | _ \<Rightarrow> False)"

record answer_row =
  ar_id :: nat
  ar_source :: string
  ar_gold :: string
  ar_greedy :: string

text \<open>\<open>greedy_ok\<close> after \<open>rescore(with_calculator(rows), "fair")\<close>.\<close>

definition greedy_ok :: "(string \<Rightarrow> parts option) \<Rightarrow> (string \<Rightarrow> string) \<Rightarrow> answer_row \<Rightarrow> bool" where
  "greedy_ok parts calc r = match_variant (\<lambda>_. None) parts (calc (ar_greedy r)) (ar_gold r) Fair"

subsection \<open>The gate\<close>

definition sign_test :: "nat \<Rightarrow> nat \<Rightarrow> rat" where
  "sign_test only_a only_b =
     (let n = only_a + only_b; k = min only_a only_b in
      if n = 0 then 1 else min 1 (2 * of_nat (sum_list (map (\<lambda>i. n choose i) [0..<k + 1])) / 2 ^ n))"

definition share :: "('b \<Rightarrow> bool) \<Rightarrow> 'b list \<Rightarrow> rat" where
  "share ok rows = of_nat (length (filter ok rows)) / of_nat (length rows)"

text \<open>\<open>scores\<close>: the share right overall (no rows: a division by zero) and per source, sources sorted.\<close>

definition scores :: "(answer_row \<Rightarrow> bool) \<Rightarrow> answer_row list \<Rightarrow> (rat \<times> (string \<times> rat) list) or_raise" where
  "scores ok rows =
     (if rows = [] then Inl ZeroDivisionError
      else Inr (share ok rows,
        map (\<lambda>src. (src, share ok (filter (\<lambda>r. ar_source r = src) rows))) (sort (remdups (map ar_source rows)))))"

datatype reason = Not_more nat nat | Luck nat nat rat | Drops string rat

record decision =
  dc_reasons :: "reason list"
  dc_only_candidate :: nat
  dc_only_champion :: nat
  dc_p :: rat

definition passed :: "decision \<Rightarrow> bool" where
  "passed d \<longleftrightarrow> dc_reasons d = []"

definition decide :: "(answer_row \<Rightarrow> bool) \<Rightarrow> rat \<Rightarrow> rat \<Rightarrow> answer_row list \<Rightarrow> answer_row list \<Rightarrow> decision or_raise" where
  "decide ok alpha max_drop candidate_rows champion_rows =
     (let graded = (\<lambda>rows. map_of (rev (map (\<lambda>r. (ar_id r, ok r)) rows)));
          cand = graded candidate_rows; champ = graded champion_rows;
          ids = map ar_id candidate_rows
      in if \<not> distinct ids \<or> \<not> distinct (map ar_id champion_rows) then Inl ValueError
         else if set ids \<noteq> ar_id ` set champion_rows then Inl ValueError
         else
           let wins = length (filter (\<lambda>i. cand i = Some True \<and> champ i \<noteq> Some True) ids);
               losses = length (filter (\<lambda>i. champ i = Some True \<and> cand i \<noteq> Some True) ids);
               p = sign_test wins losses
           in bindE (scores ok candidate_rows) (\<lambda>(_, s_cand). bindE (scores ok champion_rows) (\<lambda>(_, s_champ).
                Inr \<lparr>dc_reasons =
                       (if wins \<le> losses then [Not_more wins losses] else if alpha \<le> p then [Luck wins losses p] else [])
                       @ concat (map (\<lambda>(src, a).
                           let drop = py_round (a - (case map_of s_cand src of None \<Rightarrow> 0 | Some b \<Rightarrow> b)) 9
                           in if src \<noteq> ''n'' \<and> src \<noteq> ''ALL'' \<and> max_drop < drop then [Drops src drop] else []) s_champ),
                     dc_only_candidate = wins, dc_only_champion = losses, dc_p = p\<rparr>)))"

text \<open>The gate: the champion's saved answers to the candidate's questions only.\<close>

definition gate :: "(answer_row \<Rightarrow> bool) \<Rightarrow> rat \<Rightarrow> rat \<Rightarrow> answer_row list \<Rightarrow> answer_row list \<Rightarrow> decision or_raise" where
  "gate ok alpha max_drop candidate_rows champion_rows =
     (let saved = map_of (rev (map (\<lambda>r. (ar_id r, r)) champion_rows))
      in if list_ex (\<lambda>r. saved (ar_id r) = None) candidate_rows then Inl ValueError
         else if list_ex (\<lambda>r. map_option ar_gold (saved (ar_id r)) \<noteq> Some (ar_gold r)) candidate_rows then Inl ValueError
         else decide ok alpha max_drop candidate_rows (List.map_filter (\<lambda>r. saved (ar_id r)) candidate_rows))"

subsection \<open>The watch\<close>

datatype verdict = Wait | Pass | Rollback

definition watch_verdict :: "(rat \<times> rat) list \<Rightarrow> rat \<Rightarrow> rat \<Rightarrow> rat option \<Rightarrow> rat \<Rightarrow> rat \<Rightarrow> rat \<Rightarrow> rat \<Rightarrow> nat \<Rightarrow> verdict" where
  "watch_verdict rounds expected started switched_at now window stale_after margin min_rounds =
     (let low = map (\<lambda>(_, acc). margin < py_round (expected - acc) 9) rounds;
          since = (if rounds \<noteq> [] then fst (last rounds)
                   else case switched_at of None \<Rightarrow> started | Some s \<Rightarrow> max started s)
      in if list_ex (\<lambda>i. low ! (i - 1) \<and> low ! i) [1..<length rounds] then Rollback
         else if stale_after < now - since then Rollback
         else if window \<le> now - started then (if length rounds < min_rounds then Rollback else Pass)
         else Wait)"

record canary_reading =
  cr_switched_at :: "rat option"
  cr_accuracy :: "rat option"
  cr_expected :: "rat option"
  cr_last_run :: "rat option"

definition add_round :: "(rat \<times> rat) list \<Rightarrow> canary_reading \<Rightarrow> (rat \<times> rat) list" where
  "add_round rounds r =
     (case (cr_switched_at r, cr_accuracy r, cr_last_run r) of
        (Some s, Some a, Some l) \<Rightarrow> if s < l \<and> (rounds = [] \<or> fst (last rounds) < l) then rounds @ [(l, a)] else rounds
      | _ \<Rightarrow> rounds)"

text \<open>The watch task, given the readings of its polls with their times; \<open>None\<close> when it still waits after them.\<close>

fun watch :: "rat \<Rightarrow> rat \<Rightarrow> rat \<Rightarrow> (rat \<times> rat) list \<Rightarrow> (canary_reading \<times> rat) list \<Rightarrow> (verdict \<times> (rat \<times> rat) list) option" where
  "watch started window stale_after rounds [] = None"
| "watch started window stale_after rounds ((r, now) # polls) =
     (let rounds' = add_round rounds r;
          v = watch_verdict rounds' (case cr_expected r of None \<Rightarrow> 0 | Some e \<Rightarrow> e) started (cr_switched_at r) now window stale_after (1 / 10) 2
      in if v \<noteq> Wait then Some (v, rounds') else watch started window stale_after rounds' polls)"

subsection \<open>The current-model pointer and the pipeline's last tasks\<close>

text \<open>The pointer file: a model, its saved answers, and the model before it.\<close>

type_synonym served_model = "string \<times> string"

record pointer =
  pt_current :: served_model
  pt_previous :: "served_model option"

definition read_current :: "pointer option \<Rightarrow> served_model \<Rightarrow> pointer" where
  "read_current file champion = (case file of None \<Rightarrow> \<lparr>pt_current = champion, pt_previous = None\<rparr> | Some p \<Rightarrow> p)"

definition set_current :: "served_model \<Rightarrow> served_model \<Rightarrow> pointer option \<Rightarrow> pointer option" where
  "set_current new champion file = Some \<lparr>pt_current = new, pt_previous = Some (pt_current (read_current file champion))\<rparr>"

text \<open>What the tasks change: the pointer, the adapters vLLM has loaded, the registry's versions (with
  whether one was rejected after its deploy) and champion, the alerts sent.\<close>

record pipeline =
  pl_pointer :: "pointer option"
  pl_loaded :: "string set"
  pl_versions :: "(string \<times> bool) list"
  pl_champion :: served_model
  pl_approved :: "string set"
  pl_alerts :: nat

abbreviation current_model :: "pipeline \<Rightarrow> served_model" where
  "current_model pl \<equiv> pt_current (read_current (pl_pointer pl) (pl_champion pl))"

text \<open>A task as the list of its changes; a try that is cut off has made the first few.\<close>

type_synonym task = "(pipeline \<Rightarrow> pipeline or_raise) list"

definition attempt :: "task \<Rightarrow> nat \<Rightarrow> pipeline \<Rightarrow> pipeline or_raise" where
  "attempt task k pl = foldE (\<lambda>step. step) (take k task) pl"

definition deploy_task :: "served_model \<Rightarrow> task" where
  "deploy_task new =
     [\<lambda>pl. if fst new \<notin> pl_loaded pl then Inl RuntimeError
           else Inr (pl\<lparr>pl_pointer := set_current new (pl_champion pl) (pl_pointer pl)\<rparr>),
      \<lambda>pl. Inr (pl\<lparr>pl_approved := insert (fst new) (pl_approved pl)\<rparr>)]"

text \<open>\<open>register_once\<close>: a version that is already there is kept; then the champion label, if asked.\<close>

definition register_version :: "string \<Rightarrow> bool \<Rightarrow> pipeline \<Rightarrow> pipeline or_raise" where
  "register_version name rejected pl =
     Inr (if name \<in> fst ` set (pl_versions pl) then pl else pl\<lparr>pl_versions := pl_versions pl @ [(name, rejected)]\<rparr>)"

definition register_champion_task :: "served_model \<Rightarrow> task" where
  "register_champion_task new =
     [register_version (fst new) False,
      \<lambda>pl. Inr (pl\<lparr>pl_champion := new\<rparr>),
      \<lambda>pl. case pl_pointer pl of
          None \<Rightarrow> Inl KeyError
        | Some p \<Rightarrow> (case pt_previous p of
            None \<Rightarrow> Inl KeyError
          | Some (m, _) \<Rightarrow> Inr (if m \<noteq> fst new \<and> m \<in> pl_loaded pl then pl\<lparr>pl_loaded := pl_loaded pl - {m}\<rparr> else pl))]"

definition rollback_task :: "string \<Rightarrow> task" where
  "rollback_task name =
     [\<lambda>pl. let current = read_current (pl_pointer pl) (pl_champion pl) in
           if fst (pt_current current) = name
           then (case pt_previous current of
                   None \<Rightarrow> Inl KeyError
                 | Some m \<Rightarrow> Inr (pl\<lparr>pl_pointer := set_current m (pl_champion pl) (pl_pointer pl)\<rparr>))
           else Inr pl,
      \<lambda>pl. Inr (if name \<in> pl_loaded pl then pl\<lparr>pl_loaded := pl_loaded pl - {name}\<rparr> else pl),
      register_version name True,
      \<lambda>pl. Inr (pl\<lparr>pl_alerts := pl_alerts pl + 1\<rparr>)]"

subsection \<open>The sign test is exact\<close>

definition lopsided :: "nat \<Rightarrow> nat \<Rightarrow> nat set set" where
  "lopsided n k = {A \<in> Pow {..<n}. min (card A) (n - card A) \<le> k}"

lemma card_small_sets: "card {A \<in> Pow {..<n}. card A \<le> k} = (\<Sum>i \<le> k. n choose i)"
proof -
  have "{A \<in> Pow {..<n}. card A \<le> k} = (\<Union>i \<in> {..k}. {A. A \<subseteq> {..<n} \<and> card A = i})" by auto
  also have "card \<dots> = (\<Sum>i \<le> k. card {A. A \<subseteq> {..<n} \<and> card A = i})" by (rule card_UN_disjoint) auto
  also have "\<dots> = (\<Sum>i \<le> k. n choose i)" by (simp add: n_subsets)
  finally show ?thesis .
qed

lemma card_large_sets: "card {A \<in> Pow {..<n}. n - card A \<le> k} = (\<Sum>i \<le> k. n choose i)"
proof -
  have c: "A \<subseteq> {..<n} \<Longrightarrow> card ({..<n} - A) = n - card A" for A by (simp add: card_Diff_subset finite_subset)
  have le: "A \<subseteq> {..<n} \<Longrightarrow> card A \<le> n" for A using card_mono [of "{..<n}" A] by simp
  have "bij_betw (\<lambda>A. {..<n} - A) {A \<in> Pow {..<n}. card A \<le> k} {A \<in> Pow {..<n}. n - card A \<le> k}"
    by (rule bij_betw_byWitness [where f' = "\<lambda>A. {..<n} - A"]) (auto simp: c double_diff le)
  then show ?thesis using card_small_sets [of n k] by (simp add: bij_betw_same_card)
qed

lemma sign_test_exact: "sign_test a b = of_nat (card (lopsided (a + b) (min a b))) / 2 ^ (a + b)"
proof -
  let ?n = "a + b" and ?k = "min a b"
  let ?L = "{A \<in> Pow {..<?n}. card A \<le> ?k}" and ?U = "{A \<in> Pow {..<?n}. ?n - card A \<le> ?k}"
  let ?C = "\<Sum>i \<le> ?k. ?n choose i"
  have un: "lopsided ?n ?k = ?L \<union> ?U" by (auto simp: lopsided_def min_le_iff_disj)
  have cards: "card ?L = ?C" "card ?U = ?C" by (rule card_small_sets, rule card_large_sets)
  have all: "card (lopsided ?n ?k) \<le> 2 ^ ?n"
    using card_mono [of "Pow {..<?n}" "lopsided ?n ?k"] by (simp add: lopsided_def card_Pow subset_iff)
  have le: "card (lopsided ?n ?k) \<le> 2 * ?C"
    unfolding un using card_Un_le [of ?L ?U] unfolding cards by linarith
  have min: "min (2 ^ ?n) (2 * ?C) = card (lopsided ?n ?k)"
  proof (cases "2 * ?k = ?n")
    case True
    have "lopsided ?n ?k = Pow {..<?n}" using True by (auto simp: lopsided_def)
    then have "card (lopsided ?n ?k) = 2 ^ ?n" by (simp add: card_Pow)
    with le show ?thesis by simp
  next
    case False
    then have lt: "2 * ?k < ?n" by linarith
    have "?L \<inter> ?U = {}" using lt by auto
    then have "card (lopsided ?n ?k) = 2 * ?C"
      unfolding un by (subst card_Un_disjoint) (simp_all only: cards mult_2, simp_all)
    with all show ?thesis by simp
  qed
  have "sum_list (map (\<lambda>i. ?n choose i) [0..<?k + 1]) = ?C"
    by (simp only: sum_list_distinct_conv_sum_set [OF distinct_upt] set_upt atLeast0LessThan Suc_eq_plus1 [symmetric] lessThan_Suc_atMost)
  then have "sign_test a b = (if ?n = 0 then 1 else Orderings.min 1 (2 * of_nat ?C / 2 ^ ?n))"
    unfolding sign_test_def Let_def by simp
  also have "\<dots> = of_nat (Orderings.min (2 ^ ?n) (2 * ?C)) / 2 ^ ?n"
  proof (cases "?n = 0")
    case True
    then show ?thesis by simp
  next
    case False
    have m: "(of_nat (Orderings.min x y) :: rat) = Orderings.min (of_nat x) (of_nat y)" for x y by (simp add: min_def)
    have "(of_nat (Orderings.min (2 ^ ?n) (2 * ?C)) :: rat) = Orderings.min (2 ^ ?n) (2 * of_nat ?C)"
      unfolding m by (simp only: of_nat_mult of_nat_power of_nat_numeral)
    then show ?thesis using False by (simp only: if_False) (simp add: min_def field_simps)
  qed
  finally show ?thesis using min by simp
qed

subsection \<open>What a passed gate means\<close>

lemma length_filter_eq: "map P xs = map Q ys \<Longrightarrow> length (filter P xs) = length (filter Q ys)"
proof (induction xs arbitrary: ys)
  case (Cons x xs)
  then show ?case by (cases ys) auto
qed simp

lemma map_of_rev_rows:
  assumes "distinct (map f rows)" "r \<in> set rows"
  shows "map_of (rev (map (\<lambda>r. (f r, g r)) rows)) (f r) = Some (g r)"
proof -
  have "distinct (map fst (rev (map (\<lambda>r. (f r, g r)) rows)))" using assms(1) by (simp add: rev_map [symmetric] comp_def)
  then show ?thesis using assms(2) by (intro map_of_is_SomeI) auto
qed

lemma decide_passed:
  assumes "decide ok alpha max_drop cand champ = Inr d" and "passed d" and "map ar_id champ = map ar_id cand"
  defines "w \<equiv> length (filter (\<lambda>(r, s). ok r \<and> \<not> ok s) (zip cand champ))"
    and "l \<equiv> length (filter (\<lambda>(r, s). ok s \<and> \<not> ok r) (zip cand champ))"
  shows "dc_only_candidate d = w" "dc_only_champion d = l" "l < w" "sign_test w l < alpha"
    and "\<forall>src \<in> ar_source ` set champ - {''n'', ''ALL''}.
      py_round (share ok (filter (\<lambda>r. ar_source r = src) champ) - share ok (filter (\<lambda>r. ar_source r = src) cand)) 9 \<le> max_drop"
proof -
  let ?g = "\<lambda>rows. map_of (rev (map (\<lambda>r. (ar_id r, ok r)) rows))"
  let ?w = "length (filter (\<lambda>i. ?g cand i = Some True \<and> ?g champ i \<noteq> Some True) (map ar_id cand))"
  let ?l = "length (filter (\<lambda>i. ?g champ i = Some True \<and> ?g cand i \<noteq> Some True) (map ar_id cand))"
  have ids: "distinct (map ar_id cand)" using assms(1) by (auto simp: decide_def Let_def split: if_splits)
  have len: "length champ = length cand" using assms(3) by (metis length_map)
  have pick: "?g cand (ar_id (cand ! n)) = Some (ok (cand ! n))" "?g champ (ar_id (cand ! n)) = Some (ok (champ ! n))" if "n < length cand" for n
  proof -
    show "?g cand (ar_id (cand ! n)) = Some (ok (cand ! n))" using that by (intro map_of_rev_rows [OF ids]) simp
    have "ar_id (cand ! n) = ar_id (champ ! n)" using that len assms(3) by (metis nth_map)
    then show "?g champ (ar_id (cand ! n)) = Some (ok (champ ! n))"
      using that len ids assms(3) map_of_rev_rows [of ar_id champ "champ ! n" ok] by simp
  qed
  have cnt: "length (filter P (map ar_id cand)) = length (filter Q (zip cand champ))"
    if "\<And>n. n < length cand \<Longrightarrow> P (ar_id (cand ! n)) = Q (cand ! n, champ ! n)" for P Q
  proof -
    have "map P (map ar_id cand) = map Q (zip cand champ)" using that len by (intro nth_equalityI) simp_all
    then show ?thesis by (rule length_filter_eq)
  qed
  have wl: "?w = w" "?l = l" unfolding w_def l_def by (intro cnt; use pick in auto)+
  obtain sc all_c sh all_h where sc: "scores ok cand = Inr (all_c, sc)" "scores ok champ = Inr (all_h, sh)"
    using assms(1) by (auto simp: decide_def Let_def bindE_Inr_iff split: if_splits)
  have d: "d = \<lparr>dc_reasons =
       (if w \<le> l then [Not_more w l] else if alpha \<le> sign_test w l then [Luck w l (sign_test w l)] else [])
       @ concat (map (\<lambda>(src, a).
           let drop = py_round (a - (case map_of sc src of None \<Rightarrow> 0 | Some b \<Rightarrow> b)) 9
           in if src \<noteq> ''n'' \<and> src \<noteq> ''ALL'' \<and> max_drop < drop then [Drops src drop] else []) sh),
     dc_only_candidate = w, dc_only_champion = l, dc_p = sign_test w l\<rparr>"
    using assms(1) unfolding decide_def Let_def unfolding wl by (simp add: sc split: if_splits)
  show "dc_only_candidate d = w" "dc_only_champion d = l" by (simp_all add: d)
  from assms(2) have none: "dc_reasons d = []" by (simp add: passed_def)
  then show "l < w" "sign_test w l < alpha" by (auto simp: d split: if_splits)
  show "\<forall>src \<in> ar_source ` set champ - {''n'', ''ALL''}.
      py_round (share ok (filter (\<lambda>r. ar_source r = src) champ) - share ok (filter (\<lambda>r. ar_source r = src) cand)) 9 \<le> max_drop"
  proof
    fix src assume src: "src \<in> ar_source ` set champ - {''n'', ''ALL''}"
    let ?f = "\<lambda>rows. filter (\<lambda>r. ar_source r = src) rows"
    have by_source: "(src, share ok (?f champ)) \<in> set sh" using sc(2) src by (auto simp: scores_def split: if_splits)
    have "(case map_of sc src of None \<Rightarrow> 0 | Some b \<Rightarrow> b) = share ok (?f cand)"
    proof (cases "src \<in> ar_source ` set cand")
      case True
      then have "map_of sc src = Some (share ok (?f cand))" using sc(1) by (auto simp: scores_def map_of_map_restrict split: if_splits)
      then show ?thesis by simp
    next
      case False
      then have "map_of sc src = None" "?f cand = []" using sc(1) by (auto simp: scores_def map_of_map_restrict filter_empty_conv split: if_splits)
      then show ?thesis by (simp add: share_def)
    qed
    with by_source none src show "py_round (share ok (?f champ) - share ok (?f cand)) 9 \<le> max_drop"
      by (force simp: d Let_def split: if_splits)
  qed
qed


lemma map_filter_all: "(\<And>x. x \<in> set xs \<Longrightarrow> \<exists>y. f x = Some y) \<Longrightarrow> List.map_filter f xs = map (\<lambda>x. the (f x)) xs"
proof (induction xs)
  case (Cons x xs)
  from Cons.prems [of x] obtain y where "f x = Some y" by auto
  with Cons show ?case by (simp add: map_filter_simps)
qed (simp add: map_filter_simps)

text \<open>C30: A passed gate is earned.  The champion's saved answers it compared with are to the very same
  questions (same id, same right answer); on those the candidate has more right answers than the
  champion; among all outcomes of as many fair coin flips as the two models disagree on, the share
  of outcomes at least as lopsided is below \<open>alpha\<close>; and no source's accuracy dropped by more
  than \<open>max_drop\<close> (to nine decimals).\<close>

theorem gate_passes_on_merit:
  assumes "gate ok alpha max_drop cand champ = Inr d" and "passed d"
  shows "\<exists>saved. list_all2 (\<lambda>r s. s \<in> set champ \<and> ar_id s = ar_id r \<and> ar_gold s = ar_gold r) cand saved
    \<and> length (filter ok saved) < length (filter ok cand)
    \<and> dc_only_candidate d = length (filter (\<lambda>(r, s). ok r \<and> \<not> ok s) (zip cand saved))
    \<and> dc_only_champion d = length (filter (\<lambda>(r, s). ok s \<and> \<not> ok r) (zip cand saved))
    \<and> of_nat (card (lopsided (dc_only_candidate d + dc_only_champion d) (min (dc_only_candidate d) (dc_only_champion d))))
        / 2 ^ (dc_only_candidate d + dc_only_champion d) < alpha
    \<and> (\<forall>src \<in> ar_source ` set saved - {''n'', ''ALL''}.
         py_round (share ok (filter (\<lambda>r. ar_source r = src) saved) - share ok (filter (\<lambda>r. ar_source r = src) cand)) 9 \<le> max_drop)"
proof -
  let ?s = "map_of (rev (map (\<lambda>r. (ar_id r, r)) champ))"
  let ?saved = "map (\<lambda>r. the (?s (ar_id r))) cand"
  have found: "\<exists>t. ?s (ar_id r) = Some t \<and> ar_gold t = ar_gold r" if "r \<in> set cand" for r
    using assms(1) that by (auto simp: gate_def Let_def list_ex_iff split: if_splits)
  have row: "t \<in> set champ \<and> ar_id t = i" if "?s i = Some t" for i t using map_of_SomeD [OF that] by auto
  have hit: "the (?s (ar_id r)) \<in> set champ \<and> ar_id (the (?s (ar_id r))) = ar_id r \<and> ar_gold (the (?s (ar_id r))) = ar_gold r"
    if "r \<in> set cand" for r
  proof -
    from found [OF that] obtain t where "?s (ar_id r) = Some t" "ar_gold t = ar_gold r" by blast
    with row [OF this(1)] show ?thesis by simp
  qed
  have saved: "list_all2 (\<lambda>r s. s \<in> set champ \<and> ar_id s = ar_id r \<and> ar_gold s = ar_gold r) cand ?saved"
    unfolding list_all2_map2 by (rule list.rel_refl_strong) (rule hit)
  have "List.map_filter (\<lambda>r. ?s (ar_id r)) cand = ?saved"
    using found by (intro map_filter_all) blast
  then have dec: "decide ok alpha max_drop cand ?saved = Inr d"
    using assms(1) by (auto simp: gate_def Let_def split: if_splits)
  have ids: "map ar_id ?saved = map ar_id cand"
    unfolding map_map comp_def by (rule map_cong [OF refl]) (use hit in blast)
  note D = decide_passed [OF dec assms(2) ids]
  have more: "length (filter ok saved) + length (filter (\<lambda>(r, s). ok r \<and> \<not> ok s) (zip xs saved))
      = length (filter ok xs) + length (filter (\<lambda>(r, s). ok s \<and> \<not> ok r) (zip xs saved))" if "length xs = length saved" for xs saved
    using that by (induction xs saved rule: list_induct2) auto
  from more [of cand ?saved] D(3) have "length (filter ok ?saved) < length (filter ok cand)" by simp
  then show ?thesis using saved D by (intro exI [of _ ?saved]) (simp add: sign_test_exact)
qed

definition gate_rows :: "nat \<Rightarrow> answer_row list" where
  "gate_rows right = map (\<lambda>i. \<lparr>ar_id = i, ar_source = ''FinQA'', ar_gold = ''1'', ar_greedy = (if i < right then ''1'' else ''2'')\<rparr>) [0..<7]"

lemma gate_rows_pass:
  "(case gate (\<lambda>r. ar_greedy r = ar_gold r) (1 / 20) (1 / 50) (gate_rows 7) (gate_rows 1) of Inl _ \<Rightarrow> False
    | Inr d \<Rightarrow> passed d \<and> dc_only_candidate d = 6)"
  by code_simp

theorem gate_passes_on_merit_witness:
  "\<exists>d. gate (\<lambda>r. ar_greedy r = ar_gold r) (1 / 20) (1 / 50) (gate_rows 7) (gate_rows 1) = Inr d \<and> passed d
    \<and> (of_nat (card (lopsided (6 + dc_only_champion d) (min 6 (dc_only_champion d)))) / 2 ^ (6 + dc_only_champion d) :: rat) < 1 / 20"
proof -
  obtain d where d: "gate (\<lambda>r. ar_greedy r = ar_gold r) (1 / 20) (1 / 50) (gate_rows 7) (gate_rows 1) = Inr d" "passed d" "dc_only_candidate d = 6"
    using gate_rows_pass by (cases "gate (\<lambda>r. ar_greedy r = ar_gold r) (1 / 20) (1 / 50) (gate_rows 7) (gate_rows 1)") auto
  from gate_passes_on_merit [OF d(1,2)] d show ?thesis by auto
qed

subsection \<open>What a passed watch means\<close>

lemma watch_verdict_pass:
  assumes "watch_verdict rounds expected started switched_at now window stale margin m = Pass"
  shows "m \<le> length rounds" "window \<le> now - started" "rounds \<noteq> [] \<Longrightarrow> now - fst (last rounds) \<le> stale"
    and "\<And>i. Suc i < length rounds \<Longrightarrow> \<not> (margin < py_round (expected - snd (rounds ! i)) 9 \<and> margin < py_round (expected - snd (rounds ! Suc i)) 9)"
proof -
  show "m \<le> length rounds" "window \<le> now - started" "rounds \<noteq> [] \<Longrightarrow> now - fst (last rounds) \<le> stale"
    using assms by (auto simp: watch_verdict_def Let_def split: if_splits)
  fix i assume i: "Suc i < length rounds"
  let ?low = "map (\<lambda>(_, acc). margin < py_round (expected - acc) 9) rounds"
  have "\<not> list_ex (\<lambda>i. ?low ! (i - 1) \<and> ?low ! i) [1..<length rounds]"
    using assms by (auto simp: watch_verdict_def Let_def simp del: list_ex_iff split: if_splits)
  then have "\<not> (?low ! i \<and> ?low ! Suc i)" using i by (auto simp: list_ex_iff dest!: bspec [of _ _ "Suc i"])
  then show "\<not> (margin < py_round (expected - snd (rounds ! i)) 9 \<and> margin < py_round (expected - snd (rounds ! Suc i)) 9)"
    using i by (simp add: split_beta)
qed

text \<open>The watch ends once the clock of a poll has passed the window.\<close>

lemma watch_ends:
  assumes "list_ex (\<lambda>(_, now). window \<le> now - started) polls"
  shows "watch started window stale rounds polls \<noteq> None"
  using assms by (induction polls arbitrary: rounds) (auto simp: Let_def watch_verdict_def)

subsection \<open>Deploy, then rollback\<close>

text \<open>Where the pipeline can stand between the tries of \<open>rollback\<close>: \<open>pl\<close> as it was before the deploy.\<close>

definition rolling_back :: "served_model \<Rightarrow> pipeline \<Rightarrow> pipeline \<Rightarrow> bool" where
  "rolling_back new pl q \<longleftrightarrow>
     (pl_pointer q = Some \<lparr>pt_current = new, pt_previous = Some (current_model pl)\<rparr>
      \<or> pl_pointer q = Some \<lparr>pt_current = current_model pl, pt_previous = Some new\<rparr>)
     \<and> pl_champion q = pl_champion pl
     \<and> (pl_loaded q = pl_loaded pl \<or> pl_loaded q = pl_loaded pl - {fst new})
     \<and> (pl_versions q = pl_versions pl \<or> pl_versions q = pl_versions pl @ [(fst new, True)])"

lemma rollback_steps:
  assumes "rolling_back new pl q" and "fst (current_model pl) \<noteq> fst new" and "fst new \<notin> fst ` set (pl_versions pl)"
  shows "\<exists>q'. foldE (\<lambda>step. step) (take k (rollback_task (fst new))) q = Inr q' \<and> rolling_back new pl q'
    \<and> (0 < k \<longrightarrow> current_model q' = current_model pl)
    \<and> (1 < k \<longrightarrow> pl_loaded q' = pl_loaded pl - {fst new})
    \<and> (2 < k \<longrightarrow> pl_versions q' = pl_versions pl @ [(fst new, True)])"
proof -
  consider "k = 0" | "k = 1" | "k = 2" | "k = 3" | "k \<ge> 4" by linarith
  then show ?thesis
    using assms by cases (auto simp: rollback_task_def rolling_back_def read_current_def set_current_def register_version_def Let_def
      numeral_eq_Suc take_Cons' split: if_splits)
qed

lemma rollback_tries:
  assumes "rolling_back new pl q" and "fst (current_model pl) \<noteq> fst new" and "fst new \<notin> fst ` set (pl_versions pl)"
  shows "\<exists>q'. foldE (attempt (rollback_task (fst new))) ks q = Inr q' \<and> rolling_back new pl q'"
  using assms(1)
proof (induction ks arbitrary: q)
  case Nil
  then show ?case by simp
next
  case (Cons k ks)
  from rollback_steps [OF Cons.prems assms(2,3), of k] obtain p where "attempt (rollback_task (fst new)) k q = Inr p" "rolling_back new pl p"
    by (auto simp: attempt_def)
  with Cons.IH [of p] show ?case by simp
qed

text \<open>C16: A rolled-back deploy is undone.  After one deploy of a candidate, however many tries of the
  rollback are cut off, and wherever, one try that runs to its end leaves the pointer at the model
  that was current before the deploy, the candidate unloaded and nothing else, the candidate in the
  registry once, as rejected, and the champion as it was.\<close>

theorem rollback_undoes_deploy:
  assumes "attempt (deploy_task new) (length (deploy_task new)) pl = Inr pl1" and "fst (current_model pl) \<noteq> fst new"
    and "fst new \<notin> fst ` set (pl_versions pl)"
  shows "\<exists>pl2. foldE (attempt (rollback_task (fst new))) (ks @ [length (rollback_task (fst new))]) pl1 = Inr pl2
    \<and> current_model pl2 = current_model pl \<and> pl_loaded pl2 = pl_loaded pl - {fst new}
    \<and> pl_versions pl2 = pl_versions pl @ [(fst new, True)] \<and> pl_champion pl2 = pl_champion pl"
proof -
  have "rolling_back new pl pl1"
    using assms(1) by (auto simp: attempt_def deploy_task_def rolling_back_def set_current_def split: if_splits)
  from rollback_tries [OF this assms(2,3), of ks] obtain q where
    q: "foldE (attempt (rollback_task (fst new))) ks pl1 = Inr q" "rolling_back new pl q" by blast
  have "2 < length (rollback_task (fst new))" by (simp add: rollback_task_def)
  with rollback_steps [OF q(2) assms(2,3), of "length (rollback_task (fst new))"] q(1) show ?thesis
    by (auto simp: foldE_append attempt_def rolling_back_def)
qed

definition served_v3 :: pipeline where
  "served_v3 = \<lparr>pl_pointer = None, pl_loaded = {''base'', ''v3'', ''run1''}, pl_versions = [(''v3'', False)],
     pl_champion = (''v3'', ''a''), pl_approved = {}, pl_alerts = 0\<rparr>"

theorem rollback_undoes_deploy_witness:
  "\<exists>pl1 pl2. attempt (deploy_task (''run1'', ''b'')) 2 served_v3 = Inr pl1
    \<and> foldE (attempt (rollback_task ''run1'')) [1, 3, 4] pl1 = Inr pl2 \<and> current_model pl2 = (''v3'', ''a'') \<and> ''run1'' \<notin> pl_loaded pl2"
proof -
  obtain pl1 where pl1: "attempt (deploy_task (''run1'', ''b'')) (length (deploy_task (''run1'', ''b''))) served_v3 = Inr pl1"
    by (simp add: attempt_def deploy_task_def served_v3_def)
  have len: "length (deploy_task (''run1'', ''b'')) = 2" "length (rollback_task ''run1'') = 4" by (simp_all add: deploy_task_def rollback_task_def)
  have "current_model served_v3 = (''v3'', ''a'')" by (simp add: served_v3_def read_current_def)
  moreover have "''run1'' \<notin> fst ` set (pl_versions served_v3)" by (simp add: served_v3_def)
  ultimately obtain pl2 where "foldE (attempt (rollback_task ''run1'')) ([1, 3] @ [4]) pl1 = Inr pl2" "current_model pl2 = (''v3'', ''a'')"
    "pl_loaded pl2 = pl_loaded served_v3 - {''run1''}"
    using rollback_undoes_deploy [OF pl1, of "[1, 3]", simplified fst_conv len] by auto
  then have "foldE (attempt (rollback_task ''run1'')) [1, 3, 4] pl1 = Inr pl2 \<and> current_model pl2 = (''v3'', ''a'') \<and> ''run1'' \<notin> pl_loaded pl2"
    by (simp only: append.simps) simp
  then show ?thesis using pl1 unfolding len by blast
qed

text \<open>
  \<open>deploy\<close> does not check whether it already happened: a second try after one that was cut off
  once the pointer had moved saves the candidate as its own predecessor, and the rollback then
  leaves the pointer at the candidate it has just unloaded.
\<close>

lemma retried_deploy_loses_rollback:
  assumes "fst new \<in> pl_loaded pl"
  shows "\<exists>pl2. foldE (\<lambda>t. t) [attempt (deploy_task new) 1, attempt (deploy_task new) 2, attempt (rollback_task (fst new)) 4] pl = Inr pl2
    \<and> current_model pl2 = new \<and> fst new \<notin> pl_loaded pl2"
  using assms by (simp add: attempt_def deploy_task_def rollback_task_def set_current_def read_current_def register_version_def numeral_eq_Suc take_Cons')

text \<open>A confirmed deploy: the candidate is champion and current, the model before it unloaded.\<close>

lemma register_champion_confirms:
  assumes "attempt (deploy_task new) (length (deploy_task new)) pl = Inr pl1" and "fst (current_model pl) \<noteq> fst new"
  shows "\<exists>pl2. attempt (register_champion_task new) (length (register_champion_task new)) pl1 = Inr pl2
    \<and> current_model pl2 = new \<and> pl_champion pl2 = new \<and> pl_loaded pl2 = pl_loaded pl - {fst (current_model pl)}"
  using assms by (auto simp: attempt_def deploy_task_def register_champion_task_def register_version_def set_current_def read_current_def
      split: if_splits prod.splits)

end
