(* ===== verification/App.thy ===== *)
theory App
  imports Engine_Worker Py_Strings Py_Round
begin

text \<open>
  \<^verbatim>\<open>server/app.py\<close> and \<^verbatim>\<open>server/schemas.py\<close>: the HTTP side of the server on top of the engine
  worker.  A request to \<open>/v1/completions\<close> is a \<open>connection\<close>; its coroutines are a program
  counter, the pending read task, and the state of the generator \<open>timed\<close> it reads from.  A step
  of the system (\<open>app_event\<close>) is one stage of the engine thread or what one coroutine does
  between two \<open>await\<close>s, so a list of events is an interleaving of all of them.

  The clock (nanoseconds), \<open>uuid\<close>, \<open>random.random()\<close>, the trace id the tracer hands out and the
  JSON text pydantic prints for a chunk come from outside and are arguments.  Histograms are the
  lists of their observations.
\<close>

subsection \<open>Request and response shapes\<close>

record completion_request =
  cr_model :: string
  cr_prompt :: "int list"
  cr_max_tokens :: int
  cr_eos_token_id :: "int option"
  cr_stream :: bool
  cr_timeout_s :: "real option"
  cr_request_id :: "string option"

definition CompletionRequest :: "int list \<Rightarrow> completion_request" where
  "CompletionRequest prompt = \<lparr>cr_model = ''lightserve'', cr_prompt = prompt, cr_max_tokens = 16,
     cr_eos_token_id = None, cr_stream = False, cr_timeout_s = None, cr_request_id = None\<rparr>"

record completion_choice =
  cc_index :: int
  cc_text :: string
  cc_token_ids :: "int list"
  cc_finish_reason :: "string option"

text \<open>\<open>CompletionResponse\<close> and \<open>CompletionStreamChunk\<close> have the same fields; \<open>object\<close> tells them apart.\<close>

record completion_payload =
  cp_id :: string
  cp_object :: string
  cp_model :: string
  cp_choices :: "completion_choice list"

definition CompletionResponse :: "string \<Rightarrow> string \<Rightarrow> completion_choice list \<Rightarrow> completion_payload" where
  "CompletionResponse rid model choices =
     \<lparr>cp_id = rid, cp_object = ''text_completion'', cp_model = model, cp_choices = choices\<rparr>"

definition CompletionStreamChunk :: "string \<Rightarrow> string \<Rightarrow> completion_choice list \<Rightarrow> completion_payload" where
  "CompletionStreamChunk rid model choices =
     \<lparr>cp_id = rid, cp_object = ''text_completion.chunk'', cp_model = model, cp_choices = choices\<rparr>"

fun status_name :: "request_status \<Rightarrow> string" where
  "status_name WAITING = ''WAITING''"
| "status_name RUNNING = ''RUNNING''"
| "status_name PREEMPTED = ''PREEMPTED''"
| "status_name FINISHED_STOPPED = ''FINISHED_STOPPED''"
| "status_name FINISHED_LENGTH_CAPPED = ''FINISHED_LENGTH_CAPPED''"
| "status_name FINISHED_ABORTED = ''FINISHED_ABORTED''"

definition finish_reason :: "request_status \<Rightarrow> string" where
  "finish_reason st =
     (case map_of [(FINISHED_STOPPED, ''stop''), (FINISHED_LENGTH_CAPPED, ''length''), (FINISHED_ABORTED, ''abort'')] st of
        None \<Rightarrow> status_name st | Some s \<Rightarrow> s)"

definition render_text :: "int list \<Rightarrow> string" where
  "render_text ts = py_join '' '' (map show_int ts)"

record app_config =
  ac_model_name :: string
  ac_trace_sample_rate :: rat
  ac_trace_slow_s :: rat
  ac_json :: "completion_payload \<Rightarrow> string"

subsection \<open>Metrics, traces and the request log\<close>

record trace_span =
  sp_name :: string
  sp_start :: int
  sp_end :: int
  sp_tokens :: "int option"

record request_trace =
  tr_trace_id :: string
  tr_request_id :: string
  tr_status :: request_status
  tr_tokens :: nat
  tr_error :: bool
  tr_start :: int
  tr_end :: int
  tr_spans :: "trace_span list"

record log_line =
  ll_request_id :: string
  ll_status :: request_status
  ll_tokens :: nat
  ll_ttft_s :: "rat option"
  ll_latency_s :: rat
  ll_trace_id :: "string option"

record app_metrics =
  am_tokens_total :: nat
  am_ttft :: "rat list"
  am_itl :: "rat list"
  am_e2e :: "rat list"
  am_in_flight :: int
  am_traces :: "request_trace list"
  am_log :: "log_line list"

definition new_app_metrics :: app_metrics where
  "new_app_metrics = \<lparr>am_tokens_total = 0, am_ttft = [], am_itl = [], am_e2e = [], am_in_flight = 0, am_traces = [], am_log = []\<rparr>"

definition seconds_between :: "int \<Rightarrow> int \<Rightarrow> rat" where
  "seconds_between a b = of_int (b - a) / 10 ^ 9"

text \<open>The loop over the phases: one that was never reached has no time and is skipped.\<close>

fun phase_spans :: "nat \<Rightarrow> int \<Rightarrow> (string \<times> int option) list \<Rightarrow> trace_span list" where
  "phase_spans n prev [] = []"
| "phase_spans n prev ((name, None) # ps) = phase_spans n prev ps"
| "phase_spans n prev ((name, Some t) # ps) =
     \<lparr>sp_name = name, sp_start = prev, sp_end = t,
      sp_tokens = (if name = ''decode'' then Some (int n - 1) else None)\<rparr> # phase_spans n t ps"

definition trace_request :: "app_config \<Rightarrow> rat \<Rightarrow> string \<Rightarrow> stream_handle \<Rightarrow> int \<Rightarrow> int option \<Rightarrow> int option \<Rightarrow> int
    \<Rightarrow> nat \<Rightarrow> request_status \<Rightarrow> request_trace option" where
  "trace_request cfg random tid h start first last_t end_t n st =
     (let failed = (st = FINISHED_ABORTED) in
      if \<not> (failed \<or> ac_trace_slow_s cfg \<le> seconds_between start end_t \<or> random < ac_trace_sample_rate cfg) then None
      else Some \<lparr>tr_trace_id = tid, tr_request_id = sh_request_id h, tr_status = st, tr_tokens = n, tr_error = failed,
                 tr_start = start, tr_end = end_t,
                 tr_spans = phase_spans n start
                   [(''queue'', sh_scheduled_ns h), (''prefill'', first), (''decode'', last_t), (''respond'', Some end_t)]\<rparr>)"

subsection \<open>The generator \<open>timed\<close>\<close>

text \<open>
  Where it stands: not begun, waiting for the handle's next item, suspended at the \<open>yield\<close> of an
  item, or returned.  \<open>tg_pos\<close> counts the items \<open>handle.stream()\<close> has taken from the queue.
\<close>

datatype gen_phase = Fresh | Reading | At_yield stream_item | Returned

record timed_gen =
  tg_start :: int
  tg_first :: "int option"
  tg_last :: "int option"
  tg_n_tokens :: nat
  tg_ended :: bool
  tg_pos :: nat
  tg_phase :: gen_phase

definition timed :: "int \<Rightarrow> timed_gen" where
  "timed start = \<lparr>tg_start = start, tg_first = None, tg_last = None, tg_n_tokens = 0, tg_ended = False, tg_pos = 0, tg_phase = Fresh\<rparr>"

text \<open>The body of its loop, up to the \<open>yield\<close>.\<close>

fun timed_item :: "app_config \<Rightarrow> int \<Rightarrow> rat \<Rightarrow> string \<Rightarrow> stream_handle \<Rightarrow> stream_item \<Rightarrow> timed_gen \<Rightarrow> app_metrics
    \<Rightarrow> timed_gen \<times> app_metrics" where
  "timed_item cfg now random tid h (StreamToken t) g m =
     (let m' = (case tg_first g of
                  None \<Rightarrow> m\<lparr>am_ttft := am_ttft m @ [seconds_between (tg_start g) now]\<rparr>
                | Some _ \<Rightarrow> m\<lparr>am_itl := am_itl m @ [seconds_between (the (tg_last g)) now]\<rparr>)
      in (g\<lparr>tg_first := (case tg_first g of None \<Rightarrow> Some now | Some f \<Rightarrow> Some f), tg_last := Some now,
            tg_n_tokens := tg_n_tokens g + 1\<rparr>,
          m'\<lparr>am_tokens_total := am_tokens_total m + 1\<rparr>))"
| "timed_item cfg now random tid h (StreamEnd st) g m =
     (let tr = trace_request cfg random tid h (tg_start g) (tg_first g) (tg_last g) now (tg_n_tokens g) st
      in (g\<lparr>tg_ended := True\<rparr>,
          m\<lparr>am_e2e := am_e2e m @ [seconds_between (tg_start g) now], am_in_flight := am_in_flight m - 1,
            am_traces := am_traces m @ (case tr of None \<Rightarrow> [] | Some t \<Rightarrow> [t]),
            am_log := am_log m @ [\<lparr>ll_request_id = sh_request_id h, ll_status = st, ll_tokens = tg_n_tokens g,
              ll_ttft_s = map_option (\<lambda>f. py_round (seconds_between (tg_start g) f) 6) (tg_first g),
              ll_latency_s = py_round (seconds_between (tg_start g) now) 6,
              ll_trace_id = map_option tr_trace_id tr\<rparr>]\<rparr>))"

text \<open>
  One activation of a task that waits in \<open>__anext__()\<close>: \<open>None\<close> when it has to wait on.  After an
  end marker \<open>handle.stream()\<close> returns, and \<open>timed\<close> with it.
\<close>

datatype read_result = Read_item stream_item | Stop_async_iteration

definition timed_next :: "app_config \<Rightarrow> int \<Rightarrow> rat \<Rightarrow> string \<Rightarrow> stream_handle \<Rightarrow> timed_gen \<Rightarrow> app_metrics
    \<Rightarrow> timed_gen \<times> app_metrics \<times> read_result option" where
  "timed_next cfg now random tid h g m =
     (case tg_phase g of
        Fresh \<Rightarrow> (g\<lparr>tg_phase := Reading\<rparr>, m\<lparr>am_in_flight := am_in_flight m + 1\<rparr>, None)
      | Reading \<Rightarrow>
          (if tg_pos g < length (sh_queue h) then
             (let item = sh_queue h ! tg_pos g; (g', m') = timed_item cfg now random tid h item g m
              in (g'\<lparr>tg_pos := tg_pos g + 1, tg_phase := At_yield item\<rparr>, m', Some (Read_item item)))
           else (g, m, None))
      | At_yield (StreamToken _) \<Rightarrow> (g\<lparr>tg_phase := Reading\<rparr>, m, None)
      | At_yield (StreamEnd _) \<Rightarrow> (g\<lparr>tg_phase := Returned\<rparr>, m, Some Stop_async_iteration)
      | Returned \<Rightarrow> (g, m, Some Stop_async_iteration))"

text \<open>The generator is thrown an exception where it stands: its \<open>finally\<close> clause.\<close>

definition timed_close :: "timed_gen \<Rightarrow> app_metrics \<Rightarrow> timed_gen \<times> app_metrics" where
  "timed_close g m =
     (case tg_phase g of
        Fresh \<Rightarrow> (g\<lparr>tg_phase := Returned\<rparr>, m)
      | Returned \<Rightarrow> (g, m)
      | _ \<Rightarrow> (g\<lparr>tg_phase := Returned\<rparr>, if tg_ended g then m else m\<lparr>am_in_flight := am_in_flight m - 1\<rparr>))"

subsection \<open>A connection\<close>

text \<open>
  \<open>Submitting\<close> stands between the put and the check of \<open>worker.submit\<close>; \<open>Polling\<close>, \<open>Awaiting\<close>,
  \<open>At_frame\<close> and \<open>At_done\<close> are the \<open>await\<close>s and \<open>yield\<close>s of \<open>_sse_stream\<close>; \<open>Collecting\<close> is the loop
  of a response that is not streamed.  A streamed answer ends \<open>Finished\<close>, when the client took
  everything, or \<open>Gone\<close>.  \<open>cn_pending\<close> is the task, running or with its result.
\<close>

datatype http_pc = Submitting | Polling | Awaiting | At_frame stream_item | At_done | Collecting | Finished | Gone

record connection =
  cn_handle :: href
  cn_request_id :: string
  cn_stream :: bool
  cn_pc :: http_pc
  cn_pending :: "read_result option option"
  cn_gen :: timed_gen
  cn_body :: "string list"
  cn_token_ids :: "int list"
  cn_finish_reason :: "string option"
  cn_response :: "completion_payload option"

record 'e app =
  ap_worker :: "'e worker_system"
  ap_metrics :: app_metrics
  ap_conns :: "connection list"

definition create_app :: "'e worker_system \<Rightarrow> 'e app" where
  "create_app w = \<lparr>ap_worker = w, ap_metrics = new_app_metrics, ap_conns = []\<rparr>"

text \<open>\<open>/health\<close>: the status code, the status and the error shown.\<close>

definition health :: "'e app \<Rightarrow> nat \<times> string \<times> exn option" where
  "health a = (if \<not> alive (ap_worker a) then (503, ''engine dead'', ew_error (ap_worker a)) else (200, ''ok'', None))"

text \<open>What is sent of one stream: a frame per item, then the sentinel.\<close>

definition sse_data :: "string \<Rightarrow> string" where
  "sse_data s = ''data: '' @ s @ [CHR 0x0A, CHR 0x0A]"

definition sse_frame :: "app_config \<Rightarrow> string \<Rightarrow> stream_item \<Rightarrow> string" where
  "sse_frame cfg rid item =
     sse_data (ac_json cfg (CompletionStreamChunk rid (ac_model_name cfg)
       [case item of
          StreamToken t \<Rightarrow> \<lparr>cc_index = 0, cc_text = render_text [t], cc_token_ids = [t], cc_finish_reason = None\<rparr>
        | StreamEnd st \<Rightarrow> \<lparr>cc_index = 0, cc_text = [], cc_token_ids = [], cc_finish_reason = Some (finish_reason st)\<rparr>]))"

definition sse_done :: string where
  "sse_done = sse_data ''[DONE]''"

subsection \<open>What a coroutine does between two awaits\<close>

type_synonym 'e conn_state = "connection \<times> app_metrics \<times> 'e worker_system"

text \<open>The start of the handler \<open>completions\<close>, up to the put; the other half of \<open>submit\<close> follows.\<close>

definition request_name :: "string \<Rightarrow> completion_request \<Rightarrow> string" where
  "request_name uuid body =
     (case cr_request_id body of None \<Rightarrow> ''cmpl-'' @ take 24 uuid | Some r \<Rightarrow> if r = [] then ''cmpl-'' @ take 24 uuid else r)"

definition completions :: "completion_request \<Rightarrow> string \<Rightarrow> int \<Rightarrow> 'e app \<Rightarrow> 'e app" where
  "completions body uuid start a =
     (let w = ap_worker a; rid = request_name uuid body;
          sp = \<lparr>max_tokens = cr_max_tokens body, eos_token_id = cr_eos_token_id body\<rparr>;
          w' = submit_put [] (cr_prompt body) sp (Some rid) (cr_timeout_s body) w
      in a\<lparr>ap_worker := w'\<lparr>sy_checking := sy_checking w @ [ew_next_handle w]\<rparr>,
           ap_conns := ap_conns a @ [\<lparr>cn_handle = ew_next_handle w, cn_request_id = rid, cn_stream = cr_stream body,
             cn_pc = Submitting, cn_pending = None, cn_gen = timed start, cn_body = [], cn_token_ids = [],
             cn_finish_reason = None, cn_response = None\<rparr>]\<rparr>)"

definition submitted :: "'e conn_state \<Rightarrow> 'e conn_state option" where
  "submitted = (\<lambda>(c, m, w).
     if cn_pc c = Submitting
     then Some (c\<lparr>cn_pc := (if cn_stream c then Polling else Collecting)\<rparr>, m,
                (submit_check (cn_handle c) w)\<lparr>sy_checking := remove1 (cn_handle c) (sy_checking w)\<rparr>)
     else None)"

text \<open>A read that is still waiting is cancelled; one whose turn has not come yet never runs.\<close>

definition stop_reading :: "'e conn_state \<Rightarrow> 'e conn_state" where
  "stop_reading = (\<lambda>(c, m, w).
     if cn_pending c = Some None
     then (let (g, m') = (if tg_phase (cn_gen c) = Reading then timed_close (cn_gen c) m else (cn_gen c, m))
           in (c\<lparr>cn_pending := None, cn_gen := g\<rparr>, m', w))
     else (c, m, w))"

definition leave :: "'e conn_state \<Rightarrow> 'e conn_state" where
  "leave = (\<lambda>(c, m, w). (c\<lparr>cn_pc := Gone\<rparr>, m, w))"

definition abort_request :: "'e conn_state \<Rightarrow> 'e conn_state" where
  "abort_request = (\<lambda>(c, m, w). (c, m, abort (sh_request_id (ew_handles w (cn_handle c))) w))"

text \<open>The top of the loop, with the answer of \<open>is_disconnected()\<close>.  The model starts here right after
\<open>submit\<close>: a response that is torn down before the server has first asked its generator for a frame,
in which case no handler runs and no abort is queued, is not told from one torn down at the top.\<close>

definition poll :: "bool \<Rightarrow> 'e conn_state \<Rightarrow> 'e conn_state option" where
  "poll disconnected = (\<lambda>(c, m, w).
     if cn_pc c = Polling
     then Some (if disconnected then leave (stop_reading (abort_request (c, m, w)))
                else (c\<lparr>cn_pc := Awaiting, cn_pending := (if cn_pending c = None then Some None else cn_pending c)\<rparr>, m, w))
     else None)"

text \<open>\<open>asyncio.wait\<close> is over: after 50 ms with the task still running, or with its result.\<close>

definition waited :: "app_config \<Rightarrow> 'e conn_state \<Rightarrow> 'e conn_state option" where
  "waited cfg = (\<lambda>(c, m, w).
     if cn_pc c = Awaiting
     then (case cn_pending c of
             None \<Rightarrow> None
           | Some None \<Rightarrow> Some (c\<lparr>cn_pc := Polling\<rparr>, m, w)
           | Some (Some Stop_async_iteration) \<Rightarrow> Some (c\<lparr>cn_body := cn_body c @ [sse_done], cn_pc := At_done\<rparr>, m, w)
           | Some (Some (Read_item item)) \<Rightarrow>
               Some (c\<lparr>cn_pending := None, cn_body := cn_body c @ [sse_frame cfg (sh_request_id (ew_handles w (cn_handle c))) item],
                       cn_pc := At_frame item\<rparr>, m, w))
     else None)"

text \<open>The server took what was yielded and asks for more.\<close>

definition resumed :: "'e conn_state \<Rightarrow> 'e conn_state option" where
  "resumed = (\<lambda>(c, m, w).
     case cn_pc c of
       At_frame (StreamToken _) \<Rightarrow> Some (c\<lparr>cn_pc := Polling\<rparr>, m, w)
     | At_frame (StreamEnd _) \<Rightarrow> Some (c\<lparr>cn_body := cn_body c @ [sse_done], cn_pc := At_done\<rparr>, m, w)
     | At_done \<Rightarrow> Some (c\<lparr>cn_pc := Finished\<rparr>, m, w)
     | _ \<Rightarrow> None)"

text \<open>\<open>CancelledError\<close> at an \<open>await\<close>.\<close>

definition cancelled :: "'e conn_state \<Rightarrow> 'e conn_state option" where
  "cancelled = (\<lambda>(c, m, w).
     if cn_pc c = Polling \<or> cn_pc c = Awaiting then Some (leave (stop_reading (abort_request (c, m, w)))) else None)"

text \<open>
  The generator is dropped at a \<open>yield\<close>, while the server was sending: it is thrown
  \<open>GeneratorExit\<close>, which is not a \<open>CancelledError\<close>, so only \<open>finally\<close> runs.
\<close>

definition dropped :: "'e conn_state \<Rightarrow> 'e conn_state option" where
  "dropped = (\<lambda>(c, m, w).
     case cn_pc c of
       At_frame _ \<Rightarrow> Some (leave (stop_reading (c, m, w)))
     | At_done \<Rightarrow> Some (leave (stop_reading (c, m, w)))
     | _ \<Rightarrow> None)"

text \<open>A generator nobody holds any more is closed by the event loop.\<close>

definition collected :: "'e conn_state \<Rightarrow> 'e conn_state option" where
  "collected = (\<lambda>(c, m, w).
     if cn_pc c = Finished \<or> cn_pc c = Gone
     then (let (g, m') = timed_close (cn_gen c) m in Some (c\<lparr>cn_gen := g\<rparr>, m', w))
     else None)"

text \<open>A turn of what reads \<open>timed\<close>: the pending task of a streamed answer, the loop of the other.\<close>

definition read_turn :: "app_config \<Rightarrow> int \<Rightarrow> rat \<Rightarrow> string \<Rightarrow> 'e conn_state \<Rightarrow> 'e conn_state option" where
  "read_turn cfg now random tid = (\<lambda>(c, m, w).
     let (g, m', r) = timed_next cfg now random tid (ew_handles w (cn_handle c)) (cn_gen c) m; c' = c\<lparr>cn_gen := g\<rparr> in
     if cn_pending c = Some None then Some (c'\<lparr>cn_pending := Some r\<rparr>, m', w)
     else if cn_pc c = Collecting then
       Some (case r of
               None \<Rightarrow> c'
             | Some (Read_item (StreamToken t)) \<Rightarrow> c'\<lparr>cn_token_ids := cn_token_ids c @ [t]\<rparr>
             | Some (Read_item (StreamEnd st)) \<Rightarrow> c'\<lparr>cn_finish_reason := Some (finish_reason st)\<rparr>
             | Some Stop_async_iteration \<Rightarrow>
                 c'\<lparr>cn_response := Some (CompletionResponse (cn_request_id c) (ac_model_name cfg)
                      [\<lparr>cc_index = 0, cc_text = render_text (cn_token_ids c), cc_token_ids = cn_token_ids c,
                        cc_finish_reason = cn_finish_reason c\<rparr>]), cn_pc := Finished\<rparr>, m', w)
     else None)"

subsection \<open>The server as a system of interleaved steps\<close>

datatype app_event =
    Worker_thread real real int
  | Shutdown
  | Post completion_request string int
  | Submitted nat
  | Poll nat bool
  | Read nat int rat string
  | Waited nat
  | Resumed nat
  | Cancelled nat
  | Dropped nat
  | Collected nat

definition with_conn :: "nat \<Rightarrow> ('e conn_state \<Rightarrow> 'e conn_state option) \<Rightarrow> 'e app \<Rightarrow> 'e app option" where
  "with_conn i f a =
     (if i < length (ap_conns a)
      then map_option (\<lambda>(c, m, w). a\<lparr>ap_conns := (ap_conns a)[i := c], ap_metrics := m, ap_worker := w\<rparr>)
             (f (ap_conns a ! i, ap_metrics a, ap_worker a))
      else None)"

fun app_step :: "app_config \<Rightarrow> 'e engine_shape \<Rightarrow> app_event \<Rightarrow> 'e app \<Rightarrow> 'e app option" where
  "app_step cfg E (Worker_thread now seconds t) a =
     map_option (\<lambda>w. a\<lparr>ap_worker := w\<rparr>) (engine_thread E now seconds t (ap_worker a))"
| "app_step cfg E Shutdown a = Some (a\<lparr>ap_worker := (ap_worker a)\<lparr>ew_stop := True\<rparr>\<rparr>)"
| "app_step cfg E (Post body uuid start) a = Some (completions body uuid start a)"
| "app_step cfg E (Submitted i) a = with_conn i submitted a"
| "app_step cfg E (Poll i disconnected) a = with_conn i (poll disconnected) a"
| "app_step cfg E (Read i now random tid) a = with_conn i (read_turn cfg now random tid) a"
| "app_step cfg E (Waited i) a = with_conn i (waited cfg) a"
| "app_step cfg E (Resumed i) a = with_conn i resumed a"
| "app_step cfg E (Cancelled i) a = with_conn i cancelled a"
| "app_step cfg E (Dropped i) a = with_conn i dropped a"
| "app_step cfg E (Collected i) a = with_conn i collected a"

fun app_run :: "app_config \<Rightarrow> 'e engine_shape \<Rightarrow> app_event list \<Rightarrow> 'e app \<Rightarrow> 'e app option" where
  "app_run cfg E [] a = Some a"
| "app_run cfg E (ev # evs) a = (case app_step cfg E ev a of None \<Rightarrow> None | Some a' \<Rightarrow> app_run cfg E evs a')"

end
