(* ===== verification/App_Properties.thy ===== *)
theory App_Properties
  imports Engine_Worker_Properties App "HOL-Library.Sublist"
begin

text \<open>
  What an HTTP client of the server may rely on, over every interleaving of clients, coroutines and
  engine thread: what each answer contains (\<open>answers_relay_streams\<close>), that the metrics add up
  (\<open>metrics_add_up\<close>), when a departed client's request is cancelled (\<open>departed_client_aborted\<close>).
  Handles only grow (\<open>handles_grow\<close>), so an invariant per connection (\<open>conn_ok\<close>) is kept by every
  turn of every coroutine (\<open>turned\<close>); a run of the server is a run of the worker beneath it.
\<close>

subsection \<open>Handles grow\<close>

text \<open>Items are only ever added to a stream, and a handle keeps its request.\<close>

definition handles_grow :: "('e, 'z) worker_scheme \<Rightarrow> ('e, 'z) worker_scheme \<Rightarrow> bool" where
  "handles_grow w w' \<longleftrightarrow> ew_next_handle w \<le> ew_next_handle w' \<and> (\<forall>h < ew_next_handle w. prefix (queue_of w h) (queue_of w' h)
     \<and> sh_request_id (ew_handles w' h) = sh_request_id (ew_handles w h))"

definition grows :: "'e worker_system \<Rightarrow> 'e worker_system \<Rightarrow> bool" where
  "grows w w' \<longleftrightarrow> handles_grow w w' \<and> sy_checking w' = sy_checking w"

lemmas grows_defs = grows_def handles_grow_def

lemma grows_refl [simp]: "grows w w"
  by (simp add: grows_defs)

lemma handles_grow_trans: "handles_grow w w' \<Longrightarrow> handles_grow w' w'' \<Longrightarrow> handles_grow w w''"
  unfolding grows_defs by (auto dest: order.strict_trans2 intro: prefix_order.trans)

text \<open>Whatever leaves the handles alone, or only puts items.\<close>

lemma grows_same: "ew_handles w' = ew_handles w \<Longrightarrow> ew_next_handle w' = ew_next_handle w \<Longrightarrow> sy_checking w' = sy_checking w \<Longrightarrow> grows w w'"
  by (simp add: grows_defs)

lemma grows_fields [simp]:
  "grows w (w'\<lparr>sy_pc := p\<rparr>) = grows w w'" "grows w (w'\<lparr>ew_error := er\<rparr>) = grows w w'"
  "grows w (w'\<lparr>ew_engine := e\<rparr>) = grows w w'" "grows w (w'\<lparr>ew_metrics := m\<rparr>) = grows w w'" "grows w (w'\<lparr>ew_streams := s\<rparr>) = grows w w'"
  "grows w (w'\<lparr>ew_incoming := i\<rparr>) = grows w w'" "grows w (w'\<lparr>ew_deadlines := d\<rparr>) = grows w w'" "grows w (w'\<lparr>ew_queued := d\<rparr>) = grows w w'"
  "grows (w\<lparr>ew_engine := e\<rparr>) w' = grows w w'" "grows (w\<lparr>ew_incoming := i\<rparr>) w' = grows w w'" "grows (w\<lparr>ew_metrics := m\<rparr>) w' = grows w w'"
  "grows w (w'\<lparr>ew_stop := b\<rparr>) = grows w w'"
  by (simp_all add: grows_defs)

lemma put_item_grows: "grows w w' \<Longrightarrow> grows w (put_item h i w')"
  by (auto simp: grows_defs put_item_def)

lemma fold_grows: "(\<And>x w'. grows w w' \<Longrightarrow> grows w (f x w')) \<Longrightarrow> grows w w' \<Longrightarrow> grows w (fold f xs w')"
  by (induction xs arbitrary: w') auto

lemma finish_grows: "grows w w' \<Longrightarrow> grows w (finish E xs w')"
  unfolding finish_def
  by (rule fold_grows) (auto simp: finish_stream_def Let_def intro!: put_item_grows split: option.splits)

lemma abort_and_finish_grows: "abort_and_finish E rids w = Inr w' \<Longrightarrow> grows w w'"
  by (auto simp: abort_and_finish_def bindE_Inr_iff intro: finish_grows)

lemma handle_submission_grows: "handle_submission E now sub w = Inr w' \<Longrightarrow> grows w w'"
  by (auto simp: handle_submission_def Let_def bindE_Inr_iff intro!: grows_same)

lemma record_admission_grows: "grows w w' \<Longrightarrow> grows w (record_admission E t x w')"
  by (auto simp: record_admission_def Let_def grows_defs split: option.splits)

lemma record_step_grows:
  assumes "record_step E out seconds t w = Inr w'"
  shows "grows w w'"
proof -
  have "grows w (fold (record_admission E t) xs (w\<lparr>ew_metrics := m\<rparr>))" for xs m
    by (rule fold_grows [OF record_admission_grows]) simp_all
  then show ?thesis using assms by (auto simp: record_step_def Let_def split: if_splits)
qed

lemma emit_tokens_grows: "grows w w' \<Longrightarrow> grows w (emit_tokens E out w')"
  unfolding emit_tokens_def
  by (rule fold_grows) (auto simp: emit_token_def Let_def intro: put_item_grows split: option.splits)

lemma publish_grows: "step_and_publish E seconds t w = Some (Inr w') \<Longrightarrow> grows w w'"
  by (auto simp: step_and_publish_def bindR_def split: if_splits option.splits sum.splits
    intro!: finish_grows emit_tokens_grows) (drule record_step_grows, simp)

lemma end_all_grows: "grows w (end_all hs w)"
  unfolding end_all_def grows_fields by (rule fold_grows) (auto intro: put_item_grows)

lemma thread_result_grows: "(\<And>w'. res = Inr w' \<Longrightarrow> grows w w') \<Longrightarrow> grows w (thread_result next handled res w)"
  by (cases res) (simp_all add: thread_result_def)

lemma engine_thread_grows:
  assumes "engine_thread E now seconds t w = Some w'"
  shows "grows w w'"
proof (cases "sy_pc w")
  case Draining
  have "grows w (drain_stage E now w)"
  proof (cases "ew_incoming w")
    case (Cons i rest)
    have "grows w (thread_result Draining (handle_of i) (drain_item E now i (w\<lparr>ew_incoming := rest\<rparr>)) (w\<lparr>ew_incoming := rest\<rparr>))"
      using thread_result_grows [of "drain_item E now i (w\<lparr>ew_incoming := rest\<rparr>)" "w\<lparr>ew_incoming := rest\<rparr>" Draining "handle_of i"]
        abort_and_finish_grows [of E _ "w\<lparr>ew_incoming := rest\<rparr>"] handle_submission_grows [of E now _ "w\<lparr>ew_incoming := rest\<rparr>"]
      by (auto simp: drain_item_def split: incoming.splits)
    then show ?thesis by (simp add: drain_stage_def Cons Let_def)
  qed (simp add: drain_stage_def)
  then show ?thesis using assms Draining by (simp add: engine_thread_def)
next
  case Sweeping
  then show ?thesis using assms
    by (auto simp: engine_thread_def sweep_timeouts_def intro!: thread_result_grows dest: abort_and_finish_grows split: if_splits)
next
  case Stepping
  then show ?thesis using assms by (auto simp: engine_thread_def intro!: thread_result_grows dest: publish_grows)
next
  case (Failing lost hs)
  then show ?thesis using assms
    by (auto simp: engine_thread_def abort_everything_def end_all_grows split: list.splits)
qed (use assms in \<open>auto simp: engine_thread_def loop_top_def\<close>)

lemma submit_put_grows: "grows w (submit_put u p sp rid t w)"
  by (simp add: grows_defs submit_put_def Let_def StreamHandle_def)

subsection \<open>What each coroutine has done with its stream\<close>

text \<open>\<open>got\<close> is what \<open>timed\<close> has read so far.\<close>

definition gen_ok :: "stream_item list \<Rightarrow> timed_gen \<Rightarrow> bool" where
  "gen_ok got g \<longleftrightarrow> length got = tg_pos g \<and> tg_pos g = tg_n_tokens g + (if tg_ended g then 1 else 0)
     \<and> (if tg_ended g then closed_stream got else only_tokens got)
     \<and> (case tg_phase g of Fresh \<Rightarrow> got = [] | Reading \<Rightarrow> \<not> tg_ended g | At_yield i \<Rightarrow> got \<noteq> [] \<and> last got = i | Returned \<Rightarrow> True)"

definition sse_ok :: "app_config \<Rightarrow> stream_item list \<Rightarrow> connection \<Rightarrow> bool" where
  "sse_ok cfg got c \<longleftrightarrow>
     (let sent = map (sse_frame cfg (cn_request_id c)); g = cn_gen c;
          reading = (case cn_pending c of
              Some (Some (Read_item i)) \<Rightarrow> tg_phase g = At_yield i \<and> cn_body c = sent (butlast got)
            | Some (Some Stop_async_iteration) \<Rightarrow> False
            | _ \<Rightarrow> \<not> tg_ended g \<and> tg_phase g \<noteq> Returned \<and> cn_body c = sent got);
          complete = (tg_ended g \<and> cn_body c = sent got @ [sse_done])
      in case cn_pc c of
           Submitting \<Rightarrow> tg_phase g = Fresh \<and> cn_pending c = None \<and> cn_body c = []
         | Polling \<Rightarrow> reading
         | Awaiting \<Rightarrow> reading \<and> cn_pending c \<noteq> None
         | At_frame i \<Rightarrow> cn_pending c = None \<and> tg_phase g = At_yield i \<and> cn_body c = sent got
         | At_done \<Rightarrow> cn_pending c = None \<and> complete
         | Finished \<Rightarrow> cn_pending c = None \<and> complete
         | Gone \<Rightarrow> cn_pending c \<noteq> Some None \<and> (complete \<or> (\<exists>items. prefix items got \<and> cn_body c = sent items))
         | Collecting \<Rightarrow> False)"

definition collect_ok :: "app_config \<Rightarrow> stream_item list \<Rightarrow> connection \<Rightarrow> bool" where
  "collect_ok cfg got c \<longleftrightarrow> cn_pending c = None
     \<and> (case cn_pc c of
          Submitting \<Rightarrow> tg_phase (cn_gen c) = Fresh \<and> cn_token_ids c = [] \<and> cn_finish_reason c = None \<and> cn_response c = None
        | Collecting \<Rightarrow> tg_phase (cn_gen c) \<noteq> Returned \<and> cn_response c = None
            \<and> (if tg_ended (cn_gen c) then \<exists>r. got = map StreamToken (cn_token_ids c) @ [StreamEnd r] \<and> cn_finish_reason c = Some (finish_reason r)
               else got = map StreamToken (cn_token_ids c) \<and> cn_finish_reason c = None)
        | Finished \<Rightarrow> tg_ended (cn_gen c) \<and> (\<exists>ts r. got = map StreamToken ts @ [StreamEnd r]
            \<and> cn_response c = Some (CompletionResponse (cn_request_id c) (ac_model_name cfg)
                [\<lparr>cc_index = 0, cc_text = render_text ts, cc_token_ids = ts, cc_finish_reason = Some (finish_reason r)\<rparr>]))
        | _ \<Rightarrow> False)"

definition conn_ok :: "app_config \<Rightarrow> ('e, 'z) worker_scheme \<Rightarrow> connection \<Rightarrow> bool" where
  "conn_ok cfg w c \<longleftrightarrow> (let q = queue_of w (cn_handle c); got = take (tg_pos (cn_gen c)) q in
     cn_handle c < ew_next_handle w \<and> sh_request_id (ew_handles w (cn_handle c)) = cn_request_id c
     \<and> gen_ok got (cn_gen c) \<and> (if cn_stream c then sse_ok cfg got c else collect_ok cfg got c))"

text \<open>A stream that grows does not disturb its reader.\<close>

lemma take_prefix: "prefix q q' \<Longrightarrow> n \<le> length q \<Longrightarrow> take n q' = take n q"
  by (auto simp: prefix_def)

lemma gen_ok_pos: "gen_ok (take (tg_pos g) q) g \<Longrightarrow> tg_pos g \<le> length q"
  by (simp add: gen_ok_def min_def split: if_splits)

lemma conn_ok_grow: "handles_grow w w' \<Longrightarrow> conn_ok cfg w c \<Longrightarrow> conn_ok cfg w' c"
  by (auto simp: conn_ok_def Let_def handles_grow_def take_prefix gen_ok_pos intro: order.strict_trans2)

subsection \<open>One read\<close>

lemma only_not_closed: "only_tokens xs \<Longrightarrow> \<not> closed_stream xs"
  by (auto simp: only_tokens_def closed_stream_def map_eq_append_conv)

lemma last_of_shape: "only_tokens xs \<Longrightarrow> xs \<noteq> [] \<Longrightarrow> \<exists>t. last xs = StreamToken t" "closed_stream xs \<Longrightarrow> \<exists>r. last xs = StreamEnd r"
  by (auto simp: only_tokens_def closed_stream_def last_map)

lemma gen_ok_yield:
  assumes "gen_ok got g" "tg_phase g = At_yield i"
  shows "tg_ended g \<longleftrightarrow> (\<exists>r. i = StreamEnd r)"
  using assms last_of_shape [of got] by (auto simp: gen_ok_def split: if_splits)

lemma timed_item_fields:
  assumes "timed_item cfg now u tid h i g m = (g', m')"
  shows "tg_pos g' = tg_pos g" "tg_phase g' = tg_phase g"
    "tg_ended g' = (tg_ended g \<or> (\<exists>r. i = StreamEnd r))" "tg_n_tokens g' = tg_n_tokens g + (case i of StreamToken _ \<Rightarrow> 1 | _ \<Rightarrow> 0)"
  using assms by (cases i; auto simp: Let_def)+

lemma timed_next_ok:
  assumes ok: "gen_ok (take (tg_pos g) (sh_queue h)) g" and nx: "timed_next cfg now u tid h g m = (g', m', r)"
  shows "gen_ok (take (tg_pos g') (sh_queue h)) g'"
    and "r = None \<Longrightarrow> tg_pos g' = tg_pos g \<and> tg_phase g' = Reading \<and> \<not> tg_ended g \<and> \<not> tg_ended g'"
    and "r = Some (Read_item i) \<Longrightarrow> take (tg_pos g') (sh_queue h) = take (tg_pos g) (sh_queue h) @ [i]
      \<and> tg_phase g' = At_yield i \<and> \<not> tg_ended g \<and> (tg_ended g' \<longleftrightarrow> (\<exists>r. i = StreamEnd r))"
    and "r = Some Stop_async_iteration \<Longrightarrow> tg_pos g' = tg_pos g \<and> tg_phase g' = Returned \<and> tg_ended g' = tg_ended g
      \<and> (tg_ended g \<or> tg_phase g = Returned)"
proof -
  let ?q = "sh_queue h" and ?k = "tg_pos g"
  have "gen_ok (take (tg_pos g') ?q) g'
    \<and> (case r of None \<Rightarrow> tg_pos g' = ?k \<and> tg_phase g' = Reading \<and> \<not> tg_ended g \<and> \<not> tg_ended g'
       | Some (Read_item i) \<Rightarrow> take (tg_pos g') ?q = take ?k ?q @ [i] \<and> tg_phase g' = At_yield i \<and> \<not> tg_ended g
           \<and> (tg_ended g' \<longleftrightarrow> (\<exists>r. i = StreamEnd r))
       | Some Stop_async_iteration \<Rightarrow> tg_pos g' = ?k \<and> tg_phase g' = Returned \<and> tg_ended g' = tg_ended g
           \<and> (tg_ended g \<or> tg_phase g = Returned))"
  proof (cases "tg_phase g")
    case Fresh
    then show ?thesis using ok nx by (auto simp: timed_next_def gen_ok_def closed_stream_def split: if_splits)
  next
    case Reading
    show ?thesis
    proof (cases "?k < length ?q")
      case True
      obtain g1 m1 where it: "timed_item cfg now u tid h (?q ! ?k) g m = (g1, m1)" by fastforce
      note F = timed_item_fields [OF it]
      have g': "g' = g1\<lparr>tg_pos := ?k + 1, tg_phase := At_yield (?q ! ?k)\<rparr>" "r = Some (Read_item (?q ! ?k))"
        using nx Reading True it by (auto simp: timed_next_def Let_def)
      show ?thesis using ok Reading True
        by (cases "?q ! ?k") (auto simp: gen_ok_def g' F take_Suc_conv_app_nth split: if_splits)
    next
      case False
      then show ?thesis using ok nx Reading by (auto simp: timed_next_def gen_ok_def)
    qed
  next
    case (At_yield i)
    then show ?thesis using ok nx gen_ok_yield [OF ok At_yield]
      by (cases i) (auto simp: timed_next_def gen_ok_def split: if_splits)
  next
    case Returned
    then show ?thesis using ok nx by (auto simp: timed_next_def)
  qed
  then show "gen_ok (take (tg_pos g') ?q) g'"
    and "r = None \<Longrightarrow> tg_pos g' = ?k \<and> tg_phase g' = Reading \<and> \<not> tg_ended g \<and> \<not> tg_ended g'"
    and "r = Some (Read_item i) \<Longrightarrow> take (tg_pos g') ?q = take ?k ?q @ [i] \<and> tg_phase g' = At_yield i \<and> \<not> tg_ended g
      \<and> (tg_ended g' \<longleftrightarrow> (\<exists>r. i = StreamEnd r))"
    and "r = Some Stop_async_iteration \<Longrightarrow> tg_pos g' = ?k \<and> tg_phase g' = Returned \<and> tg_ended g' = tg_ended g
      \<and> (tg_ended g \<or> tg_phase g = Returned)"
    by auto
qed

lemma timed_close_ok: "timed_close g m = (g', m') \<Longrightarrow> gen_ok got g \<Longrightarrow> gen_ok got g'"
  and timed_close_fields: "timed_close g m = (g', m') \<Longrightarrow> tg_pos g' = tg_pos g \<and> tg_ended g' = tg_ended g \<and> tg_phase g' = Returned"
  by (auto simp: timed_close_def gen_ok_def split: gen_phase.splits)

subsection \<open>One turn of a connection\<close>

lemma sse_ok_body:
  assumes "sse_ok cfg got c"
  shows "(tg_ended (cn_gen c) \<and> cn_body c = map (sse_frame cfg (cn_request_id c)) got @ [sse_done])
    \<or> (\<exists>items. prefix items got \<and> cn_body c = map (sse_frame cfg (cn_request_id c)) items)"
proof -
  have shape: "cn_body c \<in> {[], map (sse_frame cfg (cn_request_id c)) got, map (sse_frame cfg (cn_request_id c)) (butlast got)}"
    if "\<not> (tg_ended (cn_gen c) \<and> cn_body c = map (sse_frame cfg (cn_request_id c)) got @ [sse_done])" "cn_pc c \<noteq> Gone"
    using assms that
    by (cases "cn_pc c"; cases "cn_pending c") (simp_all add: sse_ok_def Let_def split: option.splits read_result.splits)
  show ?thesis
  proof (cases "cn_pc c = Gone")
    case True
    then show ?thesis using assms by (simp add: sse_ok_def Let_def)
  next
    case False
    then show ?thesis using shape prefixeq_butlast [of got] by fastforce
  qed
qed

lemma stop_reading_ok:
  assumes ok: "conn_ok cfg w c" and st: "cn_stream c" and eq: "stop_reading (c, m, w') = (c', m', w'')"
  shows "w'' = w' \<and> conn_ok cfg w (c'\<lparr>cn_pc := Gone\<rparr>) \<and> cn_handle c' = cn_handle c \<and> cn_stream c'"
proof -
  have "sse_ok cfg (take (tg_pos (cn_gen c)) (queue_of w (cn_handle c))) c" using ok st by (simp add: conn_ok_def Let_def)
  note body = sse_ok_body [OF this]
  show ?thesis
proof (cases "cn_pending c = Some None")
  case True
  show ?thesis
  proof (cases "tg_phase (cn_gen c) = Reading")
    case phase: True
    obtain g1 m1 where cl: "timed_close (cn_gen c) m = (g1, m1)" by fastforce
    show ?thesis using body ok st eq True phase cl timed_close_fields [OF cl] timed_close_ok [OF cl]
      by (auto simp: stop_reading_def conn_ok_def Let_def sse_ok_def)
  next
    case False
    then show ?thesis using body ok st eq True by (auto simp: stop_reading_def conn_ok_def Let_def sse_ok_def)
  qed
next
  case False
  then show ?thesis using body ok st eq
    by (auto simp: stop_reading_def conn_ok_def Let_def sse_ok_def)
qed
qed

subsection \<open>The metrics add up\<close>

definition live :: "timed_gen \<Rightarrow> bool" where
  "live g \<longleftrightarrow> \<not> tg_ended g \<and> tg_phase g \<noteq> Fresh \<and> tg_phase g \<noteq> Returned"

text \<open>The gauge and the counters, and the part one request has in each.\<close>

definition meters :: "app_metrics \<Rightarrow> int list" where
  "meters m = [am_in_flight m, int (am_tokens_total m), int (length (am_ttft m) + length (am_itl m)),
     int (length (am_e2e m)), int (length (am_log m))]"

definition share :: "timed_gen \<Rightarrow> int list" where
  "share g = [of_bool (live g), int (tg_n_tokens g), int (tg_n_tokens g), of_bool (tg_ended g), of_bool (tg_ended g)]"

definition moves :: "app_metrics \<Rightarrow> timed_gen \<Rightarrow> app_metrics \<Rightarrow> timed_gen \<Rightarrow> bool" where
  "moves m g m' g' \<longleftrightarrow> (\<forall>i < 5. meters m' ! i - share g' ! i = meters m ! i - share g ! i)"

lemma all5: "(\<forall>i < (5::nat). P i) \<longleftrightarrow> P 0 \<and> P 1 \<and> P 2 \<and> P 3 \<and> P 4"
  by (auto simp: less_Suc_eq numeral_eq_Suc)

lemma moves_refl [simp]: "moves m g m g"
  by (simp add: moves_def)

lemma timed_next_moves:
  assumes "gen_ok (take (tg_pos g) (sh_queue h)) g" "timed_next cfg now u tid h g m = (g', m', r)"
  shows "moves m g m' g'"
proof (cases "tg_phase g")
  case Reading
  then have "\<not> tg_ended g" using assms(1) by (simp add: gen_ok_def)
  then show ?thesis using assms(2) Reading
    by (cases "sh_queue h ! tg_pos g")
      (auto simp: timed_next_def moves_def all5 meters_def share_def live_def Let_def split: if_splits option.splits)
next
  case (At_yield i)
  then show ?thesis using assms(2) gen_ok_yield [OF assms(1) At_yield]
    by (cases i) (auto simp: timed_next_def moves_def all5 meters_def share_def live_def)
next
  case Fresh
  then have "\<not> tg_ended g" using assms(1) by (auto simp: gen_ok_def closed_stream_def split: if_splits)
  then show ?thesis using assms(2) Fresh by (auto simp: timed_next_def moves_def all5 meters_def share_def live_def)
qed (use assms(2) in \<open>auto simp: timed_next_def\<close>)

lemma timed_close_moves: "timed_close g m = (g', m') \<Longrightarrow> moves m g m' g'"
  by (cases "tg_phase g") (auto simp: timed_close_def moves_def all5 meters_def share_def live_def)

lemma stop_reading_moves: "stop_reading (c, m, w) = (c', m', w') \<Longrightarrow> moves m (cn_gen c) m' (cn_gen c')"
  by (auto simp: stop_reading_def Let_def dest: timed_close_moves split: if_splits prod.splits)

lemma sum_list_update: "i < length xs \<Longrightarrow> (\<Sum>x\<leftarrow>xs[i := y]. f x) = (\<Sum>x\<leftarrow>xs. f x) + f y - (f (xs ! i) :: int)"
  by (induction xs arbitrary: i) (auto split: nat.splits)

subsection \<open>One turn of a connection\<close>

text \<open>What a turn does to the worker: nothing, an abort of its request, or the end of its submit.\<close>

definition worker_turn :: "connection \<Rightarrow> 'e worker_system \<Rightarrow> 'e worker_system \<Rightarrow> bool" where
  "worker_turn c w w' \<longleftrightarrow> w' = w \<or> w' = abort (cn_request_id c) w
     \<or> (cn_pc c = Submitting \<and> w' = (submit_check (cn_handle c) w)\<lparr>sy_checking := remove1 (cn_handle c) (sy_checking w)\<rparr>)"

definition turned :: "app_config \<Rightarrow> 'e conn_state \<Rightarrow> 'e conn_state \<Rightarrow> bool" where
  "turned cfg = (\<lambda>(c, m, w) (c', m', w'). conn_ok cfg w' c' \<and> cn_handle c' = cn_handle c \<and> cn_stream c' = cn_stream c
     \<and> cn_pc c' \<noteq> Submitting \<and> worker_turn c w w' \<and> moves m (cn_gen c) m' (cn_gen c'))"

lemma worker_turn_grows: "worker_turn c w w' \<Longrightarrow> handles_grow w w'"
  by (auto simp: worker_turn_def handles_grow_def submit_check_def abort_def put_item_def)

lemma conn_ok_abort [simp]: "conn_ok cfg (abort rid w) c = conn_ok cfg w c"
  by (simp add: conn_ok_def abort_def)

lemma conn_ok_request: "conn_ok cfg w c \<Longrightarrow> sh_request_id (ew_handles w (cn_handle c)) = cn_request_id c"
  by (simp add: conn_ok_def Let_def)

lemma streaming: "conn_ok cfg w c \<Longrightarrow> cn_pc c \<notin> {Submitting, Collecting, Finished} \<Longrightarrow> cn_stream c"
  by (auto simp: conn_ok_def Let_def collect_ok_def split: http_pc.splits if_splits)

lemma leaving_turned:
  assumes "conn_ok cfg w c" "cn_stream c" "worker_turn c w w'"
  shows "turned cfg (c, m, w) (leave (stop_reading (c, m, w')))"
proof -
  obtain c' m' w'' where eq: "stop_reading (c, m, w') = (c', m', w'')" by (metis prod_cases3)
  have *: "conn_ok cfg w' c" using conn_ok_grow [OF worker_turn_grows] assms by blast
  from stop_reading_ok [OF * assms(2) eq] stop_reading_moves [OF eq] assms(3) show ?thesis
    using assms(2) by (auto simp: turned_def leave_def eq)
qed

lemma submitted_turned:
  assumes ok: "conn_ok cfg w c" and eq: "submitted (c, m, w) = Some s"
  shows "turned cfg (c, m, w) s"
proof -
  let ?w = "(submit_check (cn_handle c) w)\<lparr>sy_checking := remove1 (cn_handle c) (sy_checking w)\<rparr>"
  let ?c = "c\<lparr>cn_pc := if cn_stream c then Polling else Collecting\<rparr>"
  have pc: "cn_pc c = Submitting" and s: "s = (?c, m, ?w)" using eq by (auto simp: submitted_def split: if_splits)
  have turn: "worker_turn c w ?w" using pc by (simp add: worker_turn_def)
  have "gen_ok [] g \<Longrightarrow> \<not> tg_ended g" for g by (simp add: gen_ok_def closed_stream_def split: if_splits)
  then have "conn_ok cfg w ?c" using ok pc
    by (auto simp: conn_ok_def Let_def sse_ok_def collect_ok_def gen_ok_def split: if_splits)
  then show ?thesis using s turn conn_ok_grow [OF worker_turn_grows [OF turn]] by (auto simp: turned_def)
qed

lemma poll_turned:
  assumes ok: "conn_ok cfg w c" and eq: "poll disc (c, m, w) = Some s"
  shows "turned cfg (c, m, w) s"
proof (cases disc)
  case True
  have pc: "cn_pc c = Polling" and s: "s = leave (stop_reading (c, m, abort (cn_request_id c) w))"
    using eq True by (auto simp: poll_def abort_request_def conn_ok_request [OF ok] split: if_splits)
  have turn: "worker_turn c w (abort (cn_request_id c) w)" by (simp add: worker_turn_def)
  then show ?thesis unfolding s using leaving_turned [OF ok streaming [OF ok] turn] pc by simp
next
  case False
  then show ?thesis using eq ok streaming [OF ok]
    by (auto simp: poll_def turned_def worker_turn_def conn_ok_def Let_def sse_ok_def
        split: if_splits option.splits read_result.splits)
qed

lemma cancelled_turned:
  assumes ok: "conn_ok cfg w c" and eq: "cancelled (c, m, w) = Some s"
  shows "turned cfg (c, m, w) s"
proof -
  have pc: "cn_pc c \<in> {Polling, Awaiting}" and s: "s = leave (stop_reading (c, m, abort (cn_request_id c) w))"
    using eq by (auto simp: cancelled_def abort_request_def conn_ok_request [OF ok] split: if_splits)
  have turn: "worker_turn c w (abort (cn_request_id c) w)" by (simp add: worker_turn_def)
  then show ?thesis unfolding s using leaving_turned [OF ok streaming [OF ok] turn] pc by auto
qed

lemma dropped_turned:
  assumes ok: "conn_ok cfg w c" and eq: "dropped (c, m, w) = Some s"
  shows "turned cfg (c, m, w) s"
proof -
  have pc: "cn_pc c = At_done \<or> (\<exists>i. cn_pc c = At_frame i)" and s: "s = leave (stop_reading (c, m, w))"
    using eq by (auto simp: dropped_def split: http_pc.splits)
  have turn: "worker_turn c w w" by (simp add: worker_turn_def)
  then show ?thesis unfolding s using leaving_turned [OF ok streaming [OF ok] turn] pc by auto
qed

lemma waited_turned:
  assumes ok: "conn_ok cfg w c" and eq: "waited cfg (c, m, w) = Some s"
  shows "turned cfg (c, m, w) s"
proof -
  have pc: "cn_pc c = Awaiting" using eq by (auto simp: waited_def split: if_splits)
  have st: "cn_stream c" using streaming [OF ok] pc by simp
  have app: "gen_ok got g \<Longrightarrow> tg_phase g = At_yield i \<Longrightarrow> got = butlast got @ [i]" for got g i
    by (auto simp: gen_ok_def)
  let ?got = "take (tg_pos (cn_gen c)) (queue_of w (cn_handle c))"
  have "map f ?got = map f (butlast ?got) @ [f i]" if "tg_phase (cn_gen c) = At_yield i" for f :: "stream_item \<Rightarrow> string" and i
    using app [OF _ that] ok unfolding conn_ok_def Let_def by (metis map_append list.simps(8,9))
  then show ?thesis using eq ok pc st
    by (auto simp: waited_def turned_def worker_turn_def conn_ok_def Let_def sse_ok_def split: option.splits read_result.splits)
qed

lemma resumed_turned:
  assumes ok: "conn_ok cfg w c" and eq: "resumed (c, m, w) = Some s"
  shows "turned cfg (c, m, w) s"
proof -
  have st: "cn_stream c" by (rule streaming [OF ok]) (use eq in \<open>auto simp: resumed_def\<close>)
  have "tg_ended (cn_gen c) \<longleftrightarrow> (\<exists>r. i = StreamEnd r)" if "tg_phase (cn_gen c) = At_yield i" for i
    using ok that gen_ok_yield unfolding conn_ok_def Let_def by blast
  then show ?thesis using eq ok st
    by (auto simp: resumed_def turned_def worker_turn_def conn_ok_def Let_def sse_ok_def split: http_pc.splits stream_item.splits)
qed

lemma collected_turned:
  assumes ok: "conn_ok cfg w c" and eq: "collected (c, m, w) = Some s"
  shows "turned cfg (c, m, w) s"
proof -
  obtain g m' where cl: "timed_close (cn_gen c) m = (g, m')" by fastforce
  have pc: "cn_pc c = Finished \<or> cn_pc c = Gone" and s: "s = (c\<lparr>cn_gen := g\<rparr>, m', w)"
    using eq cl by (auto simp: collected_def split: if_splits)
  show ?thesis using ok pc s timed_close_ok [OF cl] timed_close_fields [OF cl] timed_close_moves [OF cl]
    by (auto simp: turned_def worker_turn_def conn_ok_def Let_def sse_ok_def collect_ok_def split: if_splits)
qed

lemma read_turn_turned:
  assumes ok: "conn_ok cfg w c" and eq: "read_turn cfg now u tid (c, m, w) = Some s"
  shows "turned cfg (c, m, w) s"
proof -
  let ?h = "ew_handles w (cn_handle c)"
  obtain g m' r where nx: "timed_next cfg now u tid ?h (cn_gen c) m = (g, m', r)" by (metis prod_cases3)
  have gok: "gen_ok (take (tg_pos (cn_gen c)) (sh_queue ?h)) (cn_gen c)" using ok by (simp add: conn_ok_def Let_def)
  note N = timed_next_ok [OF gok nx] and M = timed_next_moves [OF gok nx]
  show ?thesis
  proof (cases "cn_pending c = Some None")
    case True
    have st: "cn_stream c" using ok True by (auto simp: conn_ok_def Let_def collect_ok_def split: if_splits)
    have "cn_pc c = Polling \<or> cn_pc c = Awaiting" "\<not> tg_ended (cn_gen c)" "tg_phase (cn_gen c) \<noteq> Returned"
      using ok st True by (auto simp: conn_ok_def Let_def sse_ok_def split: http_pc.splits)
    then show ?thesis using ok st True eq nx N M
      by (cases r; cases "the r")
        (auto simp: read_turn_def turned_def worker_turn_def conn_ok_def Let_def sse_ok_def)
  next
    case False
    have pc: "cn_pc c = Collecting" using eq nx False by (simp add: read_turn_def Let_def split: if_splits)
    have st: "\<not> cn_stream c" using ok pc by (auto simp: conn_ok_def Let_def sse_ok_def split: if_splits)
    show ?thesis
    proof (cases r)
      case None
      then show ?thesis using ok st pc False eq nx N M
        by (auto simp: read_turn_def turned_def worker_turn_def conn_ok_def Let_def collect_ok_def)
    next
      case (Some rr)
      then show ?thesis using ok st pc False eq nx N M
        by (cases rr) (auto simp: read_turn_def turned_def worker_turn_def conn_ok_def Let_def collect_ok_def split: stream_item.splits)
    qed
  qed
qed

subsection \<open>Every interleaving of the server\<close>

definition app_inv :: "app_config \<Rightarrow> 'e app \<Rightarrow> bool" where
  "app_inv cfg a \<longleftrightarrow> distinct (map cn_handle (ap_conns a))
     \<and> (\<forall>c \<in> set (ap_conns a). conn_ok cfg (ap_worker a) c
          \<and> (cn_pc c = Submitting \<longrightarrow> cn_handle c \<in> set (sy_checking (ap_worker a))))
     \<and> (\<forall>i < 5. meters (ap_metrics a) ! i = (\<Sum>c\<leftarrow>ap_conns a. share (cn_gen c) ! i))"

lemma worker_turn_run:
  assumes "worker_turn c w w'" "cn_pc c = Submitting \<longrightarrow> cn_handle c \<in> set (sy_checking w)"
  shows "\<exists>evs. worker_run E evs w = Some w'"
proof -
  have "worker_run E [] w = Some w" by simp
  moreover have "worker_run E [Client_abort rid] w = Some (abort rid w)" for rid by simp
  moreover have "h \<in> set (sy_checking w) \<Longrightarrow>
      worker_run E [Submit_check h] w = Some ((submit_check h w)\<lparr>sy_checking := remove1 h (sy_checking w)\<rparr>)" for h by simp
  ultimately show ?thesis using assms unfolding worker_turn_def by blast
qed

lemma worker_turn_checking:
  "worker_turn c w w' \<Longrightarrow> h \<in> set (sy_checking w) \<Longrightarrow> h \<noteq> cn_handle c \<Longrightarrow> h \<in> set (sy_checking w')"
  by (auto simp: worker_turn_def abort_def)

lemma turned_app:
  assumes inv: "app_inv cfg a" and i: "i < length (ap_conns a)"
    and t: "turned cfg (ap_conns a ! i, ap_metrics a, ap_worker a) (c, m, w)"
  shows "app_inv cfg (a\<lparr>ap_conns := (ap_conns a)[i := c], ap_metrics := m, ap_worker := w\<rparr>)
    \<and> (\<exists>evs. worker_run E evs (ap_worker a) = Some w)"
proof
  let ?cs = "ap_conns a" let ?c = "?cs ! i"
  have T: "conn_ok cfg w c" "cn_handle c = cn_handle ?c" "cn_pc c \<noteq> Submitting" "worker_turn ?c (ap_worker a) w"
    "moves (ap_metrics a) (cn_gen ?c) m (cn_gen c)" using t by (auto simp: turned_def)
  have hs: "map cn_handle (?cs[i := c]) = map cn_handle ?cs" using T(2) i by (metis list_update_id map_update nth_map)
  have dist: "distinct (map cn_handle ?cs)" using inv by (simp add: app_inv_def)
  have "conn_ok cfg w d \<and> (cn_pc d = Submitting \<longrightarrow> cn_handle d \<in> set (sy_checking w))" if "d \<in> set (?cs[i := c])" for d
  proof -
    obtain j where j: "j < length ?cs" "d = ?cs[i := c] ! j" using \<open>d \<in> _\<close> by (auto simp: in_set_conv_nth)
    show ?thesis
    proof (cases "j = i")
      case True
      then show ?thesis using T(1,3) j i by simp
    next
      case False
      then have d: "d = ?cs ! j" using j by simp
      have "cn_handle d \<noteq> cn_handle ?c" using dist d j i False by (metis distinct_conv_nth length_map nth_map)
      moreover have "conn_ok cfg (ap_worker a) d" "cn_pc d = Submitting \<longrightarrow> cn_handle d \<in> set (sy_checking (ap_worker a))"
        using inv d j(1) by (auto simp: app_inv_def)
      ultimately show ?thesis using conn_ok_grow [OF worker_turn_grows [OF T(4)]] worker_turn_checking [OF T(4)] by blast
    qed
  qed
  moreover have "meters m ! k = (\<Sum>d\<leftarrow>?cs[i := c]. share (cn_gen d) ! k)" if "k < 5" for k
    using inv T(5) that i by (simp add: sum_list_update app_inv_def moves_def algebra_simps)
  ultimately show "app_inv cfg (a\<lparr>ap_conns := ?cs[i := c], ap_metrics := m, ap_worker := w\<rparr>)"
    using dist hs by (simp add: app_inv_def)
  have "cn_pc ?c = Submitting \<longrightarrow> cn_handle ?c \<in> set (sy_checking (ap_worker a))" using inv i by (simp add: app_inv_def)
  then show "\<exists>evs. worker_run E evs (ap_worker a) = Some w" by (rule worker_turn_run [OF T(4)])
qed

lemma with_conn_inv:
  assumes "app_inv cfg a" "with_conn i f a = Some a'"
    and "\<And>c m w s. conn_ok cfg w c \<Longrightarrow> f (c, m, w) = Some s \<Longrightarrow> turned cfg (c, m, w) s"
  shows "app_inv cfg a' \<and> (\<exists>evs. worker_run E evs (ap_worker a) = Some (ap_worker a'))"
proof -
  obtain c m w where i: "i < length (ap_conns a)" and f: "f (ap_conns a ! i, ap_metrics a, ap_worker a) = Some (c, m, w)"
    and a': "a' = a\<lparr>ap_conns := (ap_conns a)[i := c], ap_metrics := m, ap_worker := w\<rparr>"
    using assms(2) by (auto simp: with_conn_def split: if_splits)
  have "conn_ok cfg (ap_worker a) (ap_conns a ! i)" using assms(1) i by (simp add: app_inv_def)
  from turned_app [OF assms(1) i assms(3) [OF this f]] show ?thesis by (simp add: a')
qed

lemma app_inv_worker:
  assumes "app_inv cfg a" "grows (ap_worker a) w"
  shows "app_inv cfg (a\<lparr>ap_worker := w\<rparr>)"
  using assms conn_ok_grow [of "ap_worker a" w] by (auto simp: app_inv_def grows_def)

lemma completions_inv:
  assumes inv: "app_inv cfg a"
  shows "app_inv cfg (completions body uuid start a)"
    and "\<exists>evs. worker_run E evs (ap_worker a) = Some (ap_worker (completions body uuid start a))"
proof -
  let ?w = "ap_worker a" and ?rid = "request_name uuid body" and ?a = "completions body uuid start a"
  let ?sp = "\<lparr>max_tokens = cr_max_tokens body, eos_token_id = cr_eos_token_id body\<rparr>"
  let ?w' = "submit_put [] (cr_prompt body) ?sp (Some ?rid) (cr_timeout_s body) ?w"
  note F = submit_put_fields [of "[]" "cr_prompt body" ?sp "Some ?rid" "cr_timeout_s body" ?w]
  have wa: "ap_worker ?a = ?w'\<lparr>sy_checking := sy_checking ?w @ [ew_next_handle ?w]\<rparr>"
    by (simp add: completions_def Let_def)
  have "worker_run E [Submit_put [] (cr_prompt body) ?sp (Some ?rid) (cr_timeout_s body)] ?w = Some (ap_worker ?a)"
    by (simp add: wa)
  then show "\<exists>evs. worker_run E evs ?w = Some (ap_worker ?a)" by blast
  have "?rid \<noteq> []" by (simp add: request_name_def split: option.splits)
  then have rid: "sh_request_id (ew_handles ?w' (ew_next_handle ?w)) = ?rid" by (simp add: submit_put_def StreamHandle_def Let_def)
  have grow: "handles_grow ?w (ap_worker ?a)" using submit_put_grows [of ?w] by (simp add: wa grows_def handles_grow_def)
  define c where "c = \<lparr>cn_handle = ew_next_handle ?w, cn_request_id = ?rid, cn_stream = cr_stream body,
    cn_pc = Submitting, cn_pending = None, cn_gen = timed start, cn_body = [], cn_token_ids = [],
    cn_finish_reason = None, cn_response = None\<rparr>"
  have ap: "ap_conns ?a = ap_conns a @ [c]" "ap_metrics ?a = ap_metrics a" "cn_handle c = ew_next_handle ?w" "cn_gen c = timed start"
    by (simp_all add: completions_def Let_def c_def)
  have c: "conn_ok cfg (ap_worker ?a) c"
    using rid F(5,7) by (simp add: wa c_def conn_ok_def gen_ok_def timed_def only_tokens_def sse_ok_def collect_ok_def)
  have "cn_handle d < ew_next_handle ?w" if "d \<in> set (ap_conns a)" for d using inv that by (auto simp: app_inv_def conn_ok_def Let_def)
  then have "distinct (map cn_handle (ap_conns ?a))" using inv ap by (force simp: app_inv_def)
  moreover have "share (timed start) ! k = 0" if "k < 5" for k
    using that by (auto simp: share_def timed_def live_def less_Suc_eq numeral_eq_Suc)
  ultimately show "app_inv cfg ?a" using inv ap c conn_ok_grow [OF grow]
    by (auto simp: app_inv_def wa)
qed

lemma app_step_inv:
  assumes inv: "app_inv cfg a" and st: "app_step cfg E ev a = Some a'"
  shows "app_inv cfg a' \<and> (\<exists>evs. worker_run E evs (ap_worker a) = Some (ap_worker a'))"
proof (cases ev)
  case (Worker_thread now seconds t)
  then obtain w where w: "engine_thread E now seconds t (ap_worker a) = Some w" "a' = a\<lparr>ap_worker := w\<rparr>" using st by auto
  have "\<exists>evs. worker_run E evs (ap_worker a) = Some w" by (rule exI [of _ "[Engine_thread now seconds t]"]) (simp add: w)
  then show ?thesis using app_inv_worker [OF inv engine_thread_grows [OF w(1)]] w(2) by auto
next
  case Shutdown
  have "\<exists>evs. worker_run E evs (ap_worker a) = Some ((ap_worker a)\<lparr>ew_stop := True\<rparr>)"
    by (rule exI [of _ "[Stop]"]) simp
  then show ?thesis using st Shutdown app_inv_worker [OF inv, of "(ap_worker a)\<lparr>ew_stop := True\<rparr>"] by (auto simp: grows_defs)
next
  case (Post body uuid start)
  then show ?thesis using st completions_inv [OF inv] by auto
next
  case (Submitted i)
  then show ?thesis using st with_conn_inv [OF inv _ submitted_turned] by simp
next
  case (Poll i d)
  then show ?thesis using st with_conn_inv [OF inv _ poll_turned] by simp
next
  case (Read i now u tid)
  then show ?thesis using st with_conn_inv [OF inv _ read_turn_turned] by simp
next
  case (Waited i)
  then show ?thesis using st with_conn_inv [OF inv _ waited_turned] by simp
next
  case (Resumed i)
  then show ?thesis using st with_conn_inv [OF inv _ resumed_turned] by simp
next
  case (Cancelled i)
  then show ?thesis using st with_conn_inv [OF inv _ cancelled_turned] by simp
next
  case (Dropped i)
  then show ?thesis using st with_conn_inv [OF inv _ dropped_turned] by simp
next
  case (Collected i)
  then show ?thesis using st with_conn_inv [OF inv _ collected_turned] by simp
qed

lemma app_run_inv:
  "app_inv cfg a \<Longrightarrow> app_run cfg E evs a = Some a'
    \<Longrightarrow> app_inv cfg a' \<and> (\<exists>evs. worker_run E evs (ap_worker a) = Some (ap_worker a'))"
proof (induction evs arbitrary: a)
  case Nil
  then show ?case by (auto intro: exI [of _ "[]"])
next
  case (Cons ev evs)
  then obtain b where b: "app_step cfg E ev a = Some b" "app_run cfg E evs b = Some a'" by (auto split: option.splits)
  from app_step_inv [OF Cons.prems(1) b(1)] obtain es where "app_inv cfg b" "worker_run E es (ap_worker a) = Some (ap_worker b)" by blast
  moreover from Cons.IH [OF this(1) b(2)] obtain es' where "app_inv cfg a'" "worker_run E es' (ap_worker b) = Some (ap_worker a')" by blast
  ultimately have "worker_run E (es @ es') (ap_worker a) = Some (ap_worker a')" by (simp add: worker_run_append)
  then show ?case using \<open>app_inv cfg a'\<close> by blast
qed

lemma app_inv_init: "app_inv cfg (create_app w)"
  by (simp add: app_inv_def create_app_def all5 meters_def new_app_metrics_def)

subsection \<open>The spans of a trace\<close>

lemma phase_spans_tile:
  "prev # map sp_end (phase_spans n prev ps) = map sp_start (phase_spans n prev ps) @ [last (prev # map sp_end (phase_spans n prev ps))]"
  by (induction n prev ps rule: phase_spans.induct) auto

text \<open>The spans of a trace tile the request from its submit to its end: each starts where the one before ended.\<close>

lemma trace_spans_tile:
  assumes "trace_request cfg u tid h start first last_t end_t n st = Some tr"
  shows "start # map sp_end (tr_spans tr) = map sp_start (tr_spans tr) @ [end_t]"
proof -
  have "last (start # map sp_end (phase_spans n start (ps @ [(s, Some end_t)]))) = end_t" for ps s
    by (induction n start ps rule: phase_spans.induct) auto
  from this [of "[(''queue'', sh_scheduled_ns h), (''prefill'', first), (''decode'', last_t)]" "''respond''"]
  show ?thesis using assms phase_spans_tile [of start n] unfolding trace_request_def Let_def
    by (auto split: if_splits)
qed

subsection \<open>What a client receives\<close>

lemma closed_prefix: "closed_stream got \<Longrightarrow> prefix got q \<Longrightarrow> stream q = got"
  by (auto simp: closed_stream_def prefix_def stream_closed)

lemma stream_append_tokens: "stream (map StreamToken ts @ q) = map StreamToken ts @ stream q"
  by (induction ts) auto

lemma gen_ok_open: "gen_ok got g \<Longrightarrow> \<not> tg_ended g \<Longrightarrow> only_tokens got"
  by (simp add: gen_ok_def)

lemma got_stream: "gen_ok got g \<Longrightarrow> prefix got q \<Longrightarrow> prefix got (stream q)"
  using closed_prefix [of got q]
  by (cases "tg_ended g") (auto simp: gen_ok_def only_tokens_def prefix_def stream_append_tokens)

text \<open>While the engine is alive nothing is put behind an end marker.\<close>

lemma alive_stream:
  assumes "worker_inv E sy" "ew_error sy = None" "h < ew_next_handle sy"
  shows "stream (queue_of sy h) = queue_of sy h"
proof -
  have "\<exists>K. streams_ok K sy" using assms by (auto simp: worker_inv_def split: engine_pc.splits)
  then have "only_tokens (queue_of sy h) \<or> closed_stream (queue_of sy h)"
    using assms(3) by (auto simp: streams_ok_def accounted_def split: if_splits)
  then show ?thesis using stream_open stream_closed [where items = "[]"] by (auto simp: only_tokens_def closed_stream_def)
qed

definition whole_answer :: "app_config \<Rightarrow> connection \<Rightarrow> int list \<Rightarrow> request_status \<Rightarrow> completion_payload" where
  "whole_answer cfg c ts r = CompletionResponse (cn_request_id c) (ac_model_name cfg)
     [\<lparr>cc_index = 0, cc_text = render_text ts, cc_token_ids = ts, cc_finish_reason = Some (finish_reason r)\<rparr>]"

lemma conn_answer:
  assumes ok: "conn_ok cfg w c" and q: "q = stream (queue_of w (cn_handle c))"
  shows "if cn_stream c
     then (\<exists>items. prefix items q \<and> cn_body c = map (sse_frame cfg (cn_request_id c)) items)
        \<or> cn_body c = map (sse_frame cfg (cn_request_id c)) q @ [sse_done]
     else cn_response c = None \<or> (\<exists>ts r. q = map StreamToken ts @ [StreamEnd r] \<and> cn_response c = Some (whole_answer cfg c ts r))"
    and "cn_pc c = Finished \<Longrightarrow> \<exists>ts r. q = map StreamToken ts @ [StreamEnd r]
     \<and> (if cn_stream c then cn_body c = map (sse_frame cfg (cn_request_id c)) q @ [sse_done]
        else cn_response c = Some (whole_answer cfg c ts r))"
proof -
  let ?got = "take (tg_pos (cn_gen c)) (queue_of w (cn_handle c))"
  have g: "gen_ok ?got (cn_gen c)" and pre: "prefix ?got (queue_of w (cn_handle c))"
    using ok by (simp_all add: conn_ok_def Let_def take_is_prefix)
  have pq: "prefix ?got q" unfolding q by (rule got_stream [OF g pre])
  have all: "q = ?got" "closed_stream ?got" if "tg_ended (cn_gen c)"
    using that g closed_prefix [OF _ pre] q by (auto simp: gen_ok_def)
  have cl: "tg_ended (cn_gen c)" if "?got = map StreamToken ts @ [StreamEnd r]" for ts r
  proof (rule ccontr)
    assume "\<not> tg_ended (cn_gen c)"
    then have "only_tokens ?got" by (rule gen_ok_open [OF g])
    then show False using only_not_closed that by (auto simp: closed_stream_def)
  qed
  have sse: "sse_ok cfg ?got c" if "cn_stream c" using ok that by (simp add: conn_ok_def Let_def)
  have col: "collect_ok cfg ?got c" if "\<not> cn_stream c" using ok that by (simp add: conn_ok_def Let_def)
  have body: "(\<exists>items. prefix items q \<and> cn_body c = map (sse_frame cfg (cn_request_id c)) items)
      \<or> cn_body c = map (sse_frame cfg (cn_request_id c)) q @ [sse_done]" if "cn_stream c"
    using sse_ok_body [OF sse [OF that]] all(1) prefix_order.trans [OF _ pq] by metis
  have resp: "cn_response c = None \<or> (\<exists>ts r. ?got = map StreamToken ts @ [StreamEnd r] \<and> cn_response c = Some (whole_answer cfg c ts r))"
    if "\<not> cn_stream c"
    using col [OF that] by (auto simp: collect_ok_def whole_answer_def split: http_pc.splits)
  show "if cn_stream c
     then (\<exists>items. prefix items q \<and> cn_body c = map (sse_frame cfg (cn_request_id c)) items)
        \<or> cn_body c = map (sse_frame cfg (cn_request_id c)) q @ [sse_done]
     else cn_response c = None \<or> (\<exists>ts r. q = map StreamToken ts @ [StreamEnd r] \<and> cn_response c = Some (whole_answer cfg c ts r))"
    using body resp cl all(1) by (cases "cn_stream c") (simp, metis)
  assume fin: "cn_pc c = Finished"
  show "\<exists>ts r. q = map StreamToken ts @ [StreamEnd r]
     \<and> (if cn_stream c then cn_body c = map (sse_frame cfg (cn_request_id c)) q @ [sse_done]
        else cn_response c = Some (whole_answer cfg c ts r))"
  proof (cases "cn_stream c")
    case True
    then have "tg_ended (cn_gen c)" "cn_body c = map (sse_frame cfg (cn_request_id c)) ?got @ [sse_done]"
      using sse fin by (simp_all add: sse_ok_def Let_def)
    then show ?thesis using all True unfolding closed_stream_def by metis
  next
    case False
    then have "tg_ended (cn_gen c)" "\<exists>ts r. ?got = map StreamToken ts @ [StreamEnd r] \<and> cn_response c = Some (whole_answer cfg c ts r)"
      using col fin by (simp_all add: collect_ok_def whole_answer_def)
    then show ?thesis using all(1) False by simp
  qed
qed

text \<open>C10: Whatever the interleaving of clients, coroutines and engine thread, a streamed answer is at
  every moment one frame per item for a first part of its request's stream, or all of it and the
  sentinel; one that went through to its end has a frame per token, one with the finish reason,
  and the sentinel.  An answer that is not streamed carries exactly the tokens of the stream and
  its finish reason.  While the engine is alive, the stream is everything the engine put into it.
\<close>

theorem answers_relay_streams:
  assumes "app_run cfg (llm_engine_shape name) evs (create_app (EngineWorker e timeout)) = Some a"
    and "c \<in> set (ap_conns a)" and "queue = queue_of (ap_worker a) (cn_handle c)" and "q = stream queue"
    and "frames = map (sse_frame cfg (cn_request_id c))"
  shows "(if cn_stream c
          then (\<exists>items. prefix items q \<and> cn_body c = frames items) \<or> cn_body c = frames q @ [sse_done]
          else cn_response c = None \<or> (\<exists>ts r. q = map StreamToken ts @ [StreamEnd r] \<and> cn_response c = Some (whole_answer cfg c ts r)))
     \<and> (cn_pc c = Finished \<longrightarrow> (\<exists>ts r. q = map StreamToken ts @ [StreamEnd r]
          \<and> (if cn_stream c then cn_body c = frames q @ [sse_done] else cn_response c = Some (whole_answer cfg c ts r))))
     \<and> (ew_error (ap_worker a) = None \<longrightarrow> q = queue)"
proof -
  from app_run_inv [OF app_inv_init assms(1)] obtain es where inv: "app_inv cfg a"
    and run: "worker_run (llm_engine_shape name) es (EngineWorker e timeout) = Some (ap_worker a)"
    by (auto simp: create_app_def)
  have ok: "conn_ok cfg (ap_worker a) c" using inv assms(2) by (simp add: app_inv_def)
  have "worker_inv (llm_engine_shape name) (ap_worker a)"
    by (rule worker_run_inv [OF llm.engine_iface_axioms worker_inv_init run])
  moreover have "cn_handle c < ew_next_handle (ap_worker a)" using ok by (simp add: conn_ok_def Let_def)
  ultimately have "ew_error (ap_worker a) = None \<Longrightarrow> q = queue" using alive_stream assms(3,4) by blast
  moreover note conn_answer [OF ok assms(4) [unfolded assms(3)]]
  ultimately show ?thesis unfolding assms(5) by blast
qed

subsection \<open>Bookkeeping\<close>

text \<open>In every interleaving the metrics add up over the requests served so far: the gauge of requests in
  flight counts exactly the token streams that are open, the token counter the tokens handed on,
  each timed once (first token or gap), and every request that ended, and no other, has one
  latency observation and one line in the request log.
\<close>

theorem metrics_add_up:
  assumes "app_run cfg E evs (create_app w) = Some a" and "gens = map cn_gen (ap_conns a)"
  shows "am_in_flight (ap_metrics a) = int (length (filter live gens))
     \<and> am_tokens_total (ap_metrics a) = sum_list (map tg_n_tokens gens)
     \<and> length (am_ttft (ap_metrics a)) + length (am_itl (ap_metrics a)) = am_tokens_total (ap_metrics a)
     \<and> length (am_e2e (ap_metrics a)) = length (filter tg_ended gens)
     \<and> length (am_log (ap_metrics a)) = length (filter tg_ended gens)"
proof -
  have count: "(\<Sum>c\<leftarrow>cs. of_bool (P (cn_gen c))) = int (length (filter P (map cn_gen cs)))" for P and cs :: "connection list"
    by (induction cs) auto
  have tokens: "(\<Sum>c\<leftarrow>cs. int (tg_n_tokens (cn_gen c))) = int (sum_list (map tg_n_tokens (map cn_gen cs)))" for cs :: "connection list"
    by (induction cs) auto
  have "app_inv cfg a" using app_run_inv [OF app_inv_init assms(1)] by blast
  then have "\<forall>i < 5. meters (ap_metrics a) ! i = (\<Sum>c\<leftarrow>ap_conns a. share (cn_gen c) ! i)" by (simp add: app_inv_def)
  then show ?thesis unfolding all5 meters_def share_def by (simp add: count tokens assms(2) del: map_map)
qed

lemma leave_fields: "leave (stop_reading (c, m, w)) = (c', m', w') \<Longrightarrow> w' = w \<and> cn_body c' = cn_body c \<and> cn_pc c' = Gone"
  by (auto simp: leave_def stop_reading_def Let_def split: if_splits prod.splits)

lemma with_connE:
  assumes "with_conn j f a = Some a'" "i < length (ap_conns a)" "cn_pc (ap_conns a ! i) \<noteq> Gone" "cn_pc (ap_conns a' ! i) = Gone"
  obtains m where "f (ap_conns a ! i, ap_metrics a, ap_worker a) = Some (ap_conns a' ! i, m, ap_worker a')" "i = j"
  using assms by (cases "i = j") (auto simp: with_conn_def split: if_splits)

lemma going_poll: "poll d (c, m, w) = Some (c', m', w') \<Longrightarrow> cn_pc c' = Gone
    \<Longrightarrow> cn_pc c = Polling \<and> cn_body c' = cn_body c \<and> w' = abort (sh_request_id (ew_handles w (cn_handle c))) w"
  by (auto simp: poll_def abort_request_def dest: leave_fields split: if_splits)

lemma going_cancelled: "cancelled (c, m, w) = Some (c', m', w')
    \<Longrightarrow> cn_pc c \<in> {Polling, Awaiting} \<and> cn_body c' = cn_body c \<and> w' = abort (sh_request_id (ew_handles w (cn_handle c))) w"
  by (auto simp: cancelled_def abort_request_def dest: leave_fields split: if_splits)

lemma going_dropped: "dropped (c, m, w) = Some (c', m', w')
    \<Longrightarrow> (\<exists>item. cn_pc c \<in> {At_frame item, At_done}) \<and> cn_body c' = cn_body c \<and> w' = w"
  by (auto simp: dropped_def dest: leave_fields split: http_pc.splits)

lemma not_going:
  "submitted (c, m, w) = Some (c', m', w') \<Longrightarrow> cn_pc c' \<noteq> Gone"
  "waited cfg (c, m, w) = Some (c', m', w') \<Longrightarrow> cn_pc c' \<noteq> Gone"
  "resumed (c, m, w) = Some (c', m', w') \<Longrightarrow> cn_pc c' \<noteq> Gone"
  "collected (c, m, w) = Some (c', m', w') \<Longrightarrow> cn_pc c' = cn_pc c"
  "read_turn cfg now u tid (c, m, w) = Some (c', m', w') \<Longrightarrow> cn_pc c \<noteq> Gone \<Longrightarrow> cn_pc c' \<noteq> Gone"
  by (auto simp: submitted_def waited_def resumed_def collected_def read_turn_def Let_def
    split: if_splits prod.splits option.splits read_result.splits http_pc.splits stream_item.splits)

text \<open>C34: A client that is gone is noticed: when a streamed answer is left at one of its awaits (the
  poll saw the disconnect, or the server cancelled it), an abort of exactly its request is queued
  for the engine, and nothing more is sent.  Left while a frame is being sent, it queues no
  abort: the generator gets \<open>GeneratorExit\<close>, which the handler for \<open>CancelledError\<close> does not catch.
\<close>

theorem departed_client_aborted:
  assumes "app_run cfg E evs (create_app w) = Some a" and step: "app_step cfg E ev a = Some a'" and i: "i < length (ap_conns a)"
    and pc: "cn_pc (ap_conns a ! i) \<noteq> Gone" "cn_pc (ap_conns a' ! i) = Gone"
  shows "ew_incoming (ap_worker a') = ew_incoming (ap_worker a)
       @ (case ev of Dropped _ \<Rightarrow> [] | _ \<Rightarrow> [Abort (cn_request_id (ap_conns a ! i))])
     \<and> cn_body (ap_conns a' ! i) = cn_body (ap_conns a ! i)
     \<and> (case ev of Dropped _ \<Rightarrow> \<exists>item. cn_pc (ap_conns a ! i) \<in> {At_frame item, At_done}
        | _ \<Rightarrow> cn_pc (ap_conns a ! i) \<in> {Polling, Awaiting})"
proof -
  have "app_inv cfg a" using app_run_inv [OF app_inv_init assms(1)] by blast
  then have rid: "sh_request_id (ew_handles (ap_worker a) (cn_handle (ap_conns a ! i))) = cn_request_id (ap_conns a ! i)"
    using i by (simp add: app_inv_def conn_ok_def Let_def)
  show ?thesis
  proof (cases ev)
    case (Poll j d)
    then obtain m where "poll d (ap_conns a ! i, ap_metrics a, ap_worker a) = Some (ap_conns a' ! i, m, ap_worker a')"
      using with_connE [OF _ i pc] step by (metis app_step.simps(5))
    from going_poll [OF this pc(2)] rid show ?thesis using Poll by (simp add: abort_def)
  next
    case (Cancelled j)
    then obtain m where "cancelled (ap_conns a ! i, ap_metrics a, ap_worker a) = Some (ap_conns a' ! i, m, ap_worker a')"
      using with_connE [OF _ i pc] step by (metis app_step.simps(9))
    from going_cancelled [OF this] rid show ?thesis using Cancelled by (simp add: abort_def)
  next
    case (Dropped j)
    then obtain m where "dropped (ap_conns a ! i, ap_metrics a, ap_worker a) = Some (ap_conns a' ! i, m, ap_worker a')"
      using with_connE [OF _ i pc] step by (metis app_step.simps(10))
    from going_dropped [OF this] show ?thesis using Dropped by simp
  next
    case (Post body uuid start)
    then show ?thesis using step i pc by (auto simp: completions_def Let_def nth_append)
  qed (use step pc in \<open>auto elim!: with_connE [OF _ i pc] dest: not_going\<close>)
qed

subsection \<open>A request whose engine dies\<close>

text \<open>
  Two requests under one name: the engine thread dies on the second, and the streamed answer to
  the first ends with an abort.
\<close>

definition demo_config :: app_config where
  "demo_config = \<lparr>ac_model_name = ''m'', ac_trace_sample_rate = 0, ac_trace_slow_s = 10, ac_json = cp_id\<rparr>"

definition demo_body :: completion_request where
  "demo_body = (CompletionRequest [0])\<lparr>cr_stream := True, cr_request_id := Some ''a''\<rparr>"

definition demo_dies :: "app_event list" where
  "demo_dies = [Post demo_body [] 0, Submitted 0, Post demo_body [] 0, Submitted 1,
     Worker_thread 0 0 0, Worker_thread 0 0 0, Worker_thread 0 0 0, Worker_thread 0 0 0]"

definition demo_answer :: "app_event list" where
  "demo_answer = [Poll 0 False, Read 0 0 1 [], Read 0 5 1 [], Waited 0, Resumed 0, Resumed 0]"

abbreviation demo_app :: "rat engine app" where
  "demo_app \<equiv> create_app (EngineWorker (tiny_engine 4 8) None)"

lemma app_run_append:
  "app_run cfg E (evs @ evs') a = (case app_run cfg E evs a of None \<Rightarrow> None | Some b \<Rightarrow> app_run cfg E evs' b)"
  by (induction evs arbitrary: a) (auto split: option.splits)

lemmas demo_defs = demo_dies_def demo_answer_def demo_body_def CompletionRequest_def create_app_def EngineWorker_def completions_def
  request_name_def submit_put_def submit_check_def submitted_def with_conn_def engine_thread_def loop_top_def drain_stage_def
  drain_item_def handle_submission_def llm_engine_shape_def engine_add_request_def add_request_def Let_def tiny_engine_fresh
  mk_request_def upd_req_def thread_result_def abort_everything_def end_all_def StreamHandle_def

lemma demo_run:
  "\<exists>a. app_run demo_config (llm_engine_shape (\<lambda>_. [])) (demo_dies @ demo_answer) demo_app = Some a \<and> length (ap_conns a) = 2
     \<and> cn_stream (ap_conns a ! 0) \<and> cn_pc (ap_conns a ! 0) = Finished \<and> queue_of (ap_worker a) (cn_handle (ap_conns a ! 0)) = [StreamEnd FINISHED_ABORTED]
     \<and> filter live (map cn_gen (ap_conns a)) = [] \<and> length (filter tg_ended (map cn_gen (ap_conns a))) = 1"
  by (simp add: demo_defs poll_def read_turn_def timed_def timed_next_def new_app_metrics_def waited_def resumed_def live_def)

text \<open>A streamed answer of one token: a frame for it, one with the finish reason, and the sentinel.\<close>

definition demo_served :: "app_event list" where
  "demo_served = [Post ((CompletionRequest [0, 1, 2])\<lparr>cr_stream := True, cr_max_tokens := 1, cr_request_id := Some ''a''\<rparr>) [] 0, Submitted 0,
     Worker_thread 0 0 0, Worker_thread 0 0 0, Worker_thread 0 0 0, Worker_thread 0 0 0, Worker_thread 0 0 0,
     Poll 0 False, Read 0 1 1 [], Read 0 1 1 [], Waited 0, Resumed 0,
     Poll 0 False, Read 0 2 1 [], Read 0 2 1 [], Waited 0, Resumed 0, Resumed 0]"

lemma demo_served_run:
  "case app_run demo_config (llm_engine_shape (\<lambda>_. [])) demo_served demo_app of None \<Rightarrow> False
   | Some a \<Rightarrow> ap_conns a \<noteq> [] \<and> cn_stream (hd (ap_conns a)) \<and> cn_pc (hd (ap_conns a)) = Finished \<and> cn_request_id (hd (ap_conns a)) = ''a''
       \<and> queue_of (ap_worker a) (cn_handle (hd (ap_conns a))) = [StreamToken 0, StreamEnd FINISHED_LENGTH_CAPPED]"
  by code_simp

theorem answers_relay_streams_witness:
  "\<exists>a. app_run demo_config (llm_engine_shape (\<lambda>_. [])) demo_served demo_app = Some a
     \<and> cn_body (hd (ap_conns a)) = [sse_frame demo_config ''a'' (StreamToken 0), sse_frame demo_config ''a'' (StreamEnd FINISHED_LENGTH_CAPPED), sse_done]"
proof -
  obtain a where a: "app_run demo_config (llm_engine_shape (\<lambda>_. [])) demo_served demo_app = Some a"
    "ap_conns a \<noteq> []" "cn_stream (hd (ap_conns a))" "cn_pc (hd (ap_conns a)) = Finished" "cn_request_id (hd (ap_conns a)) = ''a''"
    "queue_of (ap_worker a) (cn_handle (hd (ap_conns a))) = [StreamToken 0, StreamEnd FINISHED_LENGTH_CAPPED]"
    using demo_served_run by (auto split: option.splits)
  have "hd (ap_conns a) \<in> set (ap_conns a)" using a(2) by simp
  from answers_relay_streams [OF a(1) this refl refl refl] show ?thesis using a by (intro exI [of _ a]) simp
qed

theorem metrics_add_up_witness:
  "\<exists>a. app_run demo_config (llm_engine_shape (\<lambda>_. [])) (demo_dies @ demo_answer) demo_app = Some a
     \<and> am_in_flight (ap_metrics a) = 0 \<and> length (am_log (ap_metrics a)) = 1"
proof -
  obtain a where a: "app_run demo_config (llm_engine_shape (\<lambda>_. [])) (demo_dies @ demo_answer) demo_app = Some a"
    "filter live (map cn_gen (ap_conns a)) = []" "length (filter tg_ended (map cn_gen (ap_conns a))) = 1" using demo_run by blast
  from metrics_add_up [OF a(1) refl] show ?thesis using a by (intro exI [of _ a]) simp
qed

definition demo_leaves :: "app_event list" where
  "demo_leaves = [Post demo_body [] 0, Submitted 0]"

lemma demo_leaves_run:
  "\<exists>a a'. app_run demo_config (llm_engine_shape (\<lambda>_. [])) demo_leaves demo_app = Some a
     \<and> app_step demo_config (llm_engine_shape (\<lambda>_. [])) (Poll 0 True) a = Some a' \<and> length (ap_conns a) = 1
     \<and> cn_pc (ap_conns a ! 0) = Polling \<and> cn_pc (ap_conns a' ! 0) = Gone \<and> cn_request_id (ap_conns a ! 0) = ''a''"
  by (simp add: demo_leaves_def demo_defs poll_def leave_def stop_reading_def abort_request_def)

theorem departed_client_aborted_witness:
  "\<exists>a a'. app_run demo_config (llm_engine_shape (\<lambda>_. [])) demo_leaves demo_app = Some a
     \<and> app_step demo_config (llm_engine_shape (\<lambda>_. [])) (Poll 0 True) a = Some a'
     \<and> ew_incoming (ap_worker a') = ew_incoming (ap_worker a) @ [Abort ''a'']"
proof -
  obtain a a' where a: "app_run demo_config (llm_engine_shape (\<lambda>_. [])) demo_leaves demo_app = Some a"
    "app_step demo_config (llm_engine_shape (\<lambda>_. [])) (Poll 0 True) a = Some a'" "length (ap_conns a) = 1"
    "cn_pc (ap_conns a ! 0) = Polling" "cn_pc (ap_conns a' ! 0) = Gone" "cn_request_id (ap_conns a ! 0) = ''a''"
    using demo_leaves_run by blast
  from departed_client_aborted [OF a(1,2), of 0] a(3-6) have "ew_incoming (ap_worker a') = ew_incoming (ap_worker a) @ [Abort ''a'']"
    by simp
  then show ?thesis using a(1,2) by blast
qed

end
