(* ===== verification/Cuda_Graph.thy ===== *)
theory Cuda_Graph
  imports Engine_Properties
begin

text \<open>
  \<^verbatim>\<open>model/cuda_graph_decode.py\<close>: greedy decoding over one buffer of fixed size.  Every step runs the
  whole forward pass over the buffer, whose positions from \<open>cur_len\<close> on hold a filler token, reads
  the row before \<open>cur_len\<close> and writes the next token at \<open>cur_len\<close>; eagerly, or by replaying a
  captured graph.  The replay is torch's, an argument: what it leaves in the captured output, from
  the contents of the captured input.  Latencies come from outside.
\<close>

record decode_state =
  ds_input_ids :: "int list list"
  ds_cur_len :: nat

definition make_seeded_buffer :: "nat \<Rightarrow> nat \<Rightarrow> int list list or_raise" where
  "make_seeded_buffer batch_size max_seq =
     (if max_seq = 0 then Inl IndexError else Inr (replicate batch_size ((replicate max_seq 0)[0 := 1])))"

text \<open>The rest of a step, the same in both runs: the row read, the token written.\<close>

definition advance :: "nat \<Rightarrow> 'a::linorder list list list \<Rightarrow> decode_state \<Rightarrow> decode_state or_raise" where
  "advance max_seq logits st =
     (let cur = ds_cur_len st in
      if max_seq \<le> cur then Inl IndexError
      else Inr (st\<lparr>ds_input_ids := map2 (\<lambda>row lg. row[cur := int (argmax (lg ! (cur - 1)))]) (ds_input_ids st) logits,
                   ds_cur_len := cur + 1\<rparr>))"

definition eager_step :: "'a::linordered_field numerics \<Rightarrow> 'a llama_config \<Rightarrow> 'a llama_weights \<Rightarrow> decode_state \<Rightarrow> decode_state or_raise" where
  "eager_step num c W st =
     bindE (mapE (llama_forward num c W) (ds_input_ids st)) (\<lambda>logits. advance (max_seq_len c) logits st)"

definition graph_step :: "(int list list \<Rightarrow> 'a::linorder list list list or_raise) \<Rightarrow> nat \<Rightarrow> decode_state \<Rightarrow> decode_state or_raise" where
  "graph_step replay max_seq st = bindE (replay (ds_input_ids st)) (\<lambda>static_logits. advance max_seq static_logits st)"

fun repeat_step :: "('s \<Rightarrow> 's or_raise) \<Rightarrow> nat \<Rightarrow> 's \<Rightarrow> 's or_raise" where
  "repeat_step step 0 s = Inr s"
| "repeat_step step (Suc n) s = bindE (step s) (repeat_step step n)"

definition time_decode_loop :: "('s \<Rightarrow> 's or_raise) \<Rightarrow> nat \<Rightarrow> nat \<Rightarrow> (nat \<Rightarrow> rat) \<Rightarrow> 's \<Rightarrow> (rat list \<times> 's) or_raise" where
  "time_decode_loop step num_steps warmup_steps elapsed s =
     bindE (repeat_step step warmup_steps s) (\<lambda>s1.
     bindE (repeat_step step num_steps s1) (\<lambda>s2. Inr (map elapsed [0..<num_steps], s2)))"

definition run_eager :: "'a::linordered_field numerics \<Rightarrow> 'a llama_config \<Rightarrow> 'a llama_weights \<Rightarrow> nat \<Rightarrow> nat \<Rightarrow> nat
    \<Rightarrow> (nat \<Rightarrow> rat) \<Rightarrow> (rat list \<times> decode_state) or_raise" where
  "run_eager num c W batch_size num_steps warmup_steps elapsed =
     bindE (make_seeded_buffer batch_size (max_seq_len c)) (\<lambda>ids.
       time_decode_loop (eager_step num c W) num_steps warmup_steps elapsed \<lparr>ds_input_ids = ids, ds_cur_len = 1\<rparr>)"

text \<open>Three forward passes on a side stream and the one that is captured; their outputs are not read.\<close>

definition run_cuda_graph :: "'a::linordered_field numerics \<Rightarrow> 'a llama_config \<Rightarrow> 'a llama_weights
    \<Rightarrow> (int list list \<Rightarrow> 'a list list list or_raise) \<Rightarrow> nat \<Rightarrow> nat \<Rightarrow> nat \<Rightarrow> (nat \<Rightarrow> rat) \<Rightarrow> (rat list \<times> decode_state) or_raise" where
  "run_cuda_graph num c W replay batch_size num_steps warmup_steps elapsed =
     bindE (make_seeded_buffer batch_size (max_seq_len c)) (\<lambda>ids.
     bindE (repeat_step (\<lambda>_. bindE (mapE (llama_forward num c W) ids) (\<lambda>_. Inr ())) 4 ()) (\<lambda>_.
       time_decode_loop (graph_step replay (max_seq_len c)) num_steps warmup_steps elapsed \<lparr>ds_input_ids = ids, ds_cur_len = 1\<rparr>))"

text \<open>\<open>main\<close>'s check that the buffer has room.\<close>

definition check_room :: "nat \<Rightarrow> nat \<Rightarrow> nat \<Rightarrow> unit or_raise" where
  "check_room warmup_steps num_steps max_seq =
     (if warmup_steps + num_steps + 3 < max_seq then Inr () else Inl AssertionError)"

record latency_stats =
  ls_median_ms :: rat
  ls_mean_ms :: rat
  ls_p95_ms :: rat
  ls_min_ms :: rat
  ls_max_ms :: rat

text \<open>\<open>statistics.median\<close> raises on an empty list, a \<open>ValueError\<close>; the 0.95 of the percentile is a rational.\<close>

definition median :: "rat list \<Rightarrow> rat" where
  "median s = (let n = length s in if odd n then s ! (n div 2) else (s ! (n div 2 - 1) + s ! (n div 2)) / 2)"

definition summarize :: "rat list \<Rightarrow> latency_stats or_raise" where
  "summarize latencies =
     (let s = sort latencies; n = length s in
      if n = 0 then Inl ValueError
      else Inr \<lparr>ls_median_ms = median s, ls_mean_ms = sum_list s / of_nat n, ls_p95_ms = s ! (95 * (n - 1) div 100),
                ls_min_ms = s ! 0, ls_max_ms = s ! (n - 1)\<rparr>)"

lemma summarize_order:
  assumes "summarize ls = Inr st"
  shows "ls_min_ms st \<le> ls_median_ms st \<and> ls_median_ms st \<le> ls_max_ms st \<and> ls_p95_ms st \<le> ls_max_ms st \<and> (\<forall>x \<in> set ls. ls_min_ms st \<le> x \<and> x \<le> ls_max_ms st)"
proof -
  let ?s = "sort ls" and ?n = "length ls"
  have n: "0 < ?n" and st: "st = \<lparr>ls_median_ms = median ?s, ls_mean_ms = sum_list ?s / of_nat ?n, ls_p95_ms = ?s ! (95 * (?n - 1) div 100),
      ls_min_ms = ?s ! 0, ls_max_ms = ?s ! (?n - 1)\<rparr>"
    using assms by (auto simp: summarize_def Let_def split: if_splits)
  have le: "?s ! i \<le> ?s ! j" if "i \<le> j" "j < ?n" for i j using that by (simp add: sorted_nth_mono)
  have "?s ! 0 \<le> ?s ! (?n div 2)" "?s ! 0 \<le> ?s ! (?n div 2 - 1)" "?s ! (?n div 2) \<le> ?s ! (?n - 1)" "?s ! (?n div 2 - 1) \<le> ?s ! (?n - 1)"
    using n by (auto intro!: le simp: div_le_dividend less_imp_diff_less)
  moreover have "\<exists>i < ?n. x = ?s ! i" if "x \<in> set ls" for x using that by (metis in_set_conv_nth length_sort set_sort)
  then have "\<forall>x \<in> set ls. ?s ! 0 \<le> x \<and> x \<le> ?s ! (?n - 1)" by (metis One_nat_def Suc_pred le less_Suc_eq_le le0 n lessI)
  moreover have "?s ! (95 * (?n - 1) div 100) \<le> ?s ! (?n - 1)" using n by (intro le) auto
  ultimately show ?thesis by (auto simp: st median_def Let_def)
qed

subsection \<open>Greedy decoding in a fixed buffer\<close>

definition next_token :: "'a::linordered_field numerics \<Rightarrow> 'a llama_config \<Rightarrow> 'a llama_weights \<Rightarrow> int list \<Rightarrow> int" where
  "next_token num c W ts = (case llama_forward num c W ts of Inl _ \<Rightarrow> 0 | Inr logits \<Rightarrow> int (argmax (last logits)))"

fun decoded :: "(int list \<Rightarrow> int) \<Rightarrow> nat \<Rightarrow> int list" where
  "decoded next 0 = [1]"
| "decoded next (Suc n) = decoded next n @ [next (decoded next n)]"

lemma length_decoded [simp]: "length (decoded f n) = Suc n"
  by (induction n) auto

definition drawn :: "'a llama_weights \<Rightarrow> bool" where
  "drawn W \<longleftrightarrow> 2 \<le> length (embed_tokens W) \<and> length (hd (lm_head W)) \<le> length (embed_tokens W)"

definition in_vocabulary :: "'a llama_weights \<Rightarrow> int list \<Rightarrow> bool" where
  "in_vocabulary W ts \<longleftrightarrow> (\<forall>t \<in> set ts. 0 \<le> t \<and> nat t < length (embed_tokens W))"

abbreviation rope_of :: "'a::linordered_field numerics \<Rightarrow> 'a llama_config \<Rightarrow> ('a list \<times> 'a list) list" where
  "rope_of num c \<equiv> (case precompute_rope num c of (cs, sn) \<Rightarrow> zip cs sn)"

lemma forward_rows:
  assumes "in_vocabulary W ts" "length ts \<le> max_seq_len c"
  shows "llama_forward num c W ts = Inr (map (\<lambda>p. row_mul (final_row num c W (rope_of num c) ts p) (lm_head W)) [0..<length ts])"
proof -
  have "length ts \<le> length (rope_of num c)" using assms(2) by (simp add: precompute_rope_def Let_def)
  from llama_hidden_rows [OF this, of num c W] show ?thesis
    using assms by (simp add: llama_forward_def in_vocabulary_def mat_mul_def split: prod.splits)
qed

text \<open>The row read at each step sees the real tokens only, whatever fills the buffer behind them.\<close>

lemma buffer_row:
  assumes "in_vocabulary W ts" "in_vocabulary W (ts @ pad)" "ts \<noteq> []" "length (ts @ pad) \<le> max_seq_len c"
  obtains logits where "llama_forward num c W (ts @ pad) = Inr logits" "int (argmax (logits ! (length ts - 1))) = next_token num c W ts"
proof
  let ?row = "\<lambda>us p. row_mul (final_row num c W (rope_of num c) us p) (lm_head W)"
  show "llama_forward num c W (ts @ pad) = Inr (map (?row (ts @ pad)) [0..<length (ts @ pad)])"
    using assms by (intro forward_rows) auto
  have eq: "final_row num c W (rope_of num c) (ts @ pad) (length ts - 1) = final_row num c W (rope_of num c) ts (length ts - 1)"
    using assms(3) by (intro final_row_causal) (auto simp: nth_append neq_Nil_conv)
  show "int (argmax (map (?row (ts @ pad)) [0..<length (ts @ pad)] ! (length ts - 1))) = next_token num c W ts"
  proof -
    have i: "length ts - 1 < length (ts @ pad)" using assms(3) by (cases ts) auto
    have "last [0..<length ts] = length ts - 1" using assms(3) by (cases ts) auto
    moreover have "map (?row (ts @ pad)) [0..<length (ts @ pad)] ! (length ts - 1) = ?row (ts @ pad) (length ts - 1)"
      using i by (simp del: length_append)
    ultimately show ?thesis using assms(1,3,4) eq by (simp add: next_token_def forward_rows last_map)
  qed
qed

lemma next_token_vocabulary:
  assumes "drawn W" "in_vocabulary W ts" "ts \<noteq> []" "length ts \<le> max_seq_len c"
  shows "in_vocabulary W [next_token num c W ts]"
proof -
  have "argmax (row_mul h (lm_head W)) < length (embed_tokens W)" for h
    by (rule argmax_less) (use assms in \<open>auto simp: row_mul_def drawn_def\<close>)
  then show ?thesis using assms by (simp add: next_token_def forward_rows in_vocabulary_def last_map)
qed

definition buffer :: "(int list \<Rightarrow> int) \<Rightarrow> nat \<Rightarrow> nat \<Rightarrow> int list" where
  "buffer f max_seq n = decoded f n @ replicate (max_seq - Suc n) 0"

lemma decoded_vocabulary:
  assumes "drawn W" "n < max_seq_len c"
  shows "in_vocabulary W (decoded (next_token num c W) n)"
  using assms(2)
proof (induction n)
  case 0
  then show ?case using assms(1) by (simp add: in_vocabulary_def drawn_def)
next
  case (Suc n)
  then have "in_vocabulary W (decoded (next_token num c W) n)" by simp
  moreover from next_token_vocabulary [OF assms(1) this] have "in_vocabulary W [next_token num c W (decoded (next_token num c W) n)]"
    using Suc.prems by (metis Suc_leI Suc_lessD length_decoded length_0_conv nat.distinct(1))
  ultimately show ?case by (auto simp: in_vocabulary_def)
qed

lemma eager_step_decodes:
  assumes "drawn W" "Suc n < max_seq_len c"
  shows "eager_step num c W \<lparr>ds_input_ids = replicate B (buffer (next_token num c W) (max_seq_len c) n), ds_cur_len = Suc n\<rparr>
    = Inr \<lparr>ds_input_ids = replicate B (buffer (next_token num c W) (max_seq_len c) (Suc n)), ds_cur_len = Suc (Suc n)\<rparr>"
proof -
  let ?f = "next_token num c W" and ?L = "max_seq_len c"
  let ?ts = "decoded ?f n" and ?pad = "replicate (?L - Suc n) (0::int)"
  have v: "in_vocabulary W ?ts" using decoded_vocabulary [OF assms(1)] assms(2) by simp
  then have vp: "in_vocabulary W (?ts @ ?pad)" using assms(1) by (auto simp: in_vocabulary_def drawn_def)
  have ne: "?ts \<noteq> []" by (metis length_decoded length_0_conv nat.distinct(1))
  have len: "length (?ts @ ?pad) \<le> ?L" using assms(2) by simp
  obtain logits where lg: "llama_forward num c W (?ts @ ?pad) = Inr logits" "int (argmax (logits ! (length ?ts - 1))) = ?f ?ts"
    using buffer_row [OF v vp ne len] .
  have fwd: "mapE (llama_forward num c W) (replicate B (?ts @ ?pad)) = Inr (replicate B logits)"
    by (simp add: mapE_Inr_iff list_all2_conv_all_nth lg)
  have "?pad = 0 # replicate (?L - Suc (Suc n)) 0" using assms(2) by (metis Suc_diff_Suc replicate_Suc)
  then have "(?ts @ ?pad)[Suc n := ?f ?ts] = decoded ?f (Suc n) @ replicate (?L - Suc (Suc n)) 0"
    by (simp add: list_update_append)
  then show ?thesis using assms(2) lg(2)
    by (simp add: eager_step_def buffer_def fwd advance_def Let_def)
qed

lemma repeat_decodes:
  assumes "drawn W" "n + k < max_seq_len c"
  shows "repeat_step (eager_step num c W) k \<lparr>ds_input_ids = replicate B (buffer (next_token num c W) (max_seq_len c) n), ds_cur_len = Suc n\<rparr>
    = Inr \<lparr>ds_input_ids = replicate B (buffer (next_token num c W) (max_seq_len c) (n + k)), ds_cur_len = Suc (n + k)\<rparr>"
  using assms(2) by (induction k arbitrary: n) (simp_all add: eager_step_decodes [OF assms(1)])

text \<open>C26: Decoding over the static buffer, eagerly or by replaying a captured graph, never raises once the
  check of \<open>main\<close> has passed and leaves in every row of the buffer the greedy decoding of the seed
  token, each token the one the dense pass predicts from the tokens before it alone: recomputing
  over filler tokens changes nothing.  (What is assumed of torch: a replay leaves in the output
  what the captured pass computes from what the input holds at that moment.)
\<close>

theorem static_decode_greedy:
  assumes "check_room warmup_steps num_steps (max_seq_len c) = Inr ()" and "drawn W"
    and "\<forall>ids. replay ids = mapE (llama_forward num c W) ids"
    and "n = warmup_steps + num_steps"
  shows "\<exists>st. run_eager num c W B num_steps warmup_steps elapsed = Inr (map elapsed [0..<num_steps], st)
     \<and> run_cuda_graph num c W replay B num_steps warmup_steps elapsed' = Inr (map elapsed' [0..<num_steps], st)
     \<and> ds_cur_len st = n + 1
     \<and> ds_input_ids st = replicate B (decoded (next_token num c W) n @ replicate (max_seq_len c - n - 1) 0)"
proof -
  let ?f = "next_token num c W" and ?L = "max_seq_len c"
  let ?st = "\<lambda>k. \<lparr>ds_input_ids = replicate B (buffer ?f ?L k), ds_cur_len = Suc k\<rparr>"
  have room: "n < ?L" using assms(1,4) by (simp add: check_room_def split: if_splits)
  have "(replicate ?L (0::int))[0 := 1] = buffer ?f ?L 0" using room by (cases ?L) (auto simp: buffer_def)
  then have buf: "make_seeded_buffer B ?L = Inr (ds_input_ids (?st 0))" using room by (simp add: make_seeded_buffer_def)
  have run: "repeat_step (eager_step num c W) warmup_steps (?st 0) = Inr (?st warmup_steps)"
    "repeat_step (eager_step num c W) num_steps (?st warmup_steps) = Inr (?st n)"
    using repeat_decodes [OF assms(2), where n = 0 and k = warmup_steps and B = B and num = num]
      repeat_decodes [OF assms(2), where n = warmup_steps and k = num_steps and B = B and num = num] room assms(4) by simp_all
  have loop: "time_decode_loop (eager_step num c W) num_steps warmup_steps e (?st 0) = Inr (map e [0..<num_steps], ?st n)" for e
    by (simp add: time_decode_loop_def run)
  have graph: "graph_step replay ?L = eager_step num c W"
    using assms(3) by (simp add: graph_step_def [abs_def] eager_step_def [abs_def])
  have "eager_step num c W (?st 0) = Inr (?st 1)"
    using eager_step_decodes [OF assms(2), where n = 0 and B = B and num = num] assms(1) by (simp add: check_room_def split: if_splits)
  then obtain lg where "mapE (llama_forward num c W) (ds_input_ids (?st 0)) = Inr lg" by (auto simp: eager_step_def bindE_Inr_iff)
  then have warm: "repeat_step (\<lambda>_. bindE (mapE (llama_forward num c W) (ds_input_ids (?st 0))) (\<lambda>_. Inr ())) k () = Inr ()" for k
    by (induction k) simp_all
  have "run_eager num c W B num_steps warmup_steps elapsed = Inr (map elapsed [0..<num_steps], ?st n)"
    using loop by (simp add: run_eager_def buf)
  moreover have "run_cuda_graph num c W replay B num_steps warmup_steps elapsed' = Inr (map elapsed' [0..<num_steps], ?st n)"
    using loop warm by (simp add: run_cuda_graph_def buf graph)
  ultimately show ?thesis by (intro exI [of _ "?st n"]) (simp add: buffer_def)
qed

theorem static_decode_greedy_witness:
  "\<exists>st. run_eager tiny_numerics tiny_config tiny_weights 2 2 1 (\<lambda>i. of_nat i) = Inr ([0, 1], st)
     \<and> run_cuda_graph tiny_numerics tiny_config tiny_weights (mapE (llama_forward tiny_numerics tiny_config tiny_weights)) 2 2 1 (\<lambda>_. 5) = Inr ([5, 5], st)
     \<and> ds_cur_len st = 4"
proof -
  have "check_room 1 2 (max_seq_len tiny_config) = Inr ()" "drawn tiny_weights"
    by (simp_all add: check_room_def tiny_config_def drawn_def tiny_weights_def)
  from static_decode_greedy [OF this, where replay = "mapE (llama_forward tiny_numerics tiny_config tiny_weights)" and num = tiny_numerics
    and n = 3 and B = 2 and elapsed = "\<lambda>i. of_nat i" and elapsed' = "\<lambda>_. 5"]
  show ?thesis by (auto simp: upt_rec)
qed

end
