(* ===== verification/Hf_Loader.thy ===== *)
theory Hf_Loader
  imports Llama Py_Strings
begin

text \<open>
  \<^verbatim>\<open>model/hf_loader.py\<close>: reading a Hugging Face checkpoint into \<open>LlamaConfig\<close> and \<open>LlamaWeights\<close>.
  The parsed \<^verbatim>\<open>config.json\<close> is a record of its entries, the parsed index a map from tensor names to
  files; \<open>safe_open\<close> and \<open>get_tensor\<close> of safetensors are one argument \<open>read_tensor\<close>, from a file
  and a name.  The handles of opened files are kept, and passed along.
\<close>

subsection \<open>Configuration\<close>

record 'a hf_config =
  hf_hidden_size :: "nat option"
  hf_num_attention_heads :: "nat option"
  hf_vocab_size :: "nat option"
  hf_intermediate_size :: "nat option"
  hf_num_hidden_layers :: "nat option"
  hf_head_dim :: "nat option"
  hf_max_position_embeddings :: "nat option"
  hf_num_key_value_heads :: "nat option"
  hf_rope_theta :: "'a option"
  hf_rope_scaling :: "'a rope_scaling option"
  hf_rms_norm_eps :: "'a option"
  hf_tie_word_embeddings :: "bool option"

fun needed :: "'b option \<Rightarrow> 'b or_raise" where
  "needed None = Inl KeyError"
| "needed (Some v) = Inr v"

text \<open>The default of \<open>head_dim\<close> is computed whether it is used or not.  An entry is absent or has its
type; one that is \<open>null\<close>, which the code would pass on as \<open>None\<close>, is not represented.\<close>

definition config_from_hf :: "'a::linordered_field hf_config \<Rightarrow> nat option \<Rightarrow> 'a llama_config or_raise" where
  "config_from_hf hf nl =
     bindE (needed (hf_hidden_size hf)) (\<lambda>hidden.
     bindE (needed (hf_num_attention_heads hf)) (\<lambda>heads.
     bindE (needed (hf_vocab_size hf)) (\<lambda>vocab.
     bindE (needed (hf_intermediate_size hf)) (\<lambda>intermediate.
     bindE (case nl of Some n \<Rightarrow> Inr n | None \<Rightarrow> needed (hf_num_hidden_layers hf)) (\<lambda>n.
     if heads = 0 then Inl ZeroDivisionError
     else bindE (needed (hf_max_position_embeddings hf)) (\<lambda>max_seq.
       LlamaConfig (hf_num_key_value_heads hf)
         \<lparr>vocab_size = vocab, hidden_size = hidden, intermediate_size = intermediate, n_layers = n, n_heads = heads,
          head_dim = (case hf_head_dim hf of None \<Rightarrow> hidden div heads | Some d \<Rightarrow> d), max_seq_len = max_seq,
          num_kv_heads = 0, rope_theta = (case hf_rope_theta hf of None \<Rightarrow> 500000 | Some t \<Rightarrow> t),
          rope_scaling = hf_rope_scaling hf, rms_eps = (case hf_rms_norm_eps hf of None \<Rightarrow> 1 / 10 ^ 5 | Some e \<Rightarrow> e),
          lc_dtype = bfloat16\<rparr>))))))"

subsection \<open>Tensors\<close>

text \<open>A norm weight has one dimension and every other tensor two; in the cases that do not occur the elements are kept.\<close>

datatype 'a tensor_data = Vector "'a list" | Matrix "'a list list"

record 'a tensor =
  tn_dtype :: torch_dtype
  tn_data :: "'a tensor_data"

fun vector :: "'a tensor \<Rightarrow> 'a list" where
  "vector t = (case tn_data t of Vector v \<Rightarrow> v | Matrix m \<Rightarrow> concat m)"

fun matrix :: "'a tensor \<Rightarrow> 'a list list" where
  "matrix t = (case tn_data t of Vector v \<Rightarrow> [v] | Matrix m \<Rightarrow> m)"

text \<open>\<open>_TensorGetter\<close>: the index, if the checkpoint is sharded, and the files opened so far.\<close>

record tensor_getter =
  tg_weight_map :: "(string \<times> string) list option"
  tg_handles :: "string list"

definition TensorGetter :: "(string \<times> string) list option \<Rightarrow> tensor_getter" where
  "TensorGetter index = \<lparr>tg_weight_map = index, tg_handles = []\<rparr>"

definition handle_for :: "string \<Rightarrow> tensor_getter \<Rightarrow> tensor_getter" where
  "handle_for file g = (if file \<in> set (tg_handles g) then g else g\<lparr>tg_handles := tg_handles g @ [file]\<rparr>)"

type_synonym 'a read_tensor = "string \<Rightarrow> string \<Rightarrow> 'a tensor or_raise"

definition get_tensor :: "'a read_tensor \<Rightarrow> string \<Rightarrow> tensor_getter \<Rightarrow> ('a tensor \<times> tensor_getter) or_raise" where
  "get_tensor rd name g =
     bindE (case tg_weight_map g of None \<Rightarrow> Inr ''model.safetensors'' | Some m \<Rightarrow> needed (map_of m name)) (\<lambda>file.
     bindE (rd file name) (\<lambda>t. Inr (t, handle_for file g)))"

text \<open>Linear weights are stored the other way round.\<close>

definition get_transposed :: "'a read_tensor \<Rightarrow> string \<Rightarrow> tensor_getter \<Rightarrow> ('a list list \<times> tensor_getter) or_raise" where
  "get_transposed rd name g = bindE (get_tensor rd name g) (\<lambda>(t, g). Inr (transpose (matrix t), g))"

definition get_vector :: "'a read_tensor \<Rightarrow> string \<Rightarrow> tensor_getter \<Rightarrow> ('a list \<times> tensor_getter) or_raise" where
  "get_vector rd name g = bindE (get_tensor rd name g) (\<lambda>(t, g). Inr (vector t, g))"

subsection \<open>Loading\<close>

definition layer_prefix :: "nat \<Rightarrow> string" where
  "layer_prefix i = ''model.layers.'' @ show_nat i @ ''.''"

definition load_layer :: "'a read_tensor \<Rightarrow> nat \<Rightarrow> tensor_getter \<Rightarrow> ('a layer_weights \<times> tensor_getter) or_raise" where
  "load_layer rd i g =
     bindE (get_vector rd (layer_prefix i @ ''input_layernorm.weight'') g) (\<lambda>(ln1, g).
     bindE (get_transposed rd (layer_prefix i @ ''self_attn.q_proj.weight'') g) (\<lambda>(q, g).
     bindE (get_transposed rd (layer_prefix i @ ''self_attn.k_proj.weight'') g) (\<lambda>(k, g).
     bindE (get_transposed rd (layer_prefix i @ ''self_attn.v_proj.weight'') g) (\<lambda>(v, g).
     bindE (get_transposed rd (layer_prefix i @ ''self_attn.o_proj.weight'') g) (\<lambda>(o_w, g).
     bindE (get_vector rd (layer_prefix i @ ''post_attention_layernorm.weight'') g) (\<lambda>(ln2, g).
     bindE (get_transposed rd (layer_prefix i @ ''mlp.gate_proj.weight'') g) (\<lambda>(gate, g).
     bindE (get_transposed rd (layer_prefix i @ ''mlp.up_proj.weight'') g) (\<lambda>(up, g).
     bindE (get_transposed rd (layer_prefix i @ ''mlp.down_proj.weight'') g) (\<lambda>(down, g).
     Inr (\<lparr>input_layernorm_weight = ln1, q_proj = q, k_proj = k, v_proj = v, o_proj = o_w,
           post_attention_layernorm_weight = ln2, gate_proj = gate, up_proj = up, down_proj = down\<rparr>, g))))))))))"

fun load_layers :: "'a read_tensor \<Rightarrow> nat list \<Rightarrow> tensor_getter \<Rightarrow> ('a layer_weights list \<times> tensor_getter) or_raise" where
  "load_layers rd [] g = Inr ([], g)"
| "load_layers rd (i # is) g =
     bindE (load_layer rd i g) (\<lambda>(w, g). bindE (load_layers rd is g) (\<lambda>(ws, g). Inr (w # ws, g)))"

definition load_hf_checkpoint :: "'a::linordered_field hf_config \<Rightarrow> (string \<times> string) list option \<Rightarrow> 'a read_tensor \<Rightarrow> nat option
    \<Rightarrow> ('a llama_config \<times> 'a llama_weights \<times> tensor_getter) or_raise" where
  "load_hf_checkpoint hf index rd nl =
     bindE (config_from_hf hf nl) (\<lambda>c.
     bindE (get_tensor rd ''model.embed_tokens.weight'' (TensorGetter index)) (\<lambda>(embeds, g).
     bindE (load_layers rd [0..<n_layers c] g) (\<lambda>(ws, g).
     bindE (get_vector rd ''model.norm.weight'' g) (\<lambda>(norm, g).
     bindE (if hf_tie_word_embeddings hf = Some True then Inr (transpose (matrix embeds), g)
            else get_transposed rd ''lm_head.weight'' g) (\<lambda>(head, g).
     Inr (c\<lparr>lc_dtype := tn_dtype embeds\<rparr>,
          \<lparr>embed_tokens = matrix embeds, layers = ws, norm_weight = norm, lm_head = head\<rparr>, g))))))"

subsection \<open>A checkpoint of given weights\<close>

text \<open>What a file in the Hugging Face layout stores of some weights: every linear weight transposed.\<close>

definition stored_layer :: "nat \<Rightarrow> 'a layer_weights \<Rightarrow> (string \<times> 'a tensor_data) list" where
  "stored_layer i w =
     [(layer_prefix i @ ''input_layernorm.weight'', Vector (input_layernorm_weight w)),
      (layer_prefix i @ ''self_attn.q_proj.weight'', Matrix (transpose (q_proj w))),
      (layer_prefix i @ ''self_attn.k_proj.weight'', Matrix (transpose (k_proj w))),
      (layer_prefix i @ ''self_attn.v_proj.weight'', Matrix (transpose (v_proj w))),
      (layer_prefix i @ ''self_attn.o_proj.weight'', Matrix (transpose (o_proj w))),
      (layer_prefix i @ ''post_attention_layernorm.weight'', Vector (post_attention_layernorm_weight w)),
      (layer_prefix i @ ''mlp.gate_proj.weight'', Matrix (transpose (gate_proj w))),
      (layer_prefix i @ ''mlp.up_proj.weight'', Matrix (transpose (up_proj w))),
      (layer_prefix i @ ''mlp.down_proj.weight'', Matrix (transpose (down_proj w)))]"

definition stored :: "bool \<Rightarrow> 'a llama_weights \<Rightarrow> (string \<times> 'a tensor_data) list" where
  "stored tied W =
     (''model.embed_tokens.weight'', Matrix (embed_tokens W)) # (''model.norm.weight'', Vector (norm_weight W))
     # (if tied then [] else [(''lm_head.weight'', Matrix (transpose (lm_head W)))])
     @ concat (map (\<lambda>i. stored_layer i (layers W ! i)) [0..<length (layers W)])"

text \<open>Every stored tensor can be found: in the one file, or in the file the index names.\<close>

definition checkpoint_of :: "torch_dtype \<Rightarrow> (string \<times> 'a tensor_data) list \<Rightarrow> (string \<times> string) list option \<Rightarrow> 'a read_tensor \<Rightarrow> bool" where
  "checkpoint_of dt entries index rd \<longleftrightarrow> (\<forall>(name, d) \<in> set entries.
     case index of
       None \<Rightarrow> rd ''model.safetensors'' name = Inr \<lparr>tn_dtype = dt, tn_data = d\<rparr>
     | Some m \<Rightarrow> (case map_of m name of None \<Rightarrow> False | Some file \<Rightarrow> rd file name = Inr \<lparr>tn_dtype = dt, tn_data = d\<rparr>))"

definition rectangular :: "'a list list \<Rightarrow> bool" where
  "rectangular m \<longleftrightarrow> (\<exists>k > 0. \<forall>r \<in> set m. length r = k)"

definition rectangular_layer :: "'a layer_weights \<Rightarrow> bool" where
  "rectangular_layer w \<longleftrightarrow> list_all rectangular [q_proj w, k_proj w, v_proj w, o_proj w, gate_proj w, up_proj w, down_proj w]"

lemma transpose_twice:
  assumes "rectangular m"
  shows "transpose (transpose m) = m"
proof -
  obtain k where k: "0 < k" "\<forall>r \<in> set m. length r = k" using assms by (auto simp: rectangular_def)
  have len: "map length m = replicate (length m) k" using k(2) by (simp add: list_eq_iff_nth_eq)
  have "transpose (transpose m) = takeWhile (\<lambda>x. x \<noteq> []) m"
    by (rule transpose_transpose) (simp add: len)
  also have "\<dots> = m" using k by (auto intro!: takeWhile_eq_all_conv [THEN iffD2])
  finally show ?thesis .
qed

definition getter_ok :: "(string \<times> string) list option \<Rightarrow> tensor_getter \<Rightarrow> bool" where
  "getter_ok index g \<longleftrightarrow> tg_weight_map g = index \<and> distinct (tg_handles g)
     \<and> set (tg_handles g) \<subseteq> (case index of None \<Rightarrow> {''model.safetensors''} | Some m \<Rightarrow> snd ` set m)"

lemma get_tensor_stored:
  assumes "checkpoint_of dt entries index rd" "(name, d) \<in> set entries" "getter_ok index g"
  obtains g' where "get_tensor rd name g = Inr (\<lparr>tn_dtype = dt, tn_data = d\<rparr>, g')" "getter_ok index g'"
proof -
  have *: "case index of
       None \<Rightarrow> rd ''model.safetensors'' name = Inr \<lparr>tn_dtype = dt, tn_data = d\<rparr>
     | Some m \<Rightarrow> (case map_of m name of None \<Rightarrow> False | Some file \<Rightarrow> rd file name = Inr \<lparr>tn_dtype = dt, tn_data = d\<rparr>)"
    using assms(1,2) by (auto simp: checkpoint_of_def)
  then obtain fname where fname: "(case index of None \<Rightarrow> Inr ''model.safetensors'' | Some m \<Rightarrow> needed (map_of m name)) = Inr fname"
    "rd fname name = Inr \<lparr>tn_dtype = dt, tn_data = d\<rparr>"
    "fname \<in> (case index of None \<Rightarrow> {''model.safetensors''} | Some m \<Rightarrow> snd ` set m)"
    by (cases index) (force dest: map_of_SomeD split: option.splits)+
  then have "get_tensor rd name g = Inr (\<lparr>tn_dtype = dt, tn_data = d\<rparr>, handle_for fname g)" "getter_ok index (handle_for fname g)"
    using assms(3) by (auto simp: get_tensor_def getter_ok_def handle_for_def)
  then show thesis using that by blast
qed

lemma get_vector_stored:
  assumes "checkpoint_of dt entries index rd" "getter_ok index g" "(name, Vector v) \<in> set entries"
  obtains g' where "get_vector rd name g = Inr (v, g')" "getter_ok index g'"
  using get_tensor_stored [OF assms(1,3,2)] by (metis (no_types, lifting) get_vector_def bindE.simps(2) case_prod_conv tensor.select_convs(2) tensor_data.simps(5) vector.simps)

lemma get_transposed_stored:
  assumes "checkpoint_of dt entries index rd" "getter_ok index g" "rectangular m" "(name, Matrix (transpose m)) \<in> set entries"
  obtains g' where "get_transposed rd name g = Inr (m, g')" "getter_ok index g'"
proof -
  obtain g' where "get_tensor rd name g = Inr (\<lparr>tn_dtype = dt, tn_data = Matrix (transpose m)\<rparr>, g')" "getter_ok index g'"
    using get_tensor_stored [OF assms(1,4,2)] .
  then show thesis using that transpose_twice [OF assms(3)] by (simp add: get_transposed_def)
qed

lemma load_layer_stored:
  assumes ck: "checkpoint_of dt entries index rd" and g: "getter_ok index g" and r: "rectangular_layer w"
    and st: "set (stored_layer i w) \<subseteq> set entries"
  obtains g' where "load_layer rd i g = Inr (w, g')" "getter_ok index g'"
proof -
  note V = get_vector_stored [OF ck] and T = get_transposed_stored [OF ck]
  have R: "rectangular (q_proj w)" "rectangular (k_proj w)" "rectangular (v_proj w)" "rectangular (o_proj w)"
    "rectangular (gate_proj w)" "rectangular (up_proj w)" "rectangular (down_proj w)" using r by (simp_all add: rectangular_layer_def)
  note S = st [unfolded stored_layer_def, simplified]
  obtain g1 where 1: "get_vector rd (layer_prefix i @ ''input_layernorm.weight'') g = Inr (input_layernorm_weight w, g1)" "getter_ok index g1"
    using V [OF g] S by metis
  obtain g2 where 2: "get_transposed rd (layer_prefix i @ ''self_attn.q_proj.weight'') g1 = Inr (q_proj w, g2)" "getter_ok index g2"
    using T [OF 1(2) R(1)] S by metis
  obtain g3 where 3: "get_transposed rd (layer_prefix i @ ''self_attn.k_proj.weight'') g2 = Inr (k_proj w, g3)" "getter_ok index g3"
    using T [OF 2(2) R(2)] S by metis
  obtain g4 where 4: "get_transposed rd (layer_prefix i @ ''self_attn.v_proj.weight'') g3 = Inr (v_proj w, g4)" "getter_ok index g4"
    using T [OF 3(2) R(3)] S by metis
  obtain g5 where 5: "get_transposed rd (layer_prefix i @ ''self_attn.o_proj.weight'') g4 = Inr (o_proj w, g5)" "getter_ok index g5"
    using T [OF 4(2) R(4)] S by metis
  obtain g6 where 6: "get_vector rd (layer_prefix i @ ''post_attention_layernorm.weight'') g5 = Inr (post_attention_layernorm_weight w, g6)" "getter_ok index g6"
    using V [OF 5(2)] S by metis
  obtain g7 where 7: "get_transposed rd (layer_prefix i @ ''mlp.gate_proj.weight'') g6 = Inr (gate_proj w, g7)" "getter_ok index g7"
    using T [OF 6(2) R(5)] S by metis
  obtain g8 where 8: "get_transposed rd (layer_prefix i @ ''mlp.up_proj.weight'') g7 = Inr (up_proj w, g8)" "getter_ok index g8"
    using T [OF 7(2) R(6)] S by metis
  obtain g9 where 9: "get_transposed rd (layer_prefix i @ ''mlp.down_proj.weight'') g8 = Inr (down_proj w, g9)" "getter_ok index g9"
    using T [OF 8(2) R(7)] S by metis
  show thesis by (rule that [OF _ 9(2)]) (simp only: load_layer_def 1 2 3 4 5 6 7 8 9 bindE.simps split_conv, simp)
qed

lemma load_layers_stored:
  assumes ck: "checkpoint_of dt entries index rd"
    and each: "\<forall>i \<in> set is. rectangular_layer (f i) \<and> set (stored_layer i (f i)) \<subseteq> set entries" and g: "getter_ok index g"
  shows "\<exists>g'. load_layers rd is g = Inr (map f is, g') \<and> getter_ok index g'"
  using each g
proof (induction "is" arbitrary: g)
  case (Cons i "is")
  then obtain g1 where 1: "load_layer rd i g = Inr (f i, g1)" "getter_ok index g1"
    using load_layer_stored [OF ck, of g "f i" i] by (metis list.set_intros(1))
  from Cons.IH [OF _ 1(2)] Cons.prems(1) obtain g2 where "load_layers rd is g1 = Inr (map f is, g2)" "getter_ok index g2" by auto
  then show ?case using 1 by simp
qed simp

text \<open>C27: Loading a checkpoint in the Hugging Face layout of some weights, in one file or in shards, gives exactly
  those weights back, every linear weight the right way round, with the head tied to the embedding
  when the configuration says so, and only the first layers when fewer are asked for; no file is
  opened twice, and none that the index does not name.
\<close>

theorem load_restores_weights:
  assumes "config_from_hf hf nl = Inr c" and "n_layers c \<le> length (layers W)"
    and "tied \<longleftrightarrow> hf_tie_word_embeddings hf = Some True" and "tied \<longrightarrow> lm_head W = transpose (embed_tokens W)"
    and "checkpoint_of dt (stored tied W) index rd" and "rectangular (lm_head W)" and "\<forall>w \<in> set (layers W). rectangular_layer w"
  shows "\<exists>g. load_hf_checkpoint hf index rd nl = Inr (c\<lparr>lc_dtype := dt\<rparr>, W\<lparr>layers := take (n_layers c) (layers W)\<rparr>, g)
     \<and> distinct (tg_handles g) \<and> set (tg_handles g) \<subseteq> (case index of None \<Rightarrow> {''model.safetensors''} | Some m \<Rightarrow> snd ` set m)"
proof -
  note ck = assms(5)
  have init: "getter_ok index (TensorGetter index)" by (simp add: getter_ok_def TensorGetter_def)
  have emb: "(''model.embed_tokens.weight'', Matrix (embed_tokens W)) \<in> set (stored tied W)"
    and nrm: "(''model.norm.weight'', Vector (norm_weight W)) \<in> set (stored tied W)" by (simp_all add: stored_def)
  obtain g1 where 1: "get_tensor rd ''model.embed_tokens.weight'' (TensorGetter index)
      = Inr (\<lparr>tn_dtype = dt, tn_data = Matrix (embed_tokens W)\<rparr>, g1)" "getter_ok index g1"
    by (rule get_tensor_stored [OF ck emb init])
  have "rectangular_layer (layers W ! i) \<and> set (stored_layer i (layers W ! i)) \<subseteq> set (stored tied W)" if "i < n_layers c" for i
    using that assms(2,7) by (auto simp: stored_def)
  with load_layers_stored [OF ck _ 1(2), of "[0..<n_layers c]" "(!) (layers W)"] obtain g2
    where 2: "load_layers rd [0..<n_layers c] g1 = Inr (map ((!) (layers W)) [0..<n_layers c], g2)" "getter_ok index g2" by auto
  have tk: "map ((!) (layers W)) [0..<n_layers c] = take (n_layers c) (layers W)" using assms(2) by (simp add: take_map [symmetric] map_nth take_upt list_eq_iff_nth_eq)
  obtain g3 where 3: "get_vector rd ''model.norm.weight'' g2 = Inr (norm_weight W, g3)" "getter_ok index g3"
    by (rule get_vector_stored [OF ck 2(2) nrm])
  obtain g4 where 4: "(if tied then Inr (transpose (embed_tokens W), g3) else get_transposed rd ''lm_head.weight'' g3) = Inr (lm_head W, g4)"
    "getter_ok index g4"
  proof (cases tied)
    case True
    then show thesis using that assms(4) 3(2) by simp
  next
    case False
    then have "(''lm_head.weight'', Matrix (transpose (lm_head W))) \<in> set (stored tied W)" by (simp add: stored_def)
    from get_transposed_stored [OF ck 3(2) assms(6) this] show thesis using that False by metis
  qed
  have same: "\<lparr>embed_tokens = embed_tokens W, layers = ls, norm_weight = norm_weight W, lm_head = lm_head W\<rparr> = W\<lparr>layers := ls\<rparr>" for ls
    by (cases W) simp
  have "load_hf_checkpoint hf index rd nl = Inr (c\<lparr>lc_dtype := dt\<rparr>, W\<lparr>layers := take (n_layers c) (layers W)\<rparr>, g4)"
    using 1 2 3 4 by (cases tied) (simp_all add: load_hf_checkpoint_def assms(1) tk assms(3) [symmetric] same [symmetric])
  then show ?thesis using 4(2) by (auto simp: getter_ok_def)
qed

subsection \<open>A small sharded checkpoint\<close>

definition small_layer :: "rat layer_weights" where
  "small_layer = \<lparr>input_layernorm_weight = [1, 1], q_proj = [[1, 2], [3, 4]], k_proj = [[1, 2], [3, 4]], v_proj = [[5, 6], [7, 8]],
     o_proj = [[1, 0], [0, 1]], post_attention_layernorm_weight = [1, 1], gate_proj = [[1, 2, 3], [4, 5, 6]],
     up_proj = [[1, 2, 3], [4, 5, 6]], down_proj = [[1, 2], [3, 4], [5, 6]]\<rparr>"

definition small_weights :: "rat llama_weights" where
  "small_weights = \<lparr>embed_tokens = [[1, 2], [3, 4], [5, 6]], layers = [small_layer, small_layer], norm_weight = [1, 1],
     lm_head = [[1, 2, 3], [4, 5, 6]]\<rparr>"

definition small_hf :: "rat hf_config" where
  "small_hf = \<lparr>hf_hidden_size = Some 2, hf_num_attention_heads = Some 1, hf_vocab_size = Some 3, hf_intermediate_size = Some 3,
     hf_num_hidden_layers = Some 2, hf_head_dim = None, hf_max_position_embeddings = Some 8, hf_num_key_value_heads = None,
     hf_rope_theta = None, hf_rope_scaling = None, hf_rms_norm_eps = None, hf_tie_word_embeddings = None\<rparr>"

definition small_read :: "rat read_tensor" where
  "small_read fname name = (case map_of (stored False small_weights) name of None \<Rightarrow> Inl KeyError
     | Some d \<Rightarrow> Inr \<lparr>tn_dtype = float16, tn_data = d\<rparr>)"

definition small_index :: "(string \<times> string) list" where
  "small_index = map (\<lambda>(name, _). (name, if take 12 name = ''model.layers'' then ''b'' else ''a'')) (stored False small_weights)"

theorem load_restores_weights_witness:
  "\<exists>c g. load_hf_checkpoint small_hf (Some small_index) small_read (Some 1) = Inr (c, small_weights\<lparr>layers := [small_layer]\<rparr>, g)"
proof -
  obtain c where c: "config_from_hf small_hf (Some 1) = Inr c" "n_layers c = 1"
    by (simp add: config_from_hf_def small_hf_def LlamaConfig_def)
  have ck: "checkpoint_of float16 (stored False small_weights) (Some small_index) small_read" by code_simp
  have rect: "rectangular [[1, 2, 3], [4, 5, 6 :: rat]]" "rectangular [[1, 2], [3, 4 :: rat]]" "rectangular [[5, 6], [7, 8 :: rat]]"
    "rectangular [[1, 0], [0, 1 :: rat]]" "rectangular [[1, 2], [3, 4], [5, 6 :: rat]]"
    by (force simp: rectangular_def)+
  have "\<exists>g. load_hf_checkpoint small_hf (Some small_index) small_read (Some 1)
      = Inr (c\<lparr>lc_dtype := float16\<rparr>, small_weights\<lparr>layers := take (n_layers c) (layers small_weights)\<rparr>, g)
    \<and> distinct (tg_handles g) \<and> set (tg_handles g) \<subseteq> (case Some small_index of None \<Rightarrow> {''model.safetensors''} | Some m \<Rightarrow> snd ` set m)"
    by (rule load_restores_weights [OF c(1) _ _ _ ck])
      (use c(2) in \<open>simp_all add: small_weights_def small_hf_def rectangular_layer_def small_layer_def rect\<close>)
  then show ?thesis using c(2) by (auto simp: small_weights_def)
qed

end
