(* ===== verification/Cost.thy ===== *)
theory Cost
  imports Prelude Py_Round "HOL-Library.Product_Lexorder" "HOL-Library.List_Lexorder" "HOL-Library.Char_ord"
begin

text \<open>
  \<^verbatim>\<open>mlops/cost.py\<close>: the ledger of GPU jobs, one start and one end line each, and what is read off it for
  the dashboard.  The ledger is the list of its lines; clock readings and \<open>uuid\<close> are arguments.
  Money and times are rationals.
\<close>

subsection \<open>The calendar month of a time\<close>

text \<open>The year and the month, in UTC, of seconds since 1970 (the Gregorian calendar counted from a first of March).\<close>

definition utc_month :: "rat \<Rightarrow> int \<times> int" where
  "utc_month t =
     (let z = \<lfloor>t / 86400\<rfloor> + 719468;
          era = z div 146097; doe = z mod 146097;
          yoe = (doe - doe div 1460 + doe div 36524 - doe div 146096) div 365;
          doy = doe - (365 * yoe + yoe div 4 - yoe div 100);
          mp = (5 * doy + 2) div 153;
          m = (if mp < 10 then mp + 3 else mp - 9)
      in (yoe + era * 400 + (if m \<le> 2 then 1 else 0), m))"

lemma utc_month_examples:
  "utc_month 0 = (1970, 1)" "utc_month (-1) = (1969, 12)" "utc_month 951782399 = (2000, 2)" "utc_month 951868800 = (2000, 3)"
  "utc_month 1735689599 = (2024, 12)" "utc_month 1735689600 = (2025, 1)"
  by code_simp+

subsection \<open>The ledger\<close>

datatype ledger_event = Job_start | Job_end

record ledger_line =
  le_event :: ledger_event
  le_id :: string
  le_kind :: string
  le_name :: string
  le_gpus :: int
  le_at :: rat
  le_failed :: "bool option"

type_synonym ledger = "ledger_line list"

definition record_line :: "ledger_event \<Rightarrow> string \<Rightarrow> string \<Rightarrow> string \<Rightarrow> int \<Rightarrow> rat \<Rightarrow> bool option \<Rightarrow> ledger \<Rightarrow> ledger" where
  "record_line ev jid kind name gpus t failed ledger =
     ledger @ [\<lparr>le_event = ev, le_id = jid, le_kind = kind, le_name = name, le_gpus = gpus, le_at = t, le_failed = failed\<rparr>]"

text \<open>\<open>gpu_job\<close> around a body, which may write lines of its own and may raise.\<close>

definition gpu_job :: "string \<Rightarrow> string \<Rightarrow> string \<Rightarrow> int \<Rightarrow> rat \<Rightarrow> rat \<Rightarrow> (ledger \<Rightarrow> ledger \<times> 'r or_raise) \<Rightarrow> ledger \<Rightarrow> ledger \<times> 'r or_raise" where
  "gpu_job jid kind name gpus started ended body ledger =
     (let (l, res) = body (record_line Job_start jid kind name gpus started None ledger);
          failed = (case res of Inl _ \<Rightarrow> True | Inr _ \<Rightarrow> False)
      in (record_line Job_end jid kind name gpus ended (Some failed) l, res))"

definition start_session :: "string \<Rightarrow> string \<Rightarrow> int \<Rightarrow> rat \<Rightarrow> ledger \<Rightarrow> ledger" where
  "start_session uuid name gpus t ledger =
     record_line Job_start (''session-'' @ name @ ''-'' @ take 8 uuid) ''session'' name gpus t None ledger"

definition ended_ids :: "ledger \<Rightarrow> string set" where
  "ended_ids ledger = le_id ` set (filter (\<lambda>e. le_event e = Job_end) ledger)"

definition open_sessions :: "string \<Rightarrow> ledger \<Rightarrow> ledger_line list" where
  "open_sessions name ledger =
     filter (\<lambda>e. le_event e = Job_start \<and> le_kind e = ''session'' \<and> le_name e = name \<and> le_id e \<notin> ended_ids ledger) ledger"

definition stop_session :: "string \<Rightarrow> rat \<Rightarrow> ledger \<Rightarrow> ledger or_raise" where
  "stop_session name t ledger =
     (let openings = open_sessions name ledger in
      if openings = [] then Inl ValueError
      else let s = last openings in Inr (record_line Job_end (le_id s) ''session'' name (le_gpus s) t None ledger))"

subsection \<open>What it adds up to\<close>

record gpu_job_row =
  gj_kind :: string
  gj_name :: string
  gj_gpu_seconds :: rat
  gj_cost :: rat
  gj_open :: bool

definition lines_by_id :: "ledger_event \<Rightarrow> ledger \<Rightarrow> (string \<times> ledger_line) list" where
  "lines_by_id ev ledger = fold (\<lambda>e d. AList.update (le_id e) e d) (filter (\<lambda>e. le_event e = ev) ledger) []"

definition job_end :: "(string \<times> ledger_line) list \<Rightarrow> rat \<Rightarrow> string \<Rightarrow> rat" where
  "job_end ends now jid = (case map_of ends jid of None \<Rightarrow> now | Some e \<Rightarrow> le_at e)"

definition job_row :: "(string \<times> ledger_line) list \<Rightarrow> rat \<Rightarrow> rat \<Rightarrow> string \<times> ledger_line \<Rightarrow> gpu_job_row" where
  "job_row ends rate now = (\<lambda>(jid, s).
     let gpu_seconds = (job_end ends now jid - le_at s) * of_int (le_gpus s) in
     \<lparr>gj_kind = le_kind s, gj_name = le_name s, gj_gpu_seconds = gpu_seconds, gj_cost = gpu_seconds / 3600 * rate,
      gj_open = (map_of ends jid = None)\<rparr>)"

definition summarize_ledger :: "rat \<Rightarrow> rat \<Rightarrow> ledger \<Rightarrow> gpu_job_row list \<times> rat" where
  "summarize_ledger rate now ledger =
     (let starts = lines_by_id Job_start ledger; ends = lines_by_id Job_end ledger in
      (map (job_row ends rate now) starts,
       sum_list (map (\<lambda>s. gj_cost (job_row ends rate now s))
         (filter (\<lambda>(jid, s). le_kind s = ''session'' \<and> utc_month (job_end ends now jid) = utc_month now) starts))))"

text \<open>One series per kind and name; a name used again adds up.\<close>

definition add_job :: "gpu_job_row \<Rightarrow> ((string \<times> string) \<times> rat \<times> rat) list \<Rightarrow> ((string \<times> string) \<times> rat \<times> rat) list" where
  "add_job j totals =
     (let k = (gj_kind j, gj_name j); (a, b) = (case map_of totals k of None \<Rightarrow> (0, 0) | Some t \<Rightarrow> t)
      in AList.update k (a + gj_gpu_seconds j, b + gj_cost j) totals)"

record cost_metrics =
  cm_job_seconds :: "((string \<times> string) \<times> rat) list"
  cm_job_cost :: "((string \<times> string) \<times> rat) list"
  cm_month :: rat
  cm_budget :: rat
  cm_rate :: rat

definition collect_costs :: "rat \<Rightarrow> rat \<Rightarrow> rat \<Rightarrow> ledger \<Rightarrow> cost_metrics" where
  "collect_costs rate budget now ledger =
     (let (jobs, month) = summarize_ledger rate now ledger; totals = fold add_job jobs [] in
      \<lparr>cm_job_seconds = map (\<lambda>(k, a, b). (k, a)) totals, cm_job_cost = map (\<lambda>(k, a, b). (k, b)) totals,
       cm_month = month, cm_budget = budget, cm_rate = rate\<rparr>)"

subsection \<open>Sessions\<close>

lemma open_sessions_end:
  "open_sessions name (record_line Job_end jid kind n g t f ledger) = filter (\<lambda>e. le_id e \<noteq> jid) (open_sessions name ledger)"
  by (auto simp: open_sessions_def record_line_def ended_ids_def intro!: filter_cong)

text \<open>Stopping a session raises exactly when none of that name is open, and closes the one opened last.\<close>

lemma stop_session_closes:
  assumes "distinct (map le_id (filter (\<lambda>e. le_event e = Job_start) ledger))"
  shows "stop_session name t ledger = (case rev (open_sessions name ledger) of [] \<Rightarrow> Inl ValueError
      | s # _ \<Rightarrow> Inr (record_line Job_end (le_id s) ''session'' name (le_gpus s) t None ledger))"
    and "stop_session name t ledger = Inr l' \<Longrightarrow> open_sessions name l' = butlast (open_sessions name ledger)"
proof -
  let ?o = "open_sessions name ledger"
  show "stop_session name t ledger = (case rev ?o of [] \<Rightarrow> Inl ValueError
      | s # _ \<Rightarrow> Inr (record_line Job_end (le_id s) ''session'' name (le_gpus s) t None ledger))"
    by (cases ?o rule: rev_cases) (simp_all add: stop_session_def Let_def)
  assume "stop_session name t ledger = Inr l'"
  then have ne: "?o \<noteq> []" and l': "l' = record_line Job_end (le_id (last ?o)) ''session'' name (le_gpus (last ?o)) t None ledger"
    by (auto simp: stop_session_def Let_def split: if_splits)
  have eq: "?o = filter (\<lambda>e. le_kind e = ''session'' \<and> le_name e = name \<and> le_id e \<notin> ended_ids ledger) (filter (\<lambda>e. le_event e = Job_start) ledger)"
    by (simp add: open_sessions_def conj_commute conj_left_commute)
  have dist: "distinct (map le_id ?o)" unfolding eq by (rule distinct_map_filter [OF assms])
  have o: "?o = butlast ?o @ [last ?o]" using ne by simp
  have "le_id e \<noteq> le_id (last ?o)" if "e \<in> set (butlast ?o)" for e
  proof -
    have "distinct (map le_id (butlast ?o @ [last ?o]))" using dist o by simp
    then have "le_id (last ?o) \<notin> le_id ` set (butlast ?o)" by simp
    then show ?thesis using that by (metis image_eqI)
  qed
  then have "filter (\<lambda>e. le_id e \<noteq> le_id (last ?o)) (butlast ?o @ [last ?o]) = butlast ?o" by (simp add: filter_id_conv)
  then show "open_sessions name l' = butlast ?o" using o l' open_sessions_end by metis
qed

subsection \<open>The series add up\<close>

definition of_series :: "string \<times> string \<Rightarrow> gpu_job_row list \<Rightarrow> gpu_job_row list" where
  "of_series k jobs = filter (\<lambda>j. (gj_kind j, gj_name j) = k) jobs"

definition totals_of :: "gpu_job_row list \<Rightarrow> (string \<times> string) \<Rightarrow> rat \<times> rat" where
  "totals_of jobs k = (sum_list (map gj_gpu_seconds (of_series k jobs)), sum_list (map gj_cost (of_series k jobs)))"

lemma add_job_eq:
  "add_job j t = AList.update (gj_kind j, gj_name j)
     ((case map_of t (gj_kind j, gj_name j) of None \<Rightarrow> 0 | Some v \<Rightarrow> fst v) + gj_gpu_seconds j,
      (case map_of t (gj_kind j, gj_name j) of None \<Rightarrow> 0 | Some v \<Rightarrow> snd v) + gj_cost j) t"
  by (auto simp: add_job_def Let_def split: option.splits)

text \<open>Every series has one total, the sum over the jobs of its kind and name.\<close>

lemma fold_add_job:
  "distinct (map fst (fold add_job jobs []))
   \<and> map_of (fold add_job jobs []) = (\<lambda>k. if of_series k jobs = [] then None else Some (totals_of jobs k))"
proof (induction jobs rule: rev_induct)
  case Nil
  show ?case by (simp add: of_series_def)
next
  case (snoc j jobs)
  let ?t = "fold add_job jobs []" and ?k = "(gj_kind j, gj_name j)"
  have IH: "map_of ?t = (\<lambda>k. if of_series k jobs = [] then None else Some (totals_of jobs k))" "distinct (map fst ?t)"
    using snoc.IH by blast+
  have "(case map_of ?t ?k of None \<Rightarrow> 0 | Some v \<Rightarrow> fst v) = fst (totals_of jobs ?k)"
    "(case map_of ?t ?k of None \<Rightarrow> 0 | Some v \<Rightarrow> snd v) = snd (totals_of jobs ?k)"
    by (simp_all add: IH totals_of_def)
  then have "add_job j ?t = AList.update ?k (totals_of (jobs @ [j]) ?k) ?t"
    by (simp add: add_job_eq totals_of_def of_series_def)
  then show ?case
    by (auto simp: update_conv' IH distinct_update fun_eq_iff of_series_def totals_of_def)
qed

lemma sum_series:
  assumes "distinct ks" "(\<lambda>j. (gj_kind j, gj_name j)) ` set jobs \<subseteq> set ks"
  shows "(\<Sum>k\<leftarrow>ks. \<Sum>j\<leftarrow>of_series k jobs. (f j :: rat)) = (\<Sum>j\<leftarrow>jobs. f j)"
proof -
  have one: "(\<Sum>k\<leftarrow>ks. if k = k0 then (c :: rat) else 0) = (if k0 \<in> set ks then c else 0)" if "distinct ks" for ks k0 c
    using that by (induction ks) auto
  show ?thesis using assms(2)
  proof (induction jobs)
    case Nil
    show ?case by (simp add: of_series_def)
  next
    case (Cons j jobs)
    have "(\<Sum>i\<leftarrow>of_series k (j # jobs). f i) = (if k = (gj_kind j, gj_name j) then f j else 0) + (\<Sum>i\<leftarrow>of_series k jobs. f i)" for k
      by (auto simp: of_series_def)
    then show ?case using Cons one [OF assms(1)] by (simp add: sum_list_addf)
  qed
qed

text \<open>
  What the collector publishes: the series have distinct labels and add up to the jobs, and the
  job rows are the ledger's: one per id that was started, in order.
\<close>

theorem collected_costs_add_up:
  assumes "summarize_ledger rate now ledger = (jobs, month)"
  shows "(\<Sum>(k, s)\<leftarrow>cm_job_seconds (collect_costs rate budget now ledger). s) = (\<Sum>j\<leftarrow>jobs. gj_gpu_seconds j)
     \<and> (\<Sum>(k, d)\<leftarrow>cm_job_cost (collect_costs rate budget now ledger). d) = (\<Sum>j\<leftarrow>jobs. gj_gpu_seconds j) / 3600 * rate
     \<and> distinct (map fst (cm_job_seconds (collect_costs rate budget now ledger)))"
proof -
  let ?t = "fold add_job jobs []" and ?ks = "map fst (fold add_job jobs [])"
  have t: "distinct ?ks" "map_of ?t = (\<lambda>k. if of_series k jobs = [] then None else Some (totals_of jobs k))" using fold_add_job by auto
  have "(gj_kind j, gj_name j) \<in> set ?ks" if "j \<in> set jobs" for j
  proof -
    have "of_series (gj_kind j, gj_name j) jobs \<noteq> []" using that by (auto simp: of_series_def filter_empty_conv)
    then have "map_of ?t (gj_kind j, gj_name j) \<noteq> None" by (simp add: t(2))
    then show ?thesis by (metis map_of_eq_None_iff set_map)
  qed
  then have sub: "(\<lambda>j. (gj_kind j, gj_name j)) ` set jobs \<subseteq> set ?ks" by blast
  have val: "v = totals_of jobs k" if "(k, v) \<in> set ?t" for k v
    using that t by (metis map_of_is_SomeI option.distinct(1) option.inject)
  have sec: "(\<Sum>(k, a, b)\<leftarrow>?t. a) = (\<Sum>k\<leftarrow>?ks. \<Sum>j\<leftarrow>of_series k jobs. gj_gpu_seconds j)"
    and dol: "(\<Sum>(k, a, b)\<leftarrow>?t. b) = (\<Sum>k\<leftarrow>?ks. \<Sum>j\<leftarrow>of_series k jobs. gj_cost j)"
    by (auto simp: comp_def totals_of_def intro!: arg_cong [where f = sum_list] dest!: val)
  have rows: "gj_cost j = gj_gpu_seconds j / 3600 * rate" if "j \<in> set jobs" for j
    using assms that by (auto simp: summarize_ledger_def job_row_def Let_def)
  have "(\<Sum>j\<leftarrow>jobs. gj_cost j) = (\<Sum>j\<leftarrow>jobs. gj_gpu_seconds j / 3600 * rate)"
    using rows by (intro arg_cong [where f = sum_list] map_cong) auto
  also have "\<dots> = (\<Sum>j\<leftarrow>jobs. gj_gpu_seconds j) / 3600 * rate"
    by (induction jobs) (simp_all add: algebra_simps add_divide_distrib)
  finally show ?thesis using sec dol sum_series [OF t(1) sub] t(1)
    by (simp add: collect_costs_def assms Let_def split_def comp_def)
qed

end
