(* ===== verification/Canary.thy ===== *)
theory Canary
  imports Deploy
begin

text \<open>
  \<^verbatim>\<open>training/qlora_financial/canary.py\<close>: the canary asks the served model the same questions every few
  minutes and publishes its accuracy; the watch of \<open>Deploy\<close> reads what it publishes.  The
  loop is a sequence of events, following the pointer and asking a round; a scrape is taken to fall
  between two events, not between the assignments to single gauges within one.  NaN is \<open>None\<close>.  Clock readings, the model's answers and the
  saved answers the pointer leads to are arguments of the events.
\<close>

record question =
  qu_id :: nat
  qu_gold :: string

text \<open>\<open>grade\<close>, with the checker \<open>right\<close> (calculator, then fair match) of an answer and the gold one.\<close>

definition right_answer :: "(string \<Rightarrow> parts option) \<Rightarrow> (string \<Rightarrow> string) \<Rightarrow> string \<Rightarrow> string \<Rightarrow> bool" where
  "right_answer parts calc answer gold = match_variant (\<lambda>_. None) parts (calc answer) gold Fair"

definition grade :: "(string \<Rightarrow> string \<Rightarrow> bool) \<Rightarrow> question list \<Rightarrow> string list \<Rightarrow> rat or_raise" where
  "grade right questions answers =
     (if length questions \<noteq> length answers then Inl ValueError
      else if questions = [] then Inl ZeroDivisionError
      else Inr (of_nat (length (filter (\<lambda>(q, a). right a (qu_gold q)) (zip questions answers))) / of_nat (length questions)))"

record round_result =
  rr_accuracy :: "rat option"
  rr_answered :: nat
  rr_errors :: nat

definition run_once :: "(string \<Rightarrow> string \<Rightarrow> bool) \<Rightarrow> question list \<Rightarrow> (question \<Rightarrow> string option) \<Rightarrow> round_result or_raise" where
  "run_once right questions ask =
     (let answers = map ask questions; errors = length (filter (\<lambda>a. a = None) answers) in
      bindE (if errors = 0 then bindE (grade right questions (map the answers)) (\<lambda>a. Inr (Some a)) else Inr None)
        (\<lambda>acc. Inr \<lparr>rr_accuracy = acc, rr_answered = length questions - errors, rr_errors = errors\<rparr>))"

definition expected_accuracy :: "(string \<Rightarrow> string \<Rightarrow> bool) \<Rightarrow> answer_row list \<Rightarrow> question list \<Rightarrow> rat or_raise" where
  "expected_accuracy right saved_rows questions =
     (let saved = map_of (rev (map (\<lambda>r. (ar_id r, r)) saved_rows)) in
      bindE (mapE (\<lambda>q. case saved (qu_id q) of None \<Rightarrow> Inl KeyError | Some r \<Rightarrow> Inr (q, r)) questions) (\<lambda>pairs.
        if length (filter (\<lambda>(q, r). ar_gold r \<noteq> qu_gold q) pairs) \<noteq> 0 then Inl ValueError
        else grade right questions (map (ar_greedy \<circ> snd) pairs)))"

text \<open>The pointer read: \<open>None\<close> when there is no file yet, else the model it names and its saved answers.\<close>

definition follow :: "(string \<Rightarrow> string \<Rightarrow> bool) \<Rightarrow> (string \<times> answer_row list) option \<Rightarrow> string \<Rightarrow> rat \<Rightarrow> question list
    \<Rightarrow> (string \<times> rat) or_raise" where
  "follow right current model expected questions =
     (case current of
        None \<Rightarrow> Inr (model, expected)
      | Some (m, rows) \<Rightarrow>
          if m = model then Inr (model, expected)
          else bindE (expected_accuracy right rows questions) (\<lambda>e. Inr (m, e)))"

record canary_metrics =
  ca_accuracy :: "rat option"
  ca_errors :: nat
  ca_last_run :: rat
  ca_expected :: rat
  ca_model_info :: "(string \<times> rat) option"

definition make_metrics :: "rat \<Rightarrow> rat \<Rightarrow> canary_metrics" where
  "make_metrics expected now = \<lparr>ca_accuracy = None, ca_errors = 0, ca_last_run = now, ca_expected = expected, ca_model_info = None\<rparr>"

definition set_model :: "string \<Rightarrow> rat \<Rightarrow> canary_metrics \<Rightarrow> canary_metrics" where
  "set_model model now m = m\<lparr>ca_model_info := Some (model, now)\<rparr>"

definition record_round :: "round_result \<Rightarrow> rat \<Rightarrow> canary_metrics \<Rightarrow> canary_metrics" where
  "record_round res now m =
     (let m1 = m\<lparr>ca_errors := ca_errors m + rr_errors res\<rparr> in
      case rr_accuracy res of
        None \<Rightarrow> m1\<lparr>ca_accuracy := None\<rparr>
      | Some a \<Rightarrow> m1\<lparr>ca_accuracy := Some a, ca_last_run := now\<rparr>)"

subsection \<open>The loop of \<open>main\<close>\<close>

record canary =
  cy_model :: string
  cy_expected :: rat
  cy_metrics :: canary_metrics

definition start_canary :: "string \<Rightarrow> rat \<Rightarrow> rat \<Rightarrow> rat \<Rightarrow> canary" where
  "start_canary model expected launched now =
     \<lparr>cy_model = model, cy_expected = expected, cy_metrics = set_model model now (make_metrics expected launched)\<rparr>"

datatype canary_event = Follow "(string \<times> answer_row list) option" rat | Ask "string \<Rightarrow> question \<Rightarrow> string option" rat

fun event_time :: "canary_event \<Rightarrow> rat" where
  "event_time (Follow _ now) = now"
| "event_time (Ask _ now) = now"

text \<open>\<open>answer m\<close> is what the server answers when it is asked for model \<open>m\<close>.\<close>

fun canary_step :: "(string \<Rightarrow> string \<Rightarrow> bool) \<Rightarrow> question list \<Rightarrow> canary_event \<Rightarrow> canary \<Rightarrow> canary or_raise" where
  "canary_step right questions (Follow current now) c =
     bindE (follow right current (cy_model c) (cy_expected c) questions) (\<lambda>(model, normal).
       if model \<noteq> cy_model c
       then Inr \<lparr>cy_model = model, cy_expected = normal, cy_metrics = set_model model now ((cy_metrics c)\<lparr>ca_expected := normal\<rparr>)\<rparr>
       else Inr c)"
| "canary_step right questions (Ask answer now) c =
     bindE (run_once right questions (answer (cy_model c))) (\<lambda>res.
       Inr (c\<lparr>cy_metrics := record_round res now (cy_metrics c)\<rparr>))"

text \<open>
  What the watch reads for a model.  The code makes four queries, one per value, each answered from
  the canary's state at the last scrape before it: four states, which differ when a scrape falls
  between two of the queries.  \<open>switched_at\<close> is there only when the label names the model.
\<close>

definition reading :: "string \<Rightarrow> canary \<Rightarrow> canary \<Rightarrow> canary \<Rightarrow> canary \<Rightarrow> canary_reading" where
  "reading model c1 c2 c3 c4 =
     \<lparr>cr_switched_at = (case ca_model_info (cy_metrics c1) of
         Some (n, t) \<Rightarrow> if n = model then Some t else None | None \<Rightarrow> None),
      cr_accuracy = ca_accuracy (cy_metrics c2), cr_expected = Some (ca_expected (cy_metrics c3)),
      cr_last_run = Some (ca_last_run (cy_metrics c4))\<rparr>"

text \<open>The state a scrape sees after the first \<open>n\<close> events.\<close>

definition scraped :: "(string \<Rightarrow> string \<Rightarrow> bool) \<Rightarrow> question list \<Rightarrow> canary_event list \<Rightarrow> canary \<Rightarrow> nat \<Rightarrow> canary \<Rightarrow> bool" where
  "scraped right questions evs c0 n c \<longleftrightarrow> foldE (canary_step right questions) (take n evs) c0 = Inr c"

subsection \<open>What a published accuracy means\<close>

text \<open>The rounds so far, each with its model, time and answers, are kept beside the state.\<close>

definition scored_by :: "(string \<Rightarrow> string \<Rightarrow> bool) \<Rightarrow> question list \<Rightarrow> canary_event list \<Rightarrow> string \<Rightarrow> rat \<Rightarrow> rat \<Rightarrow> bool" where
  "scored_by right questions evs model t a \<longleftrightarrow> (\<exists>answer. Ask answer t \<in> set evs
     \<and> (\<forall>q \<in> set questions. answer model q \<noteq> None) \<and> grade right questions (map (the \<circ> answer model) questions) = Inr a)"

definition canary_inv :: "(string \<Rightarrow> string \<Rightarrow> bool) \<Rightarrow> question list \<Rightarrow> canary_event list \<Rightarrow> rat \<Rightarrow> canary \<Rightarrow> bool" where
  "canary_inv right questions evs now c \<longleftrightarrow> (\<exists>since. ca_model_info (cy_metrics c) = Some (cy_model c, since) \<and> since \<le> now)
     \<and> ca_last_run (cy_metrics c) \<le> now \<and> ca_expected (cy_metrics c) = cy_expected c
     \<and> (\<forall>a. ca_accuracy (cy_metrics c) = Some a \<longrightarrow>
          scored_by right questions evs (cy_model c) (ca_last_run (cy_metrics c)) a
          \<or> (\<forall>since. ca_model_info (cy_metrics c) = Some (cy_model c, since) \<longrightarrow> ca_last_run (cy_metrics c) \<le> since))"

lemma canary_inv_start: "launched \<le> now \<Longrightarrow> canary_inv right questions [] now (start_canary model expected launched now)"
  by (simp add: canary_inv_def start_canary_def set_model_def make_metrics_def)

lemma scored_by_more: "scored_by right questions evs m t a \<Longrightarrow> scored_by right questions (evs @ evs') m t a"
  by (auto simp: scored_by_def)

lemma run_once_scored:
  assumes "run_once right questions ask = Inr res" "rr_accuracy res = Some a"
  shows "\<forall>q \<in> set questions. ask q \<noteq> None" "grade right questions (map (the \<circ> ask) questions) = Inr a"
  using assms by (auto simp: run_once_def Let_def bindE_Inr_iff filter_empty_conv comp_def split: if_splits)

lemma canary_step_inv:
  assumes inv: "canary_inv right questions evs now c" and st: "canary_step right questions ev c = Inr c'" and le: "now \<le> event_time ev"
  shows "canary_inv right questions (evs @ [ev]) (event_time ev) c'"
proof (cases ev)
  case (Follow current t)
  show ?thesis
  proof (cases "c' = c")
    case True
    then show ?thesis using inv le scored_by_more [of right questions evs] by (auto simp: canary_inv_def intro: order_trans)
  next
    case False
    then obtain model normal where "c' = \<lparr>cy_model = model, cy_expected = normal, cy_metrics = set_model model t ((cy_metrics c)\<lparr>ca_expected := normal\<rparr>)\<rparr>"
      using st Follow by (auto simp: bindE_Inr_iff split: if_splits)
    then show ?thesis using inv le Follow by (auto simp: canary_inv_def set_model_def)
  qed
next
  case (Ask answer t)
  then obtain res where res: "run_once right questions (answer (cy_model c)) = Inr res"
    and c': "c' = c\<lparr>cy_metrics := record_round res t (cy_metrics c)\<rparr>" using st by (auto simp: bindE_Inr_iff)
  show ?thesis
  proof (cases "rr_accuracy res")
    case None
    then show ?thesis using inv le Ask c' by (auto simp: canary_inv_def record_round_def Let_def intro: order_trans)
  next
    case (Some a)
    have "scored_by right questions (evs @ [ev]) (cy_model c) t a"
      using run_once_scored [OF res Some] Ask by (auto simp: scored_by_def comp_def)
    then show ?thesis using inv le Ask c' Some by (auto simp: canary_inv_def record_round_def Let_def intro: order_trans)
  qed
qed

fun times_from :: "rat \<Rightarrow> canary_event list \<Rightarrow> bool" where
  "times_from now [] = True"
| "times_from now (ev # evs) = (now \<le> event_time ev \<and> times_from (event_time ev) evs)"

lemma canary_run_inv:
  "canary_inv right questions evs now c \<Longrightarrow> foldE (canary_step right questions) evs' c = Inr c' \<Longrightarrow> times_from now evs'
    \<Longrightarrow> \<exists>now'. canary_inv right questions (evs @ evs') now' c'"
proof (induction evs' arbitrary: evs now c)
  case (Cons ev evs')
  then obtain c1 where c1: "canary_step right questions ev c = Inr c1" "foldE (canary_step right questions) evs' c1 = Inr c'"
    by (auto simp: bindE_Inr_iff)
  from canary_step_inv [OF Cons.prems(1) c1(1)] Cons.prems(3)
  have "canary_inv right questions (evs @ [ev]) (event_time ev) c1" by simp
  from Cons.IH [OF this c1(2)] Cons.prems(3) show ?case by simp
qed auto

lemma times_from_take: "times_from now evs \<Longrightarrow> times_from now (take n evs)"
  by (induction evs arbitrary: now n) (auto simp: take_Cons split: nat.splits)

lemma scored_by_take: "scored_by right questions (take n evs) m t a \<Longrightarrow> scored_by right questions evs m t a"
  using scored_by_more [of right questions "take n evs" m t a "drop n evs"] by simp

text \<open>C29: whatever models the canary was switched to and whichever rounds failed, a round the watch
adds for a model is a round in which that very model answered every question, with its graded share
and its time, never a score the model before it earned, provided the four queries of the reading
agree on the state: no switch of models was scraped between the first and the second query, and no
finished round between the second and the fourth.  (Without this it can be the score of the model
before it, \<open>straddling_reading_mixes\<close> below.)\<close>

theorem watch_reads_own_rounds:
  assumes "scraped right questions evs c0 n1 c1" "scraped right questions evs c0 n2 c2"
      "scraped right questions evs c0 n3 c3" "scraped right questions evs c0 n4 c4"
    and start: "c0 = start_canary model0 expected launched now" "launched \<le> now" "times_from now evs"
    and same_model: "ca_model_info (cy_metrics c1) = ca_model_info (cy_metrics c2)"
    and same_round: "ca_last_run (cy_metrics c2) = ca_last_run (cy_metrics c4)"
    and added: "add_round rounds (reading model c1 c2 c3 c4) \<noteq> rounds"
  shows "\<exists>t a. add_round rounds (reading model c1 c2 c3 c4) = rounds @ [(t, a)] \<and> scored_by right questions evs model t a"
proof -
  obtain now' where inv: "canary_inv right questions (take n2 evs) now' c2"
    using canary_run_inv [OF canary_inv_start [OF start(2)] _ times_from_take [OF start(3)]] assms(2) start(1)
    by (fastforce simp: scraped_def)
  obtain s a where sa: "ca_model_info (cy_metrics c2) = Some (model, s)" "ca_accuracy (cy_metrics c2) = Some a"
    "s < ca_last_run (cy_metrics c2)" "add_round rounds (reading model c1 c2 c3 c4) = rounds @ [(ca_last_run (cy_metrics c2), a)]"
    using added same_model same_round by (auto simp: add_round_def reading_def split: option.splits if_splits prod.splits)
  then have "scored_by right questions (take n2 evs) model (ca_last_run (cy_metrics c2)) a" using inv by (auto simp: canary_inv_def)
  then show ?thesis using sa(4) scored_by_take by blast
qed

definition two_questions :: "question list" where
  "two_questions = [\<lparr>qu_id = 0, qu_gold = ''1''\<rparr>, \<lparr>qu_id = 1, qu_gold = ''2''\<rparr>]"

definition switched_canary :: "canary_event list" where
  "switched_canary = [Ask (\<lambda>_ _. Some ''1'') 5,
     Follow (Some (''v4'', map (\<lambda>i. \<lparr>ar_id = i, ar_source = [], ar_gold = (if i = 0 then ''1'' else ''2''), ar_greedy = ''1''\<rparr>) [0, 1])) 6,
     Ask (\<lambda>m q. if m = ''v4'' then Some (qu_gold q) else None) 7]"

text \<open>An instance: a further round, without answers, is scraped between the
third and the fourth query; what is added is the round before it, of the new model.\<close>

definition failed_last :: "canary_event list" where
  "failed_last = switched_canary @ [Ask (\<lambda>_ _. None) 9]"

theorem watch_reads_own_rounds_witness:
  "\<exists>c c' a. scraped (=) two_questions failed_last (start_canary ''v3'' (1 / 2) 0 0) 3 c
     \<and> scraped (=) two_questions failed_last (start_canary ''v3'' (1 / 2) 0 0) 4 c'
     \<and> add_round [] (reading ''v4'' c c c c') = [(7, a)] \<and> scored_by (=) two_questions failed_last ''v4'' 7 a"
proof -
  let ?c0 = "start_canary ''v3'' (1 / 2) 0 0"
  obtain c c' where c: "scraped (=) two_questions failed_last ?c0 3 c" "scraped (=) two_questions failed_last ?c0 4 c'"
    "ca_last_run (cy_metrics c) = ca_last_run (cy_metrics c')" "add_round [] (reading ''v4'' c c c c') = [(7, 1)]"
    by (simp add: scraped_def failed_last_def switched_canary_def two_questions_def start_canary_def set_model_def make_metrics_def run_once_def grade_def
      follow_def expected_accuracy_def record_round_def reading_def add_round_def Let_def)
  have "times_from 0 failed_last" "add_round [] (reading ''v4'' c c c c') \<noteq> []"
    using c(4) by (simp_all add: failed_last_def switched_canary_def)
  from watch_reads_own_rounds [OF c(1,1,1,2) refl order_refl this(1) refl c(3) this(2)] show ?thesis using c by auto
qed

text \<open>
  Queries that straddle a scrape can pair the time of the new model's first round with the score
  of the model before it: here 1/2, the old model's, where the new one was right throughout.
\<close>

lemma straddling_reading_mixes:
  "\<exists>c c'. scraped (=) two_questions switched_canary (start_canary ''v3'' (1 / 2) 0 0) 2 c
     \<and> scraped (=) two_questions switched_canary (start_canary ''v3'' (1 / 2) 0 0) 3 c'
     \<and> add_round [] (reading ''v4'' c c c c') = [(7, 1 / 2)] \<and> \<not> scored_by (=) two_questions switched_canary ''v4'' 7 (1 / 2)"
  by (simp add: scraped_def switched_canary_def two_questions_def start_canary_def set_model_def make_metrics_def run_once_def grade_def
    follow_def expected_accuracy_def record_round_def reading_def add_round_def scored_by_def Let_def)

end
