(* ===== verification/Corpus.thy ===== *)
theory Corpus
  imports Prelude Py_Strings "HOL-Library.Word" "HOL-Library.Char_ord"
begin

text \<open>
  \<^verbatim>\<open>training/corpus_prep/prepare_corpus.py\<close>: which filings enter the pretraining corpus.  Text is a
  string of Latin-1 characters, as in \<open>Py_Strings\<close>.  Unicode normalization, the fingerprint of
  a text, the multipliers drawn by numpy, the order in which Python enumerates a set and the
  tokenizer come from outside and are arguments.  Machine integers keep their width.
\<close>

unbundle bit_operations_syntax

subsection \<open>Cleaning\<close>

definition newline :: char where
  "newline = CHR 0x0A"

fun lower :: "char \<Rightarrow> char" where
  "lower c = (let n = of_char c :: nat in
     if (65 \<le> n \<and> n \<le> 90) \<or> (192 \<le> n \<and> n \<le> 222 \<and> n \<noteq> 215) then char_of (n + 32) else c)"

text \<open>\<open>[ \t]+\<close> becomes one blank.\<close>

fun collapse_blanks :: "bool \<Rightarrow> string \<Rightarrow> string" where
  "collapse_blanks after [] = []"
| "collapse_blanks after (c # s) =
     (if c = CHR '' '' \<or> c = CHR 0x09 then (if after then collapse_blanks True s else CHR '' '' # collapse_blanks True s)
      else c # collapse_blanks False s)"

definition drop_spaces :: "string \<Rightarrow> string" where
  "drop_spaces = dropWhile py_space"

text \<open>One to three digits and nothing but the rest \<open>rest\<close> after them.\<close>

definition few_digits :: "(string \<Rightarrow> bool) \<Rightarrow> string \<Rightarrow> bool" where
  "few_digits rest s = (let d = takeWhile ascii_digit s in 1 \<le> length d \<and> length d \<le> 3 \<and> rest (drop (length d) s))"

definition junk_line :: "string \<Rightarrow> bool" where
  "junk_line line =
     (let l = map lower line; plain = (if l \<noteq> [] \<and> hd l = CHR ''-'' then tl l else l) in
      few_digits (\<lambda>r. drop_spaces r \<in> {[], ''-''}) (drop_spaces plain)
      \<or> (take 4 l = ''page'' \<and> drop_spaces (drop 4 l) \<noteq> drop 4 l \<and> few_digits (\<lambda>r. r = []) (drop_spaces (drop 4 l)))
      \<or> (2 \<le> length l \<and> CHR ''a'' \<le> l ! 0 \<and> l ! 0 \<le> CHR ''z'' \<and> l ! 1 = CHR ''-'' \<and> few_digits (\<lambda>r. r = []) (drop 2 l))
      \<or> (take 5 l = ''table'' \<and> (let t = drop 5 l; u = drop_spaces t in
           u \<noteq> t \<and> take 2 u = ''of'' \<and> drop_spaces (drop 2 u) \<noteq> drop 2 u \<and> drop_spaces (drop 2 u) = ''contents'')))"

text \<open>Three or more newlines become two.\<close>

fun squeeze_newlines :: "nat \<Rightarrow> string \<Rightarrow> string" where
  "squeeze_newlines k [] = []"
| "squeeze_newlines k (c # s) =
     (if c = newline then (if k < 2 then c # squeeze_newlines (k + 1) s else squeeze_newlines k s)
      else c # squeeze_newlines 0 s)"

definition clean :: "(string \<Rightarrow> string) \<Rightarrow> string \<Rightarrow> string" where
  "clean nfkc text =
     (let lines = map (\<lambda>ln. py_strip (collapse_blanks False ln)) (split_on newline (nfkc text))
      in py_strip (squeeze_newlines 0 (py_join [newline] (filter (\<lambda>ln. \<not> junk_line ln) lines))))"

subsection \<open>Quality\<close>

datatype outcome = Kept | Too_few_words | Odd_word_length | Few_alpha_words | Repeated_lines | Exact_copy | Near_copy_of | Contaminated

definition py_isalpha :: "char \<Rightarrow> bool" where
  "py_isalpha c = (let n = of_char c :: nat in (65 \<le> n \<and> n \<le> 90) \<or> (97 \<le> n \<and> n \<le> 122) \<or> n = 170 \<or> n = 181 \<or> n = 186
     \<or> (192 \<le> n \<and> n \<noteq> 215 \<and> n \<noteq> 247))"

fun repeated_chars :: "string set \<Rightarrow> string list \<Rightarrow> nat" where
  "repeated_chars seen [] = 0"
| "repeated_chars seen (ln # lns) = (if ln \<in> seen then length ln else 0) + repeated_chars (insert ln seen) lns"

text \<open>The comparisons of shares are written without the division.\<close>

definition quality_problem :: "string \<Rightarrow> outcome option" where
  "quality_problem text =
     (let words = py_words text; n = length words; chars = sum_list (map length words) in
      if n < 200 then Some Too_few_words
      else if \<not> (3 * n \<le> chars \<and> chars \<le> 10 * n) then Some Odd_word_length
      else if 10 * length (filter (list_ex py_isalpha) words) < 6 * n then Some Few_alpha_words
      else if length text < 5 * repeated_chars {} (split_on newline text) then Some Repeated_lines
      else None)"

subsection \<open>Signatures\<close>

text \<open>\<open>zlib.crc32\<close> of the UTF-8 bytes of a word.\<close>

definition utf8 :: "string \<Rightarrow> 32 word list" where
  "utf8 s = concat (map (\<lambda>c. let n = of_char c :: nat in
     if n < 128 then [of_nat n] else [of_nat (192 + n div 64), of_nat (128 + n mod 64)]) s)"

definition crc32_bit :: "32 word \<Rightarrow> 32 word" where
  "crc32_bit c = (if c AND 1 = 1 then drop_bit 1 c XOR 0xEDB88320 else drop_bit 1 c)"

definition crc32 :: "32 word list \<Rightarrow> 32 word" where
  "crc32 bytes = fold (\<lambda>b c. (crc32_bit ^^ 8) (c XOR b)) bytes 0xFFFFFFFF XOR 0xFFFFFFFF"

definition shingle_size :: nat where
  "shingle_size = 5"

text \<open>The hash of the shingle at each position: the word hashes of its words, combined by position.\<close>

definition shingles :: "string \<Rightarrow> 64 word list" where
  "shingles text =
     (let w = map (\<lambda>t. ucast (crc32 (utf8 t)) :: 64 word) (py_words (map lower text));
          n = max (length w + 1 - shingle_size) 1
      in map (\<lambda>i. fold (\<lambda>k sh. sh * 1000003 + w ! (k + i)) [0..<min shingle_size (length w)] 0) [0..<n])"

text \<open>The smallest hash over a block of at most 8192 shingles, block by block.\<close>

function min_blocks :: "nat \<Rightarrow> ('a \<Rightarrow> 64 word) \<Rightarrow> 'a list \<Rightarrow> 64 word \<Rightarrow> 64 word" where
  "min_blocks n f xs acc =
     (if xs = [] \<or> n = 0 then acc
      else min_blocks n f (drop n xs) (min acc (Min (set (map f (take n xs))))))"
  by auto
termination by (relation "measure (\<lambda>(n, f, xs, acc). length xs)") auto

declare min_blocks.simps [simp del]

type_synonym signature = "32 word list"

definition minhash :: "(64 word \<times> 64 word) list \<Rightarrow> string \<Rightarrow> signature" where
  "minhash ab text = map (\<lambda>(a, b). ucast (drop_bit 32 (min_blocks 8192 (\<lambda>s. s * a + b) (shingles text) (- 1)))) ab"

subsection \<open>The index of near copies\<close>

definition bands :: nat where "bands = 16"
definition band_rows :: nat where "band_rows = 8"

record near_copy_index =
  nc_buckets :: "nat \<Rightarrow> signature \<Rightarrow> nat list"
  nc_sigs :: "signature list"

definition NearCopyIndex :: near_copy_index where
  "NearCopyIndex = \<lparr>nc_buckets = (\<lambda>_ _. []), nc_sigs = []\<rparr>"

definition band_key :: "signature \<Rightarrow> nat \<Rightarrow> signature" where
  "band_key sig b = take band_rows (drop (b * band_rows) sig)"

definition agreeing :: "signature \<Rightarrow> signature \<Rightarrow> nat" where
  "agreeing s t = length (filter (\<lambda>(x, y). x = y) (zip s t))"

text \<open>\<open>enum\<close> is the order in which the set of candidates is visited; the mean of 128 is at least 0.8.\<close>

definition check_and_add :: "(nat list \<Rightarrow> nat list) \<Rightarrow> signature \<Rightarrow> near_copy_index \<Rightarrow> (nat \<times> nat) option \<times> near_copy_index" where
  "check_and_add enum sig ix =
     (let candidates = enum (remdups (concat (map (\<lambda>b. nc_buckets ix b (band_key sig b)) [0..<bands]))) in
      case find (\<lambda>i. 4 * length sig \<le> 5 * agreeing (nc_sigs ix ! i) sig) candidates of
        Some i \<Rightarrow> (Some (i, agreeing (nc_sigs ix ! i) sig), ix)
      | None \<Rightarrow> (None, ix\<lparr>nc_buckets := (\<lambda>b k. if b < bands \<and> k = band_key sig b then nc_buckets ix b k @ [length (nc_sigs ix)]
                                           else nc_buckets ix b k),
                        nc_sigs := nc_sigs ix @ [sig]\<rparr>))"

subsection \<open>Sentences of the evaluation data\<close>

text \<open>
  \<open>SENTENCE_END.split\<close>: white space after a closing mark, as long as it goes, or one newline; \<open>prev\<close>
  is the character before, \<open>cur\<close> the sentence so far, reversed.
\<close>

function sentences :: "char option \<Rightarrow> string \<Rightarrow> string \<Rightarrow> string list" where
  "sentences prev cur [] = [rev cur]"
| "sentences prev cur (c # s) =
     (if prev \<in> {Some (CHR ''.''), Some (CHR ''!''), Some (CHR ''?''), Some (CHR '';''), Some (CHR '':'')} \<and> py_space c
      then rev cur # sentences (Some (last (takeWhile py_space (c # s)))) [] (dropWhile py_space s)
      else if c = newline then rev cur # sentences (Some c) [] s
      else sentences (Some c) (c # cur) s)"
  by pat_completeness auto
termination
  by (relation "measure (\<lambda>(prev, cur, s). length s)") (auto simp: length_dropWhile_le le_imp_less_Suc)

definition key_char :: "char \<Rightarrow> bool" where
  "key_char c = (let n = of_char c :: nat in (97 \<le> n \<and> n \<le> 122) \<or> (48 \<le> n \<and> n \<le> 57))"

definition sentence_keys :: "string \<Rightarrow> string set" where
  "sentence_keys text =
     {k \<in> set (map (\<lambda>s. filter key_char (map lower s)) (sentences None [] text)). 60 \<le> length k}"

record eval_overlap =
  ov_eval :: "string set"
  ov_by_filing :: "(string \<times> string set) list"
  ov_companies :: "string \<Rightarrow> string set"

definition EvalOverlap :: "string set \<Rightarrow> eval_overlap" where
  "EvalOverlap evals = \<lparr>ov_eval = evals, ov_by_filing = [], ov_companies = (\<lambda>_. {})\<rparr>"

definition ov_add :: "string \<Rightarrow> string \<Rightarrow> string set \<Rightarrow> eval_overlap \<Rightarrow> eval_overlap" where
  "ov_add fid cik shared ov =
     (if shared = {} then ov
      else ov\<lparr>ov_by_filing := AList.update fid shared (ov_by_filing ov),
              ov_companies := (\<lambda>s. if s \<in> shared then insert cik (ov_companies ov s) else ov_companies ov s)\<rparr>)"

definition contaminated :: "eval_overlap \<Rightarrow> string set" where
  "contaminated ov =
     (let rare = (\<lambda>s. ov_companies ov s \<noteq> {} \<and> card (ov_companies ov s) \<le> 2)
      in fst ` set (filter (\<lambda>(f, shared). \<exists>s \<in> shared. rare s) (ov_by_filing ov)))"

subsection \<open>The first pass\<close>

record filing =
  fl_id :: string
  fl_cik :: string
  fl_text :: string

text \<open>A row's sections, in filing order, joined; missing ones are empty.\<close>

definition filing_text :: "string option list \<Rightarrow> string" where
  "filing_text sections =
     py_join [newline, newline] (filter (\<lambda>p. p \<noteq> []) (map (\<lambda>s. case s of None \<Rightarrow> [] | Some t \<Rightarrow> py_strip t) sections))"

datatype corpus_split = Train | Validate

record 'h setting =
  st_nfkc :: "string \<Rightarrow> string"
  st_hash :: "string \<Rightarrow> 'h"
  st_multipliers :: "(64 word \<times> 64 word) list"
  st_enum :: "nat list \<Rightarrow> nat list"

datatype 'h filing_notes = Problem outcome | Note 'h signature "string set"

definition analyze :: "'h setting \<Rightarrow> string set \<Rightarrow> filing \<Rightarrow> 'h filing_notes" where
  "analyze st evals f =
     (let text = clean (st_nfkc st) (fl_text f) in
      case quality_problem text of
        Some why \<Rightarrow> Problem why
      | None \<Rightarrow> Note (st_hash st text) (minhash (st_multipliers st) text) (sentence_keys text \<inter> evals))"

record 'h pass1_state =
  p1_seen :: "'h set"
  p1_index :: near_copy_index
  p1_keep :: "corpus_split \<Rightarrow> string set"
  p1_counts :: "corpus_split \<Rightarrow> outcome \<Rightarrow> int"
  p1_overlap :: eval_overlap

definition pass1_init :: "string set \<Rightarrow> 'h pass1_state" where
  "pass1_init evals = \<lparr>p1_seen = {}, p1_index = NearCopyIndex, p1_keep = (\<lambda>_. {}), p1_counts = (\<lambda>_ _. 0), p1_overlap = EvalOverlap evals\<rparr>"

definition tally :: "corpus_split \<Rightarrow> outcome \<Rightarrow> 'h pass1_state \<Rightarrow> 'h pass1_state" where
  "tally sp why p = p\<lparr>p1_counts := (p1_counts p)(sp := (p1_counts p sp)(why := p1_counts p sp why + 1))\<rparr>"

text \<open>One filing: an exact copy is remembered even when it is dropped, a near copy is not indexed.\<close>

definition pass1_filing :: "'h setting \<Rightarrow> corpus_split \<times> filing \<Rightarrow> 'h pass1_state \<Rightarrow> 'h pass1_state" where
  "pass1_filing st = (\<lambda>(sp, f) p.
     case analyze st (ov_eval (p1_overlap p)) f of
       Problem why \<Rightarrow> tally sp why p
     | Note h sig shared \<Rightarrow>
         if h \<in> p1_seen p then tally sp Exact_copy p
         else let p = p\<lparr>p1_seen := insert h (p1_seen p)\<rparr> in
           case check_and_add (st_enum st) sig (p1_index p) of
             (Some _, _) \<Rightarrow> tally sp Near_copy_of p
           | (None, ix) \<Rightarrow>
               tally sp Kept (p\<lparr>p1_index := ix, p1_keep := (p1_keep p)(sp := insert (fl_id f) (p1_keep p sp)),
                              p1_overlap := ov_add (fl_id f) (fl_cik f) shared (p1_overlap p)\<rparr>))"

definition decontaminate :: "'h pass1_state \<Rightarrow> corpus_split \<Rightarrow> 'h pass1_state" where
  "decontaminate p sp =
     (let bad = p1_keep p sp \<inter> contaminated (p1_overlap p); c = p1_counts p sp in
      p\<lparr>p1_keep := (p1_keep p)(sp := p1_keep p sp - bad),
        p1_counts := (p1_counts p)(sp := c(Kept := c Kept - int (card bad), Contaminated := int (card bad)))\<rparr>)"

text \<open>All filings of the training split, year by year, then all of the held-out split.\<close>

definition all_filings :: "(corpus_split \<Rightarrow> nat \<Rightarrow> filing list) \<Rightarrow> nat list \<Rightarrow> nat option \<Rightarrow> (corpus_split \<times> filing) list" where
  "all_filings corpus years max_docs =
     concat (map (\<lambda>sp. concat (map (\<lambda>y. map (Pair sp) (case max_docs of None \<Rightarrow> corpus sp y | Some m \<Rightarrow> take m (corpus sp y))) years))
       [Train, Validate])"

definition pass1 :: "'h setting \<Rightarrow> string set \<Rightarrow> (corpus_split \<times> filing) list \<Rightarrow> 'h pass1_state" where
  "pass1 st evals filings = foldl decontaminate (fold (pass1_filing st) filings (pass1_init evals)) [Train, Validate]"

subsection \<open>The second pass\<close>

text \<open>\<open>ShardWriter\<close>: the files of one split, each a list of token ids, and the list of what is in them.\<close>

definition shard_tokens :: nat where "shard_tokens = 100000000"

record shard_writer =
  sw_split :: string
  sw_shards :: "(string \<times> nat) list"
  sw_file :: "string option"
  sw_in_shard :: nat

type_synonym token_files = "string \<Rightarrow> 32 word list"

definition ShardWriter :: "string \<Rightarrow> shard_writer" where
  "ShardWriter split = \<lparr>sw_split = split, sw_shards = [], sw_file = None, sw_in_shard = 0\<rparr>"

definition shard_name :: "string \<Rightarrow> nat \<Rightarrow> string" where
  "shard_name split n = split @ ''_'' @ (let d = show_nat n in replicate (3 - length d) (CHR ''0'') @ d) @ ''.bin''"

definition encode :: "(string \<Rightarrow> nat list) \<Rightarrow> nat \<Rightarrow> string \<Rightarrow> 32 word list" where
  "encode tokenizer eod text = map of_nat (tokenizer text @ [eod])"

definition sw_close :: "shard_writer \<Rightarrow> shard_writer" where
  "sw_close w = w\<lparr>sw_file := None\<rparr>"

definition open_shard :: "shard_writer \<times> token_files \<Rightarrow> shard_writer \<times> token_files" where
  "open_shard = (\<lambda>(w, files).
     let w = sw_close w; name = shard_name (sw_split w) (length (sw_shards w))
     in (w\<lparr>sw_file := Some name, sw_in_shard := 0, sw_shards := sw_shards w @ [(name, 0)]\<rparr>, files(name := [])))"

definition write_ids :: "32 word list \<Rightarrow> shard_writer \<times> token_files \<Rightarrow> shard_writer \<times> token_files" where
  "write_ids ids = (\<lambda>(w, files).
     let (w, files) = (if sw_file w = None \<or> shard_tokens \<le> sw_in_shard w then open_shard (w, files) else (w, files));
         name = the (sw_file w); n = length (sw_shards w) - 1
     in (w\<lparr>sw_in_shard := sw_in_shard w + length ids,
            sw_shards := (sw_shards w)[n := (fst (sw_shards w ! n), snd (sw_shards w ! n) + length ids)]\<rparr>,
         files(name := files name @ ids)))"

definition pass2_split :: "(filing \<Rightarrow> 32 word list) \<Rightarrow> string \<Rightarrow> filing list \<Rightarrow> token_files \<Rightarrow> (string \<times> nat) list \<times> token_files" where
  "pass2_split enc name kept files =
     (let (w, files) = fold (write_ids \<circ> enc) kept (ShardWriter name, files) in (sw_shards (sw_close w), files))"

text \<open>The worker's part: clean and tokenize.\<close>

definition encode_filing :: "'h setting \<Rightarrow> (string \<Rightarrow> nat list) \<Rightarrow> nat \<Rightarrow> filing \<Rightarrow> 32 word list" where
  "encode_filing st tokenizer eod f = encode tokenizer eod (clean (st_nfkc st) (fl_text f))"

definition kept_of :: "(corpus_split \<Rightarrow> string set) \<Rightarrow> (corpus_split \<times> filing) list \<Rightarrow> corpus_split \<Rightarrow> filing list" where
  "kept_of keep filings sp = map snd (filter (\<lambda>(s, f). s = sp \<and> fl_id f \<in> keep sp) filings)"

definition pass2 :: "(filing \<Rightarrow> 32 word list) \<Rightarrow> (corpus_split \<Rightarrow> string set) \<Rightarrow> (corpus_split \<times> filing) list \<Rightarrow> token_files
    \<Rightarrow> (string \<times> nat) list \<times> token_files" where
  "pass2 enc keep filings files =
     (let (a, files) = pass2_split enc ''train'' (kept_of keep filings Train) files;
          (b, files) = pass2_split enc ''val'' (kept_of keep filings Validate) files
      in (a @ b, files))"

end
