(* ===== verification/Corpus_Properties.thy ===== *)
theory Corpus_Properties
  imports Corpus
begin

text \<open>
  What the corpus is free of: the signatures and the index of near copies, an invariant of the first
  pass with the filings kept so far beside the state, and the shards the second pass writes.
\<close>

subsection \<open>Signatures\<close>

lemma Min_insert_Un:
  assumes "finite A" "A \<noteq> {}" "finite B"
  shows "Min (insert (min a (Min A)) B) = Min (insert a (A \<union> B))"
  using assms by (cases "B = {}") (simp_all add: Min_Un min.assoc)

lemma min_blocks_eq: "0 < n \<Longrightarrow> min_blocks n f xs acc = Min (insert acc (f ` set xs))"
proof (induction n f xs acc rule: min_blocks.induct)
  case (1 n f xs acc)
  show ?case
  proof (cases "xs = []")
    case False
    have "set xs = set (take n xs) \<union> set (drop n xs)" by (metis append_take_drop_id set_append)
    then have img: "f ` set xs = f ` set (take n xs) \<union> f ` set (drop n xs)" by (metis image_Un)
    have ne: "f ` set (take n xs) \<noteq> {}" using False 1(2) by simp
    have "min_blocks n f xs acc = Min (insert (min acc (Min (f ` set (take n xs)))) (f ` set (drop n xs)))"
      using 1 False by (subst min_blocks.simps) simp
    also have "\<dots> = Min (insert acc (f ` set xs))"
      unfolding img using ne by (intro Min_insert_Un) auto
    finally show ?thesis .
  qed (simp add: min_blocks.simps)
qed

text \<open>A signature depends on the set of shingles alone, whatever the blocks.\<close>

lemma minhash_of_set:
  "set (shingles s) = set (shingles t) \<Longrightarrow> minhash ab s = minhash ab t"
  by (simp add: minhash_def min_blocks_eq)

lemma length_minhash [simp]: "length (minhash ab t) = length ab"
  by (simp add: minhash_def)

subsection \<open>How alike two kept signatures can be\<close>

definition apart :: "signature \<Rightarrow> signature \<Rightarrow> bool" where
  "apart s t \<longleftrightarrow> 5 * agreeing s t < 4 * length t \<or> (\<forall>b < bands. band_key s b \<noteq> band_key t b)"

lemma agreeing_le: "agreeing s t \<le> length s"
  using length_filter_le [of "\<lambda>(x, y). x = y" "zip s t"] by (simp add: agreeing_def)

lemma agreeing_append: "length s = length t \<Longrightarrow> agreeing (s @ s') (t @ t') = agreeing s t + agreeing s' t'"
  by (simp add: agreeing_def)

lemma agreeing_sym: "agreeing s t = agreeing t s"
proof (induction s arbitrary: t)
  case (Cons x s)
  then show ?case by (cases t) (auto simp: agreeing_def)
qed (simp add: agreeing_def)

lemma agreeing_all: "length s = length t \<Longrightarrow> agreeing s t = length s \<Longrightarrow> s = t"
proof (induction s t rule: list_induct2)
  case (Cons x s y t)
  then show ?case using agreeing_le [of s t] by (auto simp: agreeing_def split: if_splits)
qed simp

lemma agreeing_bands:
  assumes "length s = n * r" "length t = n * r" "\<forall>b < n. take r (drop (b * r) s) \<noteq> take r (drop (b * r) t)"
  shows "agreeing s t \<le> n * (r - 1)"
  using assms
proof (induction n arbitrary: s t)
  case 0
  then show ?case using agreeing_le [of s t] by simp
next
  case (Suc n)
  have len: "length (take r s) = r" "length (take r t) = r" using Suc.prems by simp_all
  have "take r s \<noteq> take r t" using Suc.prems(3) by (metis drop0 mult_zero_left zero_less_Suc)
  then have "agreeing (take r s) (take r t) \<noteq> r" using agreeing_all len by metis
  moreover have "agreeing (take r s) (take r t) \<le> r" using agreeing_le len by metis
  ultimately have a: "agreeing (take r s) (take r t) \<le> r - 1" by simp
  have "take r (drop (b * r) (drop r s)) \<noteq> take r (drop (b * r) (drop r t))" if "b < n" for b
    using Suc.prems(3) [rule_format, of "Suc b"] that by (simp add: add.commute)
  then have b: "agreeing (drop r s) (drop r t) \<le> n * (r - 1)" using Suc.prems by (intro Suc.IH) auto
  have "agreeing s t = agreeing (take r s) (take r t) + agreeing (drop r s) (drop r t)"
    using agreeing_append [of "take r s" "take r t" "drop r s" "drop r t"] len by simp
  then show ?case using a b by simp
qed

lemma apart_bound:
  assumes "apart s t" "length s = 128" "length t = 128"
  shows "agreeing s t \<le> 112"
proof (cases "\<forall>b < bands. band_key s b \<noteq> band_key t b")
  case True
  then show ?thesis using agreeing_bands [of s 16 8 t] assms(2,3) by (simp add: band_key_def bands_def band_rows_def)
qed (use assms in \<open>auto simp: apart_def\<close>)

lemma apart_sym: "length s = length t \<Longrightarrow> apart s t \<longleftrightarrow> apart t s"
  by (auto simp: apart_def agreeing_sym [of s t])

definition index_ok :: "near_copy_index \<Rightarrow> bool" where
  "index_ok ix \<longleftrightarrow> (\<forall>b < bands. \<forall>k. set (nc_buckets ix b k) = {i. i < length (nc_sigs ix) \<and> band_key (nc_sigs ix ! i) b = k})"

lemma index_ok_empty: "index_ok NearCopyIndex"
  by (simp add: index_ok_def NearCopyIndex_def)

lemma check_and_add_keeps:
  assumes ok: "index_ok ix" and en: "\<forall>xs. set (enum xs) = set xs" and r: "check_and_add enum sig ix = (None, ix')"
  shows "index_ok ix'" "nc_sigs ix' = nc_sigs ix @ [sig]" "\<forall>s \<in> set (nc_sigs ix). apart s sig"
proof -
  let ?cand = "enum (remdups (concat (map (\<lambda>b. nc_buckets ix b (band_key sig b)) [0..<bands])))"
  have none: "find (\<lambda>i. 4 * length sig \<le> 5 * agreeing (nc_sigs ix ! i) sig) ?cand = None"
    and ix': "ix' = ix\<lparr>nc_buckets := (\<lambda>b k. if b < bands \<and> k = band_key sig b then nc_buckets ix b k @ [length (nc_sigs ix)]
                                           else nc_buckets ix b k), nc_sigs := nc_sigs ix @ [sig]\<rparr>"
    using r by (auto simp: check_and_add_def Let_def split: option.splits)
  show "nc_sigs ix' = nc_sigs ix @ [sig]" by (simp add: ix')
  show "index_ok ix'" using ok by (auto simp: index_ok_def ix' nth_append less_Suc_eq)
  have cand: "set ?cand = {i. i < length (nc_sigs ix) \<and> (\<exists>b < bands. band_key (nc_sigs ix ! i) b = band_key sig b)}"
    using ok by (auto simp: en index_ok_def)
  have "apart (nc_sigs ix ! i) sig" if i: "i < length (nc_sigs ix)" for i
  proof (cases "i \<in> set ?cand")
    case True
    then have "\<not> 4 * length sig \<le> 5 * agreeing (nc_sigs ix ! i) sig" using none by (simp add: find_None_iff)
    then show ?thesis by (simp add: apart_def)
  next
    case False
    then have "\<forall>b < bands. band_key (nc_sigs ix ! i) b \<noteq> band_key sig b" using i unfolding cand by blast
    then show ?thesis by (simp add: apart_def)
  qed
  then show "\<forall>s \<in> set (nc_sigs ix). apart s sig" by (auto simp: in_set_conv_nth)
qed

subsection \<open>What the first pass keeps\<close>

text \<open>The filings kept so far, with the notes taken of them, beside the state.\<close>

record 'h kept_filing =
  kp_split :: corpus_split
  kp_filing :: filing
  kp_hash :: 'h
  kp_sig :: signature
  kp_shared :: "string set"

definition kept_ok :: "'h setting \<Rightarrow> string set \<Rightarrow> (corpus_split \<times> filing) list \<Rightarrow> 'h set \<Rightarrow> 'h kept_filing \<Rightarrow> bool" where
  "kept_ok st evals seen_filings hashes x \<longleftrightarrow> (kp_split x, kp_filing x) \<in> set seen_filings
     \<and> analyze st evals (kp_filing x) = Note (kp_hash x) (kp_sig x) (kp_shared x) \<and> kp_hash x \<in> hashes"

definition overlap_ok :: "string set \<Rightarrow> 'h kept_filing list \<Rightarrow> eval_overlap \<Rightarrow> bool" where
  "overlap_ok evals K ov \<longleftrightarrow> ov_eval ov = evals
     \<and> (\<forall>s. ov_companies ov s = (fl_cik \<circ> kp_filing) ` {x \<in> set K. s \<in> kp_shared x})
     \<and> (\<forall>x \<in> set K. kp_shared x \<noteq> {} \<longrightarrow> map_of (ov_by_filing ov) (fl_id (kp_filing x)) = Some (kp_shared x))"

definition unlike :: "'h kept_filing \<Rightarrow> 'h kept_filing \<Rightarrow> bool" where
  "unlike x y \<longleftrightarrow> kp_hash x \<noteq> kp_hash y \<and> apart (kp_sig x) (kp_sig y)"

definition pass1_inv :: "'h setting \<Rightarrow> string set \<Rightarrow> (corpus_split \<times> filing) list \<Rightarrow> 'h kept_filing list \<Rightarrow> 'h pass1_state \<Rightarrow> bool" where
  "pass1_inv st evals fs K p \<longleftrightarrow> overlap_ok evals K (p1_overlap p)
     \<and> index_ok (p1_index p) \<and> nc_sigs (p1_index p) = map kp_sig K
     \<and> (\<forall>x \<in> set K. kept_ok st evals fs (p1_seen p) x) \<and> sorted_wrt unlike K
     \<and> (\<forall>sp. p1_keep p sp = (fl_id \<circ> kp_filing) ` {x \<in> set K. kp_split x = sp})"

lemma kept_ok_more: "kept_ok st evals fs hs x \<Longrightarrow> set fs \<subseteq> set fs' \<Longrightarrow> hs \<subseteq> hs' \<Longrightarrow> kept_ok st evals fs' hs' x"
  by (auto simp: kept_ok_def)

lemma pass1_inv_init: "pass1_inv st evals [] [] (pass1_init evals)"
  by (simp add: pass1_inv_def overlap_ok_def pass1_init_def EvalOverlap_def index_ok_empty NearCopyIndex_def [THEN arg_cong, of nc_sigs])

lemma overlap_ok_add:
  assumes "overlap_ok evals K ov" "\<forall>y \<in> set K. fl_id (kp_filing y) \<noteq> fl_id (kp_filing x)"
  shows "overlap_ok evals (K @ [x]) (ov_add (fl_id (kp_filing x)) (fl_cik (kp_filing x)) (kp_shared x) ov)"
proof (cases "kp_shared x = {}")
  case True
  then show ?thesis using assms by (auto simp: overlap_ok_def ov_add_def)
next
  case False
  have "(if s \<in> kp_shared x then insert (fl_cik (kp_filing x)) (ov_companies ov s) else ov_companies ov s)
      = (fl_cik \<circ> kp_filing) ` {y \<in> set (K @ [x]). s \<in> kp_shared y}" for s
    using assms(1) by (auto simp: overlap_ok_def)
  then show ?thesis using assms False by (auto simp: overlap_ok_def ov_add_def update_conv')
qed

lemma tally_same [simp]:
  "p1_overlap (tally sp why p) = p1_overlap p" "p1_index (tally sp why p) = p1_index p"
  "p1_seen (tally sp why p) = p1_seen p" "p1_keep (tally sp why p) = p1_keep p"
  by (simp_all add: tally_def)

lemma pass1_inv_skip:
  assumes "pass1_inv st evals fs K p" "p1_overlap p' = p1_overlap p" "p1_index p' = p1_index p" "p1_keep p' = p1_keep p"
    "p1_seen p \<subseteq> p1_seen p'"
  shows "pass1_inv st evals (fs @ [x]) K p'"
  using assms kept_ok_more [of st evals fs "p1_seen p" _ "fs @ [x]" "p1_seen p'"] by (auto simp: pass1_inv_def)

lemma pass1_filing_inv:
  assumes inv: "pass1_inv st evals fs K p" and en: "\<forall>xs. set (st_enum st xs) = set xs"
    and new: "\<forall>(_, g) \<in> set fs. fl_id g \<noteq> fl_id f"
  shows "\<exists>K'. pass1_inv st evals (fs @ [(sp, f)]) K' (pass1_filing st (sp, f) p)"
proof -
  have ev: "ov_eval (p1_overlap p) = evals" using inv by (simp add: pass1_inv_def overlap_ok_def)
  show ?thesis
  proof (cases "analyze st evals f")
    case (Problem why)
    then show ?thesis using pass1_inv_skip [OF inv] by (intro exI [of _ K]) (simp add: pass1_filing_def ev)
  next
    case (Note h sig shared)
    let ?p = "p\<lparr>p1_seen := insert h (p1_seen p)\<rparr>"
    consider "h \<in> p1_seen p" | i ix where "h \<notin> p1_seen p" "check_and_add (st_enum st) sig (p1_index p) = (Some i, ix)"
      | ix where "h \<notin> p1_seen p" "check_and_add (st_enum st) sig (p1_index p) = (None, ix)"
      by (metis option.exhaust surj_pair)
    then show ?thesis
    proof cases
      case 1
      then show ?thesis using Note pass1_inv_skip [OF inv] by (intro exI [of _ K]) (simp add: pass1_filing_def ev)
    next
      case 2
      then have "pass1_filing st (sp, f) p = tally sp Near_copy_of ?p" using Note by (simp add: pass1_filing_def ev Let_def)
      then show ?thesis using pass1_inv_skip [OF inv, of "tally sp Near_copy_of ?p"] by (intro exI [of _ K]) auto
    next
      case 3
      let ?x = "\<lparr>kp_split = sp, kp_filing = f, kp_hash = h, kp_sig = sig, kp_shared = shared\<rparr>"
      have K: "overlap_ok evals K (p1_overlap p)" "index_ok (p1_index p)" "nc_sigs (p1_index p) = map kp_sig K"
        "\<forall>x \<in> set K. kept_ok st evals fs (p1_seen p) x" "sorted_wrt unlike K"
        "\<forall>sp. p1_keep p sp = (fl_id \<circ> kp_filing) ` {x \<in> set K. kp_split x = sp}"
        using inv by (auto simp: pass1_inv_def)
      note ix = check_and_add_keeps [OF K(2) en 3(2)]
      have step: "pass1_filing st (sp, f) p = tally sp Kept (?p\<lparr>p1_index := ix, p1_keep := (p1_keep p)(sp := insert (fl_id f) (p1_keep p sp)),
          p1_overlap := ov_add (fl_id f) (fl_cik f) shared (p1_overlap p)\<rparr>)"
        using Note 3 by (simp add: pass1_filing_def ev Let_def)
      have "\<forall>y \<in> set K. fl_id (kp_filing y) \<noteq> fl_id (kp_filing ?x)" using K(4) new by (auto simp: kept_ok_def)
      from overlap_ok_add [OF K(1) this] have ov: "overlap_ok evals (K @ [?x]) (ov_add (fl_id f) (fl_cik f) shared (p1_overlap p))" by simp
      have ok: "\<forall>y \<in> set (K @ [?x]). kept_ok st evals (fs @ [(sp, f)]) (insert h (p1_seen p)) y"
        using K(4) Note kept_ok_more [of st evals fs "p1_seen p" _ "fs @ [(sp, f)]" "insert h (p1_seen p)"] by (auto simp: kept_ok_def)
      have "\<forall>y \<in> set K. unlike y ?x" using K(3,4) ix(3) 3(1) by (auto simp: unlike_def kept_ok_def)
      then have un: "sorted_wrt unlike (K @ [?x])" using K(5) by (simp add: sorted_wrt_append)
      have keep: "((p1_keep p)(sp := insert (fl_id f) (p1_keep p sp))) sp' = (fl_id \<circ> kp_filing) ` {x \<in> set (K @ [?x]). kp_split x = sp'}" for sp'
      proof -
        have "{x \<in> set (K @ [?x]). kp_split x = sp'} = (if sp' = sp then insert ?x {x \<in> set K. kp_split x = sp'} else {x \<in> set K. kp_split x = sp'})"
          by auto
        then show ?thesis using K(6) by simp
      qed
      show ?thesis using ov ok un keep ix(1,2) K(3) by (intro exI [of _ "K @ [?x]"]) (simp add: step pass1_inv_def)
    qed
  qed
qed

lemma pass1_fold_inv:
  assumes "distinct (map (fl_id \<circ> snd) fs)" "\<forall>xs. set (st_enum st xs) = set xs"
  shows "\<exists>K. pass1_inv st evals fs K (fold (pass1_filing st) fs (pass1_init evals))"
  using assms(1)
proof (induction fs rule: rev_induct)
  case Nil
  then show ?case using pass1_inv_init by auto
next
  case (snoc x fs)
  obtain sp f where x: "x = (sp, f)" by force
  from snoc obtain K where "pass1_inv st evals fs K (fold (pass1_filing st) fs (pass1_init evals))" by auto
  from pass1_filing_inv [OF this assms(2), of f sp] snoc.prems show ?case by (force simp: x)
qed

lemma pass1_keep:
  "p1_keep (pass1 st evals fs) sp = p1_keep (fold (pass1_filing st) fs (pass1_init evals)) sp
     - contaminated (p1_overlap (fold (pass1_filing st) fs (pass1_init evals)))"
  by (cases sp) (auto simp: pass1_def decontaminate_def Let_def)

lemma pass1_kept:
  assumes "distinct (map (fl_id \<circ> snd) fs)" and "\<forall>xs. set (st_enum st xs) = set xs"
  obtains K where "sorted_wrt unlike K" "\<forall>x \<in> set K. (kp_split x, kp_filing x) \<in> set fs \<and> analyze st evals (kp_filing x) = Note (kp_hash x) (kp_sig x) (kp_shared x)"
    "\<And>sp f. (sp, f) \<in> set fs \<Longrightarrow> fl_id f \<in> p1_keep (pass1 st evals fs) sp \<Longrightarrow>
       \<exists>x \<in> set K. kp_split x = sp \<and> kp_filing x = f \<and> (\<forall>s \<in> kp_shared x. 2 < card ((fl_cik \<circ> kp_filing) ` {y \<in> set K. s \<in> kp_shared y}))"
proof -
  let ?p = "fold (pass1_filing st) fs (pass1_init evals)"
  obtain K where inv: "pass1_inv st evals fs K ?p" using pass1_fold_inv [OF assms] by blast
  have "\<exists>x \<in> set K. kp_split x = sp \<and> kp_filing x = f \<and> (\<forall>s \<in> kp_shared x. 2 < card ((fl_cik \<circ> kp_filing) ` {y \<in> set K. s \<in> kp_shared y}))"
    if f: "(sp, f) \<in> set fs" "fl_id f \<in> p1_keep (pass1 st evals fs) sp" for sp f
  proof -
    from f(2) inv obtain x where x: "x \<in> set K" "kp_split x = sp" "fl_id (kp_filing x) = fl_id f" "fl_id f \<notin> contaminated (p1_overlap ?p)"
      unfolding pass1_keep by (auto simp: pass1_inv_def)
    have "(sp, kp_filing x) \<in> set fs" using inv x(1,2) by (auto simp: pass1_inv_def kept_ok_def)
    then have xf: "kp_filing x = f" using f(1) x(3) assms(1) inj_onD [of "fl_id \<circ> snd" "set fs" "(sp, kp_filing x)" "(sp, f)"] by (simp add: distinct_map)
    have "2 < card ((fl_cik \<circ> kp_filing) ` {y \<in> set K. s \<in> kp_shared y})" if s: "s \<in> kp_shared x" for s
    proof -
      have "(fl_id f, kp_shared x) \<in> set (ov_by_filing (p1_overlap ?p))" 
        using inv x(1) s xf by (auto simp: pass1_inv_def overlap_ok_def intro!: map_of_SomeD)
      then have "\<not> (ov_companies (p1_overlap ?p) s \<noteq> {} \<and> card (ov_companies (p1_overlap ?p) s) \<le> 2)"
        using x(4) s by (force simp: contaminated_def Let_def)
      then show ?thesis using inv x(1) s by (auto simp: pass1_inv_def overlap_ok_def)
    qed
    then show ?thesis using x xf by blast
  qed
  then show ?thesis using inv that [of K] by (auto simp: pass1_inv_def kept_ok_def)
qed

lemma sorted_wrt_pair: "sorted_wrt R K \<Longrightarrow> x \<in> set K \<Longrightarrow> y \<in> set K \<Longrightarrow> x = y \<or> R x y \<or> R y x"
  by (induction K) auto

definition cleaned :: "'h setting \<Rightarrow> filing \<Rightarrow> string" where
  "cleaned st f = clean (st_nfkc st) (fl_text f)"

definition companies_with :: "'h setting \<Rightarrow> (corpus_split \<times> filing) list \<Rightarrow> string \<Rightarrow> string set" where
  "companies_with st fs s = fl_cik ` {f \<in> snd ` set fs. s \<in> sentence_keys (cleaned st f)}"

lemma analyze_Note:
  "analyze st evals f = Note h sig shared \<longleftrightarrow> quality_problem (cleaned st f) = None \<and> h = st_hash st (cleaned st f)
     \<and> sig = minhash (st_multipliers st) (cleaned st f) \<and> shared = sentence_keys (cleaned st f) \<inter> evals"
  by (auto simp: analyze_def cleaned_def Let_def split: option.splits)

text \<open>C28: A filing that stays in the corpus after the first pass is of good quality; every sentence of the
  evaluation data in it is in the filings of at least three companies; and it is no copy of any
  other filing that stays, in either split: fingerprints differ, and of the 128 values of their
  signatures at most 112 agree, candidates being compared only within equal bands.  (Not 102, the
  0.8 the comparison itself uses: two filings whose 16 bands all differ are never compared.)
\<close>

theorem kept_filings_clean:
  assumes "distinct (map (fl_id \<circ> snd) fs)" and "\<forall>xs. set (st_enum st xs) = set xs" and "length (st_multipliers st) = 128"
    and "(sp, f) \<in> set fs" and "fl_id f \<in> p1_keep (pass1 st evals fs) sp"
  shows "quality_problem (cleaned st f) = None
     \<and> (\<forall>s \<in> sentence_keys (cleaned st f) \<inter> evals. 2 < card (companies_with st fs s))
     \<and> (\<forall>sp' g. (sp', g) \<in> set fs \<and> fl_id g \<in> p1_keep (pass1 st evals fs) sp' \<and> g \<noteq> f \<longrightarrow>
          st_hash st (cleaned st f) \<noteq> st_hash st (cleaned st g)
          \<and> agreeing (minhash (st_multipliers st) (cleaned st f)) (minhash (st_multipliers st) (cleaned st g)) \<le> 112)"
proof -
  obtain K where K: "sorted_wrt unlike K"
    "\<forall>x \<in> set K. (kp_split x, kp_filing x) \<in> set fs \<and> analyze st evals (kp_filing x) = Note (kp_hash x) (kp_sig x) (kp_shared x)"
    and kept: "\<And>sp f. (sp, f) \<in> set fs \<Longrightarrow> fl_id f \<in> p1_keep (pass1 st evals fs) sp \<Longrightarrow>
       \<exists>x \<in> set K. kp_split x = sp \<and> kp_filing x = f \<and> (\<forall>s \<in> kp_shared x. 2 < card ((fl_cik \<circ> kp_filing) ` {y \<in> set K. s \<in> kp_shared y}))"
    using pass1_kept [OF assms(1,2), where evals = evals] by blast
  obtain x where x: "x \<in> set K" "kp_filing x = f"
    "\<forall>s \<in> kp_shared x. 2 < card ((fl_cik \<circ> kp_filing) ` {y \<in> set K. s \<in> kp_shared y})" using kept [OF assms(4,5)] by blast
  have nt: "quality_problem (cleaned st (kp_filing y)) = None" "kp_hash y = st_hash st (cleaned st (kp_filing y))"
    "kp_sig y = minhash (st_multipliers st) (cleaned st (kp_filing y))" "kp_shared y = sentence_keys (cleaned st (kp_filing y)) \<inter> evals"
    if "y \<in> set K" for y using K(2) that by (auto simp: analyze_Note)
  have "2 < card (companies_with st fs s)" if s: "s \<in> sentence_keys (cleaned st f) \<inter> evals" for s
  proof -
    have "(fl_cik \<circ> kp_filing) ` {y \<in> set K. s \<in> kp_shared y} \<subseteq> companies_with st fs s"
      using K(2) nt(4) by (force simp: companies_with_def)
    moreover have "finite (companies_with st fs s)" by (simp add: companies_with_def)
    ultimately have "card ((fl_cik \<circ> kp_filing) ` {y \<in> set K. s \<in> kp_shared y}) \<le> card (companies_with st fs s)" by (simp add: card_mono)
    moreover have "s \<in> kp_shared x" using s nt(4) [OF x(1)] x(2) by simp
    ultimately show ?thesis using x(3) by (meson less_le_trans)
  qed
  moreover have "st_hash st (cleaned st f) \<noteq> st_hash st (cleaned st g)
      \<and> agreeing (minhash (st_multipliers st) (cleaned st f)) (minhash (st_multipliers st) (cleaned st g)) \<le> 112"
    if g: "(sp', g) \<in> set fs" "fl_id g \<in> p1_keep (pass1 st evals fs) sp'" "g \<noteq> f" for sp' g
  proof -
    obtain y where y: "y \<in> set K" "kp_filing y = g" using kept [OF g(1,2)] by blast
    have "x \<noteq> y" using x(2) y(2) g(3) by auto
    then have "unlike x y \<or> unlike y x" using sorted_wrt_pair [OF K(1) x(1) y(1)] by simp
    moreover have "length (kp_sig x) = 128" "length (kp_sig y) = 128" using nt(3) x(1) y(1) assms(3) by simp_all
    ultimately have "kp_hash x \<noteq> kp_hash y \<and> apart (kp_sig x) (kp_sig y)" using apart_sym by (auto simp: unlike_def)
    then show ?thesis using apart_bound [of "kp_sig x" "kp_sig y"] nt [OF x(1)] nt [OF y(1)] x(2) y(2) assms(3) by simp
  qed
  ultimately show ?thesis using nt(1) [OF x(1)] x(2) by blast
qed

text \<open>A page of one word, two hundred times.\<close>

definition page_of_words :: "nat \<Rightarrow> string" where
  "page_of_words n = concat (replicate n ''word '') @ ''word''"

lemma page_chars: "set (page_of_words n) \<subseteq> set ''word ''"
  by (auto simp: page_of_words_def)

lemma page_Suc: "page_of_words (Suc n) = ''word '' @ page_of_words n"
  by (simp add: page_of_words_def)

lemma py_words_cons:
  assumes "w \<noteq> []" "\<forall>c \<in> set w. \<not> py_space c" "py_space c"
  shows "py_words (w @ c # s) = w # py_words s"
proof -
  have "dropWhile py_space (w @ c # s) = w @ c # s" using assms by (cases w) auto
  moreover have "takeWhile (\<lambda>c. \<not> py_space c) (w @ c # s) = w" "dropWhile (\<lambda>c. \<not> py_space c) (w @ c # s) = c # s"
    using assms(2,3) by (simp_all add: takeWhile_append2 dropWhile_append2)
  moreover have "py_words (c # s) = py_words s" using assms(3) by (subst (1 2) py_words.simps) simp
  ultimately show ?thesis using assms(1) by (subst py_words.simps) (simp add: Let_def)
qed

lemma page_words: "py_words (page_of_words n) = replicate (Suc n) ''word''"
proof (induction n)
  case 0
  show ?case by code_simp
next
  case (Suc n)
  have "py_words (''word'' @ CHR '' '' # page_of_words n) = ''word'' # py_words (page_of_words n)"
    by (rule py_words_cons) (simp_all add: py_space_def)
  then show ?case using Suc by (simp add: page_Suc)
qed

lemma collapse_page: "collapse_blanks b (page_of_words n) = page_of_words n"
proof (induction n arbitrary: b)
  case 0
  then show ?case by (simp add: page_of_words_def)
qed (simp add: page_Suc)

lemma squeeze_plain: "newline \<notin> set s \<Longrightarrow> squeeze_newlines k s = s"
  by (induction k s rule: squeeze_newlines.induct) auto

lemma strip_page: "py_strip (page_of_words n) = page_of_words n"
proof (rule py_strip_ends)
  show "\<not> py_space (hd (page_of_words n))" by (cases n) (simp_all add: page_of_words_def py_space_def)
qed (simp_all add: page_of_words_def py_space_def)

lemma no_newline_page: "newline \<notin> set (page_of_words n)"
  using page_chars [of n] by (auto simp: newline_def)

lemma page_not_junk: "\<not> junk_line (page_of_words (Suc n))"
  by (simp add: page_Suc junk_line_def few_digits_def drop_spaces_def py_space_def ascii_digit_def Let_def)

lemma clean_page: "clean id (page_of_words (Suc n)) = page_of_words (Suc n)"
  by (simp add: clean_def split_on_no no_newline_page collapse_page strip_page page_not_junk squeeze_plain)

lemma page_quality: "quality_problem (clean id (page_of_words 199)) = None"
proof -
  have "quality_problem (page_of_words 199) = None"
    by (simp add: quality_problem_def page_words split_on_no no_newline_page sum_list_replicate py_isalpha_def Let_def)
  then show ?thesis using clean_page [of 198] by simp
qed

definition plain_setting :: "nat setting" where
  "plain_setting = \<lparr>st_nfkc = id, st_hash = length, st_multipliers = replicate 128 (3, 5), st_enum = id\<rparr>"

definition two_filings :: "(corpus_split \<times> filing) list" where
  "two_filings = [(Train, \<lparr>fl_id = ''a'', fl_cik = ''1'', fl_text = page_of_words 199\<rparr>), (Validate, \<lparr>fl_id = ''b'', fl_cik = ''2'', fl_text = page_of_words 199\<rparr>)]"

lemma two_filings_kept: "p1_keep (pass1 plain_setting {} two_filings) = (\<lambda>_. {})(Train := {''a''})"
proof -
  obtain h sig sh where a: "analyze plain_setting {} \<lparr>fl_id = ''a'', fl_cik = ''1'', fl_text = page_of_words 199\<rparr> = Note h sig {}"
     "analyze plain_setting {} \<lparr>fl_id = ''b'', fl_cik = ''2'', fl_text = page_of_words 199\<rparr> = Note h sig {}"
    using page_quality by (simp add: analyze_def plain_setting_def Let_def)
  have "concat (map (\<lambda>b. []) [0..<bands]) = ([] :: nat list)" by simp
  then obtain ix where ix: "check_and_add (st_enum plain_setting) sig NearCopyIndex = (None, ix)"
    by (simp add: check_and_add_def NearCopyIndex_def plain_setting_def del: concat_map_singleton)
  have "fold (pass1_filing plain_setting) two_filings (pass1_init {})
     = tally Validate Exact_copy (tally Train Kept ((pass1_init {})\<lparr>p1_seen := {h},
         p1_index := ix, p1_keep := (\<lambda>_. {})(Train := {''a''})\<rparr>))"
    by (simp add: two_filings_def pass1_filing_def pass1_init_def EvalOverlap_def a ix ov_add_def tally_def Let_def)
  then show ?thesis unfolding pass1_keep [abs_def] by (simp add: pass1_init_def EvalOverlap_def contaminated_def fun_eq_iff)
qed

theorem kept_filings_clean_witness:
  "quality_problem (cleaned plain_setting \<lparr>fl_id = ''a'', fl_cik = ''1'', fl_text = page_of_words 199\<rparr>) = None"
proof -
  have "distinct (map (fl_id \<circ> snd) two_filings)" "\<forall>xs. set (st_enum plain_setting xs) = set xs" "length (st_multipliers plain_setting) = 128"
    "(Train, \<lparr>fl_id = ''a'', fl_cik = ''1'', fl_text = page_of_words 199\<rparr>) \<in> set two_filings"
    "fl_id \<lparr>fl_id = ''a'', fl_cik = ''1'', fl_text = page_of_words 199\<rparr> \<in> p1_keep (pass1 plain_setting {} two_filings) Train"
    unfolding two_filings_kept by (simp_all add: two_filings_def plain_setting_def)
  from kept_filings_clean [OF this] show ?thesis by simp
qed

subsection \<open>The shards\<close>

lemma padded_value:
  "fold (\<lambda>c n. 10 * n + digit_value c) (replicate k (CHR ''0'') @ show_nat n) 0 = int n"
proof -
  have "digit_value (CHR ''0'') = 0" by (simp add: digit_value_def)
  then show ?thesis by (induction k) (simp_all add: fold_show_nat)
qed

lemma shard_name_inj: "shard_name split i = shard_name split j \<longleftrightarrow> i = j"
proof
  assume "shard_name split i = shard_name split j"
  then have "replicate (3 - length (show_nat i)) (CHR ''0'') @ show_nat i = replicate (3 - length (show_nat j)) (CHR ''0'') @ show_nat j"
    by (simp add: shard_name_def Let_def)
  then have "int i = int j" using padded_value [of "3 - length (show_nat i)" i] padded_value [of "3 - length (show_nat j)" j] by simp
  then show "i = j" by simp
qed simp

text \<open>The shards written hold \<open>ids\<close>, in order; every closed one is full; other files are as they were in \<open>files0\<close>.\<close>

definition shards_ok :: "token_files \<Rightarrow> 32 word list \<Rightarrow> shard_writer \<Rightarrow> token_files \<Rightarrow> bool" where
  "shards_ok files0 ids w files \<longleftrightarrow>
     map fst (sw_shards w) = map (shard_name (sw_split w)) [0..<length (sw_shards w)]
     \<and> concat (map (files \<circ> fst) (sw_shards w)) = ids
     \<and> (\<forall>(name, n) \<in> set (sw_shards w). length (files name) = n)
     \<and> (\<forall>(name, n) \<in> set (butlast (sw_shards w)). shard_tokens \<le> n)
     \<and> (\<forall>name. (\<forall>i. name \<noteq> shard_name (sw_split w) i) \<longrightarrow> files name = files0 name)
     \<and> (sw_file w = None \<longleftrightarrow> sw_shards w = [])
     \<and> (sw_shards w \<noteq> [] \<longrightarrow> sw_file w = Some (fst (last (sw_shards w))) \<and> sw_in_shard w = snd (last (sw_shards w)))"

lemma shards_ok_start: "shards_ok files [] (ShardWriter split) files"
  by (simp add: shards_ok_def ShardWriter_def)

lemma shard_names_distinct: "map fst sh = map (shard_name split) [0..<length sh] \<Longrightarrow> distinct (map fst sh)"
  by (simp add: distinct_map inj_on_def shard_name_inj)

text \<open>The part of a write after a file is open: the last shard grows.\<close>

lemma shards_ok_grow:
  assumes ok: "shards_ok files0 ids w files" and sh: "sw_shards w = sh @ [(name, n)]"
  shows "shards_ok files0 (ids @ extra) (w\<lparr>sw_in_shard := sw_in_shard w + length extra, sw_shards := sh @ [(name, n + length extra)]\<rparr>)
    (files(name := files name @ extra))"
proof -
  have names: "map fst sh @ [name] = map (shard_name (sw_split w)) [0..<Suc (length sh)]" using ok sh by (simp add: shards_ok_def)
  then have name: "name = shard_name (sw_split w) (length sh)" and "map fst sh = map (shard_name (sw_split w)) [0..<length sh]" by simp_all
  have "distinct (map fst (sh @ [(name, n)]))" using shard_names_distinct [of "sh @ [(name, n)]" "sw_split w"] names by simp
  then have new: "fst x \<noteq> name" if "x \<in> set sh" for x using that by auto
  then have "map ((files(name := files name @ extra)) \<circ> fst) sh = map (files \<circ> fst) sh" by auto
  then have "concat (map ((files(name := files name @ extra)) \<circ> fst) sh) = concat (map (files \<circ> fst) sh)" by (rule arg_cong)
  moreover have "length ((files(name := files name @ extra)) a) = b" if "(a, b) \<in> set sh" for a b
    using ok sh new [OF that] that by (auto simp: shards_ok_def)
  ultimately show ?thesis using ok sh names name by (auto simp: shards_ok_def)
qed

lemma shards_ok_open:
  assumes ok: "shards_ok files0 ids w files" and full: "sw_file w = None \<or> shard_tokens \<le> sw_in_shard w"
    and eq: "open_shard (w, files) = (w', files')"
  shows "shards_ok files0 ids w' files'" "sw_shards w' \<noteq> []"
proof -
  let ?name = "shard_name (sw_split w) (length (sw_shards w))"
  have w': "w' = w\<lparr>sw_file := Some ?name, sw_in_shard := 0, sw_shards := sw_shards w @ [(?name, 0)]\<rparr>" and f': "files' = files(?name := [])"
    using eq by (auto simp: open_shard_def sw_close_def Let_def)
  have names: "map fst (sw_shards w) = map (shard_name (sw_split w)) [0..<length (sw_shards w)]" using ok by (simp add: shards_ok_def)
  have new: "fst x \<noteq> ?name" if "x \<in> set (sw_shards w)" for x
  proof -
    have "fst x \<in> set (map (shard_name (sw_split w)) [0..<length (sw_shards w)])" using that names by (metis image_eqI set_map)
    then show ?thesis by (auto simp: shard_name_inj)
  qed
  then have "map (files' \<circ> fst) (sw_shards w) = map (files \<circ> fst) (sw_shards w)" by (auto simp: f')
  then have "concat (map (files' \<circ> fst) (sw_shards w)) = concat (map (files \<circ> fst) (sw_shards w))" by (rule arg_cong)
  moreover have "length (files' a) = b" if "(a, b) \<in> set (sw_shards w)" for a b using ok new [OF that] that by (auto simp: shards_ok_def f')
  moreover have "shard_tokens \<le> b" if "(a, b) \<in> set (sw_shards w)" for a b
  proof (cases "(a, b) \<in> set (butlast (sw_shards w))")
    case True
    then show ?thesis using ok by (auto simp: shards_ok_def)
  next
    case False
    from that have "sw_shards w \<noteq> []" by auto
    then have "b = snd (last (sw_shards w))" using that False by (metis append_butlast_last_id rotate1.simps(2) set_ConsD set_rotate1 snd_conv)
    then show ?thesis using ok full \<open>sw_shards w \<noteq> []\<close> by (auto simp: shards_ok_def)
  qed
  ultimately show "shards_ok files0 ids w' files'" using ok names f' by (auto simp: shards_ok_def w')
  show "sw_shards w' \<noteq> []" by (simp add: w')
qed

lemma write_ids_ok:
  assumes "shards_ok files0 ids w files" "write_ids extra (w, files) = (w', files')"
  shows "shards_ok files0 (ids @ extra) w' files' \<and> sw_split w' = sw_split w"
proof -
  obtain w1 files1 where 1: "(if sw_file w = None \<or> shard_tokens \<le> sw_in_shard w then open_shard (w, files) else (w, files)) = (w1, files1)" by force
  have ok1: "shards_ok files0 ids w1 files1" and ne: "sw_shards w1 \<noteq> []" and sp: "sw_split w1 = sw_split w"
  proof -
    have "shards_ok files0 ids w1 files1 \<and> sw_shards w1 \<noteq> []"
    proof (cases "sw_file w = None \<or> shard_tokens \<le> sw_in_shard w")
      case True
      then show ?thesis using 1 shards_ok_open [OF assms(1) True] by simp
    next
      case False
      then have "w1 = w" "files1 = files" "sw_file w \<noteq> None" using 1 by auto
      moreover have "sw_file w = None \<longleftrightarrow> sw_shards w = []" using assms(1) unfolding shards_ok_def by blast
      ultimately show ?thesis using assms(1) by simp
    qed
    then show "shards_ok files0 ids w1 files1" "sw_shards w1 \<noteq> []" by auto
    show "sw_split w1 = sw_split w" using 1 by (auto simp: open_shard_def sw_close_def Let_def split: if_splits)
  qed
  obtain sh name n where sh: "sw_shards w1 = sh @ [(name, n)]" using ne by (metis append_butlast_last_id surj_pair)
  have nm: "sw_file w1 = Some name" using ok1 sh by (simp add: shards_ok_def)
  have "write_ids extra (w, files) = (w1\<lparr>sw_in_shard := sw_in_shard w1 + length extra, sw_shards := sh @ [(name, n + length extra)]\<rparr>,
      files1(name := files1 name @ extra))"
    unfolding write_ids_def prod.case 1 by (simp add: sh nm)
  then show ?thesis using shards_ok_grow [OF ok1 sh, of extra] assms(2) sp by simp
qed

lemma writes_ok:
  "shards_ok files0 ids w files \<Longrightarrow> fold (write_ids \<circ> enc) kept (w, files) = (w', files')
     \<Longrightarrow> shards_ok files0 (ids @ concat (map enc kept)) w' files' \<and> sw_split w' = sw_split w"
proof (induction kept arbitrary: ids w files)
  case (Cons f kept)
  obtain w1 files1 where 1: "write_ids (enc f) (w, files) = (w1, files1)" by force
  from write_ids_ok [OF Cons.prems(1) 1] Cons.IH [of "ids @ enc f" w1 files1] Cons.prems(2) 1 show ?case by auto
qed simp

lemma pass2_split_ok:
  assumes "pass2_split enc split kept files0 = (shards, files)"
  shows "concat (map (files \<circ> fst) shards) = concat (map enc kept)" "\<forall>(name, n) \<in> set shards. length (files name) = n"
    "\<forall>(name, n) \<in> set (butlast shards). shard_tokens \<le> n" "map fst shards = map (shard_name split) [0..<length shards]"
    "\<forall>name. (\<forall>i. name \<noteq> shard_name split i) \<longrightarrow> files name = files0 name"
proof -
  obtain w where w: "fold (write_ids \<circ> enc) kept (ShardWriter split, files0) = (w, files)" "shards = sw_shards w"
    using assms by (auto simp: pass2_split_def sw_close_def Let_def split: prod.splits)
  from writes_ok [OF shards_ok_start w(1)] have "shards_ok files0 (concat (map enc kept)) w files" "sw_split w = split"
    by (simp_all add: ShardWriter_def)
  then show "concat (map (files \<circ> fst) shards) = concat (map enc kept)" "\<forall>(name, n) \<in> set shards. length (files name) = n"
    "\<forall>(name, n) \<in> set (butlast shards). shard_tokens \<le> n" "map fst shards = map (shard_name split) [0..<length shards]"
    "\<forall>name. (\<forall>i. name \<noteq> shard_name split i) \<longrightarrow> files name = files0 name"
    by (auto simp: shards_ok_def w(2))
qed

text \<open>
  The second pass writes the token ids of the kept filings, training split first, in the order
  they are read, over files whose recorded sizes are right and of which all but the last of a
  split are full: no filing is cut in two, none written over another.
\<close>

lemma shards_hold_filings:
  assumes "pass2 enc keep fs files0 = (shards, files)"
  shows "concat (map (files \<circ> fst) shards) = concat (map enc (kept_of keep fs Train)) @ concat (map enc (kept_of keep fs Validate))"
    and "\<forall>(name, n) \<in> set shards. length (files name) = n" and "distinct (map fst shards)"
    and "\<exists>a b. shards = a @ b \<and> (\<forall>(name, n) \<in> set (butlast a) \<union> set (butlast b). 100000000 \<le> n)"
proof -
  obtain a f1 b where a: "pass2_split enc ''train'' (kept_of keep fs Train) files0 = (a, f1)"
    and b: "pass2_split enc ''val'' (kept_of keep fs Validate) f1 = (b, files)" and s: "shards = a @ b"
    using assms by (auto simp: pass2_def Let_def split: prod.splits)
  note A = pass2_split_ok [OF a] and B = pass2_split_ok [OF b]
  have other: "shard_name ''train'' i \<noteq> shard_name ''val'' j" for i j by (simp add: shard_name_def)
  have "set (map fst a) \<subseteq> range (shard_name ''train'')" unfolding A(4) by auto
  then have "fst x \<in> range (shard_name ''train'')" if "x \<in> set a" for x using that by auto
  then have same: "files (fst x) = f1 (fst x)" if "x \<in> set a" for x using B(5) that other by (metis rangeE)
  have "map (files \<circ> fst) a = map (f1 \<circ> fst) a" using same by simp
  then have "concat (map (files \<circ> fst) a) = concat (map (f1 \<circ> fst) a)" by (rule arg_cong)
  then show "concat (map (files \<circ> fst) shards) = concat (map enc (kept_of keep fs Train)) @ concat (map enc (kept_of keep fs Validate))"
    using A(1) B(1) by (simp add: s)
  have "length (files name) = n" if "(name, n) \<in> set a" for name n using A(2) same [OF that] that by auto
  then show "\<forall>(name, n) \<in> set shards. length (files name) = n" using B(2) by (auto simp: s)
  have "set (map fst a) \<inter> set (map fst b) = {}" unfolding A(4) B(4) using other by auto
  then show "distinct (map fst shards)" using shard_names_distinct [OF A(4)] shard_names_distinct [OF B(4)] by (simp add: s)
  show "\<exists>a b. shards = a @ b \<and> (\<forall>(name, n) \<in> set (butlast a) \<union> set (butlast b). 100000000 \<le> n)"
    using A(3) B(3) s by (intro exI [of _ a] exI [of _ b]) (auto simp: shard_tokens_def)
qed

end
