(* ===== verification/Streaming.thy ===== *)
theory Streaming
  imports Engine_Worker_Properties
begin

text \<open>
  From the client's stream down to the model: what \<open>Engine_Refinement\<close> shows of an engine without
  prefix cache and drafts, carried through \<open>Engine_Worker\<close>'s thread.  Requests arrive, are
  cancelled and time out at any moment; a stream is a first part of the greedy answer to what was
  submitted, and all of it when it ends by itself.
\<close>

subsection \<open>The answer to a submission\<close>

definition greedy_answer :: "(int list \<Rightarrow> int) \<Rightarrow> int list \<times> sampling_params \<Rightarrow> int list" where
  "greedy_answer f ask = greedy_decode f (snd ask) (fst ask) (token_limit (snd ask)) []"

lemma greedy_decode_extends: "prefix out (greedy_decode f sp p n out)"
proof (induction n arbitrary: out)
  case (Suc n)
  show ?case using prefix_order.trans [OF _ Suc, of out "out @ [f (p @ out)]"] by (simp add: Let_def)
qed simp

lemma served_prefix: "served f r \<Longrightarrow> prefix (output_token_ids r) (greedy_output f r)"
  using greedy_decode_extends by (auto simp: served_def split: if_splits)

text \<open>What a client may have been sent: a first part, perhaps ended, by an abort unless it is whole.\<close>

definition relayed :: "(int list \<Rightarrow> int) \<Rightarrow> int list \<times> sampling_params \<Rightarrow> stream_item list \<Rightarrow> bool" where
  "relayed f ask items \<longleftrightarrow> (\<exists>ts. prefix ts (greedy_answer f ask) \<and> (items = map StreamToken ts
     \<or> (\<exists>r rest. items = map StreamToken ts @ StreamEnd r # rest \<and> (r = FINISHED_ABORTED \<or> ts = greedy_answer f ask))))"

lemma relayed_open: "prefix ts (greedy_answer f ask) \<Longrightarrow> relayed f ask (map StreamToken ts)"
  by (auto simp: relayed_def)

lemma relayed_end: "prefix ts (greedy_answer f ask) \<Longrightarrow> r = FINISHED_ABORTED \<or> ts = greedy_answer f ask
    \<Longrightarrow> relayed f ask (map StreamToken ts @ [StreamEnd r])"
  unfolding relayed_def by blast

lemma relayed_abort: "relayed f ask items \<Longrightarrow> relayed f ask (items @ [StreamEnd FINISHED_ABORTED])"
  unfolding relayed_def by (metis append.assoc append_Cons)

lemma relayed_stream:
  assumes "relayed f ask items"
  shows "\<exists>ts. prefix ts (greedy_answer f ask) \<and> (stream items = map StreamToken ts
     \<or> (\<exists>r. stream items = map StreamToken ts @ [StreamEnd r] \<and> (r = FINISHED_ABORTED \<or> ts = greedy_answer f ask)))"
  using assms stream_open stream_closed unfolding relayed_def by metis

subsection \<open>A step of the engine, as its streams see it\<close>

text \<open>A request resumed after preemption is recomputed at once: no chunk of it ends before its last token.\<close>

definition recomputes_whole :: "'a::floor_ceiling engine \<Rightarrow> bool" where
  "recomputes_whole e =
     (case schedule (e_sched e) of
        Inl _ \<Rightarrow> True
      | Inr (s, out) \<Rightarrow> list_all (\<lambda>(x, c). output_token_ids (s_objs s x) \<noteq> []
            \<longrightarrow> num_computed_tokens (s_objs s x) = get_len (s_objs s x)) (scheduled_new out @ scheduled_running out))"

lemma recomputes_whole_chunks: "recomputes_whole e \<Longrightarrow> whole_chunks e"
  by (auto simp: recomputes_whole_def whole_chunks_def list_all_iff split: sum.splits prod.splits)

definition live_requests :: "scheduler \<Rightarrow> rref set" where
  "live_requests s = set (s_running s @ s_waiting s)"

lemma live_inj:
  assumes "sched_inv s" shows "inj_on (\<lambda>x. request_id (s_objs s x)) (live_requests s)"
proof (rule inj_onI)
  fix x y assume xy: "x \<in> live_requests s" "y \<in> live_requests s" "request_id (s_objs s x) = request_id (s_objs s y)"
  have "tracked s (live_requests s)" using assms by (simp add: sched_inv_def core_inv_def live_requests_def)
  from tracked_id [OF this xy(1)] tracked_id [OF this xy(2)] show "x = y" using xy(3) by (metis option.inject)
qed

abbreviation stepped :: "scheduler_output \<Rightarrow> rref list" where
  "stepped out \<equiv> map fst (scheduled_new out @ scheduled_running out)"

text \<open>Each scheduled request has one token more, or none yet.\<close>

definition one_more :: "int list \<Rightarrow> int list \<Rightarrow> bool" where
  "one_more ts ts' \<longleftrightarrow> (ts = [] \<and> ts' = []) \<or> (\<exists>t. ts' = ts @ [t])"

lemma plain_step_streams:
  assumes inv: "plain_inv X e" and whole: "recomputes_whole e"
  obtains e' out fin where "engine_step e = Some (Inr (e', out, fin))" "plain_inv X e'"
    "greedy_next (e_runner e') = greedy_next (e_runner e)" "servable (e_runner e') = servable (e_runner e)"
    "\<forall>x. same_ask (s_objs (e_sched e) x) (s_objs (e_sched e') x)"
    "distinct (stepped out)" "set (stepped out) \<subseteq> live_requests (e_sched e)"
    "\<forall>x. x \<notin> set (stepped out) \<longrightarrow> output_token_ids (s_objs (e_sched e') x) = output_token_ids (s_objs (e_sched e) x)"
    "\<forall>x \<in> set (stepped out). one_more (output_token_ids (s_objs (e_sched e) x)) (output_token_ids (s_objs (e_sched e') x))"
    "\<forall>x \<in> set fin. x \<in> X \<and> is_finished (s_objs (e_sched e') x) \<and> status (s_objs (e_sched e') x) \<noteq> FINISHED_ABORTED"
    "live_requests (e_sched e') = live_requests (e_sched e) - set fin" "set fin \<subseteq> live_requests (e_sched e)"
proof (rule plain_step_commits [OF inv recomputes_whole_chunks [OF whole]])
  fix s out e' fin
  let ?S = "stepped out" and ?com = "commit_greedy (e_runner e)"
  assume sch: "schedule (e_sched e) = Inr (s, out)" and step: "engine_step e = Some (Inr (e', out, fin))" and inv': "plain_inv X e'"
    and gn: "greedy_next (e_runner e') = greedy_next (e_runner e)" and sv: "servable (e_runner e') = servable (e_runner e)"
    and ask: "\<forall>x. same_ask (s_objs (e_sched e) x) (s_objs (e_sched e') x)"
    and outs: "\<forall>x. output_token_ids (s_objs s x) = output_token_ids (s_objs (e_sched e) x)"
    and dist: "distinct ?S" and sub: "set ?S \<subseteq> set (s_running s)" and runX: "set (s_running s) \<subseteq> X"
    and liv: "set (s_running s) \<subseteq> set (s_running (e_sched e) @ s_waiting (e_sched e))"
    and run: "\<forall>x \<in> set (s_running s). status (s_objs s x) = RUNNING \<and> draft_token_ids (s_objs s x) = []"
    and new: "\<forall>x. let r = (if x \<in> set ?S then ?com (s_objs s x) else s_objs s x)
       in output_token_ids (s_objs (e_sched e') x) = output_token_ids r \<and> status (s_objs (e_sched e') x) = status r"
    and fin: "set fin = {x \<in> set (s_running s). is_finished (s_objs (e_sched e') x)}"
    and left: "set (s_running (e_sched e') @ s_waiting (e_sched e')) = set (s_running (e_sched e) @ s_waiting (e_sched e)) - set fin"
  have wh: "output_token_ids (s_objs s x) \<noteq> [] \<longrightarrow> num_computed_tokens (s_objs s x) = get_len (s_objs s x)" if "x \<in> set ?S" for x
    using whole that by (force simp: recomputes_whole_def sch list_all_iff)
  have one: "one_more (output_token_ids (s_objs (e_sched e) x)) (output_token_ids (s_objs (e_sched e') x))" if x: "x \<in> set ?S" for x
  proof (cases "is_prefill (s_objs s x)")
    case True
    then have "output_token_ids (s_objs s x) = []" using wh [OF x] by (auto simp: is_prefill_def get_len_def)
    then show ?thesis using True new x outs by (simp add: one_more_def commit_greedy_def Let_def)
  next
    case False
    have "draft_token_ids (s_objs s x) = []" using run sub x by auto
    then show ?thesis using False new x outs by (auto simp: one_more_def commit_greedy_def Let_def)
  qed
  have "status (s_objs (e_sched e') x) \<noteq> FINISHED_ABORTED" if "x \<in> set (s_running s)" for x
    using new [rule_format, of x] run that by (auto simp: commit_greedy_def maybe_finish_def Let_def split: if_splits option.splits)
  then have "\<forall>x \<in> set fin. x \<in> X \<and> is_finished (s_objs (e_sched e') x) \<and> status (s_objs (e_sched e') x) \<noteq> FINISHED_ABORTED"
    using runX by (auto simp: fin)
  moreover have "\<forall>x. x \<notin> set ?S \<longrightarrow> output_token_ids (s_objs (e_sched e') x) = output_token_ids (s_objs (e_sched e) x)"
    using new outs by (simp add: Let_def)
  moreover have "set ?S \<subseteq> live_requests (e_sched e)" "set fin \<subseteq> live_requests (e_sched e)" using sub liv fin unfolding live_requests_def by blast+
  moreover have "live_requests (e_sched e') = live_requests (e_sched e) - set fin" using left by (simp only: live_requests_def)
  moreover have "\<forall>x \<in> set ?S. one_more (output_token_ids (s_objs (e_sched e) x)) (output_token_ids (s_objs (e_sched e') x))" using one by blast
  ultimately show ?thesis using that [OF step inv' gn sv ask dist] by blast
qed

subsection \<open>Cancelling and arriving\<close>

lemma foldE_abort_waiting_bm: "foldE abort_waiting xs s = Inr s' \<Longrightarrow> s_bm s' = s_bm s"
proof (induction xs arbitrary: s)
  case (Cons x xs)
  obtain s1 where s1: "abort_waiting x s = Inr s1" "foldE abort_waiting xs s1 = Inr s'" using Cons.prems by (auto simp: bindE_Inr_iff)
  have "s_bm s1 = s_bm s" using s1(1) by (auto simp: abort_waiting_def upd_req_def Let_def split: if_splits)
  then show ?case using Cons.IH [OF s1(2)] by simp
qed simp

lemma abort_requests_pool:
  assumes "abort_requests ids s = Inr (s', gone)"
  shows "bm_block_size (s_bm s') = bm_block_size (s_bm s)" "bm_num_gpu_blocks (s_bm s') = bm_num_gpu_blocks (s_bm s)"
    "bm_cache (s_bm s) = None \<longrightarrow> bm_cache (s_bm s') = None"
proof -
  let ?stop = "\<lambda>x. upd_req x (\<lambda>r. r\<lparr>status := FINISHED_ABORTED\<rparr>)"
  obtain s1 ws rs fin where s1: "foldE abort_waiting (filter (\<lambda>x. request_id (s_objs s x) \<in> ids) (s_waiting s)) s = Inr s1"
    and s3: "free_finished_requests (fold ?stop rs (s1\<lparr>s_waiting := ws\<rparr>)) = Inr (s', fin)"
    using assms by (auto simp: abort_requests_def Let_def bindE_Inr_iff)
  have "s_bm (fold ?stop rs (s1\<lparr>s_waiting := ws\<rparr>)) = s_bm s" using foldE_abort_waiting_bm [OF s1] by (simp add: fold_upd_req)
  then obtain s3 where s3: "s_bm s3 = s_bm s" "free_finished_requests s3 = Inr (s', fin)" using s3 by blast
  then show "bm_block_size (s_bm s') = bm_block_size (s_bm s)" "bm_num_gpu_blocks (s_bm s') = bm_num_gpu_blocks (s_bm s)"
    "bm_cache (s_bm s) = None \<longrightarrow> bm_cache (s_bm s') = None"
    by (auto simp: free_finished_requests_def Let_def bindE_Inr_iff dest!: foldE_finish_pool split: if_splits)
qed

text \<open>The requests cancelled leave the engine, which keeps its invariant for the others.\<close>

lemma plain_abort:
  assumes inv: "plain_inv X e" and ab: "abort_requests ids (e_sched e) = Inr (s', gone)"
  shows "plain_inv (X - set gone) (e\<lparr>e_sched := s'\<rparr>)" "live_requests s' = live_requests (e_sched e) - set gone" "set gone \<subseteq> live_requests (e_sched e)"
    "\<forall>x \<in> set gone. status (s_objs s' x) = FINISHED_ABORTED"
    "\<forall>x. same_ask (s_objs (e_sched e) x) (s_objs s' x) \<and> output_token_ids (s_objs s' x) = output_token_ids (s_objs (e_sched e) x)"
proof -
  let ?s = "e_sched e" and ?mr = "e_runner e" and ?hit = "\<lambda>x. request_id (s_objs (e_sched e) x) \<in> ids"
  have core: "plain_core X [] ?mr ?s" and draft: "e_draft e = None" and run: "\<forall>x \<in> set (s_running ?s). status (s_objs ?s x) = RUNNING"
    using inv by (auto simp: plain_inv_def)
  note C = plain_coreD [OF core]
  obtain fin where g: "gone = filter ?hit (s_waiting ?s) @ fin" and inv': "sched_inv s'"
    and q: "s_waiting s' = filter (\<lambda>x. \<not> ?hit x) (s_waiting ?s)" "s_running s' = filter (\<lambda>x. \<not> ?hit x \<and> \<not> is_finished (s_objs ?s x)) (s_running ?s)"
    and f: "fin = filter (\<lambda>x. ?hit x \<or> is_finished (s_objs ?s x)) (s_running ?s)"
    and st: "\<And>x. x \<in> set (s_running ?s @ s_waiting ?s) \<Longrightarrow> ?hit x \<Longrightarrow> status (s_objs s' x) = FINISHED_ABORTED"
    and rid: "\<And>x. request_id (s_objs s' x) = request_id (s_objs ?s x)"
    and same: "\<And>x. x \<notin> set gone \<Longrightarrow> s_objs s' x = s_objs ?s x"
    and keep: "\<And>x. output_token_ids (s_objs s' x) = output_token_ids (s_objs ?s x) \<and> prompt_token_ids (s_objs s' x) = prompt_token_ids (s_objs ?s x)
       \<and> sampling_params (s_objs s' x) = sampling_params (s_objs ?s x)"
    by (rule abort_requests_result [OF C(1), of ids]) (use ab in simp)
  have alive: "\<not> is_finished (s_objs ?s x)" if "x \<in> set (s_running ?s)" for x using run that by (simp add: is_finished_def)
  have gone: "set gone = {x \<in> live_requests ?s. ?hit x}" using alive by (auto simp: g f live_requests_def)
  show lv: "live_requests s' = live_requests ?s - set gone" using alive by (auto simp: gone live_requests_def q)
  show "set gone \<subseteq> live_requests ?s" by (auto simp: gone)
  show "\<forall>x \<in> set gone. status (s_objs s' x) = FINISHED_ABORTED" using st by (auto simp: gone live_requests_def)
  show "\<forall>x. same_ask (s_objs ?s x) (s_objs s' x) \<and> output_token_ids (s_objs s' x) = output_token_ids (s_objs ?s x)"
    using keep rid by (simp add: same_ask_def)
  have mem: "set (s_running s' @ s_waiting s') \<subseteq> X - set gone" using C(6) lv by (auto simp: live_requests_def)
  have "x \<in> set (s_running ?s) \<and> s_objs s' x = s_objs ?s x" if "x \<in> set (s_running s')" for x
  proof -
    have "x \<notin> set gone" using that mem by auto
    then show ?thesis using that same q(2) by auto
  qed
  moreover note abort_requests_pool [OF ab]
  ultimately have "plain_core (X - set gone) [] ?mr s'"
    using inv' C(2-5,7-9) mem same by (simp add: plain_core_def)
  then show "plain_inv (X - set gone) (e\<lparr>e_sched := s'\<rparr>)"
    using draft run \<open>\<And>x. x \<in> set (s_running s') \<Longrightarrow> _\<close> by (simp add: plain_inv_def)
qed

lemma core_inv_same_fields:
  assumes "core_inv s R W" and same: "\<And>y. request_id (f y) = request_id (s_objs s y) \<and> prompt_token_ids (f y) = prompt_token_ids (s_objs s y)
     \<and> block_table (f y) = block_table (s_objs s y) \<and> cached_prefix_nodes (f y) = cached_prefix_nodes (s_objs s y)
     \<and> status (f y) = status (s_objs s y) \<and> num_computed_tokens (f y) = num_computed_tokens (s_objs s y)"
  shows "core_inv (s\<lparr>s_objs := f\<rparr>) R W"
proof -
  have "held_by (s\<lparr>s_objs := f\<rparr>) = held_by s" using same by (auto simp: held_by_def fun_eq_iff split: option.splits)
  moreover have "running_ok bm (f y) = running_ok bm (s_objs s y)" "waiting_ok (f y) = waiting_ok (s_objs s y)" for bm y
    using same [of y] by (simp_all add: running_ok_def waiting_ok_def is_finished_def)
  ultimately show ?thesis using assms(1) same by (simp add: core_inv_def tracked_def)
qed

lemma plain_arrival_time:
  assumes inv: "plain_inv X e" and e': "e' = e\<lparr>e_sched := upd_req x (\<lambda>r. r\<lparr>arrival_time := now\<rparr>) (e_sched e)\<rparr>"
  shows "plain_inv X e'"
proof -
  let ?s = "e_sched e" and ?f = "(s_objs (e_sched e))(x := (s_objs (e_sched e) x)\<lparr>arrival_time := now\<rparr>)"
  have core: "plain_core X [] (e_runner e) ?s" and rest: "e_draft e = None" "\<forall>x \<in> set (s_running ?s). status (s_objs ?s x) = RUNNING"
    using inv by (auto simp: plain_inv_def)
  note C = plain_coreD [OF core]
  have s': "e_sched e' = ?s\<lparr>s_objs := ?f\<rparr>" by (simp add: e' upd_req_def)
  have "core_inv (?s\<lparr>s_objs := ?f\<rparr>) (s_running ?s) (s_waiting ?s)"
    by (rule core_inv_same_fields) (use C(1) in \<open>auto simp: sched_inv_def\<close>)
  then have "sched_inv (e_sched e')" using C(1) by (simp add: s' sched_inv_def)
  moreover have "servable mr (?f y) = servable mr (s_objs ?s y)" "served h (?f y) = served h (s_objs ?s y)"
    "in_flight mr n (?f y) = in_flight mr n (s_objs ?s y)" "num_computed_tokens (?f y) = num_computed_tokens (s_objs ?s y)"
    "status (?f y) = status (s_objs ?s y)" for mr :: "'a model_runner" and h n y
    by (simp_all add: servable_def served_def in_flight_def is_finished_def greedy_output_def all_token_ids_def get_len_def kv_ready_def)
  ultimately show ?thesis using C(2-9) rest by (simp add: plain_inv_def plain_core_def s' del: fun_upd_apply) (simp add: e')
qed

subsection \<open>What the worker's streams hold\<close>

text \<open>
  Every open stream belongs to a request of \<open>L\<close>, as it is in \<open>objs\<close>, and holds its output so far;
  what waits in the queue is a servable request with an empty stream; every stream is relayed.
\<close>

definition open_stream :: "(href \<Rightarrow> int list \<times> sampling_params) \<Rightarrow> (rref \<Rightarrow> request) \<Rightarrow> rref set \<Rightarrow> stream_item list \<Rightarrow> string \<Rightarrow> href \<Rightarrow> bool" where
  "open_stream ask objs L items rid h \<longleftrightarrow> (\<exists>x \<in> L. request_id (objs x) = rid \<and> prompt_token_ids (objs x) = fst (ask h)
     \<and> sampling_params (objs x) = snd (ask h) \<and> items = map StreamToken (output_token_ids (objs x)))"

definition asked :: "(href \<Rightarrow> int list \<times> sampling_params) \<Rightarrow> (request \<Rightarrow> bool) \<Rightarrow> submission \<Rightarrow> bool" where
  "asked ask ok sub \<longleftrightarrow> ask (sub_handle sub) = (sub_prompt_token_ids sub, sub_sampling_params sub)
     \<and> (\<forall>i. ok (mk_request i (sub_prompt_token_ids sub) (sub_sampling_params sub)))"

definition held :: "(int list \<Rightarrow> int) \<Rightarrow> (href \<Rightarrow> int list \<times> sampling_params) \<Rightarrow> (request \<Rightarrow> bool) \<Rightarrow> (rref \<Rightarrow> request) \<Rightarrow> rref set
    \<Rightarrow> ('e, 'z) worker_scheme \<Rightarrow> bool" where
  "held f ask ok objs L w \<longleftrightarrow>
     (\<forall>rid h. (rid, h) \<in> set (ew_streams w) \<longrightarrow> open_stream ask objs L (queue_of w h) rid h)
     \<and> (\<forall>sub. Submission sub \<in> set (ew_incoming w) \<longrightarrow> asked ask ok sub \<and> queue_of w (sub_handle sub) = [])
     \<and> (\<forall>h < ew_next_handle w. relayed f (ask h) (queue_of w h))"

lemma held_cong:
  assumes "ew_streams w' = ew_streams w" "ew_incoming w' = ew_incoming w" "ew_next_handle w' = ew_next_handle w"
    "\<And>h. queue_of w' h = queue_of w h"
  shows "held f ask ok objs L w' = held f ask ok objs L w"
  using assms by (simp add: held_def)

lemma held_objs:
  assumes "held f ask ok objs L w" and "\<And>x. x \<in> L \<Longrightarrow> same_ask (objs x) (objs' x) \<and> output_token_ids (objs' x) = output_token_ids (objs x)"
  shows "held f ask ok objs' L w"
  using assms unfolding held_def open_stream_def same_ask_def by metis

lemma queued_handle: "Submission sub \<in> set is \<Longrightarrow> sub_handle sub \<in> set (queued_handles is)"
  by (induction "is" rule: list.induct) (auto simp: queued_handles_def List.map_filter_def split: option.splits)

text \<open>The handle of an open stream is in no other entry and in no submission that waits.\<close>

lemma streams_apart:
  assumes "streams_ok K w" "map_of (ew_streams w) rid = Some h"
  shows "(rid', h') \<in> set (ew_streams w) \<Longrightarrow> rid' \<noteq> rid \<Longrightarrow> h' \<noteq> h"
    "Submission sub \<in> set (ew_incoming w) \<Longrightarrow> sub_handle sub \<noteq> h" "h < ew_next_handle w"
proof -
  have m: "(rid, h) \<in> set (ew_streams w)" by (rule map_of_SomeD [OF assms(2)])
  have d: "distinct (map snd (ew_streams w))" "set (map snd (ew_streams w)) \<inter> set (queued_handles (ew_incoming w)) = {}"
    and lt: "\<forall>h \<in> set (open_handles w). h < ew_next_handle w"
    using assms(1) by (auto simp: streams_ok_def open_handles_def)
  show "h' \<noteq> h" if "(rid', h') \<in> set (ew_streams w)" "rid' \<noteq> rid"
    using d(1) m that inj_onD [of snd "set (ew_streams w)" "(rid', h')" "(rid, h)"] by (auto simp: distinct_map)
  show "sub_handle sub \<noteq> h" if "Submission sub \<in> set (ew_incoming w)"
    using d(2) m queued_handle [OF that] by force
  show "h < ew_next_handle w" using lt m by (force simp: open_handles_def)
qed

lemma held_finish_stream:
  assumes h: "held f ask ok objs L w" and ok: "streams_ok K w" and inj: "inj_on (\<lambda>x. request_id (objs x)) L0" and L: "L \<subseteq> L0" "x \<in> L0"
    and st: "status (objs x) = FINISHED_ABORTED \<or> output_token_ids (objs x) = greedy_output f (objs x)"
    and pre: "prefix (output_token_ids (objs x)) (greedy_output f (objs x))"
  shows "held f ask ok objs (L - {x}) (finish_stream (request_id (objs x)) (status (objs x)) w)"
proof -
  let ?rid = "request_id (objs x)" and ?w = "finish_stream (request_id (objs x)) (status (objs x)) w"
  have str: "ew_streams ?w = AList.delete ?rid (ew_streams w)" by (simp add: finish_stream_def Let_def split: option.splits)
  have others: "open_stream ask objs (L - {x}) (queue_of w h) rid h" if "(rid, h) \<in> set (ew_streams ?w)" for rid h
  proof -
    have m: "(rid, h) \<in> set (ew_streams w)" "rid \<noteq> ?rid" using that by (auto simp: str AList.delete_eq)
    then obtain y where y: "y \<in> L" "request_id (objs y) = rid" "prompt_token_ids (objs y) = fst (ask h)"
        "sampling_params (objs y) = snd (ask h)" "queue_of w h = map StreamToken (output_token_ids (objs y))"
      using h unfolding held_def open_stream_def by metis
    then show ?thesis using m(2) unfolding open_stream_def by blast
  qed
  show ?thesis
  proof (cases "map_of (ew_streams w) ?rid")
    case None
    have q: "queue_of ?w k = queue_of w k" for k using None by (simp add: finish_stream_def Let_def)
    show ?thesis using h others unfolding held_def by (simp add: q)
  next
    case (Some k)
    note ap = streams_apart [OF ok Some]
    have q: "queue_of ?w j = (if j = k then queue_of w k @ [StreamEnd (status (objs x))] else queue_of w j)" for j
      using Some by (simp add: finish_stream_def Let_def put_item_def)
    obtain y where y: "y \<in> L" "request_id (objs y) = ?rid" "prompt_token_ids (objs y) = fst (ask k)"
        "sampling_params (objs y) = snd (ask k)" "queue_of w k = map StreamToken (output_token_ids (objs y))"
      using h map_of_SomeD [OF Some] unfolding held_def open_stream_def by metis
    have yx: "y = x" using inj_onD [OF inj y(2)] y(1) L by blast
    have ga: "greedy_output f (objs x) = greedy_answer f (ask k)" using y(3,4) by (simp add: yx greedy_output_def greedy_answer_def)
    have "relayed f (ask k) (queue_of ?w k)"
      using relayed_end [of "output_token_ids (objs x)" f "ask k" "status (objs x)"] st pre y(5) by (simp add: q yx ga)
    moreover have "queue_of ?w h = queue_of w h" if "(rid, h) \<in> set (ew_streams ?w)" for rid h
      using ap(1) [of rid h] that by (auto simp: q str AList.delete_eq)
    moreover have "queue_of ?w (sub_handle sub) = queue_of w (sub_handle sub)" if "Submission sub \<in> set (ew_incoming w)" for sub
      using ap(2) [OF that] by (simp add: q)
    ultimately show ?thesis using h others unfolding held_def by (auto simp: q)
  qed
qed

lemma held_finish:
  assumes inj: "inj_on (\<lambda>x. request_id (s_objs (es_scheduler E (ew_engine w)) x)) L0" and xs: "set xs \<subseteq> L0"
    and st: "\<forall>x \<in> set xs. let r = s_objs (es_scheduler E (ew_engine w)) x in prefix (output_token_ids r) (greedy_output f r)
       \<and> (status r = FINISHED_ABORTED \<or> output_token_ids r = greedy_output f r)"
    and h: "held f ask ok (s_objs (es_scheduler E (ew_engine w))) L0 w" and ok: "streams_ok K w"
  shows "held f ask ok (s_objs (es_scheduler E (ew_engine w))) (L0 - set xs) (finish E xs w)"
proof -
  let ?o = "s_objs (es_scheduler E (ew_engine w))"
  have "held f ask ok ?o (L - set ys) (fold (\<lambda>x. finish_stream (request_id (?o x)) (status (?o x))) ys v)"
    if "held f ask ok ?o L v" "streams_ok M v" "L \<subseteq> L0" "set ys \<subseteq> set xs" for L ys M and v :: "('a, 'b) worker_scheme"
    using that
  proof (induction ys arbitrary: L M v)
    case (Cons x ys)
    have x: "x \<in> L0" "x \<in> set xs" using Cons.prems(4) xs by auto
    have "held f ask ok ?o (L - {x}) (finish_stream (request_id (?o x)) (status (?o x)) v)"
      by (rule held_finish_stream [OF Cons.prems(1,2) inj Cons.prems(3) x(1)]) (use st x(2) in \<open>auto simp: Let_def\<close>)
    from Cons.IH [OF this finish_stream_ok [OF Cons.prems(2)]] Cons.prems(3,4)
    have "held f ask ok ?o (L - {x} - set ys) (fold (\<lambda>x. finish_stream (request_id (?o x)) (status (?o x))) ys (finish_stream (request_id (?o x)) (status (?o x)) v))"
      by auto
    moreover have "L - {x} - set ys = L - set (x # ys)" by auto
    ultimately show ?case by simp
  qed simp
  from this [OF h ok order_refl order_refl] show ?thesis by (simp add: finish_eq)
qed

lemma held_emit_token:
  assumes h: "held f ask ok objs L w" and ok: "streams_ok K w" and inj: "inj_on (\<lambda>x. request_id (objs x)) L" and x: "x \<in> L"
    and r: "s_objs (es_scheduler E (ew_engine w)) x = r" "same_ask (objs x) r" "one_more (output_token_ids (objs x)) (output_token_ids r)"
      "prefix (output_token_ids r) (greedy_output f r)"
  shows "held f ask ok (objs(x := r)) L (emit_token E x w)"
proof -
  let ?rid = "request_id r" and ?w = "emit_token E x w"
  have rid: "request_id (objs x) = ?rid" using r(2) by (simp add: same_ask_def)
  have keep: "open_stream ask (objs(x := r)) L items rid k" if "open_stream ask objs L items rid k" "rid \<noteq> ?rid" for items rid k
    using that rid unfolding open_stream_def by (metis fun_upd_other)
  show ?thesis
  proof (cases "map_of (ew_streams w) ?rid")
    case None
    have w: "?w = w" using None by (simp add: emit_token_def r(1))
    have "rid \<noteq> ?rid" if "(rid, k) \<in> set (ew_streams w)" for rid k using that None by (force simp: map_of_eq_None_iff)
    then show ?thesis using h keep unfolding held_def w by blast
  next
    case (Some k)
    note ap = streams_apart [OF ok Some]
    obtain y where y: "y \<in> L" "request_id (objs y) = ?rid" "prompt_token_ids (objs y) = fst (ask k)"
        "sampling_params (objs y) = snd (ask k)" "queue_of w k = map StreamToken (output_token_ids (objs y))"
      using h map_of_SomeD [OF Some] unfolding held_def open_stream_def by metis
    have yx: "y = x" using inj_onD [OF inj, of y x] y(1,2) x rid by simp
    have q: "queue_of ?w j = (if j = k then map StreamToken (output_token_ids r) else queue_of w j)" for j
      using r(3) y(5) by (auto simp: emit_token_def r(1) Some yx one_more_def put_item_def)
    have same: "ew_streams ?w = ew_streams w" "ew_incoming ?w = ew_incoming w" "ew_next_handle ?w = ew_next_handle w"
      by (simp_all add: emit_token_def Let_def split: option.splits)
    have ga: "prompt_token_ids r = fst (ask k)" "sampling_params r = snd (ask k)" using y(3,4) r(2) by (simp_all add: yx same_ask_def)
    have "open_stream ask (objs(x := r)) L (queue_of ?w k) ?rid k" using x ga by (auto simp: open_stream_def q intro!: bexI [of _ x])
    moreover have "k' = k" if "(?rid, k') \<in> set (ew_streams w)" for k'
      using that Some ok by (simp add: streams_ok_def)
    moreover have "relayed f (ask k) (queue_of ?w k)"
      using relayed_open [of "output_token_ids r" f "ask k"] r(4) ga by (simp add: q greedy_output_def greedy_answer_def)
    moreover have "queue_of ?w k' = queue_of w k'" if "(rid, k') \<in> set (ew_streams w)" "rid \<noteq> ?rid" for rid k'
      using ap(1) [OF that] by (simp add: q)
    moreover have "queue_of ?w (sub_handle sub) = queue_of w (sub_handle sub)" if "Submission sub \<in> set (ew_incoming w)" for sub
      using ap(2) [OF that] by (simp add: q)
    ultimately show ?thesis using h keep unfolding held_def same by (metis q)
  qed
qed

lemma held_emit_tokens:
  assumes h: "held f ask ok objs L w" and ok: "streams_ok K w" and inj: "inj_on (\<lambda>x. request_id (objs x)) L"
    and ask: "\<forall>x. same_ask (objs x) (s_objs (es_scheduler E (ew_engine w)) x)"
    and S: "distinct (stepped out)" "set (stepped out) \<subseteq> L"
    and new: "\<forall>x \<in> set (stepped out). one_more (output_token_ids (objs x)) (output_token_ids (s_objs (es_scheduler E (ew_engine w)) x))"
    and old: "\<forall>x. x \<notin> set (stepped out) \<longrightarrow> output_token_ids (s_objs (es_scheduler E (ew_engine w)) x) = output_token_ids (objs x)"
    and pre: "\<forall>x \<in> L. prefix (output_token_ids (s_objs (es_scheduler E (ew_engine w)) x)) (greedy_output f (s_objs (es_scheduler E (ew_engine w)) x))"
  shows "held f ask ok (s_objs (es_scheduler E (ew_engine w))) L (emit_tokens E out w)"
proof -
  let ?o = "s_objs (es_scheduler E (ew_engine w))"
  let ?m = "\<lambda>xs x. if x \<in> set xs then ?o x else objs x"
  have ids: "inj_on (\<lambda>x. request_id (?m xs x)) L" for xs
    using inj ask by (auto simp: inj_on_def same_ask_def split: if_splits)
  have "held f ask ok (?m xs) L (fold (emit_token E) xs w)" if "distinct xs" "set xs \<subseteq> set (stepped out)" for xs
    using that
  proof (induction xs rule: rev_induct)
    case Nil
    then show ?case using h by simp
  next
    case (snoc x xs)
    let ?v = "fold (emit_token E) xs w"
    have v: "streams_ok K ?v \<and> ew_engine ?v = ew_engine w"
    proof (induction xs rule: rev_induct)
      case (snoc y ys)
      then show ?case using emit_token_ok [of K "fold (emit_token E) ys w" E y] by simp
    qed (use ok in simp)
    have x: "x \<in> set (stepped out)" "x \<notin> set xs" "x \<in> L" using snoc.prems S(2) by auto
    have "held f ask ok ((?m xs)(x := ?o x)) L (emit_token E x ?v)"
      by (rule held_emit_token [OF _ v [THEN conjunct1] ids x(3)]) (use snoc v ask new pre x in auto)
    moreover have "(?m xs)(x := ?o x) = ?m (xs @ [x])" by auto
    ultimately show ?case by simp
  qed
  from this [OF S(1) order_refl] have "held f ask ok (?m (stepped out)) L (emit_tokens E out w)" by (simp add: emit_tokens_def)
  then show ?thesis by (rule held_objs) (use ask old in \<open>auto simp: same_ask_def\<close>)
qed

subsection \<open>The engine thread keeps its streams\<close>

lemma llm_shape [simp]:
  "es_scheduler (llm_engine_shape name) = e_sched" "es_step (llm_engine_shape name) = engine_step"
  "es_put (llm_engine_shape name) s e = e\<lparr>e_sched := s\<rparr>"
  "es_add (llm_engine_shape name) x prompt sp rid e = engine_add_request name x prompt (Some sp) (Some rid) e"
  by (simp_all add: llm_engine_shape_def)

definition stream_state :: "(int list \<Rightarrow> int) \<Rightarrow> (href \<Rightarrow> int list \<times> sampling_params) \<Rightarrow> (request \<Rightarrow> bool)
    \<Rightarrow> ('a::floor_ceiling engine, 'z) worker_scheme \<Rightarrow> bool" where
  "stream_state f ask ok w \<longleftrightarrow> (\<exists>X. plain_inv X (ew_engine w) \<and> (\<forall>x \<in> X. x < ew_next_request w))
     \<and> greedy_next (e_runner (ew_engine w)) = f \<and> servable (e_runner (ew_engine w)) = ok
     \<and> held f ask ok (s_objs (e_sched (ew_engine w))) (live_requests (e_sched (ew_engine w))) w"

lemma plain_live:
  assumes "plain_inv X e" "greedy_next (e_runner e) = f" "x \<in> X"
  shows "prefix (output_token_ids (s_objs (e_sched e) x)) (greedy_output f (s_objs (e_sched e) x))"
    "is_finished (s_objs (e_sched e) x) \<Longrightarrow> output_token_ids (s_objs (e_sched e) x) = greedy_output f (s_objs (e_sched e) x)"
proof -
  have s: "served f (s_objs (e_sched e) x)" using assms plain_coreD(8) by (auto simp: plain_inv_def)
  show "prefix (output_token_ids (s_objs (e_sched e) x)) (greedy_output f (s_objs (e_sched e) x))" by (rule served_prefix [OF s])
  show "is_finished (s_objs (e_sched e) x) \<Longrightarrow> output_token_ids (s_objs (e_sched e) x) = greedy_output f (s_objs (e_sched e) x)"
    using s by (simp add: served_def)
qed

lemma plain_live_inv: "plain_inv X e \<Longrightarrow> sched_inv (e_sched e)" "plain_inv X e \<Longrightarrow> live_requests (e_sched e) \<subseteq> X"
  using plain_coreD(1,6) [of X "[]" "e_runner e" "e_sched e"] by (simp_all add: plain_inv_def live_requests_def)

lemma finish_stream_next_request [simp]: "ew_next_request (finish_stream rid st w) = ew_next_request w"
  by (simp add: finish_stream_def Let_def split: option.splits)

lemma finish_next_request [simp]: "ew_next_request (finish E xs w) = ew_next_request w"
proof -
  have "ew_next_request (fold (\<lambda>x. finish_stream (g x) (k x)) xs w) = ew_next_request w" for g k and w :: "('a, 'b) worker_scheme"
    by (induction xs arbitrary: w) simp_all
  then show ?thesis by (simp add: finish_eq)
qed

lemma emit_tokens_next_request [simp]: "ew_next_request (emit_tokens E out w) = ew_next_request w"
proof -
  have "ew_next_request (fold (emit_token E) xs w) = ew_next_request w" for xs and w :: "('a, 'b) worker_scheme"
    by (induction xs arbitrary: w) (simp_all add: emit_token_def Let_def split: option.splits)
  then show ?thesis by (simp add: emit_tokens_def)
qed

lemma record_step_frame:
  assumes "record_step E out seconds t w = Inr w'"
  shows "ew_streams w' = ew_streams w" "ew_incoming w' = ew_incoming w" "ew_next_handle w' = ew_next_handle w"
    "ew_engine w' = ew_engine w" "ew_next_request w' = ew_next_request w" "queue_of w' h = queue_of w h"
proof -
  have n: "ew_next_request (fold (record_admission E t) xs v) = ew_next_request v" for xs and v :: "('a, 'b) worker_scheme"
    by (induction xs arbitrary: v) (simp_all add: record_admission_def Let_def split: option.splits)
  obtain m m' where w': "w' = (fold (record_admission E t) (map fst (scheduled_new out)) (w\<lparr>ew_metrics := m\<rparr>))\<lparr>ew_metrics := m'\<rparr>"
    using assms unfolding record_step_def Let_def by (simp split: if_splits) blast
  show "ew_streams w' = ew_streams w" "ew_incoming w' = ew_incoming w" "ew_next_handle w' = ew_next_handle w"
    "ew_engine w' = ew_engine w" "ew_next_request w' = ew_next_request w" "queue_of w' h = queue_of w h"
    by (simp_all add: w' record_admissions_same n)
qed

lemma abort_streaming:
  assumes s: "stream_state f ask ok w" and ok: "streams_ok K w" and a: "abort_and_finish (llm_engine_shape name) rids w = Inr w'"
  shows "stream_state f ask ok w'"
proof -
  let ?e = "ew_engine w" and ?E = "llm_engine_shape name"
  obtain X where X: "plain_inv X ?e" "\<forall>x \<in> X. x < ew_next_request w" and f: "greedy_next (e_runner ?e) = f" "servable (e_runner ?e) = ok"
    and h: "held f ask ok (s_objs (e_sched ?e)) (live_requests (e_sched ?e)) w" using s by (auto simp: stream_state_def)
  obtain s' gone where ab: "abort_requests (set rids) (e_sched ?e) = Inr (s', gone)"
    and w': "w' = finish ?E gone (w\<lparr>ew_engine := ?e\<lparr>e_sched := s'\<rparr>\<rparr>)"
    using a by (auto simp: abort_and_finish_def bindE_Inr_iff)
  let ?w = "w\<lparr>ew_engine := ?e\<lparr>e_sched := s'\<rparr>\<rparr>"
  note A = plain_abort [OF X(1) ab]
  have obj: "s_objs (es_scheduler ?E (ew_engine ?w)) = s_objs s'" by simp
  have inj: "inj_on (\<lambda>x. request_id (s_objs s' x)) (live_requests (e_sched ?e))"
    using live_inj [OF plain_live_inv(1) [OF X(1)]] A(5) by (simp add: same_ask_def)
  have st: "let r = s_objs s' x in prefix (output_token_ids r) (greedy_output f r)
      \<and> (status r = FINISHED_ABORTED \<or> output_token_ids r = greedy_output f r)" if "x \<in> set gone" for x
  proof -
    have "x \<in> X" using that A(3) plain_live_inv(2) [OF X(1)] by blast
    from plain_live(1) [OF X(1) f(1) this] show ?thesis
      using that A(4,5) same_ask_output [of "s_objs (e_sched ?e) x" "s_objs s' x" f] by (simp add: Let_def)
  qed
  have "held f ask ok (s_objs s') (live_requests (e_sched ?e)) w" by (rule held_objs [OF h]) (use A(5) in blast)
  moreover have "held f ask ok (s_objs s') (live_requests (e_sched ?e)) ?w = held f ask ok (s_objs s') (live_requests (e_sched ?e)) w"
    by (rule held_cong) simp_all
  moreover have "streams_ok K ?w = streams_ok K w" by (rule streams_ok_cong) simp_all
  ultimately have "held f ask ok (s_objs s') (live_requests (e_sched ?e) - set gone) w'"
    using held_finish [of ?E ?w "live_requests (e_sched ?e)" gone f ask ok K, unfolded obj] inj A(3) st ok by (simp add: w')
  then show ?thesis using A(1,2) X(2) f by (auto simp: stream_state_def w')
qed

lemma sweep_streaming:
  assumes "stream_state f ask ok w" "streams_ok K w" "sweep_timeouts (llm_engine_shape name) now w = Inr w'"
  shows "stream_state f ask ok w'"
  using assms abort_streaming by (auto simp: sweep_timeouts_def split: if_splits)

lemma publish_streaming:
  assumes s: "stream_state f ask ok w" and ok: "streams_ok K w" and whole: "recomputes_whole (ew_engine w)"
    and p: "step_and_publish (llm_engine_shape name) seconds t w = Some (Inr w')"
  shows "stream_state f ask ok w'"
proof (cases "has_unfinished_requests (e_sched (ew_engine w))")
  case False
  then show ?thesis using s p by (simp add: step_and_publish_def)
next
  case True
  let ?e = "ew_engine w" and ?E = "llm_engine_shape name" and ?L = "live_requests (e_sched (ew_engine w))"
  obtain X where X: "plain_inv X ?e" "\<forall>x \<in> X. x < ew_next_request w" and f: "greedy_next (e_runner ?e) = f" "servable (e_runner ?e) = ok"
    and h: "held f ask ok (s_objs (e_sched ?e)) ?L w" using s by (auto simp: stream_state_def)
  obtain e' out fin where e': "engine_step ?e = Some (Inr (e', out, fin))" "plain_inv X e'"
    "greedy_next (e_runner e') = greedy_next (e_runner ?e)" "servable (e_runner e') = servable (e_runner ?e)"
    and ask: "\<forall>x. same_ask (s_objs (e_sched ?e) x) (s_objs (e_sched e') x)"
    and S: "distinct (stepped out)" "set (stepped out) \<subseteq> ?L"
    and outs: "\<forall>x. x \<notin> set (stepped out) \<longrightarrow> output_token_ids (s_objs (e_sched e') x) = output_token_ids (s_objs (e_sched ?e) x)"
      "\<forall>x \<in> set (stepped out). one_more (output_token_ids (s_objs (e_sched ?e) x)) (output_token_ids (s_objs (e_sched e') x))"
    and fin: "\<forall>x \<in> set fin. x \<in> X \<and> is_finished (s_objs (e_sched e') x) \<and> status (s_objs (e_sched e') x) \<noteq> FINISHED_ABORTED"
      "live_requests (e_sched e') = ?L - set fin" "set fin \<subseteq> ?L"
    by (rule plain_step_streams [OF X(1) whole])
  obtain w1 where r: "record_step ?E out seconds t (w\<lparr>ew_engine := e'\<rparr>) = Inr w1" and w': "w' = finish ?E fin (emit_tokens ?E out w1)"
    using p True e'(1) by (auto simp: step_and_publish_def bindR_Inr_iff)
  note R = record_step_frame [OF r]
  have "held f ask ok (s_objs (e_sched ?e)) ?L w1 = held f ask ok (s_objs (e_sched ?e)) ?L w" by (rule held_cong) (simp_all add: R)
  then have h1: "held f ask ok (s_objs (e_sched ?e)) ?L w1" using h by simp
  have ok1: "streams_ok K w1" using ok record_step_ok(1) [OF r, of K] streams_ok_cong [of "w\<lparr>ew_engine := e'\<rparr>" w K] by simp
  have obj: "s_objs (es_scheduler ?E (ew_engine w1)) = s_objs (e_sched e')" by (simp add: R)
  have inj: "inj_on (\<lambda>x. request_id (s_objs (e_sched ?e) x)) ?L" by (rule live_inj [OF plain_live_inv(1) [OF X(1)]])
  have f': "greedy_next (e_runner e') = f" using e'(3) f(1) by simp
  have pre: "prefix (output_token_ids (s_objs (e_sched e') x)) (greedy_output f (s_objs (e_sched e') x))" if "x \<in> ?L" for x
    by (rule plain_live(1) [OF e'(2) f']) (use that plain_live_inv(2) [OF X(1)] in blast)
  note em = held_emit_tokens [OF h1 ok1 inj, where E = ?E and out = out, unfolded obj, OF ask S outs(2,1)]
  have h2: "held f ask ok (s_objs (e_sched e')) ?L (emit_tokens ?E out w1)" by (rule em) (use pre in blast)
  have e2: "ew_engine (emit_tokens ?E out w1) = e'" "streams_ok K (emit_tokens ?E out w1)"
    using emit_tokens_ok [OF ok1, of ?E out] by (simp_all add: R)
  have obj2: "s_objs (es_scheduler ?E (ew_engine (emit_tokens ?E out w1))) = s_objs (e_sched e')" by (simp add: e2)
  have inj': "inj_on (\<lambda>x. request_id (s_objs (e_sched e') x)) ?L" using inj ask by (simp add: same_ask_def)
  have "let r = s_objs (e_sched e') x in prefix (output_token_ids r) (greedy_output f r)
      \<and> (status r = FINISHED_ABORTED \<or> output_token_ids r = greedy_output f r)" if "x \<in> set fin" for x
    using that fin pre [of x] plain_live(2) [OF e'(2) f', of x] by (auto simp: Let_def)
  then have "held f ask ok (s_objs (e_sched e')) (?L - set fin) w'"
    using held_finish [of ?E "emit_tokens ?E out w1" ?L fin f ask ok K, unfolded obj2] inj' fin(3) h2 e2(2) by (simp add: w')
  then show ?thesis using e' X(2) f fin(2) by (auto simp: stream_state_def w' e2 R)
qed

lemma arrival_fields:
  assumes "engine_add_request name x prompt (Some sp) (Some rid) e = Inr e'"
  shows "s_objs (e_sched e') x = mk_request rid prompt sp" "live_requests (e_sched e') = insert x (live_requests (e_sched e))"
proof -
  let ?s = "(e_sched e)\<lparr>s_objs := (s_objs (e_sched e))(x := mk_request rid prompt sp)\<rparr>"
  obtain s' where s': "add_request x ?s = Inr s'" "e_sched e' = s'" using assms by (auto simp: engine_add_request_def bindE_Inr_iff)
  from add_request_fields [OF s'(1)] show "s_objs (e_sched e') x = mk_request rid prompt sp"
    "live_requests (e_sched e') = insert x (live_requests (e_sched e))" by (auto simp: s'(2) live_requests_def mk_request_def)
qed

lemma submission_streaming:
  assumes s: "stream_state f ask ok w" and str: "streams_ok (known (e_sched (ew_engine w))) w" and q: "ew_incoming w = Submission sub # rest"
    and hs: "handle_submission (llm_engine_shape name) now sub (w\<lparr>ew_incoming := rest\<rparr>) = Inr w'"
  shows "stream_state f ask ok w'"
proof -
  let ?e = "ew_engine w" and ?x = "ew_next_request w" and ?rid = "sub_request_id sub" and ?p = "sub_prompt_token_ids sub"
    and ?sp = "sub_sampling_params sub" and ?h = "sub_handle sub"
  obtain X where X: "plain_inv X ?e" "\<forall>x \<in> X. x < ?x" and f: "greedy_next (e_runner ?e) = f" "servable (e_runner ?e) = ok"
    and h: "held f ask ok (s_objs (e_sched ?e)) (live_requests (e_sched ?e)) w" using s by (auto simp: stream_state_def)
  obtain e1 where add: "engine_add_request name ?x ?p (Some ?sp) (Some ?rid) ?e = Inr e1"
    and w': "ew_engine w' = e1\<lparr>e_sched := upd_req ?x (\<lambda>r. r\<lparr>arrival_time := now\<rparr>) (e_sched e1)\<rparr>"
      "ew_streams w' = AList.update ?rid ?h (ew_streams w)" "ew_incoming w' = rest" "ew_next_request w' = Suc ?x"
      "ew_next_handle w' = ew_next_handle w" "\<And>k. queue_of w' k = queue_of w k"
    using hs by (auto simp: handle_submission_def Let_def bindE_Inr_iff)
  have sub: "ask ?h = (?p, ?sp)" "\<And>i. ok (mk_request i ?p ?sp)" "queue_of w ?h = []"
    using h q by (auto simp: held_def asked_def)
  have x: "?x \<notin> X" using X(2) by auto
  note A = plain_arrival [OF X(1) x add] and F = arrival_fields [OF add]
  have A1: "plain_inv (insert ?x X) e1" "e_runner e1 = e_runner ?e" "\<forall>y. y \<noteq> ?x \<longrightarrow> s_objs (e_sched e1) y = s_objs (e_sched ?e) y"
    using A(1-3) sub(2) f(2) by simp_all
  have inv': "plain_inv (insert ?x X) (ew_engine w')" by (rule plain_arrival_time [OF A1(1)]) (rule w'(1))
  have obj: "s_objs (e_sched (ew_engine w')) y = (if y = ?x then (mk_request ?rid ?p ?sp)\<lparr>arrival_time := now\<rparr> else s_objs (e_sched ?e) y)" for y
    using A1(3) F(1) by (simp add: w'(1) upd_req_def)
  have lv: "live_requests (e_sched (ew_engine w')) = insert ?x (live_requests (e_sched ?e))" using F(2) by (simp add: w'(1) live_requests_def upd_req_def)
  have fresh: "?rid \<notin> fst ` set (ew_streams w)" using str llm.add_known [of name ?x ?p ?sp ?rid ?e e1] add by (auto simp: streams_ok_def)
  have st: "ew_streams w' = ew_streams w @ [(?rid, ?h)]" using fresh by (simp add: w'(2) alist_update_fresh map_of_eq_None_iff)
  have old: "open_stream ask (s_objs (e_sched (ew_engine w'))) (live_requests (e_sched (ew_engine w'))) items rid k"
    if os: "open_stream ask (s_objs (e_sched ?e)) (live_requests (e_sched ?e)) items rid k" for items rid k
  proof -
    obtain y where y: "y \<in> live_requests (e_sched ?e)" "request_id (s_objs (e_sched ?e) y) = rid" "prompt_token_ids (s_objs (e_sched ?e) y) = fst (ask k)"
      "sampling_params (s_objs (e_sched ?e) y) = snd (ask k)" "items = map StreamToken (output_token_ids (s_objs (e_sched ?e) y))"
      using os unfolding open_stream_def by blast
    have "y \<noteq> ?x" using y(1) plain_live_inv(2) [OF X(1)] x by blast
    then show ?thesis using y unfolding open_stream_def lv by (intro bexI [of _ y]) (simp_all add: obj)
  qed
  have new: "open_stream ask (s_objs (e_sched (ew_engine w'))) (live_requests (e_sched (ew_engine w'))) (queue_of w' ?h) ?rid ?h"
    unfolding open_stream_def lv by (intro bexI [of _ ?x]) (simp_all add: obj sub w'(6) mk_request_def)
  have "held f ask ok (s_objs (e_sched (ew_engine w'))) (live_requests (e_sched (ew_engine w'))) w'"
    using h old new unfolding held_def by (auto simp: st w'(3,5,6) q)
  then show ?thesis using inv' X(2) f A1(2) by (auto simp: stream_state_def w' less_Suc_eq)
qed

subsection \<open>Every interleaving of clients and thread\<close>

definition all_relayed :: "(int list \<Rightarrow> int) \<Rightarrow> (href \<Rightarrow> int list \<times> sampling_params) \<Rightarrow> ('e, 'z) worker_scheme \<Rightarrow> bool" where
  "all_relayed f ask w \<longleftrightarrow> (\<forall>h < ew_next_handle w. relayed f (ask h) (queue_of w h))"

definition stream_inv :: "(int list \<Rightarrow> int) \<Rightarrow> (href \<Rightarrow> int list \<times> sampling_params) \<Rightarrow> (request \<Rightarrow> bool)
    \<Rightarrow> 'a::floor_ceiling engine worker_system \<Rightarrow> bool" where
  "stream_inv f ask ok sy \<longleftrightarrow> all_relayed f ask sy
     \<and> (case sy_pc sy of Failing _ _ \<Rightarrow> True | Dead _ \<Rightarrow> True | _ \<Rightarrow> stream_state f ask ok sy)"

lemma stream_state_relayed: "stream_state f ask ok w \<Longrightarrow> all_relayed f ask w"
  by (auto simp: stream_state_def held_def all_relayed_def)

lemma stream_state_cong:
  assumes "ew_engine w' = ew_engine w" "ew_next_request w' = ew_next_request w" "ew_streams w' = ew_streams w"
    "ew_incoming w' = ew_incoming w" "ew_next_handle w' = ew_next_handle w" "\<And>h. queue_of w' h = queue_of w h"
  shows "stream_state f ask ok w' = stream_state f ask ok w"
  using assms held_cong [of w' w] by (simp add: stream_state_def)

lemma stream_state_drop: "stream_state f ask ok w \<Longrightarrow> set rest \<subseteq> set (ew_incoming w) \<Longrightarrow> stream_state f ask ok (w\<lparr>ew_incoming := rest\<rparr>)"
  by (auto simp: stream_state_def held_def)

lemma thread_result_stream:
  assumes "all_relayed f ask sy" "nxt \<in> {At_top, Draining, Sweeping, Stepping}"
    and "\<And>sy'. res = Inr sy' \<Longrightarrow> stream_state f ask ok sy'"
  shows "stream_inv f ask ok (thread_result nxt lost res sy)"
proof (cases res)
  case (Inl err)
  then show ?thesis using assms(1) by (simp add: thread_result_def stream_inv_def all_relayed_def)
next
  case (Inr sy')
  have "stream_state f ask ok (sy'\<lparr>sy_pc := nxt\<rparr>)" using assms(3) [OF Inr] stream_state_cong [of "sy'\<lparr>sy_pc := nxt\<rparr>" sy'] by simp
  then show ?thesis using stream_state_relayed assms(2) by (auto simp: Inr thread_result_def stream_inv_def)
qed

lemma all_relayed_end:
  "all_relayed f ask w \<Longrightarrow> all_relayed f ask (put_item h (StreamEnd FINISHED_ABORTED) w)"
  by (auto simp: all_relayed_def relayed_abort)

lemma all_relayed_end_all: "all_relayed f ask w \<Longrightarrow> all_relayed f ask (end_all hs w)"
proof -
  assume "all_relayed f ask w"
  then have "all_relayed f ask (fold (\<lambda>h. put_item h (StreamEnd FINISHED_ABORTED)) hs w)"
    by (induction hs arbitrary: w) (simp_all add: all_relayed_end)
  then show ?thesis by (simp add: end_all_def all_relayed_def)
qed

lemma thread_stream:
  assumes wi: "worker_inv (llm_engine_shape name) sy" and si: "stream_inv f ask ok sy"
    and whole: "sy_pc sy = Stepping \<Longrightarrow> recomputes_whole (ew_engine sy)"
    and st: "engine_thread (llm_engine_shape name) now seconds t sy = Some sy'"
  shows "stream_inv f ask ok sy'"
proof -
  let ?E = "llm_engine_shape name"
  have rel: "all_relayed f ask sy" using si by (simp add: stream_inv_def)
  have ok: "streams_ok (known (e_sched (ew_engine sy))) sy" and s: "stream_state f ask ok sy"
    if "sy_pc sy \<in> {At_top, Draining, Sweeping, Stepping}" using wi si that by (auto simp: worker_inv_def stream_inv_def)
  have pc: "stream_inv f ask ok (sy\<lparr>sy_pc := p\<rparr>)" if "stream_state f ask ok sy" "p \<in> {Draining, Sweeping, Stopped}" for p
    using that stream_state_cong [of "sy\<lparr>sy_pc := p\<rparr>" sy] rel by (auto simp: stream_inv_def all_relayed_def)
  show ?thesis
  proof (cases "sy_pc sy")
    case At_top
    then show ?thesis using st pc s by (auto simp: engine_thread_def loop_top_def)
  next
    case Draining
    show ?thesis
    proof (cases "ew_incoming sy")
      case Nil
      then show ?thesis using st pc s Draining by (auto simp: engine_thread_def drain_stage_def)
    next
      case (Cons i rest)
      let ?sy = "sy\<lparr>ew_incoming := rest\<rparr>"
      have sy': "sy' = thread_result Draining (handle_of i) (drain_item ?E now i ?sy) ?sy"
        using st Draining by (simp add: engine_thread_def drain_stage_def Cons Let_def)
      have s1: "stream_state f ask ok ?sy" by (rule stream_state_drop) (use s Draining Cons in auto)
      have "stream_state f ask ok sy2" if d: "drain_item ?E now i ?sy = Inr sy2" for sy2
      proof (cases i)
        case (Submission sub)
        have q: "ew_incoming sy = Submission sub # rest" using Cons Submission by simp
        show ?thesis by (rule submission_streaming [OF _ _ q]) (use s ok Draining d in \<open>simp_all add: drain_item_def Submission\<close>)
      next
        case (Abort rid)
        have "streams_ok (known (e_sched (ew_engine sy))) ?sy"
          using ok Draining by (simp add: streams_ok_def open_handles_def accounted_def Cons Abort)
        from abort_streaming [OF s1 this] d show ?thesis by (simp add: drain_item_def Abort)
      qed
      then show ?thesis unfolding sy' by (intro thread_result_stream stream_state_relayed [OF s1]) auto
    qed
  next
    case Sweeping
    then show ?thesis using st sweep_streaming [OF s ok] by (auto simp: engine_thread_def intro!: thread_result_stream rel)
  next
    case Stepping
    then obtain res where res: "step_and_publish ?E seconds t sy = Some res" "sy' = thread_result At_top None res sy"
      using st by (auto simp: engine_thread_def)
    have "stream_state f ask ok sy2" if "res = Inr sy2" for sy2
      using publish_streaming [OF s ok whole [OF Stepping]] res(1) that Stepping by auto
    then show ?thesis unfolding res(2) by (intro thread_result_stream rel) auto
  next
    case (Failing lost hs)
    then show ?thesis
    proof (cases "ew_incoming sy")
      case Nil
      then show ?thesis using st Failing all_relayed_end_all [OF rel, of hs]
        by (auto simp: engine_thread_def abort_everything_def stream_inv_def all_relayed_def)
    next
      case (Cons i rest)
      then show ?thesis using st Failing rel by (auto simp: engine_thread_def abort_everything_def stream_inv_def all_relayed_def)
    qed
  qed (use st in \<open>auto simp: engine_thread_def\<close>)
qed

lemma engine_thread_next_handle:
  assumes "worker_inv (llm_engine_shape name) sy" "engine_thread (llm_engine_shape name) now seconds t sy = Some sy'"
  shows "ew_next_handle sy' = ew_next_handle sy"
proof -
  let ?E = "llm_engine_shape name"
  have ok: "streams_ok (llm.ids name sy) sy" if "sy_pc sy \<in> {At_top, Draining, Sweeping, Stepping}"
    using assms(1) that by (auto simp: worker_inv_def)
  have tr: "ew_next_handle (thread_result n l res v) = ew_next_handle v"
    if "\<And>v'. res = Inr v' \<Longrightarrow> ew_next_handle v' = ew_next_handle v" for n l res and v :: "'a engine worker_system"
    using that by (cases res) (simp_all add: thread_result_def)
  show ?thesis
  proof (cases "sy_pc sy")
    case Draining
    show ?thesis
    proof (cases "ew_incoming sy")
      case (Cons i rest)
      have "ew_next_handle v' = ew_next_handle sy" if "drain_item ?E now i (sy\<lparr>ew_incoming := rest\<rparr>) = Inr v'" for v'
        using that by (cases i) (auto simp: drain_item_def handle_submission_def abort_and_finish_def Let_def bindE_Inr_iff)
      then show ?thesis using assms(2) Draining tr [of "drain_item ?E now i (sy\<lparr>ew_incoming := rest\<rparr>)" "sy\<lparr>ew_incoming := rest\<rparr>"]
        by (auto simp: engine_thread_def drain_stage_def Cons Let_def)
    qed (use assms(2) Draining in \<open>auto simp: engine_thread_def drain_stage_def\<close>)
  next
    case Sweeping
    then show ?thesis using assms(2) llm.sweep_ok(3) [OF ok] tr by (auto simp: engine_thread_def)
  next
    case Stepping
    then obtain z where z: "step_and_publish ?E seconds t sy = Some z" "sy' = thread_result At_top None z sy"
      using assms(2) by (auto simp: engine_thread_def)
    have "ew_next_handle v' = ew_next_handle sy" if "z = Inr v'" for v' using llm.publish_ok(3) [OF ok] z(1) that Stepping by simp
    then show ?thesis unfolding z(2) by (rule tr)
  next
    case (Failing lost hs)
    then show ?thesis using assms(2)
      by (auto simp: engine_thread_def abort_everything_def end_all_def fold_end_frame split: list.splits)
  qed (use assms(2) in \<open>auto simp: engine_thread_def loop_top_def\<close>)
qed

lemma step_stream:
  assumes wi: "worker_inv (llm_engine_shape name) sy" and si: "stream_inv f ask ok sy"
    and st: "worker_step (llm_engine_shape name) ev sy = Some sy'"
    and new: "\<And>u p sp rid t. ev = Submit_put u p sp rid t \<Longrightarrow> ask (ew_next_handle sy) = (p, sp) \<and> (\<forall>i. ok (mk_request i p sp))"
    and whole: "\<And>now s t. ev = Engine_thread now s t \<Longrightarrow> sy_pc sy = Stepping \<Longrightarrow> recomputes_whole (ew_engine sy)"
  shows "stream_inv f ask ok sy'"
proof (cases ev)
  case (Submit_put u p sp rid t)
  let ?s = "submit_put u p sp rid t sy" and ?n = "ew_next_handle sy"
  note F = submit_put_fields [of u p sp rid t sy] submit_put_system [of u p sp rid t sy]
  obtain sub where sub: "ew_incoming ?s = ew_incoming sy @ [Submission sub]" "sub_handle sub = ?n"
      "sub_prompt_token_ids sub = p" "sub_sampling_params sub = sp"
    by (simp add: submit_put_def Let_def)
  have sy': "sy' = ?s\<lparr>sy_checking := sy_checking sy @ [?n]\<rparr>" using st Submit_put by simp
  have r0: "relayed f a []" for a using relayed_open [of "[]" f a] by simp
  have rel: "all_relayed f ask ?s" using si r0 by (auto simp: stream_inv_def all_relayed_def F(5,7) less_Suc_eq)
  have "stream_state f ask ok ?s" if s: "stream_state f ask ok sy" and lt: "\<forall>h \<in> set (open_handles sy). h < ?n"
  proof -
    have q: "queue_of ?s h = queue_of sy h" if "h \<in> set (open_handles sy)" for h using that lt F(7) by auto
    have qs: "queue_of ?s h = queue_of sy h" if "(rd, h) \<in> set (ew_streams sy)" for rd h
      by (rule q) (use that in \<open>force simp: open_handles_def\<close>)
    have qi: "queue_of ?s (sub_handle sb) = queue_of sy (sub_handle sb)" if "Submission sb \<in> set (ew_incoming sy)" for sb
      by (rule q) (use queued_handle [OF that] in \<open>simp add: open_handles_def\<close>)
    have "asked ask ok sub" using new [OF Submit_put] by (simp add: asked_def sub)
    moreover have "held f ask ok objs L sy \<Longrightarrow> asked ask ok sub \<Longrightarrow> held f ask ok objs L ?s" for objs L
      using qs qi rel by (auto simp: held_def all_relayed_def F(2,5,7) sub)
    ultimately show ?thesis using s by (auto simp: stream_state_def F(3,4))
  qed
  moreover have "stream_state f ask ok sy' = stream_state f ask ok ?s" by (rule stream_state_cong) (simp_all add: sy')
  ultimately show ?thesis using wi si rel
    by (auto simp: stream_inv_def worker_inv_def streams_ok_def sy' F(8-) all_relayed_def split: engine_pc.splits)
next
  case (Submit_check h)
  then have sy': "sy' = (submit_check h sy)\<lparr>sy_checking := remove1 h (sy_checking sy)\<rparr>" using st by (auto split: if_splits)
  show ?thesis
  proof (cases "ew_error sy = None")
    case True
    have "stream_state f ask ok sy' = stream_state f ask ok sy" by (rule stream_state_cong) (simp_all add: sy' submit_check_def True)
    then show ?thesis using si by (auto simp: stream_inv_def sy' submit_check_def True all_relayed_def split: engine_pc.splits)
  next
    case False
    then have "\<exists>l hs. sy_pc sy = Failing l hs \<or> sy_pc sy = Dead l" using wi by (auto simp: worker_inv_def streams_ok_def split: engine_pc.splits)
    moreover have "all_relayed f ask (put_item h (StreamEnd FINISHED_ABORTED) sy)" using si by (simp add: stream_inv_def all_relayed_end)
    ultimately show ?thesis using False by (auto simp: stream_inv_def sy' submit_check_def all_relayed_def)
  qed
next
  case (Client_abort rid)
  have "held f ask ok objs L (abort rid sy) = held f ask ok objs L sy" for objs L by (auto simp: held_def abort_def)
  then show ?thesis using si st Client_abort by (auto simp: stream_inv_def stream_state_def all_relayed_def abort_def split: engine_pc.splits)
next
  case Stop
  have "stream_state f ask ok (sy\<lparr>ew_stop := True\<rparr>) = stream_state f ask ok sy" by (rule stream_state_cong) simp_all
  then show ?thesis using si st Stop by (auto simp: stream_inv_def all_relayed_def split: engine_pc.splits)
next
  case (Engine_thread now s t)
  then show ?thesis using thread_stream [OF wi si _, of now s t sy'] whole [OF Engine_thread] st by simp
qed

definition submissions :: "worker_event list \<Rightarrow> (int list \<times> sampling_params) list" where
  "submissions evs = List.map_filter (\<lambda>ev. case ev of Submit_put _ p sp _ _ \<Rightarrow> Some (p, sp) | _ \<Rightarrow> None) evs"

lemma submissions_simps [simp]:
  "submissions [] = []" "submissions (Submit_put u p sp rid t # evs) = (p, sp) # submissions evs"
  "submissions (Submit_check h # evs) = submissions evs" "submissions (Client_abort r # evs) = submissions evs"
  "submissions (Stop # evs) = submissions evs" "submissions (Engine_thread now s n # evs) = submissions evs"
  by (simp_all add: submissions_def List.map_filter_def)

text \<open>At no step of the run does a resumed request get a chunk that ends before its last token.\<close>

fun recomputing :: "'a::floor_ceiling engine engine_shape \<Rightarrow> worker_event list \<Rightarrow> 'a engine worker_system \<Rightarrow> bool" where
  "recomputing E [] sy = True"
| "recomputing E (ev # evs) sy =
     ((case ev of Engine_thread _ _ _ \<Rightarrow> sy_pc sy = Stepping \<longrightarrow> recomputes_whole (ew_engine sy) | _ \<Rightarrow> True)
      \<and> (case worker_step E ev sy of None \<Rightarrow> True | Some sy' \<Rightarrow> recomputing E evs sy'))"

lemma run_stream:
  assumes "worker_inv (llm_engine_shape name) sy" "stream_inv f ask ok sy" "worker_run (llm_engine_shape name) evs sy = Some sy'"
    and "\<forall>i < length (submissions evs). ask (ew_next_handle sy + i) = submissions evs ! i"
    and "\<forall>(p, sp) \<in> set (submissions evs). \<forall>i. ok (mk_request i p sp)"
    and "recomputing (llm_engine_shape name) evs sy"
  shows "stream_inv f ask ok sy'"
  using assms
proof (induction evs arbitrary: sy)
  case (Cons ev evs)
  let ?E = "llm_engine_shape name"
  obtain sy1 where s1: "worker_step ?E ev sy = Some sy1" "worker_run ?E evs sy1 = Some sy'"
    using Cons.prems(3) by (auto split: option.splits)
  have w1: "worker_inv ?E sy1" by (rule worker_step_inv [OF llm.engine_iface_axioms Cons.prems(1) s1(1)])
  have si1: "stream_inv f ask ok sy1"
  proof (rule step_stream [OF Cons.prems(1,2) s1(1)])
    show "ask (ew_next_handle sy) = (p, sp) \<and> (\<forall>i. ok (mk_request i p sp))" if "ev = Submit_put u p sp rid t" for u p sp rid t
      using Cons.prems(4,5) that by force
  qed (use Cons.prems(6) in auto)
  have n: "ew_next_handle sy1 = ew_next_handle sy + length (submissions [ev])"
    using s1(1) engine_thread_next_handle [OF Cons.prems(1)]
    by (cases ev) (auto simp: submit_put_fields submit_check_def abort_def split: if_splits)
  have sub: "submissions (ev # evs) = submissions [ev] @ submissions evs" by (cases ev) simp_all
  have "ask (ew_next_handle sy1 + i) = submissions evs ! i" if "i < length (submissions evs)" for i
    using Cons.prems(4) [rule_format, of "length (submissions [ev]) + i"] that unfolding sub n by (simp add: nth_append add.assoc)
  then show ?case using Cons.IH [OF w1 si1 s1(2)] Cons.prems(5,6) s1(1) unfolding sub by auto
qed simp

text \<open>C2: From the stream down to the model, for a server whose engine has neither prefix cache nor drafts
  and a plain KV cache (with \<open>int8_kv\<close>, which is lossy, it need not hold): in
  every interleaving of submissions, cancellations, timeouts and the engine thread, whatever else
  shares the batches, what the client of the \<open>h\<close>-th submission reads is a first part of the greedy
  decoding of its prompt by the dense forward pass, and all of it unless the stream is open or was
  ended by an abort; also when the thread dies.  (Assumed: every prompt submitted is one the model
  can serve, that is not empty, in the vocabulary and with its output within the rotary table, and a
  request resumed after preemption is recomputed at once.)
\<close>

theorem streams_relay_greedy:
  assumes "plain_inv {} e" and "worker_run (llm_engine_shape name) evs (EngineWorker e timeout) = Some sy"
    and "recomputing (llm_engine_shape name) evs (EngineWorker e timeout)"
    and "\<forall>(p, sp) \<in> set (submissions evs). \<forall>i. servable (e_runner e) (mk_request i p sp)"
    and "h < ew_next_handle sy" and "submissions evs ! h = (prompt, sp)"
  shows "\<exists>ts. prefix ts (greedy_decode (greedy_next (e_runner e)) sp prompt (token_limit sp) [])
     \<and> (stream (queue_of sy h) = map StreamToken ts
        \<or> (\<exists>r. stream (queue_of sy h) = map StreamToken ts @ [StreamEnd r]
             \<and> (r = FINISHED_ABORTED \<or> ts = greedy_decode (greedy_next (e_runner e)) sp prompt (token_limit sp) [])))"
proof -
  let ?f = "greedy_next (e_runner e)" and ?ask = "(!) (submissions evs)"
  have "stream_inv ?f ?ask (servable (e_runner e)) (EngineWorker e timeout)"
    using assms(1) by (auto simp: stream_inv_def all_relayed_def stream_state_def held_def EngineWorker_def)
  from run_stream [OF worker_inv_init this assms(2) _ assms(4,3)]
  have "stream_inv ?f ?ask (servable (e_runner e)) sy" by (simp add: EngineWorker_def)
  then have "relayed ?f (submissions evs ! h) (queue_of sy h)" using assms(5) by (simp add: stream_inv_def all_relayed_def)
  from relayed_stream [OF this] show ?thesis by (simp add: assms(6) greedy_answer_def)
qed

subsection \<open>One client, one step\<close>

lemma recomputes_fresh:
  assumes inv: "plain_inv X e" and fresh: "\<forall>x \<in> live_requests (e_sched e). output_token_ids (s_objs (e_sched e) x) = []"
  shows "recomputes_whole e"
proof (rule schedule_ready [OF inv])
  fix s out
  assume sch: "schedule (e_sched e) = Inr (s, out)"
    and G: "\<forall>(x, c) \<in> set (scheduled_new out @ scheduled_running out). x \<in> set (s_running s) \<and> 0 < c \<and> c \<le> num_computed_tokens (s_objs s x)"
    and sets: "set (s_running s @ s_waiting s) = set (s_running (e_sched e) @ s_waiting (e_sched e))"
    and outs: "\<forall>x. output_token_ids (s_objs s x) = output_token_ids (s_objs (e_sched e) x)"
  have "output_token_ids (s_objs s x) = []" if "(x, c) \<in> set (scheduled_new out @ scheduled_running out)" for x c
  proof -
    have "x \<in> set (s_running s @ s_waiting s)" using G that by auto
    then have "x \<in> live_requests (e_sched e)" unfolding sets live_requests_def .
    then show ?thesis using fresh outs by simp
  qed
  then show ?thesis by (auto simp: recomputes_whole_def sch list_all_iff)
qed

lemma recomputing_snoc:
  "recomputing E evs sy \<Longrightarrow> worker_run E evs sy = Some sy1 \<Longrightarrow> (sy_pc sy1 = Stepping \<longrightarrow> recomputes_whole (ew_engine sy1))
     \<Longrightarrow> recomputing E (evs @ [ev]) sy"
proof (induction evs arbitrary: sy)
  case Nil
  then show ?case by (cases ev) (auto split: option.splits)
qed (auto split: option.splits)

lemma one_client_run:
  "\<exists>e1 sy. engine_add_request (\<lambda>_. []) 0 [0, 1, 2] (Some tiny_params) (Some ''a'') (tiny_engine 4 8) = Inr e1
     \<and> worker_run (llm_engine_shape (\<lambda>_. [])) one_client (EngineWorker (tiny_engine 4 8) None) = Some sy
     \<and> sy_pc sy = Stepping \<and> ew_next_handle sy = 1 \<and> recomputing (llm_engine_shape (\<lambda>_. [])) one_client (EngineWorker (tiny_engine 4 8) None)
     \<and> ew_engine sy = e1\<lparr>e_sched := upd_req 0 (\<lambda>r. r\<lparr>arrival_time := 0\<rparr>) (e_sched e1)\<rparr>"
proof -
  obtain e1 where "engine_add_request (\<lambda>_. []) 0 [0, 1, 2] (Some tiny_params) (Some ''a'') (tiny_engine 4 8) = Inr e1"
    by (simp add: engine_add_request_def add_request_def tiny_engine_fresh mk_request_def upd_req_def Let_def)
  then show ?thesis
    by (simp add: one_client_def EngineWorker_def submit_put_def submit_check_def engine_thread_def loop_top_def
      drain_stage_def drain_item_def handle_submission_def thread_result_def sweep_timeouts_def expired_def StreamHandle_def Let_def)
qed

theorem streams_relay_greedy_witness:
  "\<exists>sy. worker_run (llm_engine_shape (\<lambda>_. [])) (one_client @ [Engine_thread 0 0 0]) (EngineWorker (tiny_engine 4 8) None) = Some sy
     \<and> stream (queue_of sy 0) = [StreamToken 0, StreamEnd FINISHED_LENGTH_CAPPED]
     \<and> greedy_decode (greedy_next (e_runner (tiny_engine 4 8))) tiny_params [0, 1, 2] (token_limit tiny_params) [] = [0]"
proof -
  let ?E = "llm_engine_shape (\<lambda>_. [])" and ?e = "tiny_engine 4 8" and ?evs = "one_client @ [Engine_thread 0 0 0]"
  have sv: "servable (e_runner ?e) (mk_request i [0, 1, 2] tiny_params)" for i
    by (rule tiny_servable [of 0]) (simp add: tiny_prompts_def)
  obtain e1 sy where e1: "engine_add_request (\<lambda>_. []) 0 [0, 1, 2] (Some tiny_params) (Some ''a'') ?e = Inr e1"
    and run: "worker_run ?E one_client (EngineWorker ?e None) = Some sy" and pc: "sy_pc sy = Stepping" "ew_next_handle sy = 1"
    and rec: "recomputing ?E one_client (EngineWorker ?e None)"
    and e2: "ew_engine sy = e1\<lparr>e_sched := upd_req 0 (\<lambda>r. r\<lparr>arrival_time := 0\<rparr>) (e_sched e1)\<rparr>"
    using one_client_run by blast
  have inv: "plain_inv {0} (ew_engine sy)"
    by (rule plain_arrival_time [OF plain_arrival(1) [OF tiny_engine_ok _ e1]]) (simp_all add: sv e2)
  have "live_requests (e_sched ?e) = {}" by (simp add: tiny_engine_def LLMEngine_def Scheduler_def live_requests_def Let_def split_def)
  then have "live_requests (e_sched (ew_engine sy)) = {0}" using arrival_fields(2) [OF e1] by (simp add: e2 live_requests_def upd_req_def)
  then have whole: "recomputes_whole (ew_engine sy)"
    using arrival_fields(1) [OF e1] by (intro recomputes_fresh [OF inv]) (simp add: e2 upd_req_def mk_request_def)
  obtain sy' where all: "worker_run ?E ?evs (EngineWorker ?e None) = Some sy'" "ew_next_handle sy' = 1"
    and q: "queue_of sy' 0 = [StreamToken 0, StreamEnd FINISHED_LENGTH_CAPPED]"
    using one_client_served by (auto split: option.splits)
  have sub: "submissions ?evs = [([0, 1, 2], tiny_params)]" by (simp add: one_client_def)
  have "\<exists>ts. stream (queue_of sy' 0) = map StreamToken ts
        \<or> (\<exists>r. stream (queue_of sy' 0) = map StreamToken ts @ [StreamEnd r]
             \<and> (r = FINISHED_ABORTED \<or> ts = greedy_decode (greedy_next (e_runner ?e)) tiny_params [0, 1, 2] (token_limit tiny_params) []))"
    using streams_relay_greedy [OF tiny_engine_ok all(1) recomputing_snoc [OF rec run], of 0 "[0, 1, 2]" tiny_params] whole sv all(2) sub by auto
  then have "greedy_decode (greedy_next (e_runner ?e)) tiny_params [0, 1, 2] (token_limit tiny_params) [] = [0]"
    by (auto simp: q Cons_eq_append_conv Cons_eq_map_conv)
  then show ?thesis using all(1) q by auto
qed

end
