(* ===== verification/Spec2Isabelle.thy ===== *)
theory Spec2Isabelle
  imports PD_Properties Prefix_Cache_Properties Config Model_Properties Engine_Worker_Properties Tune PD_Server
    Flash_Backward Deploy App_Properties Cuda_Graph Hf_Loader Cost Canary Corpus_Properties
    Streaming
begin

text \<open>
  A verification library for lightserve, a small LLM serving engine: continuous batching over a
  paged KV cache with prefix sharing, chunked prefill, preemption, speculative decoding and
  prefill/decode disaggregation; the server thread that runs it; the Triton kernels under it; the
  tools that prepare the machine it runs on; and the pipeline that replaces the model it serves.

  \<^bold>\<open>How the program is put together.\<close>  \<^verbatim>\<open>engine/scheduler.py\<close> decides each step which requests get
  how many tokens, on blocks handed out by \<^verbatim>\<open>engine/block_manager.py\<close>, which shares full blocks
  through the radix trie of \<^verbatim>\<open>engine/prefix_cache.py\<close>.  \<^verbatim>\<open>model/model_runner.py\<close> runs the model
  of \<^verbatim>\<open>model/minimal_llama.py\<close> over the scheduled tokens, reading and writing
  \<^verbatim>\<open>model/kv_cache.py\<close>; \<^verbatim>\<open>model/draft_proposer.py\<close> proposes drafts; \<^verbatim>\<open>model/llm_engine.py\<close>
  is the loop over all of these, \<^verbatim>\<open>model/pd_disaggregation.py\<close> splits it over two engines.
  \<^verbatim>\<open>server/engine_worker.py\<close> and \<^verbatim>\<open>server/pd_role_server.py\<close> own an engine in one thread and talk
  to HTTP handlers through queues.

  \<^bold>\<open>Theories and what they model.\<close>
  \<^item> \<open>Prelude\<close>: results of code that raises (\<open>or_raise\<close>, \<open>bindE\<close>) or may not return (\<open>bindR\<close>,
    \<open>option\<close> around it), loops that stop at an exception (\<open>foldE\<close>, \<open>mapE\<close>), Python's list and
    dictionary operations, and the lemmas on them that every other theory uses.
  \<^item> \<open>Request\<close>, \<open>Config\<close>: \<^verbatim>\<open>engine/request.py\<close>, \<^verbatim>\<open>engine/config.py\<close>.  Requests are mutable
    objects shared by several components, so the scheduler's state holds a heap of them
    (\<open>s_objs\<close>, addresses of type \<open>rref\<close>).
  \<^item> \<open>Prefix_Cache\<close>, \<open>Block_Manager\<close>, \<open>Scheduler\<close>: the three engine components, operation by
    operation.  The block hash is any function \<open>H\<close>.  Lookup is right for all of them; registering
    a prompt asks that no hash it takes is in use under another parent node (\<open>clash_free_insert\<close>,
    \<open>clash_free_register\<close>, a condition of that one step of a run), and \<open>collision_breaks_eviction\<close>
    shows what happens otherwise.
  \<^item> \<open>KV_Cache\<close>, \<open>Kernels\<close>, \<open>Flash_Backward\<close>: the cache with its int8 format, and the kernels.  Numbers are
    those of an ordered field (with floor where the code rounds): the rounding of bf16 and fp32 is
    not modelled.  The model calls the kernels through \<open>mat_mul\<close>, \<open>fused_add_rmsnorm\<close> and
    \<open>attention_heads\<close>, which \<open>matmul_kernel_correct\<close>, the normalisation lemmas and
    \<open>flash_attention_is_softmax\<close> justify.
  \<^item> \<open>Llama\<close>, \<open>Model_Runner\<close>, \<open>Draft_Proposer\<close>, \<open>LLM_Engine\<close>, \<open>PD_Disaggregation\<close>: the model
    and the engines over it.  \<open>exp\<close>, \<open>rsqrt\<close>, \<open>cos\<close> and the like are the record \<open>numerics\<close>.
  \<^item> \<open>Cuda_Graph\<close>, \<open>Hf_Loader\<close>: \<^verbatim>\<open>model/cuda_graph_decode.py\<close>, whose graph replay is a parameter, and
    \<^verbatim>\<open>model/hf_loader.py\<close>, over a parameter that reads a tensor from a file.
  \<^item> \<open>Engine_Worker\<close>, \<open>PD_Server\<close>: the two server threads with their clients, as lists of events, each
    one queue operation of a client or one stage of the thread's loop, so that a list of
    events is an interleaving.  Clock readings are arguments of the events.
  \<^item> \<open>App\<close>: \<^verbatim>\<open>server/app.py\<close> over the engine worker: each connection's coroutines, as what they do
    between two awaits, interleaved with each other and with the engine thread; metrics, traces
    and the request log.  \<open>Py_Round\<close>: Python's \<open>round\<close>.
  \<^item> \<open>Py_Strings\<close>, \<open>Topology\<close>, \<open>Isolate\<close>, \<open>Tune\<close>: \<^verbatim>\<open>infra/os/\<close>.  The machine is a map from paths
    to file contents, reached through functions \<open>rd\<close> and \<open>wr\<close> that may refuse.
  \<^item> \<open>Deploy\<close>: \<^verbatim>\<open>mlops/retrain.py\<close>, \<^verbatim>\<open>promote.py\<close> and the last tasks of
    \<^verbatim>\<open>mlops/dags/drift_retrain.py\<close>.  A task is the list of the changes it makes; a try that is
    cut off has made the first few, and a retry starts again.
  \<^item> \<open>Canary\<close>, \<open>Cost\<close>: \<^verbatim>\<open>canary.py\<close>, whose published accuracy the watch of \<open>Deploy\<close> reads, and
    \<^verbatim>\<open>mlops/cost.py\<close>, the ledger of GPU jobs.
  \<^item> \<open>Corpus\<close>: \<^verbatim>\<open>training/corpus_prep/prepare_corpus.py\<close>, on texts of Latin-1 characters, with 32- and
    64-bit words where numpy has them.

  \<^bold>\<open>What the lemmas show.\<close>
  \<^item> \<open>Scheduler\<close> keeps \<open>sched_inv\<close>: every physical block is free, cached or in exactly the tables
    it is shared by.  \<open>Scheduler_Properties\<close> has the properties of a step over it (totality,
    token and request budgets, order, preemption, progress of the oldest request), through the
    locale \<open>invariant_system\<close> for everything reachable.
  \<^item> \<open>Prefix_Cache_Properties\<close>: lookup finds the longest cached prefix, eviction the least
    recently used leaf.
  \<^item> \<open>Runner_Refinement\<close>, \<open>Engine_Refinement\<close>: the paged, batched, chunked execution refines the
    dense forward pass of one request alone; the invariant \<open>plain_inv\<close> of an engine without
    prefix cache and drafts says that each request stands at a stage of greedy decoding and
    that the cache holds the dense rows of the tokens computed so far.
    It speaks of plain KV caches: an int8 cache stores rounded rows, and what decoding over it gives
    is not claimed (\<open>Model_Properties\<close> bounds the rounding of each row).
  \<^item> \<open>Engine_Properties\<close>, \<open>Model_Properties\<close>: what follows for \<open>generate\<close> and for speculative
    rounds, and for the cache and the kernels.
  \<^item> \<open>PD_Properties\<close>: \<open>prefill\<close> on an idle engine returns, and \<open>generate_disaggregated\<close> decodes
    greedily; between two idle engines it always completes.
  \<^item> \<open>Flash_Backward\<close>: the tiled sweep and any order of its atomic adds give the dense formula, and
    that formula is the derivative of what the forward kernel computes.
  \<^item> \<open>Engine_Worker_Properties\<close>: what the worker needs of an engine is the locale \<open>engine_iface\<close>,
    interpreted for \<open>LLMEngine\<close>; every stream ends at most once, and ends when the thread dies.
    \<open>Streaming\<close> joins it to \<open>Engine_Refinement\<close>: what a client reads is a first part of the greedy
    decoding of its prompt, and all of it when the stream ends by itself.
  \<^item> \<open>App_Properties\<close>: what is sent to a client is its stream, the metrics add up, and a departed
    client's request is cancelled; a run of the server is a run of the worker beneath it.
  \<^item> \<open>PD_Server\<close>: every hand-off is answered at most once.
  \<^item> \<open>Isolate\<close>, \<open>Tune\<close>: steering or tuning, however often, then restoring once puts every file
    back, over the locales \<open>obedient_os\<close> and \<open>os_frame\<close>; \<open>Topology\<close>: parsing inverts printing,
    and layouts partition the cores.
  \<^item> \<open>Deploy\<close>: what a passed gate means (the sign test is the exact tail of fair coin flips), and
    that a rollback undoes a deploy whatever tries were cut off.
  \<^item> \<open>Cuda_Graph\<close>: recomputing over a buffer of fixed size, captured or not, decodes greedily.
    \<open>Hf_Loader\<close>: loading restores the weights a checkpoint stores.  \<open>Canary\<close>: the watch counts no
    round another model answered.  \<open>Cost\<close>: a session is stopped once, and the series add up.
  \<^item> \<open>Corpus_Properties\<close>: the filings kept are clean and unlike each other, by an invariant of the
    first pass over all of them; the shards hold their tokens, in order.

  \<^bold>\<open>Loops.\<close>  A loop whose end depends on its data is a \<open>partial_function (option)\<close> or carries fuel.
  \<open>grow_shadow\<close> returns whenever the block size is positive (\<open>ensure_shadow_capacity_returns\<close>).
  \<open>decode_until_finished\<close> and \<open>run_steps\<close> take the code's own step limits.
  \<open>prefill_loop\<close> is the code's unbounded \<open>while\<close>; on an idle engine that can admit the prompt it
  returns (\<open>prefill_loop_returns\<close>: each step computes at least one more token of the prompt).
  \<open>next_power_of_2\<close> takes its argument as fuel, enough since each turn doubles.

  \<^bold>\<open>Not modelled, and why.\<close>  FastAPI's routing and validation, \<open>/metrics\<close> and command lines (I/O over the
  modelled operations); what torch does when it captures or replays a graph, and the safetensors format;
  the rounding of number formats; the training, fine-tune data, benchmark and chaos scripts (calls of
  third-party libraries, random sampling, text processing by regular expressions); Terraform,
  Docker and monitoring files.  The calculator and the number reader of the answer checker are
  parameters of \<open>Deploy\<close>.

  \<^bold>\<open>Where the code and its documentation part.\<close>  Beside the theorems that prove a flaw
  (\<open>can_allocate_overcommits\<close>, \<open>collision_breaks_eviction\<close>, \<open>short_chunk_commits_early\<close>,
  \<open>rejected_submission_never_ends\<close>, \<open>departed_client_aborted\<close>, \<open>restore_stops_at_os_error\<close>, \<open>retried_deploy_loses_rollback\<close>,
  \<open>straddling_reading_mixes\<close>),
  hypotheses of the positive ones name the conditions that exclude them, e.g. \<open>whole_chunks\<close> (no
  chunk of a resumed request ends between its prompt and its last token).
\<close>

end
